(* ===== verification/GoPrelude.thy ===== *)
theory GoPrelude
  imports Main "HOL-Library.Word"
begin

text \<open>
  Shared vocabulary of the development: the machine integers of Go, the outcome of a Go
  call (it returns, it panics or throws, or its goroutine is still blocked), and the generic
  facts on bit fields of words and on counting threads in a list that the component
  theories use. Nothing in this theory is specific to one component.
\<close>

unbundle bit_operations_syntax

section \<open>Collections of rewrite rules\<close>

named_theorems field_simps_word \<open>how bit fields of a word change under an operation\<close>
named_theorems go_defs \<open>constants of the Go source, unfolded in evaluation\<close>

section \<open>Go's integers and outcomes\<close>

type_synonym u8 = "8 word"
type_synonym u16 = "16 word"
type_synonym u32 = "32 word"
type_synonym u64 = "64 word"
type_synonym uintptr = "64 word"

text \<open>
  A Go call returns a value, stops the program (\<open>panic\<close> or the runtime's \<open>throw\<close>), or is
  still blocked when the environment has nothing more to offer.
\<close>

datatype 'a outcome = Ret 'a | Panic string | Blocked

fun returns :: "'a outcome \<Rightarrow> bool" where
  "returns (Ret _) = True"
| "returns _ = False"

text \<open>A call and then what follows it.\<close>

definition obind :: "'a outcome \<Rightarrow> ('a \<Rightarrow> 'b outcome) \<Rightarrow> 'b outcome" where
  "obind m f = (case m of Ret x \<Rightarrow> f x | Panic msg \<Rightarrow> Panic msg | Blocked \<Rightarrow> Blocked)"

lemma obind_simps [simp]:
  "obind (Ret x) f = f x" "obind (Panic msg) f = Panic msg" "obind Blocked f = Blocked"
  by (simp_all add: obind_def)

lemma obind_Ret: "obind m f = Ret y \<longleftrightarrow> (\<exists>x. m = Ret x \<and> f x = Ret y)"
  by (cases m) simp_all

lemma obind_cong [fundef_cong]:
  "m = m' \<Longrightarrow> (\<And>x. m' = Ret x \<Longrightarrow> f x = f' x) \<Longrightarrow> obind m f = obind m' f'"
  by (cases m') simp_all

fun panics :: "'a outcome \<Rightarrow> bool" where
  "panics (Panic _) = True"
| "panics _ = False"

text \<open>\<open>bool_nat b\<close> counts a flag.\<close>

abbreviation bool_nat :: "bool \<Rightarrow> nat" where
  "bool_nat \<equiv> of_bool"

section \<open>Bit fields of words\<close>

lemma unat_pow2 [simp]:
  assumes "k < LENGTH('a)"
  shows "unat (2 ^ k :: 'a::len word) = 2 ^ k"
proof -
  have "(2 ^ k :: 'a word) = of_nat (2 ^ k)" by simp
  moreover have "unat (of_nat (2 ^ k) :: 'a word) = 2 ^ k mod 2 ^ LENGTH('a)"
    by (rule unat_of_nat)
  ultimately show ?thesis using assms by simp
qed

lemma unat_drop_bit: "unat (drop_bit k w) = unat w div 2 ^ k"
proof -
  have "take_bit LENGTH('a) (unat w) = unat w" for w :: "'a::len word"
    by (simp add: take_bit_nat_eq_self)
  then show ?thesis by (simp add: unsigned_drop_bit_eq flip: drop_bit_eq_div)
qed

lemma unat_take_bit: "unat (take_bit k w) = unat w mod 2 ^ k"
  by (simp add: unsigned_take_bit_eq flip: take_bit_eq_mod)

text \<open>The field of width \<open>m\<close> that starts at bit \<open>k\<close>, as a number.\<close>

definition field :: "nat \<Rightarrow> nat \<Rightarrow> 'a::len word \<Rightarrow> nat" where
  "field k m w = unat (take_bit m (drop_bit k w))"

lemma field_nat: "field k m w = unat w div 2 ^ k mod 2 ^ m"
  by (simp add: field_def unat_take_bit unat_drop_bit)

lemma field_less: "field k m w < 2 ^ m"
  by (simp add: field_nat)

lemma field_bits_eqI:
  fixes v w :: "'a::len word"
  assumes "\<And>i. i < m \<Longrightarrow> bit v (k + i) = bit w (k + i)"
  shows "field k m v = field k m w"
proof -
  have "take_bit m (drop_bit k v) = take_bit m (drop_bit k w)"
    using assms by (intro bit_eqI) (auto simp: bit_take_bit_iff bit_drop_bit_eq)
  then show ?thesis by (simp add: field_def)
qed

lemma field_eq_0_iff:
  fixes w :: "'a::len word"
  shows "field k m w = 0 \<longleftrightarrow> w AND push_bit k (mask m) = 0"
proof
  assume "field k m w = 0"
  then have z: "take_bit m (drop_bit k w) = 0"
    by (simp add: field_def unat_eq_zero)
  show "w AND push_bit k (mask m) = 0"
  proof (rule bit_eqI)
    fix n
    have "bit (take_bit m (drop_bit k w)) (n - k) = False" by (simp add: z)
    then show "bit (w AND push_bit k (mask m)) n \<longleftrightarrow> bit (0 :: 'a word) n"
      by (auto simp: bit_and_iff bit_push_bit_iff bit_mask_iff bit_take_bit_iff bit_drop_bit_eq)
  qed
next
  assume z: "w AND push_bit k (mask m) = 0"
  have "take_bit m (drop_bit k w) = 0"
  proof (rule bit_eqI)
    fix n
    have "bit (w AND push_bit k (mask m)) (k + n) = False" by (simp add: z)
    then have "\<not> bit w (k + n)" if "n < m"
      using that bit_imp_le_length [of w "k + n"]
      by (auto simp: bit_and_iff bit_push_bit_iff bit_mask_iff)
    then show "bit (take_bit m (drop_bit k w)) n \<longleftrightarrow> bit (0 :: 'a word) n"
      by (auto simp: bit_take_bit_iff bit_drop_bit_eq)
  qed
  then show "field k m w = 0" by (simp add: field_def)
qed

text \<open>
  A number splits at a field into the part below, the field and the part above. Adding one
  unit of the field when it is not full changes only the field; so does removing one unit
  when it is not empty. When it is full, the carry leaves the field zero.
\<close>

lemma nat_split_field:
  fixes n :: nat
  shows "n = n mod 2 ^ k + 2 ^ k * (n div 2 ^ k mod 2 ^ m) + 2 ^ (k + m) * (n div 2 ^ (k + m))"
proof -
  have "n div 2 ^ k = n div 2 ^ k mod 2 ^ m + 2 ^ m * (n div 2 ^ k div 2 ^ m)"
    by (metis add.commute mult_div_mod_eq)
  moreover have "n div 2 ^ k div 2 ^ m = n div 2 ^ (k + m)"
    by (simp add: div_mult2_eq power_add)
  moreover have "n = n mod 2 ^ k + 2 ^ k * (n div 2 ^ k)" by simp
  ultimately have "n = n mod 2 ^ k + 2 ^ k * (n div 2 ^ k mod 2 ^ m + 2 ^ m * (n div 2 ^ (k + m)))"
    by simp
  then show ?thesis by (simp add: power_add distrib_left mult.assoc)
qed

lemma nat_field_parts:
  fixes lo f hi :: nat
  assumes "lo < 2 ^ k" and "f < 2 ^ m"
  defines "n \<equiv> lo + 2 ^ k * f + 2 ^ (k + m) * hi"
  shows "n mod 2 ^ k = lo" and "n div 2 ^ k mod 2 ^ m = f" and "n div 2 ^ (k + m) = hi"
proof -
  have n: "n = lo + 2 ^ k * (f + 2 ^ m * hi)"
    by (simp add: n_def power_add algebra_simps)
  show "n mod 2 ^ k = lo" using assms(1) by (simp add: n)
  have d: "n div 2 ^ k = f + 2 ^ m * hi" using assms(1) by (simp add: n)
  show "n div 2 ^ k mod 2 ^ m = f" using assms(2) by (simp add: d)
  have "n div 2 ^ (k + m) = n div 2 ^ k div 2 ^ m" by (simp add: div_mult2_eq power_add)
  then show "n div 2 ^ (k + m) = hi" using assms(2) by (simp add: d)
qed

lemma unat_add_field_unit:
  fixes w :: "'a::len word"
  assumes "k + m \<le> LENGTH('a)" and "0 < m" and "field k m w + 1 < 2 ^ m"
  shows "unat (w + 2 ^ k) = unat w + 2 ^ k"
proof -
  let ?n = "unat w"
  have k: "k < LENGTH('a)" using assms by simp
  have "?n mod 2 ^ k + 2 ^ k * (field k m w + 1) < 2 ^ (k + m)"
  proof -
    have "?n mod 2 ^ k + 2 ^ k * (field k m w + 1) < 2 ^ k + 2 ^ k * (field k m w + 1)"
      by simp
    also have "\<dots> = 2 ^ k * (field k m w + 2)" by simp
    also have "\<dots> \<le> 2 ^ k * 2 ^ m" using assms(3) by (intro mult_le_mono2) simp
    finally show ?thesis by (simp add: power_add)
  qed
  moreover have "?n = ?n mod 2 ^ k + 2 ^ k * field k m w + 2 ^ (k + m) * (?n div 2 ^ (k + m))"
    using nat_split_field [of ?n k m] by (simp add: field_nat)
  ultimately have *: "?n + 2 ^ k < 2 ^ (k + m) + 2 ^ (k + m) * (?n div 2 ^ (k + m))"
    by (smt (verit) add.assoc add.commute add_mult_distrib2 add_less_mono1 mult.right_neutral)
  have "?n div 2 ^ (k + m) < 2 ^ (LENGTH('a) - (k + m))"
  proof -
    have "?n < 2 ^ (LENGTH('a) - (k + m)) * 2 ^ (k + m)"
      using assms(1) unsigned_less [of w] by (simp flip: power_add)
    then show ?thesis by (rule less_mult_imp_div_less)
  qed
  then have "2 ^ (k + m) * (?n div 2 ^ (k + m) + 1) \<le> 2 ^ (k + m) * 2 ^ (LENGTH('a) - (k + m))"
    by (intro mult_le_mono2) simp
  also have "\<dots> = 2 ^ LENGTH('a)" using assms(1) by (simp flip: power_add)
  finally have "?n + 2 ^ k < 2 ^ LENGTH('a)" using * by simp
  then show ?thesis using k
    by (simp add: unat_word_ariths(1))
qed

lemma unat_sub_field_unit:
  fixes w :: "'a::len word"
  assumes "k < LENGTH('a)" and "0 < field k m w"
  shows "unat (w - 2 ^ k) = unat w - 2 ^ k" and "2 ^ k \<le> unat w"
proof -
  have "0 < unat w div 2 ^ k" using assms(2) by (auto simp: field_nat intro: Nat.gr0I)
  then show le: "2 ^ k \<le> unat w" by (simp add: div_greater_zero_iff)
  then have "2 ^ k \<le> w" using assms(1) by (simp add: word_le_nat_alt)
  then show "unat (w - 2 ^ k) = unat w - 2 ^ k"
    using assms(1) by (simp add: unat_sub_if_size word_le_nat_alt)
qed

text \<open>What \<open>w + 2 ^ k\<close> is, field by field, when the field at \<open>k\<close> is not full.\<close>

lemma add_field_unit:
  fixes w :: "'a::len word"
  assumes "k + m \<le> LENGTH('a)" and "0 < m" and "field k m w + 1 < 2 ^ m"
  shows add_field_unit_field: "field k m (w + 2 ^ k) = field k m w + 1"
    and add_field_unit_low: "take_bit k (w + 2 ^ k) = take_bit k w"
    and add_field_unit_high: "drop_bit (k + m) (w + 2 ^ k) = drop_bit (k + m) w"
proof -
  let ?n = "unat w" and ?f = "field k m w"
  have u: "unat (w + 2 ^ k) = ?n + 2 ^ k" by (rule unat_add_field_unit [OF assms])
  have split: "?n + 2 ^ k = ?n mod 2 ^ k + 2 ^ k * (?f + 1) + 2 ^ (k + m) * (?n div 2 ^ (k + m))"
    using nat_split_field [of ?n k m] by (simp add: field_nat)
  note parts = nat_field_parts [of "?n mod 2 ^ k" k "?f + 1" m "?n div 2 ^ (k + m)",
    folded split, OF _ assms(3)]
  show "field k m (w + 2 ^ k) = ?f + 1" using parts(2) by (simp add: field_nat u)
  have "unat (take_bit k (w + 2 ^ k)) = unat (take_bit k w)"
    using parts(1) by (simp add: unat_take_bit u)
  then show "take_bit k (w + 2 ^ k) = take_bit k w" by (rule word_unat_eq_iff [THEN iffD2])
  have "unat (drop_bit (k + m) (w + 2 ^ k)) = unat (drop_bit (k + m) w)"
    using parts(3) by (simp add: unat_drop_bit u)
  then show "drop_bit (k + m) (w + 2 ^ k) = drop_bit (k + m) w"
    by (rule word_unat_eq_iff [THEN iffD2])
qed

lemma sub_field_unit:
  fixes w :: "'a::len word"
  assumes "k + m \<le> LENGTH('a)" and "0 < m" and "0 < field k m w"
  shows sub_field_unit_field: "field k m (w - 2 ^ k) = field k m w - 1"
    and sub_field_unit_low: "take_bit k (w - 2 ^ k) = take_bit k w"
    and sub_field_unit_high: "drop_bit (k + m) (w - 2 ^ k) = drop_bit (k + m) w"
proof -
  let ?n = "unat w" and ?f = "field k m w"
  have k: "k < LENGTH('a)" using assms by simp
  note u = unat_sub_field_unit [OF k assms(3)]
  have "2 ^ k * ?f = 2 ^ k + 2 ^ k * (?f - 1)"
    using assms(3) by (cases ?f) auto
  then have split: "?n - 2 ^ k = ?n mod 2 ^ k + 2 ^ k * (?f - 1) + 2 ^ (k + m) * (?n div 2 ^ (k + m))"
    using nat_split_field [of ?n k m] by (simp add: field_nat)
  have "?f - 1 < 2 ^ m" using field_less [of k m w] by simp
  note parts = nat_field_parts [of "?n mod 2 ^ k" k "?f - 1" m "?n div 2 ^ (k + m)",
    folded split, OF _ this]
  show "field k m (w - 2 ^ k) = ?f - 1" using parts(2) by (simp add: field_nat u)
  have "unat (take_bit k (w - 2 ^ k)) = unat (take_bit k w)"
    using parts(1) by (simp add: unat_take_bit u)
  then show "take_bit k (w - 2 ^ k) = take_bit k w" by (rule word_unat_eq_iff [THEN iffD2])
  have "unat (drop_bit (k + m) (w - 2 ^ k)) = unat (drop_bit (k + m) w)"
    using parts(3) by (simp add: unat_drop_bit u)
  then show "drop_bit (k + m) (w - 2 ^ k) = drop_bit (k + m) w"
    by (rule word_unat_eq_iff [THEN iffD2])
qed

text \<open>When the field is full, adding a unit carries out of it and leaves it zero.\<close>

lemma add_field_full:
  fixes w :: "'a::len word"
  assumes "k + m \<le> LENGTH('a)" and "0 < m" and "field k m w = 2 ^ m - 1"
  shows "field k m (w + 2 ^ k) = 0"
proof -
  let ?n = "unat w"
  have k: "k < LENGTH('a)" using assms by simp
  have "?n = ?n mod 2 ^ k + 2 ^ k * (2 ^ m - 1) + 2 ^ (k + m) * (?n div 2 ^ (k + m))"
    using nat_split_field [of ?n k m] assms(3) by (simp add: field_nat)
  moreover have "2 ^ k * (2 ^ m - 1) + 2 ^ k = (2 ^ k * 2 ^ m :: nat)"
    by (metis Suc_eq_plus1 Suc_pred' mult_Suc_right add.commute zero_less_numeral zero_less_power)
  ultimately have "?n + 2 ^ k = ?n mod 2 ^ k + 2 ^ k * 2 ^ m + 2 ^ (k + m) * (?n div 2 ^ (k + m))"
    by linarith
  then have s: "?n + 2 ^ k = ?n mod 2 ^ k + 2 ^ k * 0 + 2 ^ (k + m) * (?n div 2 ^ (k + m) + 1)"
    by (simp add: power_add)
  have "unat (w + 2 ^ k) = (?n + 2 ^ k) mod 2 ^ LENGTH('a)"
    using k by (simp add: unat_word_ariths(1))
  then have "unat (w + 2 ^ k) div 2 ^ k mod 2 ^ m
      = (?n + 2 ^ k) mod 2 ^ (k + (LENGTH('a) - k)) div 2 ^ k mod 2 ^ m" using k by simp
  also have "\<dots> = (?n + 2 ^ k) div 2 ^ k mod 2 ^ (LENGTH('a) - k) mod 2 ^ m"
    by (simp add: div_exp_mod_exp_eq add.commute)
  also have "\<dots> = (?n + 2 ^ k) div 2 ^ k mod 2 ^ m"
    using assms(1) by (simp add: mod_mod_cancel le_imp_power_dvd)
  also have "\<dots> = 0"
    using nat_field_parts(2) [of "?n mod 2 ^ k" k 0 m "?n div 2 ^ (k + m) + 1"] s by simp
  finally show ?thesis by (simp add: field_nat)
qed

section \<open>Counting over a list of threads\<close>

definition tsum :: "('t \<Rightarrow> nat) \<Rightarrow> 't list \<Rightarrow> nat" where
  "tsum f ts = sum_list (map f ts)"

lemma tsum_update:
  "i < length ts \<Longrightarrow> tsum f (ts[i := t]) + f (ts ! i) = tsum f ts + f t"
proof (induction ts arbitrary: i)
  case Nil
  then show ?case by simp
next
  case (Cons a ts)
  then show ?case by (cases i) (auto simp: tsum_def)
qed

lemma tsum_elem: "i < length ts \<Longrightarrow> f (ts ! i) \<le> tsum f ts"
  using elem_le_sum_list [of i "map f ts"] by (simp add: tsum_def)

lemma tsum_le_length: "(\<And>t. f t \<le> 1) \<Longrightarrow> tsum f ts \<le> length ts"
proof (induction ts)
  case Nil
  then show ?case by (simp add: tsum_def)
next
  case (Cons a ts)
  from Cons.prems have "f a \<le> 1" by simp
  moreover have "tsum f ts \<le> length ts" using Cons by blast
  ultimately show ?case by (simp add: tsum_def)
qed

lemma tsum_zero [simp]: "(\<And>t. t \<in> set ts \<Longrightarrow> f t = 0) \<Longrightarrow> tsum f ts = 0"
  by (simp add: tsum_def)

section \<open>Invariants of step systems\<close>

text \<open>
  The interface between a step relation and the properties of its reachable states: what
  holds at the start and is kept by every step holds wherever the system can get.
\<close>

locale step_invariant =
  fixes init :: "'s \<Rightarrow> bool" and step :: "'s \<Rightarrow> 's \<Rightarrow> bool" and inv :: "'s \<Rightarrow> bool"
  assumes init_inv: "init s \<Longrightarrow> inv s"
    and step_inv: "step s t \<Longrightarrow> inv s \<Longrightarrow> inv t"
begin

lemma steps_keep: "step\<^sup>*\<^sup>* s t \<Longrightarrow> inv s \<Longrightarrow> inv t"
  by (induction rule: rtranclp_induct) (auto intro: step_inv)

lemma reach_inv: "init s \<Longrightarrow> step\<^sup>*\<^sup>* s t \<Longrightarrow> inv t"
  using init_inv steps_keep by blast

end

section \<open>Encodings and comparisons\<close>

text \<open>
  What a pair of an encoder and a decoder promises for the values that are \<open>ok\<close>: decoding gives the value back,
  in the form \<open>ret\<close> of a successful answer. Then the encoder is injective.
\<close>

locale codec =
  fixes enc :: "'a \<Rightarrow> 'b"
    and dec :: "'b \<Rightarrow> 'r"
    and ret :: "'a \<Rightarrow> 'r"
    and ok :: "'a \<Rightarrow> bool"
  assumes dec_enc: "ok x \<Longrightarrow> dec (enc x) = ret x"
    and ret_inj: "ret x = ret y \<Longrightarrow> x = y"
begin

lemma enc_inj: "ok x \<Longrightarrow> ok y \<Longrightarrow> enc x = enc y \<longleftrightarrow> x = y"
  using dec_enc ret_inj by metis

end

text \<open>What a three-way comparison promises: it is the sign of a total preorder.\<close>

locale comparison =
  fixes cmp :: "'a \<Rightarrow> 'a \<Rightarrow> int"
  assumes signs: "cmp a b = -1 \<or> cmp a b = 0 \<or> cmp a b = 1"
    and swapped: "cmp b a = - cmp a b"
    and le_trans: "cmp a b \<le> 0 \<Longrightarrow> cmp b c \<le> 0 \<Longrightarrow> cmp a c \<le> 0"
begin

lemma cmp_same [simp]: "cmp a a = 0"
  using swapped [of a a] by simp

lemma cmp_cong: "cmp a b = 0 \<Longrightarrow> cmp a c = cmp b c"
  using le_trans [of a b c] le_trans [of b a c] le_trans [of c a b] le_trans [of c b a]
    signs [of a c] signs [of b c] swapped [of a b] swapped [of a c] swapped [of b c] by auto

lemma less_trans: "cmp a b = -1 \<Longrightarrow> cmp b c \<le> 0 \<Longrightarrow> cmp a c = -1"
  using le_trans [of a b c] le_trans [of b c a] signs [of a c] swapped [of a c] swapped [of a b] by fastforce

lemma le_less_trans: "cmp a b \<le> 0 \<Longrightarrow> cmp b c = -1 \<Longrightarrow> cmp a c = -1"
  using le_trans [of a b c] le_trans [of c a b] signs [of a c] swapped [of a c] swapped [of b c] by fastforce

end

definition then_cmp :: "('a \<Rightarrow> 'a \<Rightarrow> int) \<Rightarrow> ('a \<Rightarrow> 'a \<Rightarrow> int) \<Rightarrow> 'a \<Rightarrow> 'a \<Rightarrow> int" where
  "then_cmp f g a b = (if f a b \<noteq> 0 then f a b else g a b)"

text \<open>\<open>cmp.Compare\<close> on integers.\<close>

definition int_cmp :: "int \<Rightarrow> int \<Rightarrow> int" where
  "int_cmp x y = (if x < y then -1 else if x > y then 1 else 0)"

lemma int_cmp_comparison: "comparison (\<lambda>a b. int_cmp (k a) (k b))"
  by unfold_locales (auto simp: int_cmp_def split: if_splits)

lemma comparison_lex:
  assumes "comparison f" and "comparison g"
  shows "comparison (then_cmp f g)"
proof -
  note f = comparison.signs [OF assms(1)] comparison.swapped [OF assms(1)]
  note g = comparison.signs [OF assms(2)] comparison.swapped [OF assms(2)]
  show ?thesis
  proof
    fix a b c
    show "then_cmp f g a b = -1 \<or> then_cmp f g a b = 0 \<or> then_cmp f g a b = 1"
      using f(1) [of a b] g(1) [of a b] by (auto simp: then_cmp_def)
    show "then_cmp f g b a = - then_cmp f g a b"
      using f(2) [of b a] g(2) [of b a] by (auto simp: then_cmp_def)
    assume "then_cmp f g a b \<le> 0" "then_cmp f g b c \<le> 0"
    then consider "f a b = -1" "f b c \<le> 0" | "f a b \<le> 0" "f b c = -1" | "f a b = 0" "f b c = 0" "g a b \<le> 0" "g b c \<le> 0"
      using f(1) [of a b] f(1) [of b c] by (auto simp: then_cmp_def split: if_splits)
    then show "then_cmp f g a c \<le> 0"
    proof cases
      case 1
      then have "f a c = -1" by (rule comparison.less_trans [OF assms(1)])
      then show ?thesis by (simp add: then_cmp_def)
    next
      case 2
      then have "f a c = -1" by (rule comparison.le_less_trans [OF assms(1)])
      then show ?thesis by (simp add: then_cmp_def)
    next
      case 3
      then have "f a c = 0" "g a c \<le> 0"
        using comparison.cmp_cong [OF assms(1) 3(1), of c] comparison.le_trans [OF assms(2) 3(3,4)] by simp_all
      then show ?thesis by (simp add: then_cmp_def)
    qed
  qed
qed

end
