(* ===== verification/FdMutex.thy ===== *)
theory FdMutex
  imports GoPrelude
begin

text \<open>
  \<^verbatim>\<open>internal/poll/fd_mutex.go\<close>: the lock that manages the lifetime of a file descriptor and
  serializes its readers and its writers. Its whole state is one 64-bit word, changed only by
  compare-and-swap; \<open>rsema\<close> and \<open>wsema\<close> are the semaphores its waiters sleep on.

  Each operation is a loop: load the word, compute what to do, try the swap, start again when
  the swap fails. The body of the loop is a pure function of the loaded word (\<open>incref_try\<close>
  and so on). The operations \<open>incref\<close> \<dots> \<open>rwunlock\<close> run one such loop without interference;
  the theory \<open>FdMutexMachine\<close> interleaves any number of goroutines at the grain of single
  loads, swaps and semaphore operations.
\<close>

section \<open>State and constants\<close>

record fdMutex =
  mu_state :: u64
  mu_rsema :: u32
  mu_wsema :: u32

definition mutexClosed :: u64 where "mutexClosed = push_bit 0 1"
definition mutexRLock :: u64 where "mutexRLock = push_bit 1 1"
definition mutexWLock :: u64 where "mutexWLock = push_bit 2 1"
definition mutexRef :: u64 where "mutexRef = push_bit 3 1"
definition mutexRefMask :: u64 where "mutexRefMask = push_bit 3 (push_bit 20 1 - 1)"
definition mutexRWait :: u64 where "mutexRWait = push_bit 23 1"
definition mutexRMask :: u64 where "mutexRMask = push_bit 23 (push_bit 20 1 - 1)"
definition mutexWWait :: u64 where "mutexWWait = push_bit 43 1"
definition mutexWMask :: u64 where "mutexWMask = push_bit 43 (push_bit 20 1 - 1)"

definition overflowMsg :: string where
  "overflowMsg = ''too many concurrent operations on a single file or socket (max 1048575)''"

definition inconsistentMsg :: string where
  "inconsistentMsg = ''inconsistent poll.fdMutex''"

text \<open>The four local variables that \<open>rwlock\<close> and \<open>rwunlock\<close> pick by \<open>read\<close>.\<close>

definition mutexBit :: "bool \<Rightarrow> u64" where
  "mutexBit read = (if read then mutexRLock else mutexWLock)"

definition mutexWait :: "bool \<Rightarrow> u64" where
  "mutexWait read = (if read then mutexRWait else mutexWWait)"

definition mutexMask :: "bool \<Rightarrow> u64" where
  "mutexMask read = (if read then mutexRMask else mutexWMask)"

definition mutexSema :: "bool \<Rightarrow> fdMutex \<Rightarrow> u32" where
  "mutexSema read mu = (if read then mu_rsema mu else mu_wsema mu)"

definition set_mutexSema :: "bool \<Rightarrow> u32 \<Rightarrow> fdMutex \<Rightarrow> fdMutex" where
  "set_mutexSema read v mu = (if read then mu\<lparr>mu_rsema := v\<rparr> else mu\<lparr>mu_wsema := v\<rparr>)"

section \<open>The semaphores\<close>

text \<open>
  \<open>runtime_Semacquire\<close> returns once it has decremented a positive counter and blocks
  while the counter is zero; \<open>runtime_Semrelease\<close> increments it (\<^verbatim>\<open>runtime/sema.go\<close>).
\<close>

definition cansemacquire :: "u32 \<Rightarrow> u32 option" where
  "cansemacquire v = (if v = 0 then None else Some (v - 1))"

definition semrelease :: "u32 \<Rightarrow> u32" where
  "semrelease v = v + 1"

section \<open>The loop bodies\<close>

text \<open>What one pass of a loop does with the word it loaded: return, panic, or try to swap in
  a new word.\<close>

datatype 'w attempt = Return bool | PanicWith string | Try 'w

definition incref_try :: "u64 \<Rightarrow> u64 attempt" where
  "incref_try old =
     (if old AND mutexClosed \<noteq> 0 then Return False
      else let new = old + mutexRef in
        if new AND mutexRefMask = 0 then PanicWith overflowMsg else Try new)"

definition increfAndClose_try :: "u64 \<Rightarrow> u64 attempt" where
  "increfAndClose_try old =
     (if old AND mutexClosed \<noteq> 0 then Return False
      else let new = (old OR mutexClosed) + mutexRef in
        if new AND mutexRefMask = 0 then PanicWith overflowMsg
        else Try (new AND NOT (mutexRMask OR mutexWMask)))"

definition decref_try :: "u64 \<Rightarrow> u64 attempt" where
  "decref_try old =
     (if old AND mutexRefMask = 0 then PanicWith inconsistentMsg else Try (old - mutexRef))"

definition rwlock_try :: "bool \<Rightarrow> u64 \<Rightarrow> u64 attempt" where
  "rwlock_try read old =
     (if old AND mutexClosed \<noteq> 0 then Return False
      else if old AND mutexBit read = 0
        then let new = (old OR mutexBit read) + mutexRef in
          if new AND mutexRefMask = 0 then PanicWith overflowMsg else Try new
        else let new = old + mutexWait read in
          if new AND mutexMask read = 0 then PanicWith overflowMsg else Try new)"

definition rwunlock_try :: "bool \<Rightarrow> u64 \<Rightarrow> u64 attempt" where
  "rwunlock_try read old =
     (if old AND mutexBit read = 0 \<or> old AND mutexRefMask = 0 then PanicWith inconsistentMsg
      else let new = (old AND NOT (mutexBit read)) - mutexRef in
        Try (if old AND mutexMask read \<noteq> 0 then new - mutexWait read else new))"

text \<open>The value \<open>decref\<close> and \<open>rwunlock\<close> return: closed, and no reference left.\<close>

definition last_ref :: "u64 \<Rightarrow> bool" where
  "last_ref new \<longleftrightarrow> new AND (mutexClosed OR mutexRefMask) = mutexClosed"

section \<open>What the word means\<close>

record mutex_view =
  v_closed :: bool
  v_rlock :: bool
  v_wlock :: bool
  v_refs :: nat
  v_rwait :: nat
  v_wwait :: nat

definition view :: "u64 \<Rightarrow> mutex_view" where
  "view w = \<lparr>v_closed = bit w 0, v_rlock = bit w 1, v_wlock = bit w 2,
     v_refs = field 3 20 w, v_rwait = field 23 20 w, v_wwait = field 43 20 w\<rparr>"

definition v_lock :: "bool \<Rightarrow> mutex_view \<Rightarrow> bool" where
  "v_lock read v = (if read then v_rlock v else v_wlock v)"

definition v_wait :: "bool \<Rightarrow> mutex_view \<Rightarrow> nat" where
  "v_wait read v = (if read then v_rwait v else v_wwait v)"

definition set_lock :: "bool \<Rightarrow> bool \<Rightarrow> mutex_view \<Rightarrow> mutex_view" where
  "set_lock read b v = (if read then v\<lparr>v_rlock := b\<rparr> else v\<lparr>v_wlock := b\<rparr>)"

definition set_wait :: "bool \<Rightarrow> nat \<Rightarrow> mutex_view \<Rightarrow> mutex_view" where
  "set_wait read n v = (if read then v\<lparr>v_rwait := n\<rparr> else v\<lparr>v_wwait := n\<rparr>)"

lemma set_lock_simps [simp]:
  "v_lock read (set_lock read b v) = b" "v_lock (\<not> read) (set_lock read b v) = v_lock (\<not> read) v"
  "v_closed (set_lock read b v) = v_closed v" "v_refs (set_lock read b v) = v_refs v"
  "v_wait r (set_lock read b v) = v_wait r v"
  by (simp_all add: v_lock_def v_wait_def set_lock_def)

lemma set_wait_simps [simp]:
  "v_wait read (set_wait read n v) = n" "v_wait (\<not> read) (set_wait read n v) = v_wait (\<not> read) v"
  "v_closed (set_wait read n v) = v_closed v" "v_refs (set_wait read n v) = v_refs v"
  "v_lock r (set_wait read n v) = v_lock r v"
  by (simp_all add: v_lock_def v_wait_def set_wait_def)

text \<open>The largest count a 20-bit field can hold.\<close>

abbreviation max_count :: nat where
  "max_count \<equiv> 2 ^ 20 - 1"

section \<open>The operations on the view: the specification\<close>

datatype op = Incref | IncrefAndClose | Decref | Rwlock bool | Rwunlock bool

fun spec_try :: "op \<Rightarrow> mutex_view \<Rightarrow> mutex_view attempt" where
  "spec_try Incref v =
     (if v_closed v then Return False
      else if v_refs v = max_count then PanicWith overflowMsg
      else Try (v\<lparr>v_refs := v_refs v + 1\<rparr>))"
| "spec_try IncrefAndClose v =
     (if v_closed v then Return False
      else if v_refs v = max_count then PanicWith overflowMsg
      else Try (v\<lparr>v_closed := True, v_refs := v_refs v + 1, v_rwait := 0, v_wwait := 0\<rparr>))"
| "spec_try Decref v =
     (if v_refs v = 0 then PanicWith inconsistentMsg
      else Try (v\<lparr>v_refs := v_refs v - 1\<rparr>))"
| "spec_try (Rwlock read) v =
     (if v_closed v then Return False
      else if \<not> v_lock read v
        then (if v_refs v = max_count then PanicWith overflowMsg
              else Try (set_lock read True v\<lparr>v_refs := v_refs v + 1\<rparr>))
        else (if v_wait read v = max_count then PanicWith overflowMsg
              else Try (set_wait read (v_wait read v + 1) v)))"
| "spec_try (Rwunlock read) v =
     (if \<not> v_lock read v \<or> v_refs v = 0 then PanicWith inconsistentMsg
      else Try (set_wait read (v_wait read v - 1) (set_lock read False v\<lparr>v_refs := v_refs v - 1\<rparr>)))"

fun try_op :: "op \<Rightarrow> u64 \<Rightarrow> u64 attempt" where
  "try_op Incref old = incref_try old"
| "try_op IncrefAndClose old = increfAndClose_try old"
| "try_op Decref old = decref_try old"
| "try_op (Rwlock read) old = rwlock_try read old"
| "try_op (Rwunlock read) old = rwunlock_try read old"

section \<open>Facts on the fields\<close>

lemmas mutex_consts = mutexClosed_def mutexRLock_def mutexWLock_def mutexRef_def
  mutexRefMask_def mutexRWait_def mutexRMask_def mutexWWait_def mutexWMask_def

lemmas mutex_sel = mutexBit_def mutexWait_def mutexMask_def

text \<open>The constants as powers of two and as bit patterns.\<close>

lemma flag_consts:
  "mutexClosed = 2 ^ 0" "mutexRLock = 2 ^ 1" "mutexWLock = 2 ^ 2"
  "mutexRef = 2 ^ 3" "mutexRWait = 2 ^ 23" "mutexWWait = 2 ^ 43"
  by (simp_all add: mutex_consts)

lemma mask_consts:
  "mutexRefMask = push_bit 3 (mask 20)" "mutexRMask = push_bit 23 (mask 20)"
  "mutexWMask = push_bit 43 (mask 20)"
  by (simp_all add: mutex_consts mask_eq_exp_minus_1)

lemma flag_bits:
  "bit mutexClosed n \<longleftrightarrow> n = 0" "bit mutexRLock n \<longleftrightarrow> n = 1" "bit mutexWLock n \<longleftrightarrow> n = 2"
  unfolding flag_consts bit_exp_iff by auto

lemma mask_bits:
  "bit mutexRefMask n \<longleftrightarrow> 3 \<le> n \<and> n < 23" "bit mutexRMask n \<longleftrightarrow> 23 \<le> n \<and> n < 43"
  "bit mutexWMask n \<longleftrightarrow> 43 \<le> n \<and> n < 63"
  unfolding mask_consts bit_push_bit_iff bit_mask_iff by auto

lemma bit_mutexBit: "bit (mutexBit read) n \<longleftrightarrow> n = (if read then 1 else 2)"
  by (simp add: mutexBit_def flag_bits)

lemmas bitwise = bit_and_iff bit_or_iff bit_not_iff flag_bits mask_bits bit_mutexBit

lemma and_flag_0:
  fixes w c :: u64
  assumes "\<And>n. bit c n \<longleftrightarrow> n = k"
  shows "w AND c = 0 \<longleftrightarrow> \<not> bit w k"
proof
  assume "w AND c = 0"
  then have "\<not> bit (w AND c) k" by simp
  then show "\<not> bit w k" by (simp add: bit_and_iff assms)
next
  assume "\<not> bit w k"
  then show "w AND c = 0" by (intro bit_word_eqI) (auto simp: bit_and_iff assms)
qed

lemma flag_test:
  "old AND mutexClosed = 0 \<longleftrightarrow> \<not> v_closed (view old)"
  "old AND mutexBit read = 0 \<longleftrightarrow> \<not> v_lock read (view old)"
  by (simp_all add: and_flag_0 [OF flag_bits(1)] and_flag_0 [OF bit_mutexBit] view_def v_lock_def)

lemma count_test:
  "old AND mutexRefMask = 0 \<longleftrightarrow> v_refs (view old) = 0"
  "old AND mutexMask read = 0 \<longleftrightarrow> v_wait read (view old) = 0"
proof -
  show "old AND mutexRefMask = 0 \<longleftrightarrow> v_refs (view old) = 0"
    unfolding mask_consts view_def using field_eq_0_iff [of 3 20 old] by simp
  show "old AND mutexMask read = 0 \<longleftrightarrow> v_wait read (view old) = 0"
    unfolding mutexMask_def mask_consts view_def v_wait_def
    using field_eq_0_iff [of 23 20 old] field_eq_0_iff [of 43 20 old] by simp
qed

lemma view_less:
  "v_refs (view w) \<le> max_count" "v_rwait (view w) \<le> max_count" "v_wwait (view w) \<le> max_count"
  using field_less [of 3 20 w] field_less [of 23 20 w] field_less [of 43 20 w]
  by (simp_all add: view_def)

text \<open>Setting and clearing a flag.\<close>

lemma view_or_flag:
  "view (w OR mutexClosed) = view w\<lparr>v_closed := True\<rparr>"
  "view (w OR mutexBit read) = set_lock read True (view w)"
  by (auto simp: view_def set_lock_def bitwise intro!: field_bits_eqI)

lemma view_clear_flag:
  "view (w AND NOT (mutexBit read)) = set_lock read False (view w)"
  by (auto simp: view_def set_lock_def bitwise intro!: field_bits_eqI)

lemma view_clear_waiters:
  "view (w AND NOT (mutexRMask OR mutexWMask)) = view w\<lparr>v_rwait := 0, v_wwait := 0\<rparr>"
proof -
  let ?v = "w AND NOT (mutexRMask OR mutexWMask)"
  have "field k 20 ?v = 0" if "k = 23 \<or> k = 43" for k
  proof -
    have "field k 20 ?v = field k 20 (0 :: u64)"
      using that by (intro field_bits_eqI) (auto simp: bitwise)
    then show ?thesis by (simp add: field_def)
  qed
  then show ?thesis
    by (auto simp: view_def bitwise intro!: field_bits_eqI)
qed

lemma view_clear_waiters':
  "view (w AND NOT mutexRMask AND NOT mutexWMask) = view w\<lparr>v_rwait := 0, v_wwait := 0\<rparr>"
  using view_clear_waiters [of w] by simp

text \<open>One unit more or less of a count.\<close>

lemma bit_from_low: "take_bit k v = take_bit k w \<Longrightarrow> n < k \<Longrightarrow> bit v n = bit w n"
  by (metis bit_take_bit_iff)

lemma bit_from_high: "drop_bit k v = drop_bit k w \<Longrightarrow> k \<le> n \<Longrightarrow> bit v n = bit w n"
  by (metis bit_drop_bit_eq le_add_diff_inverse comp_apply)

lemma same_fields:
  fixes v w :: u64
  assumes "take_bit k v = take_bit k w" and "drop_bit (k + m) v = drop_bit (k + m) w"
  shows "j < k \<or> k + m \<le> j \<Longrightarrow> bit v j = bit w j"
    and "j + l \<le> k \<or> k + m \<le> j \<Longrightarrow> field j l v = field j l w"
proof -
  show *: "bit v j = bit w j" if "j < k \<or> k + m \<le> j" for j
    using that assms bit_from_low bit_from_high by blast
  show "field j l v = field j l w" if "j + l \<le> k \<or> k + m \<le> j"
    using that by (intro field_bits_eqI *) auto
qed

lemma view_add_ref:
  assumes "v_refs (view w) \<noteq> max_count"
  shows "view (w + mutexRef) = view w\<lparr>v_refs := v_refs (view w) + 1\<rparr>"
proof -
  have "field 3 20 w + 1 < 2 ^ 20"
    using assms view_less(1) [of w] by (simp add: view_def)
  note add = add_field_unit [of 3 20 w, OF _ _ this, simplified]
  note same = same_fields [of 3 "w + 8" w 20, simplified, OF add(2,3)]
  show ?thesis unfolding flag_consts using add(1) same by (simp add: view_def)
qed

lemma view_add_ref_full:
  assumes "v_refs (view w) = max_count"
  shows "v_refs (view (w + mutexRef)) = 0"
  using assms add_field_full [of 3 20 w] by (simp add: view_def flag_consts)

lemma view_sub_ref:
  assumes "v_refs (view w) \<noteq> 0"
  shows "view (w - mutexRef) = view w\<lparr>v_refs := v_refs (view w) - 1\<rparr>"
proof -
  have "0 < field 3 20 w" using assms by (simp add: view_def)
  note sub = sub_field_unit [of 3 20 w, OF _ _ this, simplified]
  note same = same_fields [of 3 "w - 8" w 20, simplified, OF sub(2,3)]
  show ?thesis unfolding flag_consts using sub(1) same by (simp add: view_def)
qed

lemma view_add_wait:
  assumes "v_wait read (view w) \<noteq> max_count"
  shows "view (w + mutexWait read) = set_wait read (v_wait read (view w) + 1) (view w)"
proof (cases read)
  case True
  then have "field 23 20 w + 1 < 2 ^ 20"
    using assms view_less(2) [of w] by (simp add: view_def v_wait_def)
  note add = add_field_unit [of 23 20 w, OF _ _ this, simplified]
  note same = same_fields [of 23 "w + 8388608" w 20, simplified, OF add(2,3)]
  show ?thesis unfolding mutexWait_def flag_consts
    using add(1) same True by (simp add: view_def v_wait_def set_wait_def)
next
  case False
  then have "field 43 20 w + 1 < 2 ^ 20"
    using assms view_less(3) [of w] by (simp add: view_def v_wait_def)
  note add = add_field_unit [of 43 20 w, OF _ _ this, simplified]
  note same = same_fields [of 43 "w + 8796093022208" w 20, simplified, OF add(2,3)]
  show ?thesis unfolding mutexWait_def flag_consts
    using add(1) same False by (simp add: view_def v_wait_def set_wait_def)
qed

lemma view_add_wait_full:
  assumes "v_wait read (view w) = max_count"
  shows "v_wait read (view (w + mutexWait read)) = 0"
  using assms add_field_full [of 23 20 w] add_field_full [of 43 20 w]
  by (auto simp: view_def v_wait_def mutexWait_def flag_consts split: if_splits)

lemma view_sub_wait:
  assumes "v_wait read (view w) \<noteq> 0"
  shows "view (w - mutexWait read) = set_wait read (v_wait read (view w) - 1) (view w)"
proof (cases read)
  case True
  then have "0 < field 23 20 w" using assms by (simp add: view_def v_wait_def)
  note sub = sub_field_unit [of 23 20 w, OF _ _ this, simplified]
  note same = same_fields [of 23 "w - 8388608" w 20, simplified, OF sub(2,3)]
  show ?thesis unfolding mutexWait_def flag_consts
    using sub(1) same True by (simp add: view_def v_wait_def set_wait_def)
next
  case False
  then have "0 < field 43 20 w" using assms by (simp add: view_def v_wait_def)
  note sub = sub_field_unit [of 43 20 w, OF _ _ this, simplified]
  note same = same_fields [of 43 "w - 8796093022208" w 20, simplified, OF sub(2,3)]
  show ?thesis unfolding mutexWait_def flag_consts
    using sub(1) same False by (simp add: view_def v_wait_def set_wait_def)
qed

lemmas view_accessors = v_lock_def v_wait_def set_lock_def set_wait_def

lemmas view_tests = flag_test count_test

lemma last_ref_view: "last_ref new \<longleftrightarrow> v_closed (view new) \<and> v_refs (view new) = 0"
proof
  assume "last_ref new"
  then have *: "bit (new AND (mutexClosed OR mutexRefMask)) n = bit mutexClosed n" for n
    by (simp add: last_ref_def)
  have "new AND mutexRefMask = 0"
  proof (rule bit_word_eqI)
    fix n
    show "bit (new AND mutexRefMask) n \<longleftrightarrow> bit (0 :: u64) n"
      using * [of n] by (auto simp: bitwise)
  qed
  then show "v_closed (view new) \<and> v_refs (view new) = 0"
    using * [of 0] by (simp add: bitwise view_tests) (simp add: view_def)
next
  assume v: "v_closed (view new) \<and> v_refs (view new) = 0"
  then have "\<not> bit (new AND mutexRefMask) n" for n by (simp flip: view_tests)
  then show "last_ref new"
    unfolding last_ref_def using v
    by (intro bit_word_eqI) (auto simp: bitwise view_def)
qed

section \<open>The word implements the view\<close>

lemma incref_try_view: "map_attempt view (incref_try old) = spec_try Incref (view old)"
  by (cases "v_refs (view old) = max_count")
    (simp_all add: incref_try_def Let_def view_tests view_add_ref view_add_ref_full)

lemma decref_try_view: "map_attempt view (decref_try old) = spec_try Decref (view old)"
  by (simp add: decref_try_def view_tests view_sub_ref)

lemma increfAndClose_try_view:
  "map_attempt view (increfAndClose_try old) = spec_try IncrefAndClose (view old)"
proof -
  have r: "v_refs (view (old OR mutexClosed)) = v_refs (view old)" by (simp add: view_or_flag)
  show ?thesis
    using view_add_ref [of "old OR mutexClosed"] view_add_ref_full [of "old OR mutexClosed"]
    by (cases "v_refs (view old) = max_count")
      (simp_all add: increfAndClose_try_def Let_def view_tests view_clear_waiters' r view_or_flag)
qed

lemma rwlock_try_view: "map_attempt view (rwlock_try read old) = spec_try (Rwlock read) (view old)"
proof -
  have r: "v_refs (view (old OR mutexBit read)) = v_refs (view old)"
    by (simp add: view_or_flag set_lock_def)
  show ?thesis
    using view_add_ref [of "old OR mutexBit read"] view_add_ref_full [of "old OR mutexBit read"]
      view_add_wait [of read old] view_add_wait_full [of read old]
    by (cases "v_refs (view old) = max_count"; cases "v_wait read (view old) = max_count")
      (simp_all add: rwlock_try_def Let_def view_tests r view_or_flag)
qed

lemma rwunlock_try_view:
  "map_attempt view (rwunlock_try read old) = spec_try (Rwunlock read) (view old)"
proof (cases "\<not> v_lock read (view old) \<or> v_refs (view old) = 0")
  case True
  then show ?thesis by (auto simp: rwunlock_try_def view_tests)
next
  case False
  let ?new = "(old AND NOT (mutexBit read)) - mutexRef"
  have new: "view ?new = set_lock read False (view old)\<lparr>v_refs := v_refs (view old) - 1\<rparr>"
    using False view_sub_ref [of "old AND NOT (mutexBit read)"]
    by (simp add: view_clear_flag set_lock_def)
  then have w: "v_wait read (view ?new) = v_wait read (view old)"
    by (simp add: view_accessors)
  have keep: "set_wait read (v_wait read v) v = v" for v
    by (simp add: view_accessors)
  have "view (if v_wait read (view old) \<noteq> 0 then ?new - mutexWait read else ?new)
      = set_wait read (v_wait read (view old) - 1) (view ?new)"
    using view_sub_wait [of read ?new] keep [of "view ?new"] by (auto simp: w)
  then show ?thesis
    using False by (simp add: rwunlock_try_def Let_def view_tests new)
qed

lemma try_op_view: "map_attempt view (try_op opr old) = spec_try opr (view old)"
  by (cases opr) (simp_all add: incref_try_view increfAndClose_try_view decref_try_view
      rwlock_try_view rwunlock_try_view del: spec_try.simps)

section \<open>The operations, run without interference\<close>

text \<open>
  With no other goroutine in between, the swap succeeds at once. \<open>wake\<close> is the loop of
  \<open>increfAndClose\<close> that releases the semaphore once per waiter it found in the old word.
\<close>

function wake :: "bool \<Rightarrow> u64 \<Rightarrow> u32 \<Rightarrow> u32" where
  "wake read old sema =
     (if old AND mutexMask read \<noteq> 0 then wake read (old - mutexWait read) (semrelease sema)
      else sema)"
  by pat_completeness auto
termination
  by (relation "measure (\<lambda>(read, old, sema). v_wait read (view old))")
    (auto simp: view_tests view_sub_wait)

declare wake.simps [simp del]

definition incref :: "fdMutex \<Rightarrow> fdMutex \<times> bool outcome" where
  "incref mu = (case incref_try (mu_state mu) of
     Return b \<Rightarrow> (mu, Ret b)
   | PanicWith m \<Rightarrow> (mu, Panic m)
   | Try new \<Rightarrow> (mu\<lparr>mu_state := new\<rparr>, Ret True))"

definition increfAndClose :: "fdMutex \<Rightarrow> fdMutex \<times> bool outcome" where
  "increfAndClose mu = (let old = mu_state mu in case increfAndClose_try old of
     Return b \<Rightarrow> (mu, Ret b)
   | PanicWith m \<Rightarrow> (mu, Panic m)
   | Try new \<Rightarrow> (mu\<lparr>mu_state := new, mu_rsema := wake True old (mu_rsema mu),
                  mu_wsema := wake False old (mu_wsema mu)\<rparr>, Ret True))"

definition decref :: "fdMutex \<Rightarrow> fdMutex \<times> bool outcome" where
  "decref mu = (case decref_try (mu_state mu) of
     Return b \<Rightarrow> (mu, Ret b)
   | PanicWith m \<Rightarrow> (mu, Panic m)
   | Try new \<Rightarrow> (mu\<lparr>mu_state := new\<rparr>, Ret (last_ref new)))"

text \<open>
  A \<open>rwlock\<close> that finds the lock taken registers itself as a waiter and sleeps on the
  semaphore; each unit of the semaphore lets it go round once more.
\<close>

function rwlock :: "bool \<Rightarrow> fdMutex \<Rightarrow> fdMutex \<times> bool outcome" where
  "rwlock read mu = (let old = mu_state mu in case rwlock_try read old of
     Return b \<Rightarrow> (mu, Ret b)
   | PanicWith m \<Rightarrow> (mu, Panic m)
   | Try new \<Rightarrow>
       (let mu' = mu\<lparr>mu_state := new\<rparr> in
        if old AND mutexBit read = 0 then (mu', Ret True)
        else case cansemacquire (mutexSema read mu') of
          None \<Rightarrow> (mu', Blocked)
        | Some v \<Rightarrow> rwlock read (set_mutexSema read v mu')))"
  by pat_completeness auto
termination
proof (relation "measure (\<lambda>(read, mu). unat (mutexSema read mu))", goal_cases)
  case (2 read mu old new mu' v)
  then have "mutexSema read mu \<noteq> 0" and v: "v = mutexSema read mu - 1"
    by (auto simp: cansemacquire_def mutexSema_def split: if_splits)
  then have "unat v < unat (mutexSema read mu)"
    using measure_unat [of "mutexSema read mu"] by simp
  moreover have "mutexSema read (set_mutexSema read v mu') = v"
    by (simp add: mutexSema_def set_mutexSema_def)
  ultimately show ?case by simp
qed simp

declare rwlock.simps [simp del]

definition rwunlock :: "bool \<Rightarrow> fdMutex \<Rightarrow> fdMutex \<times> bool outcome" where
  "rwunlock read mu = (let old = mu_state mu in case rwunlock_try read old of
     Return b \<Rightarrow> (mu, Ret b)
   | PanicWith m \<Rightarrow> (mu, Panic m)
   | Try new \<Rightarrow>
       (let mu' = mu\<lparr>mu_state := new\<rparr> in
        (if old AND mutexMask read \<noteq> 0
         then set_mutexSema read (semrelease (mutexSema read mu')) mu' else mu',
         Ret (last_ref new))))"

abbreviation mview :: "fdMutex \<Rightarrow> mutex_view" where
  "mview mu \<equiv> view (mu_state mu)"

lemma wake_count: "wake read old sema = sema + of_nat (v_wait read (view old))"
proof (induction read old sema rule: wake.induct)
  case (1 read old sema)
  show ?case
  proof (cases "v_wait read (view old) = 0")
    case True
    then show ?thesis by (simp add: wake.simps [of read old] view_tests)
  next
    case False
    then have "wake read old sema = sema + 1 + of_nat (v_wait read (view old) - 1)"
      using "1.IH" by (simp add: wake.simps [of read old] view_tests semrelease_def view_sub_wait)
    with False show ?thesis by (cases "v_wait read (view old)") (simp_all add: algebra_simps)
  qed
qed

text \<open>Reading the outcome of a loop body off the specification.\<close>

lemma try_op_cases:
  "try_op opr old = Return b \<longleftrightarrow> spec_try opr (view old) = Return b"
  "try_op opr old = PanicWith m \<longleftrightarrow> spec_try opr (view old) = PanicWith m"
  "try_op opr old = Try new \<Longrightarrow> spec_try opr (view old) = Try (view new)"
  using try_op_view [of opr old] by (cases "try_op opr old"; auto)+

lemma try_op_TryE:
  assumes "spec_try opr (view old) = Try v"
  obtains new where "try_op opr old = Try new" and "view new = v"
  using assms try_op_view [of opr old] by (cases "try_op opr old") auto

end
