(* ===== verification/FdMutexMachine.thy ===== *)
theory FdMutexMachine
  imports FdMutex
begin

text \<open>
  Any number of goroutines using one \<open>fdMutex\<close> at the same time. A step is one atomic action
  of one goroutine: it starts a call, loads the word, succeeds or fails at its
  compare-and-swap, takes or releases a semaphore. A goroutine unlocks or drops only what it
  holds, as \<open>fd_mutex.go\<close> asks of its callers ("Read operations must do
  rwlock(true)/rwunlock(true) \<dots>"). A panic ends the program.
\<close>

section \<open>Goroutines and steps\<close>

datatype pc =
    Idle
  | AtLoad op            \<comment> \<open>about to load the word\<close>
  | AtCas op u64 u64     \<comment> \<open>about to swap the old word for the new one\<close>
  | AtWake bool u64      \<comment> \<open>in a waking loop of \<open>increfAndClose\<close>\<close>
  | AtSem bool           \<comment> \<open>in \<open>runtime_Semacquire\<close>\<close>
  | AtRel bool           \<comment> \<open>about to call \<open>runtime_Semrelease\<close>\<close>

record thread =
  t_pc :: pc
  t_misc :: nat    \<comment> \<open>references held by \<open>incref\<close> and \<open>increfAndClose\<close>\<close>
  t_r :: nat       \<comment> \<open>read locks held\<close>
  t_w :: nat       \<comment> \<open>write locks held\<close>

definition t_held :: "bool \<Rightarrow> thread \<Rightarrow> nat" where
  "t_held read t = (if read then t_r t else t_w t)"

definition set_held :: "bool \<Rightarrow> nat \<Rightarrow> thread \<Rightarrow> thread" where
  "set_held read n t = (if read then t\<lparr>t_r := n\<rparr> else t\<lparr>t_w := n\<rparr>)"

record sys =
  s_mu :: fdMutex
  s_threads :: "thread list"
  s_destroyed :: nat              \<comment> \<open>how often a call reported the last reference\<close>
  s_crashed :: "string option"

fun may_call :: "op \<Rightarrow> thread \<Rightarrow> bool" where
  "may_call Decref t = (0 < t_misc t)"
| "may_call (Rwunlock read) t = (0 < t_held read t)"
| "may_call _ t = True"

definition goto :: "nat \<Rightarrow> pc \<Rightarrow> sys \<Rightarrow> sys" where
  "goto i p s = s\<lparr>s_threads := (s_threads s)[i := (s_threads s ! i)\<lparr>t_pc := p\<rparr>]\<rparr>"

definition after_load :: "nat \<Rightarrow> op \<Rightarrow> sys \<Rightarrow> sys" where
  "after_load i opr s = (let old = mu_state (s_mu s) in case try_op opr old of
     Return b \<Rightarrow> goto i Idle s
   | PanicWith m \<Rightarrow> s\<lparr>s_crashed := Some m\<rparr>
   | Try new \<Rightarrow> goto i (AtCas opr old new) s)"

text \<open>What the successful swap does to the goroutine: its next point, what it now holds.\<close>

fun cas_thread :: "op \<Rightarrow> u64 \<Rightarrow> thread \<Rightarrow> thread" where
  "cas_thread Incref old t = t\<lparr>t_pc := Idle, t_misc := t_misc t + 1\<rparr>"
| "cas_thread IncrefAndClose old t = t\<lparr>t_pc := AtWake True old, t_misc := t_misc t + 1\<rparr>"
| "cas_thread Decref old t = t\<lparr>t_pc := Idle, t_misc := t_misc t - 1\<rparr>"
| "cas_thread (Rwlock read) old t =
     (if old AND mutexBit read = 0 then set_held read (t_held read t + 1) (t\<lparr>t_pc := Idle\<rparr>)
      else t\<lparr>t_pc := AtSem read\<rparr>)"
| "cas_thread (Rwunlock read) old t =
     set_held read (t_held read t - 1)
       (t\<lparr>t_pc := (if old AND mutexMask read \<noteq> 0 then AtRel read else Idle)\<rparr>)"

fun reports :: "op \<Rightarrow> u64 \<Rightarrow> bool" where
  "reports Decref new = last_ref new"
| "reports (Rwunlock _) new = last_ref new"
| "reports _ new = False"

definition after_cas :: "nat \<Rightarrow> op \<Rightarrow> u64 \<Rightarrow> u64 \<Rightarrow> sys \<Rightarrow> sys" where
  "after_cas i opr old new s =
     s\<lparr>s_mu := (s_mu s)\<lparr>mu_state := new\<rparr>,
       s_threads := (s_threads s)[i := cas_thread opr old (s_threads s ! i)],
       s_destroyed := s_destroyed s + bool_nat (reports opr new)\<rparr>"

definition release_sema :: "bool \<Rightarrow> sys \<Rightarrow> sys" where
  "release_sema read s =
     s\<lparr>s_mu := set_mutexSema read (semrelease (mutexSema read (s_mu s))) (s_mu s)\<rparr>"

definition after_wake :: "nat \<Rightarrow> bool \<Rightarrow> u64 \<Rightarrow> sys \<Rightarrow> sys" where
  "after_wake i read old s =
     (if old AND mutexMask read \<noteq> 0
      then goto i (AtWake read (old - mutexWait read)) (release_sema read s)
      else goto i (if read then AtWake False old else Idle) s)"

abbreviation runs :: "nat \<Rightarrow> pc \<Rightarrow> sys \<Rightarrow> bool" where
  "runs i p s \<equiv> s_crashed s = None \<and> i < length (s_threads s) \<and> t_pc (s_threads s ! i) = p"

inductive mstep :: "sys \<Rightarrow> sys \<Rightarrow> bool" where
  call: "runs i Idle s \<Longrightarrow> may_call opr (s_threads s ! i) \<Longrightarrow> mstep s (goto i (AtLoad opr) s)"
| load: "runs i (AtLoad opr) s \<Longrightarrow> mstep s (after_load i opr s)"
| cas_fail: "runs i (AtCas opr old new) s \<Longrightarrow> mu_state (s_mu s) \<noteq> old \<Longrightarrow>
    mstep s (goto i (AtLoad opr) s)"
| cas_ok: "runs i (AtCas opr old new) s \<Longrightarrow> mu_state (s_mu s) = old \<Longrightarrow>
    mstep s (after_cas i opr old new s)"
| wake: "runs i (AtWake read old) s \<Longrightarrow> mstep s (after_wake i read old s)"
| acquire: "runs i (AtSem read) s \<Longrightarrow> cansemacquire (mutexSema read (s_mu s)) = Some v \<Longrightarrow>
    mstep s (goto i (AtLoad (Rwlock read)) (s\<lparr>s_mu := set_mutexSema read v (s_mu s)\<rparr>))"
| release: "runs i (AtRel read) s \<Longrightarrow> mstep s (goto i Idle (release_sema read s))"

definition new_thread :: thread where
  "new_thread = \<lparr>t_pc = Idle, t_misc = 0, t_r = 0, t_w = 0\<rparr>"

definition start :: "nat \<Rightarrow> sys" where
  "start n = \<lparr>s_mu = \<lparr>mu_state = 0, mu_rsema = 0, mu_wsema = 0\<rparr>,
     s_threads = replicate n new_thread, s_destroyed = 0, s_crashed = None\<rparr>"

definition mreach :: "nat \<Rightarrow> sys \<Rightarrow> bool" where
  "mreach n s \<longleftrightarrow> mstep\<^sup>*\<^sup>* (start n) s"

section \<open>The invariant\<close>

definition refs_of :: "thread \<Rightarrow> nat" where
  "refs_of t = t_misc t + t_held True t + t_held False t"

definition sleeping :: "bool \<Rightarrow> thread \<Rightarrow> nat" where
  "sleeping read t = bool_nat (t_pc t = AtSem read)"

text \<open>Semaphore units a goroutine still has to release.\<close>

definition owed :: "bool \<Rightarrow> thread \<Rightarrow> nat" where
  "owed read t = (case t_pc t of
     AtRel r \<Rightarrow> bool_nat (r = read)
   | AtWake r old \<Rightarrow> (if r \<or> \<not> read then v_wait read (view old) else 0)
   | _ \<Rightarrow> 0)"

text \<open>On the way to taking the lock, or to waking somebody who will.\<close>

definition contending :: "bool \<Rightarrow> thread \<Rightarrow> nat" where
  "contending read t = bool_nat (case t_pc t of
     AtLoad opr \<Rightarrow> opr = Rwlock read
   | AtCas opr _ _ \<Rightarrow> opr = Rwlock read
   | AtRel r \<Rightarrow> r = read
   | _ \<Rightarrow> False)"

definition pc_ok :: "thread \<Rightarrow> bool" where
  "pc_ok t = (case t_pc t of
     AtLoad opr \<Rightarrow> may_call opr t
   | AtCas opr old new \<Rightarrow> may_call opr t \<and> try_op opr old = Try new
   | _ \<Rightarrow> True)"

definition inv_refs :: "sys \<Rightarrow> bool" where
  "inv_refs s \<longleftrightarrow> v_refs (mview (s_mu s)) = tsum refs_of (s_threads s)"

definition inv_lock :: "bool \<Rightarrow> sys \<Rightarrow> bool" where
  "inv_lock read s \<longleftrightarrow> bool_nat (v_lock read (mview (s_mu s))) = tsum (t_held read) (s_threads s)"

definition inv_sema :: "bool \<Rightarrow> sys \<Rightarrow> bool" where
  "inv_sema read s \<longleftrightarrow> tsum (sleeping read) (s_threads s)
     = v_wait read (mview (s_mu s)) + unat (mutexSema read (s_mu s)) + tsum (owed read) (s_threads s)"

definition inv_pc :: "sys \<Rightarrow> bool" where
  "inv_pc s \<longleftrightarrow> list_all pc_ok (s_threads s)"

definition inv_closed :: "sys \<Rightarrow> bool" where
  "inv_closed s \<longleftrightarrow> (v_closed (mview (s_mu s)) \<longrightarrow>
     v_wait True (mview (s_mu s)) = 0 \<and> v_wait False (mview (s_mu s)) = 0)"

definition inv_destroyed :: "sys \<Rightarrow> bool" where
  "inv_destroyed s \<longleftrightarrow> s_destroyed s
     = bool_nat (v_closed (mview (s_mu s)) \<and> v_refs (mview (s_mu s)) = 0)"

definition inv_wakeup :: "bool \<Rightarrow> sys \<Rightarrow> bool" where
  "inv_wakeup read s \<longleftrightarrow> (s_crashed s = None \<and> 0 < v_wait read (mview (s_mu s)) \<longrightarrow>
     v_lock read (mview (s_mu s)) \<or> 0 < unat (mutexSema read (s_mu s))
     \<or> 0 < tsum (contending read) (s_threads s))"

definition minv :: "sys \<Rightarrow> bool" where
  "minv s \<longleftrightarrow> inv_refs s \<and> (\<forall>read. inv_lock read s) \<and> (\<forall>read. inv_sema read s) \<and> inv_pc s
     \<and> inv_closed s \<and> inv_destroyed s \<and> (\<forall>read. inv_wakeup read s)
     \<and> s_crashed s \<noteq> Some inconsistentMsg \<and> length (s_threads s) < 2 ^ 32"

lemmas inv_defs = inv_refs_def inv_lock_def inv_sema_def inv_pc_def inv_closed_def
  inv_destroyed_def inv_wakeup_def

lemmas count_defs = refs_of_def sleeping_def owed_def contending_def t_held_def set_held_def

lemma may_call_pc [simp]: "may_call opr (t_pc_update f t) = may_call opr t"
  by (cases opr) (auto simp: t_held_def)

lemma inv_pc_update:
  "inv_pc s \<Longrightarrow> pc_ok t \<Longrightarrow> list_all pc_ok ((s_threads s)[i := t])"
  unfolding inv_pc_def list_all_iff by (metis insert_iff set_update_subset_insert subsetD)

lemma goto_simps [simp]:
  "s_mu (goto i q s) = s_mu s" "s_destroyed (goto i q s) = s_destroyed s"
  "s_crashed (goto i q s) = s_crashed s"
  "s_threads (goto i q s) = (s_threads s)[i := (s_threads s ! i)\<lparr>t_pc := q\<rparr>]"
  by (simp_all add: goto_def)

text \<open>A step that only moves the program counter of one goroutine.\<close>

lemma goto_inv:
  assumes inv: "minv s" and i: "i < length (s_threads s)"
    and t: "t = s_threads s ! i" and t': "t' = t\<lparr>t_pc := q\<rparr>" and ok: "pc_ok t'"
    and own: "\<And>read. owed read t' = owed read t" "\<And>read. sleeping read t' = sleeping read t"
    and con: "\<And>read. contending read t \<le> contending read t' \<or> v_wait read (mview (s_mu s)) = 0"
  shows "minv (goto i q s)"
proof -
  have upd: "tsum f (s_threads (goto i q s)) + f t = tsum f (s_threads s) + f t'" for f
    using tsum_update [OF i, of f t'] by (simp add: t t')
  have "refs_of t' = refs_of t" "t_held read t' = t_held read t" for read
    by (simp_all add: t' count_defs)
  then have sums: "tsum refs_of (s_threads (goto i q s)) = tsum refs_of (s_threads s)"
    "tsum (t_held read) (s_threads (goto i q s)) = tsum (t_held read) (s_threads s)"
    "tsum (owed read) (s_threads (goto i q s)) = tsum (owed read) (s_threads s)"
    "tsum (sleeping read) (s_threads (goto i q s)) = tsum (sleeping read) (s_threads s)" for read
    using upd [of refs_of] upd [of "t_held read"] upd [of "owed read"] upd [of "sleeping read"] own
    by simp_all
  have "list_all pc_ok (s_threads (goto i q s))"
    using inv ok by (simp add: minv_def t t' inv_pc_update)
  moreover have "inv_wakeup read (goto i q s)" for read
  proof -
    have "inv_wakeup read s" using inv by (simp add: minv_def)
    then show ?thesis
      using con [of read] upd [of "contending read"] by (auto simp: inv_wakeup_def)
  qed
  ultimately show ?thesis
    using inv sums by (simp add: minv_def inv_refs_def inv_lock_def inv_sema_def inv_pc_def
        inv_closed_def inv_destroyed_def)
qed

lemma mutexSema_set [simp]:
  "mutexSema read (set_mutexSema read v mu) = v"
  "read' \<noteq> read \<Longrightarrow> mutexSema read' (set_mutexSema read v mu) = mutexSema read' mu"
  "mu_state (set_mutexSema read v mu) = mu_state mu"
  by (auto simp: mutexSema_def set_mutexSema_def)

text \<open>A goroutine that owes a unit of the semaphore releases it.\<close>

lemma release_inv:
  assumes inv: "minv s" and i: "i < length (s_threads s)"
    and t: "t = s_threads s ! i" and t': "t' = t\<lparr>t_pc := q\<rparr>" and ok: "pc_ok t'"
    and own: "owed read t = owed read t' + 1" "owed (\<not> read) t' = owed (\<not> read) t"
    and sl: "\<And>r. sleeping r t' = sleeping r t"
    and con: "contending (\<not> read) t \<le> contending (\<not> read) t'"
  shows "minv (goto i q (release_sema read s))"
proof -
  let ?s = "goto i q (release_sema read s)"
  have th: "s_threads ?s = (s_threads s)[i := t']" by (simp add: release_sema_def t t')
  have upd: "tsum f (s_threads ?s) + f t = tsum f (s_threads s) + f t'" for f
    unfolding th using tsum_update [OF i, of f t'] by (simp add: t)
  have "refs_of t' = refs_of t" "t_held r t' = t_held r t" for r
    by (simp_all add: t' count_defs)
  then have sums: "tsum refs_of (s_threads ?s) = tsum refs_of (s_threads s)"
    "tsum (t_held r) (s_threads ?s) = tsum (t_held r) (s_threads s)"
    "tsum (sleeping r) (s_threads ?s) = tsum (sleeping r) (s_threads s)" for r
    using upd [of refs_of] upd [of "t_held r"] upd [of "sleeping r"] sl by simp_all
  have owed: "tsum (owed read) (s_threads ?s) + 1 = tsum (owed read) (s_threads s)"
    "tsum (owed (\<not> read)) (s_threads ?s) = tsum (owed (\<not> read)) (s_threads s)"
    using upd [of "owed read"] upd [of "owed (\<not> read)"] own by simp_all
  let ?v = "mutexSema read (s_mu s)"
  have "unat ?v + 1 \<le> tsum (sleeping read) (s_threads s)"
    using inv owed by (simp add: minv_def inv_sema_def)
  also have "\<dots> \<le> length (s_threads s)"
    by (rule tsum_le_length) (simp add: sleeping_def)
  also have "\<dots> < 2 ^ 32" using inv by (simp add: minv_def)
  finally have v: "unat (?v + 1) = unat ?v + 1" by (simp add: unat_word_ariths)
  have "list_all pc_ok (s_threads ?s)" using inv ok th by (simp add: minv_def inv_pc_update)
  moreover have "inv_sema r ?s" for r
    using inv sums(3) [of r] owed v
    by (cases "r = read") (simp_all add: minv_def inv_sema_def release_sema_def semrelease_def)
  moreover have "inv_wakeup r ?s" for r
  proof (cases "r = read")
    case True
    then show ?thesis using v by (simp add: inv_wakeup_def release_sema_def semrelease_def)
  next
    case False
    then have "r = (\<not> read)" by simp
    moreover have "inv_wakeup r s" using inv by (simp add: minv_def)
    ultimately show ?thesis
      using con upd [of "contending r"] by (auto simp: inv_wakeup_def release_sema_def)
  qed
  ultimately show ?thesis
    using inv sums by (simp add: minv_def inv_refs_def inv_lock_def inv_pc_def
        inv_closed_def inv_destroyed_def release_sema_def)
qed

text \<open>A sleeping goroutine takes a unit of the semaphore and goes round its loop again.\<close>

lemma acquire_inv:
  assumes inv: "minv s" and run: "runs i (AtSem read) s"
    and v: "cansemacquire (mutexSema read (s_mu s)) = Some v"
  shows "minv (goto i (AtLoad (Rwlock read)) (s\<lparr>s_mu := set_mutexSema read v (s_mu s)\<rparr>))"
    (is "minv ?s")
proof -
  define t where "t = s_threads s ! i"
  define t' where "t' = t\<lparr>t_pc := AtLoad (Rwlock read)\<rparr>"
  have i: "i < length (s_threads s)" and pc: "t_pc t = AtSem read" using run by (auto simp: t_def)
  have th: "s_threads ?s = (s_threads s)[i := t']" by (simp add: t'_def t_def)
  have upd: "tsum f (s_threads ?s) + f t = tsum f (s_threads s) + f t'" for f
    unfolding th using tsum_update [OF i, of f t'] by (simp add: t_def)
  have eq: "refs_of t' = refs_of t" "t_held r t' = t_held r t" "owed r t' = 0" "owed r t = 0"
    "sleeping r t = bool_nat (r = read)" "sleeping r t' = 0"
    "contending r t = 0" "contending r t' = bool_nat (r = read)" for r
    using pc by (auto simp: t'_def count_defs)
  then have sums: "tsum refs_of (s_threads ?s) = tsum refs_of (s_threads s)"
    "tsum (t_held r) (s_threads ?s) = tsum (t_held r) (s_threads s)"
    "tsum (owed r) (s_threads ?s) = tsum (owed r) (s_threads s)"
    "tsum (sleeping r) (s_threads ?s) + bool_nat (r = read) = tsum (sleeping r) (s_threads s)"
    "tsum (contending r) (s_threads ?s) = tsum (contending r) (s_threads s) + bool_nat (r = read)" for r
    using upd [of refs_of] upd [of "t_held r"] upd [of "owed r"] upd [of "sleeping r"]
      upd [of "contending r"] by simp_all
  have nz: "mutexSema read (s_mu s) \<noteq> 0" and "v = mutexSema read (s_mu s) - 1"
    using v by (auto simp: cansemacquire_def split: if_splits)
  then have dec: "unat v + 1 = unat (mutexSema read (s_mu s))"
    by (simp add: unat_gt_0 unat_minus_one)
  have "list_all pc_ok (s_threads ?s)"
    using inv th by (simp add: minv_def inv_pc_update t'_def pc_ok_def)
  moreover have "inv_sema r ?s" for r
  proof -
    have "inv_sema r s" using inv by (simp add: minv_def)
    then show ?thesis using sums(3,4) [of r] dec
      by (cases "r = read") (simp_all add: inv_sema_def)
  qed
  moreover have "inv_wakeup r ?s" for r
  proof -
    have "inv_wakeup r s" using inv by (simp add: minv_def)
    then show ?thesis using sums(5) [of r]
      by (cases "r = read") (simp_all add: inv_wakeup_def)
  qed
  ultimately show ?thesis
    using inv sums by (simp add: minv_def inv_refs_def inv_lock_def inv_pc_def
        inv_closed_def inv_destroyed_def)
qed

text \<open>
  A successful swap: how the counts of the word and of the goroutine change together. The
  last fact says that a waiter left behind with the lock free has somebody on the way.
\<close>

lemma cas_balance:
  assumes pc: "t_pc t = AtCas opr old new" and ok: "pc_ok t"
  defines "t' \<equiv> cas_thread opr old t" and "v \<equiv> view old" and "v' \<equiv> view new"
  shows "v_refs v' + refs_of t = v_refs v + refs_of t'"
    and "bool_nat (v_lock r v') + t_held r t = bool_nat (v_lock r v) + t_held r t'"
    and "sleeping r t' + v_wait r v + owed r t = sleeping r t + v_wait r v' + owed r t'"
    and "(v_closed v \<Longrightarrow> v_wait r v = 0) \<Longrightarrow> v_closed v' \<Longrightarrow> v_wait r v' = 0"
    and "bool_nat (reports opr new) + bool_nat (v_closed v \<and> v_refs v = 0)
       = bool_nat (v_closed v' \<and> v_refs v' = 0)"
    and "0 < v_wait r v' \<Longrightarrow> v_lock r v' \<or> 0 < contending r t'
       \<or> 0 < v_wait r v \<and> \<not> v_lock r v \<and> contending r t = 0"
    and "pc_ok t'"
proof -
  have may: "may_call opr t" and sp: "spec_try opr v = Try v'"
    using pc ok by (auto simp: pc_ok_def v_def v'_def dest: try_op_cases(3))
  have rep: "last_ref new \<longleftrightarrow> v_closed v' \<and> v_refs v' = 0"
    by (simp add: last_ref_view v'_def)
  have old: "old AND mutexBit read = 0 \<longleftrightarrow> \<not> v_lock read v"
    "old AND mutexMask read = 0 \<longleftrightarrow> v_wait read v = 0" for read
    by (simp_all add: view_tests v_def)
  have h: "t_held r (set_held q n u) = (if r = q then n else t_held r u)"
    "t_misc (set_held q n u) = t_misc u" "t_pc (set_held q n u) = t_pc u" for r q n u
    by (auto simp: t_held_def set_held_def)
  have vl: "v_lock r (set_lock q b u) = (if r = q then b else v_lock r u)"
    "v_wait r (set_wait q n u) = (if r = q then n else v_wait r u)"
    "v_lock r (v_refs_update f u) = v_lock r u" "v_wait r (v_refs_update f u) = v_wait r u"
    for r q b n f u
    by (auto simp: view_accessors)
  have hp: "t_held r (t_pc_update f u) = t_held r u" "t_held r (t_misc_update f' u) = t_held r u"
    for r f f' u by (simp_all add: t_held_def)
  have "(v_refs v' + refs_of t = v_refs v + refs_of t')
    \<and> bool_nat (v_lock r v') + t_held r t = bool_nat (v_lock r v) + t_held r t'
    \<and> sleeping r t' + v_wait r v + owed r t = sleeping r t + v_wait r v' + owed r t'
    \<and> ((v_closed v \<longrightarrow> v_wait r v = 0) \<longrightarrow> v_closed v' \<longrightarrow> v_wait r v' = 0)
    \<and> bool_nat (reports opr new) + bool_nat (v_closed v \<and> v_refs v = 0)
       = bool_nat (v_closed v' \<and> v_refs v' = 0)
    \<and> (0 < v_wait r v' \<longrightarrow> v_lock r v' \<or> 0 < contending r t'
       \<or> 0 < v_wait r v \<and> \<not> v_lock r v \<and> contending r t = 0)
    \<and> pc_ok t'"
  proof (cases opr)
    case Incref
    then show ?thesis using pc sp
      by (auto simp: t'_def refs_of_def sleeping_def owed_def contending_def pc_ok_def
          hp vl v_wait_def v_lock_def split: if_splits)
  next
    case IncrefAndClose
    then show ?thesis using pc sp
      by (auto simp: t'_def refs_of_def sleeping_def owed_def contending_def pc_ok_def
          hp vl v_wait_def v_lock_def v_def split: if_splits)
  next
    case Decref
    then show ?thesis using pc sp may
      by (auto simp: t'_def refs_of_def sleeping_def owed_def contending_def pc_ok_def
          hp vl v_wait_def v_lock_def rep split: if_splits)
  next
    case (Rwlock read)
    then show ?thesis using pc sp
      by (cases read; cases r; auto simp: t'_def refs_of_def sleeping_def owed_def contending_def
          pc_ok_def h hp vl old split: if_splits)
  next
    case (Rwunlock read)
    then show ?thesis using pc sp may
      by (cases read; cases r; auto simp: t'_def refs_of_def sleeping_def owed_def contending_def
          pc_ok_def h hp vl old rep split: if_splits)
  qed
  then show "v_refs v' + refs_of t = v_refs v + refs_of t'"
    and "bool_nat (v_lock r v') + t_held r t = bool_nat (v_lock r v) + t_held r t'"
    and "sleeping r t' + v_wait r v + owed r t = sleeping r t + v_wait r v' + owed r t'"
    and "(v_closed v \<Longrightarrow> v_wait r v = 0) \<Longrightarrow> v_closed v' \<Longrightarrow> v_wait r v' = 0"
    and "bool_nat (reports opr new) + bool_nat (v_closed v \<and> v_refs v = 0)
       = bool_nat (v_closed v' \<and> v_refs v' = 0)"
    and "0 < v_wait r v' \<Longrightarrow> v_lock r v' \<or> 0 < contending r t'
       \<or> 0 < v_wait r v \<and> \<not> v_lock r v \<and> contending r t = 0"
    and "pc_ok t'" by blast+
qed

lemma cas_inv:
  assumes inv: "minv s" and run: "runs i (AtCas opr old new) s" and eq: "mu_state (s_mu s) = old"
  shows "minv (after_cas i opr old new s)" (is "minv ?s")
proof -
  define t where "t = s_threads s ! i"
  have i: "i < length (s_threads s)" and pc: "t_pc t = AtCas opr old new"
    using run by (auto simp: t_def)
  have ok: "pc_ok t" using inv i by (simp add: minv_def inv_pc_def list_all_length t_def)
  note bal = cas_balance [OF pc ok]
  have th: "s_threads ?s = (s_threads s)[i := cas_thread opr old t]"
    by (simp add: after_cas_def t_def)
  have upd: "tsum f (s_threads ?s) + f t = tsum f (s_threads s) + f (cas_thread opr old t)" for f
    unfolding th using tsum_update [OF i, of f "cas_thread opr old t"] by (simp add: t_def)
  have mu: "mview (s_mu s) = view old" "mview (s_mu ?s) = view new"
    "mutexSema r (s_mu ?s) = mutexSema r (s_mu s)" "s_crashed ?s = s_crashed s" for r
    by (simp_all add: eq after_cas_def mutexSema_def)
  have parts: "inv_refs s" "inv_lock r s" "inv_sema r s" "inv_closed s" "inv_destroyed s"
    "inv_wakeup r s" "inv_pc s" for r
    using inv by (auto simp: minv_def)
  have "inv_refs ?s" using parts(1) upd [of refs_of] bal(1) by (simp add: inv_refs_def mu)
  moreover have "inv_lock r ?s" for r
    using parts(2) [of r] upd [of "t_held r"] bal(2) [of r] by (simp add: inv_lock_def mu)
  moreover have "inv_sema r ?s" for r
    using parts(3) [of r] upd [of "sleeping r"] upd [of "owed r"] bal(3) [of r]
    by (simp add: inv_sema_def mu)
  moreover have "inv_closed ?s"
    using parts(4) bal(4) [of True] bal(4) [of False] by (auto simp: inv_closed_def mu)
  moreover have "inv_destroyed ?s"
  proof -
    have "s_destroyed ?s = bool_nat (reports opr new) + s_destroyed s" by (simp add: after_cas_def)
    then show ?thesis using parts(5) bal(5) by (simp only: inv_destroyed_def mu)
  qed
  moreover have "inv_wakeup r ?s" for r
  proof -
    have "contending r (cas_thread opr old t) \<le> tsum (contending r) (s_threads ?s)"
      using tsum_elem [of i "s_threads ?s" "contending r"] i by (simp add: th)
    then show ?thesis
      using parts(6) [of r] upd [of "contending r"] bal(6) [of r] by (auto simp: inv_wakeup_def mu)
  qed
  moreover have "inv_pc ?s"
    using inv_pc_update [OF parts(7) bal(7)] by (simp add: inv_pc_def th)
  ultimately show ?thesis using inv by (simp add: minv_def mu th)
qed

text \<open>A panic of a call in progress is never the one about an inconsistent mutex.\<close>

lemma load_not_inconsistent:
  assumes inv: "minv s" and i: "i < length (s_threads s)" and may: "may_call opr (s_threads s ! i)"
    and pan: "try_op opr (mu_state (s_mu s)) = PanicWith m"
  shows "m = overflowMsg"
proof -
  have refs: "refs_of (s_threads s ! i) \<le> v_refs (mview (s_mu s))"
    using tsum_elem [OF i, of refs_of] inv by (simp add: minv_def inv_refs_def)
  have lock: "t_held r (s_threads s ! i) \<le> bool_nat (v_lock r (mview (s_mu s)))" for r
    using tsum_elem [OF i, of "t_held r"] inv by (simp add: minv_def inv_lock_def)
  have sp: "spec_try opr (mview (s_mu s)) = PanicWith m" using pan by (simp add: try_op_cases)
  show ?thesis
  proof (cases opr)
    case (Rwunlock read)
    then have "v_lock read (mview (s_mu s))"
      using lock [of read] may by (cases "v_lock read (mview (s_mu s))") auto
    moreover have "0 < v_refs (mview (s_mu s))"
      using Rwunlock may refs by (cases read) (auto simp: refs_of_def)
    ultimately show ?thesis using sp Rwunlock by simp
  qed (use sp may refs in \<open>auto simp: refs_of_def split: if_splits\<close>)
qed

lemma load_inv:
  assumes inv: "minv s" and run: "runs i (AtLoad opr) s"
  shows "minv (after_load i opr s)"
proof -
  define t where "t = s_threads s ! i"
  have i: "i < length (s_threads s)" and pc: "t_pc t = AtLoad opr" using run by (auto simp: t_def)
  have may: "may_call opr t"
    using inv i pc by (auto simp: minv_def inv_pc_def list_all_length t_def pc_ok_def)
  show ?thesis
  proof (cases "try_op opr (mu_state (s_mu s))")
    case (Return b)
    then have "v_closed (mview (s_mu s))"
      by (cases opr) (auto simp: try_op_cases split: if_splits simp del: try_op.simps)
    then have "v_wait r (mview (s_mu s)) = 0" for r
      using inv by (cases r) (auto simp: minv_def inv_closed_def)
    then have "minv (goto i Idle s)"
      using pc by (intro goto_inv [OF inv i t_def refl]) (auto simp: count_defs pc_ok_def)
    with Return show ?thesis by (simp add: after_load_def)
  next
    case (PanicWith m)
    then have "m = overflowMsg"
      using load_not_inconsistent [OF inv i] may by (simp add: t_def)
    then show ?thesis using inv PanicWith
      by (simp add: after_load_def minv_def inv_defs overflowMsg_def inconsistentMsg_def)
  next
    case (Try new)
    then have "minv (goto i (AtCas opr (mu_state (s_mu s)) new) s)"
      using pc may by (intro goto_inv [OF inv i t_def refl]) (auto simp: count_defs pc_ok_def)
    with Try show ?thesis by (simp add: after_load_def)
  qed
qed

lemma wake_inv:
  assumes inv: "minv s" and run: "runs i (AtWake read old) s"
  shows "minv (after_wake i read old s)"
proof -
  define t where "t = s_threads s ! i"
  have i: "i < length (s_threads s)" and pc: "t_pc t = AtWake read old" using run by (auto simp: t_def)
  show ?thesis
  proof (cases "v_wait read (view old) = 0")
    case True
    then have "minv (goto i (if read then AtWake False old else Idle) s)"
      using pc by (intro goto_inv [OF inv i t_def refl]) (auto simp: count_defs pc_ok_def)
    with True show ?thesis by (simp add: after_wake_def view_tests)
  next
    case False
    have w: "v_wait r (view (old - mutexWait read)) = v_wait r (view old) - bool_nat (r = read)" for r
      using False by (simp add: view_sub_wait view_accessors)
    have "minv (goto i (AtWake read (old - mutexWait read)) (release_sema read s))"
      using pc False w [of True] w [of False]
      by (intro release_inv [OF inv i t_def refl]) (cases read; auto simp: count_defs pc_ok_def)+
    with False show ?thesis by (simp add: after_wake_def view_tests)
  qed
qed

lemma mstep_inv: "mstep s s' \<Longrightarrow> minv s \<Longrightarrow> minv s'"
proof (induction rule: mstep.induct)
  case (call i s opr)
  then show ?case
    using call by (intro goto_inv [OF _ _ refl refl]) (auto simp: count_defs pc_ok_def)
next
  case (cas_fail i opr old new s)
  then have "pc_ok (s_threads s ! i)" by (simp add: minv_def inv_pc_def list_all_length)
  then have "may_call opr (s_threads s ! i)" using cas_fail by (simp add: pc_ok_def)
  then show ?case
    using cas_fail by (intro goto_inv [OF _ _ refl refl]) (auto simp: count_defs pc_ok_def)
next
  case (release i read s)
  then show ?case
    by (intro release_inv [OF _ _ refl refl]) (auto simp: count_defs pc_ok_def)
qed (blast intro: load_inv cas_inv wake_inv acquire_inv)+

lemma start_inv: "n < 2 ^ 32 \<Longrightarrow> minv (start n)"
proof -
  have "refs_of new_thread = 0" "t_held r new_thread = 0" "sleeping r new_thread = 0"
    "owed r new_thread = 0" "pc_ok new_thread" for r
    by (simp_all add: new_thread_def count_defs pc_ok_def)
  moreover have "v_wait r (view 0) = 0" "\<not> v_lock r (view 0)" "v_refs (view 0) = 0"
    "\<not> v_closed (view 0)" for r
    by (simp_all add: view_def view_accessors field_def)
  moreover assume "n < 2 ^ 32"
  ultimately show ?thesis
    by (simp add: minv_def inv_defs start_def mutexSema_def list_all_iff tsum_def sum_list_replicate)
qed

interpretation fdmu: step_invariant "\<lambda>s. \<exists>n < 2 ^ 32. s = start n" mstep minv
  by unfold_locales (auto intro: start_inv mstep_inv)

lemma mreach_inv: "mreach n s \<Longrightarrow> n < 2 ^ 32 \<Longrightarrow> minv s"
  using fdmu.reach_inv unfolding mreach_def by blast

lemma mreach_start: "mreach n (start n)"
  by (simp add: mreach_def)

lemma mreach_step: "mreach n s \<Longrightarrow> mstep s s' \<Longrightarrow> mreach n s'"
  unfolding mreach_def by (rule rtranclp.rtrancl_into_rtrancl)

section \<open>Schedules\<close>

text \<open>
  The relation, run along a schedule: which goroutine moves next, and which call it makes when
  it is idle.
\<close>

definition next_step :: "nat \<Rightarrow> op \<Rightarrow> sys \<Rightarrow> sys option" where
  "next_step i opr s =
     (if s_crashed s \<noteq> None \<or> length (s_threads s) \<le> i then None
      else case t_pc (s_threads s ! i) of
        Idle \<Rightarrow> (if may_call opr (s_threads s ! i) then Some (goto i (AtLoad opr) s) else None)
      | AtLoad opr' \<Rightarrow> Some (after_load i opr' s)
      | AtCas opr' old new \<Rightarrow>
          Some (if mu_state (s_mu s) = old then after_cas i opr' old new s
                else goto i (AtLoad opr') s)
      | AtWake read old \<Rightarrow> Some (after_wake i read old s)
      | AtSem read \<Rightarrow>
          map_option (\<lambda>v. goto i (AtLoad (Rwlock read)) (s\<lparr>s_mu := set_mutexSema read v (s_mu s)\<rparr>))
            (cansemacquire (mutexSema read (s_mu s)))
      | AtRel read \<Rightarrow> Some (goto i Idle (release_sema read s)))"

fun run_schedule :: "(nat \<times> op) list \<Rightarrow> sys \<Rightarrow> sys option" where
  "run_schedule [] s = Some s"
| "run_schedule ((i, opr) # sch) s = Option.bind (next_step i opr s) (run_schedule sch)"

lemma next_step_mstep: "next_step i opr s = Some s' \<Longrightarrow> mstep s s'"
  by (auto simp: next_step_def intro: mstep.intros split: if_splits pc.splits)

lemma run_schedule_reach: "run_schedule sch s = Some s' \<Longrightarrow> mstep\<^sup>*\<^sup>* s s'"
proof (induction sch s rule: run_schedule.induct)
  case (2 i opr sch s)
  then obtain t where "next_step i opr s = Some t" "run_schedule sch t = Some s'"
    by (auto simp: bind_eq_Some_conv)
  then show ?case using 2 next_step_mstep by (metis converse_rtranclp_into_rtranclp)
qed simp

lemma schedule_mreach: "run_schedule sch (start n) = Some s \<Longrightarrow> mreach n s"
  by (simp add: mreach_def run_schedule_reach)

text \<open>
  A schedule in which goroutine 0 takes the read lock, goroutine 1 asks for it and goes to
  sleep, and goroutine 2 closes the descriptor and wakes the sleeper.
\<close>

definition contended :: sys where
  "contended = the (run_schedule (map (\<lambda>i. (i, Rwlock True)) [0, 0, 0, 1, 1, 1]) (start 3))"

definition closed_down :: sys where
  "closed_down = the (run_schedule
     (map (\<lambda>i. (i, Rwlock True)) [0, 0, 0, 1, 1, 1]
      @ replicate 6 (2, IncrefAndClose) @ [(1, Rwlock True), (1, Rwlock True)]
      @ replicate 3 (0, Rwunlock True) @ replicate 3 (2, Decref)) (start 3))"

section \<open>Properties\<close>

lemma schedule_the:
  "run_schedule sch (start n) \<noteq> None \<Longrightarrow> mreach n (the (run_schedule sch (start n)))"
  by (metis option.exhaust_sel schedule_mreach)

lemma contended_reach: "mreach 3 contended"
proof -
  have "run_schedule (map (\<lambda>i. (i, Rwlock True)) [0, 0, 0, 1, 1, 1]) (start 3) \<noteq> None"
    by code_simp
  then show ?thesis unfolding contended_def by (rule schedule_the)
qed

lemma closed_down_reach: "mreach 3 closed_down"
proof -
  have "run_schedule
     (map (\<lambda>i. (i, Rwlock True)) [0, 0, 0, 1, 1, 1]
      @ replicate 6 (2, IncrefAndClose) @ [(1, Rwlock True), (1, Rwlock True)]
      @ replicate 3 (0, Rwunlock True) @ replicate 3 (2, Decref)) (start 3) \<noteq> None"
    by code_simp
  then show ?thesis unfolding closed_down_def by (rule schedule_the)
qed

lemma tsum_pos: "0 < tsum f ts \<Longrightarrow> \<exists>j < length ts. 0 < f (ts ! j)"
proof (rule ccontr)
  assume "0 < tsum f ts" and "\<not> (\<exists>j < length ts. 0 < f (ts ! j))"
  then have "\<forall>t \<in> set ts. f t = 0" by (auto simp: in_set_conv_nth)
  then have "tsum f ts = 0" by simp
  with \<open>0 < tsum f ts\<close> show False by simp
qed

text \<open>
  C5. The 64-bit word of an \<open>fdMutex\<close> implements three flags and three 20-bit counters: each
  pass of each of the five operations' loops does to the word what the specification does to
  the flags and counters (return, panic on overflow or misuse, or swap), no carry leaks from
  one field into another, and the "last reference" test means closed with no reference.
\<close>

theorem fdmutex_word_refines:
  "map_attempt view (try_op opr old) = spec_try opr (view old)
   \<and> (last_ref new \<longleftrightarrow> v_closed (view new) \<and> v_refs (view new) = 0)"
  by (simp add: try_op_view last_ref_view del: spec_try.simps)

text \<open>
  C1. Under every interleaving at most one goroutine holds the read lock and at most one the
  write lock, and the reference count in the word is the number of references held.
\<close>

theorem fdmutex_exclusion:
  assumes "mreach n s" and "n < 2 ^ 32"
  shows "tsum (t_held read) (s_threads s) \<le> 1
    \<and> v_refs (mview (s_mu s)) = tsum refs_of (s_threads s)"
proof -
  have "minv s" using mreach_inv assms by blast
  then have "tsum (t_held read) (s_threads s) = bool_nat (v_lock read (mview (s_mu s)))"
    "inv_refs s" by (simp_all add: minv_def inv_lock_def)
  then show ?thesis by (simp add: inv_refs_def)
qed

theorem fdmutex_exclusion_witness:
  "mreach 3 contended \<and> tsum (t_held True) (s_threads contended) = 1
   \<and> v_refs (mview (s_mu contended)) = tsum refs_of (s_threads contended)"
proof -
  have "tsum (t_held True) (s_threads contended) = 1" by code_simp
  then show ?thesis
    using contended_reach fdmutex_exclusion [OF contended_reach, of True] by simp
qed

text \<open>
  C2. The last reference of a closed descriptor is reported exactly once: under every
  interleaving the number of calls of \<open>decref\<close> and \<open>rwunlock\<close> that have returned true is 1
  when the descriptor is closed and no goroutine holds a reference, and 0 otherwise. So
  \<open>destroy\<close> never runs under a user of the descriptor, never twice, and never too late.
\<close>

theorem fdmutex_destroy_once:
  assumes "mreach n s" and "n < 2 ^ 32"
  shows "s_destroyed s
    = (if v_closed (mview (s_mu s)) \<and> tsum refs_of (s_threads s) = 0 then 1 else 0)"
proof -
  have "minv s" using mreach_inv assms by blast
  then show ?thesis by (simp add: minv_def inv_destroyed_def inv_refs_def)
qed

theorem fdmutex_destroy_once_witness:
  "s_destroyed closed_down
     = (if v_closed (mview (s_mu closed_down)) \<and> tsum refs_of (s_threads closed_down) = 0
        then 1 else 0) \<and> s_destroyed closed_down = 1"
proof -
  have "s_destroyed closed_down = 1" by code_simp
  then show ?thesis using fdmutex_destroy_once [OF closed_down_reach] by simp
qed

text \<open>
  Goroutines that release only what they hold never meet the \<open>inconsistent poll.fdMutex\<close>
  panic, whatever the interleaving; the only panic they can meet is the overflow of a count.
\<close>

theorem fdmutex_never_inconsistent:
  assumes "mreach n s" and "n < 2 ^ 32"
  shows "s_crashed s \<noteq> Some inconsistentMsg"
  using mreach_inv [OF assms] by (simp add: minv_def)

theorem fdmutex_never_inconsistent_witness: "s_crashed closed_down \<noteq> Some inconsistentMsg"
  using fdmutex_never_inconsistent [OF closed_down_reach] by simp

text \<open>
  C3. No wake-up is lost. When every goroutine is idle or asleep in the semaphore, and a
  goroutine sleeps for a lock whose semaphore has no unit for it, then some goroutine holds
  that very lock and will wake it when it unlocks, and the descriptor is not closed.
\<close>

theorem fdmutex_no_lost_wakeup:
  assumes "mreach n s" and "n < 2 ^ 32" and "s_crashed s = None"
    and quiet: "\<And>t. t \<in> set (s_threads s) \<Longrightarrow> t_pc t = Idle \<or> (\<exists>r. t_pc t = AtSem r)"
    and i: "i < length (s_threads s)" "t_pc (s_threads s ! i) = AtSem read"
    and "mutexSema read (s_mu s) = 0"
  shows "(\<exists>j < length (s_threads s). 0 < t_held read (s_threads s ! j))
    \<and> \<not> v_closed (mview (s_mu s))"
proof -
  have inv: "minv s" using mreach_inv assms by blast
  have zero: "tsum (owed read) (s_threads s) = 0" "tsum (contending read) (s_threads s) = 0"
    using quiet by (force simp: owed_def contending_def intro!: tsum_zero)+
  have "1 \<le> tsum (sleeping read) (s_threads s)"
    using tsum_elem [OF i(1), of "sleeping read"] i(2) by (simp add: sleeping_def)
  then have w: "0 < v_wait read (mview (s_mu s))"
    using inv zero assms(7) by (simp add: minv_def inv_sema_def)
  moreover have "inv_wakeup read s" using inv by (simp add: minv_def)
  ultimately have "v_lock read (mview (s_mu s))"
    using zero assms(3,7) by (simp add: inv_wakeup_def)
  then have "0 < tsum (t_held read) (s_threads s)"
    using inv by (simp add: minv_def inv_lock_def) (metis of_bool_eq(2) zero_less_one)
  moreover have "\<not> v_closed (mview (s_mu s))"
    using inv w by (cases read) (auto simp: minv_def inv_closed_def)
  ultimately show ?thesis using tsum_pos by blast
qed

theorem fdmutex_no_lost_wakeup_witness:
  "(\<exists>j < length (s_threads contended). 0 < t_held True (s_threads contended ! j))
   \<and> \<not> v_closed (mview (s_mu contended))"
proof -
  have "list_all (\<lambda>t. t_pc t = Idle \<or> t_pc t = AtSem True) (s_threads contended)" by code_simp
  moreover have "s_crashed contended = None \<and> 1 < length (s_threads contended)
      \<and> t_pc (s_threads contended ! 1) = AtSem True \<and> mutexSema True (s_mu contended) = 0"
    by code_simp
  ultimately show ?thesis
    by (intro fdmutex_no_lost_wakeup [OF contended_reach, of 1]) (auto simp: list_all_iff)
qed

text \<open>
  \<open>increfAndClose\<close> on an open descriptor with a free reference closes it, takes a
  reference, forgets the waiters and releases each semaphore exactly once per waiter; from
  then on \<open>incref\<close>, \<open>rwlock\<close> and a second \<open>increfAndClose\<close> return false at once.
\<close>

theorem fdmutex_close_evicts:
  assumes "\<not> v_closed (mview mu)" and "v_refs (mview mu) \<noteq> max_count"
    and "increfAndClose mu = (mu', r)"
  shows "r = Ret True
    \<and> mview mu' = (mview mu)\<lparr>v_closed := True, v_refs := v_refs (mview mu) + 1,
                              v_rwait := 0, v_wwait := 0\<rparr>
    \<and> mu_rsema mu' = mu_rsema mu + of_nat (v_rwait (mview mu))
    \<and> mu_wsema mu' = mu_wsema mu + of_nat (v_wwait (mview mu))
    \<and> incref mu' = (mu', Ret False) \<and> rwlock read mu' = (mu', Ret False)
    \<and> increfAndClose mu' = (mu', Ret False)"
proof -
  obtain new where new: "increfAndClose_try (mu_state mu) = Try new"
    and v: "view new = (mview mu)\<lparr>v_closed := True, v_refs := v_refs (mview mu) + 1,
                              v_rwait := 0, v_wwait := 0\<rparr>"
    using try_op_TryE [of IncrefAndClose "mu_state mu"] assms by auto
  have mu': "r = Ret True" "mu' = mu\<lparr>mu_state := new, mu_rsema := wake True (mu_state mu) (mu_rsema mu),
      mu_wsema := wake False (mu_state mu) (mu_wsema mu)\<rparr>"
    using assms(3) by (auto simp: increfAndClose_def Let_def new)
  have closed: "v_closed (view (mu_state mu'))" using v mu' by simp
  then have ret: "incref_try (mu_state mu') = Return False"
    "rwlock_try read (mu_state mu') = Return False" "increfAndClose_try (mu_state mu') = Return False"
    using try_op_cases(1) [of Incref] try_op_cases(1) [of "Rwlock read"]
      try_op_cases(1) [of IncrefAndClose] by auto
  then have "incref mu' = (mu', Ret False)" "rwlock read mu' = (mu', Ret False)"
    "increfAndClose mu' = (mu', Ret False)"
    by (simp_all add: incref_def increfAndClose_def Let_def rwlock.simps [of read mu'])
  then show ?thesis using mu' v by (simp add: wake_count v_wait_def)
qed

theorem fdmutex_close_evicts_witness:
  "\<exists>mu'. increfAndClose (s_mu contended) = (mu', Ret True) \<and> mu_rsema mu' = 1
     \<and> rwlock True mu' = (mu', Ret False)"
proof -
  obtain mu' r where c: "increfAndClose (s_mu contended) = (mu', r)" by force
  have h: "\<not> v_closed (mview (s_mu contended))" "v_refs (mview (s_mu contended)) = 1"
    "mu_rsema (s_mu contended) = 0" "v_rwait (mview (s_mu contended)) = 1"
    by code_simp+
  then show ?thesis using fdmutex_close_evicts [OF h(1) _ c, of True] c by simp
qed

end
