(* ===== verification/Netpoll.thy ===== *)
theory Netpoll
  imports GoPrelude
begin

text \<open>
  \<^verbatim>\<open>runtime/netpoll.go\<close>, the platform-independent part of the network poller. A \<open>pollDesc\<close>
  carries two binary semaphores, \<open>rg\<close> and \<open>wg\<close>, on which one reading and one writing
  goroutine park; \<open>atomicInfo\<close> is the summary of \<open>closing\<close>, \<open>rd\<close> and \<open>wd\<close> that a waiter
  reads without the lock.

  A function of the source that changes a descriptor is a function on the record
  \<open>pollDesc\<close>; one that reaches other state (the descriptor memory, the cache of free
  descriptors, the count of waiters, the goroutines made ready) is a function on the record
  \<open>netpoll\<close>. A section under \<open>pd.lock\<close> is one function. Each compare-and-swap loop runs
  without interference here; the interleavings are in \<open>NetpollMachine\<close>.
\<close>

section \<open>Constants and data\<close>

definition pollNoError :: int where "pollNoError = 0"
definition pollErrClosing :: int where "pollErrClosing = 1"
definition pollErrTimeout :: int where "pollErrTimeout = 2"
definition pollErrNotPollable :: int where "pollErrNotPollable = 3"

lemmas poll_codes = pollNoError_def pollErrClosing_def pollErrTimeout_def pollErrNotPollable_def

definition pdNil :: uintptr where "pdNil = 0"
definition pdReady :: uintptr where "pdReady = 1"
definition pdWait :: uintptr where "pdWait = 2"

lemmas pd_consts = pdNil_def pdReady_def pdWait_def

text \<open>The modes are the characters \<open>'r'\<close> and \<open>'w'\<close> and their sum.\<close>

definition mode_r :: int where "mode_r = 114"
definition mode_w :: int where "mode_w = 119"
definition mode_rw :: int where "mode_rw = mode_r + mode_w"

lemmas mode_consts = mode_r_def mode_w_def mode_rw_def

text \<open>Which function a deadline timer runs.\<close>

datatype timer_func = NetpollDeadline | NetpollReadDeadline | NetpollWriteDeadline

record timer =
  tm_f :: "timer_func option"
  tm_arg :: uintptr
  tm_seq :: uintptr
  tm_when :: int
  tm_active :: bool   \<comment> \<open>the timer is in a timer heap\<close>

record pollDesc =
  pd_link :: uintptr
  pd_fd :: uintptr
  pd_fdseq :: uintptr
  pd_atomicInfo :: u32
  pd_rg :: uintptr
  pd_wg :: uintptr
  pd_closing :: bool
  pd_user :: u32
  pd_rseq :: uintptr
  pd_rt :: timer
  pd_rd :: int
  pd_wseq :: uintptr
  pd_wt :: timer
  pd_wd :: int
  pd_self :: uintptr

definition pollClosing :: u32 where "pollClosing = push_bit 0 1"
definition pollEventErr :: u32 where "pollEventErr = push_bit 1 1"
definition pollExpiredReadDeadline :: u32 where "pollExpiredReadDeadline = push_bit 2 1"
definition pollExpiredWriteDeadline :: u32 where "pollExpiredWriteDeadline = push_bit 3 1"

text \<open>\<open>pollFDSeq\<close> is used as a bare shift count in the source: \<open>1 << 4\<close>, that is 16.\<close>

definition pollFDSeq :: nat where "pollFDSeq = 2 ^ 4"
definition pollFDSeqBits :: nat where "pollFDSeqBits = 20"
definition pollFDSeqMask :: int where "pollFDSeqMask = 2 ^ pollFDSeqBits - 1"

text \<open>The rest of the poller's state. Descriptor memory is never returned to the system, so every
  address holds a descriptor.\<close>

record netpoll =
  np_pd :: "uintptr \<Rightarrow> pollDesc"
  np_first :: uintptr          \<comment> \<open>\<open>pollcache.first\<close>\<close>
  np_waiters :: u32            \<comment> \<open>\<open>netpollWaiters\<close>\<close>
  np_inited :: u32             \<comment> \<open>\<open>netpollInited\<close>\<close>
  np_ready :: "uintptr list"   \<comment> \<open>goroutines passed to \<open>goready\<close>, in order\<close>

definition set_pd :: "uintptr \<Rightarrow> pollDesc \<Rightarrow> 'a netpoll_scheme \<Rightarrow> 'a netpoll_scheme" where
  "set_pd p pd np = np\<lparr>np_pd := (np_pd np)(p := pd)\<rparr>"

section \<open>The summary bits\<close>

definition info_closing :: "u32 \<Rightarrow> bool" where "info_closing i \<longleftrightarrow> i AND pollClosing \<noteq> 0"
definition info_eventErr :: "u32 \<Rightarrow> bool" where "info_eventErr i \<longleftrightarrow> i AND pollEventErr \<noteq> 0"
definition info_expiredReadDeadline :: "u32 \<Rightarrow> bool" where
  "info_expiredReadDeadline i \<longleftrightarrow> i AND pollExpiredReadDeadline \<noteq> 0"
definition info_expiredWriteDeadline :: "u32 \<Rightarrow> bool" where
  "info_expiredWriteDeadline i \<longleftrightarrow> i AND pollExpiredWriteDeadline \<noteq> 0"

definition publishInfo :: "pollDesc \<Rightarrow> pollDesc" where
  "publishInfo pd =
     (let info = 0 :: u32;
          info = (if pd_closing pd then info OR pollClosing else info);
          info = (if pd_rd pd < 0 then info OR pollExpiredReadDeadline else info);
          info = (if pd_wd pd < 0 then info OR pollExpiredWriteDeadline else info);
          info = info OR push_bit pollFDSeq (ucast (pd_fdseq pd AND word_of_int pollFDSeqMask));
          x = pd_atomicInfo pd
      in pd\<lparr>pd_atomicInfo := (x AND pollEventErr) OR info\<rparr>)"

definition setEventErr :: "bool \<Rightarrow> uintptr \<Rightarrow> pollDesc \<Rightarrow> pollDesc" where
  "setEventErr b seq pd =
     (let mSeq = ucast (seq AND word_of_int pollFDSeqMask) :: u32;
          x = pd_atomicInfo pd;
          xSeq = drop_bit pollFDSeq x AND word_of_int pollFDSeqMask
      in if seq \<noteq> 0 \<and> xSeq \<noteq> mSeq then pd
         else if (x AND pollEventErr \<noteq> 0) \<noteq> b then pd\<lparr>pd_atomicInfo := x XOR pollEventErr\<rparr>
         else pd)"

definition netpollcheckerr :: "pollDesc \<Rightarrow> int \<Rightarrow> int" where
  "netpollcheckerr pd mode =
     (let info = pd_atomicInfo pd in
      if info_closing info then pollErrClosing
      else if mode = mode_r \<and> info_expiredReadDeadline info
              \<or> mode = mode_w \<and> info_expiredWriteDeadline info then pollErrTimeout
      else if mode = mode_r \<and> info_eventErr info then pollErrNotPollable
      else pollNoError)"

section \<open>Semaphores\<close>

text \<open>\<open>gpp := &pd.rg; if mode == 'w' { gpp = &pd.wg }\<close>\<close>

definition gpp :: "int \<Rightarrow> pollDesc \<Rightarrow> uintptr" where
  "gpp mode pd = (if mode = mode_w then pd_wg pd else pd_rg pd)"

definition set_gpp :: "int \<Rightarrow> uintptr \<Rightarrow> pollDesc \<Rightarrow> pollDesc" where
  "set_gpp mode v pd = (if mode = mode_w then pd\<lparr>pd_wg := v\<rparr> else pd\<lparr>pd_rg := v\<rparr>)"

text \<open>The result is the goroutine that was blocked, or nil, and the change of \<open>delta\<close>.\<close>

definition netpollunblock :: "pollDesc \<Rightarrow> int \<Rightarrow> bool \<Rightarrow> int \<Rightarrow> pollDesc \<times> int \<times> uintptr" where
  "netpollunblock pd mode ioready delta =
     (let old = gpp mode pd in
      if old = pdReady then (pd, delta, 0)
      else if old = pdNil \<and> \<not> ioready then (pd, delta, 0)
      else let new = (if ioready then pdReady else pdNil);
               pd' = set_gpp mode new pd
           in if old = pdWait then (pd', delta, pdNil)
              else if old \<noteq> pdNil then (pd', delta - 1, old)
              else (pd', delta, old))"

definition netpollAdjustWaiters :: "int \<Rightarrow> 'a netpoll_scheme \<Rightarrow> 'a netpoll_scheme" where
  "netpollAdjustWaiters delta np =
     (if delta \<noteq> 0 then np\<lparr>np_waiters := np_waiters np + word_of_int delta\<rparr> else np)"

definition netpollAnyWaiters :: "'a netpoll_scheme \<Rightarrow> bool" where
  "netpollAnyWaiters np \<longleftrightarrow> np_waiters np > 0"

definition netpollgoready :: "uintptr \<Rightarrow> 'a netpoll_scheme \<Rightarrow> 'a netpoll_scheme" where
  "netpollgoready gp np = np\<lparr>np_ready := np_ready np @ [gp]\<rparr>"

text \<open>\<open>if rg != nil { netpollgoready(rg, \<dots>) }\<close>\<close>

definition goready_if :: "uintptr \<Rightarrow> 'a netpoll_scheme \<Rightarrow> 'a netpoll_scheme" where
  "goready_if gp np = (if gp \<noteq> 0 then netpollgoready gp np else np)"

text \<open>Declares a descriptor ready; the goroutines to run are pushed on the list \<open>toRun\<close>.\<close>

definition netpollready :: "uintptr list \<Rightarrow> pollDesc \<Rightarrow> int \<Rightarrow> uintptr list \<times> pollDesc \<times> int" where
  "netpollready toRun pd mode =
     (let (pd, delta, rg) = (if mode = mode_r \<or> mode = mode_rw
                             then netpollunblock pd mode_r True 0 else (pd, 0, 0));
          (pd, delta, wg) = (if mode = mode_w \<or> mode = mode_rw
                             then netpollunblock pd mode_w True delta else (pd, delta, 0));
          toRun = (if rg \<noteq> 0 then rg # toRun else toRun);
          toRun = (if wg \<noteq> 0 then wg # toRun else toRun)
      in (toRun, pd, delta))"

section \<open>Parking\<close>

text \<open>
  \<open>netpollblock\<close> up to the point where it would park: it consumes a pending notification
  (\<open>BReady\<close>), finds another goroutine waiting (\<open>BThrow\<close>), or has announced itself with
  \<open>pdWait\<close> (\<open>BWait\<close>).
\<close>

datatype block_entry = BReady pollDesc | BWait pollDesc | BThrow

definition netpollblock_enter :: "pollDesc \<Rightarrow> int \<Rightarrow> block_entry" where
  "netpollblock_enter pd mode =
     (if gpp mode pd = pdReady then BReady (set_gpp mode pdNil pd)
      else if gpp mode pd = pdNil then BWait (set_gpp mode pdWait pd)
      else BThrow)"

text \<open>Run by \<open>gopark\<close> once the goroutine is off its stack; \<open>False\<close> resumes it at once.\<close>

definition netpollblockcommit :: "uintptr \<Rightarrow> uintptr \<Rightarrow> int \<Rightarrow> 'a netpoll_scheme \<Rightarrow> 'a netpoll_scheme \<times> bool" where
  "netpollblockcommit gp p mode np =
     (if gpp mode (np_pd np p) = pdWait
      then (netpollAdjustWaiters 1 (set_pd p (set_gpp mode gp (np_pd np p)) np), True)
      else (np, False))"

text \<open>After the goroutine runs again: swap in \<open>pdNil\<close> and look at what was there.\<close>

definition netpollblock_leave :: "pollDesc \<Rightarrow> int \<Rightarrow> pollDesc \<times> bool outcome" where
  "netpollblock_leave pd mode =
     (let old = gpp mode pd; pd' = set_gpp mode pdNil pd in
      if old > pdWait then (pd', Panic ''runtime: corrupted polldesc'')
      else (pd', Ret (old = pdReady)))"

section \<open>Deadlines\<close>

text \<open>
  The runtime's timers (\<^verbatim>\<open>runtime/time.go\<close>) are seen through the fields that the poller
  reads and writes and through whether the timer is pending. \<open>TimersProps\<close> shows that the timer heap does this.
\<close>

definition modtimer :: "int \<Rightarrow> timer_func \<Rightarrow> uintptr \<Rightarrow> uintptr \<Rightarrow> timer \<Rightarrow> timer" where
  "modtimer when f arg seq t =
     t\<lparr>tm_when := when, tm_f := Some f, tm_arg := arg, tm_seq := seq, tm_active := True\<rparr>"

definition resettimer :: "int \<Rightarrow> timer \<Rightarrow> timer" where
  "resettimer when t = t\<lparr>tm_when := when, tm_active := True\<rparr>"

definition deltimer :: "timer \<Rightarrow> timer" where
  "deltimer t = t\<lparr>tm_active := False\<rparr>"

text \<open>\<open>int64\<close> addition wraps.\<close>

definition add64 :: "int \<Rightarrow> int \<Rightarrow> int" where
  "add64 a b = signed_take_bit 63 (a + b)"

definition max64 :: int where "max64 = 2 ^ 63 - 1"

text \<open>The deadline that is stored: relative to now, saturated when the sum overflows.\<close>

definition deadline_at :: "int \<Rightarrow> int \<Rightarrow> int" where
  "deadline_at now d =
     (if d > 0 then let d' = add64 d now in if d' \<le> 0 then max64 else d' else d)"

definition set_read_timer :: "bool \<Rightarrow> bool \<Rightarrow> int \<Rightarrow> pollDesc \<Rightarrow> pollDesc" where
  "set_read_timer combo combo0 rd0 pd =
     (let rtf = (if combo then NetpollDeadline else NetpollReadDeadline) in
      if tm_f (pd_rt pd) = None then
        (if pd_rd pd > 0
         then pd\<lparr>pd_rt := resettimer (pd_rd pd)
                 ((pd_rt pd)\<lparr>tm_f := Some rtf, tm_arg := pd_self pd, tm_seq := pd_rseq pd\<rparr>)\<rparr>
         else pd)
      else if pd_rd pd \<noteq> rd0 \<or> combo \<noteq> combo0 then
        (let pd = pd\<lparr>pd_rseq := pd_rseq pd + 1\<rparr> in
         if pd_rd pd > 0
         then pd\<lparr>pd_rt := modtimer (pd_rd pd) rtf (pd_self pd) (pd_rseq pd) (pd_rt pd)\<rparr>
         else pd\<lparr>pd_rt := (deltimer (pd_rt pd))\<lparr>tm_f := None\<rparr>\<rparr>)
      else pd)"

definition set_write_timer :: "bool \<Rightarrow> bool \<Rightarrow> int \<Rightarrow> pollDesc \<Rightarrow> pollDesc" where
  "set_write_timer combo combo0 wd0 pd =
     (if tm_f (pd_wt pd) = None then
        (if pd_wd pd > 0 \<and> \<not> combo
         then pd\<lparr>pd_wt := resettimer (pd_wd pd)
                 ((pd_wt pd)\<lparr>tm_f := Some NetpollWriteDeadline, tm_arg := pd_self pd,
                             tm_seq := pd_wseq pd\<rparr>)\<rparr>
         else pd)
      else if pd_wd pd \<noteq> wd0 \<or> combo \<noteq> combo0 then
        (let pd = pd\<lparr>pd_wseq := pd_wseq pd + 1\<rparr> in
         if pd_wd pd > 0 \<and> \<not> combo
         then pd\<lparr>pd_wt := modtimer (pd_wd pd) NetpollWriteDeadline (pd_self pd) (pd_wseq pd) (pd_wt pd)\<rparr>
         else pd\<lparr>pd_wt := (deltimer (pd_wt pd))\<lparr>tm_f := None\<rparr>\<rparr>)
      else pd)"

text \<open>Unblocks the modes with an expired deadline: the tail of the locked section.\<close>

definition unblock_expired :: "pollDesc \<Rightarrow> pollDesc \<times> int \<times> uintptr \<times> uintptr" where
  "unblock_expired pd =
     (let (pd, delta, rg) = (if pd_rd pd < 0 then netpollunblock pd mode_r False 0 else (pd, 0, 0));
          (pd, delta, wg) = (if pd_wd pd < 0 then netpollunblock pd mode_w False delta else (pd, delta, 0))
      in (pd, delta, rg, wg))"

text \<open>After the lock is released: make the goroutines ready, then adjust the waiters.\<close>

definition wake_both :: "uintptr \<Rightarrow> uintptr \<Rightarrow> int \<Rightarrow> 'a netpoll_scheme \<Rightarrow> 'a netpoll_scheme" where
  "wake_both rg wg delta np = netpollAdjustWaiters delta (goready_if wg (goready_if rg np))"

definition poll_runtime_pollSetDeadline :: "int \<Rightarrow> uintptr \<Rightarrow> int \<Rightarrow> int \<Rightarrow> 'a netpoll_scheme \<Rightarrow> 'a netpoll_scheme" where
  "poll_runtime_pollSetDeadline now p d mode np =
     (let pd = np_pd np p in
      if pd_closing pd then np
      else
        let rd0 = pd_rd pd; wd0 = pd_wd pd;
            combo0 = (rd0 > 0 \<and> rd0 = wd0);
            d = deadline_at now d;
            pd = (if mode = mode_r \<or> mode = mode_rw then pd\<lparr>pd_rd := d\<rparr> else pd);
            pd = (if mode = mode_w \<or> mode = mode_rw then pd\<lparr>pd_wd := d\<rparr> else pd);
            pd = publishInfo pd;
            combo = (pd_rd pd > 0 \<and> pd_rd pd = pd_wd pd);
            pd = set_read_timer combo combo0 rd0 pd;
            pd = set_write_timer combo combo0 wd0 pd;
            (pd, delta, rg, wg) = unblock_expired pd
        in wake_both rg wg delta (set_pd p pd np))"

definition netpolldeadlineimpl ::
    "uintptr \<Rightarrow> uintptr \<Rightarrow> bool \<Rightarrow> bool \<Rightarrow> 'a netpoll_scheme \<Rightarrow> 'a netpoll_scheme \<times> unit outcome" where
  "netpolldeadlineimpl p seq read write np =
     (let pd = np_pd np p;
          currentSeq = (if read then pd_rseq pd else pd_wseq pd)
      in if seq \<noteq> currentSeq then (np, Ret ())
         else if read \<and> (pd_rd pd \<le> 0 \<or> tm_f (pd_rt pd) = None)
           then (np, Panic ''runtime: inconsistent read deadline'')
         else
           let (pd, delta, rg) =
                 (if read then netpollunblock (publishInfo (pd\<lparr>pd_rd := -1\<rparr>)) mode_r False 0
                  else (pd, 0, 0))
           in if write \<and> (pd_wd pd \<le> 0 \<or> tm_f (pd_wt pd) = None \<and> \<not> read)
                then (set_pd p pd np, Panic ''runtime: inconsistent write deadline'')
              else
                let (pd, delta, wg) =
                      (if write then netpollunblock (publishInfo (pd\<lparr>pd_wd := -1\<rparr>)) mode_w False delta
                       else (pd, delta, 0))
                in (wake_both rg wg delta (set_pd p pd np), Ret ()))"

definition netpollDeadline :: "uintptr \<Rightarrow> uintptr \<Rightarrow> 'a netpoll_scheme \<Rightarrow> 'a netpoll_scheme \<times> unit outcome" where
  "netpollDeadline p seq = netpolldeadlineimpl p seq True True"

definition netpollReadDeadline :: "uintptr \<Rightarrow> uintptr \<Rightarrow> 'a netpoll_scheme \<Rightarrow> 'a netpoll_scheme \<times> unit outcome" where
  "netpollReadDeadline p seq = netpolldeadlineimpl p seq True False"

definition netpollWriteDeadline :: "uintptr \<Rightarrow> uintptr \<Rightarrow> 'a netpoll_scheme \<Rightarrow> 'a netpoll_scheme \<times> unit outcome" where
  "netpollWriteDeadline p seq = netpolldeadlineimpl p seq False True"

section \<open>Opening, closing and the cache of descriptors\<close>

definition netpollGenericInit :: "('a netpoll_scheme \<Rightarrow> 'a netpoll_scheme \<times> unit outcome)
    \<Rightarrow> 'a netpoll_scheme \<Rightarrow> 'a netpoll_scheme \<times> unit outcome" where
  "netpollGenericInit netpollinit np =
     (if np_inited np = 0
      then (case netpollinit np of
              (np', Ret _) \<Rightarrow> (np'\<lparr>np_inited := 1\<rparr>, Ret ())
            | (np', r) \<Rightarrow> (np', r))
      else (np, Ret ()))"

definition poll_runtime_pollServerInit :: "('a netpoll_scheme \<Rightarrow> 'a netpoll_scheme \<times> unit outcome)
    \<Rightarrow> 'a netpoll_scheme \<Rightarrow> 'a netpoll_scheme \<times> unit outcome" where
  "poll_runtime_pollServerInit netpollinit np = netpollGenericInit netpollinit np"

definition netpollinited :: "'a netpoll_scheme \<Rightarrow> bool" where
  "netpollinited np \<longleftrightarrow> np_inited np \<noteq> 0"

definition pollBlockSize :: nat where "pollBlockSize = 4 * 1024"

text \<open>The loop of \<open>alloc\<close> that links the descriptors of a fresh block into the cache.\<close>

fun link_block :: "nat \<Rightarrow> nat \<Rightarrow> uintptr \<Rightarrow> uintptr \<Rightarrow> 'a netpoll_scheme \<Rightarrow> 'a netpoll_scheme" where
  "link_block 0 i pdSize mem np = np"
| "link_block (Suc k) i pdSize mem np =
     (let p = mem + of_nat i * pdSize in
      link_block k (Suc i) pdSize mem
        (set_pd p ((np_pd np p)\<lparr>pd_link := np_first np\<rparr>) np\<lparr>np_first := p\<rparr>))"

text \<open>\<open>pdSize\<close> is the size of a descriptor, \<open>mem\<close> the block \<open>persistentalloc\<close> returns.\<close>

definition pollCache_alloc :: "nat \<Rightarrow> uintptr \<Rightarrow> 'a netpoll_scheme \<Rightarrow> 'a netpoll_scheme \<times> uintptr" where
  "pollCache_alloc pdSize mem np =
     (let np = (if np_first np = 0
                then let n = pollBlockSize div pdSize; n = (if n = 0 then 1 else n)
                     in link_block n 0 (of_nat pdSize) mem np
                else np);
          p = np_first np
      in (np\<lparr>np_first := pd_link (np_pd np p)\<rparr>, p))"

text \<open>\<open>tpBits\<close> is \<open>taggedPointerBits\<close>.\<close>

definition pollCache_free :: "nat \<Rightarrow> uintptr \<Rightarrow> 'a netpoll_scheme \<Rightarrow> 'a netpoll_scheme" where
  "pollCache_free tpBits p np =
     (let pd = np_pd np p;
          fdseq = (pd_fdseq pd + 1) AND (push_bit tpBits 1 - 1);
          pd = publishInfo (pd\<lparr>pd_fdseq := fdseq\<rparr>)
      in (set_pd p (pd\<lparr>pd_link := np_first np\<rparr>) np)\<lparr>np_first := p\<rparr>)"

text \<open>The locked section of \<open>pollOpen\<close> after its two checks.\<close>

definition open_desc :: "uintptr \<Rightarrow> uintptr \<Rightarrow> pollDesc \<Rightarrow> pollDesc" where
  "open_desc p fd pd =
     (let pd = pd\<lparr>pd_fd := fd\<rparr>;
          pd = (if pd_fdseq pd = 0 then pd\<lparr>pd_fdseq := 1\<rparr> else pd);
          pd = setEventErr False 0 (pd\<lparr>pd_closing := False\<rparr>)
      in publishInfo (pd\<lparr>pd_rseq := pd_rseq pd + 1, pd_rg := pdNil, pd_rd := 0,
           pd_wseq := pd_wseq pd + 1, pd_wg := pdNil, pd_wd := 0, pd_self := p\<rparr>))"

text \<open>
  \<open>netpollopen\<close> and \<open>netpollclose\<close> are the platform's functions: they may change the
  platform's part of the state and return an errno.
\<close>

definition poll_runtime_pollOpen ::
    "(uintptr \<Rightarrow> uintptr \<Rightarrow> 'a netpoll_scheme \<Rightarrow> 'a netpoll_scheme \<times> int outcome) \<Rightarrow> nat \<Rightarrow> nat \<Rightarrow> uintptr \<Rightarrow> uintptr \<Rightarrow> 'a netpoll_scheme
      \<Rightarrow> 'a netpoll_scheme \<times> (uintptr \<times> int) outcome" where
  "poll_runtime_pollOpen netpollopen tpBits pdSize mem fd np =
     (let (np, p) = pollCache_alloc pdSize mem np;
          pd = np_pd np p
      in if pd_wg pd \<noteq> pdNil \<and> pd_wg pd \<noteq> pdReady
           then (np, Panic ''runtime: blocked write on free polldesc'')
         else if pd_rg pd \<noteq> pdNil \<and> pd_rg pd \<noteq> pdReady
           then (np, Panic ''runtime: blocked read on free polldesc'')
         else
           (case netpollopen fd p (set_pd p (open_desc p fd pd) np) of
              (np, Ret errno) \<Rightarrow>
                (if errno \<noteq> 0 then (pollCache_free tpBits p np, Ret (0, errno))
                 else (np, Ret (p, 0)))
            | (np, Panic m) \<Rightarrow> (np, Panic m)
            | (np, Blocked) \<Rightarrow> (np, Blocked)))"

definition poll_runtime_pollClose ::
    "(uintptr \<Rightarrow> 'a netpoll_scheme \<Rightarrow> 'a netpoll_scheme \<times> int) \<Rightarrow> nat \<Rightarrow> uintptr \<Rightarrow> 'a netpoll_scheme \<Rightarrow> 'a netpoll_scheme \<times> unit outcome" where
  "poll_runtime_pollClose netpollclose tpBits p np =
     (let pd = np_pd np p in
      if \<not> pd_closing pd then (np, Panic ''runtime: close polldesc w/o unblock'')
      else if pd_wg pd \<noteq> pdNil \<and> pd_wg pd \<noteq> pdReady
        then (np, Panic ''runtime: blocked write on closing polldesc'')
      else if pd_rg pd \<noteq> pdNil \<and> pd_rg pd \<noteq> pdReady
        then (np, Panic ''runtime: blocked read on closing polldesc'')
      else (pollCache_free tpBits p (fst (netpollclose (pd_fd pd) np)), Ret ()))"

definition poll_runtime_pollUnblock :: "uintptr \<Rightarrow> 'a netpoll_scheme \<Rightarrow> 'a netpoll_scheme \<times> unit outcome" where
  "poll_runtime_pollUnblock p np =
     (let pd = np_pd np p in
      if pd_closing pd then (np, Panic ''runtime: unblock on closing polldesc'')
      else
        let pd = publishInfo (pd\<lparr>pd_closing := True, pd_rseq := pd_rseq pd + 1,
                   pd_wseq := pd_wseq pd + 1\<rparr>);
            (pd, delta, rg) = netpollunblock pd mode_r False 0;
            (pd, delta, wg) = netpollunblock pd mode_w False delta;
            pd = (if tm_f (pd_rt pd) \<noteq> None
                  then pd\<lparr>pd_rt := (deltimer (pd_rt pd))\<lparr>tm_f := None\<rparr>\<rparr> else pd);
            pd = (if tm_f (pd_wt pd) \<noteq> None
                  then pd\<lparr>pd_wt := (deltimer (pd_wt pd))\<lparr>tm_f := None\<rparr>\<rparr> else pd)
        in (wake_both rg wg delta (set_pd p pd np), Ret ()))"

definition poll_runtime_pollReset :: "uintptr \<Rightarrow> int \<Rightarrow> 'a netpoll_scheme \<Rightarrow> 'a netpoll_scheme \<times> int" where
  "poll_runtime_pollReset p mode np =
     (let pd = np_pd np p; errcode = netpollcheckerr pd mode in
      if errcode \<noteq> pollNoError then (np, errcode)
      else if mode = mode_r then (set_pd p (pd\<lparr>pd_rg := pdNil\<rparr>) np, pollNoError)
      else if mode = mode_w then (set_pd p (pd\<lparr>pd_wg := pdNil\<rparr>) np, pollNoError)
      else (np, pollNoError))"

section \<open>Waiting\<close>

text \<open>
  While a goroutine is parked, other goroutines and the scheduler go on: the poller finds the
  descriptor ready, a deadline timer runs, somebody sets a deadline or closes the
  descriptor. \<open>await\<close> lets such events happen, one after the other, until one of them has
  made the parked goroutine ready; with no event left the goroutine stays blocked.
\<close>

datatype event =
    EvIO uintptr int                      \<comment> \<open>\<open>netpoll\<close> found the descriptor ready\<close>
  | EvErr uintptr bool uintptr            \<comment> \<open>\<open>netpoll\<close> recorded an event error\<close>
  | EvTimer uintptr uintptr bool bool     \<comment> \<open>a deadline timer ran\<close>
  | EvSetDeadline int uintptr int int     \<comment> \<open>\<open>SetDeadline\<close> at some time\<close>
  | EvUnblock uintptr                     \<comment> \<open>\<open>Close\<close> evicted the descriptor\<close>

fun apply_event :: "event \<Rightarrow> 'a netpoll_scheme \<Rightarrow> 'a netpoll_scheme \<times> unit outcome" where
  "apply_event (EvIO p mode) np =
     (let (toRun, pd, delta) = netpollready [] (np_pd np p) mode;
          np = set_pd p pd np
      in (netpollAdjustWaiters delta (np\<lparr>np_ready := np_ready np @ toRun\<rparr>), Ret ()))"
| "apply_event (EvErr p b seq) np = (set_pd p (setEventErr b seq (np_pd np p)) np, Ret ())"
| "apply_event (EvTimer p seq read write) np = netpolldeadlineimpl p seq read write np"
| "apply_event (EvSetDeadline now p d mode) np =
     (poll_runtime_pollSetDeadline now p d mode np, Ret ())"
| "apply_event (EvUnblock p) np = poll_runtime_pollUnblock p np"

fun await :: "uintptr \<Rightarrow> event list \<Rightarrow> 'a netpoll_scheme
    \<Rightarrow> 'a netpoll_scheme \<times> event list \<times> unit outcome" where
  "await gp [] np = (np, [], Blocked)"
| "await gp (e # es) np =
     (case apply_event e np of
        (np, Ret _) \<Rightarrow>
          (if gp \<in> set (np_ready np)
           then (np\<lparr>np_ready := remove1 gp (np_ready np)\<rparr>, es, Ret ())
           else await gp es np)
      | (np, Panic m) \<Rightarrow> (np, es, Panic m)
      | (np, Blocked) \<Rightarrow> (np, es, Blocked))"

definition netpollblock :: "uintptr \<Rightarrow> uintptr \<Rightarrow> int \<Rightarrow> bool \<Rightarrow> event list \<Rightarrow> 'a netpoll_scheme
    \<Rightarrow> 'a netpoll_scheme \<times> event list \<times> bool outcome" where
  "netpollblock gp p mode waitio evs np =
     (case netpollblock_enter (np_pd np p) mode of
        BReady pd \<Rightarrow> (set_pd p pd np, evs, Ret True)
      | BThrow \<Rightarrow> (np, evs, Panic ''runtime: double wait'')
      | BWait pd \<Rightarrow>
          (let np = set_pd p pd np;
               (np, evs, slept) =
                 (if waitio \<or> netpollcheckerr pd mode = pollNoError
                  then (case netpollblockcommit gp p mode np of
                          (np, True) \<Rightarrow> await gp evs np
                        | (np, False) \<Rightarrow> (np, evs, Ret ()))
                  else (np, evs, Ret ()))
           in case slept of
                Ret _ \<Rightarrow> (let (pd, r) = netpollblock_leave (np_pd np p) mode
                           in (set_pd p pd np, evs, r))
              | Panic m \<Rightarrow> (np, evs, Panic m)
              | Blocked \<Rightarrow> (np, evs, Blocked)))"

lemma await_length: "snd (snd (await gp evs np)) = Ret () \<Longrightarrow>
    length (fst (snd (await gp evs np))) < length evs"
proof (induction evs arbitrary: np)
  case Nil
  then show ?case by simp
next
  case (Cons e es)
  obtain np1 o1 where ap: "apply_event e np = (np1, o1)" by force
  show ?case
  proof (cases o1)
    case (Ret u)
    then show ?thesis
      using Cons.prems Cons.IH [of np1]
      by (cases "gp \<in> set (np_ready np1)") (simp_all add: ap less_SucI)
  qed (use Cons.prems in \<open>simp_all add: ap\<close>)
qed

lemma gpp_set [simp]:
  "gpp mode (set_gpp mode v pd) = v" "pd_atomicInfo (set_gpp mode v pd) = pd_atomicInfo pd"
  by (simp_all add: gpp_def set_gpp_def)

lemma checkerr_set_gpp [simp]: "netpollcheckerr (set_gpp m v pd) mode = netpollcheckerr pd mode"
  by (simp add: netpollcheckerr_def)

lemma set_pd_simps [simp]: "np_pd (set_pd p pd np) p = pd"
  by (simp add: set_pd_def)

text \<open>
  A \<open>netpollblock\<close> that returns false has slept through at least one event, or has seen an
  error that is still there.
\<close>

lemma netpollblock_progress:
  assumes "netpollblock gp p mode waitio evs np = (np', evs', Ret False)"
    and "waitio \<or> netpollcheckerr (np_pd np' p) mode = pollNoError"
  shows "length evs' < length evs"
proof -
  obtain pd where pd: "netpollblock_enter (np_pd np p) mode = BWait pd"
    and w: "gpp mode pd = pdWait"
    using assms(1) by (cases "netpollblock_enter (np_pd np p) mode")
      (auto simp: netpollblock_def netpollblock_enter_def split: if_splits)
  show ?thesis
  proof (cases "waitio \<or> netpollcheckerr pd mode = pollNoError")
    case True
    define np2 where "np2 = fst (netpollblockcommit gp p mode (set_pd p pd np))"
    have c: "netpollblockcommit gp p mode (set_pd p pd np) = (np2, True)"
      using w by (simp add: netpollblockcommit_def np2_def)
    obtain np3 es o3 where aw: "await gp evs np2 = (np3, es, o3)" by (metis prod_cases3)
    have "o3 = Ret () \<and> evs' = es"
      using assms(1) True
      by (cases o3) (auto simp: netpollblock_def pd Let_def c aw split: prod.splits)
    then show ?thesis using await_length [of gp evs np2] by (simp add: aw)
  next
    case False
    then have "netpollblock gp p mode waitio evs np
        = (set_pd p (set_gpp mode pdNil pd) (set_pd p pd np), evs, Ret False)"
      by (simp add: netpollblock_def pd Let_def netpollblock_leave_def w pd_consts)
    then have "np' = set_pd p (set_gpp mode pdNil pd) (set_pd p pd np)" using assms(1) by simp
    then have "np_pd np' p = set_gpp mode pdNil pd" by simp
    then show ?thesis using False assms(2) by simp
  qed
qed

function pollWait_loop :: "uintptr \<Rightarrow> uintptr \<Rightarrow> int \<Rightarrow> event list \<Rightarrow> 'a netpoll_scheme
    \<Rightarrow> 'a netpoll_scheme \<times> event list \<times> int outcome" where
  "pollWait_loop gp p mode evs np =
     (case netpollblock gp p mode False evs np of
        (np', evs', Ret True) \<Rightarrow> (np', evs', Ret pollNoError)
      | (np', evs', Ret False) \<Rightarrow>
          (let errcode = netpollcheckerr (np_pd np' p) mode in
           if errcode \<noteq> pollNoError then (np', evs', Ret errcode)
           else pollWait_loop gp p mode evs' np')
      | (np', evs', Panic m) \<Rightarrow> (np', evs', Panic m)
      | (np', evs', Blocked) \<Rightarrow> (np', evs', Blocked))"
  by pat_completeness auto
termination
  by (relation "measure (\<lambda>(gp, p, mode, evs, np). length evs)")
    (simp_all, use netpollblock_progress in metis)

declare pollWait_loop.simps [simp del]

text \<open>Linux is edge triggered: \<open>netpollarm\<close> is not called.\<close>

definition poll_runtime_pollWait :: "uintptr \<Rightarrow> uintptr \<Rightarrow> int \<Rightarrow> event list \<Rightarrow> 'a netpoll_scheme
    \<Rightarrow> 'a netpoll_scheme \<times> event list \<times> int outcome" where
  "poll_runtime_pollWait gp p mode evs np =
     (let errcode = netpollcheckerr (np_pd np p) mode in
      if errcode \<noteq> pollNoError then (np, evs, Ret errcode)
      else pollWait_loop gp p mode evs np)"

function poll_runtime_pollWaitCanceled :: "uintptr \<Rightarrow> uintptr \<Rightarrow> int \<Rightarrow> event list \<Rightarrow> 'a netpoll_scheme
    \<Rightarrow> 'a netpoll_scheme \<times> event list \<times> unit outcome" where
  "poll_runtime_pollWaitCanceled gp p mode evs np =
     (case netpollblock gp p mode True evs np of
        (np', evs', Ret True) \<Rightarrow> (np', evs', Ret ())
      | (np', evs', Ret False) \<Rightarrow> poll_runtime_pollWaitCanceled gp p mode evs' np'
      | (np', evs', Panic m) \<Rightarrow> (np', evs', Panic m)
      | (np', evs', Blocked) \<Rightarrow> (np', evs', Blocked))"
  by pat_completeness auto
termination
  by (relation "measure (\<lambda>(gp, p, mode, evs, np). length evs)")
    (simp_all, use netpollblock_progress in metis)

declare poll_runtime_pollWaitCanceled.simps [simp del]

section \<open>The summary word\<close>

lemmas info_consts = pollClosing_def pollEventErr_def pollExpiredReadDeadline_def
  pollExpiredWriteDeadline_def

lemma info_flag_consts:
  "pollClosing = 2 ^ 0" "pollEventErr = 2 ^ 1" "pollExpiredReadDeadline = 2 ^ 2"
  "pollExpiredWriteDeadline = 2 ^ 3"
  by (simp_all add: info_consts)

lemma info_flag_bits:
  "bit pollClosing n \<longleftrightarrow> n = 0" "bit pollEventErr n \<longleftrightarrow> n = 1"
  "bit pollExpiredReadDeadline n \<longleftrightarrow> n = 2" "bit pollExpiredWriteDeadline n \<longleftrightarrow> n = 3"
  unfolding info_flag_consts bit_exp_iff by auto

lemma seq_mask: "word_of_int pollFDSeqMask = (mask pollFDSeqBits :: 'a::len word)"
  by (simp add: pollFDSeqMask_def mask_eq_exp_minus_1)

lemma seq_field_bit:
  "bit (push_bit pollFDSeq (ucast (x AND word_of_int pollFDSeqMask)) :: u32) n
    \<longleftrightarrow> 16 \<le> n \<and> n < 32 \<and> bit (x :: uintptr) (n - 16)"
  unfolding seq_mask
  by (auto simp: pollFDSeq_def pollFDSeqBits_def bit_push_bit_iff bit_and_iff bit_mask_iff
      bit_ucast_iff)

lemma and_flag_eq_0:
  fixes w c :: "'a::len word"
  assumes "\<And>n. bit c n \<longleftrightarrow> n = k"
  shows "w AND c = 0 \<longleftrightarrow> \<not> bit w k"
proof
  assume "w AND c = 0"
  then have "\<not> bit (w AND c) k" by simp
  then show "\<not> bit w k" by (simp add: bit_and_iff assms)
next
  assume "\<not> bit w k"
  then show "w AND c = 0" by (intro bit_word_eqI) (auto simp: bit_and_iff assms)
qed

lemma info_tests:
  "info_closing i \<longleftrightarrow> bit i 0" "info_eventErr i \<longleftrightarrow> bit i 1"
  "info_expiredReadDeadline i \<longleftrightarrow> bit i 2" "info_expiredWriteDeadline i \<longleftrightarrow> bit i 3"
  by (simp_all add: info_closing_def info_eventErr_def info_expiredReadDeadline_def
      info_expiredWriteDeadline_def and_flag_eq_0 [OF info_flag_bits(1)]
      and_flag_eq_0 [OF info_flag_bits(2)] and_flag_eq_0 [OF info_flag_bits(3)]
      and_flag_eq_0 [OF info_flag_bits(4)])

lemma publishInfo_bit:
  "bit (pd_atomicInfo (publishInfo pd)) n \<longleftrightarrow>
     n = 0 \<and> pd_closing pd \<or> n = 1 \<and> bit (pd_atomicInfo pd) 1 \<or> n = 2 \<and> pd_rd pd < 0
     \<or> n = 3 \<and> pd_wd pd < 0 \<or> 16 \<le> n \<and> n < 32 \<and> bit (pd_fdseq pd) (n - 16)"
  by (auto simp: publishInfo_def Let_def bit_or_iff bit_and_iff info_flag_bits seq_field_bit)

lemma publishInfo_simps [simp]:
  "pd_closing (publishInfo pd) = pd_closing pd" "pd_rd (publishInfo pd) = pd_rd pd"
  "pd_wd (publishInfo pd) = pd_wd pd" "pd_rg (publishInfo pd) = pd_rg pd"
  "pd_wg (publishInfo pd) = pd_wg pd" "pd_fdseq (publishInfo pd) = pd_fdseq pd"
  "pd_rseq (publishInfo pd) = pd_rseq pd" "pd_wseq (publishInfo pd) = pd_wseq pd"
  "pd_rt (publishInfo pd) = pd_rt pd" "pd_wt (publishInfo pd) = pd_wt pd"
  "pd_self (publishInfo pd) = pd_self pd" "pd_fd (publishInfo pd) = pd_fd pd"
  "pd_link (publishInfo pd) = pd_link pd" "gpp mode (publishInfo pd) = gpp mode pd"
  by (simp_all add: publishInfo_def Let_def gpp_def)

definition expired :: "pollDesc \<Rightarrow> int \<Rightarrow> bool" where
  "expired pd mode \<longleftrightarrow> mode = mode_r \<and> pd_rd pd < 0 \<or> mode = mode_w \<and> pd_wd pd < 0"

lemma checkerr_publishInfo:
  "netpollcheckerr (publishInfo pd) mode =
     (if pd_closing pd then pollErrClosing
      else if expired pd mode then pollErrTimeout
      else if mode = mode_r \<and> info_eventErr (pd_atomicInfo pd) then pollErrNotPollable
      else pollNoError)"
  by (simp add: netpollcheckerr_def Let_def info_tests publishInfo_bit expired_def)

text \<open>The summary agrees with the fields it summarizes.\<close>

definition published :: "pollDesc \<Rightarrow> bool" where
  "published pd \<longleftrightarrow> (\<forall>n. n \<noteq> 1 \<longrightarrow>
     bit (pd_atomicInfo pd) n = bit (pd_atomicInfo (publishInfo pd)) n)"

lemma published_publishInfo [simp]: "published (publishInfo pd)"
  by (simp add: published_def publishInfo_bit)

lemma published_alt: "published pd \<longleftrightarrow> pd_atomicInfo (publishInfo pd) = pd_atomicInfo pd"
proof
  assume p: "published pd"
  show "pd_atomicInfo (publishInfo pd) = pd_atomicInfo pd"
  proof (rule bit_word_eqI)
    fix n
    show "bit (pd_atomicInfo (publishInfo pd)) n = bit (pd_atomicInfo pd) n"
      using p by (cases "n = 1") (auto simp: published_def publishInfo_bit)
  qed
qed (simp add: published_def)

lemma published_gpp [simp]: "published (set_gpp m v pd) = published pd"
  by (simp add: published_def publishInfo_bit set_gpp_def)

lemma checkerr_published:
  assumes "published pd"
  shows "netpollcheckerr pd mode =
     (if pd_closing pd then pollErrClosing
      else if expired pd mode then pollErrTimeout
      else if mode = mode_r \<and> info_eventErr (pd_atomicInfo pd) then pollErrNotPollable
      else pollNoError)"
proof -
  have "netpollcheckerr pd mode = netpollcheckerr (publishInfo pd) mode"
    using assms by (simp add: netpollcheckerr_def published_alt)
  then show ?thesis by (simp add: checkerr_publishInfo)
qed

text \<open>The event error bit: it changes only under a matching sequence number.\<close>

lemma setEventErr_matches:
  assumes "published pd"
  shows "drop_bit pollFDSeq (pd_atomicInfo pd) AND word_of_int pollFDSeqMask
    = ucast (take_bit 16 (pd_fdseq pd))" (is "?l = ?r")
proof (rule bit_word_eqI)
  fix n
  assume "n < LENGTH(32)"
  have "bit (pd_atomicInfo pd) (16 + n) \<longleftrightarrow> n < 16 \<and> bit (pd_fdseq pd) n"
    using assms by (simp add: published_def publishInfo_bit)
  then show "bit ?l n = bit ?r n"
    unfolding seq_mask using \<open>n < LENGTH(32)\<close>
    by (auto simp: bit_and_iff bit_drop_bit_eq pollFDSeq_def pollFDSeqBits_def bit_mask_iff
        bit_ucast_iff bit_take_bit_iff)
qed

lemma setEventErr_eventErr:
  "info_eventErr (pd_atomicInfo (pd\<lparr>pd_atomicInfo := pd_atomicInfo pd XOR pollEventErr\<rparr>))
    \<longleftrightarrow> \<not> info_eventErr (pd_atomicInfo pd)"
  by (simp add: info_tests bit_xor_iff info_flag_bits)

lemma setEventErr_effect:
  assumes "published pd"
  shows "info_eventErr (pd_atomicInfo (setEventErr b seq pd)) \<longleftrightarrow>
    (if seq = 0 \<or> take_bit 16 (pd_fdseq pd) = take_bit 20 seq then b
     else info_eventErr (pd_atomicInfo pd))"
proof -
  have m: "ucast (seq AND word_of_int pollFDSeqMask) = (ucast (take_bit 20 seq) :: u32)"
    unfolding seq_mask by (simp add: take_bit_eq_mask pollFDSeqBits_def)
  have inj: "ucast (take_bit 16 x) = (ucast (take_bit 20 y) :: u32) \<longleftrightarrow>
      take_bit 16 x = take_bit 20 y" for x y :: uintptr
  proof
    assume eq: "ucast (take_bit 16 x) = (ucast (take_bit 20 y) :: u32)"
    show "take_bit 16 x = take_bit 20 y"
    proof (rule bit_word_eqI)
      fix n
      have "bit (ucast (take_bit 16 x) :: u32) n = bit (ucast (take_bit 20 y) :: u32) n"
        by (simp only: eq)
      then show "bit (take_bit 16 x) n = bit (take_bit 20 y) n"
        by (cases "n < 32") (auto simp: bit_ucast_iff bit_take_bit_iff)
    qed
  qed simp
  have e: "x AND pollEventErr = 0 \<longleftrightarrow> \<not> info_eventErr x" for x
    by (simp add: info_eventErr_def)
  show ?thesis
    using setEventErr_eventErr [of pd]
    by (auto simp: setEventErr_def Let_def setEventErr_matches [OF assms] m inj e)
qed

lemma setEventErr_simps [simp]:
  "pd_closing (setEventErr b seq pd) = pd_closing pd" "pd_rd (setEventErr b seq pd) = pd_rd pd"
  "pd_wd (setEventErr b seq pd) = pd_wd pd" "gpp mode (setEventErr b seq pd) = gpp mode pd"
  "pd_fdseq (setEventErr b seq pd) = pd_fdseq pd" "expired (setEventErr b seq pd) mode = expired pd mode"
  by (simp_all add: setEventErr_def Let_def gpp_def expired_def)

lemma published_setEventErr [simp]: "published pd \<Longrightarrow> published (setEventErr b seq pd)"
  by (auto simp: published_def publishInfo_bit setEventErr_def Let_def bit_xor_iff info_flag_bits)

section \<open>The semaphores\<close>

lemma modes_differ [simp]: "mode_r \<noteq> mode_w" "mode_w \<noteq> mode_r" "mode_rw \<noteq> mode_r" "mode_rw \<noteq> mode_w"
  "mode_r \<noteq> mode_rw" "mode_w \<noteq> mode_rw"
  by (simp_all add: mode_consts)

lemma pd_differ [simp]: "pdNil \<noteq> pdReady" "pdReady \<noteq> pdNil" "pdNil \<noteq> pdWait" "pdWait \<noteq> pdNil"
  "pdReady \<noteq> pdWait" "pdWait \<noteq> pdReady"
  by (simp_all add: pd_consts)

lemma set_gpp_simps [simp]:
  "pd_closing (set_gpp m v pd) = pd_closing pd" "pd_rd (set_gpp m v pd) = pd_rd pd"
  "pd_wd (set_gpp m v pd) = pd_wd pd" "pd_fdseq (set_gpp m v pd) = pd_fdseq pd"
  "pd_rt (set_gpp m v pd) = pd_rt pd" "pd_wt (set_gpp m v pd) = pd_wt pd"
  "pd_rseq (set_gpp m v pd) = pd_rseq pd" "pd_wseq (set_gpp m v pd) = pd_wseq pd"
  "expired (set_gpp m v pd) mode = expired pd mode"
  "gpp mode_r (set_gpp mode_w v pd) = gpp mode_r pd" "gpp mode_w (set_gpp mode_r v pd) = gpp mode_w pd"
  by (simp_all add: set_gpp_def expired_def gpp_def)

text \<open>A goroutine pointer, as opposed to one of the three states.\<close>

definition is_g :: "uintptr \<Rightarrow> bool" where
  "is_g v \<longleftrightarrow> v > pdWait"

lemma is_g_alt: "is_g v \<longleftrightarrow> v \<noteq> pdNil \<and> v \<noteq> pdReady \<and> v \<noteq> pdWait"
proof -
  have "v > 2 \<longleftrightarrow> v \<noteq> 0 \<and> v \<noteq> 1 \<and> v \<noteq> (2 :: uintptr)"
  proof
    assume "v \<noteq> 0 \<and> v \<noteq> 1 \<and> v \<noteq> 2"
    then have "unat v \<noteq> 0 \<and> unat v \<noteq> 1 \<and> unat v \<noteq> 2"
      by (simp add: word_unat_eq_iff)
    then have "2 < unat v" by linarith
    then show "v > 2" by (simp add: word_less_nat_alt)
  qed auto
  then show ?thesis by (simp add: is_g_def pd_consts)
qed

lemma not_g [simp]: "\<not> is_g pdNil" "\<not> is_g pdReady" "\<not> is_g pdWait"
  by (simp_all add: is_g_alt)

text \<open>What \<open>netpollunblock\<close> leaves in the semaphore and whom it returns.\<close>

lemma netpollunblock_cases:
  "netpollunblock pd mode ioready delta =
     (if gpp mode pd = pdReady \<or> gpp mode pd = pdNil \<and> \<not> ioready then (pd, delta, 0)
      else (set_gpp mode (if ioready then pdReady else pdNil) pd,
            delta - (if is_g (gpp mode pd) then 1 else 0),
            if is_g (gpp mode pd) then gpp mode pd else 0))"
  by (auto simp: netpollunblock_def Let_def is_g_alt) (simp_all add: pd_consts)

lemma netpollready_cases:
  "netpollready toRun pd mode_rw =
     (let (pd1, d1, rg) = netpollunblock pd mode_r True 0;
          (pd2, d2, wg) = netpollunblock pd1 mode_w True d1
      in ((if wg \<noteq> 0 then [wg] else []) @ (if rg \<noteq> 0 then [rg] else []) @ toRun, pd2, d2))"
  by (auto simp: netpollready_def Let_def split: prod.splits)

lemma is_g_nonzero: "is_g v \<Longrightarrow> v \<noteq> 0"
  by (auto simp: is_g_alt pd_consts)

lemma goready_if_simps [simp]:
  "np_pd (goready_if g np) = np_pd np" "np_first (goready_if g np) = np_first np"
  "np_waiters (goready_if g np) = np_waiters np"
  "np_ready (goready_if g np) = np_ready np @ (if g \<noteq> 0 then [g] else [])"
  by (simp_all add: goready_if_def netpollgoready_def)

lemma adjust_simps [simp]:
  "np_pd (netpollAdjustWaiters d np) = np_pd np" "np_first (netpollAdjustWaiters d np) = np_first np"
  "np_ready (netpollAdjustWaiters d np) = np_ready np"
  "np_waiters (netpollAdjustWaiters d np) = np_waiters np + word_of_int d"
  by (simp_all add: netpollAdjustWaiters_def)

lemma set_pd_more [simp]:
  "np_first (set_pd p pd np) = np_first np" "np_ready (set_pd p pd np) = np_ready np"
  "np_waiters (set_pd p pd np) = np_waiters np"
  by (simp_all add: set_pd_def)

text \<open>The goroutines parked on a descriptor, reader first.\<close>

definition parked :: "pollDesc \<Rightarrow> uintptr list" where
  "parked pd = filter is_g [pd_rg pd, pd_wg pd]"

lemma wake_both_simps [simp]:
  "np_pd (wake_both rg wg d np) = np_pd np"
  "np_ready (wake_both rg wg d np)
     = np_ready np @ (if rg \<noteq> 0 then [rg] else []) @ (if wg \<noteq> 0 then [wg] else [])"
  "np_waiters (wake_both rg wg d np) = np_waiters np + word_of_int d"
  by (simp_all add: wake_both_def)

section \<open>Closing and reopening\<close>

text \<open>Unblocking both modes in turn, as \<open>pollUnblock\<close> does.\<close>

lemma gpp_modes: "gpp mode_r pd = pd_rg pd" "gpp mode_w pd = pd_wg pd"
  by (simp_all add: gpp_def)

lemma unblock_both:
  assumes "netpollunblock pd mode_r False 0 = (pd1, d1, rg)"
    and "netpollunblock pd1 mode_w False d1 = (pd2, d2, wg)"
  shows "(if rg \<noteq> 0 then [rg] else []) @ (if wg \<noteq> 0 then [wg] else []) = parked pd"
    and "d2 = - int (length (parked pd))"
    and "pd_rg pd2 \<in> {pdNil, pdReady}" "pd_wg pd2 \<in> {pdNil, pdReady}"
    and "pd_atomicInfo pd2 = pd_atomicInfo pd"
proof -
  have nz: "is_g (pd_rg pd) \<Longrightarrow> pd_rg pd \<noteq> 0" "is_g (pd_wg pd) \<Longrightarrow> pd_wg pd \<noteq> 0"
    by (auto dest: is_g_nonzero)
  note un = netpollunblock_cases [of _ _ False] set_gpp_def gpp_modes
  show "(if rg \<noteq> 0 then [rg] else []) @ (if wg \<noteq> 0 then [wg] else []) = parked pd"
    and "d2 = - int (length (parked pd))"
    and "pd_rg pd2 \<in> {pdNil, pdReady}" "pd_wg pd2 \<in> {pdNil, pdReady}"
    and "pd_atomicInfo pd2 = pd_atomicInfo pd"
    using assms nz by (auto simp: un parked_def split: if_splits)
qed

lemma pollUnblock_spec:
  assumes open_pd: "\<not> pd_closing (np_pd np p)"
  obtains np' where "poll_runtime_pollUnblock p np = (np', Ret ())"
    and "\<And>mode. netpollcheckerr (np_pd np' p) mode = pollErrClosing"
    and "pd_rg (np_pd np' p) \<in> {pdNil, pdReady}" "pd_wg (np_pd np' p) \<in> {pdNil, pdReady}"
    and "pd_closing (np_pd np' p)"
    and "np_ready np' = np_ready np @ parked (np_pd np p)"
    and "np_waiters np' = np_waiters np - of_nat (length (parked (np_pd np p)))"
proof -
  let ?pd0 = "publishInfo ((np_pd np p)\<lparr>pd_closing := True, pd_rseq := pd_rseq (np_pd np p) + 1,
                pd_wseq := pd_wseq (np_pd np p) + 1\<rparr>)"
  obtain pd1 d1 rg where u1: "netpollunblock ?pd0 mode_r False 0 = (pd1, d1, rg)"
    by (metis prod_cases3)
  obtain pd2 d2 wg where u2: "netpollunblock pd1 mode_w False d1 = (pd2, d2, wg)"
    by (metis prod_cases3)
  note both = unblock_both [OF u1 u2]
  have park: "parked ?pd0 = parked (np_pd np p)" by (simp add: parked_def)
  obtain np' where np': "poll_runtime_pollUnblock p np = (np', Ret ())" by
      (simp add: poll_runtime_pollUnblock_def open_pd Let_def u1 u2)
  define pd3 where "pd3 = np_pd np' p"
  have "pd_closing pd1" using u1 by (auto simp: netpollunblock_cases split: if_splits)
  then have "pd_closing pd2" using u2 by (auto simp: netpollunblock_cases split: if_splits)
  then have pd3: "pd_atomicInfo pd3 = pd_atomicInfo pd2" "pd_rg pd3 = pd_rg pd2" "pd_wg pd3 = pd_wg pd2"
    "pd_closing pd3"
    using np' by (auto simp: pd3_def poll_runtime_pollUnblock_def open_pd Let_def u1 u2 split: if_splits)
  have "netpollcheckerr (np_pd np' p) mode = pollErrClosing" for mode
    using both(5) pd3(1) checkerr_publishInfo [of "(np_pd np p)\<lparr>pd_closing := True,
        pd_rseq := pd_rseq (np_pd np p) + 1, pd_wseq := pd_wseq (np_pd np p) + 1\<rparr>" mode]
    by (simp add: netpollcheckerr_def pd3_def)
  moreover have "np_ready np' = np_ready np @ parked (np_pd np p)"
    "np_waiters np' = np_waiters np - of_nat (length (parked (np_pd np p)))"
    using np' both(1,2) park
    by (auto simp: poll_runtime_pollUnblock_def open_pd Let_def u1 u2)
  ultimately show thesis using that np' both(3,4) pd3(2-4) by (simp add: pd3_def)
qed

lemma pollWait_error:
  "netpollcheckerr (np_pd np p) mode \<noteq> pollNoError \<Longrightarrow>
   poll_runtime_pollWait gp p mode evs np = (np, evs, Ret (netpollcheckerr (np_pd np p) mode))"
  by (simp add: poll_runtime_pollWait_def Let_def)

lemma setEventErr_clear: "\<not> info_eventErr (pd_atomicInfo (setEventErr False 0 pd))"
proof (cases "info_eventErr (pd_atomicInfo pd)")
  case True
  then have "setEventErr False 0 pd = pd\<lparr>pd_atomicInfo := pd_atomicInfo pd XOR pollEventErr\<rparr>"
    by (simp add: setEventErr_def Let_def info_eventErr_def)
  then show ?thesis using setEventErr_eventErr [of pd] True by simp
next
  case False
  then have "setEventErr False 0 pd = pd"
    by (simp add: setEventErr_def Let_def info_eventErr_def)
  with False show ?thesis by simp
qed

lemma open_desc_fresh:
  "netpollcheckerr (open_desc p fd pd) mode = pollNoError"
  "published (open_desc p fd pd)" "pd_rg (open_desc p fd pd) = pdNil" "pd_wg (open_desc p fd pd) = pdNil"
  "\<not> pd_closing (open_desc p fd pd)" "pd_rd (open_desc p fd pd) = 0" "pd_wd (open_desc p fd pd) = 0"
  "pd_fdseq (open_desc p fd pd) = (if pd_fdseq pd = 0 then 1 else pd_fdseq pd)"
  by (auto simp: open_desc_def Let_def checkerr_publishInfo expired_def setEventErr_clear)

lemma pollCache_free_simps:
  "pd_fdseq (np_pd (pollCache_free b p np) p) = take_bit b (pd_fdseq (np_pd np p) + 1)"
  "np_first (pollCache_free b p np) = p" "pd_link (np_pd (pollCache_free b p np) p) = np_first np"
  by (simp_all add: pollCache_free_def Let_def take_bit_eq_mask mask_eq_exp_minus_1)

text \<open>A descriptor that is freed and opened again carries another sequence number.\<close>

lemma reopen_seq:
  assumes "2 \<le> b" "b \<le> 64" and seq: "pd_fdseq (np_pd np p) = take_bit b (pd_fdseq (np_pd np p))"
    and nz: "pd_fdseq (np_pd np p) \<noteq> 0"
  shows "pd_fdseq (open_desc p fd (np_pd (pollCache_free b p np) p)) \<noteq> pd_fdseq (np_pd np p)"
proof -
  let ?s = "pd_fdseq (np_pd np p)"
  show ?thesis
  proof (cases "take_bit b (?s + 1) = 0")
    case True
    have "?s \<noteq> 1"
    proof
      assume "?s = 1"
      with True have "unat (take_bit b (2 :: uintptr)) = 0" by simp
      then have "(2 :: nat) mod 2 ^ b = 0" by (simp add: unat_take_bit)
      moreover have "(2 :: nat) ^ 2 \<le> 2 ^ b" using assms(1) by (rule power_increasing) simp
      ultimately show False by simp
    qed
    with True show ?thesis by (simp add: open_desc_fresh pollCache_free_simps)
  next
    case False
    have "take_bit b (?s + 1) \<noteq> take_bit b ?s"
    proof
      assume "take_bit b (?s + 1) = take_bit b ?s"
      then have "bit (take_bit b (?s + 1)) 0 = bit (take_bit b ?s) 0" by simp
      then show False using assms(1) by (simp add: bit_take_bit_iff bit_0)
    qed
    with False seq show ?thesis by (simp add: open_desc_fresh pollCache_free_simps)
  qed
qed

text \<open>Freeing and allocating are last in, first out.\<close>

lemma alloc_free:
  assumes "p \<noteq> 0"
  shows "snd (pollCache_alloc sz mem (pollCache_free b p np)) = p"
    and "np_first (fst (pollCache_alloc sz mem (pollCache_free b p np))) = np_first np"
  using assms by (simp_all add: pollCache_alloc_def pollCache_free_simps Let_def)

section \<open>Deadlines\<close>

lemma deadline_at_saturates:
  assumes "0 < d" "d < 2 ^ 63" "0 \<le> now" "now < 2 ^ 63"
  shows "deadline_at now d = min (d + now) max64"
proof (cases "d + now < 2 ^ 63")
  case True
  then have "add64 d now = d + now"
    using assms by (simp add: add64_def signed_take_bit_int_eq_self)
  with assms True show ?thesis by (simp add: deadline_at_def max64_def)
next
  case False
  have "signed_take_bit 63 (d + now) = d + now - 2 ^ 64"
  proof -
    have "signed_take_bit 63 (d + now) = signed_take_bit 63 (d + now - 2 ^ 64)"
      using mod_add_self2 [of "d + now - 2 ^ 63" "2 ^ 64 :: int"]
      by (simp add: signed_take_bit_eq_take_bit_shift take_bit_eq_mod ac_simps)
    also have "\<dots> = d + now - 2 ^ 64"
      using assms False by (intro signed_take_bit_int_eq_self) simp_all
    finally show ?thesis .
  qed
  then have "add64 d now \<le> 0" using assms by (simp add: add64_def)
  with assms False show ?thesis by (simp add: deadline_at_def max64_def Let_def)
qed

section \<open>Properties\<close>

text \<open>A descriptor as the memory allocator hands it out.\<close>

definition zero_timer :: timer where
  "zero_timer = \<lparr>tm_f = None, tm_arg = 0, tm_seq = 0, tm_when = 0, tm_active = False\<rparr>"

definition zero_pd :: pollDesc where
  "zero_pd = \<lparr>pd_link = 0, pd_fd = 0, pd_fdseq = 0, pd_atomicInfo = 0, pd_rg = 0, pd_wg = 0,
     pd_closing = False, pd_user = 0, pd_rseq = 0, pd_rt = zero_timer, pd_rd = 0, pd_wseq = 0,
     pd_wt = zero_timer, pd_wd = 0, pd_self = 0\<rparr>"

definition zero_np :: netpoll where
  "zero_np = \<lparr>np_pd = (\<lambda>_. open_desc 4096 7 zero_pd), np_first = 0, np_waiters = 0, np_inited = 1,
     np_ready = []\<rparr>"

text \<open>
  C6. Closing is a two-step handshake that cannot fail. \<open>pollUnblock\<close> on an open descriptor
  returns, makes every parked goroutine ready and takes them off \<open>netpollWaiters\<close>; from then
  on every \<open>pollWait\<close> returns \<open>pollErrClosing\<close> without parking, and \<open>pollClose\<close> passes its
  three checks.
\<close>

theorem netpoll_evict_then_close:
  assumes "\<not> pd_closing (np_pd np p)"
  shows "\<exists>np'. poll_runtime_pollUnblock p np = (np', Ret ())
    \<and> np_ready np' = np_ready np @ parked (np_pd np p)
    \<and> np_waiters np' = np_waiters np - of_nat (length (parked (np_pd np p)))
    \<and> (\<forall>gp mode evs. poll_runtime_pollWait gp p mode evs np' = (np', evs, Ret pollErrClosing))
    \<and> (\<forall>ncl tpBits. returns (snd (poll_runtime_pollClose ncl tpBits p np')))"
proof -
  obtain np' where np': "poll_runtime_pollUnblock p np = (np', Ret ())"
    and err: "\<And>mode. netpollcheckerr (np_pd np' p) mode = pollErrClosing"
    and sem: "pd_rg (np_pd np' p) \<in> {pdNil, pdReady}" "pd_wg (np_pd np' p) \<in> {pdNil, pdReady}"
      "pd_closing (np_pd np' p)"
    and rest: "np_ready np' = np_ready np @ parked (np_pd np p)"
      "np_waiters np' = np_waiters np - of_nat (length (parked (np_pd np p)))"
    by (rule pollUnblock_spec [OF assms]) blast
  have "poll_runtime_pollWait gp p mode evs np' = (np', evs, Ret pollErrClosing)" for gp mode evs
    using pollWait_error [of np' p mode gp evs] by (simp add: err poll_codes)
  moreover have "returns (snd (poll_runtime_pollClose ncl tpBits p np'))" for ncl tpBits
    using sem by (auto simp: poll_runtime_pollClose_def Let_def)
  ultimately show ?thesis using np' rest by blast
qed

theorem netpoll_evict_then_close_witness:
  "\<exists>np'. poll_runtime_pollUnblock 4096 zero_np = (np', Ret ())
    \<and> poll_runtime_pollWait 8192 4096 mode_r [] np' = (np', [], Ret pollErrClosing)"
proof -
  have "\<not> pd_closing (np_pd zero_np 4096)" by (simp add: zero_np_def open_desc_fresh)
  then show ?thesis using netpoll_evict_then_close by blast
qed

text \<open>
  After \<open>publishInfo\<close> the lock-free check of a waiter sees exactly the descriptor's state:
  closing first, then an expired deadline of the waiter's own mode, then, for readers only,
  a recorded event error.
\<close>

theorem netpoll_published_checkerr:
  "netpollcheckerr (publishInfo pd) mode =
     (if pd_closing pd then pollErrClosing
      else if mode = mode_r \<and> pd_rd pd < 0 \<or> mode = mode_w \<and> pd_wd pd < 0 then pollErrTimeout
      else if mode = mode_r \<and> info_eventErr (pd_atomicInfo pd) then pollErrNotPollable
      else pollNoError)"
  using checkerr_publishInfo [of pd mode] by (simp add: expired_def)

text \<open>
  C11. Recording an event error under the descriptor's own tag works only while the sequence
  number fits in 16 bits: \<open>pollFDSeq\<close> is \<open>1 << 4\<close> but is used as a shift count, so the
  summary word keeps 16 bits of the number while the comparison is made on 20, and for every
  sequence number from 65536 up the record is silently dropped.
\<close>

theorem setEventErr_current_tag:
  assumes "published pd" and "pd_fdseq pd \<noteq> 0" and "pd_fdseq pd < 2 ^ 20"
  shows "info_eventErr (pd_atomicInfo (setEventErr b (pd_fdseq pd) pd)) =
    (if pd_fdseq pd < 2 ^ 16 then b else info_eventErr (pd_atomicInfo pd))"
proof -
  have fits: "take_bit 16 w = take_bit 20 w \<longleftrightarrow> w < 2 ^ 16" if "w < 2 ^ 20" for w :: uintptr
  proof -
    have "unat w < 2 ^ 20" using that by (simp add: word_less_nat_alt)
    then have "take_bit 16 w = take_bit 20 w \<longleftrightarrow> unat w mod 2 ^ 16 = unat w"
      by (simp add: word_unat_eq_iff unat_take_bit)
    also have "\<dots> \<longleftrightarrow> unat w < 2 ^ 16" by (metis mod_less mod_less_divisor zero_less_numeral zero_less_power)
    finally show ?thesis by (simp add: word_less_nat_alt)
  qed
  show ?thesis using setEventErr_effect [OF assms(1), of b "pd_fdseq pd"] assms(2) fits [OF assms(3)]
    by simp
qed

theorem setEventErr_current_tag_witness:
  "\<not> info_eventErr (pd_atomicInfo
      (setEventErr True 65536 (open_desc 4096 7 (zero_pd\<lparr>pd_fdseq := 65536\<rparr>))))"
proof -
  let ?pd = "open_desc 4096 7 (zero_pd\<lparr>pd_fdseq := 65536\<rparr>)"
  have "pd_fdseq ?pd = 65536" "\<not> info_eventErr (pd_atomicInfo ?pd)" by code_simp+
  then show ?thesis using setEventErr_current_tag [of ?pd True] by (simp add: open_desc_fresh)
qed

subsection \<open>Deadlines are armed\<close>

text \<open>
  One timer serves both modes when their deadlines agree. A deadline in the future has a
  pending timer that carries the current sequence number and runs at that deadline.
\<close>

definition combo :: "pollDesc \<Rightarrow> bool" where
  "combo pd \<longleftrightarrow> pd_rd pd > 0 \<and> pd_rd pd = pd_wd pd"

definition armed :: "timer_func \<Rightarrow> int \<Rightarrow> uintptr \<Rightarrow> timer \<Rightarrow> bool" where
  "armed f d seq t \<longleftrightarrow> tm_active t \<and> tm_f t = Some f \<and> tm_when t = d \<and> tm_seq t = seq"

definition timers_ok :: "pollDesc \<Rightarrow> bool" where
  "timers_ok pd \<longleftrightarrow>
     (pd_rd pd > 0 \<longrightarrow>
        armed (if combo pd then NetpollDeadline else NetpollReadDeadline) (pd_rd pd) (pd_rseq pd) (pd_rt pd))
     \<and> (pd_wd pd > 0 \<and> \<not> combo pd \<longrightarrow>
        armed NetpollWriteDeadline (pd_wd pd) (pd_wseq pd) (pd_wt pd))"

lemma set_read_timer_armed:
  assumes "rd0 > 0 \<Longrightarrow>
      armed (if c0 then NetpollDeadline else NetpollReadDeadline) rd0 (pd_rseq pd) (pd_rt pd)"
    and "pd_rd pd > 0"
  shows "armed (if c then NetpollDeadline else NetpollReadDeadline) (pd_rd pd)
      (pd_rseq (set_read_timer c c0 rd0 pd)) (pd_rt (set_read_timer c c0 rd0 pd))"
  using assms by (auto simp: set_read_timer_def armed_def resettimer_def modtimer_def Let_def)

lemma set_write_timer_armed:
  assumes "wd0 > 0 \<Longrightarrow> \<not> c0 \<Longrightarrow> armed NetpollWriteDeadline wd0 (pd_wseq pd) (pd_wt pd)"
    and "pd_wd pd > 0" and "\<not> c"
  shows "armed NetpollWriteDeadline (pd_wd pd)
      (pd_wseq (set_write_timer c c0 wd0 pd)) (pd_wt (set_write_timer c c0 wd0 pd))"
  using assms by (auto simp: set_write_timer_def armed_def resettimer_def modtimer_def Let_def)

lemma set_timer_simps [simp]:
  "pd_rd (set_read_timer c c0 d pd) = pd_rd pd" "pd_wd (set_read_timer c c0 d pd) = pd_wd pd"
  "pd_wseq (set_read_timer c c0 d pd) = pd_wseq pd" "pd_wt (set_read_timer c c0 d pd) = pd_wt pd"
  "pd_rd (set_write_timer c c0 d pd) = pd_rd pd" "pd_wd (set_write_timer c c0 d pd) = pd_wd pd"
  "pd_rseq (set_write_timer c c0 d pd) = pd_rseq pd" "pd_rt (set_write_timer c c0 d pd) = pd_rt pd"
  "pd_atomicInfo (set_read_timer c c0 d pd) = pd_atomicInfo pd"
  "pd_atomicInfo (set_write_timer c c0 d pd) = pd_atomicInfo pd"
  "gpp m (set_read_timer c c0 d pd) = gpp m pd" "gpp m (set_write_timer c c0 d pd) = gpp m pd"
  "pd_closing (set_read_timer c c0 d pd) = pd_closing pd"
  "pd_closing (set_write_timer c c0 d pd) = pd_closing pd"
  by (simp_all add: set_read_timer_def set_write_timer_def Let_def gpp_def)

lemma unblock_expired_keeps:
  assumes "unblock_expired pd = (pd', delta, rg, wg)"
  shows "pd_rd pd' = pd_rd pd" "pd_wd pd' = pd_wd pd" "pd_rseq pd' = pd_rseq pd"
    "pd_wseq pd' = pd_wseq pd" "pd_rt pd' = pd_rt pd" "pd_wt pd' = pd_wt pd"
    "pd_atomicInfo pd' = pd_atomicInfo pd" "pd_closing pd' = pd_closing pd"
  using assms by (auto simp: unblock_expired_def netpollunblock_cases split: if_splits)

text \<open>The deadline a mode has after \<open>SetDeadline\<close>.\<close>

definition new_deadline :: "int \<Rightarrow> int \<Rightarrow> int \<Rightarrow> int \<Rightarrow> int \<Rightarrow> int" where
  "new_deadline own mode now d old =
     (if mode = own \<or> mode = mode_rw then deadline_at now d else old)"

definition with_deadline :: "int \<Rightarrow> int \<Rightarrow> int \<Rightarrow> pollDesc \<Rightarrow> pollDesc" where
  "with_deadline now d mode pd = publishInfo (pd\<lparr>
      pd_rd := new_deadline mode_r mode now d (pd_rd pd),
      pd_wd := new_deadline mode_w mode now d (pd_wd pd)\<rparr>)"

lemma setDeadline_cases:
  assumes "\<not> pd_closing (np_pd np p)"
    and "pd0 = with_deadline now d mode (np_pd np p)"
    and "pd1 = set_read_timer (combo pd0) (combo (np_pd np p)) (pd_rd (np_pd np p)) pd0"
    and "pd2 = set_write_timer (combo pd0) (combo (np_pd np p)) (pd_wd (np_pd np p)) pd1"
  shows "poll_runtime_pollSetDeadline now p d mode np =
    (case unblock_expired pd2 of (pd, delta, rg, wg) \<Rightarrow> wake_both rg wg delta (set_pd p pd np))"
proof -
  have upd: "(if mode = mode_w \<or> mode = mode_rw
       then (if mode = mode_r \<or> mode = mode_rw then pd\<lparr>pd_rd := x\<rparr> else pd)\<lparr>pd_wd := x\<rparr>
       else (if mode = mode_r \<or> mode = mode_rw then pd\<lparr>pd_rd := x\<rparr> else pd))
    = pd\<lparr>pd_rd := (if mode = mode_r \<or> mode = mode_rw then x else pd_rd pd),
         pd_wd := (if mode = mode_w \<or> mode = mode_rw then x else pd_wd pd)\<rparr>" for pd x
    by auto
  show ?thesis
    using assms(1) unfolding assms(2-4) with_deadline_def combo_def new_deadline_def
    by (simp add: poll_runtime_pollSetDeadline_def Let_def upd)
qed

lemma setDeadline_armed:
  assumes "timers_ok (np_pd np p)" and "\<not> pd_closing (np_pd np p)"
    and "pd' = np_pd (poll_runtime_pollSetDeadline now p d mode np) p"
  shows "timers_ok pd'
    \<and> pd_rd pd' = new_deadline mode_r mode now d (pd_rd (np_pd np p))
    \<and> pd_wd pd' = new_deadline mode_w mode now d (pd_wd (np_pd np p))"
proof -
  let ?pd = "np_pd np p"
  define pd0 where "pd0 = with_deadline now d mode ?pd"
  define pd1 where "pd1 = set_read_timer (combo pd0) (combo ?pd) (pd_rd ?pd) pd0"
  define pd2 where "pd2 = set_write_timer (combo pd0) (combo ?pd) (pd_wd ?pd) pd1"
  obtain pd3 delta rg wg where u: "unblock_expired pd2 = (pd3, delta, rg, wg)" by (metis prod_cases4)
  have pd': "pd' = pd3"
    using setDeadline_cases [OF assms(2) pd0_def pd1_def pd2_def] assms(3) u by simp
  note keep = unblock_expired_keeps [OF u]
  have old: "pd_rseq pd0 = pd_rseq ?pd" "pd_rt pd0 = pd_rt ?pd" "pd_wseq pd1 = pd_wseq ?pd"
    "pd_wt pd1 = pd_wt ?pd" by (simp_all add: pd0_def pd1_def with_deadline_def)
  have rd: "pd_rd pd3 = pd_rd pd0" "pd_wd pd3 = pd_wd pd0" "combo pd3 = combo pd0"
    by (simp_all add: keep pd1_def pd2_def combo_def)
  have "armed (if combo pd0 then NetpollDeadline else NetpollReadDeadline) (pd_rd pd0)
      (pd_rseq pd1) (pd_rt pd1)" if "pd_rd pd0 > 0"
    unfolding pd1_def using assms(1) that
    by (intro set_read_timer_armed) (simp_all add: timers_ok_def old)
  moreover have "armed NetpollWriteDeadline (pd_wd pd1) (pd_wseq pd2) (pd_wt pd2)"
    if "pd_wd pd1 > 0" "\<not> combo pd0"
    unfolding pd2_def using assms(1) that
    by (intro set_write_timer_armed) (simp_all add: timers_ok_def old)
  moreover have "pd_rseq pd2 = pd_rseq pd1" "pd_rt pd2 = pd_rt pd1" "pd_wd pd1 = pd_wd pd0"
    by (simp_all add: pd1_def pd2_def)
  ultimately have "timers_ok pd3" unfolding timers_ok_def rd keep by metis
  then show ?thesis by (simp add: pd' rd pd0_def with_deadline_def)
qed

text \<open>
  C7. \<open>SetDeadline\<close> keeps every deadline armed: on a descriptor that is not closing, whose timers
  are in step with its deadlines (\<open>timers_ok\<close>, which \<open>pollOpen\<close> establishes and this call keeps), and for
  whichever of \<open>'r'\<close>, \<open>'w'\<close> and \<open>'r'+'w'\<close>, afterwards each deadline in the future has a
  pending timer with the current sequence number (one timer for both modes when the two
  deadlines agree), and the deadlines of the modes asked for are the ones requested.
\<close>

theorem netpoll_deadlines_armed:
  assumes "timers_ok (np_pd np p)" and "\<not> pd_closing (np_pd np p)"
    and "pd' = np_pd (poll_runtime_pollSetDeadline now p d mode np) p"
  shows "timers_ok pd'
    \<and> pd_rd pd' = new_deadline mode_r mode now d (pd_rd (np_pd np p))
    \<and> pd_wd pd' = new_deadline mode_w mode now d (pd_wd (np_pd np p))"
  using setDeadline_armed [OF assms] .

theorem netpoll_deadlines_armed_witness:
  "timers_ok (np_pd (poll_runtime_pollSetDeadline 100 4096 50 mode_rw zero_np) 4096)
   \<and> pd_rd (np_pd (poll_runtime_pollSetDeadline 100 4096 50 mode_rw zero_np) 4096) = 150"
proof -
  have "timers_ok (np_pd zero_np 4096)" "\<not> pd_closing (np_pd zero_np 4096)"
    by (simp_all add: zero_np_def open_desc_fresh timers_ok_def)
  moreover have "deadline_at 100 50 = 150" by code_simp
  ultimately show ?thesis
    using netpoll_deadlines_armed [of zero_np 4096 _ 100 50 mode_rw] by (simp add: new_deadline_def)
qed

lemma unblock_keeps:
  assumes "netpollunblock pd m io delta = (pd', delta', g)"
  shows "netpollcheckerr pd' mode = netpollcheckerr pd mode" "pd_wd pd' = pd_wd pd"
    "pd_closing pd' = pd_closing pd" "pd_rd pd' = pd_rd pd"
  using assms by (auto simp: netpollunblock_cases split: if_splits)

lemma unblock_one:
  assumes "netpollunblock pd mode_r False delta = (pd', delta', g)"
  shows "(if g \<noteq> 0 then [g] else []) = filter is_g [pd_rg pd]"
  using assms is_g_nonzero by (auto simp: netpollunblock_cases gpp_modes split: if_splits)

text \<open>
  C8. A deadline timer that runs with the current sequence number expires its deadlines and
  leaves nobody parked on them: the reader (and, for the shared timer, the writer) is made
  ready, the next \<open>pollWait\<close> of the mode returns \<open>pollErrTimeout\<close>, and the consistency throws
  are not reached.
\<close>

theorem netpoll_read_timer_fires:
  assumes "timers_ok (np_pd np p)" and "\<not> pd_closing (np_pd np p)" and "pd_rd (np_pd np p) > 0"
  shows "\<exists>np'. netpolldeadlineimpl p (tm_seq (pd_rt (np_pd np p))) True (combo (np_pd np p)) np = (np', Ret ())
     \<and> np_ready np' = np_ready np @ (if combo (np_pd np p) then parked (np_pd np p)
                                       else filter is_g [pd_rg (np_pd np p)])
     \<and> poll_runtime_pollWait gp p mode_r evs np' = (np', evs, Ret pollErrTimeout)
     \<and> (combo (np_pd np p) \<longrightarrow> poll_runtime_pollWait gp p mode_w evs np' = (np', evs, Ret pollErrTimeout))"
proof -
  let ?pd = "np_pd np p" and ?pub = "publishInfo ((np_pd np p)\<lparr>pd_rd := -1\<rparr>)"
  have seq: "tm_seq (pd_rt ?pd) = pd_rseq ?pd" and f: "tm_f (pd_rt ?pd) \<noteq> None"
    using assms(1,3) by (auto simp: timers_ok_def armed_def)
  obtain pd1 d1 rg where u1: "netpollunblock ?pub mode_r False 0 = (pd1, d1, rg)" by (metis prod_cases3)
  note k1 = unblock_keeps [OF u1] and rg = unblock_one [OF u1]
  show ?thesis
  proof (cases "combo ?pd")
    case False
    have "netpollcheckerr pd1 mode_r = pollErrTimeout"
      using k1(1) [of mode_r] assms(2) by (simp add: checkerr_publishInfo expired_def)
    then show ?thesis using False seq f assms(3) rg
      by (simp add: netpolldeadlineimpl_def Let_def u1 pollWait_error poll_codes)
  next
    case True
    obtain pd2 d2 wg where u2: "netpollunblock (publishInfo (pd1\<lparr>pd_wd := -1\<rparr>)) mode_w False d1 = (pd2, d2, wg)"
      by (metis prod_cases3)
    have wd: "pd_wd pd1 > 0" using True k1(2) by (simp add: combo_def)
    have "netpollcheckerr pd2 m = pollErrTimeout" if "m = mode_r \<or> m = mode_w" for m
      using that k1 assms(2) unblock_keeps(1) [OF u2, of m]
      by (auto simp: checkerr_publishInfo expired_def)
    moreover have "(if wg \<noteq> 0 then [wg] else []) = filter is_g [pd_wg ?pd]"
      using u1 u2 is_g_nonzero
      by (auto simp: netpollunblock_cases gpp_modes set_gpp_def split: if_splits)
    ultimately show ?thesis using True seq f assms(3) rg wd
      by (simp add: netpolldeadlineimpl_def Let_def u1 u2 pollWait_error poll_codes parked_def)
  qed
qed

definition np_deadline :: netpoll where
  "np_deadline = poll_runtime_pollSetDeadline 100 4096 50 mode_rw zero_np"

lemma np_deadline_facts:
  "timers_ok (np_pd np_deadline 4096)" "\<not> pd_closing (np_pd np_deadline 4096)"
  "pd_rd (np_pd np_deadline 4096) = 150" "combo (np_pd np_deadline 4096)"
proof -
  have "timers_ok (np_pd zero_np 4096)" "\<not> pd_closing (np_pd zero_np 4096)"
    by (simp_all add: zero_np_def open_desc_fresh timers_ok_def)
  then show "timers_ok (np_pd np_deadline 4096)"
    using setDeadline_armed [OF _ _ refl, of zero_np 4096 100 50 mode_rw] by (simp add: np_deadline_def)
  show "\<not> pd_closing (np_pd np_deadline 4096)" "pd_rd (np_pd np_deadline 4096) = 150"
    "combo (np_pd np_deadline 4096)" by code_simp+
qed

theorem netpoll_read_timer_fires_witness:
  "\<exists>np'. netpolldeadlineimpl 4096 (tm_seq (pd_rt (np_pd np_deadline 4096))) True True np_deadline
       = (np', Ret ())
     \<and> poll_runtime_pollWait 8192 4096 mode_w [] np' = (np', [], Ret pollErrTimeout)"
  using netpoll_read_timer_fires [OF np_deadline_facts(1,2), of 8192 "[]"] np_deadline_facts(3,4)
  by auto

text \<open>
  A timer that lost a race with \<open>SetDeadline\<close> is harmless: once the read deadline has been
  changed to another value, the function of the timer that was pending for the old one
  returns without touching anything.
\<close>

theorem netpoll_stale_timer_ignored:
  assumes "timers_ok (np_pd np p)" and "\<not> pd_closing (np_pd np p)" and "pd_rd (np_pd np p) > 0"
    and "new_deadline mode_r mode now d (pd_rd (np_pd np p)) \<noteq> pd_rd (np_pd np p)"
    and "np' = poll_runtime_pollSetDeadline now p d mode np"
  shows "netpolldeadlineimpl p (tm_seq (pd_rt (np_pd np p))) True write np' = (np', Ret ())"
proof -
  let ?pd = "np_pd np p"
  define pd0 where "pd0 = with_deadline now d mode ?pd"
  define pd1 where "pd1 = set_read_timer (combo pd0) (combo ?pd) (pd_rd ?pd) pd0"
  define pd2 where "pd2 = set_write_timer (combo pd0) (combo ?pd) (pd_wd ?pd) pd1"
  obtain pd3 delta rg wg where u: "unblock_expired pd2 = (pd3, delta, rg, wg)" by (metis prod_cases4)
  have pd3: "np_pd np' p = pd3"
    using setDeadline_cases [OF assms(2) pd0_def pd1_def pd2_def] assms(5) u by simp
  have seq: "tm_seq (pd_rt ?pd) = pd_rseq ?pd" and f: "tm_f (pd_rt ?pd) \<noteq> None"
    using assms(1,3) by (auto simp: timers_ok_def armed_def)
  have "pd_rseq pd0 = pd_rseq ?pd" "pd_rt pd0 = pd_rt ?pd" "pd_rd pd0 \<noteq> pd_rd ?pd"
    using assms(4) by (simp_all add: pd0_def with_deadline_def)
  then have "pd_rseq pd1 = pd_rseq ?pd + 1"
    using f by (simp add: pd1_def set_read_timer_def Let_def)
  then have "pd_rseq (np_pd np' p) = pd_rseq ?pd + 1"
    by (simp add: pd3 unblock_expired_keeps [OF u] pd2_def)
  then show ?thesis using seq by (simp add: netpolldeadlineimpl_def Let_def)
qed

theorem netpoll_stale_timer_ignored_witness:
  "netpolldeadlineimpl 4096 (tm_seq (pd_rt (np_pd np_deadline 4096))) True True
     (poll_runtime_pollSetDeadline 120 4096 0 mode_r np_deadline)
   = (poll_runtime_pollSetDeadline 120 4096 0 mode_r np_deadline, Ret ())"
proof (rule netpoll_stale_timer_ignored [OF np_deadline_facts(1,2) _ _ refl])
  show "0 < pd_rd (np_pd np_deadline 4096)" by (simp add: np_deadline_facts)
  show "new_deadline mode_r mode_r 120 0 (pd_rd (np_pd np_deadline 4096)) \<noteq> pd_rd (np_pd np_deadline 4096)"
    by (simp add: np_deadline_facts new_deadline_def deadline_at_def)
qed

text \<open>
  A relative deadline never wraps round: for every positive \<open>int64\<close> duration and clock,
  the absolute deadline that is stored is the sum, or the largest \<open>int64\<close> when the sum
  overflows.
\<close>

theorem netpoll_deadline_saturates:
  assumes "0 < d" "d < 2 ^ 63" "0 \<le> now" "now < 2 ^ 63"
  shows "deadline_at now d = min (d + now) max64 \<and> 0 < deadline_at now d"
  using deadline_at_saturates [OF assms] assms by (simp add: max64_def)

theorem netpoll_deadline_saturates_witness:
  "deadline_at (2 ^ 63 - 2) 10 = max64"
  using netpoll_deadline_saturates [of 10 "2 ^ 63 - 2"] by (simp add: max64_def)

subsection \<open>Waiting\<close>

text \<open>The descriptor as it is while the goroutine is parked.\<close>

lemma pollWait_parks:
  assumes "netpollcheckerr (np_pd np p) mode = pollNoError" and "gpp mode (np_pd np p) = pdNil"
  shows "poll_runtime_pollWait gp p mode evs np = pollWait_loop gp p mode evs np"
    and "netpollblock gp p mode False evs np =
      (case await gp evs (netpollAdjustWaiters 1 (set_pd p (set_gpp mode gp (np_pd np p)) np)) of
         (np, evs, Ret _) \<Rightarrow> (let (pd, r) = netpollblock_leave (np_pd np p) mode
                               in (set_pd p pd np, evs, r))
       | (np, evs, Panic m) \<Rightarrow> (np, evs, Panic m)
       | (np, evs, Blocked) \<Rightarrow> (np, evs, Blocked))"
proof -
  show "poll_runtime_pollWait gp p mode evs np = pollWait_loop gp p mode evs np"
    using assms(1) by (simp add: poll_runtime_pollWait_def Let_def)
  have gg: "set_gpp mode gp (set_gpp mode pdWait pd) = set_gpp mode gp pd" for pd
    by (simp add: set_gpp_def)
  have ss: "set_pd p a (set_pd p b np) = set_pd p a np" for a b by (simp add: set_pd_def)
  show "netpollblock gp p mode False evs np =
      (case await gp evs (netpollAdjustWaiters 1 (set_pd p (set_gpp mode gp (np_pd np p)) np)) of
         (np, evs, Ret _) \<Rightarrow> (let (pd, r) = netpollblock_leave (np_pd np p) mode
                               in (set_pd p pd np, evs, r))
       | (np, evs, Panic m) \<Rightarrow> (np, evs, Panic m)
       | (np, evs, Blocked) \<Rightarrow> (np, evs, Blocked))"
    using assms
    by (simp add: netpollblock_def netpollblock_enter_def netpollblockcommit_def gg ss Let_def
        split: prod.splits outcome.splits)
qed

lemma unblock_parked:
  assumes "is_g gp" and "mode = mode_r \<or> mode = mode_w" and "gpp mode pd = gp"
  shows "netpollunblock pd mode io d = (set_gpp mode (if io then pdReady else pdNil) pd, d - 1, gp)"
  using assms by (auto simp: netpollunblock_cases)

lemma await_io:
  assumes "is_g gp" and "mode = mode_r \<or> mode = mode_w" and "gpp mode (np_pd np p) = gp"
  obtains np' where "await gp (EvIO p mode # evs) np = (np', evs, Ret ())"
    and "gpp mode (np_pd np' p) = pdReady"
proof -
  note un = unblock_parked [OF assms, of True]
  have "netpollready [] (np_pd np p) mode = ([gp], set_gpp mode pdReady (np_pd np p), -1)"
    using assms(2) un is_g_nonzero [OF assms(1)] by (auto simp: netpollready_def)
  then show thesis using that by (simp add: netpollAdjustWaiters_def)
qed

lemma pollUnblock_parked_nil:
  assumes "\<not> pd_closing (np_pd np p)" and "mode = mode_r \<or> mode = mode_w"
    and "is_g (gpp mode (np_pd np p))" and "poll_runtime_pollUnblock p np = (np', r)"
  shows "gpp mode (np_pd np' p) = pdNil"
proof -
  let ?pub = "publishInfo ((np_pd np p)\<lparr>pd_closing := True, pd_rseq := pd_rseq (np_pd np p) + 1,
                pd_wseq := pd_wseq (np_pd np p) + 1\<rparr>)"
  obtain pd1 d1 rg where u1: "netpollunblock ?pub mode_r False 0 = (pd1, d1, rg)"
    by (metis prod_cases3)
  obtain pd2 d2 wg where u2: "netpollunblock pd1 mode_w False d1 = (pd2, d2, wg)"
    by (metis prod_cases3)
  have "gpp mode pd2 = pdNil"
    using u1 u2 assms(2,3)
    by (auto simp: netpollunblock_cases gpp_modes set_gpp_def split: if_splits)
  then show ?thesis
    using assms(1,4) by (auto simp: poll_runtime_pollUnblock_def Let_def u1 u2 gpp_def)
qed

lemma await_unblock:
  assumes "is_g gp" and "mode = mode_r \<or> mode = mode_w" and "gpp mode (np_pd np p) = gp"
    and "\<not> pd_closing (np_pd np p)"
  obtains np' where "await gp (EvUnblock p # evs) np = (np', evs, Ret ())"
    and "gpp mode (np_pd np' p) = pdNil"
    and "netpollcheckerr (np_pd np' p) mode = pollErrClosing"
proof (rule pollUnblock_spec [OF assms(4)])
  fix np'
  assume u: "poll_runtime_pollUnblock p np = (np', Ret ())"
    and err: "\<And>mode. netpollcheckerr (np_pd np' p) mode = pollErrClosing"
    and ready: "np_ready np' = np_ready np @ parked (np_pd np p)"
  have "gp \<in> set (parked (np_pd np p))" using assms(1-3) by (auto simp: parked_def gpp_modes)
  then have "await gp (EvUnblock p # evs) np
      = (np'\<lparr>np_ready := remove1 gp (np_ready np')\<rparr>, evs, Ret ())"
    using u ready by simp
  then show thesis using that err pollUnblock_parked_nil [OF assms(4,2) _ u] assms(1,3) by simp
qed

lemma leave_ok: "gpp mode pd \<in> {pdNil, pdReady} \<Longrightarrow>
    netpollblock_leave pd mode = (set_gpp mode pdNil pd, Ret (gpp mode pd = pdReady))"
  by (auto simp: netpollblock_leave_def pd_consts)

text \<open>
  C9. A goroutine that waits on a descriptor without error parks, and it comes back with the
  right answer: a notification that came before the wait is consumed without parking, a
  readiness event gives \<open>pollNoError\<close>, an eviction (\<open>pollUnblock\<close>) gives \<open>pollErrClosing\<close>,
  and with no event at all it stays parked and is
  counted as a waiter.
\<close>

theorem netpoll_wait_wakes:
  assumes "is_g gp" and "mode = mode_r \<or> mode = mode_w"
    and "netpollcheckerr (np_pd np p) mode = pollNoError" and "\<not> pd_closing (np_pd np p)"
    and "gpp mode (np_pd np p) = pdNil"
  shows "snd (poll_runtime_pollWait gp p mode (EvIO p mode # evs) np) = (evs, Ret pollNoError)
    \<and> snd (poll_runtime_pollWait gp p mode (EvUnblock p # evs) np) = (evs, Ret pollErrClosing)
    \<and> poll_runtime_pollWait gp p mode [] np =
        (netpollAdjustWaiters 1 (set_pd p (set_gpp mode gp (np_pd np p)) np), [], Blocked)
    \<and> poll_runtime_pollWait gp p mode evs (set_pd p (set_gpp mode pdReady (np_pd np p)) np) =
        (set_pd p (np_pd np p) np, evs, Ret pollNoError)"
proof -
  define np1 where "np1 = netpollAdjustWaiters 1 (set_pd p (set_gpp mode gp (np_pd np p)) np)"
  have g: "gpp mode (np_pd np1 p) = gp" and c: "\<not> pd_closing (np_pd np1 p)"
    using assms(4) by (simp_all add: np1_def)
  note parks = pollWait_parks [OF assms(3,5), where gp = gp, folded np1_def]
  note loop = pollWait_loop.simps [of gp p mode _ np]
  obtain np2 where "await gp (EvIO p mode # evs) np1 = (np2, evs, Ret ())"
    and "gpp mode (np_pd np2 p) = pdReady" by (rule await_io [OF assms(1,2) g])
  then have "snd (poll_runtime_pollWait gp p mode (EvIO p mode # evs) np) = (evs, Ret pollNoError)"
    by (simp add: parks loop leave_ok del: await.simps)
  moreover obtain np3 where "await gp (EvUnblock p # evs) np1 = (np3, evs, Ret ())"
    and "gpp mode (np_pd np3 p) = pdNil" and "netpollcheckerr (np_pd np3 p) mode = pollErrClosing"
    by (rule await_unblock [OF assms(1,2) g c])
  then have "snd (poll_runtime_pollWait gp p mode (EvUnblock p # evs) np) = (evs, Ret pollErrClosing)"
    by (simp add: parks loop leave_ok poll_codes del: await.simps)
  moreover have "poll_runtime_pollWait gp p mode [] np = (np1, [], Blocked)"
    by (simp add: parks loop)
  moreover have "poll_runtime_pollWait gp p mode evs (set_pd p (set_gpp mode pdReady (np_pd np p)) np)
      = (set_pd p (np_pd np p) np, evs, Ret pollNoError)"
  proof -
    have "set_gpp mode pdNil (set_gpp mode pdReady (np_pd np p)) = np_pd np p"
      using assms(5) by (auto simp: set_gpp_def gpp_def split: if_splits)
    moreover have "set_pd p a (set_pd p b np) = set_pd p a np" for a b by (simp add: set_pd_def)
    ultimately show ?thesis using assms(3)
      by (simp add: poll_runtime_pollWait_def Let_def netpollblock_def netpollblock_enter_def
          pollWait_loop.simps)
  qed
  ultimately show ?thesis by (simp add: np1_def)
qed

theorem netpoll_wait_wakes_witness:
  "snd (poll_runtime_pollWait 8192 4096 mode_r [EvIO 4096 mode_r] zero_np) = ([], Ret pollNoError)
   \<and> snd (poll_runtime_pollWait 8192 4096 mode_r [EvUnblock 4096] zero_np) = ([], Ret pollErrClosing)"
proof -
  have "is_g 8192" by (simp add: is_g_def pd_consts)
  moreover have "netpollcheckerr (np_pd zero_np 4096) mode_r = pollNoError"
    "\<not> pd_closing (np_pd zero_np 4096)" "gpp mode_r (np_pd zero_np 4096) = pdNil"
    by (simp_all add: zero_np_def open_desc_fresh gpp_def)
  ultimately show ?thesis using netpoll_wait_wakes [of 8192 mode_r zero_np 4096 "[]"] by simp
qed

end
