(* ===== verification/NetpollMachine.thy ===== *)
theory NetpollMachine
  imports Netpoll
begin

text \<open>
  One descriptor under concurrency. A reading and a writing goroutine go through
  \<open>netpollblock\<close>; \<open>netpoll\<close> reports readiness; \<open>pollUnblock\<close>, \<open>pollSetDeadline\<close> and the
  deadline timers first publish a state and then unblock (each of the three holds
  \<open>pd.lock\<close>, so no two of them overlap, but neither the waiters nor \<open>netpoll\<close> take that
  lock).

  A step is one atomic access of one of them: \<open>netpollblockcommit\<close> swaps its goroutine into the
  semaphore in one step and adds 1 to \<open>netpollWaiters\<close> in another, \<open>netpollunblock\<close> takes the
  goroutine off in one step, the goroutine is readied in a second and the collected delta is
  applied to \<open>netpollWaiters\<close> in a third; other threads run in between. The loops around a
  compare-and-swap that fails change nothing, so a step is the access that succeeds (or the
  load after which the function returns or throws). The fields that \<open>pd.lock\<close> protects are
  written together with \<open>publishInfo\<close>: outside the lock only \<open>atomicInfo\<close> and the two semaphores
  are read. Wherever the code is stricter than a rule here (\<open>pollReset\<close> looks at the errors
  before its store; the deadlines and \<open>pollUnblock\<close> ready before they adjust, a scheduler that
  keeps one goroutine adjusts first), the rule allows both, so the theorems hold for either
  order.

  The comment of \<open>pollDesc.atomicInfo\<close> asks that a state be published before the unblocking: "publishInfo is what stops
  netpollblock from blocking anew". The invariant shows why it is enough: once an error is
  published and the unblocking is done, nobody is parked and nobody will park.
\<close>

datatype wpc =
    Out         \<comment> \<open>not in \<open>netpollblock\<close>\<close>
  | Announced   \<comment> \<open>has stored \<open>pdWait\<close>\<close>
  | Committing  \<comment> \<open>found no error; \<open>gopark\<close> will run \<open>netpollblockcommit\<close>\<close>
  | Parked      \<comment> \<open>its pointer is in the semaphore\<close>
  | Taken       \<comment> \<open>taken off by \<open>netpollunblock\<close>, not yet made ready\<close>
  | Resuming    \<comment> \<open>about to swap in \<open>pdNil\<close>\<close>

text \<open>\<open>True\<close> is the reader, \<open>False\<close> the writer.\<close>

definition mode_of :: "bool \<Rightarrow> int" where
  "mode_of b = (if b then mode_r else mode_w)"

record wsys =
  w_pd :: pollDesc
  w_pc :: "bool \<Rightarrow> wpc"
  w_g :: "bool \<Rightarrow> uintptr"        \<comment> \<open>the waiting goroutines\<close>
  w_pending :: "bool \<Rightarrow> bool"     \<comment> \<open>modes the holder of the lock still has to unblock\<close>
  w_waiters :: u32               \<comment> \<open>\<open>netpollWaiters\<close>\<close>
  w_inc :: nat                   \<comment> \<open>threads inside \<open>netpollblockcommit\<close> between the swap and the adjustment\<close>
  w_dec :: nat                   \<comment> \<open>goroutines counted in the deltas that are still to be applied\<close>
  w_crashed :: bool

definition set_pc :: "bool \<Rightarrow> wpc \<Rightarrow> wsys \<Rightarrow> wsys" where
  "set_pc b q s = s\<lparr>w_pc := (w_pc s)(b := q)\<rparr>"

definition do_enter :: "bool \<Rightarrow> wsys \<Rightarrow> wsys" where
  "do_enter b s = (case netpollblock_enter (w_pd s) (mode_of b) of
     BReady pd \<Rightarrow> s\<lparr>w_pd := pd\<rparr>
   | BWait pd \<Rightarrow> set_pc b Announced (s\<lparr>w_pd := pd\<rparr>)
   | BThrow \<Rightarrow> s\<lparr>w_crashed := True\<rparr>)"

definition do_recheck :: "bool \<Rightarrow> wsys \<Rightarrow> wsys" where
  "do_recheck b s =
     set_pc b (if netpollcheckerr (w_pd s) (mode_of b) = pollNoError then Committing else Resuming) s"

text \<open>
  \<open>netpollblockcommit\<close>: the compare-and-swap of the semaphore, and then, when it succeeded, the
  separate \<open>netpollAdjustWaiters(1)\<close>. In between the goroutine can already be taken off and run.
\<close>

definition do_commit :: "bool \<Rightarrow> wsys \<Rightarrow> wsys" where
  "do_commit b s =
     (if gpp (mode_of b) (w_pd s) = pdWait
      then set_pc b Parked (s\<lparr>w_pd := set_gpp (mode_of b) (w_g s b) (w_pd s),
             w_inc := w_inc s + 1\<rparr>)
      else set_pc b Resuming s)"

definition do_count :: "wsys \<Rightarrow> wsys" where
  "do_count s = s\<lparr>w_waiters := w_waiters s + 1, w_inc := w_inc s - 1\<rparr>"

definition do_leave :: "bool \<Rightarrow> wsys \<Rightarrow> wsys" where
  "do_leave b s = (case netpollblock_leave (w_pd s) (mode_of b) of
     (pd, Ret _) \<Rightarrow> set_pc b Out (s\<lparr>w_pd := pd\<rparr>)
   | (pd, _) \<Rightarrow> s\<lparr>w_pd := pd, w_crashed := True\<rparr>)"

text \<open>
  \<open>netpollunblock\<close> takes the goroutine off its semaphore and counts it in the delta of its
  caller; the caller makes it ready (\<open>netpollgoready\<close>, or \<open>injectglist\<close> of the list that
  \<open>netpoll\<close> returns) and applies the delta, which is never positive.
\<close>

definition do_unblock :: "bool \<Rightarrow> bool \<Rightarrow> wsys \<Rightarrow> wsys" where
  "do_unblock b ioready s =
     (let (pd, delta, g) = netpollunblock (w_pd s) (mode_of b) ioready 0;
          s = s\<lparr>w_pd := pd, w_dec := w_dec s + nat (- delta)\<rparr>
      in if g \<noteq> 0 then set_pc b Taken s else s)"

definition do_ready :: "bool \<Rightarrow> wsys \<Rightarrow> wsys" where
  "do_ready b s = set_pc b Resuming s"

definition do_uncount :: "nat \<Rightarrow> wsys \<Rightarrow> wsys" where
  "do_uncount n s = s\<lparr>w_waiters := w_waiters s + word_of_int (- int n), w_dec := w_dec s - n\<rparr>"

definition idle_lock :: "wsys \<Rightarrow> bool" where
  "idle_lock s \<longleftrightarrow> \<not> w_pending s True \<and> \<not> w_pending s False"

inductive wstep :: "wsys \<Rightarrow> wsys \<Rightarrow> bool" where
  enter: "\<not> w_crashed s \<Longrightarrow> w_pc s b = Out \<Longrightarrow> wstep s (do_enter b s)"
| recheck: "\<not> w_crashed s \<Longrightarrow> w_pc s b = Announced \<Longrightarrow> wstep s (do_recheck b s)"
| commit: "\<not> w_crashed s \<Longrightarrow> w_pc s b = Committing \<Longrightarrow> wstep s (do_commit b s)"
| leave: "\<not> w_crashed s \<Longrightarrow> w_pc s b = Resuming \<Longrightarrow> wstep s (do_leave b s)"
| count: "\<not> w_crashed s \<Longrightarrow> 0 < w_inc s \<Longrightarrow> wstep s (do_count s)"
| ready: "\<not> w_crashed s \<Longrightarrow> w_pc s b = Taken \<Longrightarrow> wstep s (do_ready b s)"
| uncount: "\<not> w_crashed s \<Longrightarrow> n \<le> w_dec s \<Longrightarrow> wstep s (do_uncount n s)"
| reset: "\<not> w_crashed s \<Longrightarrow> w_pc s b = Out \<Longrightarrow>
    wstep s (s\<lparr>w_pd := set_gpp (mode_of b) pdNil (w_pd s)\<rparr>)"
| io: "\<not> w_crashed s \<Longrightarrow> wstep s (do_unblock b True s)"
| event_err: "\<not> w_crashed s \<Longrightarrow> wstep s (s\<lparr>w_pd := setEventErr e seq (w_pd s)\<rparr>)"
| close: "\<not> w_crashed s \<Longrightarrow> idle_lock s \<Longrightarrow> \<not> pd_closing (w_pd s) \<Longrightarrow>
    wstep s (s\<lparr>w_pd := publishInfo ((w_pd s)\<lparr>pd_closing := True, pd_rseq := pd_rseq (w_pd s) + 1,
                 pd_wseq := pd_wseq (w_pd s) + 1\<rparr>),
               w_pending := (\<lambda>_. True)\<rparr>)"
| set_deadline: "\<not> w_crashed s \<Longrightarrow> idle_lock s \<Longrightarrow> \<not> pd_closing (w_pd s) \<Longrightarrow>
    pd = publishInfo ((w_pd s)\<lparr>pd_rd := rd, pd_wd := wd\<rparr>) \<Longrightarrow>
    wstep s (s\<lparr>w_pd := pd, w_pending := (\<lambda>b. expired pd (mode_of b))\<rparr>)"
| timer: "\<not> w_crashed s \<Longrightarrow> idle_lock s \<Longrightarrow>
    pd = publishInfo (if b then (w_pd s)\<lparr>pd_rd := -1\<rparr> else (w_pd s)\<lparr>pd_wd := -1\<rparr>) \<Longrightarrow>
    wstep s (s\<lparr>w_pd := pd, w_pending := (w_pending s)(b := True)\<rparr>)"
| unblock: "\<not> w_crashed s \<Longrightarrow> w_pending s b \<Longrightarrow>
    wstep s ((do_unblock b False s)\<lparr>w_pending := (w_pending s)(b := False)\<rparr>)"

definition wstart :: "wsys \<Rightarrow> bool" where
  "wstart s \<longleftrightarrow> (\<exists>p fd pd. w_pd s = open_desc p fd pd) \<and> w_pc s = (\<lambda>_. Out)
     \<and> (\<forall>b. is_g (w_g s b)) \<and> w_pending s = (\<lambda>_. False)
     \<and> w_waiters s = 0 \<and> w_inc s = 0 \<and> w_dec s = 0 \<and> \<not> w_crashed s"

section \<open>The invariant\<close>

text \<open>How the semaphore and the place of its goroutine agree.\<close>

fun sem_shape :: "wpc \<Rightarrow> uintptr \<Rightarrow> uintptr \<Rightarrow> bool" where
  "sem_shape Out g v \<longleftrightarrow> v = pdNil \<or> v = pdReady"
| "sem_shape Parked g v \<longleftrightarrow> v = g"
| "sem_shape Taken g v \<longleftrightarrow> v = pdNil \<or> v = pdReady"
| "sem_shape _ g v \<longleftrightarrow> v = pdNil \<or> v = pdReady \<or> v = pdWait"

definition sem_ok :: "bool \<Rightarrow> wsys \<Rightarrow> bool" where
  "sem_ok b s \<longleftrightarrow> sem_shape (w_pc s b) (w_g s b) (gpp (mode_of b) (w_pd s))"

definition must_not_park :: "bool \<Rightarrow> wsys \<Rightarrow> bool" where
  "must_not_park b s \<longleftrightarrow> (pd_closing (w_pd s) \<or> expired (w_pd s) (mode_of b)) \<and> \<not> w_pending s b"

definition no_sleep :: "bool \<Rightarrow> wsys \<Rightarrow> bool" where
  "no_sleep b s \<longleftrightarrow> (must_not_park b s \<longrightarrow>
     w_pc s b \<noteq> Parked \<and> \<not> (w_pc s b = Committing \<and> gpp (mode_of b) (w_pd s) = pdWait))"

text \<open>
  \<open>netpollWaiters\<close> is exact up to the adjustments that are still to be made. As a word: a
  decrement may overtake the increment of the same goroutine, and the counter then wraps for
  that moment.
\<close>

definition parked_on :: "wsys \<Rightarrow> nat" where
  "parked_on s = bool_nat (w_pc s True = Parked) + bool_nat (w_pc s False = Parked)"

definition waiters_ok :: "wsys \<Rightarrow> bool" where
  "waiters_ok s \<longleftrightarrow> w_waiters s + of_nat (w_inc s) = of_nat (parked_on s + w_dec s)"

definition winv :: "wsys \<Rightarrow> bool" where
  "winv s \<longleftrightarrow> published (w_pd s) \<and> (\<forall>b. is_g (w_g s b)) \<and> (\<forall>b. sem_ok b s) \<and> (\<forall>b. no_sleep b s)
     \<and> waiters_ok s \<and> \<not> w_crashed s"

lemma gpp_mode_of [simp]:
  "gpp (mode_of b) (set_gpp (mode_of b') v pd) = (if b = b' then v else gpp (mode_of b) pd)"
  by (cases b; cases b') (simp_all add: mode_of_def)

lemma winvI:
  assumes "published (w_pd s)" "\<And>b. is_g (w_g s b)" "\<And>b. sem_ok b s" "\<And>b. no_sleep b s"
    and "waiters_ok s" and "\<not> w_crashed s"
  shows "winv s"
  using assms by (simp add: winv_def)

lemma winvD:
  assumes "winv s"
  shows "published (w_pd s)" "is_g (w_g s b)" "sem_ok b s" "no_sleep b s"
    "waiters_ok s" "\<not> w_crashed s"
  using assms by (auto simp: winv_def)

lemma parked_on_set_pc [simp]:
  "parked_on (set_pc b q s) = bool_nat (q = Parked) + bool_nat (w_pc s (\<not> b) = Parked)"
  by (cases b) (auto simp: parked_on_def set_pc_def)

lemma parked_on_split: "parked_on s = bool_nat (w_pc s b = Parked) + bool_nat (w_pc s (\<not> b) = Parked)"
  by (cases b) (auto simp: parked_on_def)

text \<open>Moving a goroutine between places that are not \<open>Parked\<close> leaves the count alone.\<close>

lemma waiters_ok_move:
  assumes "waiters_ok s" and "w_pc s b \<noteq> Parked" and "q \<noteq> Parked"
    and "w_waiters t = w_waiters s" "w_inc t = w_inc s" "w_dec t = w_dec s"
    and "w_pc t = (w_pc s)(b := q)"
  shows "waiters_ok t"
  using assms by (cases b) (auto simp: waiters_ok_def parked_on_def)

lemma enter_inv: "winv s \<Longrightarrow> w_pc s b = Out \<Longrightarrow> winv (do_enter b s)"
proof -
  assume inv: "winv s" and out: "w_pc s b = Out"
  have v: "gpp (mode_of b) (w_pd s) = pdNil \<or> gpp (mode_of b) (w_pd s) = pdReady"
    using winvD(3) [OF inv, of b] out by (simp add: sem_ok_def Let_def)
  show ?thesis
  proof (rule winvI)
    fix c
    show "sem_ok c (do_enter b s)"
      using winvD(3) [OF inv, of c] v out
      by (cases "c = b") (auto simp: sem_ok_def do_enter_def netpollblock_enter_def set_pc_def Let_def)
    show "no_sleep c (do_enter b s)"
      using winvD(4) [OF inv, of c] v out
      by (cases "c = b") (auto simp: no_sleep_def must_not_park_def do_enter_def
          netpollblock_enter_def set_pc_def)
  qed (use inv v out in \<open>cases b; auto simp: do_enter_def netpollblock_enter_def set_pc_def winv_def
      waiters_ok_def parked_on_def\<close>)+
qed

lemma recheck_inv: "winv s \<Longrightarrow> w_pc s b = Announced \<Longrightarrow> winv (do_recheck b s)"
proof -
  assume inv: "winv s" and pc: "w_pc s b = Announced"
  show ?thesis
  proof (rule winvI)
    fix c
    show "sem_ok c (do_recheck b s)"
      using winvD(3) [OF inv, of c] pc
      by (cases "c = b") (auto simp: sem_ok_def do_recheck_def set_pc_def Let_def)
    show "no_sleep c (do_recheck b s)"
      using winvD(4) [OF inv, of c] checkerr_published [OF winvD(1) [OF inv], of "mode_of b"]
      by (cases "c = b") (auto simp: no_sleep_def must_not_park_def do_recheck_def set_pc_def
          poll_codes split: if_splits)
  qed (use inv pc in \<open>cases b; auto simp: do_recheck_def set_pc_def winv_def
      waiters_ok_def parked_on_def\<close>)+
qed

lemma commit_inv: "winv s \<Longrightarrow> w_pc s b = Committing \<Longrightarrow> winv (do_commit b s)"
proof -
  assume inv: "winv s" and pc: "w_pc s b = Committing"
  show ?thesis
  proof (rule winvI)
    fix c
    show "sem_ok c (do_commit b s)"
      using winvD(3) [OF inv, of c] pc
      by (cases "c = b") (auto simp: sem_ok_def do_commit_def set_pc_def Let_def)
    show "no_sleep c (do_commit b s)"
      using winvD(4) [OF inv, of c] pc
      by (cases "c = b") (auto simp: no_sleep_def must_not_park_def do_commit_def set_pc_def)
  qed (use inv pc in \<open>cases b; auto simp: do_commit_def set_pc_def winv_def
      waiters_ok_def parked_on_def add_ac\<close>)+
qed

text \<open>The two adjustments of the counter.\<close>

lemma counter_inv:
  assumes "winv s" and "waiters_ok t"
    and "w_pd t = w_pd s" "w_pc t = w_pc s" "w_g t = w_g s" "w_pending t = w_pending s"
      "w_crashed t = w_crashed s"
  shows "winv t"
  using assms by (simp add: winv_def sem_ok_def no_sleep_def must_not_park_def)

lemma count_inv: "winv s \<Longrightarrow> 0 < w_inc s \<Longrightarrow> winv (do_count s)"
  by (rule counter_inv)
    (auto simp: do_count_def winv_def waiters_ok_def parked_on_def add_ac of_nat_diff)

lemma uncount_inv: "winv s \<Longrightarrow> n \<le> w_dec s \<Longrightarrow> winv (do_uncount n s)"
  by (rule counter_inv)
    (auto simp: do_uncount_def winv_def waiters_ok_def parked_on_def of_nat_diff algebra_simps)

lemma ready_inv: "winv s \<Longrightarrow> w_pc s b = Taken \<Longrightarrow> winv (do_ready b s)"
proof -
  assume inv: "winv s" and pc: "w_pc s b = Taken"
  show ?thesis
  proof (rule winvI)
    fix c
    show "sem_ok c (do_ready b s)"
      using winvD(3) [OF inv, of c] pc
      by (cases "c = b") (auto simp: sem_ok_def do_ready_def set_pc_def Let_def)
    show "no_sleep c (do_ready b s)"
      using winvD(4) [OF inv, of c] pc
      by (cases "c = b") (auto simp: no_sleep_def must_not_park_def do_ready_def set_pc_def)
  qed (use inv pc in \<open>cases b; auto simp: do_ready_def set_pc_def winv_def
      waiters_ok_def parked_on_def\<close>)+
qed

lemma leave_inv: "winv s \<Longrightarrow> w_pc s b = Resuming \<Longrightarrow> winv (do_leave b s)"
proof -
  assume inv: "winv s" and pc: "w_pc s b = Resuming"
  have "\<not> is_g (gpp (mode_of b) (w_pd s))"
    using winvD(3) [OF inv, of b] pc by (auto simp: sem_ok_def Let_def)
  then have dl: "do_leave b s = set_pc b Out (s\<lparr>w_pd := set_gpp (mode_of b) pdNil (w_pd s)\<rparr>)"
    by (simp add: do_leave_def netpollblock_leave_def is_g_def Let_def)
  show ?thesis
    unfolding dl
  proof (rule winvI)
    fix c
    show "sem_ok c (set_pc b Out (s\<lparr>w_pd := set_gpp (mode_of b) pdNil (w_pd s)\<rparr>))"
      using winvD(3) [OF inv, of c] by (auto simp: sem_ok_def set_pc_def)
    show "no_sleep c (set_pc b Out (s\<lparr>w_pd := set_gpp (mode_of b) pdNil (w_pd s)\<rparr>))"
      using winvD(4) [OF inv, of c] by (auto simp: no_sleep_def must_not_park_def set_pc_def)
  qed (use inv pc in \<open>cases b; auto simp: set_pc_def winv_def waiters_ok_def parked_on_def\<close>)+
qed

text \<open>
  \<open>netpollunblock\<close> keeps the invariant, and leaves its own mode with nobody parked and
  \<open>pdWait\<close> gone.
\<close>

lemma do_unblock_simps [simp]:
  "w_g (do_unblock b io s) = w_g s" "w_pending (do_unblock b io s) = w_pending s"
  "w_crashed (do_unblock b io s) = w_crashed s" "w_waiters (do_unblock b io s) = w_waiters s"
  "w_inc (do_unblock b io s) = w_inc s"
  "published (w_pd (do_unblock b io s)) = published (w_pd s)"
  "pd_closing (w_pd (do_unblock b io s)) = pd_closing (w_pd s)"
  "expired (w_pd (do_unblock b io s)) m = expired (w_pd s) m"
  by (simp_all add: do_unblock_def netpollunblock_cases set_pc_def Let_def)

lemma do_unblock_pc:
  assumes "winv s"
  shows "w_pc (do_unblock b io s) = (w_pc s)(b := if w_pc s b = Parked then Taken else w_pc s b)"
    and "c \<noteq> b \<Longrightarrow> gpp (mode_of c) (w_pd (do_unblock b io s)) = gpp (mode_of c) (w_pd s)"
    and "gpp (mode_of b) (w_pd (do_unblock b io s)) =
      (if io \<or> gpp (mode_of b) (w_pd s) = pdReady then pdReady else pdNil)"
    and "w_dec (do_unblock b io s) = w_dec s + bool_nat (w_pc s b = Parked)"
proof -
  have g: "is_g (gpp (mode_of b) (w_pd s)) \<longleftrightarrow> w_pc s b = Parked"
    using winvD(2,3) [OF assms, of b]
    by (cases "w_pc s b") (auto simp: sem_ok_def Let_def)
  have nz: "is_g v \<Longrightarrow> v \<noteq> 0" for v by (rule is_g_nonzero)
  have nready: "w_pc s b = Parked \<Longrightarrow> gpp (mode_of b) (w_pd s) \<noteq> pdReady \<and> gpp (mode_of b) (w_pd s) \<noteq> pdNil"
    using g by (auto simp: is_g_alt)
  show "w_pc (do_unblock b io s) = (w_pc s)(b := if w_pc s b = Parked then Taken else w_pc s b)"
    and "c \<noteq> b \<Longrightarrow> gpp (mode_of c) (w_pd (do_unblock b io s)) = gpp (mode_of c) (w_pd s)"
    and "gpp (mode_of b) (w_pd (do_unblock b io s)) =
      (if io \<or> gpp (mode_of b) (w_pd s) = pdReady then pdReady else pdNil)"
    and "w_dec (do_unblock b io s) = w_dec s + bool_nat (w_pc s b = Parked)"
    using g nz nready
    by (auto simp: do_unblock_def netpollunblock_cases set_pc_def Let_def)
qed

lemma do_unblock_inv:
  assumes inv: "winv s"
  shows "winv (do_unblock b io s)"
proof (rule winvI)
  fix c
  note pc = do_unblock_pc [OF inv]
  show "sem_ok c (do_unblock b io s)"
    using winvD(3) [OF inv, of c] pc(2) [of c b io]
    by (cases "c = b"; cases "w_pc s c") (auto simp: sem_ok_def pc(1,3) Let_def)
  show "no_sleep c (do_unblock b io s)"
    using winvD(4) [OF inv, of c] pc(2) [of c b io]
    by (cases "c = b") (auto simp: no_sleep_def must_not_park_def pc(1,3) split: if_splits)
next
  show "waiters_ok (do_unblock b io s)"
    using winvD(5) [OF inv] do_unblock_pc(1,4) [OF inv, of b io]
    by (cases b) (auto simp: waiters_ok_def parked_on_def)
qed (use inv in \<open>auto simp: winv_def\<close>)

text \<open>Storing a new deadline or the closing flag touches no semaphore.\<close>

lemma publish_inv:
  assumes inv: "winv s" and pub: "published pd" and same: "\<And>m. gpp m pd = gpp m (w_pd s)"
    and pend: "\<And>b. \<not> pend b \<Longrightarrow> pd_closing pd \<or> expired pd (mode_of b) \<Longrightarrow> must_not_park b s"
  shows "winv (s\<lparr>w_pd := pd, w_pending := pend\<rparr>)"
proof (rule winvI)
  fix c
  show "sem_ok c (s\<lparr>w_pd := pd, w_pending := pend\<rparr>)"
    using winvD(3) [OF inv, of c] by (simp add: sem_ok_def same)
  show "no_sleep c (s\<lparr>w_pd := pd, w_pending := pend\<rparr>)"
    using winvD(4) [OF inv, of c] pend [of c] by (auto simp: no_sleep_def must_not_park_def same)
qed (use inv pub in \<open>auto simp: winv_def waiters_ok_def parked_on_def\<close>)

lemma gpp_updates [simp]:
  "gpp m (pd\<lparr>pd_closing := c\<rparr>) = gpp m pd" "gpp m (pd\<lparr>pd_rd := d\<rparr>) = gpp m pd"
  "gpp m (pd\<lparr>pd_wd := d\<rparr>) = gpp m pd" "gpp m (pd\<lparr>pd_rseq := q\<rparr>) = gpp m pd"
  "gpp m (pd\<lparr>pd_wseq := q\<rparr>) = gpp m pd"
  by (simp_all add: gpp_def)

lemma expired_publishInfo [simp]: "expired (publishInfo pd) m = expired pd m"
  by (simp add: expired_def)

lemma wstep_inv: "wstep s t \<Longrightarrow> winv s \<Longrightarrow> winv t"
proof (induction rule: wstep.induct)
  case (reset s b)
  show ?case
  proof (rule winvI)
    fix c
    show "sem_ok c (s\<lparr>w_pd := set_gpp (mode_of b) pdNil (w_pd s)\<rparr>)"
      using winvD(3) [OF reset.prems, of c] reset.hyps by (auto simp: sem_ok_def Let_def)
    show "no_sleep c (s\<lparr>w_pd := set_gpp (mode_of b) pdNil (w_pd s)\<rparr>)"
      using winvD(4) [OF reset.prems, of c] by (auto simp: no_sleep_def must_not_park_def)
  qed (use reset in \<open>auto simp: winv_def waiters_ok_def parked_on_def\<close>)
next
  case (event_err s e seq)
  then show ?case
    by (simp add: winv_def sem_ok_def no_sleep_def must_not_park_def waiters_ok_def parked_on_def)
next
  case (close s)
  then show ?case by (intro publish_inv) auto
next
  case (set_deadline s pd rd wd)
  then show ?case by (intro publish_inv) auto
next
  case (timer s pd b)
  then show ?case
    by (intro publish_inv)
      (auto simp: must_not_park_def idle_lock_def expired_def mode_of_def split: if_splits)
next
  case (unblock s b)
  let ?t = "(do_unblock b False s)\<lparr>w_pending := (w_pending s)(b := False)\<rparr>"
  have inv: "winv (do_unblock b False s)" using unblock by (intro do_unblock_inv)
  show ?case
  proof (rule winvI)
    fix c
    show "sem_ok c ?t" using winvD(3) [OF inv, of c] by (simp add: sem_ok_def)
    show "no_sleep c ?t"
      using winvD(4) [OF inv, of c] do_unblock_pc [OF unblock.prems, of b False]
      by (cases "c = b") (auto simp: no_sleep_def must_not_park_def split: if_splits)
  qed (use inv in \<open>auto simp: winv_def waiters_ok_def parked_on_def\<close>)
qed (auto intro: enter_inv recheck_inv commit_inv leave_inv do_unblock_inv count_inv uncount_inv
    ready_inv)

lemma wstart_inv: "wstart s \<Longrightarrow> winv s"
  by (auto simp: wstart_def winv_def sem_ok_def no_sleep_def must_not_park_def open_desc_fresh
      expired_def gpp_def Let_def waiters_ok_def parked_on_def)

interpretation netp: step_invariant wstart wstep winv
  by unfold_locales (auto intro: wstart_inv wstep_inv)

section \<open>Properties\<close>

text \<open>
  C4. No missed wake-up in the poller. Under every interleaving of the waiting goroutines, of
  readiness, of closing, of deadlines and of timers: once a descriptor is closing or a
  deadline of a mode has expired, and the unblocking that goes with it has run, no goroutine
  is parked on that mode and none that is on its way will park; one that was taken off the
  semaphore can be made ready at once, and then leaves \<open>netpollblock\<close>.
\<close>

theorem netpoll_no_missed_wakeup:
  assumes "wstart s0" and "wstep\<^sup>*\<^sup>* s0 s" and "must_not_park b s"
  shows "w_pc s b \<noteq> Parked \<and> (w_pc s b = Committing \<longrightarrow> w_pc (do_commit b s) b \<noteq> Parked)
    \<and> (w_pc s b = Taken \<longrightarrow> wstep s (do_ready b s) \<and> w_pc (do_ready b s) b = Resuming)"
proof -
  have inv: "winv s" by (rule netp.reach_inv [OF assms(1,2)])
  have "w_pc s b = Taken \<longrightarrow> wstep s (do_ready b s) \<and> w_pc (do_ready b s) b = Resuming"
    using winvD(6) [OF inv] wstep.ready [of s b] by (simp add: do_ready_def set_pc_def)
  then show ?thesis
    using winvD(4) [OF inv, of b] assms(3) by (auto simp: no_sleep_def do_commit_def set_pc_def)
qed

text \<open>The reader of a fresh descriptor parks; then the descriptor is closed.\<close>

definition fresh_sys :: wsys where
  "fresh_sys = \<lparr>w_pd = open_desc 4096 7 zero_pd, w_pc = (\<lambda>_. Out), w_g = (\<lambda>_. 8192),
     w_pending = (\<lambda>_. False), w_waiters = 0, w_inc = 0, w_dec = 0, w_crashed = False\<rparr>"

definition parked_sys :: wsys where
  "parked_sys = do_commit True (do_recheck True (do_enter True fresh_sys))"

definition counted_sys :: wsys where
  "counted_sys = do_count parked_sys"

definition publish_close :: "wsys \<Rightarrow> wsys" where
  "publish_close s =
     s\<lparr>w_pd := publishInfo ((w_pd s)\<lparr>pd_closing := True, pd_rseq := pd_rseq (w_pd s) + 1,
                 pd_wseq := pd_wseq (w_pd s) + 1\<rparr>),
       w_pending := (\<lambda>_. True)\<rparr>"

definition finish_unblock :: "bool \<Rightarrow> wsys \<Rightarrow> wsys" where
  "finish_unblock b s = (do_unblock b False s)\<lparr>w_pending := (w_pending s)(b := False)\<rparr>"

definition evicted_sys :: wsys where
  "evicted_sys = finish_unblock True (publish_close counted_sys)"

lemma fresh_start: "wstart fresh_sys"
  by (auto simp: wstart_def fresh_sys_def is_g_def pd_consts)

lemma parked_reach: "wstep\<^sup>*\<^sup>* fresh_sys parked_sys"
proof -
  have "wstep fresh_sys (do_enter True fresh_sys)"
    by (intro wstep.enter) (simp_all add: fresh_sys_def)
  moreover have "\<not> w_crashed (do_enter True fresh_sys) \<and> w_pc (do_enter True fresh_sys) True = Announced"
    by code_simp
  then have "wstep (do_enter True fresh_sys) (do_recheck True (do_enter True fresh_sys))"
    by (intro wstep.recheck) simp_all
  moreover have "\<not> w_crashed (do_recheck True (do_enter True fresh_sys))
      \<and> w_pc (do_recheck True (do_enter True fresh_sys)) True = Committing"
    by code_simp
  then have "wstep (do_recheck True (do_enter True fresh_sys)) parked_sys"
    unfolding parked_sys_def by (intro wstep.commit) simp_all
  ultimately show ?thesis by (meson converse_rtranclp_into_rtranclp rtranclp.rtrancl_refl)
qed

lemma counted_reach: "wstep\<^sup>*\<^sup>* fresh_sys counted_sys"
proof -
  have "\<not> w_crashed parked_sys" "0 < w_inc parked_sys" by code_simp+
  then have "wstep parked_sys counted_sys" unfolding counted_sys_def by (rule wstep.count)
  then show ?thesis using parked_reach by (meson rtranclp.rtrancl_into_rtrancl)
qed

lemma evicted_reach: "wstep\<^sup>*\<^sup>* fresh_sys evicted_sys"
proof -
  have "\<not> w_crashed counted_sys \<and> \<not> w_pending counted_sys True \<and> \<not> w_pending counted_sys False
      \<and> \<not> pd_closing (w_pd counted_sys)" by code_simp
  then have "wstep counted_sys (publish_close counted_sys)"
    unfolding publish_close_def by (intro wstep.close) (simp_all add: idle_lock_def)
  moreover have "\<not> w_crashed (publish_close counted_sys) \<and> w_pending (publish_close counted_sys) True"
    by code_simp
  then have "wstep (publish_close counted_sys) evicted_sys"
    unfolding evicted_sys_def finish_unblock_def by (intro wstep.unblock) simp_all
  ultimately show ?thesis using counted_reach by (meson rtranclp.rtrancl_into_rtrancl)
qed

theorem netpoll_no_missed_wakeup_witness:
  "must_not_park True evicted_sys \<and> w_pc parked_sys True = Parked \<and> w_pc evicted_sys True \<noteq> Parked"
proof -
  have h: "must_not_park True evicted_sys" "w_pc parked_sys True = Parked" by code_simp+
  then show ?thesis using netpoll_no_missed_wakeup [OF fresh_start evicted_reach h(1)] by blast
qed



end
