(* ===== verification/TaggedPtr.thy ===== *)
theory TaggedPtr
  imports GoPrelude
begin

text \<open>
  \<^verbatim>\<open>runtime/tagptr.go\<close> and \<^verbatim>\<open>runtime/tagptr_64bit.go\<close>: a pointer and a numeric tag packed
  into one 64-bit word. The network poller hands such words to the kernel as the data of an
  epoll registration; the tag is the descriptor's sequence number, which tells a stale
  notification from a current one. \<^verbatim>\<open>runtime/tagptr_32bit.go\<close> is the same for the 32-bit
  platforms, where both halves fit whole.
\<close>

text \<open>The platforms the source distinguishes by \<open>GOOS\<close> and \<open>GOARCH\<close>.\<close>

datatype platform = Aix_ppc64 | Aix_other | Riscv64 | Amd64 | Other64

definition addrBits :: nat where "addrBits = 48"
definition tagBits :: nat where "tagBits = 64 - addrBits + 3"
definition aixAddrBits :: nat where "aixAddrBits = 57"
definition aixTagBits :: nat where "aixTagBits = 64 - aixAddrBits + 3"
definition riscv64AddrBits :: nat where "riscv64AddrBits = 56"
definition riscv64TagBits :: nat where "riscv64TagBits = 64 - riscv64AddrBits + 3"

lemmas tag_consts = addrBits_def tagBits_def aixAddrBits_def aixTagBits_def
  riscv64AddrBits_def riscv64TagBits_def

definition taggedPointerBits :: "platform \<Rightarrow> nat" where
  "taggedPointerBits p =
     (let isAix = bool_nat (p = Aix_ppc64 \<or> p = Aix_other); isRiscv64 = bool_nat (p = Riscv64) in
      isAix * aixTagBits + isRiscv64 * riscv64TagBits + (1 - isAix) * (1 - isRiscv64) * tagBits)"

definition taggedPointerPack :: "platform \<Rightarrow> uintptr \<Rightarrow> uintptr \<Rightarrow> u64 outcome" where
  "taggedPointerPack p ptr tag =
     (case p of
        Aix_other \<Rightarrow> Panic ''check this code for aix on non-ppc64''
      | Aix_ppc64 \<Rightarrow> Ret (push_bit (64 - aixAddrBits) ptr OR (tag AND (push_bit aixTagBits 1 - 1)))
      | Riscv64 \<Rightarrow>
          Ret (push_bit (64 - riscv64AddrBits) ptr OR (tag AND (push_bit riscv64TagBits 1 - 1)))
      | _ \<Rightarrow> Ret (push_bit (64 - addrBits) ptr OR (tag AND (push_bit tagBits 1 - 1))))"

text \<open>\<open>>>\<close> of an \<open>int64\<close> is the arithmetic shift, of a \<open>uint64\<close> the logical one.\<close>

definition tp_pointer :: "platform \<Rightarrow> u64 \<Rightarrow> uintptr" where
  "tp_pointer p tp =
     (case p of
        Amd64 \<Rightarrow> push_bit 3 (signed_drop_bit tagBits tp)
      | Aix_ppc64 \<Rightarrow> push_bit 3 (drop_bit aixTagBits tp) OR push_bit 56 0xa
      | Aix_other \<Rightarrow> push_bit 3 (drop_bit aixTagBits tp) OR push_bit 56 0xa
      | Riscv64 \<Rightarrow> push_bit 3 (drop_bit riscv64TagBits tp)
      | Other64 \<Rightarrow> push_bit 3 (drop_bit tagBits tp))"

definition tp_tag :: "platform \<Rightarrow> u64 \<Rightarrow> uintptr" where
  "tp_tag p tp = tp AND (push_bit (taggedPointerBits p) 1 - 1)"

text \<open>The 32-bit platforms: \<open>uintptr\<close> has 32 bits there.\<close>

definition taggedPointerPack32 :: "u32 \<Rightarrow> u32 \<Rightarrow> u64" where
  "taggedPointerPack32 ptr tag = push_bit 32 (ucast ptr) OR ucast tag"

definition tp_pointer32 :: "u64 \<Rightarrow> u32" where
  "tp_pointer32 tp = ucast (drop_bit 32 tp)"

definition tp_tag32 :: "u64 \<Rightarrow> u32" where
  "tp_tag32 tp = ucast tp"

text \<open>
  The pointers that survive: 8-byte aligned, and 48 bits wide (on amd64: 48 bits
  sign-extended, which leaves out the 57-bit addresses of five-level paging; elsewhere: below
  \<open>2 ^ 48\<close>, which leaves out the high addresses of s390x), 56 bits wide on riscv64, in the mmap
  segments on AIX.
\<close>

definition canonical :: "platform \<Rightarrow> uintptr \<Rightarrow> bool" where
  "canonical p ptr \<longleftrightarrow> take_bit 3 ptr = 0 \<and>
     (case p of
        Amd64 \<Rightarrow> signed_take_bit 47 ptr = ptr
      | Other64 \<Rightarrow> drop_bit addrBits ptr = 0
      | Riscv64 \<Rightarrow> drop_bit riscv64AddrBits ptr = 0
      | _ \<Rightarrow> drop_bit aixAddrBits ptr = 5)"

lemma sub_one_mask: "push_bit n 1 - 1 = (mask n :: u64)"
  by (simp add: mask_eq_exp_minus_1)

lemma taggedPointerBits_eq:
  "taggedPointerBits Amd64 = 19" "taggedPointerBits Other64 = 19" "taggedPointerBits Riscv64 = 11"
  "taggedPointerBits Aix_ppc64 = 10" "taggedPointerBits Aix_other = 10"
  by (simp_all add: taggedPointerBits_def tag_consts)

definition pack_word :: "nat \<Rightarrow> uintptr \<Rightarrow> uintptr \<Rightarrow> u64" where
  "pack_word a ptr tag = push_bit a ptr OR take_bit (a + 3) tag"

lemma pack_word_bit:
  assumes "take_bit 3 ptr = 0"
  shows "bit (pack_word a ptr tag) n \<longleftrightarrow>
    n < 64 \<and> (if n < a + 3 then bit tag n else bit ptr (n - a))"
proof -
  have "\<not> bit ptr k" if "k < 3" for k
    using assms that bit_take_bit_iff [of 3 ptr k] by simp
  then have "\<not> bit ptr (n - a)" if "a \<le> n" "n < a + 3" using that by simp
  then show ?thesis
    by (auto simp: pack_word_def bit_or_iff bit_push_bit_iff bit_take_bit_iff
        dest: bit_imp_le_length)
qed

lemma taggedPointerPack_word:
  "p \<noteq> Aix_other \<Longrightarrow>
   taggedPointerPack p ptr tag = Ret (pack_word (taggedPointerBits p - 3) ptr tag)"
  unfolding taggedPointerPack_def sub_one_mask
  by (cases p) (simp_all add: pack_word_def take_bit_eq_mask taggedPointerBits_eq tag_consts)

lemma tp_tag_pack:
  assumes "take_bit 3 ptr = 0" and "b = a + 3"
  shows "pack_word a ptr tag AND mask b = take_bit b tag"
  by (rule bit_word_eqI)
    (auto simp: bit_and_iff pack_word_bit [OF assms(1)] bit_mask_iff bit_take_bit_iff assms(2))

lemma drop_pack:
  assumes "take_bit 3 ptr = 0"
  shows "bit (push_bit 3 (drop_bit (a + 3) (pack_word a ptr tag))) n
    \<longleftrightarrow> n < 64 \<and> n + a < 64 \<and> bit ptr n"
proof (cases "n < 3")
  case True
  then have "\<not> bit ptr n" using assms bit_take_bit_iff [of 3 ptr n] by simp
  with True show ?thesis by (simp add: bit_push_bit_iff)
next
  case False
  then show ?thesis
    by (auto simp: bit_push_bit_iff bit_drop_bit_eq pack_word_bit [OF assms] algebra_simps
        dest: bit_imp_le_length)
qed

lemma high_bits: "drop_bit k ptr = c \<Longrightarrow> bit ptr (k + n) = bit c n"
  by (auto simp: bit_drop_bit_eq)

lemma tp_pointer_low:
  assumes "take_bit 3 ptr = 0" and "drop_bit (64 - a) ptr = 0" and "a \<le> 64"
  shows "push_bit 3 (drop_bit (a + 3) (pack_word a ptr tag)) = ptr"
proof (rule bit_word_eqI)
  fix n
  have "bit ptr n \<Longrightarrow> n < 64 - a"
    using high_bits [OF assms(2), of "n - (64 - a)"] by (cases "64 - a \<le> n") auto
  then show "bit (push_bit 3 (drop_bit (a + 3) (pack_word a ptr tag))) n = bit ptr n"
    using assms(3) by (auto simp: drop_pack [OF assms(1)] dest: bit_imp_le_length)
qed

lemma tp_pointer_amd64:
  assumes "take_bit 3 ptr = 0" and "signed_take_bit 47 ptr = ptr"
  shows "push_bit 3 (signed_drop_bit 19 (pack_word 16 ptr tag)) = ptr"
proof (rule bit_word_eqI)
  fix n
  assume n: "n < LENGTH(64)"
  have low: "\<not> bit ptr n" if "n < 3"
    using that assms(1) bit_take_bit_iff [of 3 ptr n] by simp
  consider "n < 3" | "3 \<le> n" "n < 48" | "48 \<le> n" by linarith
  then show "bit (push_bit 3 (signed_drop_bit 19 (pack_word 16 ptr tag))) n = bit ptr n"
  proof cases
    case 1
    with low show ?thesis by (simp add: bit_push_bit_iff)
  next
    case 2
    then have "\<not> 45 \<le> n - 3" by linarith
    with 2 show ?thesis
      by (simp add: bit_push_bit_iff bit_signed_drop_bit_iff pack_word_bit [OF assms(1)])
  next
    case 3
    then have "bit (signed_take_bit 47 ptr) n = bit ptr 47"
      using n by (simp add: bit_signed_take_bit_iff)
    then have "bit ptr n = bit ptr 47" by (simp only: assms(2))
    moreover have "45 \<le> n - 3 \<and> n - 3 < 64" using 3 n by auto
    ultimately show ?thesis using 3 n
      by (simp add: bit_push_bit_iff bit_signed_drop_bit_iff pack_word_bit [OF assms(1)])
  qed
qed

lemma bits_5_10:
  "bit (5 :: u64) n \<longleftrightarrow> n = 0 \<or> n = 2" "bit (0xa :: u64) n \<longleftrightarrow> n = 1 \<or> n = 3"
proof -
  have "(5 :: u64) = 2 ^ 0 OR 2 ^ 2" "(0xa :: u64) = 2 ^ 1 OR 2 ^ 3" by simp_all
  then show "bit (5 :: u64) n \<longleftrightarrow> n = 0 \<or> n = 2" "bit (0xa :: u64) n \<longleftrightarrow> n = 1 \<or> n = 3"
    unfolding bit_or_iff bit_exp_iff by (simp_all only: bit_or_iff bit_exp_iff) auto
qed

lemma tp_pointer_aix:
  assumes "take_bit 3 ptr = 0" and "drop_bit 57 ptr = 5"
  shows "push_bit 3 (drop_bit 10 (pack_word 7 ptr tag)) OR push_bit 56 0xa = ptr"
proof (rule bit_word_eqI)
  fix n
  assume n: "n < LENGTH(64)"
  have "bit (push_bit 56 0xa :: u64) n \<longleftrightarrow> 56 \<le> n \<and> n < 64 \<and> bit (0xa :: u64) (n - 56)"
    by (simp only: bit_push_bit_iff possible_bit_word) simp
  then have hi: "bit (push_bit 56 0xa :: u64) n \<longleftrightarrow> n = 57 \<or> n = 59"
    unfolding bits_5_10 by auto
  have "bit ptr n \<longleftrightarrow> n = 57 \<or> n = 59" if "57 \<le> n"
  proof -
    have "bit ptr n = bit (5 :: u64) (n - 57)" using that high_bits [OF assms(2), of "n - 57"] by simp
    then show ?thesis unfolding bits_5_10 using that by auto
  qed
  then show "bit (push_bit 3 (drop_bit 10 (pack_word 7 ptr tag)) OR push_bit 56 0xa) n = bit ptr n"
    using n drop_pack [OF assms(1), of 7 tag n] hi by (simp only: bit_or_iff) auto
qed

text \<open>Every platform's pack and unpack are inverse on its canonical pointers.\<close>

lemma pack_pointer:
  assumes "canonical p ptr" and "taggedPointerPack p ptr tag = Ret tp"
  shows "tp_pointer p tp = ptr"
proof -
  have "p \<noteq> Aix_other" using assms(2) by (auto simp: taggedPointerPack_def)
  with assms(2) have tp: "tp = pack_word (taggedPointerBits p - 3) ptr tag"
    by (simp add: taggedPointerPack_word)
  have al: "take_bit 3 ptr = 0" using assms(1) by (simp add: canonical_def)
  show ?thesis
    using assms(1) \<open>p \<noteq> Aix_other\<close> tp_pointer_amd64 [OF al] tp_pointer_aix [OF al]
      tp_pointer_low [OF al, of 16] tp_pointer_low [OF al, of 8]
    by (cases p) (simp_all add: tp tp_pointer_def canonical_def taggedPointerBits_eq tag_consts)
qed

lemma pack_tag:
  assumes al: "take_bit 3 ptr = 0" and "taggedPointerPack p ptr tag = Ret tp"
  shows "tp_tag p tp = take_bit (taggedPointerBits p) tag"
proof -
  have "p \<noteq> Aix_other" using assms(2) by (auto simp: taggedPointerPack_def)
  with assms(2) have tp: "tp = pack_word (taggedPointerBits p - 3) ptr tag"
    by (simp add: taggedPointerPack_word)
  have "3 \<le> taggedPointerBits p" by (cases p) (simp_all add: taggedPointerBits_eq)
  then show ?thesis
    unfolding tp_tag_def sub_one_mask tp by (intro tp_tag_pack [OF al]) simp
qed

lemma bit_pack32:
  "bit (taggedPointerPack32 ptr tag) n \<longleftrightarrow> n < 64 \<and> (if n < 32 then bit tag n else bit ptr (n - 32))"
  by (auto simp: taggedPointerPack32_def bit_or_iff bit_push_bit_iff bit_ucast_iff
      dest: bit_imp_le_length)

lemma pack32_pointer: "tp_pointer32 (taggedPointerPack32 ptr tag) = ptr"
  by (rule bit_word_eqI) (simp add: tp_pointer32_def bit_ucast_iff bit_drop_bit_eq bit_pack32)

lemma pack32_tag: "tp_tag32 (taggedPointerPack32 ptr tag) = tag"
  by (rule bit_word_eqI) (simp add: tp_tag32_def bit_ucast_iff bit_pack32)

text \<open>What \<open>pointer\<close> returns is canonical whatever the word is, so no other pointer survives.\<close>

lemma unpack_aligned: "take_bit 3 (push_bit 3 x OR push_bit 56 y :: u64) = 0"
  by (rule bit_word_eqI) (auto simp: bit_take_bit_iff bit_or_iff bit_push_bit_iff)

lemma unpack_low:
  assumes "k = 67 - b" and "3 \<le> b" "b \<le> 64"
  shows "drop_bit k (push_bit 3 (drop_bit b tp) :: u64) = 0"
  by (rule bit_word_eqI)
    (use assms in \<open>auto simp: bit_drop_bit_eq bit_push_bit_iff dest: bit_imp_le_length\<close>)

lemma unpack_amd64:
  "signed_take_bit 47 (push_bit 3 (signed_drop_bit 19 tp) :: u64) = push_bit 3 (signed_drop_bit 19 tp)"
proof (rule bit_word_eqI)
  fix n :: nat
  consider "n < 47" | "n = 47" | "47 < n" "45 \<le> n - 3" by linarith
  then show "bit (signed_take_bit 47 (push_bit 3 (signed_drop_bit 19 tp) :: u64)) n
    = bit (push_bit 3 (signed_drop_bit 19 tp) :: u64) n"
    by cases (auto simp: bit_signed_take_bit_iff bit_push_bit_iff bit_signed_drop_bit_iff min_def)
qed

lemma unpack_aix: "drop_bit 57 (push_bit 3 (drop_bit 10 tp) OR push_bit 56 0xa :: u64) = 5"
proof -
  have "drop_bit 57 (push_bit 3 (drop_bit 10 tp) :: u64) = 0" by (rule unpack_low) simp_all
  then show ?thesis by (simp add: drop_bit_or)
qed

lemma tp_pointer_canonical: "canonical p (tp_pointer p tp)"
  using unpack_aligned [of _ "0"] unpack_aligned [of _ "0xa"] unpack_amd64 [of tp] unpack_aix [of tp]
    unpack_low [of 48 19 tp] unpack_low [of 56 11 tp]
  by (cases p) (simp_all add: canonical_def tp_pointer_def tag_consts)

section \<open>Properties\<close>

text \<open>
  C13. Which pointers survive a tagged pointer. On every 64-bit platform of the source (AIX on
  anything but ppc64 throws instead) the packed word gives back the pointer exactly when the
  pointer is 8-byte aligned and within the width the platform packs: 48 bits, sign-extended on
  amd64, so not a 57-bit address; below \<open>2 ^ 48\<close> elsewhere, so not an s390x address above that;
  56 bits on riscv64; the mmap segments on AIX. The tag of every aligned pointer comes back
  modulo \<open>2 ^ taggedPointerBits\<close>. On the 32-bit platforms every pointer and every tag survive.
\<close>

theorem tagged_pointer_roundtrip:
  "(p \<noteq> Aix_other \<longrightarrow> (\<exists>tp. taggedPointerPack p ptr tag = Ret tp
      \<and> (tp_pointer p tp = ptr \<longleftrightarrow> canonical p ptr)
      \<and> (take_bit 3 ptr = 0 \<longrightarrow> tp_tag p tp = take_bit (taggedPointerBits p) tag)))
    \<and> (p = Aix_other \<longrightarrow> (\<exists>msg. taggedPointerPack p ptr tag = Panic msg))
    \<and> tp_pointer32 (taggedPointerPack32 ptr4 tag4) = ptr4
    \<and> tp_tag32 (taggedPointerPack32 ptr4 tag4) = tag4"
proof (intro conjI impI)
  assume p: "p \<noteq> Aix_other"
  then obtain tp where tp: "taggedPointerPack p ptr tag = Ret tp"
    by (cases p) (simp_all add: taggedPointerPack_def)
  have "tp_pointer p tp = ptr \<longleftrightarrow> canonical p ptr"
    using pack_pointer [OF _ tp] tp_pointer_canonical [of p tp] by auto
  then show "\<exists>tp. taggedPointerPack p ptr tag = Ret tp
      \<and> (tp_pointer p tp = ptr \<longleftrightarrow> canonical p ptr)
      \<and> (take_bit 3 ptr = 0 \<longrightarrow> tp_tag p tp = take_bit (taggedPointerBits p) tag)"
    using tp pack_tag [OF _ tp] by blast
qed (simp_all add: taggedPointerPack_def pack32_pointer pack32_tag)

theorem tagged_pointer_roundtrip_witness:
  "(\<exists>tp. taggedPointerPack Amd64 0xFFFF800000001000 7 = Ret tp
     \<and> tp_pointer Amd64 tp = 0xFFFF800000001000 \<and> tp_tag Amd64 tp = take_bit (taggedPointerBits Amd64) 7)
   \<and> (\<exists>tp. taggedPointerPack Amd64 0x0010000000001000 7 = Ret tp
     \<and> tp_pointer Amd64 tp \<noteq> 0x0010000000001000)"
proof -
  have al: "take_bit 3 (0xFFFF800000001000 :: uintptr) = 0" by simp
  have "signed_take_bit 47 (0xFFFF800000001000 :: uintptr) = 0xFFFF800000001000" by code_simp
  with al have yes: "canonical Amd64 0xFFFF800000001000" by (simp add: canonical_def)
  have "signed_take_bit 47 (0x0010000000001000 :: uintptr) \<noteq> 0x0010000000001000" by code_simp
  then have no: "\<not> canonical Amd64 0x0010000000001000" by (simp add: canonical_def)
  show ?thesis
    using tagged_pointer_roundtrip [of Amd64 "0xFFFF800000001000" 7] al yes
      tagged_pointer_roundtrip [of Amd64 "0x0010000000001000" 7] no by auto
qed

end
