(* ===== verification/NetpollEpoll.thy ===== *)
theory NetpollEpoll
  imports Netpoll TaggedPtr
begin

text \<open>
  \<^verbatim>\<open>runtime/netpoll_epoll.go\<close>: the Linux implementation of the poller. The kernel is a
  parameter: what its calls return is an argument of the functions that make them, and the
  requests made of \<open>epoll_ctl\<close> are kept in a log.
\<close>

section \<open>State, constants and the kernel\<close>

definition EPOLLIN :: u32 where "EPOLLIN = 0x1"
definition EPOLLOUT :: u32 where "EPOLLOUT = 0x4"
definition EPOLLERR :: u32 where "EPOLLERR = 0x8"
definition EPOLLHUP :: u32 where "EPOLLHUP = 0x10"
definition EPOLLRDHUP :: u32 where "EPOLLRDHUP = 0x2000"
definition EPOLLET :: u32 where "EPOLLET = 0x80000000"
definition EINTR :: int where "EINTR = 4"
definition EAGAIN :: int where "EAGAIN = 11"

lemmas epoll_consts = EPOLLIN_def EPOLLOUT_def EPOLLERR_def EPOLLHUP_def EPOLLRDHUP_def EPOLLET_def

datatype ctl = CtlAdd uintptr u32 u64 | CtlDel uintptr

record epoll = netpoll +
  ep_fd :: int
  ep_breakRd :: uintptr
  ep_breakWr :: uintptr
  ep_wakeSig :: u32
  ep_ctl :: "ctl list"

text \<open>
  What the system calls answer: \<open>epoll_create1\<close> and the pipe with their errno, \<open>epoll_ctl\<close>
  with an errno for each request; and the address of the variable \<open>netpollBreakRd\<close>, which
  serves as the data of the pipe's registration.
\<close>

record kernel =
  k_create :: "int \<times> int"
  k_pipe :: "uintptr \<times> uintptr \<times> int"
  k_ctl :: "ctl \<Rightarrow> int"
  k_breakAddr :: u64

definition EpollCtl :: "kernel \<Rightarrow> ctl \<Rightarrow> epoll \<Rightarrow> epoll \<times> int" where
  "EpollCtl k c ep = (ep\<lparr>ep_ctl := ep_ctl ep @ [c]\<rparr>, k_ctl k c)"

section \<open>Initialization and registration\<close>

definition netpollinit :: "kernel \<Rightarrow> epoll \<Rightarrow> epoll \<times> unit outcome" where
  "netpollinit k ep =
     (let (fd, errno) = k_create k; ep = ep\<lparr>ep_fd := fd\<rparr> in
      if errno \<noteq> 0 then (ep, Panic ''runtime: netpollinit failed'')
      else let (r, w, errpipe) = k_pipe k in
        if errpipe \<noteq> 0 then (ep, Panic ''runtime: pipe failed'')
        else let (ep, errno) = EpollCtl k (CtlAdd r EPOLLIN (k_breakAddr k)) ep in
          if errno \<noteq> 0 then (ep, Panic ''runtime: epollctl failed'')
          else (ep\<lparr>ep_breakRd := r, ep_breakWr := w\<rparr>, Ret ()))"

definition netpollIsPollDescriptor :: "uintptr \<Rightarrow> epoll \<Rightarrow> bool" where
  "netpollIsPollDescriptor fd ep \<longleftrightarrow>
     fd = word_of_int (ep_fd ep) \<or> fd = ep_breakRd ep \<or> fd = ep_breakWr ep"

definition poll_runtime_isPollServerDescriptor :: "uintptr \<Rightarrow> epoll \<Rightarrow> bool" where
  "poll_runtime_isPollServerDescriptor fd ep = netpollIsPollDescriptor fd ep"

definition netpollopen :: "platform \<Rightarrow> kernel \<Rightarrow> uintptr \<Rightarrow> uintptr \<Rightarrow> epoll \<Rightarrow> epoll \<times> int outcome" where
  "netpollopen plat k fd p ep =
     (let events = EPOLLIN OR EPOLLOUT OR EPOLLRDHUP OR EPOLLET in
      case taggedPointerPack plat p (pd_fdseq (np_pd ep p)) of
        Ret tp \<Rightarrow> (let (ep, errno) = EpollCtl k (CtlAdd fd events tp) ep in (ep, Ret errno))
      | Panic m \<Rightarrow> (ep, Panic m)
      | Blocked \<Rightarrow> (ep, Blocked))"

definition netpollclose :: "kernel \<Rightarrow> uintptr \<Rightarrow> epoll \<Rightarrow> epoll \<times> int" where
  "netpollclose k fd ep = EpollCtl k (CtlDel fd) ep"

definition netpollarm :: "uintptr \<Rightarrow> int \<Rightarrow> epoll \<Rightarrow> epoll \<times> unit outcome" where
  "netpollarm p mode ep = (ep, Panic ''runtime: unused'')"

section \<open>Interrupting a wait\<close>

text \<open>The answers of \<open>write\<close> to the pipe, in turn.\<close>

fun netpollBreak_loop :: "int list \<Rightarrow> unit outcome" where
  "netpollBreak_loop [] = Blocked"
| "netpollBreak_loop (n # ns) =
     (if n = 1 then Ret ()
      else if n = - EINTR then netpollBreak_loop ns
      else if n = - EAGAIN then Ret ()
      else Panic ''runtime: netpollBreak write failed'')"

definition netpollBreak :: "int list \<Rightarrow> epoll \<Rightarrow> epoll \<times> unit outcome" where
  "netpollBreak writes ep =
     (if ep_wakeSig ep \<noteq> 0 then (ep, Ret ())
      else (ep\<lparr>ep_wakeSig := 1\<rparr>, netpollBreak_loop writes))"

section \<open>Polling\<close>

definition wait_ms :: "int \<Rightarrow> int" where
  "wait_ms delay =
     (if delay < 0 then -1
      else if delay = 0 then 0
      else if delay < 10 ^ 6 then 1
      else if delay < 10 ^ 15 then delay div 10 ^ 6
      else 10 ^ 9)"

definition event_mode :: "u32 \<Rightarrow> int" where
  "event_mode ev =
     (if ev AND (EPOLLIN OR EPOLLRDHUP OR EPOLLHUP OR EPOLLERR) \<noteq> 0 then mode_r else 0)
     + (if ev AND (EPOLLOUT OR EPOLLHUP OR EPOLLERR) \<noteq> 0 then mode_w else 0)"

text \<open>An event is its bits and its data.\<close>

type_synonym epoll_event = "u32 \<times> u64"

definition handle_event :: "platform \<Rightarrow> kernel \<Rightarrow> int \<Rightarrow> epoll_event \<Rightarrow> uintptr list \<Rightarrow> int \<Rightarrow> epoll
    \<Rightarrow> epoll \<times> (uintptr list \<times> int) outcome" where
  "handle_event plat k delay e toRun delta ep =
     (let (ev, data) = e in
      if ev = 0 then (ep, Ret (toRun, delta))
      else if data = k_breakAddr k then
        (if ev \<noteq> EPOLLIN then (ep, Panic ''runtime: netpoll: break fd ready for something unexpected'')
         else if delay \<noteq> 0 then (ep\<lparr>ep_wakeSig := 0\<rparr>, Ret (toRun, delta))
         else (ep, Ret (toRun, delta)))
      else
        let mode = event_mode ev in
        if mode \<noteq> 0 then
          (let p = tp_pointer plat data; tag = tp_tag plat data; pd = np_pd ep p in
           if pd_fdseq pd = tag then
             (let pd = setEventErr (ev = EPOLLERR) tag pd;
                  (toRun, pd, d) = netpollready toRun pd mode
              in (set_pd p pd ep, Ret (toRun, delta + d)))
           else (ep, Ret (toRun, delta)))
        else (ep, Ret (toRun, delta)))"

fun handle_events :: "platform \<Rightarrow> kernel \<Rightarrow> int \<Rightarrow> epoll_event list \<Rightarrow> uintptr list \<Rightarrow> int \<Rightarrow> epoll
    \<Rightarrow> epoll \<times> (uintptr list \<times> int) outcome" where
  "handle_events plat k delay [] toRun delta ep = (ep, Ret (toRun, delta))"
| "handle_events plat k delay (e # es) toRun delta ep =
     (case handle_event plat k delay e toRun delta ep of
        (ep', Ret r) \<Rightarrow> handle_events plat k delay es (fst r) (snd r) ep'
      | (ep', Panic m) \<Rightarrow> (ep', Panic m)
      | (ep', Blocked) \<Rightarrow> (ep', Blocked))"

text \<open>What \<open>epoll_wait\<close> answers, in turn: some events, or an errno.\<close>

datatype wait_answer = Events "epoll_event list" | Errno int

fun netpoll_retry :: "platform \<Rightarrow> kernel \<Rightarrow> int \<Rightarrow> wait_answer list \<Rightarrow> epoll
    \<Rightarrow> epoll \<times> (uintptr list \<times> int) outcome" where
  "netpoll_retry plat k delay [] ep = (ep, Blocked)"
| "netpoll_retry plat k delay (Errno errno # as) ep =
     (if errno \<noteq> EINTR then (ep, Panic ''runtime: netpoll failed'')
      else if wait_ms delay > 0 then (ep, Ret ([], 0))
      else netpoll_retry plat k delay as ep)"
| "netpoll_retry plat k delay (Events es # as) ep = handle_events plat k delay es [] 0 ep"

definition netpoll :: "platform \<Rightarrow> kernel \<Rightarrow> int \<Rightarrow> wait_answer list \<Rightarrow> epoll
    \<Rightarrow> epoll \<times> (uintptr list \<times> int) outcome" where
  "netpoll plat k delay answers ep =
     (if ep_fd ep = -1 then (ep, Ret ([], 0)) else netpoll_retry plat k delay answers ep)"

section \<open>What a poll returns\<close>

lemma netpollready_new:
  assumes "netpollready toRun pd mode = (toRun', pd', d)"
  obtains new where "toRun' = new @ toRun" and "d = - int (length new)"
    and "\<And>g. g \<in> set new \<Longrightarrow> is_g g \<and> g \<in> set (parked pd)"
proof -
  let ?rs = "if (mode = mode_r \<or> mode = mode_rw) \<and> is_g (pd_rg pd) then [pd_rg pd] else []"
  let ?ws = "if (mode = mode_w \<or> mode = mode_rw) \<and> is_g (pd_wg pd) then [pd_wg pd] else []"
  have nz: "is_g (pd_rg pd) \<Longrightarrow> pd_rg pd \<noteq> 0" "is_g (pd_wg pd) \<Longrightarrow> pd_wg pd \<noteq> 0"
    by (auto dest: is_g_nonzero)
  have "toRun' = (?ws @ ?rs) @ toRun \<and> d = - int (length (?ws @ ?rs))"
    using assms nz by (auto simp: netpollready_def netpollunblock_cases gpp_modes set_gpp_def Let_def
        split: if_splits)
  moreover have "g \<in> set (?ws @ ?rs) \<Longrightarrow> is_g g \<and> g \<in> set (parked pd)" for g
    by (auto simp: parked_def split: if_splits)
  ultimately show thesis using that by blast
qed

lemma netpollready_sems:
  assumes "netpollready toRun pd mode = (toRun', pd', d)"
  shows "mode = mode_r \<or> mode = mode_rw \<Longrightarrow> pd_rg pd' = pdReady \<and> (is_g (pd_rg pd) \<longrightarrow> pd_rg pd \<in> set toRun')"
    and "mode = mode_w \<or> mode = mode_rw \<Longrightarrow> pd_wg pd' = pdReady \<and> (is_g (pd_wg pd) \<longrightarrow> pd_wg pd \<in> set toRun')"
proof -
  have nz: "is_g (pd_rg pd) \<Longrightarrow> pd_rg pd \<noteq> 0" "is_g (pd_wg pd) \<Longrightarrow> pd_wg pd \<noteq> 0"
    by (auto dest: is_g_nonzero)
  show "pd_rg pd' = pdReady \<and> (is_g (pd_rg pd) \<longrightarrow> pd_rg pd \<in> set toRun')"
    if "mode = mode_r \<or> mode = mode_rw"
    using assms nz that
    by (auto simp: netpollready_def netpollunblock_cases gpp_modes set_gpp_def Let_def split: if_splits)
  show "pd_wg pd' = pdReady \<and> (is_g (pd_wg pd) \<longrightarrow> pd_wg pd \<in> set toRun')"
    if "mode = mode_w \<or> mode = mode_rw"
    using assms nz that
    by (auto simp: netpollready_def netpollunblock_cases gpp_modes set_gpp_def Let_def split: if_splits)
qed

text \<open>The change of the waiter count is the number of goroutines to run.\<close>

definition counted :: "uintptr list \<Rightarrow> int \<Rightarrow> bool" where
  "counted toRun delta \<longleftrightarrow> delta = - int (length toRun) \<and> list_all is_g toRun"

lemma handle_event_counted:
  assumes "handle_event plat k delay e toRun delta ep = (ep', Ret r)" and "counted toRun delta"
  shows "counted (fst r) (snd r)"
proof -
  obtain ev data where e: "e = (ev, data)" by force
  let ?p = "tp_pointer plat data" and ?tag = "tp_tag plat data"
  show ?thesis
  proof (cases "r = (toRun, delta)")
    case True
    with assms(2) show ?thesis by simp
  next
    case False
    obtain toRun' pd' d where
      n: "netpollready toRun (setEventErr (ev = EPOLLERR) ?tag (np_pd ep ?p)) (event_mode ev) = (toRun', pd', d)"
      by (metis prod_cases3)
    from False assms(1) have "r = (toRun', delta + d)"
      by (auto simp: handle_event_def e Let_def n split: if_splits)
    moreover obtain new where "toRun' = new @ toRun" "d = - int (length new)"
      "\<And>g. g \<in> set new \<Longrightarrow> is_g g \<and> g \<in> set (parked (setEventErr (ev = EPOLLERR) ?tag (np_pd ep ?p)))"
      using netpollready_new [OF n] by blast
    ultimately show ?thesis using assms(2) by (auto simp: counted_def list_all_iff)
  qed
qed

lemma handle_events_counted:
  "handle_events plat k delay es toRun delta ep = (ep', Ret r) \<Longrightarrow> counted toRun delta
    \<Longrightarrow> counted (fst r) (snd r)"
proof (induction es arbitrary: toRun delta ep)
  case (Cons e es)
  obtain ep1 o1 where h: "handle_event plat k delay e toRun delta ep = (ep1, o1)" by force
  with Cons.prems(1) obtain r1 where o1: "o1 = Ret r1" by (cases o1) auto
  then have "counted (fst r1) (snd r1)" using handle_event_counted h Cons.prems(2) by blast
  then show ?case using Cons.IH Cons.prems(1) h o1 by simp
qed auto

lemma netpoll_retry_counted:
  "netpoll_retry plat k delay as ep = (ep', Ret r) \<Longrightarrow> counted (fst r) (snd r)"
proof (induction plat k delay as ep rule: netpoll_retry.induct)
  case (2 plat k delay errno as ep)
  then show ?case by (auto simp: counted_def split: if_splits)
next
  case (3 plat k delay es as ep)
  then show ?case using handle_events_counted [of plat k delay es "[]" 0 ep] by (simp add: counted_def)
qed simp

text \<open>
  \<open>netpoll\<close> accounts for every goroutine it wakes: the change of \<open>netpollWaiters\<close> it asks
  for is minus the length of the list it returns, whatever events and interruptions the
  kernel delivers; in particular it never returns an empty list with a non-zero change.
\<close>

theorem netpoll_delta_matches:
  assumes "netpoll plat k delay answers ep = (ep', Ret (toRun, delta))"
  shows "delta = - int (length toRun) \<and> (\<forall>g \<in> set toRun. is_g g)"
proof -
  have "counted toRun delta"
    using assms netpoll_retry_counted [of plat k delay answers ep ep' "(toRun, delta)"]
    by (auto simp: netpoll_def counted_def split: if_splits)
  then show ?thesis by (simp add: counted_def list_all_iff)
qed

text \<open>A poller with one reader parked on the descriptor at 4096.\<close>

definition reader_parked :: epoll where
  "reader_parked = \<lparr>np_pd = (\<lambda>_. (open_desc 4096 7 zero_pd)\<lparr>pd_rg := 8192\<rparr>), np_first = 0,
     np_waiters = 1, np_inited = 1, np_ready = [], ep_fd = 3, ep_breakRd = 4, ep_breakWr = 5,
     ep_wakeSig = 0, ep_ctl = []\<rparr>"

definition a_kernel :: kernel where
  "a_kernel = \<lparr>k_create = (3, 0), k_pipe = (4, 5, 0), k_ctl = (\<lambda>_. 0), k_breakAddr = 64\<rparr>"

definition tag1 :: u64 where
  "tag1 = push_bit 16 4096 OR 1"

theorem netpoll_delta_matches_witness:
  "\<exists>ep'. netpoll Amd64 a_kernel (-1) [Errno EINTR, Events [(EPOLLIN, tag1)]] reader_parked
     = (ep', Ret ([8192], -1)) \<and> (\<forall>g \<in> set [8192]. is_g g)"
proof -
  let ?r = "netpoll Amd64 a_kernel (-1) [Errno EINTR, Events [(EPOLLIN, tag1)]] reader_parked"
  have "snd ?r = Ret ([8192], -1)" by code_simp
  then have "?r = (fst ?r, Ret ([8192], -1))" by (metis prod.collapse)
  then show ?thesis using netpoll_delta_matches by blast
qed

section \<open>Events and tags\<close>

lemma event_mode_cases: "event_mode ev \<in> {0, mode_r, mode_w, mode_rw}"
  by (simp add: event_mode_def mode_consts)

text \<open>What the kernel was given for a descriptor.\<close>

definition registered :: "platform \<Rightarrow> uintptr \<Rightarrow> pollDesc \<Rightarrow> u64 \<Rightarrow> bool" where
  "registered plat p pd tp \<longleftrightarrow> canonical plat p \<and> taggedPointerPack plat p (pd_fdseq pd) = Ret tp
     \<and> take_bit (taggedPointerBits plat) (pd_fdseq pd) = pd_fdseq pd \<and> pd_fdseq pd \<noteq> 0"

lemma registered_decodes:
  "registered plat p pd tp \<Longrightarrow> tp_pointer plat tp = p \<and> tp_tag plat tp = pd_fdseq pd"
  using pack_pointer pack_tag by (auto simp: registered_def canonical_def)

text \<open>
  C12. A notification for a closed descriptor never reaches its successor: an event that carries
  the data registered for a descriptor before it was freed, delivered after the same memory
  has been opened again for another file, is dropped without any effect.
\<close>

theorem epoll_stale_event_dropped:
  assumes "registered plat p (np_pd ep p) tp" and "tp \<noteq> k_breakAddr k"
    and "np_pd ep' p = open_desc p fd (np_pd (pollCache_free (taggedPointerBits plat) p ep) p)"
  shows "handle_event plat k delay (ev, tp) toRun delta ep' = (ep', Ret (toRun, delta))"
proof -
  have b: "2 \<le> taggedPointerBits plat" "taggedPointerBits plat \<le> 64"
    by (cases plat; simp add: taggedPointerBits_eq)+
  have "pd_fdseq (np_pd ep' p) \<noteq> pd_fdseq (np_pd ep p)"
    using assms(1) reopen_seq [OF b, of ep p fd] by (simp add: assms(3) registered_def)
  then show ?thesis
    using registered_decodes [OF assms(1)] assms(2) by (simp add: handle_event_def Let_def)
qed

lemma reader_registered: "registered Amd64 4096 (np_pd reader_parked 4096) tag1"
proof -
  have "pd_fdseq (np_pd reader_parked 4096) = 1" by code_simp
  then show ?thesis
    by (simp add: registered_def canonical_def taggedPointerPack_def tag1_def tag_consts
        taggedPointerBits_eq)
qed

theorem epoll_stale_event_dropped_witness:
  "\<exists>ep'. np_pd ep' 4096 = open_desc 4096 9 (np_pd (pollCache_free 19 4096 reader_parked) 4096)
     \<and> handle_event Amd64 a_kernel 0 (EPOLLIN, tag1) [] 0 ep' = (ep', Ret ([], 0))"
proof -
  let ?ep = "set_pd 4096 (open_desc 4096 9 (np_pd (pollCache_free 19 4096 reader_parked) 4096)) reader_parked"
  have "handle_event Amd64 a_kernel 0 (EPOLLIN, tag1) [] 0 ?ep = (?ep, Ret ([], 0))"
    by (rule epoll_stale_event_dropped [OF reader_registered])
      (simp_all add: taggedPointerBits_eq a_kernel_def tag1_def)
  then show ?thesis by (intro exI [of _ ?ep]) simp
qed

text \<open>
  A current notification is never lost: an event that carries the data registered for the
  open descriptor leaves \<open>pdReady\<close> in the semaphore of every mode it is about (hang-up and
  error count for both), and a goroutine parked there is on the list of goroutines to run.
\<close>

theorem epoll_event_delivered:
  assumes "registered plat p (np_pd ep p) tp" and "tp \<noteq> k_breakAddr k" and "ev \<noteq> 0"
    and "handle_event plat k delay (ev, tp) toRun delta ep = (ep', Ret (toRun', delta'))"
  shows "(ev AND (EPOLLIN OR EPOLLRDHUP OR EPOLLHUP OR EPOLLERR) \<noteq> 0 \<longrightarrow>
            pd_rg (np_pd ep' p) = pdReady
            \<and> (is_g (pd_rg (np_pd ep p)) \<longrightarrow> pd_rg (np_pd ep p) \<in> set toRun'))
       \<and> (ev AND (EPOLLOUT OR EPOLLHUP OR EPOLLERR) \<noteq> 0 \<longrightarrow>
            pd_wg (np_pd ep' p) = pdReady
            \<and> (is_g (pd_wg (np_pd ep p)) \<longrightarrow> pd_wg (np_pd ep p) \<in> set toRun'))"
proof (cases "event_mode ev = 0")
  case True
  then show ?thesis by (auto simp: event_mode_def mode_consts split: if_splits)
next
  case False
  let ?pd = "setEventErr (ev = EPOLLERR) (pd_fdseq (np_pd ep p)) (np_pd ep p)"
  obtain rs pd' d where n: "netpollready toRun ?pd (event_mode ev) = (rs, pd', d)" by (metis prod_cases3)
  have same: "pd_rg ?pd = pd_rg (np_pd ep p)" "pd_wg ?pd = pd_wg (np_pd ep p)"
    using setEventErr_simps(4) [of mode_r] setEventErr_simps(4) [of mode_w] by (simp_all only: gpp_modes)
  have "np_pd ep' p = pd'" "toRun' = rs"
    using assms(4) registered_decodes [OF assms(1)] assms(2,3) False
    by (auto simp: handle_event_def Let_def n)
  moreover have "ev AND (EPOLLIN OR EPOLLRDHUP OR EPOLLHUP OR EPOLLERR) \<noteq> 0 \<Longrightarrow>
      event_mode ev = mode_r \<or> event_mode ev = mode_rw"
    "ev AND (EPOLLOUT OR EPOLLHUP OR EPOLLERR) \<noteq> 0 \<Longrightarrow>
      event_mode ev = mode_w \<or> event_mode ev = mode_rw"
    by (simp_all add: event_mode_def mode_consts)
  ultimately show ?thesis using netpollready_sems [OF n] same by auto
qed

theorem epoll_event_delivered_witness:
  "\<exists>ep' toRun delta. handle_event Amd64 a_kernel 0 (EPOLLIN, tag1) [] 0 reader_parked
       = (ep', Ret (toRun, delta))
     \<and> pd_rg (np_pd ep' 4096) = pdReady \<and> 8192 \<in> set toRun"
proof -
  let ?r = "handle_event Amd64 a_kernel 0 (EPOLLIN, tag1) [] 0 reader_parked"
  have "returns (snd ?r)" by code_simp
  then obtain ep' toRun delta where r: "?r = (ep', Ret (toRun, delta))"
    by (metis old.prod.exhaust prod.collapse returns.elims(2))
  have "tag1 \<noteq> k_breakAddr a_kernel" "EPOLLIN \<noteq> 0"
    "EPOLLIN AND (EPOLLIN OR EPOLLRDHUP OR EPOLLHUP OR EPOLLERR) \<noteq> 0"
    "is_g (pd_rg (np_pd reader_parked 4096))" "pd_rg (np_pd reader_parked 4096) = 8192"
    by code_simp+
  then show ?thesis using epoll_event_delivered [OF reader_registered _ _ r] r by auto
qed

text \<open>
  The timeout handed to \<open>epoll_wait\<close> is faithful to the delay in nanoseconds: forever for a
  negative delay, no wait for zero, and otherwise between one millisecond and \<open>10 ^ 9\<close>
  milliseconds (so within an \<open>int32\<close>), never longer than the delay beyond the first
  millisecond, and never zero, which would make the scheduler spin.
\<close>

theorem netpoll_wait_ms_bounds:
  "(delay < 0 \<longrightarrow> wait_ms delay = -1) \<and> (delay = 0 \<longrightarrow> wait_ms delay = 0)
   \<and> (0 < delay \<longrightarrow> 1 \<le> wait_ms delay \<and> wait_ms delay \<le> 10 ^ 9
        \<and> wait_ms delay * 10 ^ 6 \<le> max delay (10 ^ 6)
        \<and> (delay < 10 ^ 15 \<longrightarrow> delay < (wait_ms delay + 1) * 10 ^ 6))"
proof -
  have "delay div 10 ^ 6 * 10 ^ 6 \<le> delay" "delay < (delay div 10 ^ 6 + 1) * 10 ^ 6" by simp_all
  moreover have "1 \<le> delay div 10 ^ 6" if "10 ^ 6 \<le> delay"
    using zdiv_mono1 [OF that, of "10 ^ 6"] by simp
  moreover have "delay div 10 ^ 6 \<le> 10 ^ 9" if "delay < 10 ^ 15"
    using zdiv_mono1 [of delay "10 ^ 15" "10 ^ 6"] that by simp
  ultimately show ?thesis by (auto simp: wait_ms_def)
qed

theorem netpoll_wait_ms_bounds_witness: "1 \<le> wait_ms 2500000 \<and> wait_ms 2500000 * 10 ^ 6 \<le> 2500000"
  using netpoll_wait_ms_bounds [of 2500000] by simp

lemma break_loop_interrupted: "netpollBreak_loop (replicate n (- EINTR) @ w # ws) = netpollBreak_loop (w # ws)"
  by (induction n) (simp_all add: EINTR_def)

text \<open>
  \<open>netpollBreak\<close> coalesces: a call returns once the byte is written or the pipe is already
  full, however often the write is interrupted; while its signal is pending further calls
  return without writing; and the blocking poll that sees the pipe's event takes the signal
  back, so that the next break writes again.
\<close>

theorem netpoll_break_coalesces:
  assumes "w = 1 \<or> w = - EAGAIN" and "ep_wakeSig ep = 0" and "delay \<noteq> 0"
    and "netpollBreak (replicate n (- EINTR) @ [w]) ep = (ep1, r)"
  shows "r = Ret () \<and> netpollBreak ws ep1 = (ep1, Ret ())
    \<and> handle_event plat k delay (EPOLLIN, k_breakAddr k) toRun delta ep1
        = (ep, Ret (toRun, delta))"
proof -
  have "netpollBreak_loop (replicate n (- EINTR) @ [w]) = Ret ()"
    using assms(1) unfolding break_loop_interrupted by (auto simp: EINTR_def EAGAIN_def)
  then have "r = Ret ()" "ep1 = ep\<lparr>ep_wakeSig := 1\<rparr>"
    using assms(2,4) by (auto simp: netpollBreak_def)
  then show ?thesis using assms(2,3)
    by (simp add: netpollBreak_def handle_event_def EPOLLIN_def)
qed

theorem netpoll_break_coalesces_witness:
  "\<exists>ep1. netpollBreak [- EINTR, 1] reader_parked = (ep1, Ret ()) \<and> netpollBreak [] ep1 = (ep1, Ret ())"
proof -
  obtain ep1 r where b: "netpollBreak [- EINTR, 1] reader_parked = (ep1, r)" by force
  have "ep_wakeSig reader_parked = 0" by (simp add: reader_parked_def)
  then show ?thesis
    using netpoll_break_coalesces [of 1 reader_parked "-1" 1 ep1 r "[]"] b by simp
qed

end
