(* ===== verification/GQueue.thy ===== *)
theory GQueue
  imports GoPrelude
begin

text \<open>
  \<^verbatim>\<open>runtime/proc.go\<close>, the queues of goroutines linked through \<open>g.schedlink\<close>: \<open>gQueue\<close> and
  \<open>gList\<close>. The \<open>schedlink\<close> fields of all goroutines are one map from the address of a
  goroutine to the address of the next; 0 is nil. A queue is only the addresses of its ends,
  so an operation takes and returns the links as well.
\<close>

section \<open>The interface of a queue of goroutines\<close>

text \<open>
  A queue represents a list. \<open>room g xs\<close> says that \<open>g\<close> may join the queue \<open>xs\<close>; \<open>get\<close> answers
  nil on the empty queue. The clients need no more than these three laws.
\<close>

fun put_all :: "(uintptr \<Rightarrow> 's \<Rightarrow> 's) \<Rightarrow> uintptr list \<Rightarrow> 's \<Rightarrow> 's" where
  "put_all put [] s = s"
| "put_all put (g # gs) s = put_all put gs (put g s)"

fun get_many :: "('s \<Rightarrow> 's \<times> uintptr) \<Rightarrow> nat \<Rightarrow> 's \<Rightarrow> 's \<times> uintptr list" where
  "get_many get 0 s = (s, [])"
| "get_many get (Suc n) s =
     (let (s, g) = get s; (s, gs) = get_many get n s in (s, g # gs))"

fun all_room :: "(uintptr \<Rightarrow> uintptr list \<Rightarrow> bool) \<Rightarrow> uintptr list \<Rightarrow> uintptr list \<Rightarrow> bool" where
  "all_room room [] xs = True"
| "all_room room (g # gs) xs = (room g xs \<and> all_room room gs (xs @ [g]))"

locale fifo =
  fixes rep :: "'s \<Rightarrow> uintptr list \<Rightarrow> bool" and room :: "uintptr \<Rightarrow> uintptr list \<Rightarrow> bool"
    and put :: "uintptr \<Rightarrow> 's \<Rightarrow> 's" and get :: "'s \<Rightarrow> 's \<times> uintptr"
  assumes put_rep: "rep s xs \<Longrightarrow> room g xs \<Longrightarrow> rep (put g s) (xs @ [g])"
    and get_rep: "rep s (g # xs) \<Longrightarrow> snd (get s) = g \<and> rep (fst (get s)) xs"
    and get_nil: "rep s [] \<Longrightarrow> get s = (s, 0)"
begin

lemma put_all_rep: "rep s xs \<Longrightarrow> all_room room gs xs \<Longrightarrow> rep (put_all put gs s) (xs @ gs)"
proof (induction gs arbitrary: s xs)
  case (Cons g gs)
  then show ?case using Cons.IH [of "put g s" "xs @ [g]"] put_rep by simp
qed simp

lemma get_many_rep:
  "rep s (xs @ ys) \<Longrightarrow> snd (get_many get (length xs) s) = xs \<and> rep (fst (get_many get (length xs) s)) ys"
proof (induction xs arbitrary: s)
  case (Cons x xs)
  then have g: "snd (get s) = x" "rep (fst (get s)) (xs @ ys)" using get_rep [of s x "xs @ ys"] by auto
  show ?case using Cons.IH [OF g(2)] g(1) by (simp add: case_prod_beta Let_def)
qed simp

text \<open>First in, first out: what is put comes back in the same order, after what was there.\<close>

lemma first_in_first_out:
  assumes "rep s xs" and "all_room room gs xs"
  shows "snd (get_many get (length xs + length gs) (put_all put gs s)) = xs @ gs"
    and "get (fst (get_many get (length xs + length gs) (put_all put gs s)))
      = (fst (get_many get (length xs + length gs) (put_all put gs s)), 0)"
proof -
  note r = get_many_rep [of "put_all put gs s" "xs @ gs" "[]"]
  show "snd (get_many get (length xs + length gs) (put_all put gs s)) = xs @ gs"
    using r put_all_rep [OF assms] by simp
  show "get (fst (get_many get (length xs + length gs) (put_all put gs s)))
      = (fst (get_many get (length xs + length gs) (put_all put gs s)), 0)"
    using r put_all_rep [OF assms] by (intro get_nil) simp
qed

end

section \<open>The linked queue\<close>

type_synonym links = "uintptr \<Rightarrow> uintptr"

record gQueue =
  q_head :: uintptr
  q_tail :: uintptr

definition gq_new :: gQueue where
  "gq_new = \<lparr>q_head = 0, q_tail = 0\<rparr>"

definition gq_empty :: "gQueue \<Rightarrow> bool" where
  "gq_empty q \<longleftrightarrow> q_head q = 0"

definition gq_push :: "uintptr \<Rightarrow> links \<times> gQueue \<Rightarrow> links \<times> gQueue" where
  "gq_push gp s =
     (let (lk, q) = s;
          lk = lk(gp := q_head q);
          q = q\<lparr>q_head := gp\<rparr>
      in (lk, if q_tail q = 0 then q\<lparr>q_tail := gp\<rparr> else q))"

definition gq_pushBack :: "uintptr \<Rightarrow> links \<times> gQueue \<Rightarrow> links \<times> gQueue" where
  "gq_pushBack gp s =
     (let (lk, q) = s;
          lk = lk(gp := 0);
          (lk, q) = (if q_tail q \<noteq> 0 then (lk(q_tail q := gp), q) else (lk, q\<lparr>q_head := gp\<rparr>))
      in (lk, q\<lparr>q_tail := gp\<rparr>))"

definition gq_pushBackAll :: "gQueue \<Rightarrow> links \<times> gQueue \<Rightarrow> links \<times> gQueue" where
  "gq_pushBackAll q2 s =
     (let (lk, q) = s in
      if q_tail q2 = 0 then (lk, q)
      else
        let lk = lk(q_tail q2 := 0);
            (lk, q) = (if q_tail q \<noteq> 0 then (lk(q_tail q := q_head q2), q)
                       else (lk, q\<lparr>q_head := q_head q2\<rparr>))
        in (lk, q\<lparr>q_tail := q_tail q2\<rparr>))"

definition gq_pop :: "links \<times> gQueue \<Rightarrow> (links \<times> gQueue) \<times> uintptr" where
  "gq_pop s =
     (let (lk, q) = s; gp = q_head q in
      if gp \<noteq> 0 then
        (let q = q\<lparr>q_head := lk gp\<rparr>;
             q = (if q_head q = 0 then q\<lparr>q_tail := 0\<rparr> else q)
         in ((lk, q), gp))
      else ((lk, q), gp))"

type_synonym gList = uintptr   \<comment> \<open>the struct has the one field \<open>head\<close>\<close>

definition gq_popList :: "links \<times> gQueue \<Rightarrow> (links \<times> gQueue) \<times> gList" where
  "gq_popList s = (let (lk, q) = s in ((lk, gq_new), q_head q))"

definition gl_empty :: "gList \<Rightarrow> bool" where
  "gl_empty l \<longleftrightarrow> l = 0"

definition gl_push :: "uintptr \<Rightarrow> links \<times> gList \<Rightarrow> links \<times> gList" where
  "gl_push gp s = (let (lk, l) = s in (lk(gp := l), gp))"

definition gl_pushAll :: "gQueue \<Rightarrow> links \<times> gList \<Rightarrow> links \<times> gList" where
  "gl_pushAll q s = (let (lk, l) = s in
     if \<not> gq_empty q then (lk(q_tail q := l), q_head q) else (lk, l))"

definition gl_pop :: "links \<times> gList \<Rightarrow> (links \<times> gList) \<times> uintptr" where
  "gl_pop s = (let (lk, l) = s; gp = l in if gp \<noteq> 0 then ((lk, lk gp), gp) else ((lk, l), gp))"

section \<open>The list a queue represents\<close>

fun chain :: "links \<Rightarrow> uintptr \<Rightarrow> uintptr list \<Rightarrow> uintptr \<Rightarrow> bool" where
  "chain lk h [] e \<longleftrightarrow> h = e"
| "chain lk h (g # gs) e \<longleftrightarrow> h = g \<and> chain lk (lk g) gs e"

definition goroutines :: "uintptr list \<Rightarrow> bool" where
  "goroutines gs \<longleftrightarrow> distinct gs \<and> 0 \<notin> set gs"

definition tail_of :: "uintptr list \<Rightarrow> uintptr" where
  "tail_of gs = (if gs = [] then 0 else last gs)"

definition gq_rep :: "links \<times> gQueue \<Rightarrow> uintptr list \<Rightarrow> bool" where
  "gq_rep s gs \<longleftrightarrow> chain (fst s) (q_head (snd s)) gs 0 \<and> q_tail (snd s) = tail_of gs \<and> goroutines gs"

definition gl_rep :: "links \<times> gList \<Rightarrow> uintptr list \<Rightarrow> bool" where
  "gl_rep s gs \<longleftrightarrow> chain (fst s) (snd s) gs 0 \<and> goroutines gs"

definition gq_room :: "uintptr \<Rightarrow> uintptr list \<Rightarrow> bool" where
  "gq_room g xs \<longleftrightarrow> g \<noteq> 0 \<and> g \<notin> set xs"

lemma chain_frame: "g \<notin> set gs \<Longrightarrow> chain (lk(g := v)) h gs e = chain lk h gs e"
  by (induction gs arbitrary: h) auto

lemma chain_cong: "(\<And>g. g \<in> set gs \<Longrightarrow> lk g = lk' g) \<Longrightarrow> chain lk h gs e = chain lk' h gs e"
  by (induction gs arbitrary: h) auto

lemma chain_append: "chain lk h (xs @ ys) e \<longleftrightarrow> (\<exists>m. chain lk h xs m \<and> chain lk m ys e)"
  by (induction xs arbitrary: h) auto

lemma chain_last: "xs \<noteq> [] \<Longrightarrow> chain lk h xs e \<Longrightarrow> lk (last xs) = e"
  by (induction xs arbitrary: h) (auto split: if_splits)

lemma chain_relink:
  assumes "xs \<noteq> []" and "distinct xs" and "chain lk h xs e"
  shows "chain (lk(last xs := e')) h xs e'"
  using assms
proof (induction xs arbitrary: h)
  case (Cons x xs)
  then show ?case by (cases "xs = []") auto
qed simp

lemma last_not_in:
  "gs \<noteq> [] \<Longrightarrow> 0 \<notin> set gs \<Longrightarrow> last gs \<noteq> 0"
  "gs \<noteq> [] \<Longrightarrow> set gs \<inter> A = {} \<Longrightarrow> last gs \<notin> A"
  "gs \<noteq> [] \<Longrightarrow> A \<inter> set gs = {} \<Longrightarrow> last gs \<notin> A"
  using last_in_set [of gs] by (metis, blast+)

lemma chain_head: "chain lk h gs 0 \<Longrightarrow> 0 \<notin> set gs \<Longrightarrow> h = 0 \<longleftrightarrow> gs = []"
  by (cases gs) auto

lemma tail_of_0: "0 \<notin> set gs \<Longrightarrow> tail_of gs = 0 \<longleftrightarrow> gs = []"
  by (auto simp: tail_of_def) (metis last_in_set)

lemma tail_of_append [simp]: "tail_of (xs @ ys) = (if ys = [] then tail_of xs else tail_of ys)"
  by (simp add: tail_of_def)

lemma gq_rep_new: "gq_rep (lk, gq_new) []"
  by (simp add: gq_rep_def gq_new_def tail_of_def goroutines_def)

lemma gq_pushBackAll_rep:
  assumes "gq_rep (lk, q) xs" and "chain lk (q_head q2) ys e" and "q_tail q2 = tail_of ys"
    and "goroutines (xs @ ys)"
  shows "gq_rep (gq_pushBackAll q2 (lk, q)) (xs @ ys)"
proof (cases "ys = []")
  case True
  then show ?thesis using assms by (simp add: gq_pushBackAll_def tail_of_def)
next
  case False
  let ?lk = "lk(last ys := 0)"
  have ys: "chain ?lk (q_head q2) ys 0" "last ys \<notin> set xs" "last ys \<noteq> 0" "q_tail q2 = last ys"
    using False assms chain_relink [of ys lk] last_not_in [of ys]
    by (auto simp: goroutines_def tail_of_def)
  have xs: "chain ?lk (q_head q) xs 0"
    using assms(1) ys(2) by (simp add: gq_rep_def chain_frame)
  show ?thesis
  proof (cases "xs = []")
    case True
    then show ?thesis using ys assms(1,4) False
      by (simp add: gq_pushBackAll_def gq_rep_def tail_of_def)
  next
    case xsn: False
    have l: "last xs \<notin> set ys" "last xs \<noteq> 0" "q_tail q = last xs"
      using xsn assms(1,4) last_not_in [of xs] by (auto simp: goroutines_def gq_rep_def tail_of_def)
    have "chain (?lk(last xs := q_head q2)) (q_head q) xs (q_head q2)"
      using xsn xs assms(4) by (intro chain_relink) (auto simp: goroutines_def)
    moreover have "chain (?lk(last xs := q_head q2)) (q_head q2) ys 0"
      using ys(1) l(1) by (simp add: chain_frame)
    ultimately show ?thesis using l ys(3,4) assms(4) False
      by (auto simp: gq_pushBackAll_def gq_rep_def chain_append tail_of_def)
  qed
qed

lemma gq_pushBack_all: "gq_pushBack g (lk, q) = gq_pushBackAll \<lparr>q_head = g, q_tail = g\<rparr> (lk, q)" if "g \<noteq> 0"
  using that by (simp add: gq_pushBack_def gq_pushBackAll_def Let_def)

lemma gq_pushBack_rep: "gq_rep s xs \<Longrightarrow> gq_room g xs \<Longrightarrow> gq_rep (gq_pushBack g s) (xs @ [g])"
proof -
  assume r: "gq_rep s xs" and room: "gq_room g xs"
  obtain lk q where s: "s = (lk, q)" by force
  have "gq_rep (gq_pushBackAll \<lparr>q_head = g, q_tail = g\<rparr> (lk, q)) (xs @ [g])"
    using r room by (intro gq_pushBackAll_rep) (auto simp: s tail_of_def goroutines_def gq_rep_def gq_room_def)
  then show ?thesis using room by (simp add: s gq_pushBack_all gq_room_def)
qed

lemma gq_push_rep: "gq_rep s xs \<Longrightarrow> gq_room g xs \<Longrightarrow> gq_rep (gq_push g s) (g # xs)"
  using last_not_in(1) [of xs]
  by (auto simp: gq_rep_def gq_push_def gq_room_def goroutines_def chain_frame tail_of_def
      Let_def case_prod_beta)

lemma gq_pop_rep: "gq_rep s (g # xs) \<Longrightarrow> snd (gq_pop s) = g \<and> gq_rep (fst (gq_pop s)) xs"
  using chain_head by (auto simp: gq_rep_def gq_pop_def goroutines_def tail_of_def Let_def case_prod_beta)

lemma gq_pop_nil: "gq_rep s [] \<Longrightarrow> gq_pop s = (s, 0)"
  by (auto simp: gq_rep_def gq_pop_def case_prod_beta Let_def)

interpretation gq: fifo gq_rep gq_room gq_pushBack gq_pop
  by unfold_locales (auto intro: gq_pushBack_rep gq_pop_rep gq_pop_nil dest: gq_pop_rep)

lemma gq_popList_rep:
  "gq_rep s xs \<Longrightarrow> gl_rep (fst (fst (gq_popList s)), snd (gq_popList s)) xs \<and> gq_rep (fst (gq_popList s)) []"
  by (auto simp: gq_popList_def gl_rep_def gq_rep_def gq_new_def tail_of_def goroutines_def case_prod_beta)

lemma gl_push_rep: "gl_rep s xs \<Longrightarrow> gq_room g xs \<Longrightarrow> gl_rep (gl_push g s) (g # xs)"
  by (auto simp: gl_rep_def gl_push_def gq_room_def goroutines_def chain_frame case_prod_beta)

lemma gl_pop_rep: "gl_rep s (g # xs) \<Longrightarrow> snd (gl_pop s) = g \<and> gl_rep (fst (gl_pop s)) xs"
  by (auto simp: gl_rep_def gl_pop_def goroutines_def case_prod_beta Let_def)

lemma gl_pushAll_rep:
  assumes "gl_rep (lk, l) xs" and "gq_rep (lk, q) ys" and "goroutines (ys @ xs)"
  shows "gl_rep (gl_pushAll q (lk, l)) (ys @ xs)"
proof (cases "ys = []")
  case True
  then show ?thesis using assms by (simp add: gl_pushAll_def gq_empty_def gq_rep_def)
next
  case False
  then have "chain (lk(last ys := l)) (q_head q) ys l" "chain (lk(last ys := l)) l xs 0"
    using assms chain_relink [of ys lk "q_head q" 0 l] last_not_in(2) [of ys "set xs"]
    by (auto simp: gq_rep_def gl_rep_def goroutines_def chain_frame)
  moreover have "q_head q \<noteq> 0" "q_tail q = last ys"
    using False assms(2) chain_head [of lk "q_head q" ys]
    by (auto simp: gq_rep_def goroutines_def tail_of_def)
  ultimately show ?thesis using assms(3)
    by (auto simp: gl_pushAll_def gl_rep_def gq_empty_def chain_append)
qed

end
