(* ===== verification/RunQueue.thy ===== *)
theory RunQueue
  imports GQueue "HOL-Library.Multiset"
begin

text \<open>
  \<^verbatim>\<open>runtime/proc.go\<close>, the run queues of the scheduler, where a goroutine that the poller made
  ready waits for a processor. Each P has a ring of 256 goroutines with free-running 32-bit
  head and tail counters, and the slot \<open>runnext\<close>; the scheduler has one global queue.

  The operations are those of a P that is alone on its queue: each compare-and-swap of a loop
  succeeds at once, so a loop that finds inconsistent counters would never leave
  (\<open>Blocked\<close>). \<open>randomizeScheduler\<close> is false, as in every build without the race detector.
\<close>

section \<open>State\<close>

record p =
  p_runqhead :: u32
  p_runqtail :: u32
  p_runq :: "uintptr list"
  p_runnext :: uintptr

record sched =
  sc_links :: links
  sc_runq :: gQueue
  sc_runqsize :: int

text \<open>\<open>len(pp.runq)\<close>, and the index \<open>t % uint32(len(pp.runq))\<close>.\<close>

definition runqLen :: u32 where "runqLen = 256"

definition slot :: "u32 \<Rightarrow> nat" where
  "slot t = unat (t mod runqLen)"

section \<open>The global queue\<close>

definition globrunqput :: "uintptr \<Rightarrow> sched \<Rightarrow> sched" where
  "globrunqput gp sc =
     (let (lk, q) = gq_pushBack gp (sc_links sc, sc_runq sc)
      in sc\<lparr>sc_links := lk, sc_runq := q, sc_runqsize := sc_runqsize sc + 1\<rparr>)"

definition globrunqputhead :: "uintptr \<Rightarrow> sched \<Rightarrow> sched" where
  "globrunqputhead gp sc =
     (let (lk, q) = gq_push gp (sc_links sc, sc_runq sc)
      in sc\<lparr>sc_links := lk, sc_runq := q, sc_runqsize := sc_runqsize sc + 1\<rparr>)"

definition globrunqputbatch :: "gQueue \<Rightarrow> int \<Rightarrow> sched \<Rightarrow> sched \<times> gQueue" where
  "globrunqputbatch batch n sc =
     (let (lk, q) = gq_pushBackAll batch (sc_links sc, sc_runq sc)
      in (sc\<lparr>sc_links := lk, sc_runq := q, sc_runqsize := sc_runqsize sc + n\<rparr>, gq_new))"

definition sched_pop :: "sched \<Rightarrow> sched \<times> uintptr" where
  "sched_pop sc =
     (let ((lk, q), gp) = gq_pop (sc_links sc, sc_runq sc)
      in (sc\<lparr>sc_links := lk, sc_runq := q\<rparr>, gp))"

section \<open>The local queue\<close>

definition runqempty :: "p \<Rightarrow> bool" where
  "runqempty pp \<longleftrightarrow> p_runqhead pp = p_runqtail pp \<and> p_runnext pp = 0"

text \<open>The loop that links the goroutines of a batch one to the next.\<close>

fun link_batch :: "uintptr list \<Rightarrow> links \<Rightarrow> links" where
  "link_batch (a # b # gs) lk = link_batch (b # gs) (lk(a := b))"
| "link_batch _ lk = lk"

definition runqputslow :: "uintptr \<Rightarrow> u32 \<Rightarrow> u32 \<Rightarrow> p \<Rightarrow> sched \<Rightarrow> (p \<times> sched \<times> bool) outcome" where
  "runqputslow gp h t pp sc =
     (let n = (t - h) div 2 in
      if n \<noteq> runqLen div 2 then Panic ''runqputslow: queue is not full''
      else
        let batch = map (\<lambda>i. p_runq pp ! slot (h + of_nat i)) [0..<unat n] in
        if p_runqhead pp \<noteq> h then Ret (pp, sc, False)
        else
          let pp = pp\<lparr>p_runqhead := h + n\<rparr>;
              batch = batch @ [gp];
              sc = sc\<lparr>sc_links := link_batch batch (sc_links sc)\<rparr>;
              q = \<lparr>q_head = batch ! 0, q_tail = batch ! unat n\<rparr>;
              (sc, q) = globrunqputbatch q (uint (n + 1)) sc
          in Ret (pp, sc, True))"

text \<open>The put of \<open>runqput\<close> into a ring that is not full.\<close>

definition ring_put :: "uintptr \<Rightarrow> p \<Rightarrow> p" where
  "ring_put gp pp =
     (let t = p_runqtail pp
      in pp\<lparr>p_runq := (p_runq pp)[slot t := gp], p_runqtail := t + 1\<rparr>)"

text \<open>
  The passes of \<open>retry\<close> in \<open>runqput\<close>. A second pass finds the queue not full ("now the put
  above must succeed"), so two are enough.
\<close>

fun runqput_retry :: "nat \<Rightarrow> uintptr \<Rightarrow> p \<Rightarrow> sched \<Rightarrow> (p \<times> sched) outcome" where
  "runqput_retry 0 gp pp sc = Blocked"
| "runqput_retry (Suc passes) gp pp sc =
     (let h = p_runqhead pp; t = p_runqtail pp in
      if t - h < runqLen
      then Ret (ring_put gp pp, sc)
      else (case runqputslow gp h t pp sc of
              Ret (pp, sc, done) \<Rightarrow> (if done then Ret (pp, sc) else runqput_retry passes gp pp sc)
            | Panic m \<Rightarrow> Panic m
            | Blocked \<Rightarrow> Blocked))"

definition runqput :: "uintptr \<Rightarrow> bool \<Rightarrow> p \<Rightarrow> sched \<Rightarrow> (p \<times> sched) outcome" where
  "runqput gp next pp sc =
     (if next then
        (let oldnext = p_runnext pp; pp = pp\<lparr>p_runnext := gp\<rparr> in
         if oldnext = 0 then Ret (pp, sc) else runqput_retry 2 oldnext pp sc)
      else runqput_retry 2 gp pp sc)"

text \<open>The loop of \<open>runqputbatch\<close>; it runs at most \<open>len(pp.runq)\<close> times.\<close>

fun putbatch_loop :: "nat \<Rightarrow> u32 \<Rightarrow> u32 \<Rightarrow> nat \<Rightarrow> uintptr list \<Rightarrow> links \<times> gQueue
    \<Rightarrow> u32 \<times> nat \<times> uintptr list \<times> (links \<times> gQueue)" where
  "putbatch_loop 0 h t n ring q = (t, n, ring, q)"
| "putbatch_loop (Suc k) h t n ring q =
     (if \<not> gq_empty (snd q) \<and> t - h < runqLen
      then let (q, gp) = gq_pop q in putbatch_loop k h (t + 1) (n + 1) (ring[slot t := gp]) q
      else (t, n, ring, q))"

definition runqputbatch :: "gQueue \<Rightarrow> int \<Rightarrow> p \<Rightarrow> sched \<Rightarrow> p \<times> sched \<times> gQueue" where
  "runqputbatch q qsize pp sc =
     (let h = p_runqhead pp;
          (t, n, ring, (lk, q)) = putbatch_loop 257 h (p_runqtail pp) 0 (p_runq pp) (sc_links sc, q);
          sc = sc\<lparr>sc_links := lk\<rparr>;
          qsize = qsize - int n;
          pp = pp\<lparr>p_runq := ring, p_runqtail := t\<rparr>;
          (sc, q) = (if \<not> gq_empty q then globrunqputbatch q qsize sc else (sc, q))
      in (pp, sc, q))"

definition runqget :: "p \<Rightarrow> p \<times> uintptr \<times> bool" where
  "runqget pp =
     (let next = p_runnext pp in
      if next \<noteq> 0 then (pp\<lparr>p_runnext := 0\<rparr>, next, True)
      else
        let h = p_runqhead pp; t = p_runqtail pp in
        if t = h then (pp, 0, False)
        else (pp\<lparr>p_runqhead := h + 1\<rparr>, p_runq pp ! slot h, False))"

text \<open>The loop of \<open>runqdrain\<close> that moves the goroutines to the queue it returns.\<close>

fun drain_loop :: "uintptr list \<Rightarrow> links \<times> gQueue \<Rightarrow> links \<times> gQueue" where
  "drain_loop [] q = q"
| "drain_loop (gp # gs) q = drain_loop gs (gq_pushBack gp q)"

definition runqdrain :: "p \<Rightarrow> links \<Rightarrow> (p \<times> links \<times> gQueue \<times> u32) outcome" where
  "runqdrain pp lk =
     (let oldNext = p_runnext pp;
          (pp, q, n) = (if oldNext \<noteq> 0
             then (pp\<lparr>p_runnext := 0\<rparr>, gq_pushBack oldNext (lk, gq_new), 1) else (pp, (lk, gq_new), 0));
          h = p_runqhead pp; t = p_runqtail pp; qn = t - h
      in if qn = 0 then Ret (pp, fst q, snd q, n)
         else if qn > runqLen then Blocked
         else
           let pp = pp\<lparr>p_runqhead := h + qn\<rparr>;
               q = drain_loop (map (\<lambda>i. p_runq pp ! slot (h + of_nat i)) [0..<unat qn]) q
           in Ret (pp, fst q, snd q, n + qn))"

text \<open>The copying loop of \<open>runqgrab\<close>.\<close>

fun grab_loop :: "nat \<Rightarrow> nat \<Rightarrow> uintptr list \<Rightarrow> u32 \<Rightarrow> u32 \<Rightarrow> uintptr list \<Rightarrow> uintptr list" where
  "grab_loop 0 i ring h batchHead batch = batch"
| "grab_loop (Suc k) i ring h batchHead batch =
     grab_loop k (Suc i) ring h batchHead
       (batch[slot (batchHead + of_nat i) := ring ! slot (h + of_nat i)])"

definition runqgrab :: "p \<Rightarrow> uintptr list \<Rightarrow> u32 \<Rightarrow> bool \<Rightarrow> (p \<times> uintptr list \<times> u32) outcome" where
  "runqgrab pp batch batchHead stealRunNextG =
     (let h = p_runqhead pp; t = p_runqtail pp; n = t - h; n = n - n div 2 in
      if n = 0 then
        (if stealRunNextG \<and> p_runnext pp \<noteq> 0
         then Ret (pp\<lparr>p_runnext := 0\<rparr>, batch[slot batchHead := p_runnext pp], 1)
         else Ret (pp, batch, 0))
      else if n > runqLen div 2 then Blocked
      else Ret (pp\<lparr>p_runqhead := h + n\<rparr>, grab_loop (unat n) 0 (p_runq pp) h batchHead batch, n))"

text \<open>The thief is the first P, the victim the second.\<close>

definition runqsteal :: "bool \<Rightarrow> p \<Rightarrow> p \<Rightarrow> (p \<times> p \<times> uintptr) outcome" where
  "runqsteal stealRunNextG pp p2 =
     (let t = p_runqtail pp in
      case runqgrab p2 (p_runq pp) t stealRunNextG of
        Ret (p2, ring, n) \<Rightarrow>
          (let pp = pp\<lparr>p_runq := ring\<rparr> in
           if n = 0 then Ret (pp, p2, 0)
           else
             let n = n - 1; gp = p_runq pp ! slot (t + n) in
             if n = 0 then Ret (pp, p2, gp)
             else
               let h = p_runqhead pp in
               if t - h + n \<ge> runqLen then Panic ''runqsteal: runq overflow''
               else Ret (pp\<lparr>p_runqtail := t + n\<rparr>, p2, gp))
      | Panic m \<Rightarrow> Panic m
      | Blocked \<Rightarrow> Blocked)"

section \<open>Taking from the global queue\<close>

definition globrunqget_count :: "int \<Rightarrow> int \<Rightarrow> int \<Rightarrow> int" where
  "globrunqget_count gomaxprocs limit runqsize =
     (let n = runqsize div gomaxprocs + 1;
          n = (if n > runqsize then runqsize else n);
          n = (if limit > 0 \<and> n > limit then limit else n)
      in if n > uint runqLen div 2 then uint runqLen div 2 else n)"

fun globrunqget_loop :: "nat \<Rightarrow> p \<Rightarrow> sched \<Rightarrow> (p \<times> sched) outcome" where
  "globrunqget_loop 0 pp sc = Ret (pp, sc)"
| "globrunqget_loop (Suc n) pp sc =
     (let (sc, gp1) = sched_pop sc in
      case runqput gp1 False pp sc of
        Ret (pp, sc) \<Rightarrow> globrunqget_loop n pp sc
      | Panic m \<Rightarrow> Panic m
      | Blocked \<Rightarrow> Blocked)"

definition globrunqget :: "int \<Rightarrow> int \<Rightarrow> p \<Rightarrow> sched \<Rightarrow> (p \<times> sched \<times> uintptr) outcome" where
  "globrunqget gomaxprocs limit pp sc =
     (if sc_runqsize sc = 0 then Ret (pp, sc, 0)
      else
        let n = globrunqget_count gomaxprocs limit (sc_runqsize sc);
            sc = sc\<lparr>sc_runqsize := sc_runqsize sc - n\<rparr>;
            (sc, gp) = sched_pop sc;
            n = n - 1
        in case globrunqget_loop (nat n) pp sc of
             Ret (pp, sc) \<Rightarrow> Ret (pp, sc, gp)
           | Panic m \<Rightarrow> Panic m
           | Blocked \<Rightarrow> Blocked)"

section \<open>What the ring represents\<close>

definition ring_len :: "p \<Rightarrow> nat" where
  "ring_len pp = unat (p_runqtail pp - p_runqhead pp)"

definition ring :: "p \<Rightarrow> uintptr list" where
  "ring pp = map (\<lambda>i. p_runq pp ! slot (p_runqhead pp + of_nat i)) [0..<ring_len pp]"

definition wf_p :: "p \<Rightarrow> bool" where
  "wf_p pp \<longleftrightarrow> length (p_runq pp) = 256 \<and> ring_len pp \<le> 256"

lemma slot_eq: "slot (h + of_nat i) = (unat h + i) mod 256"
proof -
  have "unat (h + of_nat i) mod 256 = (unat h + i) mod 256"
    by (simp add: unat_word_ariths unat_of_nat mod_mod_cancel mod_add_right_eq)
  then show ?thesis by (simp add: slot_def runqLen_def unat_mod_distrib)
qed

lemma slot_less [simp]: "slot t < 256"
  using slot_eq [of t 0] by simp

lemma slot_inj:
  assumes "i < 256" "j < 256" "slot (h + of_nat i) = slot (h + of_nat j)"
  shows "i = j"
proof -
  have eq: "(unat h + i) mod 256 = (unat h + j) mod 256" using assms(3) by (simp add: slot_eq)
  have "x = y" if "x \<le> y" "y < 256" "(unat h + x) mod 256 = (unat h + y) mod 256" for x y
  proof -
    have "256 dvd (unat h + y) - (unat h + x)"
      using that mod_eq_dvd_iff_nat [of "unat h + x" "unat h + y" 256] by simp
    then have "256 dvd y - x" by simp
    with that show ?thesis by (auto dest: dvd_imp_le)
  qed
  from this [of i j] this [of j i] show ?thesis using assms(1,2) eq by (cases "i \<le> j") auto
qed

lemma ring_length [simp]: "length (ring pp) = ring_len pp"
  by (simp add: ring_def)

lemma tail_head: "p_runqtail pp = p_runqhead pp + of_nat (ring_len pp)"
  by (simp add: ring_len_def)

lemma ring_len_word: "of_nat (ring_len pp) = p_runqtail pp - p_runqhead pp"
  by (simp add: ring_len_def)

lemma full_test: "p_runqtail pp - p_runqhead pp < runqLen \<longleftrightarrow> ring_len pp < 256"
  by (simp add: word_less_nat_alt ring_len_def runqLen_def)

lemma ring_nth: "i < ring_len pp \<Longrightarrow> ring pp ! i = p_runq pp ! slot (p_runqhead pp + of_nat i)"
  by (simp add: ring_def)

text \<open>Writing the next slot and advancing the tail appends.\<close>

lemma ring_append:
  assumes "wf_p pp" and "ring_len pp < 256"
  shows "wf_p (ring_put g pp)" and "ring (ring_put g pp) = ring pp @ [g]"
proof -
  let ?h = "p_runqhead pp" and ?n = "ring_len pp"
  have eq: "p_runqtail pp + 1 - ?h = of_nat (Suc ?n)" by (simp add: ring_len_word)
  have "ring_len (ring_put g pp) = unat (p_runqtail pp + 1 - ?h)"
    by (simp add: ring_len_def ring_put_def Let_def)
  also have "\<dots> = unat (of_nat (Suc ?n) :: u32)" by (simp only: eq)
  finally have len: "ring_len (ring_put g pp) = Suc ?n"
    using assms(2) unfolding unat_of_nat by simp
  have l256: "length (p_runq pp) = 256" using assms(1) by (simp add: wf_p_def)
  then show "wf_p (ring_put g pp)" using assms(2) len by (simp add: wf_p_def) (simp add: ring_put_def Let_def)
  have "ring (ring_put g pp) ! i = (ring pp @ [g]) ! i" if "i < Suc ?n" for i
  proof -
    have "ring (ring_put g pp) ! i = (p_runq pp)[slot (?h + of_nat ?n) := g] ! slot (?h + of_nat i)"
      using that by (simp add: ring_nth len tail_head [symmetric]) (simp add: ring_put_def Let_def tail_head)
    also have "\<dots> = (ring pp @ [g]) ! i"
    proof (cases "i = ?n")
      case True
      then show ?thesis using l256 by (simp add: nth_append)
    next
      case False
      then have "slot (?h + of_nat ?n) \<noteq> slot (?h + of_nat i)"
        using that assms(2) slot_inj [of ?n i ?h] by auto
      then show ?thesis using that False by (simp add: nth_append ring_nth)
    qed
    finally show ?thesis .
  qed
  then show "ring (ring_put g pp) = ring pp @ [g]" by (intro nth_equalityI) (simp_all add: len)
qed

lemma ring_put_simps [simp]:
  "p_runnext (ring_put g pp) = p_runnext pp" "p_runqhead (ring_put g pp) = p_runqhead pp"
  by (simp_all add: ring_put_def Let_def)

text \<open>Advancing the head drops from the front.\<close>

lemma ring_advance:
  assumes "wf_p pp" and "n \<le> ring_len pp" and "k = of_nat n"
  shows "wf_p (pp\<lparr>p_runqhead := p_runqhead pp + k\<rparr>)"
    and "ring (pp\<lparr>p_runqhead := p_runqhead pp + k\<rparr>) = drop n (ring pp)"
proof -
  let ?pp = "pp\<lparr>p_runqhead := p_runqhead pp + k\<rparr>"
  have "p_runqtail pp - (p_runqhead pp + k) = of_nat (ring_len pp) - of_nat n"
    by (simp add: ring_len_word assms(3))
  also have "\<dots> = (of_nat (ring_len pp - n) :: u32)" using assms(2) by (simp add: of_nat_diff)
  finally have "ring_len ?pp = unat (of_nat (ring_len pp - n) :: u32)" by (simp add: ring_len_def)
  moreover have "ring_len pp < 2 ^ 32" using assms(1) by (simp add: wf_p_def)
  ultimately have len: "ring_len ?pp = ring_len pp - n"
    by (simp add: unat_of_nat)
  then show "wf_p ?pp" using assms(1) unfolding wf_p_def by auto
  show "ring ?pp = drop n (ring pp)"
  proof (rule nth_equalityI)
    fix i
    assume "i < length (ring ?pp)"
    then have i: "i < ring_len pp - n" by (simp add: len)
    then show "ring ?pp ! i = drop n (ring pp) ! i"
      using ring_nth [of i ?pp] ring_nth [of "n + i" pp] len by (simp add: assms(3) add.assoc)
  qed (simp add: len)
qed

text \<open>The ring of a P without \<open>runnext\<close> is a bounded queue.\<close>

definition ring_rep :: "p \<Rightarrow> uintptr list \<Rightarrow> bool" where
  "ring_rep pp xs \<longleftrightarrow> wf_p pp \<and> p_runnext pp = 0 \<and> ring pp = xs"

definition ring_room :: "uintptr \<Rightarrow> uintptr list \<Rightarrow> bool" where
  "ring_room g xs \<longleftrightarrow> length xs < 256"

definition ring_get :: "p \<Rightarrow> p \<times> uintptr" where
  "ring_get pp = (let (pp, gp, inheritTime) = runqget pp in (pp, gp))"

lemma ring_empty_iff: "p_runqtail pp = p_runqhead pp \<longleftrightarrow> ring pp = []"
proof -
  have "p_runqtail pp = p_runqhead pp \<longleftrightarrow> ring_len pp = 0" by (simp add: ring_len_def unat_eq_0)
  then show ?thesis by (metis length_0_conv ring_length)
qed

lemma runqget_ring:
  assumes "wf_p pp" and "p_runnext pp = 0" and "ring pp = g # xs"
  obtains pp' where "runqget pp = (pp', g, False)" and "wf_p pp'" and "p_runnext pp' = 0"
    and "ring pp' = xs"
proof -
  have n: "1 \<le> ring_len pp" using assms(3) by (metis length_Cons le_add1 plus_1_eq_Suc ring_length)
  have "p_runqtail pp \<noteq> p_runqhead pp" using assms(3) by (simp add: ring_empty_iff)
  moreover have "p_runq pp ! slot (p_runqhead pp) = g"
    using ring_nth [of 0 pp] n assms(3) by simp
  ultimately have "runqget pp = (pp\<lparr>p_runqhead := p_runqhead pp + 1\<rparr>, g, False)"
    using assms(2) by (simp add: runqget_def Let_def)
  then show thesis
    using that ring_advance [OF assms(1) n, of 1] assms(2,3) by simp
qed

interpretation lrq: fifo ring_rep ring_room ring_put ring_get
proof
  show "ring_rep (ring_put g s) (xs @ [g])" if "ring_rep s xs" "ring_room g xs" for s xs g
    using that ring_append [of s g] by (auto simp: ring_rep_def ring_room_def)
  show "snd (ring_get s) = g \<and> ring_rep (fst (ring_get s)) xs" if "ring_rep s (g # xs)" for s g xs
    using that by (auto simp: ring_rep_def ring_get_def elim: runqget_ring [of s g xs])
  show "ring_get s = (s, 0)" if "ring_rep s []" for s
    using that ring_empty_iff [of s] by (simp add: ring_rep_def ring_get_def runqget_def)
qed

section \<open>One P and the global queue\<close>

definition with_next :: "uintptr \<Rightarrow> uintptr list \<Rightarrow> uintptr list" where
  "with_next nx xs = (if nx = 0 then [] else [nx]) @ xs"

text \<open>The P holds \<open>nx\<close> in \<open>runnext\<close> and \<open>xs\<close> in its ring, the scheduler \<open>ys\<close>.\<close>

definition sched_rep :: "sched \<Rightarrow> uintptr list \<Rightarrow> bool" where
  "sched_rep sc ys \<longleftrightarrow> gq_rep (sc_links sc, sc_runq sc) ys \<and> sc_runqsize sc = int (length ys)"

definition rq_rep :: "p \<Rightarrow> sched \<Rightarrow> uintptr \<Rightarrow> uintptr list \<Rightarrow> uintptr list \<Rightarrow> bool" where
  "rq_rep pp sc nx xs ys \<longleftrightarrow> wf_p pp \<and> p_runnext pp = nx \<and> ring pp = xs \<and> sched_rep sc ys
     \<and> goroutines (with_next nx xs @ ys)"

lemma link_batch_frame: "g \<notin> set gs \<Longrightarrow> link_batch gs lk g = lk g"
  by (induction gs lk rule: link_batch.induct) auto

lemma link_batch_chain:
  "distinct (g # gs) \<Longrightarrow> chain (link_batch (g # gs) lk) g (g # gs) (lk (last (g # gs)))"
proof (induction gs arbitrary: g lk)
  case (Cons b gs)
  have g: "link_batch (b # gs) (lk(g := b)) g = b"
    using Cons.prems link_batch_frame [of g "b # gs"] by simp
  have "last (b # gs) \<noteq> g"
    using Cons.prems last_in_set [of "b # gs"] by (metis distinct.simps(2) list.distinct(1))
  then have eq: "(lk(g := b)) (last (b # gs)) = lk (last (b # gs))" by (rule fun_upd_other)
  have "chain (link_batch (b # gs) (lk(g := b))) b (b # gs) ((lk(g := b)) (last (b # gs)))"
    using Cons.prems by (intro Cons.IH) simp
  then have "chain (link_batch (b # gs) (lk(g := b))) (link_batch (b # gs) (lk(g := b)) g)
      (b # gs) (lk (last (b # gs)))" unfolding g eq .
  moreover have "last (g # b # gs) = last (b # gs)" by simp
  ultimately show ?case by (simp only: link_batch.simps(1) chain.simps(2) [of _ _ g] simp_thms)
qed simp

lemma sched_putbatch:
  assumes "sched_rep sc ys" and "goroutines (ys @ b # bs)" and "n = int (length (b # bs))"
    and "q_head q = b" and "q_tail q = last (b # bs)"
    and "sc' = sc\<lparr>sc_links := link_batch (b # bs) (sc_links sc)\<rparr>"
  shows "sched_rep (fst (globrunqputbatch q n sc')) (ys @ b # bs)"
proof -
  let ?lk = "link_batch (b # bs) (sc_links sc)"
  have d: "distinct (b # bs)" "set ys \<inter> set (b # bs) = {}" using assms(2) by (auto simp: goroutines_def)
  have "chain ?lk (q_head (sc_runq sc)) ys 0 \<longleftrightarrow> chain (sc_links sc) (q_head (sc_runq sc)) ys 0"
    using d(2) by (intro chain_cong link_batch_frame) auto
  then have "gq_rep (?lk, sc_runq sc) ys" using assms(1) by (simp add: sched_rep_def gq_rep_def)
  then have "gq_rep (gq_pushBackAll q (?lk, sc_runq sc)) (ys @ b # bs)"
    using link_batch_chain [OF d(1)] assms(2,4,5)
    by (intro gq_pushBackAll_rep) (auto simp: tail_of_def)
  then show ?thesis using assms(1,3)
    by (simp add: globrunqputbatch_def assms(6) sched_rep_def case_prod_beta Let_def)
qed

lemma goroutines_mset: "mset gs = mset gs' \<Longrightarrow> goroutines gs = goroutines gs'"
  unfolding goroutines_def by (metis mset_eq_imp_distinct_iff mset_eq_setD)

lemma goroutines_insert:
  "goroutines gs \<Longrightarrow> g \<noteq> 0 \<Longrightarrow> g \<notin> set gs \<Longrightarrow> mset gs' = mset (g # gs) \<Longrightarrow> goroutines gs'"
  using goroutines_mset [of gs' "g # gs"] by (simp add: goroutines_def)

lemma mset_take_drop: "mset (take n xs) + mset (drop n xs) = mset xs"
  by (metis append_take_drop_id mset_append)

lemma mset_with_next: "mset (with_next nx xs) = (if nx = 0 then {#} else {#nx#}) + mset xs"
  by (simp add: with_next_def)

lemma runqputslow_full:
  assumes "rq_rep pp sc nx xs ys" and "length xs = 256" and "gp \<noteq> 0" and "gp \<notin> set (with_next nx xs @ ys)"
  obtains pp' sc' where
    "runqputslow gp (p_runqhead pp) (p_runqtail pp) pp sc = Ret (pp', sc', True)"
    and "rq_rep pp' sc' nx (drop 128 xs) (ys @ take 128 xs @ [gp])"
proof -
  have wf: "wf_p pp" and xs: "ring pp = xs" and nx: "p_runnext pp = nx" and sc: "sched_rep sc ys"
    and g: "goroutines (with_next nx xs @ ys)" using assms(1) by (auto simp: rq_rep_def)
  have len: "ring_len pp = 256" using assms(2) xs by (metis ring_length)
  then have n: "(p_runqtail pp - p_runqhead pp) div 2 = 128" by (simp flip: ring_len_word)
  have batch: "map (\<lambda>i. p_runq pp ! slot (p_runqhead pp + of_nat i)) [0..<128] = take 128 xs"
    using xs len by (auto simp: ring_def take_map)
  obtain b bs where b: "take 128 xs = b # bs" using assms(2) by (cases "take 128 xs") auto
  have "length (b # bs) = 128" unfolding b [symmetric] using assms(2) by simp
  then have lbs: "length bs = 127" by simp
  define sc1 where "sc1 = sc\<lparr>sc_links := link_batch (b # bs @ [gp]) (sc_links sc)\<rparr>"
  define q where "q = \<lparr>q_head = b, q_tail = gp\<rparr>"
  have "p_runqhead (pp\<lparr>p_runqhead := p_runqhead pp + 128\<rparr>) = p_runqhead pp + 128" by simp
  have nth: "(b # bs @ [gp]) ! 128 = gp" using lbs by (simp add: nth_append)
  have eq: "runqputslow gp (p_runqhead pp) (p_runqtail pp) pp sc
      = Ret (pp\<lparr>p_runqhead := p_runqhead pp + 128\<rparr>, fst (globrunqputbatch q 129 sc1), True)"
    using nth
    by (simp add: runqputslow_def Let_def n runqLen_def batch b sc1_def q_def case_prod_beta)
  have "mset (with_next nx (drop 128 xs) @ ys @ take 128 xs @ [gp]) = mset (gp # with_next nx xs @ ys)"
    using mset_take_drop [of 128 xs] by (simp add: mset_with_next ac_simps)
  then have all: "goroutines (with_next nx (drop 128 xs) @ ys @ take 128 xs @ [gp])"
    by (rule goroutines_insert [OF g assms(3,4)])
  then have "goroutines (ys @ b # bs @ [gp])" by (simp add: goroutines_def b)
  then have "sched_rep (fst (globrunqputbatch q 129 sc1)) (ys @ b # bs @ [gp])"
    using lbs by (intro sched_putbatch [OF sc]) (simp_all add: q_def sc1_def)
  moreover have "wf_p (pp\<lparr>p_runqhead := p_runqhead pp + 128\<rparr>)"
    "ring (pp\<lparr>p_runqhead := p_runqhead pp + 128\<rparr>) = drop 128 xs"
    using ring_advance [OF wf, of 128 128] len xs by simp_all
  ultimately show thesis using that eq all nx b by (simp add: rq_rep_def)
qed

text \<open>What \<open>runqput\<close> does to the three lists.\<close>

fun spec_put :: "uintptr \<Rightarrow> uintptr \<times> uintptr list \<times> uintptr list \<Rightarrow> uintptr \<times> uintptr list \<times> uintptr list" where
  "spec_put gp (nx, xs, ys) =
     (if length xs < 256 then (nx, xs @ [gp], ys)
      else (nx, drop 128 xs, ys @ take 128 xs @ [gp]))"

fun spec_runqput :: "uintptr \<Rightarrow> bool \<Rightarrow> uintptr \<times> uintptr list \<times> uintptr list \<Rightarrow> uintptr \<times> uintptr list \<times> uintptr list" where
  "spec_runqput gp next (nx, xs, ys) =
     (if \<not> next then spec_put gp (nx, xs, ys)
      else if nx = 0 then (gp, xs, ys)
      else spec_put nx (gp, xs, ys))"

fun rq_reps :: "p \<times> sched \<Rightarrow> uintptr \<times> uintptr list \<times> uintptr list \<Rightarrow> bool" where
  "rq_reps (pp, sc) (nx, xs, ys) = rq_rep pp sc nx xs ys"

lemma runqput_retry_spec:
  assumes r: "rq_rep pp sc nx xs ys" and gp: "gp \<noteq> 0" "gp \<notin> set (with_next nx xs @ ys)"
  obtains s where "runqput_retry (Suc k) gp pp sc = Ret s" and "rq_reps s (spec_put gp (nx, xs, ys))"
proof -
  have wf: "wf_p pp" and xs: "ring pp = xs" and len: "ring_len pp = length xs"
    and g: "goroutines (with_next nx xs @ ys)" using r by (auto simp: rq_rep_def)
  show thesis
  proof (cases "length xs < 256")
    case True
    then have "runqput_retry (Suc k) gp pp sc = Ret (ring_put gp pp, sc)"
      using len by (simp add: full_test)
    moreover have "mset (with_next nx (xs @ [gp]) @ ys) = mset (gp # with_next nx xs @ ys)"
      by (simp add: mset_with_next)
    then have "goroutines (with_next nx (xs @ [gp]) @ ys)"
      by (rule goroutines_insert [OF g gp])
    then have "rq_rep (ring_put gp pp) sc nx (xs @ [gp]) ys"
      using r ring_append [OF wf, of gp] True len by (simp add: rq_rep_def)
    ultimately show ?thesis using that True by simp
  next
    case False
    then have l: "length xs = 256" using wf len by (simp add: wf_p_def)
    obtain pp' sc' where "runqputslow gp (p_runqhead pp) (p_runqtail pp) pp sc = Ret (pp', sc', True)"
      and "rq_rep pp' sc' nx (drop 128 xs) (ys @ take 128 xs @ [gp])"
      by (rule runqputslow_full [OF r l gp])
    then show ?thesis using that l len by (simp add: full_test)
  qed
qed

lemma runqput_spec:
  assumes r: "rq_rep pp sc nx xs ys" and gp: "gp \<noteq> 0" "gp \<notin> set (with_next nx xs @ ys)"
  obtains s where "runqput gp next pp sc = Ret s" and "rq_reps s (spec_runqput gp next (nx, xs, ys))"
proof -
  show thesis
  proof (cases "next")
    case False
    obtain s where "runqput_retry (Suc 1) gp pp sc = Ret s" and "rq_reps s (spec_put gp (nx, xs, ys))"
      by (rule runqput_retry_spec [OF r gp])
    then show ?thesis using that False by (simp add: runqput_def numeral_2_eq_2 del: runqput_retry.simps spec_put.simps)
  next
    case True
    let ?pp = "pp\<lparr>p_runnext := gp\<rparr>"
    have nx: "p_runnext pp = nx" using r by (simp add: rq_rep_def)
    have same: "wf_p ?pp = wf_p pp" "ring ?pp = ring pp" by (simp_all add: wf_p_def ring_def ring_len_def)
    have "goroutines (with_next gp xs @ ys)" using r gp by (auto simp: rq_rep_def goroutines_def with_next_def)
    then have r': "rq_rep ?pp sc gp xs ys" using r same by (simp add: rq_rep_def)
    show ?thesis
    proof (cases "nx = 0")
      case True
      then show ?thesis using that \<open>next\<close> nx r' by (simp add: runqput_def)
    next
      case False
      then have "nx \<notin> set (with_next gp xs @ ys)"
        using r gp by (auto simp: rq_rep_def goroutines_def with_next_def)
      then obtain s where "runqput_retry (Suc 1) nx ?pp sc = Ret s" and "rq_reps s (spec_put nx (gp, xs, ys))"
        using runqput_retry_spec [OF r' False] by blast
      then show ?thesis using that False \<open>next\<close> nx
        by (simp add: runqput_def numeral_2_eq_2 del: runqput_retry.simps spec_put.simps)
    qed
  qed
qed

lemma runqget_spec:
  assumes r: "rq_rep pp sc nx xs ys"
  obtains pp' where "runqget pp = (if nx \<noteq> 0 then (pp', nx, True)
      else if xs = [] then (pp', 0, False) else (pp', hd xs, False))"
    and "rq_rep pp' sc 0 (if nx \<noteq> 0 then xs else tl xs) ys"
proof (cases "nx = 0")
  case False
  let ?pp = "pp\<lparr>p_runnext := 0\<rparr>"
  have "wf_p ?pp = wf_p pp" "ring ?pp = ring pp" by (simp_all add: wf_p_def ring_def ring_len_def)
  then have "rq_rep ?pp sc 0 xs ys" using r by (auto simp: rq_rep_def with_next_def goroutines_def)
  then show ?thesis using that [of ?pp] r False by (simp add: runqget_def rq_rep_def)
next
  case True
  then have wf: "wf_p pp" and nx: "p_runnext pp = 0" and xs: "ring pp = xs" using r by (auto simp: rq_rep_def)
  show ?thesis
  proof (cases xs)
    case Nil
    then have "runqget pp = (pp, 0, False)"
      using nx xs ring_empty_iff [of pp] by (simp add: runqget_def)
    then show ?thesis using that r True Nil by simp
  next
    case (Cons g gs)
    obtain pp' where "runqget pp = (pp', g, False)" "wf_p pp'" "p_runnext pp' = 0" "ring pp' = gs"
      using runqget_ring [OF wf nx] xs Cons by blast
    moreover then have "rq_rep pp' sc 0 gs ys"
      using r True Cons by (auto simp: rq_rep_def with_next_def goroutines_def)
    ultimately show ?thesis using that True Cons by simp
  qed
qed

section \<open>Stealing\<close>

lemma grab_loop_length [simp]: "length (grab_loop k i rr h bh batch) = length batch"
  by (induction k i rr h bh batch rule: grab_loop.induct) simp_all

lemma grab_loop_other:
  assumes "\<And>j. i \<le> j \<Longrightarrow> j < i + k \<Longrightarrow> slot (bh + of_nat j) \<noteq> s"
  shows "grab_loop k i rr h bh batch ! s = batch ! s"
  using assms
proof (induction k i rr h bh batch rule: grab_loop.induct)
  case (2 k i rr h bh batch)
  have "slot (bh + of_nat i) \<noteq> s" using 2(2) [of i] by simp
  moreover have "slot (bh + of_nat j) \<noteq> s" if "Suc i \<le> j" "j < Suc i + k" for j
    using 2(2) [of j] that by simp
  ultimately show ?case using 2(1) by simp
qed simp

lemma grab_loop_nth:
  assumes "i \<le> j" "j < i + k" "i + k \<le> 256" "length batch = 256"
  shows "grab_loop k i rr h bh batch ! slot (bh + of_nat j) = rr ! slot (h + of_nat j)"
  using assms
proof (induction k i rr h bh batch rule: grab_loop.induct)
  case (2 k i rr h bh batch)
  show ?case
  proof (cases "j = i")
    case True
    have "slot (bh + of_nat m) \<noteq> slot (bh + of_nat i)" if "Suc i \<le> m" "m < Suc i + k" for m
      using slot_inj [of m i bh] that 2(4) by auto
    then show ?thesis using True 2(5) by (simp add: grab_loop_other)
  next
    case False
    then show ?thesis using 2(1) 2(2-5) by simp
  qed
qed simp

text \<open>Writing free slots does not change the ring; advancing the tail over them appends them.\<close>

lemma ring_extend:
  assumes "wf_p pp" and "ring_len pp + m \<le> 256" and "length L = 256"
    and keep: "\<And>i. i < ring_len pp \<Longrightarrow>
        L ! slot (p_runqhead pp + of_nat i) = p_runq pp ! slot (p_runqhead pp + of_nat i)"
    and k: "k = of_nat m"
  shows "wf_p (pp\<lparr>p_runq := L, p_runqtail := p_runqtail pp + k\<rparr>)"
    and "ring (pp\<lparr>p_runq := L, p_runqtail := p_runqtail pp + k\<rparr>)
      = ring pp @ map (\<lambda>j. L ! slot (p_runqtail pp + of_nat j)) [0..<m]"
proof -
  let ?pp = "pp\<lparr>p_runq := L, p_runqtail := p_runqtail pp + k\<rparr>"
  have "p_runqtail pp + k - p_runqhead pp = of_nat (ring_len pp + m)"
    by (simp add: ring_len_word k)
  then have "ring_len ?pp = unat (of_nat (ring_len pp + m) :: u32)"
    unfolding ring_len_def [of ?pp] by simp
  then have len: "ring_len ?pp = ring_len pp + m" using assms(2) unfolding unat_of_nat by simp
  then show "wf_p ?pp" using assms(2,3) by (simp add: wf_p_def)
  show "ring ?pp = ring pp @ map (\<lambda>j. L ! slot (p_runqtail pp + of_nat j)) [0..<m]"
  proof (rule nth_equalityI)
    fix i
    assume "i < length (ring ?pp)"
    then have i: "i < ring_len pp + m" by (simp add: len)
    have nth: "ring ?pp ! i = L ! slot (p_runqhead pp + of_nat i)" using ring_nth [of i ?pp] i len by simp
    show "ring ?pp ! i = (ring pp @ map (\<lambda>j. L ! slot (p_runqtail pp + of_nat j)) [0..<m]) ! i"
    proof (cases "i < ring_len pp")
      case True
      then show ?thesis using nth keep by (simp add: nth_append ring_nth)
    next
      case False
      then obtain d where d: "i = ring_len pp + d" "d < m" using i by (metis add_less_cancel_left le_Suc_ex not_less)
      then have "p_runqhead pp + of_nat i = p_runqtail pp + of_nat d" by (simp add: tail_head)
      then have "ring ?pp ! i = L ! slot (p_runqtail pp + of_nat d)" using nth by (simp only:)
      then show ?thesis using d by (simp add: nth_append)
    qed
  qed (simp add: len)
qed

lemma half_up: "unat (t - h :: u32) = n \<Longrightarrow> unat ((t - h) - (t - h) div 2) = n - n div 2"
  by (simp add: unat_sub word_le_nat_alt unat_div)

text \<open>
  The spec of a theft from a victim with \<open>nx2\<close> in \<open>runnext\<close> and \<open>xs2\<close> in its ring: the older
  half, rounded up, moves; the last of them is returned, the others join the thief's ring.
\<close>

definition steal_count :: "uintptr list \<Rightarrow> nat" where
  "steal_count xs = length xs - length xs div 2"

fun spec_steal :: "bool \<Rightarrow> uintptr list \<Rightarrow> uintptr \<times> uintptr list
    \<Rightarrow> uintptr list \<times> (uintptr \<times> uintptr list) \<times> uintptr" where
  "spec_steal stealNext xs1 (nx2, xs2) =
     (if xs2 = [] then (if stealNext then (xs1, (0, []), nx2) else (xs1, (nx2, []), 0))
      else let st = take (steal_count xs2) xs2
           in (xs1 @ butlast st, (nx2, drop (steal_count xs2) xs2), last st))"

lemma steal_count_bound:
  assumes "wf_p p2"
  shows "steal_count (ring p2) \<le> 128"
proof -
  have "ring_len p2 \<le> 256" using assms by (simp add: wf_p_def)
  then show ?thesis by (simp add: steal_count_def)
qed

text \<open>What \<open>runqgrab\<close> takes from a ring that is not empty.\<close>

lemma runqgrab_half:
  assumes wf: "wf_p p2" and ne: "ring p2 \<noteq> []"
  shows "runqgrab p2 batch t stealNext
    = Ret (p2\<lparr>p_runqhead := p_runqhead p2 + of_nat (steal_count (ring p2))\<rparr>,
           grab_loop (steal_count (ring p2)) 0 (p_runq p2) (p_runqhead p2) t batch,
           of_nat (steal_count (ring p2)))"
proof -
  define n where "n = (p_runqtail p2 - p_runqhead p2) - (p_runqtail p2 - p_runqhead p2) div 2"
  have un: "unat n = steal_count (ring p2)"
    unfolding n_def steal_count_def by (simp add: half_up ring_len_def)
  have "0 < length (ring p2)" using ne unfolding length_greater_0_conv .
  then have k: "0 < steal_count (ring p2)" "steal_count (ring p2) \<le> 128"
    using steal_count_bound [OF wf] by (simp_all add: steal_count_def)
  have "n = of_nat (steal_count (ring p2))" by (simp flip: un)
  moreover have "n \<noteq> 0" using k(1) un by auto
  moreover have "n \<le> 128" using k(2) un by (simp add: word_le_nat_alt)
  ultimately show ?thesis
    unfolding runqgrab_def Let_def n_def [symmetric] using un by (simp add: runqLen_def)
qed

text \<open>The overflow test of \<open>runqsteal\<close>, in numbers.\<close>

lemma steal_overflow_test:
  assumes "wf_p pp" and "k \<le> 128"
  shows "p_runqtail pp - p_runqhead pp + of_nat k \<ge> runqLen \<longleftrightarrow> 256 \<le> ring_len pp + k"
proof -
  have "p_runqtail pp - p_runqhead pp + of_nat k = of_nat (ring_len pp + k)"
    by (simp add: ring_len_word)
  moreover have "unat (of_nat (ring_len pp + k) :: u32) = ring_len pp + k"
    using assms unfolding unat_of_nat by (simp add: wf_p_def)
  ultimately show ?thesis by (simp add: word_le_nat_alt runqLen_def del: of_nat_add)
qed

lemma runqsteal_overflow:
  assumes wf1: "wf_p pp" and wf2: "wf_p p2"
    and full: "2 \<le> steal_count (ring p2)" "256 < ring_len pp + steal_count (ring p2)"
  shows "runqsteal stealNext pp p2 = Panic ''runqsteal: runq overflow''"
proof -
  let ?k = "steal_count (ring p2)"
  have ne: "ring p2 \<noteq> []"
  proof
    assume "ring p2 = []"
    then have "?k = 0" by (simp add: steal_count_def del: ring_length)
    with full(1) show False by simp
  qed
  have "?k \<le> 128" by (rule steal_count_bound [OF wf2])
  have nz: "of_nat j \<noteq> (0 :: u32)" if "0 < j" "j \<le> 128" for j
  proof
    assume "of_nat j = (0 :: u32)"
    then have "unat (of_nat j :: u32) = 0" by simp
    then show False using that unfolding unat_of_nat by simp
  qed
  have "of_nat ?k \<noteq> (0 :: u32)" "of_nat (?k - 1) \<noteq> (0 :: u32)"
    using nz [of ?k] nz [of "?k - 1"] full(1) \<open>?k \<le> 128\<close> by simp_all
  moreover have "of_nat ?k - 1 = (of_nat (?k - 1) :: u32)" using full(1) by (simp add: of_nat_diff)
  ultimately show ?thesis
    using steal_overflow_test [OF wf1, of "?k - 1"] \<open>?k \<le> 128\<close> full
    by (simp add: runqsteal_def runqgrab_half [OF wf2 ne] Let_def del: of_nat_diff)
qed

lemma runqsteal_spec:
  assumes wf1: "wf_p pp" and wf2: "wf_p p2"
    and room: "ring_len pp + steal_count (ring p2) \<le> 256" "ring_len pp < 256"
  obtains pp' p2' g where "runqsteal stealNext pp p2 = Ret (pp', p2', g)"
    and "wf_p pp'" "wf_p p2'" "p_runnext pp' = p_runnext pp"
    and "spec_steal stealNext (ring pp) (p_runnext p2, ring p2) = (ring pp', (p_runnext p2', ring p2'), g)"
proof -
  let ?t = "p_runqtail pp" and ?h2 = "p_runqhead p2" and ?nx = "p_runnext p2"
  define k where "k = steal_count (ring p2)"
  define n where "n = (p_runqtail p2 - ?h2) - (p_runqtail p2 - ?h2) div 2"
  have un: "unat n = k"
    unfolding n_def k_def steal_count_def by (simp add: half_up ring_len_def)
  have l2: "ring_len p2 \<le> 256" and l1: "length (p_runq pp) = 256" using wf1 wf2 by (auto simp: wf_p_def)
  have kb: "k \<le> 128" "k \<le> ring_len p2" using l2 by (simp_all add: k_def steal_count_def)
  show thesis
  proof (cases "ring p2 = []")
    case True
    then have k0: "k = 0" by (simp add: k_def steal_count_def)
    then have n0: "n = 0" using un by (simp add: unat_eq_0)
    show ?thesis
    proof (cases "stealNext \<and> ?nx \<noteq> 0")
      case False
      have "pp\<lparr>p_runq := p_runq pp\<rparr> = pp" by simp
      then have "runqsteal stealNext pp p2 = Ret (pp, p2, 0)"
        using False n0 by (auto simp: runqsteal_def runqgrab_def Let_def n_def)
      then show ?thesis using that [of pp p2 0] False True wf1 wf2 by auto
    next
      case nx: True
      let ?L = "(p_runq pp)[slot ?t := ?nx]"
      let ?pp = "pp\<lparr>p_runq := ?L\<rparr>" and ?p2 = "p2\<lparr>p_runnext := 0\<rparr>"
      have "runqsteal stealNext pp p2 = Ret (?pp, ?p2, ?nx)"
        using nx n0 l1 by (simp add: runqsteal_def runqgrab_def Let_def n_def)
      moreover have "wf_p ?p2" "ring ?p2 = []"
        using wf2 True by (simp_all add: wf_p_def ring_def ring_len_def)
      moreover have "?L ! slot (p_runqhead pp + of_nat i) = p_runq pp ! slot (p_runqhead pp + of_nat i)"
        if "i < ring_len pp" for i
      proof -
        have "slot ?t \<noteq> slot (p_runqhead pp + of_nat i)"
          using slot_inj [of "ring_len pp" i "p_runqhead pp"] that room(2) by (auto simp: tail_head)
        then show ?thesis by simp
      qed
      then have "wf_p ?pp" "ring ?pp = ring pp"
        using ring_extend [OF wf1, of 0 ?L 0] room(2) l1 by simp_all
      ultimately show ?thesis using that [of ?pp ?p2 ?nx] nx True by simp
    qed
  next
    case False
    then have kpos: "0 < k" by (cases "ring p2") (simp_all add: k_def steal_count_def)
    then have npos: "n \<noteq> 0" using un by auto
    let ?L = "grab_loop k 0 (p_runq p2) ?h2 ?t (p_runq pp)"
    let ?p2 = "p2\<lparr>p_runqhead := ?h2 + n\<rparr>"
    let ?pp = "pp\<lparr>p_runq := ?L, p_runqtail := ?t + of_nat (k - 1)\<rparr>"
    have nk: "n = of_nat k" by (simp flip: un)
    have st: "take k (ring p2) = map (\<lambda>j. ?L ! slot (?t + of_nat j)) [0..<k]"
      using kb l1 by (intro nth_equalityI) (simp_all add: grab_loop_nth ring_nth)
    have keep: "?L ! slot (p_runqhead pp + of_nat i) = p_runq pp ! slot (p_runqhead pp + of_nat i)"
      if i: "i < ring_len pp" for i
    proof (rule grab_loop_other)
      fix j
      assume "j < 0 + k"
      then have "ring_len pp + j < 256" "i \<noteq> ring_len pp + j" using room(1) i by (simp_all add: k_def)
      then show "slot (?t + of_nat j) \<noteq> slot (p_runqhead pp + of_nat i)"
        using slot_inj [of "ring_len pp + j" i "p_runqhead pp"] i room(2) by (auto simp: tail_head add.assoc)
    qed
    have n1: "n - 1 = of_nat (k - 1)" using kpos by (simp add: nk of_nat_diff)
    have grab: "runqgrab p2 (p_runq pp) ?t stealNext = Ret (?p2, ?L, n)"
      using runqgrab_half [OF wf2 False] by (simp add: nk flip: k_def)
    have ov: "\<not> (?t - p_runqhead pp + (n - 1) \<ge> runqLen)"
      using steal_overflow_test [OF wf1, of "k - 1"] kb(1) room kpos by (simp add: n1 k_def)
    define gp where "gp = ?L ! slot (?t + (n - 1))"
    have "runqsteal stealNext pp p2 = Ret (?pp, ?p2, gp)"
    proof (cases "n - 1 = 0")
      case True
      moreover have "unat (n - 1) = k - 1" using un npos by (simp add: unat_minus_one)
      ultimately have "k - 1 = 0" by simp
      then show ?thesis using grab npos \<open>n - 1 = 0\<close> by (simp add: runqsteal_def Let_def gp_def)
    next
      case False
      then show ?thesis using grab npos ov by (simp add: runqsteal_def Let_def gp_def n1)
    qed
    moreover have "wf_p ?p2" "ring ?p2 = drop k (ring p2)" using ring_advance [OF wf2 kb(2) nk] by simp_all
    moreover have "wf_p ?pp" "ring ?pp = ring pp @ map (\<lambda>j. ?L ! slot (?t + of_nat j)) [0..<k - 1]"
      using ring_extend [OF wf1, of "k - 1" ?L "of_nat (k - 1)"] room l1 keep by (simp_all add: k_def)
    moreover have "butlast (take k (ring p2)) = map (\<lambda>j. ?L ! slot (?t + of_nat j)) [0..<k - 1]"
      unfolding st by (simp add: butlast_conv_take take_map)
    moreover have "last (take k (ring p2)) = gp"
      unfolding st gp_def using kpos by (simp add: last_map n1)
    ultimately show ?thesis using that [of ?pp ?p2 gp] False by (simp add: k_def Let_def)
  qed
qed

section \<open>Batches from and to the global queue\<close>

lemma globrunqget_loop_spec:
  assumes "gq_rep (sc_links sc, sc_runq sc) (zs @ rest)" and "wf_p pp"
    and "ring_len pp + length zs \<le> 256"
  obtains pp' sc' where "globrunqget_loop (length zs) pp sc = Ret (pp', sc')"
    and "wf_p pp'" "ring pp' = ring pp @ zs" "p_runnext pp' = p_runnext pp"
    and "gq_rep (sc_links sc', sc_runq sc') rest" "sc_runqsize sc' = sc_runqsize sc"
  using assms
proof (induction zs arbitrary: pp sc thesis)
  case Nil
  then show ?case by simp
next
  case (Cons z zs)
  obtain sc1 where pop: "sched_pop sc = (sc1, z)" and r1: "gq_rep (sc_links sc1, sc_runq sc1) (zs @ rest)"
    and s1: "sc_runqsize sc1 = sc_runqsize sc"
    using gq_pop_rep [of "(sc_links sc, sc_runq sc)" z "zs @ rest"] Cons.prems(2)
    by (simp add: sched_pop_def case_prod_beta Let_def)
  have l: "ring_len pp < 256" using Cons.prems(4) by simp
  then have put: "runqput z False pp sc1 = Ret (ring_put z pp, sc1)"
    by (simp add: runqput_def numeral_2_eq_2 full_test)
  note app = ring_append [OF Cons.prems(3) l, of z]
  have "ring_len (ring_put z pp) = Suc (ring_len pp)"
    using arg_cong [OF app(2), of length] by simp
  then have "ring_len (ring_put z pp) + length zs \<le> 256" using Cons.prems(4) by simp
  then obtain pp' sc' where "globrunqget_loop (length zs) (ring_put z pp) sc1 = Ret (pp', sc')"
    and "wf_p pp'" "ring pp' = ring (ring_put z pp) @ zs" "p_runnext pp' = p_runnext (ring_put z pp)"
    and "gq_rep (sc_links sc', sc_runq sc') rest" "sc_runqsize sc' = sc_runqsize sc1"
    using Cons.IH [OF _ r1 app(1)] by blast
  then show ?case using Cons.prems(1) pop put app(2) s1 by simp
qed

text \<open>How many goroutines \<open>globrunqget\<close> takes from a queue of \<open>len\<close>.\<close>

lemma globrunqget_count_bounds:
  assumes "0 < gomaxprocs" and "0 < len" and "n = globrunqget_count gomaxprocs limit len"
  shows "1 \<le> n" "n \<le> len" "n \<le> 128" "0 < limit \<Longrightarrow> n \<le> limit"
proof -
  have "0 \<le> len div gomaxprocs" using assms(1,2) by (simp add: pos_imp_zdiv_nonneg_iff)
  then show "1 \<le> n" "n \<le> len" "n \<le> 128" "0 < limit \<Longrightarrow> n \<le> limit"
    using assms(2) by (auto simp: assms(3) globrunqget_count_def runqLen_def Let_def)
qed

lemma globrunqget_spec:
  assumes r: "rq_rep pp sc nx xs ys" and "0 < gomaxprocs" and "ys \<noteq> []"
    and n: "n = nat (globrunqget_count gomaxprocs limit (int (length ys)))"
    and room: "length xs + n \<le> 257"
  obtains pp' sc' where "globrunqget gomaxprocs limit pp sc = Ret (pp', sc', hd ys)"
    and "rq_rep pp' sc' nx (xs @ tl (take n ys)) (drop n ys)"
proof -
  obtain y zs where ys: "ys = y # zs" using assms(3) by (cases ys) auto
  have b: "1 \<le> n" "n \<le> length ys"
    using globrunqget_count_bounds [OF assms(2) _ refl, of "int (length ys)" limit] assms(3) n by auto
  have wf: "wf_p pp" and nx: "p_runnext pp = nx" and xs: "ring pp = xs" and len: "ring_len pp = length xs"
    and q: "gq_rep (sc_links sc, sc_runq sc) ys" and size: "sc_runqsize sc = int (length ys)"
    and g: "goroutines (with_next nx xs @ ys)"
    using r by (auto simp: rq_rep_def sched_rep_def)
  define c where "c = globrunqget_count gomaxprocs limit (int (length ys))"
  have c: "c = int n" using b n by (simp add: c_def)
  define sc0 where "sc0 = sc\<lparr>sc_runqsize := sc_runqsize sc - c\<rparr>"
  obtain sc1 where pop: "sched_pop sc0 = (sc1, y)" and r1: "gq_rep (sc_links sc1, sc_runq sc1) zs"
    and s1: "sc_runqsize sc1 = sc_runqsize sc0"
    using gq_pop_rep [of "(sc_links sc0, sc_runq sc0)" y zs] q ys
    by (simp add: sched_pop_def case_prod_beta Let_def sc0_def)
  have tl: "tl (take n ys) = take (n - 1) zs" "drop n ys = drop (n - 1) zs"
    using b(1) by (cases n; simp add: ys)+
  have lz: "length (take (n - 1) zs) = n - 1" using b by (simp add: ys)
  have a1: "gq_rep (sc_links sc1, sc_runq sc1) (take (n - 1) zs @ drop (n - 1) zs)" using r1 by simp
  have a2: "ring_len pp + length (take (n - 1) zs) \<le> 256" using room b(1) len lz by simp
  obtain pp' sc' where loop: "globrunqget_loop (length (take (n - 1) zs)) pp sc1 = Ret (pp', sc')"
    and pp': "wf_p pp'" "ring pp' = ring pp @ take (n - 1) zs" "p_runnext pp' = p_runnext pp"
    and sc': "gq_rep (sc_links sc', sc_runq sc') (drop (n - 1) zs)" "sc_runqsize sc' = sc_runqsize sc1"
    by (rule globrunqget_loop_spec [OF a1 wf a2])
  have "globrunqget gomaxprocs limit pp sc = Ret (pp', sc', y)"
    using size assms(3) loop [unfolded lz] pop b(1)
    by (simp add: globrunqget_def Let_def sc0_def c_def [symmetric] c nat_diff_distrib)
  moreover have "goroutines (with_next nx (xs @ tl (take n ys)) @ drop n ys)"
  proof -
    have "mset (with_next nx xs @ ys) = mset (y # with_next nx (xs @ tl (take n ys)) @ drop n ys)"
      using mset_take_drop [of "n - 1" zs] unfolding tl by (simp add: mset_with_next ys ac_simps)
    from goroutines_mset [OF this] show ?thesis using g by (simp add: goroutines_def)
  qed
  moreover have "sc_runqsize sc' = int (length (drop n ys))"
    using sc'(2) s1 size b c by (simp add: sc0_def of_nat_diff)
  ultimately show thesis
    using that pp' sc'(1) xs nx ys unfolding tl by (simp add: rq_rep_def sched_rep_def)
qed

section \<open>Draining a P\<close>

lemma drain_put_all: "drain_loop gs q = put_all gq_pushBack gs q"
  by (induction gs arbitrary: q) simp_all

lemma pushBack_frame:
  assumes "gq_rep s xs" and "a \<notin> set xs" and "a \<noteq> g"
  shows "fst (gq_pushBack g s) a = fst s a"
proof -
  have "q_tail (snd s) \<noteq> 0 \<Longrightarrow> q_tail (snd s) \<in> set xs"
    using assms(1) last_in_set [of xs] by (auto simp: gq_rep_def tail_of_def split: if_splits)
  then show ?thesis using assms(2,3) by (auto simp: gq_pushBack_def case_prod_beta Let_def)
qed

lemma put_all_frame:
  assumes "gq_rep s xs" and "all_room gq_room gs xs" and "a \<notin> set (xs @ gs)"
  shows "fst (put_all gq_pushBack gs s) a = fst s a"
  using assms
proof (induction gs arbitrary: s xs)
  case (Cons g gs)
  have "gq_rep (gq_pushBack g s) (xs @ [g])" using Cons.prems by (intro gq_pushBack_rep) simp_all
  then have "fst (put_all gq_pushBack gs (gq_pushBack g s)) a = fst (gq_pushBack g s) a"
    using Cons.prems by (intro Cons.IH [of _ "xs @ [g]"]) auto
  then show ?case using pushBack_frame [OF Cons.prems(1)] Cons.prems(3) by simp
qed simp

lemma all_room_goroutines: "goroutines (xs @ gs) \<Longrightarrow> all_room gq_room gs xs"
proof (induction gs arbitrary: xs)
  case (Cons g gs)
  then show ?case using Cons.IH [of "xs @ [g]"] by (auto simp: goroutines_def gq_room_def)
qed simp

lemma rep_frame:
  "gq_rep (lk, q) ys \<Longrightarrow> (\<And>a. a \<in> set ys \<Longrightarrow> lk' a = lk a) \<Longrightarrow> gq_rep (lk', q) ys"
  unfolding gq_rep_def using chain_cong [of ys lk' lk] by auto

lemma runqdrain_spec:
  assumes r: "rq_rep pp sc nx xs ys"
  obtains pp' lk' q n where "runqdrain pp (sc_links sc) = Ret (pp', lk', q, n)"
    and "gq_rep (lk', q) (with_next nx xs)" and "unat n = length (with_next nx xs)"
    and "rq_rep pp' (sc\<lparr>sc_links := lk'\<rparr>) 0 [] ys"
proof -
  let ?lk = "sc_links sc"
  have wf: "wf_p pp" and nx: "p_runnext pp = nx" and xs: "ring pp = xs" and len: "ring_len pp = length xs"
    and q: "gq_rep (?lk, sc_runq sc) ys" and size: "sc_runqsize sc = int (length ys)"
    and g: "goroutines (with_next nx xs @ ys)"
    using r by (auto simp: rq_rep_def sched_rep_def)
  define pp0 where "pp0 = (if nx \<noteq> 0 then pp\<lparr>p_runnext := 0\<rparr> else pp)"
  define pp' where "pp' = pp0\<lparr>p_runqhead := p_runqhead pp0 + of_nat (length xs)\<rparr>"
  have same: "wf_p pp0" "ring pp0 = xs" "ring_len pp0 = length xs" "p_runnext pp0 = 0"
    "p_runqtail pp0 - p_runqhead pp0 = of_nat (length xs)" "p_runqhead pp0 = p_runqhead pp"
    "p_runqtail pp0 = p_runqtail pp" "p_runq pp0 = p_runq pp"
    using wf xs nx len ring_len_word [of pp]
    by (auto simp: pp0_def wf_p_def ring_def ring_len_def)
  have l: "length xs \<le> 256" using same(1,3) by (simp add: wf_p_def)
  define res where "res = put_all gq_pushBack (with_next nx xs) (?lk, gq_new)"
  have room: "all_room gq_room (with_next nx xs) []"
    using g by (intro all_room_goroutines) (auto simp: goroutines_def)
  have rep: "gq_rep res (with_next nx xs)"
    unfolding res_def using gq.put_all_rep [OF gq_rep_new room] by simp
  have frame: "a \<in> set ys \<Longrightarrow> fst res a = ?lk a" for a
    unfolding res_def using put_all_frame [OF gq_rep_new room, of a ?lk] g by (auto simp: goroutines_def)
  have batch: "map (\<lambda>i. p_runq pp ! slot (p_runqhead pp + of_nat i)) [0..<length xs] = xs"
    using same(2) unfolding ring_def same(3,6,8) .
  have wn: "put_all gq_pushBack xs (if nx \<noteq> 0 then gq_pushBack nx (?lk, gq_new) else (?lk, gq_new)) = res"
    by (simp add: res_def with_next_def)
  define n where "n = (if nx \<noteq> 0 then 1 else 0) + (of_nat (length xs) :: u32)"
  have un: "unat n = length (with_next nx xs)"
  proof -
    have "n = of_nat (length (with_next nx xs))" by (simp add: n_def with_next_def)
    moreover have "length (with_next nx xs) < 2 ^ 32" using l by (simp add: with_next_def)
    ultimately show ?thesis by (simp add: unat_of_nat del: of_nat_add)
  qed
  have drain: "runqdrain pp ?lk = Ret (pp', fst res, snd res, n)"
  proof (cases "xs = []")
    case True
    then have "pp' = pp0" by (simp add: pp'_def)
    then show ?thesis using True same(5-7) nx wn
      by (auto simp: runqdrain_def Let_def pp0_def n_def)
  next
    case False
    have c: "unat (of_nat (length xs) :: u32) = length xs" using l unfolding unat_of_nat by simp
    then have "(of_nat (length xs) :: u32) \<noteq> 0" "\<not> of_nat (length xs) > runqLen"
      using False l by (auto simp: word_less_nat_alt runqLen_def)
    then show ?thesis using same(5-8) nx wn batch c
      by (auto simp: runqdrain_def Let_def pp0_def pp'_def n_def drain_put_all)
  qed
  have p': "wf_p pp'" "ring pp' = []" "p_runnext pp' = 0"
    using ring_advance [OF same(1), of "length xs" "of_nat (length xs)"] same(2-4)
    by (simp_all add: pp'_def)
  have "rq_rep pp' (sc\<lparr>sc_links := fst res\<rparr>) 0 [] ys"
    using p' size g rep_frame [OF q frame] by (simp add: rq_rep_def sched_rep_def with_next_def goroutines_def)
  then show thesis using that drain rep un by simp
qed

section \<open>Putting a batch\<close>

lemma putbatch_loop_spec:
  assumes "gq_rep (lk, q) gs" and "wf_p pp" and "256 - ring_len pp < k"
  obtains q' where
    "putbatch_loop k (p_runqhead pp) (p_runqtail pp) n (p_runq pp) (lk, q) =
      (let j = min (256 - ring_len pp) (length gs) in
       (p_runqtail (put_all ring_put (take j gs) pp), n + j,
        p_runq (put_all ring_put (take j gs) pp), (lk, q')))"
    and "gq_rep (lk, q') (drop (256 - ring_len pp) gs)"
  using assms
proof (induction k arbitrary: n pp gs q thesis)
  case (Suc k)
  have e: "gq_empty q \<longleftrightarrow> gs = []"
    using Suc.prems(2) chain_head [of lk "q_head q" gs] by (auto simp: gq_rep_def gq_empty_def goroutines_def)
  show ?case
  proof (cases "gs = [] \<or> \<not> ring_len pp < 256")
    case True
    then have "ring_len pp = 256 \<or> gs = []" using Suc.prems(3) by (auto simp: wf_p_def)
    then show ?thesis using True Suc.prems(1) [of q] Suc.prems(2) e by (auto simp: full_test)
  next
    case False
    then obtain g gs' where gs: "gs = g # gs'" by (cases gs) auto
    obtain q1 where pop: "gq_pop (lk, q) = ((lk, q1), g)" and r1: "gq_rep (lk, q1) gs'"
      using gq_pop_rep [of "(lk, q)" g gs'] Suc.prems(2) gs
      by (cases "gq_pop (lk, q)") (auto simp: gq_pop_def Let_def split: if_splits)
    have l: "ring_len pp < 256" using False by simp
    note app = ring_append [OF Suc.prems(3) l, of g]
    have len: "ring_len (ring_put g pp) = Suc (ring_len pp)"
      using arg_cong [OF app(2), of length] by simp
    obtain q' where ih: "putbatch_loop k (p_runqhead (ring_put g pp)) (p_runqtail (ring_put g pp)) (n + 1)
          (p_runq (ring_put g pp)) (lk, q1) =
      (let j = min (256 - ring_len (ring_put g pp)) (length gs') in
       (p_runqtail (put_all ring_put (take j gs') (ring_put g pp)), n + 1 + j,
        p_runq (put_all ring_put (take j gs') (ring_put g pp)), (lk, q')))"
      and q': "gq_rep (lk, q') (drop (256 - ring_len (ring_put g pp)) gs')"
      using Suc.IH [OF _ r1 app(1)] Suc.prems(4) l len by (metis Suc_diff_Suc Suc_less_eq)
    have m: "256 - ring_len pp = Suc (256 - ring_len (ring_put g pp))" using l len by simp
    have "putbatch_loop (Suc k) (p_runqhead pp) (p_runqtail pp) n (p_runq pp) (lk, q) =
        putbatch_loop k (p_runqhead (ring_put g pp)) (p_runqtail (ring_put g pp)) (n + 1)
          (p_runq (ring_put g pp)) (lk, q1)"
      using False e pop by (simp add: full_test ring_put_def Let_def)
    then show ?thesis using Suc.prems(1) [of q'] ih q' unfolding m gs by (simp add: Let_def)
  qed
qed simp

lemma put_all_ring:
  assumes "wf_p pp" and "ring_len pp + length gs \<le> 256"
  shows "wf_p (put_all ring_put gs pp) \<and> ring (put_all ring_put gs pp) = ring pp @ gs
    \<and> p_runnext (put_all ring_put gs pp) = p_runnext pp
    \<and> p_runqhead (put_all ring_put gs pp) = p_runqhead pp"
  using assms
proof (induction gs arbitrary: pp)
  case (Cons g gs)
  have l: "ring_len pp < 256" using Cons.prems by simp
  note app = ring_append [OF Cons.prems(1) l, of g]
  have "ring_len (ring_put g pp) = Suc (ring_len pp)" using arg_cong [OF app(2), of length] by simp
  then show ?case using Cons.IH [OF app(1)] app(2) Cons.prems(2) by simp
qed simp

lemma p_eqI:
  "p_runnext (p1 :: p) = p_runnext p2 \<Longrightarrow> p_runqhead p1 = p_runqhead p2 \<Longrightarrow>
   p1 = p2\<lparr>p_runq := p_runq p1, p_runqtail := p_runqtail p1\<rparr>"
  by simp

lemma runqputbatch_spec:
  assumes r: "rq_rep pp sc nx xs ys" and q: "gq_rep (sc_links sc, q) gs"
    and g: "goroutines (with_next nx xs @ ys @ gs)" and "qsize = int (length gs)"
  obtains pp' sc' q' where "runqputbatch q qsize pp sc = (pp', sc', q')"
    and "rq_rep pp' sc' nx (xs @ take (256 - length xs) gs) (ys @ drop (256 - length xs) gs)"
    and "gq_empty q'"
proof -
  define room where "room = 256 - length xs"
  define j where "j = min room (length gs)"
  have wf: "wf_p pp" and nx: "p_runnext pp = nx" and xs: "ring pp = xs" and len: "ring_len pp = length xs"
    and sq: "gq_rep (sc_links sc, sc_runq sc) ys" and size: "sc_runqsize sc = int (length ys)"
    using r by (auto simp: rq_rep_def sched_rep_def)
  have l: "length xs \<le> 256" using wf len by (simp add: wf_p_def)
  define pp' where "pp' = put_all ring_put (take j gs) pp"
  have room257: "256 - ring_len pp < 257" by simp
  obtain q' where loop: "putbatch_loop 257 (p_runqhead pp) (p_runqtail pp) 0 (p_runq pp) (sc_links sc, q) =
      (p_runqtail pp', j, p_runq pp', (sc_links sc, q'))"
    and q': "gq_rep (sc_links sc, q') (drop room gs)"
    using putbatch_loop_spec [OF q wf room257, of 0]
    unfolding len j_def pp'_def room_def Let_def by (metis add_0)
  have tk: "take j gs = take room gs" "drop j gs = drop room gs"
    by (simp_all add: j_def min_def)
  have pp': "wf_p pp'" "ring pp' = xs @ take room gs" "p_runnext pp' = nx" "p_runqhead pp' = p_runqhead pp"
    using put_all_ring [OF wf, of "take j gs"] l len nx xs
    by (simp_all add: pp'_def tk) (simp_all add: room_def)
  then have upd: "pp\<lparr>p_runq := p_runq pp', p_runqtail := p_runqtail pp'\<rparr> = pp'"
    using p_eqI [of pp' pp] nx by simp
  have sc: "sc\<lparr>sc_links := sc_links sc\<rparr> = sc" by simp
  have eq: "runqputbatch q qsize pp sc =
      (let (sc', q'') = (if \<not> gq_empty q' then globrunqputbatch q' (qsize - int j) sc else (sc, q'))
       in (pp', sc', q''))"
    unfolding runqputbatch_def Let_def loop by (simp add: upd sc)
  have e: "gq_empty q' \<longleftrightarrow> drop room gs = []"
    using q' chain_head [of "sc_links sc" "q_head q'" "drop room gs"]
    by (auto simp: gq_rep_def gq_empty_def goroutines_def)
  have "mset (with_next nx (xs @ take room gs) @ ys @ drop room gs) = mset (with_next nx xs @ ys @ gs)"
    using mset_take_drop [of room gs] by (simp add: mset_with_next ac_simps)
  from goroutines_mset [OF this] g
  have all: "goroutines (with_next nx (xs @ take room gs) @ ys @ drop room gs)" by simp
  show thesis
  proof (cases "drop room gs = []")
    case True
    then have "runqputbatch q qsize pp sc = (pp', sc, q')" using e by (simp add: eq)
    moreover have "rq_rep pp' sc nx (xs @ take room gs) (ys @ drop room gs)"
      using pp' sq size all True by (simp add: rq_rep_def sched_rep_def)
    ultimately show ?thesis using that e True by (simp add: room_def)
  next
    case False
    define sc' where "sc' = fst (globrunqputbatch q' (qsize - int j) sc)"
    have "runqputbatch q qsize pp sc = (pp', sc', gq_new)"
      using e False by (simp add: eq sc'_def globrunqputbatch_def case_prod_beta Let_def)
    moreover have "gq_rep (gq_pushBackAll q' (sc_links sc, sc_runq sc)) (ys @ drop room gs)"
      using q' all by (intro gq_pushBackAll_rep [OF sq, of _ _ 0]) (auto simp: gq_rep_def goroutines_def)
    then have "sched_rep sc' (ys @ drop room gs)"
      using size assms(4) False
      by (simp add: sc'_def globrunqputbatch_def sched_rep_def case_prod_beta Let_def j_def of_nat_diff)
    then have "rq_rep pp' sc' nx (xs @ take room gs) (ys @ drop room gs)"
      using pp' all by (simp add: rq_rep_def)
    ultimately show ?thesis using that by (simp add: room_def gq_empty_def gq_new_def)
  qed
qed

section \<open>Properties\<close>

text \<open>An empty P and global queue, and a P that holds the goroutines 8, 16, \<dots>.\<close>

definition idle_p :: p where
  "idle_p = \<lparr>p_runqhead = 2 ^ 32 - 2, p_runqtail = 2 ^ 32 - 2, p_runq = replicate 256 0, p_runnext = 0\<rparr>"

definition idle_sched :: sched where
  "idle_sched = \<lparr>sc_links = (\<lambda>_. 0), sc_runq = gq_new, sc_runqsize = 0\<rparr>"

definition busy_p :: "nat \<Rightarrow> p" where
  "busy_p n = put_all ring_put (map (\<lambda>i. of_nat (8 * Suc i)) [0..<n]) idle_p"

lemma idle_wf: "wf_p idle_p" "ring idle_p = []" "ring_len idle_p = 0"
  by (simp_all add: wf_p_def ring_def ring_len_def idle_p_def)

lemma idle_rep: "rq_rep idle_p idle_sched 0 [] []"
  using idle_wf gq_rep_new
  by (simp add: rq_rep_def sched_rep_def idle_sched_def idle_p_def with_next_def goroutines_def)

lemma busy_ring: "n \<le> 256 \<Longrightarrow> wf_p (busy_p n) \<and> ring (busy_p n) = map (\<lambda>i. of_nat (8 * Suc i)) [0..<n]
    \<and> p_runnext (busy_p n) = 0"
  using put_all_ring [OF idle_wf(1), of "map (\<lambda>i. of_nat (8 * Suc i)) [0..<n]"] idle_wf
  by (simp add: busy_p_def) (simp add: idle_p_def)

lemma busy_rep: "n \<le> 256 \<Longrightarrow> rq_rep (busy_p n) idle_sched 0 (map (\<lambda>i. of_nat (8 * Suc i)) [0..<n]) []"
proof -
  assume n: "n \<le> 256"
  have inj: "inj_on (\<lambda>i. of_nat (8 * Suc i) :: uintptr) {0..<n}"
  proof (rule inj_onI)
    fix i j
    assume b: "i \<in> {0..<n}" "j \<in> {0..<n}" and "(of_nat (8 * Suc i) :: uintptr) = of_nat (8 * Suc j)"
    then have "unat (of_nat (8 * Suc i) :: uintptr) = unat (of_nat (8 * Suc j) :: uintptr)" by (simp only:)
    then show "i = j" using b n unfolding unat_of_nat by simp
  qed
  have "(of_nat (8 * Suc i) :: uintptr) \<noteq> 0" if "i < n" for i
  proof
    assume "(of_nat (8 * Suc i) :: uintptr) = 0"
    then have "unat (of_nat (8 * Suc i) :: uintptr) = 0" by (simp only: unsigned_0)
    then show False using that n unfolding unat_of_nat by simp
  qed
  then have "goroutines (map (\<lambda>i. of_nat (8 * Suc i)) [0..<n])"
    using inj by (auto simp: goroutines_def distinct_map simp del: of_nat_mult of_nat_Suc)
  then show ?thesis using busy_ring [OF n] idle_rep by (simp add: rq_rep_def with_next_def)
qed

lemma busy_fresh:
  assumes "n \<le> 256" and "2048 < unat g"
  shows "g \<notin> set (with_next 0 (map (\<lambda>i. of_nat (8 * Suc i)) [0..<n]) @ [])"
proof
  assume "g \<in> set (with_next 0 (map (\<lambda>i. of_nat (8 * Suc i)) [0..<n]) @ [])"
  then obtain i where i: "i < n" "g = of_nat (8 * Suc i)" by (auto simp: with_next_def)
  then have "unat g = 8 * Suc i" using assms(1) unfolding i(2) unat_of_nat by simp
  then show False using assms i(1) by simp
qed

text \<open>
  C15. \<open>runqput\<close> refines its specification on three lists: with \<open>next\<close> the goroutine takes the
  \<open>runnext\<close> slot and the one it kicks out is put instead; a put goes to the tail of the ring,
  and when the ring is full the older half of it and then the goroutine go to the tail of the
  global queue, in order. It always returns, and its throw is not reached.
\<close>

theorem runqput_refines:
  assumes "rq_rep pp sc nx xs ys" and "gp \<noteq> 0" and "gp \<notin> set (with_next nx xs @ ys)"
  shows "\<exists>pp' sc'. runqput gp next pp sc = Ret (pp', sc')
    \<and> rq_reps (pp', sc') (spec_runqput gp next (nx, xs, ys))"
proof -
  obtain s where "runqput gp next pp sc = Ret s" "rq_reps s (spec_runqput gp next (nx, xs, ys))"
    by (rule runqput_spec [OF assms])
  then show ?thesis by (cases s) auto
qed

theorem runqput_refines_witness:
  "\<exists>pp' sc'. runqput 4096 False (busy_p 256) idle_sched = Ret (pp', sc')
     \<and> length (ring pp') = 128 \<and> sc_runqsize sc' = 129"
proof -
  have "4096 \<notin> set (with_next 0 (map (\<lambda>i. of_nat (8 * Suc i)) [0..<256]) @ ([] :: uintptr list))"
    by (rule busy_fresh) simp_all
  from runqput_refines [OF busy_rep _ this, of False] show ?thesis
    by (auto simp: rq_rep_def sched_rep_def simp del: ring_length)
qed

text \<open>
  A P runs its goroutines in order: \<open>runqget\<close> gives \<open>runnext\<close> first (inheriting the time
  slice), then the ring from its head, then nil, whatever values the two 32-bit counters have
  reached (they wrap round); and \<open>runqdrain\<close> empties the P into one queue in that same order.
\<close>

theorem runqget_order:
  assumes "rq_rep pp sc nx xs ys"
  shows "(\<exists>pp'. runqget pp = (pp', if nx \<noteq> 0 then nx else if xs = [] then 0 else hd xs, nx \<noteq> 0)
      \<and> rq_rep pp' sc 0 (if nx \<noteq> 0 then xs else tl xs) ys)
    \<and> (\<exists>pp' lk' q n. runqdrain pp (sc_links sc) = Ret (pp', lk', q, n)
      \<and> gq_rep (lk', q) (with_next nx xs) \<and> unat n = length (with_next nx xs)
      \<and> rq_rep pp' (sc\<lparr>sc_links := lk'\<rparr>) 0 [] ys)"
proof
  obtain pp' where "runqget pp = (if nx \<noteq> 0 then (pp', nx, True)
      else if xs = [] then (pp', 0, False) else (pp', hd xs, False))"
    and "rq_rep pp' sc 0 (if nx \<noteq> 0 then xs else tl xs) ys" by (rule runqget_spec [OF assms])
  then show "\<exists>pp'. runqget pp = (pp', if nx \<noteq> 0 then nx else if xs = [] then 0 else hd xs, nx \<noteq> 0)
      \<and> rq_rep pp' sc 0 (if nx \<noteq> 0 then xs else tl xs) ys" by (intro exI [of _ pp']) auto
  show "\<exists>pp' lk' q n. runqdrain pp (sc_links sc) = Ret (pp', lk', q, n)
      \<and> gq_rep (lk', q) (with_next nx xs) \<and> unat n = length (with_next nx xs)
      \<and> rq_rep pp' (sc\<lparr>sc_links := lk'\<rparr>) 0 [] ys"
    by (rule runqdrain_spec [OF assms]) blast
qed

theorem runqget_order_witness:
  "(\<exists>pp'. runqget (busy_p 3) = (pp', 8, False))
   \<and> (\<exists>pp' lk' q n. runqdrain (busy_p 3) (sc_links idle_sched) = Ret (pp', lk', q, n)
        \<and> gq_rep (lk', q) [8, 16, 24])"
proof -
  have l: "map (\<lambda>i. of_nat (8 * Suc i)) [0..<3] = [8, 16, 24 :: uintptr]" by code_simp
  have r: "rq_rep (busy_p 3) idle_sched 0 [8, 16, 24] []" using busy_rep [of 3] unfolding l by simp
  show ?thesis using runqget_order [OF r] by (auto simp: with_next_def)
qed

text \<open>
  What a steal that has room leaves behind: the goroutines of both Ps, none lost or doubled.
\<close>

lemma runqsteal_moves:
  assumes "wf_p pp" and "wf_p p2"
    and "ring_len pp + steal_count (ring p2) \<le> 256" and "ring_len pp < 256" and "0 \<notin> set (ring p2)"
  shows "\<exists>pp' p2' g. runqsteal stealNext pp p2 = Ret (pp', p2', g)
    \<and> spec_steal stealNext (ring pp) (p_runnext p2, ring p2) = (ring pp', (p_runnext p2', ring p2'), g)
    \<and> mset (ring pp) + mset (with_next (p_runnext p2) (ring p2))
        = mset (with_next g (ring pp')) + mset (with_next (p_runnext p2') (ring p2'))
    \<and> wf_p pp' \<and> wf_p p2'"
proof -
  obtain pp' p2' g where s: "runqsteal stealNext pp p2 = Ret (pp', p2', g)" "wf_p pp'" "wf_p p2'"
    and spec: "spec_steal stealNext (ring pp) (p_runnext p2, ring p2) = (ring pp', (p_runnext p2', ring p2'), g)"
    by (rule runqsteal_spec [OF assms(1-4)])
  let ?k = "steal_count (ring p2)"
  have "mset (ring pp) + mset (with_next (p_runnext p2) (ring p2))
        = mset (with_next g (ring pp')) + mset (with_next (p_runnext p2') (ring p2'))"
  proof (cases "ring p2 = []")
    case True
    then show ?thesis using spec by (auto simp: mset_with_next split: if_splits)
  next
    case False
    then have "0 < length (ring p2)" unfolding length_greater_0_conv .
    then have ne: "take ?k (ring p2) \<noteq> []" using False by (auto simp: steal_count_def)
    let ?g = "last (take ?k (ring p2))"
    have m: "mset (take ?k (ring p2)) = mset (butlast (take ?k (ring p2)) @ [?g])"
      unfolding append_butlast_last_id [OF ne] ..
    have "?g \<noteq> 0" using assms(5) last_in_set [OF ne] by (metis in_set_takeD)
    moreover have "ring pp' = ring pp @ butlast (take ?k (ring p2))" "ring p2' = drop ?k (ring p2)"
      "g = ?g" "p_runnext p2' = p_runnext p2" using spec False by (auto simp: Let_def)
    ultimately show ?thesis using mset_take_drop [of ?k "ring p2"] m
      by (simp add: mset_with_next ac_simps)
  qed
  then show ?thesis using s spec by blast
qed

text \<open>
  C14. Stealing. Into a ring with a free slot and room for what is taken, the older half of the
  victim's ring, rounded up, moves: the last of it is returned to run and the others join the
  thief's ring in order; an empty victim gives up its \<open>runnext\<close> when asked to; no goroutine is
  lost or doubled. When two goroutines or more would move and they do not fit, the code throws
  \<open>runqsteal: runq overflow\<close> and the theorem says exactly when. A thief with at most 128
  goroutines in its ring always has room; \<open>findRunnable\<close> steals with an empty one. (A thief
  with a full ring that steals a single goroutine is not covered: the code does not test for
  that and overwrites a slot.)
\<close>

theorem runqsteal_conserves:
  assumes "wf_p pp" and "wf_p p2" and "0 \<notin> set (ring p2)"
  shows "(ring_len pp \<le> 128 \<or> ring_len pp < 256 \<and> ring_len pp + steal_count (ring p2) \<le> 256 \<longrightarrow>
      (\<exists>pp' p2' g. runqsteal stealNext pp p2 = Ret (pp', p2', g)
        \<and> spec_steal stealNext (ring pp) (p_runnext p2, ring p2) = (ring pp', (p_runnext p2', ring p2'), g)
        \<and> mset (ring pp) + mset (with_next (p_runnext p2) (ring p2))
            = mset (with_next g (ring pp')) + mset (with_next (p_runnext p2') (ring p2'))
        \<and> wf_p pp' \<and> wf_p p2'))
    \<and> (2 \<le> steal_count (ring p2) \<and> 256 < ring_len pp + steal_count (ring p2) \<longrightarrow>
        runqsteal stealNext pp p2 = Panic ''runqsteal: runq overflow'')"
proof -
  have "ring_len pp \<le> 128 \<longrightarrow> ring_len pp < 256 \<and> ring_len pp + steal_count (ring p2) \<le> 256"
    using steal_count_bound [OF assms(2)] by simp
  then show ?thesis
    using runqsteal_moves [OF assms(1,2) _ _ assms(3), of stealNext]
      runqsteal_overflow [OF assms(1,2), of stealNext] by blast
qed

theorem runqsteal_conserves_witness:
  "(\<exists>pp' p2' g. runqsteal True idle_p (busy_p 5) = Ret (pp', p2', g)
      \<and> ring pp' = [8, 16] \<and> g = 24 \<and> ring p2' = [32, 40])
   \<and> runqsteal True (busy_p 255) (busy_p 5) = Panic ''runqsteal: runq overflow''"
proof -
  have l: "map (\<lambda>i. of_nat (8 * Suc i)) [0..<5] = [8, 16, 24, 32, 40 :: uintptr]" by code_simp
  have b: "wf_p (busy_p 5)" "ring (busy_p 5) = [8, 16, 24, 32, 40]"
    using busy_ring [of 5] unfolding l by simp_all
  have z: "0 \<notin> set (ring (busy_p 5))" by (simp add: b)
  have f: "wf_p (busy_p 255)" using busy_ring [of 255] by simp
  have f2: "ring_len (busy_p 255) = 255"
    using arg_cong [OF busy_ring [of 255, THEN conjunct2, THEN conjunct1], of length] by simp
  show ?thesis
    using runqsteal_conserves [OF idle_wf(1) b(1) z, of True]
      runqsteal_conserves [OF f b(1) z, of True]
    by (auto simp: b f2 idle_wf steal_count_def)
qed

text \<open>
  \<open>globrunqget\<close> gives the head of the global queue to run and moves its next goroutines, in
  order, to the ring of the P: at least one and at most half a ring, no more than the queue
  has and no more than the limit asked for.
\<close>

theorem globrunqget_takes:
  assumes "rq_rep pp sc nx xs ys" and "0 < gomaxprocs" and "ys \<noteq> []"
    and "n = nat (globrunqget_count gomaxprocs limit (int (length ys)))"
    and "length xs + n \<le> 257"
  shows "(\<exists>pp' sc'. globrunqget gomaxprocs limit pp sc = Ret (pp', sc', hd ys)
      \<and> rq_rep pp' sc' nx (xs @ tl (take n ys)) (drop n ys))
    \<and> 1 \<le> n \<and> n \<le> length ys \<and> n \<le> 128 \<and> (0 < limit \<longrightarrow> int n \<le> limit)"
proof
  show "\<exists>pp' sc'. globrunqget gomaxprocs limit pp sc = Ret (pp', sc', hd ys)
      \<and> rq_rep pp' sc' nx (xs @ tl (take n ys)) (drop n ys)"
    by (rule globrunqget_spec [OF assms]) blast
  show "1 \<le> n \<and> n \<le> length ys \<and> n \<le> 128 \<and> (0 < limit \<longrightarrow> int n \<le> limit)"
    using globrunqget_count_bounds [OF assms(2) _ refl, of "int (length ys)" limit] assms(3,4) by auto
qed

text \<open>A global queue of three goroutines.\<close>

definition three_sched :: sched where
  "three_sched = globrunqput 24 (globrunqput 16 (globrunqput 8 idle_sched))"

lemma globrunqput_rep:
  "sched_rep sc ys \<Longrightarrow> gq_room g ys \<Longrightarrow> sched_rep (globrunqput g sc) (ys @ [g])"
  using gq_pushBack_rep [of "(sc_links sc, sc_runq sc)" ys g]
  by (auto simp: sched_rep_def globrunqput_def case_prod_beta Let_def)

lemma globrunqputhead_rep:
  "sched_rep sc ys \<Longrightarrow> gq_room g ys \<Longrightarrow> sched_rep (globrunqputhead g sc) (g # ys)"
  using gq_push_rep [of "(sc_links sc, sc_runq sc)" ys g]
  by (auto simp: sched_rep_def globrunqputhead_def case_prod_beta Let_def)

lemma three_rep: "rq_rep idle_p three_sched 0 [] [8, 16, 24]"
proof -
  have "sched_rep idle_sched []" using idle_rep by (simp add: rq_rep_def)
  from globrunqput_rep [OF this, of 8] have "sched_rep (globrunqput 8 idle_sched) [8]"
    by (simp add: gq_room_def)
  from globrunqput_rep [OF this, of 16] have "sched_rep (globrunqput 16 (globrunqput 8 idle_sched)) [8, 16]"
    by (simp add: gq_room_def)
  from globrunqput_rep [OF this, of 24] have "sched_rep three_sched [8, 16, 24]"
    by (simp add: gq_room_def three_sched_def)
  then show ?thesis using idle_rep by (simp add: rq_rep_def with_next_def goroutines_def)
qed

theorem globrunqget_takes_witness:
  "\<exists>pp' sc'. globrunqget 2 0 idle_p three_sched = Ret (pp', sc', 8) \<and> rq_rep pp' sc' 0 [16] [24]"
proof -
  have c: "nat (globrunqget_count 2 0 (int (length [8, 16, 24 :: uintptr]))) = 2" by code_simp
  from globrunqget_takes [OF three_rep, of 2 2 0, OF _ _ c [symmetric]] show ?thesis by (simp add: numeral_2_eq_2)
qed

text \<open>
  \<open>runqputbatch\<close> puts the goroutines of a queue, in order, into the ring while it has room
  and all the others at the tail of the global queue; the size of the global queue stays
  exact, and the caller's queue is left empty.
\<close>

theorem runqputbatch_spills:
  assumes "rq_rep pp sc nx xs ys" and "gq_rep (sc_links sc, q) gs"
    and "goroutines (with_next nx xs @ ys @ gs)" and "qsize = int (length gs)"
  shows "\<exists>pp' sc' q'. runqputbatch q qsize pp sc = (pp', sc', q') \<and> gq_empty q'
    \<and> rq_rep pp' sc' nx (xs @ take (256 - length xs) gs) (ys @ drop (256 - length xs) gs)"
  by (rule runqputbatch_spec [OF assms]) blast

theorem runqputbatch_spills_witness:
  "\<exists>pp' sc' q'. runqputbatch (sc_runq three_sched) 3 idle_p (three_sched\<lparr>sc_runq := gq_new, sc_runqsize := 0\<rparr>)
     = (pp', sc', q') \<and> gq_empty q' \<and> ring pp' = [8, 16, 24]"
proof -
  let ?sc = "three_sched\<lparr>sc_runq := gq_new, sc_runqsize := 0\<rparr>"
  have "rq_rep idle_p ?sc 0 [] []"
    using three_rep gq_rep_new [of "sc_links three_sched"]
    by (simp add: rq_rep_def sched_rep_def with_next_def goroutines_def)
  moreover have "gq_rep (sc_links ?sc, sc_runq three_sched) [8, 16, 24]"
    using three_rep by (simp add: rq_rep_def sched_rep_def)
  moreover have "goroutines (with_next 0 [] @ [] @ [8, 16, 24])" by (simp add: goroutines_def with_next_def)
  ultimately show ?thesis using runqputbatch_spills [of idle_p ?sc 0 "[]" "[]" "sc_runq three_sched" "[8, 16, 24]" 3]
    by (auto simp: rq_rep_def)
qed

lemma ring_all_room: "length xs + length gs \<le> 256 \<Longrightarrow> all_room ring_room gs xs"
  by (induction gs arbitrary: xs) (simp_all add: ring_room_def)

text \<open>
  Both queues are first in, first out: goroutines put on a linked queue, or on a ring with
  room for them, come back in the order they were put, after those that were there before.
\<close>

theorem queues_fifo:
  assumes "gq_rep s xs" and "goroutines (xs @ gs)"
    and "ring_rep pp us" and "length us + length gs \<le> 256"
  shows "snd (get_many gq_pop (length xs + length gs) (put_all gq_pushBack gs s)) = xs @ gs
    \<and> snd (get_many ring_get (length us + length gs) (put_all ring_put gs pp)) = us @ gs"
  using gq.first_in_first_out(1) [OF assms(1) all_room_goroutines [OF assms(2)]]
    lrq.first_in_first_out(1) [OF assms(3) ring_all_room [OF assms(4)]] ..

theorem queues_fifo_witness:
  "snd (get_many gq_pop 2 (put_all gq_pushBack [8, 16] (\<lambda>_. 0, gq_new))) = [8, 16]
   \<and> snd (get_many ring_get 2 (put_all ring_put [8, 16] idle_p)) = [8, 16]"
proof -
  have "ring_rep idle_p []" "goroutines ([] @ [8, 16])"
    using idle_wf by (simp_all add: ring_rep_def goroutines_def) (simp add: idle_p_def)
  then show ?thesis using queues_fifo [OF gq_rep_new, of "[8, 16]" idle_p "[]" "\<lambda>_. 0"] by (simp add: numeral_2_eq_2)
qed

end
