(* ===== verification/PollFD.thy ===== *)
theory PollFD
  imports FdMutex NetpollEpoll
begin

text \<open>
  \<^verbatim>\<open>internal/poll\<close>: the type \<open>FD\<close>, its errors (\<^verbatim>\<open>fd.go\<close>), its tie to the network poller
  (\<^verbatim>\<open>fd_poll_runtime.go\<close>), its reference counting (\<^verbatim>\<open>fd_mutex.go\<close>) and its life from \<open>Init\<close>
  to \<open>Close\<close> (\<^verbatim>\<open>fd_unix.go\<close>).

  A method runs in a \<open>world\<close>: the FD, the state of the runtime's poller, the answers that the
  kernel will give to the next system calls, the log of the system calls made with
  their answers, and the events that will happen while a goroutine is parked. A method that waits for an answer or
  an event that never comes is \<open>Blocked\<close>.
\<close>

section \<open>Errors\<close>

datatype error =
    Sys int               \<comment> \<open>\<open>syscall.Errno\<close>\<close>
  | ErrNetClosing
  | ErrFileClosing
  | ErrNoDeadline
  | ErrDeadlineExceeded
  | ErrNotPollable
  | ErrUnsupportedWait    \<comment> \<open>"waiting for unsupported file type"\<close>
  | EOF                   \<comment> \<open>\<open>io.EOF\<close>\<close>
  | ErrUnexpectedEOF      \<comment> \<open>\<open>io.ErrUnexpectedEOF\<close>\<close>

text \<open>\<open>nil\<close> is \<open>None\<close>.\<close>

type_synonym err = "error option"

definition errClosing :: "bool \<Rightarrow> error" where
  "errClosing isFile = (if isFile then ErrFileClosing else ErrNetClosing)"

fun errorText :: "error \<Rightarrow> string option" where
  "errorText ErrNetClosing = Some ''use of closed network connection''"
| "errorText ErrFileClosing = Some ''use of closed file''"
| "errorText ErrNoDeadline = Some ''file type does not support deadline''"
| "errorText ErrDeadlineExceeded = Some ''i/o timeout''"
| "errorText ErrNotPollable = Some ''not pollable''"
| "errorText ErrUnsupportedWait = Some ''waiting for unsupported file type''"
| "errorText _ = None"

text \<open>\<open>errnoErr\<close> returns boxed copies of the common values, and nil for 0.\<close>

definition errnoErr :: "int \<Rightarrow> err" where
  "errnoErr e = (if e = 0 then None else Some (Sys e))"

abbreviation eintr :: err where "eintr \<equiv> Some (Sys EINTR)"
abbreviation eagain :: err where "eagain \<equiv> Some (Sys EAGAIN)"

section \<open>The world of a method\<close>

record FD =
  fd_fdmu :: fdMutex
  fd_Sysfd :: int
  fd_runtimeCtx :: uintptr      \<comment> \<open>the one field of \<open>pd\<close>\<close>
  fd_csema :: u32
  fd_isBlocking :: u32
  fd_IsStream :: bool
  fd_ZeroReadIsEOF :: bool
  fd_isFile :: bool

text \<open>A socket address is nil or some bytes.\<close>

type_synonym sockaddr = "u8 list option"

text \<open>The values of socket options: the structures of package \<open>syscall\<close> with their fields.\<close>

datatype sockopt =
    OptInt int | OptByte u8 | OptInet4Addr "u8 list" | OptLinger int int
  | OptIPMreq "u8 list" "u8 list" | OptIPMreqn "u8 list" "u8 list" int | OptIPv6Mreq "u8 list" u32

text \<open>
  The system calls, with the descriptor and what the model looks at: the bytes written, the
  length of a buffer to read into.
\<close>

datatype syscall =
    SysRead int nat | SysPread int nat int | SysRecvfrom int nat | SysRecvmsg int nat nat int
  | SysWrite int "u8 list" | SysPwrite int "u8 list" int | SysSendto int "u8 list" sockaddr
  | SysSendmsg int "u8 list" nat sockaddr | SysWritev int "u8 list list"
  | SysAccept4 int | SysAccept int | SysClose int | SysCloseOnExec int | SysSetNonblock int bool
  | SysShutdown int int | SysFchmod int u32 | SysFstat int | SysFchown int int int
  | SysFtruncate int int | SysFsync int | SysFchdir int | SysReadDirent int nat
  | SysSeek int int int | SysDup int | SysFcntlDupfdCloexec int | UserFn int
  | SysSendfile int int int | SysCopyFileRange int int int | SysSplice int int int int
  | SysPipe2 | SysSetPipeSize int int
  | SysSetsockopt int int int sockopt | SysGetsockoptInt int int int

text \<open>
  One answer serves all calls: the first result, the second one and the flags of \<open>recvmsg\<close>,
  the address, the error.
\<close>

record answer =
  a_n :: int
  a_oobn :: int
  a_flags :: int
  a_sa :: sockaddr
  a_err :: err

record env =
  e_goos :: string              \<comment> \<open>\<open>runtime.GOOS\<close>\<close>
  e_plat :: platform
  e_kernel :: kernel
  e_pdSize :: nat
  e_mem :: uintptr
  e_now :: int

record world =
  w_fd :: FD
  w_ep :: epoll
  w_serverInit :: bool
  w_dupUnsupported :: bool
  w_gp :: uintptr
  w_env :: env
  w_evs :: "event list"
  w_io :: "answer list"
  w_log :: "(syscall \<times> answer) list"

type_synonym ('s, 'r) prog = "'s \<Rightarrow> 's \<times> 'r outcome"
type_synonym 'r meth = "(world, 'r) prog"

text \<open>Sequencing, and \<open>defer\<close>: the deferred call runs when the body returns and when it panics.\<close>

definition ret :: "'r \<Rightarrow> ('s, 'r) prog" where
  "ret r w = (w, Ret r)"

definition andThen :: "('s, 'a) prog \<Rightarrow> ('a \<Rightarrow> ('s, 'b) prog) \<Rightarrow> ('s, 'b) prog" where
  "andThen m f w = (case m w of
     (w', Ret r) \<Rightarrow> f r w'
   | (w', Panic s) \<Rightarrow> (w', Panic s)
   | (w', Blocked) \<Rightarrow> (w', Blocked))"

definition deferring :: "('s, 'r) prog \<Rightarrow> ('s, 'd) prog \<Rightarrow> ('s, 'r) prog" where
  "deferring m d w = (case m w of
     (w', Blocked) \<Rightarrow> (w', Blocked)
   | (w', r) \<Rightarrow> (case d w' of
        (w'', Ret _) \<Rightarrow> (w'', r)
      | (w'', Panic s) \<Rightarrow> (w'', Panic s)
      | (w'', Blocked) \<Rightarrow> (w'', Blocked)))"

text \<open>\<open>if err := m(); err != nil { return h(err) }\<close>, then the rest.\<close>

definition orReturn :: "('s, err) prog \<Rightarrow> (error \<Rightarrow> 'r) \<Rightarrow> ('s, 'r) prog \<Rightarrow> ('s, 'r) prog" where
  "orReturn m h rest = andThen m (\<lambda>e. case e of Some x \<Rightarrow> ret (h x) | None \<Rightarrow> rest)"

definition set_fd :: "(FD \<Rightarrow> FD) \<Rightarrow> world \<Rightarrow> world" where
  "set_fd f w = w\<lparr>w_fd := f (w_fd w)\<rparr>"

definition syscall :: "syscall \<Rightarrow> answer meth" where
  "syscall c w = (case w_io w of
     [] \<Rightarrow> (w, Blocked)
   | a # as \<Rightarrow> (w\<lparr>w_io := as, w_log := w_log w @ [(c, a)]\<rparr>, Ret a))"

section \<open>The poller of an FD\<close>

definition poll_init :: "err meth" where
  "poll_init w =
     (let (ep, r) = (if w_serverInit w then (w_ep w, Ret ())
                     else poll_runtime_pollServerInit (netpollinit (e_kernel (w_env w))) (w_ep w));
          w = w\<lparr>w_ep := ep, w_serverInit := True\<rparr>
      in case r of
           Panic s \<Rightarrow> (w, Panic s)
         | Blocked \<Rightarrow> (w, Blocked)
         | Ret _ \<Rightarrow>
             (let env = w_env w;
                  (ep, r) = poll_runtime_pollOpen (netpollopen (e_plat env) (e_kernel env))
                    (taggedPointerBits (e_plat env)) (e_pdSize env) (e_mem env)
                    (word_of_int (fd_Sysfd (w_fd w))) (w_ep w);
                  w = w\<lparr>w_ep := ep\<rparr>
              in case r of
                   Panic s \<Rightarrow> (w, Panic s)
                 | Blocked \<Rightarrow> (w, Blocked)
                 | Ret (ctx, errno) \<Rightarrow>
                     (if errno \<noteq> 0 then (w, Ret (errnoErr errno))
                      else (set_fd (fd_runtimeCtx_update (\<lambda>_. ctx)) w, Ret None))))"

definition poll_close :: "unit meth" where
  "poll_close w =
     (let ctx = fd_runtimeCtx (w_fd w) in
      if ctx = 0 then (w, Ret ())
      else
        let (ep, r) = poll_runtime_pollClose (netpollclose (e_kernel (w_env w)))
              (taggedPointerBits (e_plat (w_env w))) ctx (w_ep w);
            w = w\<lparr>w_ep := ep\<rparr>
        in case r of
             Ret _ \<Rightarrow> (set_fd (fd_runtimeCtx_update (\<lambda>_. 0)) w, Ret ())
           | r \<Rightarrow> (w, r))"

definition poll_evict :: "unit meth" where
  "poll_evict w =
     (let ctx = fd_runtimeCtx (w_fd w) in
      if ctx = 0 then (w, Ret ())
      else let (ep, r) = poll_runtime_pollUnblock ctx (w_ep w) in (w\<lparr>w_ep := ep\<rparr>, r))"

definition convertErr :: "int \<Rightarrow> bool \<Rightarrow> err outcome" where
  "convertErr res isFile =
     (if res = pollNoError then Ret None
      else if res = pollErrClosing then Ret (Some (errClosing isFile))
      else if res = pollErrTimeout then Ret (Some ErrDeadlineExceeded)
      else if res = pollErrNotPollable then Ret (Some ErrNotPollable)
      else Panic ''unreachable'')"

definition poll_prepare :: "int \<Rightarrow> bool \<Rightarrow> err meth" where
  "poll_prepare mode isFile w =
     (let ctx = fd_runtimeCtx (w_fd w) in
      if ctx = 0 then (w, Ret None)
      else let (ep, res) = poll_runtime_pollReset ctx mode (w_ep w)
           in (w\<lparr>w_ep := ep\<rparr>, convertErr res isFile))"

definition prepareRead :: "err meth" where
  "prepareRead w = poll_prepare mode_r (fd_isFile (w_fd w)) w"

definition prepareWrite :: "err meth" where
  "prepareWrite w = poll_prepare mode_w (fd_isFile (w_fd w)) w"

definition poll_wait :: "int \<Rightarrow> bool \<Rightarrow> err meth" where
  "poll_wait mode isFile w =
     (let ctx = fd_runtimeCtx (w_fd w) in
      if ctx = 0 then (w, Ret (Some ErrUnsupportedWait))
      else
        let (ep, evs, r) = poll_runtime_pollWait (w_gp w) ctx mode (w_evs w) (w_ep w);
            w = w\<lparr>w_ep := ep, w_evs := evs\<rparr>
        in case r of
             Ret res \<Rightarrow> (w, convertErr res isFile)
           | Panic s \<Rightarrow> (w, Panic s)
           | Blocked \<Rightarrow> (w, Blocked))"

definition waitRead :: "err meth" where
  "waitRead w = poll_wait mode_r (fd_isFile (w_fd w)) w"

definition waitWrite :: "err meth" where
  "waitWrite w = poll_wait mode_w (fd_isFile (w_fd w)) w"

definition waitCanceled :: "int \<Rightarrow> unit meth" where
  "waitCanceled mode w =
     (let ctx = fd_runtimeCtx (w_fd w) in
      if ctx = 0 then (w, Ret ())
      else
        let (ep, evs, r) = poll_runtime_pollWaitCanceled (w_gp w) ctx mode (w_evs w) (w_ep w)
        in (w\<lparr>w_ep := ep, w_evs := evs\<rparr>, r))"

definition pollable :: "world \<Rightarrow> bool" where
  "pollable w \<longleftrightarrow> fd_runtimeCtx (w_fd w) \<noteq> 0"

section \<open>References and locks\<close>

definition with_mutex :: "(fdMutex \<Rightarrow> fdMutex \<times> bool outcome) \<Rightarrow> bool meth" where
  "with_mutex f w = (let (mu, r) = f (fd_fdmu (w_fd w)) in (set_fd (fd_fdmu_update (\<lambda>_. mu)) w, r))"

definition closing_unless :: "bool \<Rightarrow> err meth" where
  "closing_unless b w = (w, Ret (if b then None else Some (errClosing (fd_isFile (w_fd w)))))"

text \<open>
  \<open>destroy\<close>: the poller first, then \<open>CloseFunc\<close> (through \<open>SysFile.destroy\<close>, which does not
  retry on \<open>EINTR\<close>), then the semaphore on which \<open>Close\<close> waits.
\<close>

definition SysFile_destroy :: "int \<Rightarrow> err meth" where
  "SysFile_destroy fd = andThen (syscall (SysClose fd)) (\<lambda>a. ret (a_err a))"

definition fd_destroy :: "err meth" where
  "fd_destroy =
     andThen poll_close (\<lambda>_ w.
       andThen (SysFile_destroy (fd_Sysfd (w_fd w))) (\<lambda>e w.
         (set_fd (\<lambda>fd. fd\<lparr>fd_Sysfd := -1, fd_csema := semrelease (fd_csema fd)\<rparr>) w, Ret e)) w)"

definition fd_incref :: "err meth" where
  "fd_incref = andThen (with_mutex incref) closing_unless"

definition fd_decref :: "err meth" where
  "fd_decref = andThen (with_mutex decref) (\<lambda>last. if last then fd_destroy else ret None)"

definition readLock :: "err meth" where
  "readLock = andThen (with_mutex (rwlock True)) closing_unless"

definition readUnlock :: "unit meth" where
  "readUnlock = andThen (with_mutex (rwunlock True))
     (\<lambda>last. if last then andThen fd_destroy (\<lambda>_. ret ()) else ret ())"

definition writeLock :: "err meth" where
  "writeLock = andThen (with_mutex (rwlock False)) closing_unless"

definition writeUnlock :: "unit meth" where
  "writeUnlock = andThen (with_mutex (rwunlock False))
     (\<lambda>last. if last then andThen fd_destroy (\<lambda>_. ret ()) else ret ())"

section \<open>Init, Close, SetBlocking, deadlines\<close>

definition fd_Init :: "string \<Rightarrow> bool \<Rightarrow> err meth" where
  "fd_Init net isPollable w =
     (let w = (if net = ''file'' then set_fd (fd_isFile_update (\<lambda>_. True)) w else w) in
      if \<not> isPollable then (set_fd (fd_isBlocking_update (\<lambda>_. 1)) w, Ret None)
      else andThen poll_init (\<lambda>e w.
        (if e \<noteq> None then set_fd (fd_isBlocking_update (\<lambda>_. 1)) w else w, Ret e)) w)"

text \<open>\<open>runtime_Semacquire\<close> on \<open>csema\<close>.\<close>

definition csema_acquire :: "unit meth" where
  "csema_acquire w = (case cansemacquire (fd_csema (w_fd w)) of
     None \<Rightarrow> (w, Blocked)
   | Some v \<Rightarrow> (set_fd (fd_csema_update (\<lambda>_. v)) w, Ret ()))"

definition fd_Close :: "err meth" where
  "fd_Close =
     andThen (with_mutex increfAndClose) (\<lambda>ok w.
       if \<not> ok then (w, Ret (Some (errClosing (fd_isFile (w_fd w)))))
       else andThen poll_evict (\<lambda>_. andThen fd_decref (\<lambda>e w.
              if fd_isBlocking (w_fd w) = 0 then andThen csema_acquire (\<lambda>_. ret e) w
              else (w, Ret e))) w)"

definition fd_SetBlocking :: "err meth" where
  "fd_SetBlocking = orReturn fd_incref Some
     (deferring (\<lambda>w. let w = set_fd (fd_isBlocking_update (\<lambda>_. 1)) w in
        andThen (syscall (SysSetNonblock (fd_Sysfd (w_fd w)) False)) (\<lambda>a. ret (a_err a)) w)
      fd_decref)"

text \<open>\<open>until\<close> is \<open>time.Until(t)\<close>, \<open>None\<close> the zero time.\<close>

definition deadline_arg :: "int option \<Rightarrow> int" where
  "deadline_arg until = (case until of None \<Rightarrow> 0 | Some d \<Rightarrow> if d = 0 then -1 else d)"

definition setDeadlineImpl :: "int option \<Rightarrow> int \<Rightarrow> err meth" where
  "setDeadlineImpl until mode =
     (let d = deadline_arg until in
      orReturn fd_incref Some
        (deferring (\<lambda>w.
           let ctx = fd_runtimeCtx (w_fd w) in
           if ctx = 0 then (w, Ret (Some ErrNoDeadline))
           else (w\<lparr>w_ep := poll_runtime_pollSetDeadline (e_now (w_env w)) ctx d mode (w_ep w)\<rparr>, Ret None))
         fd_decref))"

definition fd_SetDeadline :: "int option \<Rightarrow> err meth" where
  "fd_SetDeadline until = setDeadlineImpl until mode_rw"

definition fd_SetReadDeadline :: "int option \<Rightarrow> err meth" where
  "fd_SetReadDeadline until = setDeadlineImpl until mode_r"

definition fd_SetWriteDeadline :: "int option \<Rightarrow> err meth" where
  "fd_SetWriteDeadline until = setDeadlineImpl until mode_w"

definition IsPollDescriptor :: "uintptr \<Rightarrow> world \<Rightarrow> bool" where
  "IsPollDescriptor fd w = poll_runtime_isPollServerDescriptor fd (w_ep w)"

end
