(* ===== verification/FdOps.thy ===== *)
theory FdOps
  imports PollFD
begin

text \<open>
  The methods of \<open>FD\<close> that make system calls: \<^verbatim>\<open>fd_unix.go\<close>, \<^verbatim>\<open>fd_posix.go\<close>, \<^verbatim>\<open>fd_unixjs.go\<close>,
  \<^verbatim>\<open>fd_fsync_posix.go\<close>, \<^verbatim>\<open>writev.go\<close>, \<^verbatim>\<open>fd_writev_unix.go\<close> and \<^verbatim>\<open>sock_cloexec.go\<close>. Every pass of a
  loop makes a system call and so uses up one of the kernel's answers, which is why the
  loops end; with no answer left the method is \<open>Blocked\<close>.
\<close>

section \<open>What a step leaves of the answers\<close>

abbreviation todo :: "world \<Rightarrow> nat" where
  "todo w \<equiv> length (w_io w)"

lemma set_fd_todo [simp]: "w_io (set_fd f w) = w_io w" "w_log (set_fd f w) = w_log w"
  by (simp_all add: set_fd_def)

lemma syscall_todo: "syscall c w = (w', Ret a) \<Longrightarrow> todo w' < todo w"
  by (auto simp: syscall_def split: list.splits)

lemma poll_wait_keeps: "poll_wait mode f w = (w', r) \<Longrightarrow> w_io w' = w_io w \<and> w_log w' = w_log w"
  by (auto simp: poll_wait_def Let_def split: if_splits prod.splits outcome.splits)

lemma waitRead_keeps: "waitRead w = (w', r) \<Longrightarrow> w_io w' = w_io w \<and> w_log w' = w_log w"
  by (simp add: waitRead_def poll_wait_keeps)

lemma waitWrite_keeps: "waitWrite w = (w', r) \<Longrightarrow> w_io w' = w_io w \<and> w_log w' = w_log w"
  by (simp add: waitWrite_def poll_wait_keeps)

text \<open>The same facts in the form in which the termination proofs meet them.\<close>

lemma syscall_todo': "(w', Ret a) = syscall c w \<Longrightarrow> todo w' < todo w"
  by (rule syscall_todo [OF sym])

lemma wait_todo':
  "(w', r) = waitRead w \<Longrightarrow> todo w' = todo w"
  "(w', r) = waitWrite w \<Longrightarrow> todo w' = todo w"
  using waitRead_keeps [OF sym] waitWrite_keeps [OF sym] by metis+

section \<open>Retrying interrupted calls\<close>

function ignoringEINTRIO :: "syscall \<Rightarrow> answer meth" where
  "ignoringEINTRIO c w = (case syscall c w of
     (w', Ret a) \<Rightarrow> (if a_err a \<noteq> eintr then (w', Ret a) else ignoringEINTRIO c w')
   | (w', Panic s) \<Rightarrow> (w', Panic s)
   | (w', Blocked) \<Rightarrow> (w', Blocked))"
  by pat_completeness auto
termination
  by (relation "measure (\<lambda>(c, w). todo w)") (auto dest!: syscall_todo')

declare ignoringEINTRIO.simps [simp del]

definition ignoringEINTR :: "syscall \<Rightarrow> err meth" where
  "ignoringEINTR c = andThen (ignoringEINTRIO c) (\<lambda>a. ret (a_err a))"

lemma ignoringEINTRIO_todo: "ignoringEINTRIO c w = (w', Ret a) \<Longrightarrow> todo w' < todo w"
proof (induction c w arbitrary: w' a rule: ignoringEINTRIO.induct)
  case (1 c w)
  then show ?case
    by (auto simp: ignoringEINTRIO.simps [of c w] split: prod.splits outcome.splits if_splits)
      (meson less_trans syscall_todo)+
qed

lemma ignoringEINTRIO_todo': "(w', Ret a) = ignoringEINTRIO c w \<Longrightarrow> todo w' < todo w"
  by (rule ignoringEINTRIO_todo [OF sym])

section \<open>Reading\<close>

definition eofError :: "int \<Rightarrow> err \<Rightarrow> world \<Rightarrow> err" where
  "eofError n e w = (if n = 0 \<and> e = None \<and> fd_ZeroReadIsEOF (w_fd w) then Some EOF else e)"

definition maxRW :: int where "maxRW = 2 ^ 30"

text \<open>The loop of \<open>Read\<close> and \<open>ReadDirent\<close>, up to the result of the last call.\<close>

function read_loop :: "syscall \<Rightarrow> answer meth" where
  "read_loop c w = (case ignoringEINTRIO c w of
     (w1, Ret a) \<Rightarrow>
       (if a_err a \<noteq> None then
          (let a = a\<lparr>a_n := 0\<rparr> in
           if a_err a = eagain \<and> pollable w1 then
             (case waitRead w1 of
                (w2, Ret None) \<Rightarrow> read_loop c w2
              | (w2, Ret (Some e)) \<Rightarrow> (w2, Ret (a\<lparr>a_err := Some e\<rparr>))
              | (w2, Panic s) \<Rightarrow> (w2, Panic s)
              | (w2, Blocked) \<Rightarrow> (w2, Blocked))
           else (w1, Ret a))
        else (w1, Ret a))
   | (w1, Panic s) \<Rightarrow> (w1, Panic s)
   | (w1, Blocked) \<Rightarrow> (w1, Blocked))"
  by pat_completeness auto
termination
  by (relation "measure (\<lambda>(c, w). todo w)")
    (auto dest!: ignoringEINTRIO_todo' wait_todo')

declare read_loop.simps [simp del]

text \<open>\<open>p\<close> has length \<open>lp\<close>; its contents after the call are the kernel's business.\<close>

definition fd_Read :: "nat \<Rightarrow> (int \<times> err) meth" where
  "fd_Read lp = orReturn readLock (\<lambda>e. (0, Some e))
     (deferring
       (if lp = 0 then ret (0, None)
        else orReturn prepareRead (\<lambda>e. (0, Some e))
          (\<lambda>w. let lp = (if fd_IsStream (w_fd w) \<and> int lp > maxRW then nat maxRW else lp) in
             andThen (read_loop (SysRead (fd_Sysfd (w_fd w)) lp))
               (\<lambda>a w. (w, Ret (a_n a, eofError (a_n a) (a_err a) w))) w))
       readUnlock)"

definition fd_Pread :: "nat \<Rightarrow> int \<Rightarrow> (int \<times> err) meth" where
  "fd_Pread lp off = orReturn fd_incref (\<lambda>e. (0, Some e))
     (\<lambda>w. let lp = (if fd_IsStream (w_fd w) \<and> int lp > maxRW then nat maxRW else lp) in
        andThen (ignoringEINTRIO (SysPread (fd_Sysfd (w_fd w)) lp off))
          (\<lambda>a. let n = (if a_err a \<noteq> None then 0 else a_n a) in
             andThen fd_decref (\<lambda>_ w. (w, Ret (n, eofError n (a_err a) w)))) w)"

text \<open>The loop of the \<open>ReadFrom\<close> and \<open>ReadMsg\<close> families; only the first sets \<open>n\<close> to 0 on an error.\<close>

function recv_loop :: "bool \<Rightarrow> syscall \<Rightarrow> answer meth" where
  "recv_loop zero c w = (case syscall c w of
     (w1, Ret a) \<Rightarrow>
       (if a_err a \<noteq> None then
          (if a_err a = eintr then recv_loop zero c w1
           else
             let a = (if zero then a\<lparr>a_n := 0\<rparr> else a) in
             if a_err a = eagain \<and> pollable w1 then
               (case waitRead w1 of
                  (w2, Ret None) \<Rightarrow> recv_loop zero c w2
                | (w2, Ret (Some e)) \<Rightarrow> (w2, Ret (a\<lparr>a_err := Some e\<rparr>))
                | (w2, Panic s) \<Rightarrow> (w2, Panic s)
                | (w2, Blocked) \<Rightarrow> (w2, Blocked))
             else (w1, Ret a))
        else (w1, Ret a))
   | (w1, Panic s) \<Rightarrow> (w1, Panic s)
   | (w1, Blocked) \<Rightarrow> (w1, Blocked))"
  by pat_completeness auto
termination
  by (relation "measure (\<lambda>(zero, c, w). todo w)")
    (auto dest!: syscall_todo' wait_todo')

declare recv_loop.simps [simp del]

definition recv_with :: "(error \<Rightarrow> 'r) \<Rightarrow> bool \<Rightarrow> (int \<Rightarrow> syscall) \<Rightarrow> (answer \<Rightarrow> err \<Rightarrow> 'r) \<Rightarrow> 'r meth" where
  "recv_with fail zero c result = orReturn readLock fail
     (deferring
       (orReturn prepareRead fail
         (\<lambda>w. andThen (recv_loop zero (c (fd_Sysfd (w_fd w))))
            (\<lambda>a w. (w, Ret (result a (eofError (a_n a) (a_err a) w)))) w))
       readUnlock)"

definition fd_ReadFrom :: "nat \<Rightarrow> (int \<times> sockaddr \<times> err) meth" where
  "fd_ReadFrom lp = recv_with (\<lambda>e. (0, None, Some e)) True (\<lambda>fd. SysRecvfrom fd lp)
     (\<lambda>a e. (a_n a, a_sa a, e))"

text \<open>The \<open>Inet4\<close> and \<open>Inet6\<close> forms write the address to \<open>from\<close>: it is in the answer.\<close>

definition fd_ReadFromInet4 :: "nat \<Rightarrow> (int \<times> err) meth" where
  "fd_ReadFromInet4 lp = recv_with (\<lambda>e. (0, Some e)) True (\<lambda>fd. SysRecvfrom fd lp) (\<lambda>a e. (a_n a, e))"

definition fd_ReadFromInet6 :: "nat \<Rightarrow> (int \<times> err) meth" where
  "fd_ReadFromInet6 lp = recv_with (\<lambda>e. (0, Some e)) True (\<lambda>fd. SysRecvfrom fd lp) (\<lambda>a e. (a_n a, e))"

definition fd_ReadMsg :: "nat \<Rightarrow> nat \<Rightarrow> int \<Rightarrow> (int \<times> int \<times> int \<times> sockaddr \<times> err) meth" where
  "fd_ReadMsg lp loob flags = recv_with (\<lambda>e. (0, 0, 0, None, Some e)) False
     (\<lambda>fd. SysRecvmsg fd lp loob flags) (\<lambda>a e. (a_n a, a_oobn a, a_flags a, a_sa a, e))"

definition fd_ReadMsgInet4 :: "nat \<Rightarrow> nat \<Rightarrow> int \<Rightarrow> (int \<times> int \<times> int \<times> err) meth" where
  "fd_ReadMsgInet4 lp loob flags = recv_with (\<lambda>e. (0, 0, 0, Some e)) False
     (\<lambda>fd. SysRecvmsg fd lp loob flags) (\<lambda>a e. (a_n a, a_oobn a, a_flags a, e))"

definition fd_ReadMsgInet6 :: "nat \<Rightarrow> nat \<Rightarrow> int \<Rightarrow> (int \<times> int \<times> int \<times> err) meth" where
  "fd_ReadMsgInet6 lp loob flags = recv_with (\<lambda>e. (0, 0, 0, Some e)) False
     (\<lambda>fd. SysRecvmsg fd lp loob flags) (\<lambda>a e. (a_n a, a_oobn a, a_flags a, e))"

section \<open>Writing\<close>

text \<open>
  The loop of \<open>Write\<close>: \<open>nn\<close> bytes of \<open>p\<close> are written. A kernel that claims more than it was
  given would make the next slice expression panic.
\<close>

definition slice :: "'a list \<Rightarrow> nat \<Rightarrow> nat \<Rightarrow> 'a list" where
  "slice xs lo hi = take (hi - lo) (drop lo xs)"

definition write_max :: "u8 list \<Rightarrow> int \<Rightarrow> world \<Rightarrow> int" where
  "write_max p nn w =
     (let m = int (length p) in
      if fd_IsStream (w_fd w) \<and> m - nn > maxRW then nn + maxRW else m)"

function write_loop :: "u8 list \<Rightarrow> int \<Rightarrow> (int \<times> err) meth" where
  "write_loop p nn w =
     (let m = write_max p nn w in
      if nn > m then (w, Panic ''slice bounds out of range'')
      else (case ignoringEINTRIO (SysWrite (fd_Sysfd (w_fd w)) (slice p (nat nn) (nat m))) w of
        (w1, Ret a) \<Rightarrow>
          (let n = a_n a; e = a_err a; nn' = (if n > 0 then nn + n else nn) in
           if nn' = int (length p) then (w1, Ret (nn', e))
           else if e = eagain \<and> pollable w1 then
             (case waitWrite w1 of
                (w2, Ret None) \<Rightarrow> write_loop p nn' w2
              | (w2, Ret (Some e)) \<Rightarrow> (w2, Ret (nn', Some e))
              | (w2, Panic s) \<Rightarrow> (w2, Panic s)
              | (w2, Blocked) \<Rightarrow> (w2, Blocked))
           else if e \<noteq> None then (w1, Ret (nn', e))
           else if n = 0 then (w1, Ret (nn', Some ErrUnexpectedEOF))
           else write_loop p nn' w1)
      | (w1, Panic s) \<Rightarrow> (w1, Panic s)
      | (w1, Blocked) \<Rightarrow> (w1, Blocked)))"
  by pat_completeness auto
termination
  by (relation "measure (\<lambda>(p, nn, w). todo w)")
    (auto dest!: ignoringEINTRIO_todo' wait_todo')

declare write_loop.simps [simp del]

definition fd_Write :: "u8 list \<Rightarrow> (int \<times> err) meth" where
  "fd_Write p = orReturn writeLock (\<lambda>e. (0, Some e))
     (deferring (orReturn prepareWrite (\<lambda>e. (0, Some e)) (write_loop p 0)) writeUnlock)"

function pwrite_loop :: "u8 list \<Rightarrow> int \<Rightarrow> int \<Rightarrow> (int \<times> err) meth" where
  "pwrite_loop p off nn w =
     (let m = write_max p nn w in
      if nn > m then (w, Panic ''slice bounds out of range'')
      else (case syscall (SysPwrite (fd_Sysfd (w_fd w)) (slice p (nat nn) (nat m)) (off + nn)) w of
        (w1, Ret a) \<Rightarrow>
          (let n = a_n a; e = a_err a in
           if e = eintr then pwrite_loop p off nn w1
           else
             let nn' = (if n > 0 then nn + n else nn) in
             if nn' = int (length p) then (w1, Ret (nn', e))
             else if e \<noteq> None then (w1, Ret (nn', e))
             else if n = 0 then (w1, Ret (nn', Some ErrUnexpectedEOF))
             else pwrite_loop p off nn' w1)
      | (w1, Panic s) \<Rightarrow> (w1, Panic s)
      | (w1, Blocked) \<Rightarrow> (w1, Blocked)))"
  by pat_completeness auto
termination
  by (relation "measure (\<lambda>(p, off, nn, w). todo w)")
    (auto dest!: syscall_todo')

declare pwrite_loop.simps [simp del]

definition fd_Pwrite :: "u8 list \<Rightarrow> int \<Rightarrow> (int \<times> err) meth" where
  "fd_Pwrite p off = orReturn fd_incref (\<lambda>e. (0, Some e)) (deferring (pwrite_loop p off 0) fd_decref)"

text \<open>The loop of the \<open>WriteTo\<close> and \<open>WriteMsg\<close> families.\<close>

function send_loop :: "syscall \<Rightarrow> answer meth" where
  "send_loop c w = (case syscall c w of
     (w1, Ret a) \<Rightarrow>
       (if a_err a = eintr then send_loop c w1
        else if a_err a = eagain \<and> pollable w1 then
          (case waitWrite w1 of
             (w2, Ret None) \<Rightarrow> send_loop c w2
           | (w2, Ret (Some e)) \<Rightarrow> (w2, Ret (a\<lparr>a_err := Some e\<rparr>))
           | (w2, Panic s) \<Rightarrow> (w2, Panic s)
           | (w2, Blocked) \<Rightarrow> (w2, Blocked))
        else (w1, Ret a))
   | (w1, Panic s) \<Rightarrow> (w1, Panic s)
   | (w1, Blocked) \<Rightarrow> (w1, Blocked))"
  by pat_completeness auto
termination
  by (relation "measure (\<lambda>(c, w). todo w)")
    (auto dest!: syscall_todo' wait_todo')

declare send_loop.simps [simp del]

definition send_with :: "(error \<Rightarrow> 'r) \<Rightarrow> (int \<Rightarrow> syscall) \<Rightarrow> (answer \<Rightarrow> 'r) \<Rightarrow> 'r meth" where
  "send_with fail c result = orReturn writeLock fail
     (deferring
       (orReturn prepareWrite fail
         (\<lambda>w. andThen (send_loop (c (fd_Sysfd (w_fd w)))) (\<lambda>a. ret (result a)) w))
       writeUnlock)"

definition sendto_result :: "u8 list \<Rightarrow> answer \<Rightarrow> int \<times> err" where
  "sendto_result p a = (if a_err a \<noteq> None then (0, a_err a) else (int (length p), None))"

definition fd_WriteTo :: "u8 list \<Rightarrow> sockaddr \<Rightarrow> (int \<times> err) meth" where
  "fd_WriteTo p sa = send_with (\<lambda>e. (0, Some e)) (\<lambda>fd. SysSendto fd p sa) (sendto_result p)"

definition fd_WriteToInet4 :: "u8 list \<Rightarrow> sockaddr \<Rightarrow> (int \<times> err) meth" where
  "fd_WriteToInet4 p sa = send_with (\<lambda>e. (0, Some e)) (\<lambda>fd. SysSendto fd p sa) (sendto_result p)"

definition fd_WriteToInet6 :: "u8 list \<Rightarrow> sockaddr \<Rightarrow> (int \<times> err) meth" where
  "fd_WriteToInet6 p sa = send_with (\<lambda>e. (0, Some e)) (\<lambda>fd. SysSendto fd p sa) (sendto_result p)"

definition sendmsg_result :: "nat \<Rightarrow> answer \<Rightarrow> int \<times> int \<times> err" where
  "sendmsg_result loob a =
     (if a_err a \<noteq> None then (a_n a, 0, a_err a) else (a_n a, int loob, a_err a))"

definition fd_WriteMsg :: "u8 list \<Rightarrow> nat \<Rightarrow> sockaddr \<Rightarrow> (int \<times> int \<times> err) meth" where
  "fd_WriteMsg p loob sa = send_with (\<lambda>e. (0, 0, Some e)) (\<lambda>fd. SysSendmsg fd p loob sa) (sendmsg_result loob)"

definition fd_WriteMsgInet4 :: "u8 list \<Rightarrow> nat \<Rightarrow> sockaddr \<Rightarrow> (int \<times> int \<times> err) meth" where
  "fd_WriteMsgInet4 p loob sa = send_with (\<lambda>e. (0, 0, Some e)) (\<lambda>fd. SysSendmsg fd p loob sa) (sendmsg_result loob)"

definition fd_WriteMsgInet6 :: "u8 list \<Rightarrow> nat \<Rightarrow> sockaddr \<Rightarrow> (int \<times> int \<times> err) meth" where
  "fd_WriteMsgInet6 p loob sa = send_with (\<lambda>e. (0, 0, Some e)) (\<lambda>fd. SysSendmsg fd p loob sa) (sendmsg_result loob)"

definition fd_WaitWrite :: "err meth" where
  "fd_WaitWrite = waitWrite"

definition fd_WriteOnce :: "u8 list \<Rightarrow> (int \<times> err) meth" where
  "fd_WriteOnce p = orReturn writeLock (\<lambda>e. (0, Some e))
     (deferring (\<lambda>w. andThen (ignoringEINTRIO (SysWrite (fd_Sysfd (w_fd w)) p)) (\<lambda>a. ret (a_n a, a_err a)) w)
        writeUnlock)"

section \<open>Directories, offsets, attributes\<close>

definition fd_ReadDirent :: "nat \<Rightarrow> (int \<times> err) meth" where
  "fd_ReadDirent lbuf = orReturn fd_incref (\<lambda>e. (0, Some e))
     (deferring
       (\<lambda>w. andThen (read_loop (SysReadDirent (fd_Sysfd (w_fd w)) lbuf)) (\<lambda>a. ret (a_n a, a_err a)) w)
       fd_decref)"

definition fd_Seek :: "int \<Rightarrow> int \<Rightarrow> (int \<times> err) meth" where
  "fd_Seek offset whence = orReturn fd_incref (\<lambda>e. (0, Some e))
     (deferring
       (\<lambda>w. andThen (syscall (SysSeek (fd_Sysfd (w_fd w)) offset whence)) (\<lambda>a. ret (a_n a, a_err a)) w)
       fd_decref)"

text \<open>The methods that make one call under a reference, with or without the retry on \<open>EINTR\<close>.\<close>

definition ref_call :: "bool \<Rightarrow> (int \<Rightarrow> syscall) \<Rightarrow> err meth" where
  "ref_call retry c = orReturn fd_incref Some
     (deferring
       (\<lambda>w. (if retry then ignoringEINTR (c (fd_Sysfd (w_fd w)))
             else andThen (syscall (c (fd_Sysfd (w_fd w)))) (\<lambda>a. ret (a_err a))) w)
       fd_decref)"

definition fd_Shutdown :: "int \<Rightarrow> err meth" where
  "fd_Shutdown how = ref_call False (\<lambda>fd. SysShutdown fd how)"

definition fd_Fchdir :: "err meth" where
  "fd_Fchdir = ref_call False SysFchdir"

definition fd_Fchmod :: "u32 \<Rightarrow> err meth" where
  "fd_Fchmod mode = ref_call True (\<lambda>fd. SysFchmod fd mode)"

definition fd_Fstat :: "err meth" where
  "fd_Fstat = ref_call True SysFstat"

definition fd_Fchown :: "int \<Rightarrow> int \<Rightarrow> err meth" where
  "fd_Fchown uid gid = ref_call True (\<lambda>fd. SysFchown fd uid gid)"

definition fd_Ftruncate :: "int \<Rightarrow> err meth" where
  "fd_Ftruncate sz = ref_call True (\<lambda>fd. SysFtruncate fd sz)"

definition fd_Fsync :: "err meth" where
  "fd_Fsync = ref_call True SysFsync"

text \<open>The user's function is one more call; for \<open>RawRead\<close> and \<open>RawWrite\<close> it answers 1 for true.\<close>

definition fd_RawControl :: "err meth" where
  "fd_RawControl = orReturn fd_incref Some
     (deferring (\<lambda>w. andThen (syscall (UserFn (fd_Sysfd (w_fd w)))) (\<lambda>_. ret None) w) fd_decref)"

function raw_loop :: "bool \<Rightarrow> err meth" where
  "raw_loop read w = (case syscall (UserFn (fd_Sysfd (w_fd w))) w of
     (w1, Ret a) \<Rightarrow>
       (if a_n a = 1 then (w1, Ret None)
        else (case (if read then waitRead w1 else waitWrite w1) of
           (w2, Ret None) \<Rightarrow> raw_loop read w2
         | (w2, r) \<Rightarrow> (w2, r)))
   | (w1, Panic s) \<Rightarrow> (w1, Panic s)
   | (w1, Blocked) \<Rightarrow> (w1, Blocked))"
  by pat_completeness auto
termination
  by (relation "measure (\<lambda>(read, w). todo w)")
    (auto dest!: syscall_todo' wait_todo' split: if_splits)

declare raw_loop.simps [simp del]

definition fd_RawRead :: "err meth" where
  "fd_RawRead = orReturn readLock Some (deferring (orReturn prepareRead Some (raw_loop True)) readUnlock)"

definition fd_RawWrite :: "err meth" where
  "fd_RawWrite = orReturn writeLock Some (deferring (orReturn prepareWrite Some (raw_loop False)) writeUnlock)"

section \<open>Accepting connections\<close>

definition EACCES :: int where "EACCES = 13"
definition EFAULT :: int where "EFAULT = 14"
definition EINVAL :: int where "EINVAL = 22"
definition ENOSYS :: int where "ENOSYS = 38"
definition ECONNABORTED :: int where "ECONNABORTED = 103"

type_synonym accepted = "int \<times> sockaddr \<times> string \<times> err"

definition accept_old :: "int \<Rightarrow> accepted meth" where
  "accept_old s =
     andThen (syscall (SysAccept s)) (\<lambda>a.
       if a_err a \<noteq> None then ret (-1, None, ''accept'', a_err a)
       else andThen (syscall (SysCloseOnExec (a_n a))) (\<lambda>_.
         andThen (syscall (SysSetNonblock (a_n a) True)) (\<lambda>b.
           if a_err b \<noteq> None
           then andThen (syscall (SysClose (a_n a))) (\<lambda>_. ret (-1, None, ''setnonblock'', a_err b))
           else ret (a_n a, a_sa a, '''', None))))"

definition accept :: "int \<Rightarrow> accepted meth" where
  "accept s =
     andThen (syscall (SysAccept4 s)) (\<lambda>a.
       if a_err a = None then ret (a_n a, a_sa a, '''', None)
       else if a_err a \<in> {Some (Sys ENOSYS), Some (Sys EINVAL), Some (Sys EACCES), Some (Sys EFAULT)}
         then accept_old s
       else ret (-1, a_sa a, ''accept4'', a_err a))"

lemma andThen_Ret:
  "andThen m f w = (w2, Ret r) \<longleftrightarrow> (\<exists>w1 x. m w = (w1, Ret x) \<and> f x w1 = (w2, Ret r))"
  by (auto simp: andThen_def split: prod.splits outcome.splits)

lemma accept_todo: "accept s w = (w', Ret x) \<Longrightarrow> todo w' < todo w"
  by (auto simp: accept_def accept_old_def andThen_Ret ret_def split: if_splits dest!: syscall_todo)

lemma accept_todo': "(w', Ret x) = accept s w \<Longrightarrow> todo w' < todo w"
  by (rule accept_todo [OF sym])

function accept_loop :: "accepted meth" where
  "accept_loop w = (case accept (fd_Sysfd (w_fd w)) w of
     (w1, Ret (s, rsa, errcall, e)) \<Rightarrow>
       (if e = None then (w1, Ret (s, rsa, '''', e))
        else if e = eintr then accept_loop w1
        else if e = eagain then
          (if pollable w1 then
             (case waitRead w1 of
                (w2, Ret None) \<Rightarrow> accept_loop w2
              | (w2, Ret (Some e)) \<Rightarrow> (w2, Ret (-1, None, errcall, Some e))
              | (w2, Panic s) \<Rightarrow> (w2, Panic s)
              | (w2, Blocked) \<Rightarrow> (w2, Blocked))
           else (w1, Ret (-1, None, errcall, e)))
        else if e = Some (Sys ECONNABORTED) then accept_loop w1
        else (w1, Ret (-1, None, errcall, e)))
   | (w1, Panic s) \<Rightarrow> (w1, Panic s)
   | (w1, Blocked) \<Rightarrow> (w1, Blocked))"
  by pat_completeness auto
termination
  by (relation "measure todo") (auto dest!: accept_todo' wait_todo')

declare accept_loop.simps [simp del]

definition fd_Accept :: "accepted meth" where
  "fd_Accept = orReturn readLock (\<lambda>e. (-1, None, '''', Some e))
     (deferring (orReturn prepareRead (\<lambda>e. (-1, None, '''', Some e)) accept_loop) readUnlock)"

section \<open>Duplicating\<close>

definition dupCloseOnExecOld :: "int \<Rightarrow> (int \<times> string \<times> err) meth" where
  "dupCloseOnExecOld fd =
     andThen (syscall (SysDup fd)) (\<lambda>a.
       if a_err a \<noteq> None then ret (-1, ''dup'', a_err a)
       else andThen (syscall (SysCloseOnExec (a_n a))) (\<lambda>_. ret (a_n a, '''', None)))"

definition DupCloseOnExec :: "int \<Rightarrow> (int \<times> string \<times> err) meth" where
  "DupCloseOnExec fd w =
     (if \<not> w_dupUnsupported w
      then andThen (syscall (SysFcntlDupfdCloexec fd)) (\<lambda>a w.
        if a_err a = None then (w, Ret (a_n a, '''', None))
        else if a_err a = Some (Sys EINVAL) \<or> a_err a = Some (Sys ENOSYS)
          then dupCloseOnExecOld fd (w\<lparr>w_dupUnsupported := True\<rparr>)
        else (w, Ret (-1, ''fcntl'', a_err a))) w
      else dupCloseOnExecOld fd w)"

definition fd_Dup :: "(int \<times> string \<times> err) meth" where
  "fd_Dup = orReturn fd_incref (\<lambda>e. (-1, '''', Some e))
     (deferring (\<lambda>w. DupCloseOnExec (fd_Sysfd (w_fd w)) w) fd_decref)"

section \<open>Gathered writes\<close>

fun consume :: "u8 list list \<Rightarrow> int \<Rightarrow> u8 list list" where
  "consume [] n = []"
| "consume (c # cs) n =
     (if int (length c) > n then drop (nat n) c # cs else consume cs (n - int (length c)))"

fun build_iovecs :: "bool \<Rightarrow> nat \<Rightarrow> u8 list list \<Rightarrow> u8 list list \<Rightarrow> u8 list list" where
  "build_iovecs stream maxVec [] acc = acc"
| "build_iovecs stream maxVec (c # cs) acc =
     (if c = [] then build_iovecs stream maxVec cs acc
      else if stream \<and> int (length c) > maxRW then acc @ [take (nat maxRW) c]
      else if length acc + 1 = maxVec then acc @ [c]
      else build_iovecs stream maxVec cs (acc @ [c]))"

definition max_vec :: "string \<Rightarrow> nat" where
  "max_vec goos = (if goos = ''aix'' \<or> goos = ''solaris'' then 16 else 1024)"

text \<open>\<open>writev\<close> gives the raw result of the call: all ones when it failed.\<close>

definition writev :: "int \<Rightarrow> u8 list list \<Rightarrow> answer meth" where
  "writev fd iovecs = ignoringEINTRIO (SysWritev fd iovecs)"

lemma writev_todo': "(w', Ret a) = writev fd v w \<Longrightarrow> todo w' < todo w"
  unfolding writev_def by (rule ignoringEINTRIO_todo')

function writev_loop :: "u8 list list \<Rightarrow> int \<Rightarrow> err \<Rightarrow> (u8 list list \<times> int \<times> err) meth" where
  "writev_loop v n e w =
     (if v = [] then (w, Ret (v, n, e))
      else
        let iovecs = build_iovecs (fd_IsStream (w_fd w)) (max_vec (e_goos (w_env w))) v [] in
        if iovecs = [] then (w, Ret (v, n, e))
        else (case writev (fd_Sysfd (w_fd w)) iovecs w of
          (w1, Ret a) \<Rightarrow>
            (let wrote = (if a_n a = -1 then 0 else a_n a); e = a_err a;
                 n = n + wrote; v = consume v wrote
             in if e \<noteq> None then
                  (if e = eintr then writev_loop v n e w1
                   else if e = eagain then
                     (case waitWrite w1 of
                        (w2, Ret None) \<Rightarrow> writev_loop v n None w2
                      | (w2, Ret (Some e)) \<Rightarrow> (w2, Ret (v, n, Some e))
                      | (w2, Panic s) \<Rightarrow> (w2, Panic s)
                      | (w2, Blocked) \<Rightarrow> (w2, Blocked))
                   else (w1, Ret (v, n, e)))
                else if n = 0 then (w1, Ret (v, n, Some ErrUnexpectedEOF))
                else writev_loop v n e w1)
        | (w1, Panic s) \<Rightarrow> (w1, Panic s)
        | (w1, Blocked) \<Rightarrow> (w1, Blocked)))"
  by pat_completeness auto
termination
  by (relation "measure (\<lambda>(v, n, e, w). todo w)")
    (auto dest!: writev_todo' wait_todo')

declare writev_loop.simps [simp del]

text \<open>The caller's slice of buffers is updated in place: it is part of the result.\<close>

definition fd_Writev :: "u8 list list \<Rightarrow> (u8 list list \<times> int \<times> err) meth" where
  "fd_Writev v = orReturn writeLock (\<lambda>e. (v, 0, Some e))
     (deferring (orReturn prepareWrite (\<lambda>e. (v, 0, Some e)) (writev_loop v 0 None)) writeUnlock)"

end
