(* ===== verification/FdTransfer.thy ===== *)
theory FdTransfer
  imports FdOps
begin

text \<open>
  Copies between descriptors inside the kernel (\<^verbatim>\<open>sendfile_linux.go\<close>, \<^verbatim>\<open>copy_file_range_linux.go\<close>,
  \<^verbatim>\<open>splice_linux.go\<close>), and the socket options (\<^verbatim>\<open>sockopt.go\<close>, \<^verbatim>\<open>sockopt_unix.go\<close>,
  \<^verbatim>\<open>sockopt_linux.go\<close>, \<^verbatim>\<open>sockoptip.go\<close>).
\<close>

section \<open>Socket options\<close>

definition fd_setsockopt :: "int \<Rightarrow> int \<Rightarrow> sockopt \<Rightarrow> err meth" where
  "fd_setsockopt level name v = ref_call False (\<lambda>fd. SysSetsockopt fd level name v)"

definition fd_SetsockoptInt :: "int \<Rightarrow> int \<Rightarrow> int \<Rightarrow> err meth" where
  "fd_SetsockoptInt level name arg = fd_setsockopt level name (OptInt arg)"

definition fd_SetsockoptByte :: "int \<Rightarrow> int \<Rightarrow> u8 \<Rightarrow> err meth" where
  "fd_SetsockoptByte level name arg = fd_setsockopt level name (OptByte arg)"

definition fd_SetsockoptInet4Addr :: "int \<Rightarrow> int \<Rightarrow> u8 list \<Rightarrow> err meth" where
  "fd_SetsockoptInet4Addr level name arg = fd_setsockopt level name (OptInet4Addr arg)"

definition fd_SetsockoptLinger :: "int \<Rightarrow> int \<Rightarrow> int \<times> int \<Rightarrow> err meth" where
  "fd_SetsockoptLinger level name l = fd_setsockopt level name (OptLinger (fst l) (snd l))"

definition fd_SetsockoptIPMreq :: "int \<Rightarrow> int \<Rightarrow> u8 list \<times> u8 list \<Rightarrow> err meth" where
  "fd_SetsockoptIPMreq level name mreq = fd_setsockopt level name (OptIPMreq (fst mreq) (snd mreq))"

definition fd_SetsockoptIPMreqn :: "int \<Rightarrow> int \<Rightarrow> u8 list \<times> u8 list \<times> int \<Rightarrow> err meth" where
  "fd_SetsockoptIPMreqn level name mreq =
     fd_setsockopt level name (OptIPMreqn (fst mreq) (fst (snd mreq)) (snd (snd mreq)))"

definition fd_SetsockoptIPv6Mreq :: "int \<Rightarrow> int \<Rightarrow> u8 list \<times> u32 \<Rightarrow> err meth" where
  "fd_SetsockoptIPv6Mreq level name mreq = fd_setsockopt level name (OptIPv6Mreq (fst mreq) (snd mreq))"

definition fd_GetsockoptInt :: "int \<Rightarrow> int \<Rightarrow> (int \<times> err) meth" where
  "fd_GetsockoptInt level name = orReturn fd_incref (\<lambda>e. (-1, Some e))
     (deferring
       (\<lambda>w. andThen (syscall (SysGetsockoptInt (fd_Sysfd (w_fd w)) level name)) (\<lambda>a. ret (a_n a, a_err a)) w)
       fd_decref)"

section \<open>sendfile\<close>

definition maxSendfileSize :: int where
  "maxSendfileSize = 4 * 2 ^ 20"

function sendfile_loop :: "int \<Rightarrow> int \<Rightarrow> int \<Rightarrow> (int \<times> err \<times> bool) meth" where
  "sendfile_loop src remain written w =
     (if remain > 0 then
        let n = (if maxSendfileSize > remain then remain else maxSendfileSize) in
        (case syscall (SysSendfile (fd_Sysfd (w_fd w)) src n) w of
           (w1, Ret a) \<Rightarrow>
             (let n = a_n a; err1 = a_err a;
                  (written, remain) = (if n > 0 then (written + n, remain - n) else (written, remain))
              in if n = 0 \<and> err1 = None then (w1, Ret (written, None, True))
                 else if err1 = eintr then sendfile_loop src remain written w1
                 else if err1 = eagain then
                   (case waitWrite w1 of
                      (w2, Ret None) \<Rightarrow> sendfile_loop src remain written w2
                    | (w2, Ret (Some e)) \<Rightarrow> (w2, Ret (written, Some e, False))
                    | (w2, Panic s) \<Rightarrow> (w2, Panic s)
                    | (w2, Blocked) \<Rightarrow> (w2, Blocked))
                 else if err1 \<noteq> None then (w1, Ret (written, err1, False))
                 else sendfile_loop src remain written w1)
         | (w1, Panic s) \<Rightarrow> (w1, Panic s)
         | (w1, Blocked) \<Rightarrow> (w1, Blocked))
      else (w, Ret (written, None, True)))"
  by pat_completeness auto
termination
  by (relation "measure (\<lambda>(src, remain, written, w). todo w)") (auto dest!: syscall_todo' wait_todo')

declare sendfile_loop.simps [simp del]

definition SendFile :: "int \<Rightarrow> int \<Rightarrow> (int \<times> err \<times> bool) meth" where
  "SendFile src remain = orReturn writeLock (\<lambda>e. (0, Some e, False))
     (deferring (orReturn prepareWrite (\<lambda>e. (0, Some e, False)) (sendfile_loop src remain 0)) writeUnlock)"

section \<open>Two descriptors\<close>

text \<open>
  A copy from one FD to another: the world of the destination, the source, and the pipes in \<open>splicePipePool\<close>. A
  \<open>sync.Pool\<close> gives any pipe that is in it, so the order of the list means nothing.
\<close>

record splicePipe =
  sp_rfd :: int
  sp_wfd :: int
  sp_data :: int

record transfer =
  tr_w :: world
  tr_src :: FD
  tr_pool :: "splicePipe list"
  tr_pipe :: splicePipe       \<comment> \<open>the pipe that \<open>Splice\<close> holds\<close>

definition on_dst :: "'r meth \<Rightarrow> (transfer, 'r) prog" where
  "on_dst m s = (let (w, r) = m (tr_w s) in (s\<lparr>tr_w := w\<rparr>, r))"

definition on_src :: "'r meth \<Rightarrow> (transfer, 'r) prog" where
  "on_src m s =
     (let (w, r) = m (set_fd (\<lambda>_. tr_src s) (tr_w s))
      in (s\<lparr>tr_w := set_fd (\<lambda>_. w_fd (tr_w s)) w, tr_src := w_fd w\<rparr>, r))"

abbreviation tr_todo :: "transfer \<Rightarrow> nat" where
  "tr_todo s \<equiv> todo (tr_w s)"

text \<open>No step gives answers back: what is left to do never grows.\<close>

definition frugal :: "('s \<Rightarrow> nat) \<Rightarrow> ('s, 'r) prog \<Rightarrow> bool" where
  "frugal k m \<longleftrightarrow> (\<forall>s s' r. m s = (s', r) \<longrightarrow> k s' \<le> k s)"

lemma frugalD: "frugal k m \<Longrightarrow> m s = (s', r) \<Longrightarrow> k s' \<le> k s"
  by (auto simp: frugal_def)

lemma frugal_steps:
  "frugal k (ret x)" "frugal k m \<Longrightarrow> (\<And>x. frugal k (f x)) \<Longrightarrow> frugal k (andThen m f)"
  unfolding frugal_def andThen_def ret_def by (fastforce split: prod.splits outcome.splits intro: order_trans)+

lemma frugal_deferring: "frugal k m \<Longrightarrow> frugal k d \<Longrightarrow> frugal k (deferring m d)"
  unfolding frugal_def deferring_def by (fastforce split: prod.splits outcome.splits intro: order_trans)

lemma frugal_orReturn: "frugal k m \<Longrightarrow> frugal k rest \<Longrightarrow> frugal k (orReturn m h rest)"
  unfolding orReturn_def by (intro frugal_steps(2)) (auto simp: frugal_steps(1) split: option.splits)

lemma frugal_meths:
  "frugal (\<lambda>w. todo w) (syscall c)" "frugal (\<lambda>w. todo w) (with_mutex f)" "frugal (\<lambda>w. todo w) (closing_unless b)"
  "frugal (\<lambda>w. todo w) poll_close" "frugal (\<lambda>w. todo w) prepareRead" "frugal (\<lambda>w. todo w) prepareWrite"
  by (auto simp: frugal_def syscall_def with_mutex_def closing_unless_def poll_close_def prepareRead_def prepareWrite_def
      poll_prepare_def Let_def split: prod.splits list.splits if_splits outcome.splits)

lemma frugal_destroy: "frugal (\<lambda>w. todo w) fd_destroy"
proof -
  have "frugal (\<lambda>w. todo w) (\<lambda>w. andThen (SysFile_destroy (fd_Sysfd (w_fd w))) (\<lambda>e w.
         (set_fd (\<lambda>fd. fd\<lparr>fd_Sysfd := -1, fd_csema := semrelease (fd_csema fd)\<rparr>) w, Ret e)) w)"
    by (auto simp: frugal_def SysFile_destroy_def andThen_def syscall_def ret_def split: prod.splits list.splits outcome.splits)
  then show ?thesis unfolding fd_destroy_def by (intro frugal_steps(2) frugal_meths)
qed

lemma frugal_locks:
  "frugal (\<lambda>w. todo w) readLock" "frugal (\<lambda>w. todo w) writeLock" "frugal (\<lambda>w. todo w) readUnlock" "frugal (\<lambda>w. todo w) writeUnlock"
  unfolding readLock_def writeLock_def readUnlock_def writeUnlock_def
  by (auto intro!: frugal_steps frugal_meths frugal_destroy split: if_splits)

text \<open>A method under a lock whose body uses up an answer.\<close>

lemma locked_todo:
  assumes "orReturn l h (deferring body u) w = (w', Ret r)" and "\<And>e. h e \<noteq> r"
    and "frugal k l" "frugal k u" and "\<And>w1 w2. body w1 = (w2, Ret r) \<Longrightarrow> k w2 < k w1"
  shows "k w' < k w"
proof -
  obtain w1 where w1: "l w = (w1, Ret None)" "deferring body u w1 = (w', Ret r)"
    using assms(1,2) by (auto simp: orReturn_def andThen_def ret_def split: prod.splits outcome.splits option.splits)
  then obtain w2 x where w2: "body w1 = (w2, Ret r)" "u w2 = (w', Ret x)"
    by (auto simp: deferring_def split: prod.splits outcome.splits)
  show ?thesis using frugalD [OF assms(3) w1(1)] assms(5) [OF w2(1)] frugalD [OF assms(4) w2(2)] by simp
qed

section \<open>splice\<close>

definition spliceNonblock :: int where "spliceNonblock = 2"
definition maxSpliceSize :: int where "maxSpliceSize = 2 ^ 20"

definition splice_call :: "int \<Rightarrow> int \<Rightarrow> int \<Rightarrow> answer meth" where
  "splice_call out src lim = syscall (SysSplice src out lim spliceNonblock)"

lemma splice_todo: "splice_call i out m w = (w', Ret a) \<Longrightarrow> todo w' < todo w" "(w', Ret a) = splice_call i out m w \<Longrightarrow> todo w' < todo w"
  unfolding splice_call_def using syscall_todo syscall_todo' by blast+

function spliceDrain_loop :: "int \<Rightarrow> int \<Rightarrow> (int \<times> err) meth" where
  "spliceDrain_loop pipefd lim w = (case splice_call pipefd (fd_Sysfd (w_fd w)) lim w of
     (w1, Ret a) \<Rightarrow>
       (if a_err a = eintr then spliceDrain_loop pipefd lim w1
        else if a_err a \<noteq> eagain then (w1, Ret (a_n a, a_err a))
        else if pollable w1 then
          (case waitRead w1 of
             (w2, Ret None) \<Rightarrow> spliceDrain_loop pipefd lim w2
           | (w2, Ret (Some e)) \<Rightarrow> (w2, Ret (a_n a, Some e))
           | (w2, Panic s) \<Rightarrow> (w2, Panic s)
           | (w2, Blocked) \<Rightarrow> (w2, Blocked))
        else spliceDrain_loop pipefd lim w1)
   | (w1, Panic s) \<Rightarrow> (w1, Panic s)
   | (w1, Blocked) \<Rightarrow> (w1, Blocked))"
  by pat_completeness auto
termination
  by (relation "measure (\<lambda>(pipefd, lim, w). todo w)") (auto dest!: splice_todo(2) wait_todo')

declare spliceDrain_loop.simps [simp del]

definition spliceDrain :: "int \<Rightarrow> int \<Rightarrow> (int \<times> err) meth" where
  "spliceDrain pipefd lim = orReturn readLock (\<lambda>e. (0, Some e))
     (deferring (orReturn prepareRead (\<lambda>e. (0, Some e)) (spliceDrain_loop pipefd lim)) readUnlock)"

function splicePump_loop :: "int \<Rightarrow> int \<Rightarrow> int \<Rightarrow> (int \<times> err) meth" where
  "splicePump_loop pipefd inPipe written w =
     (if inPipe > 0 then
        (case splice_call (fd_Sysfd (w_fd w)) pipefd inPipe w of
           (w1, Ret a) \<Rightarrow>
             (if a_err a = eintr then splicePump_loop pipefd inPipe written w1
              else if a_n a > 0 then splicePump_loop pipefd (inPipe - a_n a) (written + a_n a) w1
              else if a_err a \<noteq> eagain then (w1, Ret (written, a_err a))
              else if pollable w1 then
                (case waitWrite w1 of
                   (w2, Ret None) \<Rightarrow> splicePump_loop pipefd inPipe written w2
                 | (w2, Ret (Some e)) \<Rightarrow> (w2, Ret (written, Some e))
                 | (w2, Panic s) \<Rightarrow> (w2, Panic s)
                 | (w2, Blocked) \<Rightarrow> (w2, Blocked))
              else splicePump_loop pipefd inPipe written w1)
         | (w1, Panic s) \<Rightarrow> (w1, Panic s)
         | (w1, Blocked) \<Rightarrow> (w1, Blocked))
      else (w, Ret (written, None)))"
  by pat_completeness auto
termination
  by (relation "measure (\<lambda>(pipefd, inPipe, written, w). todo w)") (auto dest!: splice_todo(2) wait_todo')

declare splicePump_loop.simps [simp del]

definition splicePump :: "int \<Rightarrow> int \<Rightarrow> (int \<times> err) meth" where
  "splicePump pipefd inPipe = orReturn writeLock (\<lambda>e. (0, Some e))
     (deferring (orReturn prepareWrite (\<lambda>e. (0, Some e)) (splicePump_loop pipefd inPipe 0)) writeUnlock)"

lemma spliceDrain_loop_todo: "spliceDrain_loop pipefd lim w = (w', Ret r) \<Longrightarrow> todo w' < todo w"
proof (induction pipefd lim w arbitrary: w' r rule: spliceDrain_loop.induct)
  case (1 pipefd lim w)
  obtain w1 o1 where s: "splice_call pipefd (fd_Sysfd (w_fd w)) lim w = (w1, o1)" by force
  then obtain a where a: "o1 = Ret a" using 1(4) by (cases o1) (auto simp: spliceDrain_loop.simps [of pipefd lim w])
  have t: "todo w1 < todo w" using splice_todo(1) s a by simp
  obtain w2 o2 where wt: "waitRead w1 = (w2, o2)" by force
  have t2: "todo w2 = todo w1" using waitRead_keeps [OF wt] by simp
  note ih = 1(1-3) [OF s [unfolded a, symmetric] refl]
  show ?case
  proof (cases "a_err a = eintr \<or> a_err a = eagain \<and> (pollable w1 \<longrightarrow> o2 = Ret None)")
    case True
    then have "todo w' < todo w1 \<or> todo w' < todo w2"
      using ih 1(4) s a wt by (auto simp: spliceDrain_loop.simps [of pipefd lim w] split: if_splits)
    then show ?thesis using t t2 by auto
  next
    case False
    then have "w' = w1 \<or> w' = w2"
      using 1(4) s a wt by (auto simp: spliceDrain_loop.simps [of pipefd lim w] split: if_splits outcome.splits option.splits)
    then show ?thesis using t t2 by auto
  qed
qed

text \<open>Only a drain that made a call returns without an error.\<close>

lemma spliceDrain_todo:
  assumes "spliceDrain pipefd lim w = (w', Ret (n, None))"
  shows "todo w' < todo w"
proof -
  have body: "todo w2 < todo w1" if "orReturn prepareRead (\<lambda>e. (0, Some e)) (spliceDrain_loop pipefd lim) w1 = (w2, Ret (n, None))" for w1 w2
    using that spliceDrain_loop_todo frugalD [OF frugal_meths(5), of w1]
    by (fastforce simp: orReturn_def andThen_def ret_def split: prod.splits outcome.splits option.splits)
  show ?thesis
    by (rule locked_todo [OF assms [unfolded spliceDrain_def] _ frugal_locks(1,3) body]) simp_all
qed

lemma splicePump_todo: "splicePump pipefd inPipe w = (w', Ret r) \<Longrightarrow> todo w' \<le> todo w"
proof -
  have loop: "splicePump_loop pipefd inPipe written w = (w', r) \<Longrightarrow> todo w' \<le> todo w" for inPipe written w w' r
  proof (induction pipefd inPipe written w arbitrary: w' r rule: splicePump_loop.induct)
    case (1 pipefd inPipe written w)
    obtain w1 o1 where s: "splice_call (fd_Sysfd (w_fd w)) pipefd inPipe w = (w1, o1)" by force
    obtain w2 o2 where wt: "waitWrite w1 = (w2, o2)" by force
    have t: "todo w1 \<le> todo w" "todo w2 = todo w1"
      using s waitWrite_keeps [OF wt] frugalD [OF frugal_meths(1)] by (auto simp: splice_call_def)
    note ih = 1(1-4) [OF _ s [symmetric]]
    show ?case
    proof (cases "inPipe > 0 \<and> (\<exists>a. o1 = Ret a)")
      case True
      then obtain a where a: "o1 = Ret a" "inPipe > 0" by blast
      then show ?thesis using 1(5) ih [OF a(2) a(1)] t s wt
        by (simp add: splicePump_loop.simps [of pipefd inPipe written w] split: if_splits outcome.splits option.splits)
          (meson order_trans)+
    next
      case False
      then show ?thesis using 1(5) s t by (cases o1) (auto simp: splicePump_loop.simps [of pipefd inPipe written w] split: if_splits)
    qed
  qed
  then have "frugal (\<lambda>w. todo w) (splicePump pipefd inPipe)"
    unfolding splicePump_def
    by (intro frugal_orReturn frugal_deferring frugal_locks frugal_meths) (auto simp: frugal_def)
  then show "splicePump pipefd inPipe w = (w', Ret r) \<Longrightarrow> todo w' \<le> todo w" by (rule frugalD)
qed

lemma on_simps:
  "on_dst m s = (s', r) \<longleftrightarrow> (\<exists>w. m (tr_w s) = (w, r) \<and> s' = s\<lparr>tr_w := w\<rparr>)"
  "on_src m s = (s', r) \<longleftrightarrow> (\<exists>w. m (set_fd (\<lambda>_. tr_src s) (tr_w s)) = (w, r) \<and> s' = s\<lparr>tr_w := set_fd (\<lambda>_. w_fd (tr_w s)) w, tr_src := w_fd w\<rparr>)"
  by (auto simp: on_dst_def on_src_def split: prod.splits)

lemma splice_round_todo:
  assumes "(s1, Ret (n, None)) = on_src (spliceDrain p lim) s" and "(s2, Ret (m, e)) = on_dst (splicePump q k) (t s1)" and "tr_w (t s1) = tr_w s1"
  shows "tr_todo s2 < tr_todo s"
proof -
  obtain w1 where "spliceDrain p lim (set_fd (\<lambda>_. tr_src s) (tr_w s)) = (w1, Ret (n, None))" "tr_todo s1 = todo w1"
    using assms(1) [symmetric] by (auto simp: on_simps)
  then have "tr_todo s1 < tr_todo s" using spliceDrain_todo by fastforce
  moreover have "tr_todo s2 \<le> tr_todo s1"
    using assms(2) [symmetric] assms(3) splicePump_todo by (auto simp: on_simps)
  ultimately show ?thesis by simp
qed

text \<open>The pipe in hand has \<open>x\<close> bytes more.\<close>

definition add_data :: "int \<Rightarrow> transfer \<Rightarrow> transfer" where
  "add_data x s = s\<lparr>tr_pipe := (tr_pipe s)\<lparr>sp_data := sp_data (tr_pipe s) + x\<rparr>\<rparr>"

lemma add_data_w [simp]: "tr_w (add_data x s) = tr_w s" "tr_src (add_data x s) = tr_src s" "tr_pool (add_data x s) = tr_pool s"
  by (simp_all add: add_data_def)

function splice_loop :: "int \<Rightarrow> int \<Rightarrow> bool \<Rightarrow> (transfer, int \<times> bool \<times> err) prog" where
  "splice_loop remain written handled s =
     (if remain > 0 then
        let lim = (if maxSpliceSize > remain then remain else maxSpliceSize) in
        (case on_src (spliceDrain (sp_wfd (tr_pipe s)) lim) s of
           (s1, Ret (inPipe, e)) \<Rightarrow>
             (let handled = (handled \<or> e \<noteq> Some (Sys EINVAL)) in
              if e \<noteq> None \<or> inPipe = 0 then (s1, Ret (written, handled, e))
              else
                (case on_dst (splicePump (sp_rfd (tr_pipe s)) inPipe) (add_data inPipe s1) of
                   (s2, Ret (n, e)) \<Rightarrow>
                     (let (written, remain, s2) = (if n > 0 then (written + n, remain - n, add_data (- n) s2) else (written, remain, s2))
                      in if e = None then splice_loop remain written handled s2 else (s2, Ret (written, handled, e)))
                 | (s2, Panic m) \<Rightarrow> (s2, Panic m)
                 | (s2, Blocked) \<Rightarrow> (s2, Blocked)))
         | (s1, Panic m) \<Rightarrow> (s1, Panic m)
         | (s1, Blocked) \<Rightarrow> (s1, Blocked))
      else (s, Ret (written, handled, None)))"
  by pat_completeness auto
termination
  by (relation "measure (\<lambda>(remain, written, handled, s). tr_todo s)")
    (auto dest!: splice_round_todo [where t = "add_data _"] split: if_splits)

declare splice_loop.simps [simp del]

text \<open>The second descriptor of a pipe is the second result of \<open>pipe2\<close>.\<close>

definition newPipe :: "(transfer, splicePipe option) prog" where
  "newPipe = andThen (on_dst (syscall SysPipe2)) (\<lambda>a.
     if a_err a \<noteq> None then ret None
     else andThen (on_dst (syscall (SysSetPipeSize (a_n a) maxSpliceSize))) (\<lambda>_.
       ret (Some \<lparr>sp_rfd = a_n a, sp_wfd = a_oobn a, sp_data = 0\<rparr>)))"

definition destroyPipe :: "splicePipe \<Rightarrow> (transfer, unit) prog" where
  "destroyPipe p = andThen (on_dst (syscall (SysClose (sp_rfd p)))) (\<lambda>_.
     andThen (on_dst (syscall (SysClose (sp_wfd p)))) (\<lambda>_. ret ()))"

definition getPipe :: "(transfer, string \<times> err) prog" where
  "getPipe s = (case tr_pool s of
     p # pool \<Rightarrow> (s\<lparr>tr_pool := pool, tr_pipe := p\<rparr>, Ret ('''', None))
   | [] \<Rightarrow> andThen newPipe (\<lambda>v. case v of
       None \<Rightarrow> ret (''splice'', Some (Sys EINVAL))
     | Some p \<Rightarrow> (\<lambda>s. (s\<lparr>tr_pipe := p\<rparr>, Ret ('''', None)))) s)"

definition putPipe :: "(transfer, unit) prog" where
  "putPipe s =
     (if sp_data (tr_pipe s) \<noteq> 0 then destroyPipe (tr_pipe s) s
      else (s\<lparr>tr_pool := tr_pipe s # tr_pool s\<rparr>, Ret ()))"

definition splice_body :: "int \<Rightarrow> (transfer, int \<times> bool \<times> string \<times> err) prog" where
  "splice_body remain = andThen (splice_loop remain 0 False) (\<lambda>(written, handled, e).
     if e \<noteq> None then ret (written, handled, ''splice'', e) else ret (written, True, '''', None))"

definition Splice :: "int \<Rightarrow> (transfer, int \<times> bool \<times> string \<times> err) prog" where
  "Splice remain = andThen getPipe (\<lambda>(sc, e).
     if e \<noteq> None then ret (0, False, sc, e) else deferring (splice_body remain) putPipe)"

section \<open>copy_file_range\<close>

definition EPERM :: int where "EPERM = 1"
definition EIO :: int where "EIO = 5"
definition EXDEV :: int where "EXDEV = 18"
definition EOPNOTSUPP :: int where "EOPNOTSUPP = 95"

definition maxCopyFileRangeRound :: int where
  "maxCopyFileRangeRound = 2 ^ 30"

definition kernelVersion53 :: "int \<times> int \<Rightarrow> bool" where
  "kernelVersion53 version = (case version of (major, minor) \<Rightarrow> major > 5 \<or> major = 5 \<and> minor \<ge> 3)"

definition copyFileRange :: "int \<Rightarrow> (transfer, int \<times> err) prog" where
  "copyFileRange lim = orReturn (on_dst writeLock) (\<lambda>e. (0, Some e))
     (deferring
       (orReturn (on_src readLock) (\<lambda>e. (0, Some e))
         (deferring
           (\<lambda>s. andThen (on_dst (ignoringEINTRIO (SysCopyFileRange (fd_Sysfd (tr_src s)) (fd_Sysfd (w_fd (tr_w s))) lim)))
              (\<lambda>a. ret (a_n a, a_err a)) s)
           (on_src readUnlock)))
       (on_dst writeUnlock))"

lemma frugal_on:
  "frugal (\<lambda>w. todo w) m \<Longrightarrow> frugal (\<lambda>s. tr_todo s) (on_dst m)" "frugal (\<lambda>w. todo w) m \<Longrightarrow> frugal (\<lambda>s. tr_todo s) (on_src m)"
  by (auto simp: frugal_def on_simps) (metis set_fd_todo(1))

lemma copyFileRange_todo:
  assumes "copyFileRange lim s = (s', Ret (n, None))"
  shows "tr_todo s' < tr_todo s"
proof -
  have call: "tr_todo s2 < tr_todo s1"
    if "andThen (on_dst (ignoringEINTRIO c)) (\<lambda>a. ret (a_n a, a_err a)) s1 = (s2, Ret (n, None))" for c s1 s2
    using that ignoringEINTRIO_todo by (auto simp: andThen_def ret_def on_simps split: prod.splits outcome.splits)
  have inner: "tr_todo s2 < tr_todo s1"
    if "orReturn (on_src readLock) (\<lambda>e. (0, Some e)) (deferring
         (\<lambda>s. andThen (on_dst (ignoringEINTRIO (SysCopyFileRange (fd_Sysfd (tr_src s)) (fd_Sysfd (w_fd (tr_w s))) lim)))
            (\<lambda>a. ret (a_n a, a_err a)) s) (on_src readUnlock)) s1 = (s2, Ret (n, None))" for s1 s2
    by (rule locked_todo [OF that _ frugal_on(2) [OF frugal_locks(1)] frugal_on(2) [OF frugal_locks(3)] call]) simp_all
  show ?thesis
    by (rule locked_todo [OF assms [unfolded copyFileRange_def] _ frugal_on(1) [OF frugal_locks(2)] frugal_on(1) [OF frugal_locks(4)] inner]) simp_all
qed

function copy_range_loop :: "int \<Rightarrow> int \<Rightarrow> (transfer, int \<times> bool \<times> err) prog" where
  "copy_range_loop remain written s =
     (if remain > 0 then
        let lim = (if remain > maxCopyFileRangeRound then maxCopyFileRangeRound else remain) in
        (case copyFileRange lim s of
           (s1, Ret (n, e)) \<Rightarrow>
             (if e = Some (Sys ENOSYS) then (s1, Ret (0, False, None))
              else if e \<in> {Some (Sys EXDEV), Some (Sys EINVAL), Some (Sys EIO), Some (Sys EOPNOTSUPP), Some (Sys EPERM)}
                then (s1, Ret (0, False, None))
              else if e = None then
                (if n = 0 then (if written = 0 then (s1, Ret (0, False, None)) else (s1, Ret (written, True, None)))
                 else copy_range_loop (remain - n) (written + n) s1)
              else (s1, Ret (written, True, e)))
         | (s1, Panic m) \<Rightarrow> (s1, Panic m)
         | (s1, Blocked) \<Rightarrow> (s1, Blocked))
      else (s, Ret (written, True, None)))"
  by pat_completeness auto
termination
  by (relation "measure (\<lambda>(remain, written, s). tr_todo s)") (auto dest!: copyFileRange_todo [OF sym])

declare copy_range_loop.simps [simp del]

text \<open>\<open>version\<close> is what \<open>unix.KernelVersion\<close> says.\<close>

definition CopyFileRange :: "int \<times> int \<Rightarrow> int \<Rightarrow> (transfer, int \<times> bool \<times> err) prog" where
  "CopyFileRange version remain =
     (if \<not> kernelVersion53 version then ret (0, False, None) else copy_range_loop remain 0)"

end
