(* ===== verification/FdProps.thy ===== *)
theory FdProps
  imports FdOps
begin

text \<open>
  What the methods of \<open>FD\<close> guarantee: they balance the mutex, refuse a closed descriptor, close
  it once, write every byte in order, retry what must be retried, and lose no accepted
  connection.
\<close>

section \<open>References and locks of a method\<close>

text \<open>The mutex word after \<open>rwlock\<close> on a free lock and \<open>rwunlock\<close>, or \<open>incref\<close> and \<open>decref\<close>.\<close>

definition usable :: "fdMutex \<Rightarrow> bool" where
  "usable mu \<longleftrightarrow> \<not> v_closed (mview mu) \<and> v_refs (mview mu) < max_count"

lemma closed_refuses:
  assumes "v_closed (mview mu)"
  shows "incref mu = (mu, Ret False)" "rwlock read mu = (mu, Ret False)"
    "increfAndClose mu = (mu, Ret False)"
proof -
  have "incref_try (mu_state mu) = Return False" "rwlock_try read (mu_state mu) = Return False"
    "increfAndClose_try (mu_state mu) = Return False"
    using try_op_cases(1) [of Incref "mu_state mu" False] try_op_cases(1) [of "Rwlock read" "mu_state mu" False]
      try_op_cases(1) [of IncrefAndClose "mu_state mu" False] assms by auto
  then show "incref mu = (mu, Ret False)" "rwlock read mu = (mu, Ret False)"
    "increfAndClose mu = (mu, Ret False)"
    by (simp_all add: incref_def increfAndClose_def Let_def rwlock.simps [of read mu])
qed

lemma incref_usable:
  assumes "usable mu"
  obtains mu' where "incref mu = (mu', Ret True)"
    and "mview mu' = (mview mu)\<lparr>v_refs := v_refs (mview mu) + 1\<rparr>"
    and "mu_rsema mu' = mu_rsema mu" "mu_wsema mu' = mu_wsema mu"
proof -
  obtain new where "incref_try (mu_state mu) = Try new"
    and "view new = (mview mu)\<lparr>v_refs := v_refs (mview mu) + 1\<rparr>"
    using try_op_TryE [of Incref "mu_state mu"] assms by (auto simp: usable_def)
  then show thesis using that [of "mu\<lparr>mu_state := new\<rparr>"] by (simp add: incref_def)
qed

lemma decref_open:
  assumes "0 < v_refs (mview mu)"
  obtains mu' where "decref mu = (mu', Ret (v_closed (mview mu) \<and> v_refs (mview mu) = 1))"
    and "mview mu' = (mview mu)\<lparr>v_refs := v_refs (mview mu) - 1\<rparr>"
    and "mu_rsema mu' = mu_rsema mu" "mu_wsema mu' = mu_wsema mu"
proof -
  obtain new where t: "decref_try (mu_state mu) = Try new"
    and v: "view new = (mview mu)\<lparr>v_refs := v_refs (mview mu) - 1\<rparr>"
    using try_op_TryE [of Decref "mu_state mu"] assms by auto
  have "last_ref new \<longleftrightarrow> v_closed (mview mu) \<and> v_refs (mview mu) = 1"
    using assms by (auto simp: last_ref_view v)
  then show thesis using that [of "mu\<lparr>mu_state := new\<rparr>"] t v by (simp add: decref_def)
qed

lemma rwlock_free:
  assumes "usable mu" and "\<not> v_lock read (mview mu)"
  obtains mu' where "rwlock read mu = (mu', Ret True)"
    and "mview mu' = set_lock read True (mview mu)\<lparr>v_refs := v_refs (mview mu) + 1\<rparr>"
    and "mu_rsema mu' = mu_rsema mu" "mu_wsema mu' = mu_wsema mu"
proof -
  obtain new where t: "rwlock_try read (mu_state mu) = Try new"
    and v: "view new = set_lock read True (mview mu)\<lparr>v_refs := v_refs (mview mu) + 1\<rparr>"
    using try_op_TryE [of "Rwlock read" "mu_state mu"] assms by (auto simp: usable_def)
  then have "rwlock read mu = (mu\<lparr>mu_state := new\<rparr>, Ret True)"
    using assms(2) by (simp add: rwlock.simps [of read mu] view_tests)
  then show thesis using that v by simp
qed

lemma rwunlock_held:
  assumes "v_lock read (mview mu)" and "0 < v_refs (mview mu)" and "v_wait read (mview mu) = 0"
  obtains mu' where "rwunlock read mu = (mu', Ret (v_closed (mview mu) \<and> v_refs (mview mu) = 1))"
    and "mview mu' = set_lock read False (mview mu)\<lparr>v_refs := v_refs (mview mu) - 1\<rparr>"
    and "mu_rsema mu' = mu_rsema mu" "mu_wsema mu' = mu_wsema mu"
proof -
  obtain new where t: "rwunlock_try read (mu_state mu) = Try new"
    and v: "view new = set_wait read (v_wait read (mview mu) - 1)
        (set_lock read False (mview mu)\<lparr>v_refs := v_refs (mview mu) - 1\<rparr>)"
    using try_op_TryE [of "Rwunlock read" "mu_state mu"] assms by auto
  have v': "view new = set_lock read False (mview mu)\<lparr>v_refs := v_refs (mview mu) - 1\<rparr>"
    using assms(3) v by (simp add: view_accessors split: if_splits)
  then have "last_ref new \<longleftrightarrow> v_closed (mview mu) \<and> v_refs (mview mu) = 1"
    using assms(2) by (auto simp: last_ref_view)
  then have "rwunlock read mu = (mu\<lparr>mu_state := new\<rparr>, Ret (v_closed (mview mu) \<and> v_refs (mview mu) = 1))"
    using t assms(3) by (simp add: rwunlock_def Let_def view_tests)
  then show thesis using that v' by simp
qed

text \<open>Two worlds that differ in the bits of the mutex word that carry no information.\<close>

definition same_mutex :: "fdMutex \<Rightarrow> fdMutex \<Rightarrow> bool" where
  "same_mutex mu mu' \<longleftrightarrow> mview mu = mview mu' \<and> mu_rsema mu = mu_rsema mu' \<and> mu_wsema mu = mu_wsema mu'"

definition keeps_fd :: "'r meth \<Rightarrow> bool" where
  "keeps_fd m \<longleftrightarrow> (\<forall>w. w_fd (fst (m w)) = w_fd w)"

lemma with_mutex_eq: "f (fd_fdmu (w_fd w)) = (mu, r) \<Longrightarrow> with_mutex f w = (set_fd (fd_fdmu_update (\<lambda>_. mu)) w, r)"
  by (simp add: with_mutex_def)

text \<open>
  A method under a lock or a reference, when nobody closes the descriptor meanwhile: it takes
  the lock, runs its body, and leaves the mutex as it found it, whatever the body returns.
\<close>

locale guard =
  fixes acquire release :: "fdMutex \<Rightarrow> fdMutex \<times> bool outcome" and free :: "fdMutex \<Rightarrow> bool"
  assumes acquire_free: "free mu \<Longrightarrow> \<exists>mu'. acquire mu = (mu', Ret True)"
    and release_taken: "free mu \<Longrightarrow> acquire mu = (mu', Ret True) \<Longrightarrow>
        \<exists>mu''. release mu' = (mu'', Ret False) \<and> same_mutex mu'' mu"
    and acquire_closed: "v_closed (mview mu) \<Longrightarrow> acquire mu = (mu, Ret False)"
begin

lemma guarded_closed:
  assumes "v_closed (mview (fd_fdmu (w_fd w)))"
  shows "orReturn (andThen (with_mutex acquire) closing_unless) h rest w
    = (w, Ret (h (errClosing (fd_isFile (w_fd w)))))"
proof -
  have "set_fd (fd_fdmu_update (\<lambda>_. fd_fdmu (w_fd w))) w = w" by (simp add: set_fd_def)
  then show ?thesis
    using acquire_closed [OF assms] by (simp add: orReturn_def andThen_def with_mutex_def closing_unless_def ret_def)
qed

lemma guarded_runs:
  assumes free: "free (fd_fdmu (w_fd w))" and keep: "keeps_fd body"
    and acq: "acquire (fd_fdmu (w_fd w)) = (mu', Ret True)"
    and body: "body (set_fd (fd_fdmu_update (\<lambda>_. mu')) w) = (w1, r)" and "r \<noteq> Blocked"
  obtains mu'' where "same_mutex mu'' (fd_fdmu (w_fd w))"
    and "orReturn (andThen (with_mutex acquire) closing_unless) h
      (deferring body (andThen (with_mutex release) (\<lambda>last. if last then d else ret x))) w
      = (set_fd (fd_fdmu_update (\<lambda>_. mu'')) w1, r)"
proof -
  obtain mu'' where rel: "release mu' = (mu'', Ret False)" and same: "same_mutex mu'' (fd_fdmu (w_fd w))"
    using release_taken [OF free acq] by blast
  have "w_fd w1 = w_fd (set_fd (fd_fdmu_update (\<lambda>_. mu')) w)"
    using keep body unfolding keeps_fd_def by (metis fst_conv)
  then have "fd_fdmu (w_fd w1) = mu'" by (simp add: set_fd_def)
  then have "with_mutex release w1 = (set_fd (fd_fdmu_update (\<lambda>_. mu'')) w1, Ret False)"
    using rel by (simp add: with_mutex_def)
  then show thesis
    using that [OF same] acq body assms(5)
    by (cases r) (simp_all add: orReturn_def andThen_def with_mutex_def closing_unless_def deferring_def ret_def)
qed

end

definition free_lock :: "bool \<Rightarrow> fdMutex \<Rightarrow> bool" where
  "free_lock read mu \<longleftrightarrow> usable mu \<and> \<not> v_lock read (mview mu) \<and> v_wait read (mview mu) = 0"

lemma rw_guard: "guard (rwlock read) (rwunlock read) (free_lock read)"
proof
  show "\<exists>mu'. rwlock read mu = (mu', Ret True)" if "free_lock read mu" for mu
    using that rwlock_free [of mu read] by (auto simp: free_lock_def)
  show "\<exists>mu''. rwunlock read mu' = (mu'', Ret False) \<and> same_mutex mu'' mu"
    if f: "free_lock read mu" and a: "rwlock read mu = (mu', Ret True)" for mu mu'
  proof -
    obtain m where "rwlock read mu = (m, Ret True)"
      and m: "mview m = set_lock read True (mview mu)\<lparr>v_refs := v_refs (mview mu) + 1\<rparr>"
        "mu_rsema m = mu_rsema mu" "mu_wsema m = mu_wsema mu"
      using rwlock_free [of mu read] f by (auto simp: free_lock_def)
    with a have eq: "m = mu'" by simp
    have "v_lock read (mview mu')" "0 < v_refs (mview mu')" "v_wait read (mview mu') = 0"
      using m f unfolding eq by (auto simp: free_lock_def view_accessors)
    then obtain mu'' where "rwunlock read mu' = (mu'', Ret (v_closed (mview mu') \<and> v_refs (mview mu') = 1))"
      "mview mu'' = set_lock read False (mview mu')\<lparr>v_refs := v_refs (mview mu') - 1\<rparr>"
      "mu_rsema mu'' = mu_rsema mu'" "mu_wsema mu'' = mu_wsema mu'"
      by (rule rwunlock_held)
    then show ?thesis using m f unfolding eq
      by (auto simp: same_mutex_def free_lock_def usable_def view_accessors split: if_splits)
  qed
  show "rwlock read mu = (mu, Ret False)" if "v_closed (mview mu)" for mu
    using closed_refuses(2) [OF that] .
qed

interpretation rl: guard "rwlock True" "rwunlock True" "free_lock True" by (rule rw_guard)
interpretation wl: guard "rwlock False" "rwunlock False" "free_lock False" by (rule rw_guard)

interpretation rf: guard incref decref usable
proof
  show "\<exists>mu'. incref mu = (mu', Ret True)" if "usable mu" for mu
    using incref_usable [OF that] by blast
  show "\<exists>mu''. decref mu' = (mu'', Ret False) \<and> same_mutex mu'' mu"
    if u: "usable mu" and a: "incref mu = (mu', Ret True)" for mu mu'
  proof -
    obtain m where "incref mu = (m, Ret True)"
      and m: "mview m = (mview mu)\<lparr>v_refs := v_refs (mview mu) + 1\<rparr>"
        "mu_rsema m = mu_rsema mu" "mu_wsema m = mu_wsema mu"
      using incref_usable [OF u] by blast
    with a have eq: "m = mu'" by simp
    then have "0 < v_refs (mview mu')" using m by simp
    then obtain mu'' where "decref mu' = (mu'', Ret (v_closed (mview mu') \<and> v_refs (mview mu') = 1))"
      "mview mu'' = (mview mu')\<lparr>v_refs := v_refs (mview mu') - 1\<rparr>"
      "mu_rsema mu'' = mu_rsema mu'" "mu_wsema mu'' = mu_wsema mu'"
      by (rule decref_open)
    then show ?thesis using m u unfolding eq by (auto simp: same_mutex_def usable_def)
  qed
  show "incref mu = (mu, Ret False)" if "v_closed (mview mu)" for mu
    using closed_refuses(1) [OF that] .
qed

section \<open>Bodies leave the FD alone\<close>

text \<open>A predicate that a method keeps; the system calls and the waits keep the FD.\<close>

definition keeps :: "(world \<Rightarrow> bool) \<Rightarrow> 'r meth \<Rightarrow> bool" where
  "keeps I m \<longleftrightarrow> (\<forall>w w' r. I w \<longrightarrow> m w = (w', r) \<longrightarrow> I w')"

definition stable :: "(world \<Rightarrow> bool) \<Rightarrow> bool" where
  "stable I \<longleftrightarrow> (\<forall>c. keeps I (syscall c)) \<and> keeps I waitRead \<and> keeps I waitWrite
     \<and> keeps I prepareRead \<and> keeps I prepareWrite"

lemma keepsD: "keeps I m \<Longrightarrow> m w = (w', r) \<Longrightarrow> I w \<Longrightarrow> I w'"
  by (auto simp: keeps_def)

lemma keepsI: "(\<And>w w' r. I w \<Longrightarrow> m w = (w', r) \<Longrightarrow> I w') \<Longrightarrow> keeps I m"
  by (auto simp: keeps_def)

lemma stableD:
  assumes "stable I"
  shows "keeps I (syscall c)" "keeps I waitRead" "keeps I waitWrite" "keeps I prepareRead" "keeps I prepareWrite"
  using assms by (simp_all add: stable_def)

lemma keeps_ret: "keeps I (ret x)"
  by (simp add: keeps_def ret_def)

lemma keeps_return: "keeps I (\<lambda>w. (w, f w))"
  by (simp add: keeps_def)

lemma keeps_andThen: "keeps I m \<Longrightarrow> (\<And>x. keeps I (f x)) \<Longrightarrow> keeps I (andThen m f)"
proof (rule keepsI)
  fix w w' r
  assume m: "keeps I m" and f: "\<And>x. keeps I (f x)" and w: "I w" and a: "andThen m f w = (w', r)"
  obtain w1 o1 where s: "m w = (w1, o1)" by force
  then have "I w1" using keepsD [OF m s w] by simp
  then show "I w'" using a s keepsD [OF f] by (cases o1) (auto simp: andThen_def)
qed

lemma keeps_orReturn: "keeps I m \<Longrightarrow> keeps I rest \<Longrightarrow> keeps I (orReturn m h rest)"
  unfolding orReturn_def by (rule keeps_andThen) (simp_all split: option.split add: keeps_ret)

lemma keeps_reader: "(\<And>x. keeps I (f x)) \<Longrightarrow> keeps I (\<lambda>w. f (g w) w)"
  by (simp add: keeps_def)

lemma keeps_ignoringEINTRIO:
  assumes "stable I"
  shows "keeps I (ignoringEINTRIO c)"
proof (rule keepsI)
  show "I w' " if "I w" "ignoringEINTRIO c w = (w', r)" for w w' r
    using that
  proof (induction "todo w" arbitrary: w rule: less_induct)
    case less
    obtain w1 o1 where s: "syscall c w = (w1, o1)" by force
    have I1: "I w1" using keepsD [OF stableD(1) [OF assms] s less.prems(1)] .
    show ?case
    proof (cases "\<exists>a. o1 = Ret a \<and> a_err a = eintr")
      case True
      then obtain a where a: "o1 = Ret a" "a_err a = eintr" by blast
      then show ?thesis using less.hyps [of w1] syscall_todo [of c w w1 a] s I1 less.prems(2)
        by (simp add: ignoringEINTRIO.simps [of c w])
    next
      case False
      then show ?thesis using less.prems(2) s I1
        by (auto simp: ignoringEINTRIO.simps [of c w] split: outcome.splits if_splits)
    qed
  qed
qed

text \<open>One pass of a reading loop: it is over, or it goes round once more.\<close>

lemma read_loop_pass:
  assumes "stable I" and "I w" and "read_loop c w = (w', r)"
  obtains (over) "I w'" | (again) w2 where "I w2" "todo w2 < todo w" "read_loop c w2 = (w', r)"
proof -
  obtain w1 o1 where s: "ignoringEINTRIO c w = (w1, o1)" by force
  have I1: "I w1" using keepsD [OF keeps_ignoringEINTRIO [OF assms(1)] s assms(2)] .
  obtain w2 o2 where wt: "waitRead w1 = (w2, o2)" by force
  have I2: "I w2" using keepsD [OF stableD(2) [OF assms(1)] wt I1] .
  show thesis
  proof (cases "\<exists>a. o1 = Ret a \<and> a_err a = eagain \<and> pollable w1 \<and> o2 = Ret None")
    case True
    then obtain a where a: "o1 = Ret a" "a_err a = eagain" "pollable w1" "o2 = Ret None" by blast
    have "todo w2 < todo w" using ignoringEINTRIO_todo [of c w w1 a] waitRead_keeps [OF wt] s a by simp
    moreover have "read_loop c w2 = (w', r)" using assms(3) s a wt by (simp add: read_loop.simps [of c w])
    ultimately show ?thesis using again I2 by blast
  next
    case False
    then have "w' = w1 \<or> w' = w2"
      using assms(3) s wt by (auto simp: read_loop.simps [of c w] Let_def split: outcome.splits if_splits option.splits)
    then show ?thesis using over I1 I2 by blast
  qed
qed

lemma keeps_read_loop: "stable I \<Longrightarrow> keeps I (read_loop c)"
proof (rule keepsI)
  show "I w'" if "stable I" "I w" "read_loop c w = (w', r)" for w w' r
    using that(2,3)
  proof (induction "todo w" arbitrary: w rule: less_induct)
    case less
    then show ?case using read_loop_pass [OF that(1) less.prems] by metis
  qed
qed

lemma keeps_recv_loop: "stable I \<Longrightarrow> keeps I (recv_loop z c)"
proof (rule keepsI)
  show "I w'" if "stable I" "I w" "recv_loop z c w = (w', r)" for w w' r
    using that(2,3)
  proof (induction "todo w" arbitrary: w rule: less_induct)
    case less
    obtain w1 o1 where s: "syscall c w = (w1, o1)" by force
    obtain w2 o2 where wt: "waitRead w1 = (w2, o2)" by force
    have I1: "I w1" using keepsD [OF stableD(1) [OF that(1)] s less.prems(1)] .
    have I2: "I w2" using keepsD [OF stableD(2) [OF that(1)] wt I1] .
    show ?case
    proof (cases o1)
      case (Ret a)
      then have t: "todo w1 < todo w" "todo w2 < todo w"
        using syscall_todo [of c w w1 a] s waitRead_keeps [OF wt] by simp_all
      then show ?thesis using less.hyps [OF t(1) I1] less.hyps [OF t(2) I2] less.prems(2) I1 I2
        by (auto simp: recv_loop.simps [of z c w] s wt Ret Let_def split: outcome.splits if_splits option.splits)
    qed (use less.prems(2) I1 in \<open>simp_all add: recv_loop.simps [of z c w] s\<close>)
  qed
qed

lemma keeps_send_loop: "stable I \<Longrightarrow> keeps I (send_loop c)"
proof (rule keepsI)
  show "I w'" if "stable I" "I w" "send_loop c w = (w', r)" for w w' r
    using that(2,3)
  proof (induction "todo w" arbitrary: w rule: less_induct)
    case less
    obtain w1 o1 where s: "syscall c w = (w1, o1)" by force
    obtain w2 o2 where wt: "waitWrite w1 = (w2, o2)" by force
    have I1: "I w1" using keepsD [OF stableD(1) [OF that(1)] s less.prems(1)] .
    have I2: "I w2" using keepsD [OF stableD(3) [OF that(1)] wt I1] .
    show ?case
    proof (cases o1)
      case (Ret a)
      then have t: "todo w1 < todo w" "todo w2 < todo w"
        using syscall_todo [of c w w1 a] s waitWrite_keeps [OF wt] by simp_all
      then show ?thesis using less.hyps [OF t(1) I1] less.hyps [OF t(2) I2] less.prems(2) I1 I2
        by (auto simp: send_loop.simps [of c w] s wt Ret Let_def split: outcome.splits if_splits option.splits)
    qed (use less.prems(2) I1 in \<open>simp_all add: send_loop.simps [of c w] s\<close>)
  qed
qed

lemma keeps_write_loop: "stable I \<Longrightarrow> keeps I (write_loop p nn)"
proof (rule keepsI)
  show "I w'" if "stable I" "I w" "write_loop p nn w = (w', r)" for w w' r
    using that(2,3)
  proof (induction "todo w" arbitrary: w nn rule: less_induct)
    case less
    let ?c = "SysWrite (fd_Sysfd (w_fd w)) (slice p (nat nn) (nat (write_max p nn w)))"
    obtain w1 o1 where s: "ignoringEINTRIO ?c w = (w1, o1)" by force
    obtain w2 o2 where wt: "waitWrite w1 = (w2, o2)" by force
    have I1: "I w1" using keepsD [OF keeps_ignoringEINTRIO [OF that(1)] s less.prems(1)] .
    have I2: "I w2" using keepsD [OF stableD(3) [OF that(1)] wt I1] .
    show ?case
    proof (cases o1)
      case (Ret a)
      then have t: "todo w1 < todo w" "todo w2 < todo w"
        using ignoringEINTRIO_todo [of ?c w w1 a] s waitWrite_keeps [OF wt] by simp_all
      then show ?thesis using less.hyps [OF t(1) I1] less.hyps [OF t(2) I2] less.prems I1 I2
        by (auto simp: write_loop.simps [of p nn w] s wt Ret Let_def split: outcome.splits if_splits option.splits)
    qed (use less.prems I1 in \<open>auto simp: write_loop.simps [of p nn w] s Let_def split: if_splits\<close>)
  qed
qed

lemma keeps_writev_loop: "stable I \<Longrightarrow> keeps I (writev_loop v n e)"
proof (rule keepsI)
  show "I w'" if "stable I" "I w" "writev_loop v n e w = (w', r)" for w w' r
    using that(2,3)
  proof (induction "todo w" arbitrary: w v n e rule: less_induct)
    case less
    let ?io = "build_iovecs (fd_IsStream (w_fd w)) (max_vec (e_goos (w_env w))) v []"
    obtain w1 o1 where s: "writev (fd_Sysfd (w_fd w)) ?io w = (w1, o1)" by force
    obtain w2 o2 where wt: "waitWrite w1 = (w2, o2)" by force
    have I1: "I w1"
      using keepsD [OF keeps_ignoringEINTRIO [OF that(1)] s [unfolded writev_def] less.prems(1)] .
    have I2: "I w2" using keepsD [OF stableD(3) [OF that(1)] wt I1] .
    show ?case
    proof (cases o1)
      case (Ret a)
      then have t: "todo w1 < todo w" "todo w2 < todo w"
        using writev_todo' [OF sym, of "fd_Sysfd (w_fd w)" ?io w w1 a] s waitWrite_keeps [OF wt] by simp_all
      then show ?thesis using less.hyps [OF t(1) I1] less.hyps [OF t(2) I2] less.prems I1 I2
        by (auto simp: writev_loop.simps [of v n e w] s wt Ret Let_def split: outcome.splits if_splits option.splits)
    qed (use less.prems I1 in \<open>auto simp: writev_loop.simps [of v n e w] s Let_def split: if_splits\<close>)
  qed
qed

lemma keeps_accept: "stable I \<Longrightarrow> keeps I (accept s)"
proof -
  assume "stable I"
  then have sys: "keeps I (syscall c)" for c by (simp add: stable_def)
  have old: "keeps I (accept_old s)"
    unfolding accept_old_def by (intro keeps_andThen sys) (simp_all add: keeps_ret keeps_andThen sys)
  show ?thesis
    unfolding accept_def by (rule keeps_andThen [OF sys]) (simp add: keeps_ret old)
qed

lemma keeps_accept_loop: "stable I \<Longrightarrow> keeps I accept_loop"
proof (rule keepsI)
  show "I w'" if "stable I" "I w" "accept_loop w = (w', r)" for w w' r
    using that(2,3)
  proof (induction "todo w" arbitrary: w rule: less_induct)
    case less
    obtain w1 o1 where s: "accept (fd_Sysfd (w_fd w)) w = (w1, o1)" by force
    obtain w2 o2 where wt: "waitRead w1 = (w2, o2)" by force
    have I1: "I w1" using keepsD [OF keeps_accept [OF that(1)] s less.prems(1)] .
    have I2: "I w2" using keepsD [OF stableD(2) [OF that(1)] wt I1] .
    show ?case
    proof (cases o1)
      case (Ret a)
      obtain ns sa call e where a: "a = (ns, sa, call, e)" by (metis prod_cases4)
      have t: "todo w1 < todo w" "todo w2 < todo w"
        using accept_todo [of _ w w1 a] s waitRead_keeps [OF wt] Ret by simp_all
      then show ?thesis using less.hyps [OF t(1) I1] less.hyps [OF t(2) I2] less.prems I1 I2
        by (auto simp: accept_loop.simps [of w] s wt Ret a Let_def split: outcome.splits if_splits option.splits)
    qed (use less.prems I1 in \<open>simp_all add: accept_loop.simps [of w] s\<close>)
  qed
qed

lemma stable_fd: "stable (\<lambda>w. w_fd w = fd)"
  by (auto simp: stable_def keeps_def syscall_def prepareRead_def prepareWrite_def poll_prepare_def
      waitRead_def waitWrite_def poll_wait_def Let_def split: list.splits prod.splits outcome.splits if_splits)

lemma keeps_fd_iff: "keeps_fd m \<longleftrightarrow> (\<forall>fd. keeps (\<lambda>w. w_fd w = fd) m)"
  unfolding keeps_fd_def keeps_def by (metis prod.collapse fst_conv)

lemma keeps_fdI: "(\<And>I. stable I \<Longrightarrow> keeps I m) \<Longrightarrow> keeps_fd m"
  by (simp add: keeps_fd_iff stable_fd)

section \<open>Methods under a lock\<close>

definition balanced :: "world \<Rightarrow> world \<Rightarrow> bool" where
  "balanced w w' \<longleftrightarrow> w_fd w' = (w_fd w)\<lparr>fd_fdmu := fd_fdmu (w_fd w')\<rparr>
     \<and> same_mutex (fd_fdmu (w_fd w')) (fd_fdmu (w_fd w))"

lemma balancedI:
  assumes "w_fd w1 = w_fd (set_fd (fd_fdmu_update (\<lambda>_. mu')) w)" and "same_mutex mu'' (fd_fdmu (w_fd w))"
  shows "balanced w (set_fd (fd_fdmu_update (\<lambda>_. mu'')) w1)"
  using assms by (simp add: balanced_def set_fd_def)

text \<open>
  The body of a method that got its lock runs in the world with the lock taken; the rest of
  the result is the body's own.
\<close>

definition runs_body :: "'r meth \<Rightarrow> world \<Rightarrow> world \<Rightarrow> 'r outcome \<Rightarrow> bool" where
  "runs_body body w w' r \<longleftrightarrow> balanced w w' \<and> (\<exists>mu w1. body (set_fd (fd_fdmu_update (\<lambda>_. mu)) w) = (w1, r)
     \<and> w_log w' = w_log w1 \<and> w_io w' = w_io w1 \<and> w_ep w' = w_ep w1)"

lemma blocked_body:
  assumes "free_lock True (fd_fdmu (w_fd w))" and "rwlock True (fd_fdmu (w_fd w)) = (mu', Ret True)"
    and "body (set_fd (fd_fdmu_update (\<lambda>_. mu')) w) = (w1, Blocked)"
  shows "orReturn readLock h (deferring body readUnlock) w = (w1, Blocked)"
  using assms by (simp add: orReturn_def readLock_def andThen_def with_mutex_def closing_unless_def deferring_def)

lemma reader_runs:
  assumes "free_lock True (fd_fdmu (w_fd w))" and "keeps_fd body"
    and "orReturn readLock h (deferring body readUnlock) w = (w', r)" and "r \<noteq> Blocked"
  shows "runs_body body w w' r"
proof -
  obtain mu' where acq: "rwlock True (fd_fdmu (w_fd w)) = (mu', Ret True)"
    using rl.acquire_free [OF assms(1)] by blast
  obtain w1 r1 where b: "body (set_fd (fd_fdmu_update (\<lambda>_. mu')) w) = (w1, r1)" by force
  have "r1 \<noteq> Blocked" using blocked_body [OF assms(1) acq, of body w1 h] assms(3,4) b by auto
  then obtain mu'' where same: "same_mutex mu'' (fd_fdmu (w_fd w))"
    and run: "orReturn readLock h (deferring body readUnlock) w = (set_fd (fd_fdmu_update (\<lambda>_. mu'')) w1, r1)"
    unfolding readLock_def readUnlock_def by (rule rl.guarded_runs [OF assms(1,2) acq b])
  have "w_fd w1 = w_fd (set_fd (fd_fdmu_update (\<lambda>_. mu')) w)"
    using assms(2) b unfolding keeps_fd_def by (metis fst_conv)
  from balancedI [OF this same] show ?thesis
    using run assms(3) b by (auto simp: runs_body_def set_fd_def)
qed

lemma writer_runs:
  assumes "free_lock False (fd_fdmu (w_fd w))" and "keeps_fd body"
    and "orReturn writeLock h (deferring body writeUnlock) w = (w', r)" and "r \<noteq> Blocked"
  shows "runs_body body w w' r"
proof -
  obtain mu' where acq: "rwlock False (fd_fdmu (w_fd w)) = (mu', Ret True)"
    using wl.acquire_free [OF assms(1)] by blast
  obtain w1 r1 where b: "body (set_fd (fd_fdmu_update (\<lambda>_. mu')) w) = (w1, r1)" by force
  have "r1 \<noteq> Blocked" using acq assms(3,4) b
    by (auto simp: orReturn_def writeLock_def andThen_def with_mutex_def closing_unless_def deferring_def)
  then obtain mu'' where same: "same_mutex mu'' (fd_fdmu (w_fd w))"
    and run: "orReturn writeLock h (deferring body writeUnlock) w = (set_fd (fd_fdmu_update (\<lambda>_. mu'')) w1, r1)"
    unfolding writeLock_def writeUnlock_def by (rule wl.guarded_runs [OF assms(1,2) acq b])
  have "w_fd w1 = w_fd (set_fd (fd_fdmu_update (\<lambda>_. mu')) w)"
    using assms(2) b unfolding keeps_fd_def by (metis fst_conv)
  from balancedI [OF this same] show ?thesis
    using run assms(3) b by (auto simp: runs_body_def set_fd_def)
qed

lemma ref_runs:
  assumes "usable (fd_fdmu (w_fd w))" and "keeps_fd body"
    and "orReturn fd_incref h (deferring body fd_decref) w = (w', r)" and "r \<noteq> Blocked"
  shows "runs_body body w w' r"
proof -
  obtain mu' where acq: "incref (fd_fdmu (w_fd w)) = (mu', Ret True)"
    using rf.acquire_free [OF assms(1)] by blast
  obtain w1 r1 where b: "body (set_fd (fd_fdmu_update (\<lambda>_. mu')) w) = (w1, r1)" by force
  have "r1 \<noteq> Blocked" using acq assms(3,4) b
    by (auto simp: orReturn_def fd_incref_def andThen_def with_mutex_def closing_unless_def deferring_def)
  then obtain mu'' where same: "same_mutex mu'' (fd_fdmu (w_fd w))"
    and run: "orReturn fd_incref h (deferring body fd_decref) w = (set_fd (fd_fdmu_update (\<lambda>_. mu'')) w1, r1)"
    unfolding fd_incref_def fd_decref_def by (rule rf.guarded_runs [OF assms(1,2) acq b])
  have "w_fd w1 = w_fd (set_fd (fd_fdmu_update (\<lambda>_. mu')) w)"
    using assms(2) b unfolding keeps_fd_def by (metis fst_conv)
  from balancedI [OF this same] show ?thesis
    using run assms(3) b by (auto simp: runs_body_def set_fd_def)
qed

text \<open>The bodies.\<close>

definition read_body :: "nat \<Rightarrow> (int \<times> err) meth" where
  "read_body lp =
     (if lp = 0 then ret (0, None)
      else orReturn prepareRead (\<lambda>e. (0, Some e))
        (\<lambda>w. let lp = (if fd_IsStream (w_fd w) \<and> int lp > maxRW then nat maxRW else lp) in
           andThen (read_loop (SysRead (fd_Sysfd (w_fd w)) lp))
             (\<lambda>a w. (w, Ret (a_n a, eofError (a_n a) (a_err a) w))) w))"

lemma fd_Read_body: "fd_Read lp = orReturn readLock (\<lambda>e. (0, Some e)) (deferring (read_body lp) readUnlock)"
  by (simp add: fd_Read_def read_body_def)

lemma keeps_then_at:
  assumes "\<And>x. keeps I (m x)" and "\<And>a. keeps I (f a)"
  shows "keeps I (\<lambda>w. andThen (m (g w)) f w)"
  using keeps_reader [where f = "\<lambda>x. andThen (m x) f" and g = g and I = I] keeps_andThen [OF assms] by simp

lemma keeps_read_body: "keeps_fd (read_body lp)"
proof (rule keeps_fdI)
  fix I
  assume I: "stable I"
  have "keeps I (\<lambda>w. andThen (read_loop (SysRead (fd_Sysfd (w_fd w)) (if fd_IsStream (w_fd w) \<and> int lp > maxRW then nat maxRW else lp)))
      (\<lambda>a w. (w, Ret (a_n a, eofError (a_n a) (a_err a) w))) w)"
    by (rule keeps_then_at [where m = read_loop, OF keeps_read_loop [OF I] keeps_return])
  then show "keeps I (read_body lp)"
    unfolding read_body_def Let_def by (simp add: keeps_ret keeps_orReturn stableD [OF I])
qed

lemma keeps_write_body: "keeps_fd (orReturn prepareWrite h (write_loop p nn))"
  by (intro keeps_fdI keeps_orReturn stableD keeps_write_loop)

lemma keeps_writev_body: "keeps_fd (orReturn prepareWrite h (writev_loop v n e))"
  by (intro keeps_fdI keeps_orReturn stableD keeps_writev_loop)

lemma keeps_accept_body: "keeps_fd (orReturn prepareRead h accept_loop)"
  by (intro keeps_fdI keeps_orReturn stableD keeps_accept_loop)

lemma keeps_recv_body:
  "keeps_fd (orReturn prepareRead h (\<lambda>w. andThen (recv_loop z (c (fd_Sysfd (w_fd w))))
     (\<lambda>a w. (w, Ret (res a (eofError (a_n a) (a_err a) w)))) w))"
proof (rule keeps_fdI)
  fix I
  assume I: "stable I"
  show "keeps I (orReturn prepareRead h (\<lambda>w. andThen (recv_loop z (c (fd_Sysfd (w_fd w))))
     (\<lambda>a w. (w, Ret (res a (eofError (a_n a) (a_err a) w)))) w))"
    by (rule keeps_orReturn [OF stableD(4) [OF I]
        keeps_then_at [where m = "recv_loop z", OF keeps_recv_loop [OF I] keeps_return]])
qed

lemma keeps_send_body:
  "keeps_fd (orReturn prepareWrite h (\<lambda>w. andThen (send_loop (c (fd_Sysfd (w_fd w)))) (\<lambda>a. ret (res a)) w))"
proof (rule keeps_fdI)
  fix I
  assume I: "stable I"
  show "keeps I (orReturn prepareWrite h (\<lambda>w. andThen (send_loop (c (fd_Sysfd (w_fd w)))) (\<lambda>a. ret (res a)) w))"
    by (rule keeps_orReturn [OF stableD(5) [OF I]
        keeps_then_at [where m = send_loop, OF keeps_send_loop [OF I] keeps_ret]])
qed

lemma reader_balanced:
  assumes "free_lock True (fd_fdmu (w_fd w))" and "keeps_fd body"
    and "snd (orReturn readLock h (deferring body readUnlock) w) \<noteq> Blocked"
  shows "balanced w (fst (orReturn readLock h (deferring body readUnlock) w))"
  using reader_runs [OF assms(1,2), of h] assms(3) unfolding runs_body_def by (metis prod.collapse)

lemma writer_balanced:
  assumes "free_lock False (fd_fdmu (w_fd w))" and "keeps_fd body"
    and "snd (orReturn writeLock h (deferring body writeUnlock) w) \<noteq> Blocked"
  shows "balanced w (fst (orReturn writeLock h (deferring body writeUnlock) w))"
  using writer_runs [OF assms(1,2), of h] assms(3) unfolding runs_body_def by (metis prod.collapse)

section \<open>Properties\<close>

text \<open>A connected stream socket on descriptor 7, registered with the poller.\<close>

definition a_socket :: FD where
  "a_socket = \<lparr>fd_fdmu = \<lparr>mu_state = 0, mu_rsema = 0, mu_wsema = 0\<rparr>, fd_Sysfd = 7, fd_runtimeCtx = 4096,
     fd_csema = 0, fd_isBlocking = 0, fd_IsStream = True, fd_ZeroReadIsEOF = True, fd_isFile = False\<rparr>"

definition an_epoll :: epoll where
  "an_epoll = \<lparr>np_pd = (\<lambda>_. open_desc 4096 7 zero_pd), np_first = 0,
     np_waiters = 0, np_inited = 1, np_ready = [], ep_fd = 3, ep_breakRd = 4, ep_breakWr = 5,
     ep_wakeSig = 0, ep_ctl = []\<rparr>"

definition a_world :: "event list \<Rightarrow> answer list \<Rightarrow> world" where
  "a_world evs io = \<lparr>w_fd = a_socket, w_ep = an_epoll, w_serverInit = True, w_dupUnsupported = False,
     w_gp = 8192, w_env = \<lparr>e_goos = ''linux'', e_plat = Amd64, e_kernel = a_kernel, e_pdSize = 240, e_mem = 65536, e_now = 100\<rparr>,
     w_evs = evs, w_io = io, w_log = []\<rparr>"

definition ans :: "int \<Rightarrow> err \<Rightarrow> answer" where
  "ans n e = \<lparr>a_n = n, a_oobn = 0, a_flags = 0, a_sa = None, a_err = e\<rparr>"

text \<open>Every method takes a lock or a reference first, and a closed mutex refuses all three kinds.\<close>

lemma readers_closed:
  assumes "v_closed (mview (fd_fdmu (w_fd w)))" and "e = errClosing (fd_isFile (w_fd w))"
  shows "fd_Read lp w = (w, Ret (0, Some e)) \<and> fd_Pread lp off w = (w, Ret (0, Some e))
    \<and> fd_ReadFrom lp w = (w, Ret (0, None, Some e)) \<and> fd_ReadFromInet4 lp w = (w, Ret (0, Some e))
    \<and> fd_ReadFromInet6 lp w = (w, Ret (0, Some e)) \<and> fd_ReadMsg lp loob flags w = (w, Ret (0, 0, 0, None, Some e))
    \<and> fd_ReadMsgInet4 lp loob flags w = (w, Ret (0, 0, 0, Some e))
    \<and> fd_ReadMsgInet6 lp loob flags w = (w, Ret (0, 0, 0, Some e)) \<and> fd_Accept w = (w, Ret (-1, None, '''', Some e))
    \<and> fd_RawRead w = (w, Ret (Some e))"
  by (simp add: rl.guarded_closed [OF assms(1)] assms(2) fd_Read_def fd_ReadFrom_def fd_ReadFromInet4_def fd_ReadFromInet6_def
      fd_ReadMsg_def fd_ReadMsgInet4_def fd_ReadMsgInet6_def recv_with_def fd_Accept_def fd_RawRead_def
      readLock_def fd_Pread_def fd_incref_def rf.guarded_closed [OF assms(1)])

lemma writers_closed:
  assumes "v_closed (mview (fd_fdmu (w_fd w)))" and "e = errClosing (fd_isFile (w_fd w))"
  shows "fd_Write p w = (w, Ret (0, Some e)) \<and> fd_Pwrite p off w = (w, Ret (0, Some e))
    \<and> fd_WriteOnce p w = (w, Ret (0, Some e)) \<and> fd_WriteTo p sa w = (w, Ret (0, Some e))
    \<and> fd_WriteToInet4 p sa w = (w, Ret (0, Some e)) \<and> fd_WriteToInet6 p sa w = (w, Ret (0, Some e))
    \<and> fd_WriteMsg p loob sa w = (w, Ret (0, 0, Some e)) \<and> fd_WriteMsgInet4 p loob sa w = (w, Ret (0, 0, Some e))
    \<and> fd_WriteMsgInet6 p loob sa w = (w, Ret (0, 0, Some e)) \<and> fd_Writev v w = (w, Ret (v, 0, Some e))
    \<and> fd_RawWrite w = (w, Ret (Some e))"
  by (simp add: wl.guarded_closed [OF assms(1)] assms(2) fd_Write_def fd_WriteOnce_def fd_WriteTo_def fd_WriteToInet4_def fd_WriteToInet6_def
      fd_WriteMsg_def fd_WriteMsgInet4_def fd_WriteMsgInet6_def send_with_def fd_Writev_def fd_RawWrite_def
      writeLock_def fd_Pwrite_def fd_incref_def rf.guarded_closed [OF assms(1)])

lemma close_closed:
  assumes "v_closed (mview (fd_fdmu (w_fd w)))" and "e = errClosing (fd_isFile (w_fd w))"
  shows "fd_Close w = (w, Ret (Some e))"
proof -
  have "set_fd (fd_fdmu_update (\<lambda>_. fd_fdmu (w_fd w))) w = w" by (simp add: set_fd_def)
  then show ?thesis
    using closed_refuses(3) [OF assms(1)] assms(2) by (simp add: fd_Close_def andThen_def with_mutex_def)
qed

lemma refs_closed:
  assumes "v_closed (mview (fd_fdmu (w_fd w)))" and "e = errClosing (fd_isFile (w_fd w))"
  shows "fd_Dup w = (w, Ret (-1, '''', Some e)) \<and> fd_Seek off whence w = (w, Ret (0, Some e))
    \<and> fd_ReadDirent lp w = (w, Ret (0, Some e)) \<and> fd_Shutdown how w = (w, Ret (Some e)) \<and> fd_Fchdir w = (w, Ret (Some e))
    \<and> fd_Fchmod perm w = (w, Ret (Some e)) \<and> fd_Fstat w = (w, Ret (Some e)) \<and> fd_Fchown uid gid w = (w, Ret (Some e))
    \<and> fd_Ftruncate off w = (w, Ret (Some e)) \<and> fd_Fsync w = (w, Ret (Some e)) \<and> fd_RawControl w = (w, Ret (Some e))
    \<and> setDeadlineImpl until mode w = (w, Ret (Some e)) \<and> fd_SetDeadline until w = (w, Ret (Some e))
    \<and> fd_SetReadDeadline until w = (w, Ret (Some e)) \<and> fd_SetWriteDeadline until w = (w, Ret (Some e))
    \<and> fd_SetBlocking w = (w, Ret (Some e)) \<and> fd_Close w = (w, Ret (Some e))"
  by (simp add: rf.guarded_closed [OF assms(1)] close_closed [OF assms] assms(2) fd_Dup_def fd_Seek_def fd_ReadDirent_def fd_Shutdown_def fd_Fchdir_def fd_Fchmod_def fd_Fstat_def
      fd_Fchown_def fd_Ftruncate_def fd_Fsync_def fd_RawControl_def ref_call_def fd_SetDeadline_def
      fd_SetReadDeadline_def fd_SetWriteDeadline_def setDeadlineImpl_def fd_SetBlocking_def fd_incref_def Let_def)


lemma a_world_free: "free_lock read (fd_fdmu (w_fd (a_world evs io)))"
  by (simp add: a_world_def a_socket_def free_lock_def usable_def view_def field_def v_lock_def v_wait_def)


section \<open>What the log of a method holds\<close>

lemma syscall_log: "syscall c w = (w', Ret a) \<Longrightarrow> w_log w' = w_log w @ [(c, a)]"
  by (auto simp: syscall_def split: list.splits)

lemma syscall_blocked: "syscall c w = (w', r) \<Longrightarrow> r = Blocked \<and> w' = w \<or> (\<exists>a. r = Ret a)"
  by (auto simp: syscall_def split: list.splits)

lemma prepare_keeps:
  "prepareRead w = (w', r) \<Longrightarrow> w_log w' = w_log w \<and> w_io w' = w_io w \<and> w_fd w' = w_fd w"
  "prepareWrite w = (w', r) \<Longrightarrow> w_log w' = w_log w \<and> w_io w' = w_io w \<and> w_fd w' = w_fd w"
  by (auto simp: prepareRead_def prepareWrite_def poll_prepare_def Let_def split: if_splits prod.splits)

lemma wait_fd:
  "waitRead w = (w', r) \<Longrightarrow> w_fd w' = w_fd w"
  "waitWrite w = (w', r) \<Longrightarrow> w_fd w' = w_fd w"
  "syscall c w = (w', x) \<Longrightarrow> w_fd w' = w_fd w"
  by (auto simp: waitRead_def waitWrite_def poll_wait_def syscall_def Let_def
      split: if_splits prod.splits outcome.splits list.splits)

text \<open>A call that is retried on \<open>EINTR\<close> leaves the interrupted attempts and the last one.\<close>

definition attempts :: "syscall \<Rightarrow> answer list \<Rightarrow> answer \<Rightarrow> (syscall \<times> answer) list" where
  "attempts c as a = map (Pair c) (as @ [a])"

lemma ignoringEINTRIO_log:
  assumes "ignoringEINTRIO c w = (w', Ret a)"
  obtains as where "w_log w' = w_log w @ attempts c as a" "\<forall>b\<in>set as. a_err b = eintr" "a_err a \<noteq> eintr"
    "w_fd w' = w_fd w"
proof -
  have "\<exists>as. w_log w' = w_log w @ attempts c as a \<and> (\<forall>b\<in>set as. a_err b = eintr) \<and> a_err a \<noteq> eintr \<and> w_fd w' = w_fd w"
    using assms
  proof (induction "todo w" arbitrary: w rule: less_induct)
    case less
    obtain w1 b where s: "syscall c w = (w1, Ret b)"
      using less.prems by (auto simp: ignoringEINTRIO.simps [of c w] split: prod.splits outcome.splits)
    note log = syscall_log [OF s] wait_fd(3) [OF s]
    show ?case
    proof (cases "a_err b = eintr")
      case True
      then have "ignoringEINTRIO c w1 = (w', Ret a)"
        using less.prems s by (simp add: ignoringEINTRIO.simps [of c w])
      from less.hyps [OF syscall_todo [OF s] this] obtain as where
        "w_log w' = w_log w1 @ attempts c as a" "\<forall>b\<in>set as. a_err b = eintr" "a_err a \<noteq> eintr" "w_fd w' = w_fd w1" by blast
      then show ?thesis using log True by (intro exI [of _ "b # as"]) (simp add: attempts_def)
    next
      case False
      then show ?thesis using less.prems s log
        by (intro exI [of _ "[]"]) (simp add: ignoringEINTRIO.simps [of c w] attempts_def)
    qed
  qed
  then show thesis using that by blast
qed

section \<open>Writing\<close>

text \<open>
  What \<^verbatim>\<open>write(2)\<close> promises: at most as many bytes as it was given, and none with an error
  (\<open>syscall.Write\<close> then gives -1). The bytes it took are the first ones.
\<close>

fun write_ok :: "syscall \<times> answer \<Rightarrow> bool" where
  "write_ok (SysWrite fd bs, a) \<longleftrightarrow>
     (if a_err a = None then 0 \<le> a_n a \<and> a_n a \<le> int (length bs) else a_n a = -1)"
| "write_ok _ \<longleftrightarrow> True"

fun sent :: "syscall \<times> answer \<Rightarrow> u8 list" where
  "sent (SysWrite fd bs, a) = take (nat (a_n a)) bs"
| "sent _ = []"

abbreviation all_sent :: "(syscall \<times> answer) list \<Rightarrow> u8 list" where
  "all_sent log \<equiv> concat (map sent log)"

lemma sent_attempts:
  assumes "list_all write_ok (attempts (SysWrite fd bs) as a)" and "\<forall>b\<in>set as. a_err b = eintr"
  shows "all_sent (attempts (SysWrite fd bs) as a) = take (nat (a_n a)) bs"
  using assms by (induction as) (simp_all add: attempts_def)

lemma slice_step:
  assumes "nn \<le> n" "n \<le> m" "m \<le> length p"
  shows "slice p nn n @ slice p n m = slice p nn m"
proof -
  have "take ((n - nn) + (m - n)) (drop nn p) = take (n - nn) (drop nn p) @ take (m - n) (drop (n - nn) (drop nn p))"
    by (rule take_add)
  then show ?thesis using assms by (simp add: slice_def)
qed

definition chunk_ok :: "bool \<Rightarrow> int \<Rightarrow> syscall \<times> answer \<Rightarrow> bool" where
  "chunk_ok stream fd ca \<longleftrightarrow> (\<exists>bs. fst ca = SysWrite fd bs \<and> (stream \<longrightarrow> int (length bs) \<le> maxRW))"

lemma write_max_bounds:
  assumes "0 \<le> nn" "nn \<le> int (length p)"
  shows "nn \<le> write_max p nn w" "write_max p nn w \<le> int (length p)"
    "fd_IsStream (w_fd w) \<Longrightarrow> write_max p nn w \<le> nn + maxRW"
  using assms by (auto simp: write_max_def Let_def maxRW_def)

text \<open>What \<open>Write\<close> has done when it has written \<open>n\<close> bytes from \<open>nn\<close> on and returns \<open>e\<close>.\<close>

definition wrote :: "u8 list \<Rightarrow> FD \<Rightarrow> int \<Rightarrow> int \<Rightarrow> err \<Rightarrow> (syscall \<times> answer) list \<Rightarrow> bool" where
  "wrote p fd nn n e log \<longleftrightarrow> nn \<le> n \<and> n \<le> int (length p) \<and> all_sent log = slice p (nat nn) (nat n)
     \<and> (e = None \<longrightarrow> n = int (length p)) \<and> list_all (chunk_ok (fd_IsStream fd) (fd_Sysfd fd)) log"

lemma wrote_more:
  assumes "wrote p fd n' n e log'" and "0 \<le> nn" "nn \<le> n'"
    and "all_sent log = slice p (nat nn) (nat n')" and "list_all (chunk_ok (fd_IsStream fd) (fd_Sysfd fd)) log"
  shows "wrote p fd nn n e (log @ log')"
  using assms slice_step [of "nat nn" "nat n'" "nat n" p] by (auto simp: wrote_def)

text \<open>One pass of the loop sends a chunk of \<open>p\<close> from \<open>nn\<close> on.\<close>

lemma write_pass:
  assumes "0 \<le> nn" "nn \<le> int (length p)"
    and "c = SysWrite (fd_Sysfd (w_fd w)) (slice p (nat nn) (nat (write_max p nn w)))"
    and "\<forall>b\<in>set as. a_err b = eintr" and "list_all write_ok (attempts c as a)"
    and "nn' = (if a_n a > 0 then nn + a_n a else nn)"
  shows "nn \<le> nn'" "nn' \<le> int (length p)"
    "all_sent (attempts c as a) = slice p (nat nn) (nat nn')"
    "list_all (chunk_ok (fd_IsStream (w_fd w)) (fd_Sysfd (w_fd w))) (attempts c as a)"
    "a_err a = None \<Longrightarrow> a_n a = 0 \<or> nn < nn'"
proof -
  let ?m = "write_max p nn w"
  note m = write_max_bounds [OF assms(1,2), of w]
  have ok: "write_ok (c, a)" using assms(5) by (simp add: attempts_def)
  have len: "int (length (slice p (nat nn) (nat ?m))) = ?m - nn"
    using m assms(1) by (simp add: slice_def)
  show le: "nn \<le> nn'" using assms(6) by simp
  have n: "a_n a \<le> ?m - nn" using ok len m assms(3) by (auto split: if_splits)
  then show "nn' \<le> int (length p)" using assms(2,6) m by (auto split: if_splits)
  have "all_sent (attempts c as a) = take (nat (a_n a)) (slice p (nat nn) (nat ?m))"
    using sent_attempts assms(3-5) by blast
  also have "\<dots> = slice p (nat nn) (nat nn')"
    using n assms(1,6) by (auto simp: slice_def min_def nat_add_distrib)
  finally show "all_sent (attempts c as a) = slice p (nat nn) (nat nn')" .
  have "fd_IsStream (w_fd w) \<Longrightarrow> ?m - nn \<le> maxRW" using m by simp
  then show "list_all (chunk_ok (fd_IsStream (w_fd w)) (fd_Sysfd (w_fd w))) (attempts c as a)"
    using len assms(3) by (auto simp: attempts_def chunk_ok_def list_all_iff)
  show "a_err a = None \<Longrightarrow> a_n a = 0 \<or> nn < nn'" using ok assms(3,6) by (auto split: if_splits)
qed

lemma write_loop_log:
  assumes "write_loop p nn w = (w', Ret (n, e))"
  shows "\<exists>log. w_log w' = w_log w @ log
    \<and> (list_all write_ok log \<longrightarrow> 0 \<le> nn \<longrightarrow> nn \<le> int (length p) \<longrightarrow> wrote p (w_fd w) nn n e log)"
  using assms
proof (induction "todo w" arbitrary: w nn rule: less_induct)
  case less
  define c where "c = SysWrite (fd_Sysfd (w_fd w)) (slice p (nat nn) (nat (write_max p nn w)))"
  note loop = write_loop.simps [of p nn w, unfolded Let_def, folded c_def]
  obtain w1 a where s: "ignoringEINTRIO c w = (w1, Ret a)"
    using less.prems by (auto simp: loop split: prod.splits outcome.splits if_splits)
  obtain as where as: "w_log w1 = w_log w @ attempts c as a" "\<forall>b\<in>set as. a_err b = eintr" "a_err a \<noteq> eintr"
    "w_fd w1 = w_fd w" using ignoringEINTRIO_log [OF s] by blast
  obtain w2 r where wt: "waitWrite w1 = (w2, r)" by force
  note w2 = waitWrite_keeps [OF wt] wait_fd(2) [OF wt]
  note t1 = ignoringEINTRIO_todo [OF s]
  define nn' where "nn' = (if a_n a > 0 then nn + a_n a else nn)"
  note pass = write_pass [OF _ _ c_def as(2) _ nn'_def]
  have "write_loop p nn w = (if nn > write_max p nn w then (w, Panic ''slice bounds out of range'')
      else if nn' = int (length p) then (w1, Ret (nn', a_err a))
      else if a_err a = eagain \<and> pollable w1 then
        (case r of Ret None \<Rightarrow> write_loop p nn' w2 | Ret (Some e) \<Rightarrow> (w2, Ret (nn', Some e)) | Panic s \<Rightarrow> (w2, Panic s) | Blocked \<Rightarrow> (w2, Blocked))
      else if a_err a \<noteq> None then (w1, Ret (nn', a_err a))
      else if a_n a = 0 then (w1, Ret (nn', Some ErrUnexpectedEOF))
      else write_loop p nn' w1)"
    unfolding loop s nn'_def by (simp add: wt)
  note run = this [unfolded less.prems]
  consider (stop) "w_log w' = w_log w1" "n = nn'" "e = None \<longrightarrow> nn' = int (length p)"
    | (go) w3 where "w_log w3 = w_log w1" "w_fd w3 = w_fd w" "todo w3 < todo w" "write_loop p nn' w3 = (w', Ret (n, e))"
    using run [symmetric] w2 as(4) t1 by (auto split: if_splits outcome.splits option.splits) metis+
  then show ?case
  proof cases
    case stop
    then show ?thesis using pass as(1)
      by (intro exI [of _ "attempts c as a"]) (simp add: wrote_def)
  next
    case go
    from less.hyps [OF go(3,4)] obtain log where log: "w_log w' = w_log w3 @ log"
      "list_all write_ok log \<longrightarrow> 0 \<le> nn' \<longrightarrow> nn' \<le> int (length p) \<longrightarrow> wrote p (w_fd w) nn' n e log"
      unfolding go(2) by blast
    have "wrote p (w_fd w) nn n e (attempts c as a @ log)"
      if "list_all write_ok (attempts c as a @ log)" "0 \<le> nn" "nn \<le> int (length p)"
    proof (rule wrote_more)
      have ok: "list_all write_ok (attempts c as a)" "list_all write_ok log" using that(1) by simp_all
      note pass' = pass [OF that(2,3) ok(1)]
      show "wrote p (w_fd w) nn' n e log" using log(2) ok(2) pass'(1,2) that(2) by simp
      show "0 \<le> nn" by fact
      show "nn \<le> nn'" "all_sent (attempts c as a) = slice p (nat nn) (nat nn')"
        "list_all (chunk_ok (fd_IsStream (w_fd w)) (fd_Sysfd (w_fd w))) (attempts c as a)"
        using pass'(1,3,4) .
    qed
    then show ?thesis using log(1) go(1) as(1) by (intro exI [of _ "attempts c as a @ log"]) simp
  qed
qed

lemma orReturn_Ret:
  "orReturn m h rest w = (w', Ret x) \<longleftrightarrow> (\<exists>w1 e. m w = (w1, Ret e)
     \<and> (case e of Some y \<Rightarrow> w' = w1 \<and> x = h y | None \<Rightarrow> rest w1 = (w', Ret x)))"
  unfolding orReturn_def andThen_Ret by (auto simp: ret_def split: option.split)

text \<open>
  C24. \<open>Write\<close> on a free write lock, over a kernel that takes at most what it is given: the bytes the
  kernel took are, in order and without gap or repetition, the first \<open>n\<close> bytes of \<open>p\<close>,
  where \<open>n\<close> is the count returned; \<open>n\<close> is the length of \<open>p\<close> when no error is returned;
  every call is a \<open>write\<close> on the descriptor, of at most 1 GB on a stream.
\<close>

theorem fd_write_prefix:
  assumes "free_lock False (fd_fdmu (w_fd w))" and "fd_Write p w = (w', Ret (n, e))"
    and "w_log w' = w_log w @ log" and "list_all write_ok log"
  shows "0 \<le> n \<and> n \<le> int (length p) \<and> all_sent log = take (nat n) p
    \<and> (e = None \<longrightarrow> n = int (length p))
    \<and> list_all (chunk_ok (fd_IsStream (w_fd w)) (fd_Sysfd (w_fd w))) log"
proof -
  let ?body = "orReturn prepareWrite (\<lambda>e. (0, Some e)) (write_loop p 0)"
  have "runs_body ?body w w' (Ret (n, e))"
    by (rule writer_runs [OF assms(1) keeps_write_body assms(2) [unfolded fd_Write_def]]) simp
  then obtain mu w1 where b: "?body (set_fd (fd_fdmu_update (\<lambda>_. mu)) w) = (w1, Ret (n, e))" and l: "w_log w' = w_log w1"
    unfolding runs_body_def by blast
  then obtain w2 x where p: "prepareWrite (set_fd (fd_fdmu_update (\<lambda>_. mu)) w) = (w2, Ret x)"
    and r: "case x of Some y \<Rightarrow> w1 = w2 \<and> (n, e) = (0, Some y) | None \<Rightarrow> write_loop p 0 w2 = (w1, Ret (n, e))"
    unfolding orReturn_Ret by blast
  have w2: "w_log w2 = w_log w" "fd_IsStream (w_fd w2) = fd_IsStream (w_fd w)" "fd_Sysfd (w_fd w2) = fd_Sysfd (w_fd w)"
    using prepare_keeps(2) [OF p] by (simp_all add: set_fd_def)
  show ?thesis
  proof (cases x)
    case None
    then have "write_loop p 0 w2 = (w1, Ret (n, e))" using r by simp
    from write_loop_log [OF this] show ?thesis using l w2 assms(3,4) by (auto simp: wrote_def slice_def)
  next
    case (Some y)
    then show ?thesis using r w2 l assms(3) by simp
  qed
qed

definition a_partial_write :: world where
  "a_partial_write = a_world [] [ans (-1) eintr, ans 2 None, ans 3 None]"

theorem fd_write_prefix_witness:
  "all_sent [(SysWrite 7 [1,2,3,4,5], ans (-1) eintr), (SysWrite 7 [1,2,3,4,5], ans 2 None), (SysWrite 7 [3,4,5], ans 3 None)]
     = [1,2,3,4,5]"
proof -
  have free: "free_lock False (fd_fdmu (w_fd a_partial_write))"
    unfolding a_partial_write_def by (rule a_world_free)
  have run: "snd (fd_Write [1,2,3,4,5] a_partial_write) = Ret (5, None)"
    "w_log (fst (fd_Write [1,2,3,4,5] a_partial_write)) = w_log a_partial_write @
      [(SysWrite 7 [1,2,3,4,5], ans (-1) eintr), (SysWrite 7 [1,2,3,4,5], ans 2 None), (SysWrite 7 [3,4,5], ans 3 None)]"
    by code_simp+
  have ok: "list_all write_ok [(SysWrite 7 [1,2,3,4,5], ans (-1) eintr), (SysWrite 7 [1,2,3,4,5], ans 2 None), (SysWrite 7 [3,4,5], ans 3 None)]"
    by code_simp
  have "fd_Write [1,2,3,4,5] a_partial_write = (fst (fd_Write [1,2,3,4,5] a_partial_write), Ret (5, None))"
    using run(1) by (metis prod.collapse)
  from fd_write_prefix [OF free this run(2) ok] show ?thesis by simp
qed

end
