(* ===== verification/FdIO.thy ===== *)
theory FdIO
  imports FdProps
begin

text \<open>
  What \<open>Read\<close>, \<open>Accept\<close>, \<open>Writev\<close>, \<open>Close\<close> and the deadlines of \<open>FD\<close> guarantee, stated over the log
  of the system calls that a method made and the answers it got.
\<close>

section \<open>Reading\<close>

lemma convertErr_not_sys: "convertErr res f = Ret (Some e) \<Longrightarrow> e \<noteq> Sys k"
  by (auto simp: convertErr_def errClosing_def split: if_splits)

lemma wait_not_sys:
  "waitRead w = (w', Ret (Some e)) \<Longrightarrow> e \<noteq> Sys k"
  "waitWrite w = (w', Ret (Some e)) \<Longrightarrow> e \<noteq> Sys k"
  "prepareRead w = (w', Ret (Some e)) \<Longrightarrow> e \<noteq> Sys k"
  "prepareWrite w = (w', Ret (Some e)) \<Longrightarrow> e \<noteq> Sys k"
  by (auto simp: waitRead_def waitWrite_def poll_wait_def prepareRead_def prepareWrite_def poll_prepare_def Let_def
      split: if_splits prod.splits outcome.splits dest!: convertErr_not_sys)

text \<open>
  The attempts of a reading loop before the one it returns: each was interrupted, or found nothing
  to read, and then the poller was asked and waited without an error. \<open>reads_again c w as w'\<close>: from
  \<open>w\<close> the call \<open>c\<close> was answered with \<open>as\<close> in this way, and is about to be made again in \<open>w'\<close>.
\<close>

inductive reads_again :: "syscall \<Rightarrow> world \<Rightarrow> answer list \<Rightarrow> world \<Rightarrow> bool" for c where
  first: "reads_again c w [] w"
| interrupted: "syscall c w = (w1, Ret a) \<Longrightarrow> a_err a = eintr \<Longrightarrow> reads_again c w1 as w' \<Longrightarrow>
    reads_again c w (a # as) w'"
| waited: "syscall c w = (w1, Ret a) \<Longrightarrow> a_err a = eagain \<Longrightarrow> pollable w1 \<Longrightarrow> waitRead w1 = (w2, Ret None) \<Longrightarrow>
    reads_again c w2 as w' \<Longrightarrow> reads_again c w (a # as) w'"

lemma reads_again_trans: "reads_again c w as w1 \<Longrightarrow> reads_again c w1 bs w2 \<Longrightarrow> reads_again c w (as @ bs) w2"
  by (induction rule: reads_again.induct) (auto intro: reads_again.intros)

lemma reads_again_log:
  "reads_again c w as w' \<Longrightarrow> w_log w' = w_log w @ map (Pair c) as \<and> w_fd w' = w_fd w
     \<and> (\<forall>a\<in>set as. a_err a = eintr \<or> a_err a = eagain \<and> pollable w)"
proof (induction rule: reads_again.induct)
  case (interrupted w w1 a as w')
  then show ?case using syscall_log [OF interrupted.hyps(1)] wait_fd(3) [OF interrupted.hyps(1)]
    by (auto simp: pollable_def)
next
  case (waited w w1 a w2 as w')
  then show ?case
    using syscall_log [OF waited.hyps(1)] wait_fd(3) [OF waited.hyps(1)] wait_fd(1) [OF waited.hyps(4)]
      waitRead_keeps [OF waited.hyps(4)] by (auto simp: pollable_def)
qed simp

text \<open>The last call of the loop: where it was made, what it answered, and what becomes of the answer.\<close>

definition read_result :: "world \<Rightarrow> answer \<Rightarrow> world \<Rightarrow> answer \<Rightarrow> bool" where
  "read_result w2 b w' a \<longleftrightarrow> a_err b \<noteq> eintr \<and>
     (if a_err b = None then w' = w2 \<and> a = b
      else if a_err b = eagain \<and> pollable w2
      then \<exists>x. waitRead w2 = (w', Ret (Some x)) \<and> a = b\<lparr>a_n := 0, a_err := Some x\<rparr>
      else w' = w2 \<and> a = b\<lparr>a_n := 0\<rparr>)"

lemma ignoringEINTRIO_again:
  assumes "ignoringEINTRIO c w = (w', Ret a)"
  shows "\<exists>as w1. reads_again c w as w1 \<and> syscall c w1 = (w', Ret a) \<and> a_err a \<noteq> eintr"
  using assms
proof (induction "todo w" arbitrary: w rule: less_induct)
  case less
  obtain w1 b where s: "syscall c w = (w1, Ret b)"
    using less.prems by (auto simp: ignoringEINTRIO.simps [of c w] split: prod.splits outcome.splits)
  show ?case
  proof (cases "a_err b = eintr")
    case True
    then have "ignoringEINTRIO c w1 = (w', Ret a)"
      using less.prems s by (simp add: ignoringEINTRIO.simps [of c w])
    from less.hyps [OF syscall_todo [OF s] this] show ?thesis
      using reads_again.interrupted [OF s True] by blast
  next
    case False
    then show ?thesis using less.prems s reads_again.first
      by (auto simp: ignoringEINTRIO.simps [of c w] intro: exI [of _ "[]"])
  qed
qed

lemma read_loop_runs:
  assumes "read_loop c w = (w', Ret a)"
  shows "\<exists>as w1 w2 b. reads_again c w as w1 \<and> syscall c w1 = (w2, Ret b) \<and> read_result w2 b w' a"
  using assms
proof (induction "todo w" arbitrary: w rule: less_induct)
  case less
  obtain w2 x where io: "ignoringEINTRIO c w = (w2, x)" by force
  then obtain b where s: "ignoringEINTRIO c w = (w2, Ret b)"
    using less.prems by (cases x) (simp_all add: read_loop.simps [of c w])
  obtain as w1 where again: "reads_again c w as w1" "syscall c w1 = (w2, Ret b)" "a_err b \<noteq> eintr"
    using ignoringEINTRIO_again [OF s] by blast
  obtain w3 r where wt: "waitRead w2 = (w3, r)" by force
  have run: "read_loop c w = (if a_err b = None then (w2, Ret b)
      else if a_err b = eagain \<and> pollable w2 then
        (case r of Ret None \<Rightarrow> read_loop c w3 | Ret (Some e) \<Rightarrow> (w3, Ret (b\<lparr>a_n := 0, a_err := Some e\<rparr>))
         | Panic s \<Rightarrow> (w3, Panic s) | Blocked \<Rightarrow> (w3, Blocked))
      else (w2, Ret (b\<lparr>a_n := 0\<rparr>)))"
    unfolding read_loop.simps [of c w] s Let_def by (simp add: wt)
  show ?case
  proof (cases "a_err b = eagain \<and> pollable w2 \<and> r = Ret None")
    case True
    then have "read_loop c w3 = (w', Ret a)" using run less.prems by simp
    moreover have "todo w3 < todo w" using ignoringEINTRIO_todo [OF s] wait_todo'(1) [OF wt [symmetric]] by simp
    ultimately obtain bs w4 w5 b' where "reads_again c w3 bs w4" "syscall c w4 = (w5, Ret b')" "read_result w5 b' w' a"
      using less.hyps by blast
    moreover have "reads_again c w1 (b # bs) w4"
      using reads_again.waited [OF again(2)] True wt \<open>reads_again c w3 bs w4\<close> by blast
    ultimately show ?thesis using reads_again_trans [OF again(1)] by blast
  next
    case False
    then have "read_result w2 b w' a" using run less.prems again(3) wt
      by (auto simp: read_result_def split: if_splits outcome.splits option.splits)
    then show ?thesis using again by blast
  qed
qed

text \<open>A reading method on a free lock, with the state in which its body starts.\<close>

lemma reader_starts:
  assumes "free_lock True (fd_fdmu (w_fd w))" and "keeps_fd body"
    and "orReturn readLock h (deferring body readUnlock) w = (w', r)" and "r \<noteq> Blocked"
  obtains w0 w1 where "readLock w = (w0, Ret None)" "w_log w0 = w_log w" "\<exists>mu. w0 = set_fd (fd_fdmu_update (\<lambda>_. mu)) w"
    and "body w0 = (w1, r)" "w_log w' = w_log w1"
proof -
  obtain mu' where acq: "rwlock True (fd_fdmu (w_fd w)) = (mu', Ret True)"
    using rl.acquire_free [OF assms(1)] by blast
  let ?w0 = "set_fd (fd_fdmu_update (\<lambda>_. mu')) w"
  obtain w1 r1 where b: "body ?w0 = (w1, r1)" by force
  have "r1 \<noteq> Blocked" using blocked_body [OF assms(1) acq, of body w1 h] assms(3,4) b by auto
  then obtain mu'' where "orReturn readLock h (deferring body readUnlock) w = (set_fd (fd_fdmu_update (\<lambda>_. mu'')) w1, r1)"
    unfolding readLock_def readUnlock_def by (rule rl.guarded_runs [OF assms(1,2) acq b])
  then have "r1 = r" "w_log w' = w_log w1" using assms(3) by (auto simp: set_fd_def)
  moreover have "readLock w = (?w0, Ret None)"
    using acq by (simp add: readLock_def andThen_def with_mutex_def closing_unless_def ret_def)
  ultimately show thesis using that [of ?w0 w1] b by (auto simp: set_fd_def)
qed

text \<open>The length \<open>Read\<close> asks for: at most 1 GB on a stream.\<close>

definition read_len :: "FD \<Rightarrow> nat \<Rightarrow> nat" where
  "read_len fd lp = (if fd_IsStream fd \<and> int lp > maxRW then nat maxRW else lp)"

text \<open>
  What the loop of \<open>Read\<close> has done when \<open>Read\<close> returns \<open>(n, e)\<close>, started in \<open>w1\<close> on the descriptor of \<open>w\<close>.
\<close>

definition read_ran :: "syscall \<Rightarrow> world \<Rightarrow> world \<Rightarrow> (syscall \<times> answer) list \<Rightarrow> int \<Rightarrow> err \<Rightarrow> bool" where
  "read_ran c w w1 log n e \<longleftrightarrow> (\<exists>as a w2 w3. reads_again c w1 as w2 \<and> syscall c w2 = (w3, Ret a)
     \<and> log = map (Pair c) (as @ [a])
     \<and> (\<forall>b\<in>set as. a_err b = eintr \<or> a_err b = eagain \<and> pollable w) \<and> a_err a \<noteq> eintr
     \<and> (if a_err a = None then n = a_n a \<and> e = eofError n None w
        else if a_err a = eagain \<and> pollable w
        then n = 0 \<and> (\<exists>w4 x. waitRead w3 = (w4, Ret (Some x)) \<and> e = Some x)
        else n = 0 \<and> e = a_err a))"

lemma read_loop_ran:
  assumes loop: "read_loop c w1 = (wb, Ret a)" and "w_log w1 = w_log w"
    and "\<And>i y. eofError i y w1 = eofError i y w" "pollable w1 = pollable w"
  obtains log where "w_log wb = w_log w @ log" "read_ran c w w1 log (a_n a) (eofError (a_n a) (a_err a) wb)"
    and "eofError (a_n a) (a_err a) wb \<noteq> eintr" "eofError (a_n a) (a_err a) wb = eagain \<Longrightarrow> \<not> pollable w"
proof -
  obtain as w2 w3 b where run: "reads_again c w1 as w2" "syscall c w2 = (w3, Ret b)" "read_result w3 b wb a"
    using read_loop_runs [OF loop] by blast
  note la = reads_again_log [OF run(1)] and sl = syscall_log [OF run(2)] wait_fd(3) [OF run(2)]
  have pl: "pollable w3 = pollable w" using assms(4) la sl by (simp add: pollable_def)
  have keep: "w_fd wb = w_fd w3 \<and> w_log wb = w_log w3"
    using run(3) wait_fd(1) [of w3 wb] waitRead_keeps [of w3 wb] by (auto simp: read_result_def split: if_splits)
  then have eof: "eofError i y wb = eofError i y w" for i y
    using assms(3) la sl unfolding eofError_def by simp
  have out: "a_err b \<noteq> eintr" "if a_err b = None then a_n a = a_n b \<and> eofError (a_n a) (a_err a) w = eofError (a_n a) None w
      else if a_err b = eagain \<and> pollable w
      then a_n a = 0 \<and> (\<exists>w4 x. waitRead w3 = (w4, Ret (Some x)) \<and> eofError (a_n a) (a_err a) w = Some x)
      else a_n a = 0 \<and> eofError (a_n a) (a_err a) w = a_err b"
    using run(3) unfolding read_result_def pl by (auto simp: eofError_def split: if_splits)
  have lg: "w_log wb = w_log w @ map (Pair c) (as @ [b])" using keep la sl assms(2) by simp
  have retry: "\<forall>b\<in>set as. a_err b = eintr \<or> a_err b = eagain \<and> pollable w" using la assms(4) by simp
  have ran: "read_ran c w w1 (map (Pair c) (as @ [b])) (a_n a) (eofError (a_n a) (a_err a) wb)"
    unfolding read_ran_def eof
    by (intro exI [of _ as] exI [of _ b] exI [of _ w2] exI [of _ w3] conjI run(1,2) refl retry out)
  have e: "eofError (a_n a) (a_err a) wb \<noteq> eintr" "eofError (a_n a) (a_err a) wb = eagain \<Longrightarrow> \<not> pollable w"
    using run(3) wait_not_sys(1) [of w3] unfolding eof read_result_def pl
    by (auto simp: eofError_def split: if_splits)
  show thesis by (rule that [OF lg ran e])
qed

text \<open>
  C25. What \<open>Read\<close> on a free read lock does, call by call. A buffer of length 0 reads nothing and
  gives no error; an error of \<open>prepareRead\<close> is returned and no call is made. Otherwise the log
  of the method is a list of \<open>read\<close> calls on the descriptor, each of the length asked for (cut to
  1 GB on a stream): all but the last were interrupted, or said \<open>EAGAIN\<close> on a pollable descriptor
  and were followed by a wait of the poller that ended without an error; the last is the first
  one with any other answer, or one after which the wait failed. Its count is returned when it
  has no error, as \<open>EOF\<close> when the count is 0 and the descriptor says so; its error is returned, with
  count 0, when it has one, except that after \<open>EAGAIN\<close> on a pollable descriptor the error is that
  of the wait. So \<open>EINTR\<close> is never returned, and \<open>EAGAIN\<close> only without a poller.
\<close>

theorem fd_read_delivers:
  assumes "free_lock True (fd_fdmu (w_fd w))" and "fd_Read lp w = (w', Ret (n, e))"
    and "w_log w' = w_log w @ log" and "c = SysRead (fd_Sysfd (w_fd w)) (read_len (w_fd w) lp)"
  shows "e \<noteq> eintr \<and> (e = eagain \<longrightarrow> \<not> pollable w) \<and> (\<exists>w0. readLock w = (w0, Ret None) \<and>
     (if lp = 0 then log = [] \<and> n = 0 \<and> e = None
      else \<exists>w1 x. prepareRead w0 = (w1, Ret x) \<and>
        (if x \<noteq> None then log = [] \<and> n = 0 \<and> e = x else read_ran c w w1 log n e)))"
proof -
  obtain w0 wb where lock: "readLock w = (w0, Ret None)" "w_log w0 = w_log w" "\<exists>mu. w0 = set_fd (fd_fdmu_update (\<lambda>_. mu)) w"
    and b: "read_body lp w0 = (wb, Ret (n, e))" and l: "w_log w' = w_log wb"
    by (rule reader_starts [OF assms(1) keeps_read_body assms(2) [unfolded fd_Read_body]]) auto
  have fd0: "fd_Sysfd (w_fd w0) = fd_Sysfd (w_fd w)" "read_len (w_fd w0) lp = read_len (w_fd w) lp"
    "pollable w0 = pollable w" "eofError i y w0 = eofError i y w" for i y
    using lock(3) by (auto simp: set_fd_def read_len_def pollable_def eofError_def)
  show ?thesis
  proof (cases "lp = 0")
    case True
    then show ?thesis using b l lock(1,2) assms(3) by (auto simp: read_body_def ret_def)
  next
    case False
    define body where "body = (\<lambda>w. andThen (read_loop (SysRead (fd_Sysfd (w_fd w)) (read_len (w_fd w) lp)))
               (\<lambda>a w. (w, Ret (a_n a, eofError (a_n a) (a_err a) w))) w)"
    have "orReturn prepareRead (\<lambda>e. (0, Some e)) body w0 = (wb, Ret (n, e))"
      using b False by (simp add: read_body_def body_def read_len_def Let_def)
    then obtain w1 x where p: "prepareRead w0 = (w1, Ret x)"
      and r: "case x of Some y \<Rightarrow> wb = w1 \<and> (n, e) = (0, Some y) | None \<Rightarrow> body w1 = (wb, Ret (n, e))"
      unfolding orReturn_Ret by blast
    note w1 = prepare_keeps(1) [OF p]
    show ?thesis
    proof (cases x)
      case (Some y)
      then have "y \<noteq> Sys k" for k using p wait_not_sys(3) by blast
      then show ?thesis using Some r w1 p l lock(1,2) assms(3) False by simp
    next
      case None
      then obtain a where a: "read_loop c w1 = (wb, Ret a)" "n = a_n a" "e = eofError (a_n a) (a_err a) wb"
        using r w1 fd0 unfolding body_def by (auto simp: andThen_Ret assms(4))
      have "w_log w1 = w_log w" "eofError i y w1 = eofError i y w" "pollable w1 = pollable w" for i y
        using w1 lock(2) fd0(3,4) by (simp_all add: eofError_def pollable_def)
      then obtain log' where "w_log wb = w_log w @ log'" "read_ran c w w1 log' n e" "e \<noteq> eintr" "e = eagain \<Longrightarrow> \<not> pollable w"
        using read_loop_ran [OF a(1), of w] unfolding a(2,3) by metis
      then show ?thesis using lock(1) p None False l assms(3) by auto
    qed
  qed
qed

theorem fd_read_delivers_witness:
  "snd (fd_Read 10 (a_world [] [ans (-1) eintr, ans 0 None])) = Ret (0, Some EOF)
   \<and> (\<exists>w0 w1. readLock (a_world [] [ans (-1) eintr, ans 0 None]) = (w0, Ret None) \<and> prepareRead w0 = (w1, Ret None)
        \<and> read_ran (SysRead 7 10) (a_world [] [ans (-1) eintr, ans 0 None]) w1
             [(SysRead 7 10, ans (-1) eintr), (SysRead 7 10, ans 0 None)] 0 (Some EOF))"
proof -
  let ?w = "a_world [] [ans (-1) eintr, ans 0 None]"
  let ?log = "[(SysRead 7 10, ans (-1) eintr), (SysRead 7 10, ans 0 None)]"
  have run: "snd (fd_Read 10 ?w) = Ret (0, Some EOF)" "w_log (fst (fd_Read 10 ?w)) = w_log ?w @ ?log"
    "SysRead 7 10 = SysRead (fd_Sysfd (w_fd ?w)) (read_len (w_fd ?w) 10)" by code_simp+
  have "fd_Read 10 ?w = (fst (fd_Read 10 ?w), Ret (0, Some EOF))" using run(1) by (metis prod.collapse)
  from fd_read_delivers [OF a_world_free this run(2,3)] run(1) show ?thesis by (auto split: if_splits)
qed

section \<open>Accepting\<close>

text \<open>The connections that the kernel opened and that were closed again.\<close>

fun opened :: "syscall \<times> answer \<Rightarrow> int list" where
  "opened (SysAccept4 s, a) = (if a_err a = None then [a_n a] else [])"
| "opened (SysAccept s, a) = (if a_err a = None then [a_n a] else [])"
| "opened _ = []"

fun closed_again :: "syscall \<times> answer \<Rightarrow> int list" where
  "closed_again (SysClose s, a) = [s]"
| "closed_again _ = []"

definition balance :: "(syscall \<times> answer) list \<Rightarrow> int list \<Rightarrow> bool" where
  "balance log kept \<longleftrightarrow> concat (map opened log) = concat (map closed_again log) @ kept"

lemma balance_append: "balance log [] \<Longrightarrow> balance log' kept \<Longrightarrow> balance (log @ log') kept"
  by (simp add: balance_def)

lemma accept_old_log:
  assumes "accept_old s w = (w', Ret (ns, sa, call, e))"
  shows "\<exists>log. w_log w' = w_log w @ log \<and> balance log (if e = None then [ns] else []) \<and> (e \<noteq> None \<longrightarrow> ns = -1)"
proof -
  obtain w1 a where s1: "syscall (SysAccept s) w = (w1, Ret a)"
    and r1: "(if a_err a \<noteq> None then ret (-1, None, ''accept'', a_err a)
       else andThen (syscall (SysCloseOnExec (a_n a))) (\<lambda>_.
         andThen (syscall (SysSetNonblock (a_n a) True)) (\<lambda>b.
           if a_err b \<noteq> None
           then andThen (syscall (SysClose (a_n a))) (\<lambda>_. ret (-1, None, ''setnonblock'', a_err b))
           else ret (a_n a, a_sa a, '''', None)))) w1 = (w', Ret (ns, sa, call, e))"
    using assms unfolding accept_old_def andThen_Ret by blast
  show ?thesis
  proof (cases "a_err a")
    case None
    then obtain w2 c w3 b where s2: "syscall (SysCloseOnExec (a_n a)) w1 = (w2, Ret c)"
      and s3: "syscall (SysSetNonblock (a_n a) True) w2 = (w3, Ret b)"
      and r3: "(if a_err b \<noteq> None then andThen (syscall (SysClose (a_n a))) (\<lambda>_. ret (-1, None, ''setnonblock'', a_err b))
           else ret (a_n a, a_sa a, '''', None)) w3 = (w', Ret (ns, sa, call, e))"
      using r1 by (auto simp: andThen_Ret)
    note logs = syscall_log [OF s1] syscall_log [OF s2] syscall_log [OF s3]
    show ?thesis
    proof (cases "a_err b")
      case None
      then show ?thesis using r3 logs \<open>a_err a = None\<close> by (simp add: ret_def balance_def)
    next
      case (Some x)
      then show ?thesis using r3 logs \<open>a_err a = None\<close> by (auto simp: andThen_Ret ret_def balance_def dest!: syscall_log)
    qed
  next
    case (Some x)
    then show ?thesis using r1 syscall_log [OF s1] by (auto simp: ret_def balance_def)
  qed
qed

lemma accept_log:
  assumes "accept s w = (w', Ret (ns, sa, call, e))"
  obtains log where "w_log w' = w_log w @ log" "balance log (if e = None then [ns] else [])"
    "e \<noteq> None \<longrightarrow> ns = -1"
proof -
  obtain w1 a where s1: "syscall (SysAccept4 s) w = (w1, Ret a)"
    and r1: "(if a_err a = None then ret (a_n a, a_sa a, '''', None)
       else if a_err a \<in> {Some (Sys ENOSYS), Some (Sys EINVAL), Some (Sys EACCES), Some (Sys EFAULT)}
         then accept_old s
       else ret (-1, a_sa a, ''accept4'', a_err a)) w1 = (w', Ret (ns, sa, call, e))"
    using assms unfolding accept_def andThen_Ret by blast
  note log = syscall_log [OF s1]
  consider (ok) "a_err a = None" | (old) "a_err a \<noteq> None" "accept_old s w1 = (w', Ret (ns, sa, call, e))"
    | (err) "a_err a \<noteq> None" "ret (-1, a_sa a, ''accept4'', a_err a) w1 = (w', Ret (ns, sa, call, e))"
    using r1 by (auto simp del: not_None_eq split: if_splits)
  then show thesis
  proof cases
    case ok
    then show ?thesis using that [of "[(SysAccept4 s, a)]"] r1 log by (simp add: ret_def balance_def)
  next
    case old
    from accept_old_log [OF old(2)] obtain log' where "w_log w' = w_log w1 @ log'"
      "balance log' (if e = None then [ns] else [])" "e \<noteq> None \<longrightarrow> ns = -1" by blast
    then show ?thesis using that [of "(SysAccept4 s, a) # log'"] log old(1) by (simp add: balance_def)
  next
    case err
    then show ?thesis using that [of "[(SysAccept4 s, a)]"] log by (auto simp: ret_def balance_def)
  qed
qed

lemma accept_loop_log:
  assumes "accept_loop w = (w', Ret (s, sa, call, e))"
  shows "\<exists>log. w_log w' = w_log w @ log \<and> balance log (if e = None then [s] else [])
     \<and> (e \<noteq> None \<longrightarrow> s = -1 \<and> sa = None) \<and> e \<notin> {eintr, Some (Sys ECONNABORTED)} \<and> (e = eagain \<longrightarrow> \<not> pollable w)"
  using assms
proof (induction "todo w" arbitrary: w rule: less_induct)
  case less
  let ?res = "\<lambda>log. balance log (if e = None then [s] else [])
     \<and> (e \<noteq> None \<longrightarrow> s = -1 \<and> sa = None) \<and> e \<notin> {eintr, Some (Sys ECONNABORTED)}"
  obtain w1 x where ac: "accept (fd_Sysfd (w_fd w)) w = (w1, x)" by force
  then obtain y where "x = Ret y"
    using less.prems by (cases x) (simp_all add: accept_loop.simps [of w])
  then obtain ns sa' call' e' where s: "accept (fd_Sysfd (w_fd w)) w = (w1, Ret (ns, sa', call', e'))"
    using ac by (metis prod_cases4)
  obtain log where log: "w_log w1 = w_log w @ log" "balance log (if e' = None then [ns] else [])"
    "e' \<noteq> None \<longrightarrow> ns = -1" using accept_log [OF s] by blast
  have fd: "w_fd w1 = w_fd w" using keepsD [OF keeps_accept [OF stable_fd] s] by simp
  obtain w2 r where wt: "waitRead w1 = (w2, r)" by force
  note w2 = waitRead_keeps [OF wt] wait_fd(1) [OF wt] fd
  have pl: "pollable w1 = pollable w" "pollable w2 = pollable w" using w2 by (simp_all add: pollable_def)
  note t = accept_todo [OF s]
  have "accept_loop w = (if e' = None then (w1, Ret (ns, sa', '''', None))
      else if e' = eintr \<or> e' = Some (Sys ECONNABORTED) then accept_loop w1
      else if e' = eagain \<and> pollable w then
        (case r of Ret None \<Rightarrow> accept_loop w2 | Ret (Some e) \<Rightarrow> (w2, Ret (-1, None, call', Some e))
         | Panic s \<Rightarrow> (w2, Panic s) | Blocked \<Rightarrow> (w2, Blocked))
      else (w1, Ret (-1, None, call', e')))"
    unfolding accept_loop.simps [of w] s
    by (simp add: wt pl EAGAIN_def ECONNABORTED_def EINTR_def)
  note run = this [unfolded less.prems]
  consider (got) "e' = None" "w' = w1" "s = ns" "e = None"
    | (retry) w3 where "e' \<noteq> None" "accept_loop w3 = (w', Ret (s, sa, call, e))" "w3 = w1 \<or> w3 = w2"
    | (waitfail) x where "e' \<noteq> None" "w' = w2" "s = -1" "sa = None" "e = Some x" "r = Ret (Some x)"
    | (fail) "e' \<noteq> None" "w' = w1" "s = -1" "sa = None" "e = e'" "e' = eagain \<longrightarrow> \<not> pollable w"
        "e' \<noteq> eintr" "e' \<noteq> Some (Sys ECONNABORTED)"
    using run [symmetric]
    by (cases "e' = None"; cases "e' = eintr \<or> e' = Some (Sys ECONNABORTED)"; cases "e' = eagain \<and> pollable w"; cases r)
      (auto simp del: not_None_eq split: option.splits)
  then show ?case
  proof cases
    case retry
    then have "todo w3 < todo w" "w_log w3 = w_log w1" "pollable w3 = pollable w" using t w2 pl by auto
    from less.hyps [OF this(1) retry(2)] this(2,3) retry(1) log show ?thesis
      by (elim exE conjE) (intro exI [of _ "log @ logx" for logx], auto intro: balance_append)
  next
    case waitfail
    have "x \<noteq> Sys k" for k using wait_not_sys(1) [of w1 w2 x] wt waitfail(6) by simp
    then show ?thesis using waitfail(1-5) log w2 by (intro exI [of _ log]) (auto simp del: not_None_eq)
  qed (use log in \<open>intro exI [of _ log], auto\<close>)+
qed

text \<open>
  C26. \<open>Accept\<close> on a free read lock loses no connection: when it succeeds, the connections the
  kernel handed over are the one returned and those closed again; when it fails, every one
  was closed again and the result is -1. It never returns \<open>EINTR\<close> or \<open>ECONNABORTED\<close>, and \<open>EAGAIN\<close>
  only when there is no poller.
\<close>

theorem fd_accept_keeps_all:
  assumes "free_lock True (fd_fdmu (w_fd w))" and "fd_Accept w = (w', Ret (s, sa, call, e))"
    and "w_log w' = w_log w @ log"
  shows "concat (map opened log) = concat (map closed_again log) @ (if e = None then [s] else [])
    \<and> (e \<noteq> None \<longrightarrow> s = -1 \<and> sa = None)
    \<and> e \<noteq> eintr \<and> e \<noteq> Some (Sys ECONNABORTED) \<and> (e = eagain \<longrightarrow> \<not> pollable w)"
proof -
  let ?body = "orReturn prepareRead (\<lambda>e. (-1, None, '''', Some e)) accept_loop"
  have "runs_body ?body w w' (Ret (s, sa, call, e))"
    by (rule reader_runs [OF assms(1) keeps_accept_body assms(2) [unfolded fd_Accept_def]]) simp
  then obtain mu w1 where b: "?body (set_fd (fd_fdmu_update (\<lambda>_. mu)) w) = (w1, Ret (s, sa, call, e))"
    and l: "w_log w' = w_log w1" unfolding runs_body_def by blast
  then obtain w2 x where p: "prepareRead (set_fd (fd_fdmu_update (\<lambda>_. mu)) w) = (w2, Ret x)"
    and r: "case x of Some y \<Rightarrow> w1 = w2 \<and> (s, sa, call, e) = (-1, None, '''', Some y)
      | None \<Rightarrow> accept_loop w2 = (w1, Ret (s, sa, call, e))"
    unfolding orReturn_Ret by blast
  have w2: "w_log w2 = w_log w" "pollable w2 = pollable w"
    using prepare_keeps(1) [OF p] by (simp_all add: set_fd_def pollable_def)
  show ?thesis
  proof (cases x)
    case None
    then have "accept_loop w2 = (w1, Ret (s, sa, call, e))" using r by simp
    from accept_loop_log [OF this] show ?thesis using l w2 assms(3) by (auto simp: balance_def)
  next
    case (Some y)
    then have "y \<noteq> Sys k" for k using p wait_not_sys(3) by blast
    then show ?thesis using Some r w2 l assms(3) by simp
  qed
qed

definition an_old_kernel :: world where
  "an_old_kernel = a_world [] [ans (-1) (Some (Sys ECONNABORTED)), ans (-1) (Some (Sys ENOSYS)), ans 9 None, ans 0 None,
     ans (-1) (Some (Sys EINVAL))]"

text \<open>\<open>accept4\<close> is missing and \<open>SetNonblock\<close> fails: connection 9 is closed again.\<close>

theorem fd_accept_keeps_all_witness:
  "snd (fd_Accept (an_old_kernel\<lparr>w_io := w_io an_old_kernel @ [ans 0 None]\<rparr>)) = Ret (-1, None, ''setnonblock'', Some (Sys EINVAL))
   \<and> concat (map opened [(SysAccept4 7, ans (-1) (Some (Sys ECONNABORTED))), (SysAccept4 7, ans (-1) (Some (Sys ENOSYS))),
       (SysAccept 7, ans 9 None), (SysCloseOnExec 9, ans 0 None), (SysSetNonblock 9 True, ans (-1) (Some (Sys EINVAL))),
       (SysClose 9, ans 0 None)]) = [9]"
proof -
  let ?w = "an_old_kernel\<lparr>w_io := w_io an_old_kernel @ [ans 0 None]\<rparr>"
  let ?log = "[(SysAccept4 7, ans (-1) (Some (Sys ECONNABORTED))), (SysAccept4 7, ans (-1) (Some (Sys ENOSYS))),
       (SysAccept 7, ans 9 None), (SysCloseOnExec 9, ans 0 None), (SysSetNonblock 9 True, ans (-1) (Some (Sys EINVAL))),
       (SysClose 9, ans 0 None)]"
  have free: "free_lock True (fd_fdmu (w_fd ?w))" using a_world_free [of True "[]" "[]"] by (simp add: an_old_kernel_def a_world_def)
  have run: "snd (fd_Accept ?w) = Ret (-1, None, ''setnonblock'', Some (Sys EINVAL))"
    "w_log (fst (fd_Accept ?w)) = w_log ?w @ ?log" by code_simp+
  have "fd_Accept ?w = (fst (fd_Accept ?w), Ret (-1, None, ''setnonblock'', Some (Sys EINVAL)))"
    using run(1) by (metis prod.collapse)
  from fd_accept_keeps_all [OF free this run(2)] run(1) show ?thesis by simp
qed

section \<open>Gathered writes\<close>

lemma consume_concat:
  "0 \<le> n \<Longrightarrow> concat (consume v n) = drop (nat n) (concat v)"
proof (induction v n rule: consume.induct)
  case (2 c cs n)
  then show ?case by (auto simp: nat_diff_distrib)
qed simp

text \<open>The vector of one call: the first non-empty buffers, or a part of the last.\<close>

lemma build_iovecs_prefix:
  "\<exists>rest. concat acc @ concat v = concat (build_iovecs stream k v acc) @ rest
     \<and> (build_iovecs stream k v acc = acc \<longrightarrow> concat v = [])"
proof (induction stream k v acc rule: build_iovecs.induct)
  case (2 stream k c cs acc)
  have longer: "length acc < length (build_iovecs stream k cs (acc @ [c]))"
  proof -
    have "length acc' \<le> length (build_iovecs stream k v acc')" for v and acc' :: "u8 list list"
      by (induction stream k v acc' rule: build_iovecs.induct) (auto simp: Let_def)
    from this [of "acc @ [c]" cs] show ?thesis by simp
  qed
  then have ne: "build_iovecs stream k cs (acc @ [c]) \<noteq> acc" by auto
  consider "c = []" | "c \<noteq> []" "stream \<and> int (length c) > maxRW" | "c \<noteq> []" "\<not> (stream \<and> int (length c) > maxRW)" "length acc + 1 = k"
    | "c \<noteq> []" "\<not> (stream \<and> int (length c) > maxRW)" "length acc + 1 \<noteq> k" by blast
  then show ?case
  proof cases
    case 2
    then show ?thesis by (intro exI [of _ "drop (nat maxRW) c @ concat cs"]) auto
  next
    case 4
    then show ?thesis using "2.IH"(2) [OF 4] ne by auto
  qed (use "2.IH"(1) in \<open>auto\<close>)
qed simp

lemma build_iovecs_length:
  "length acc < k \<Longrightarrow> length (build_iovecs stream k v acc) \<le> k"
  by (induction stream k v acc rule: build_iovecs.induct) auto

lemma build_iovecs_chunks:
  "\<forall>c\<in>set acc. c \<noteq> [] \<and> (stream \<longrightarrow> int (length c) \<le> maxRW) \<Longrightarrow>
   \<forall>c\<in>set (build_iovecs stream k v acc). c \<noteq> [] \<and> (stream \<longrightarrow> int (length c) \<le> maxRW)"
proof (induction stream k v acc rule: build_iovecs.induct)
  case (2 stream k c cs acc)
  have cut: "take (nat maxRW) c \<noteq> [] \<and> int (length (take (nat maxRW) c)) \<le> maxRW" if "c \<noteq> []"
    using that by (simp add: maxRW_def)
  show ?case
  proof (cases "c = []")
    case True
    then show ?thesis using "2.IH"(1) "2.prems" by simp
  next
    case False
    note c = this
    show ?thesis
    proof (cases "stream \<and> int (length c) > maxRW")
      case True
      then have "build_iovecs stream k (c # cs) acc = acc @ [take (nat maxRW) c]" using c by simp
      then show ?thesis using "2.prems" cut [OF c] by (simp only:) auto
    next
      case False
      then have "\<forall>x\<in>set (acc @ [c]). x \<noteq> [] \<and> (stream \<longrightarrow> int (length x) \<le> maxRW)" using "2.prems" c by auto
      note chunks = this
      show ?thesis
      proof (cases "length acc + 1 = k")
        case True
        then have "build_iovecs stream k (c # cs) acc = acc @ [c]" using c False by auto
        then show ?thesis using chunks by (simp only:)
      next
        case more: False
        then have "build_iovecs stream k (c # cs) acc = build_iovecs stream k cs (acc @ [c])" using c False by auto
        then show ?thesis using "2.IH"(2) [OF c False more chunks] by (simp only:)
      qed
    qed
  qed
qed simp

fun writev_ok :: "syscall \<times> answer \<Rightarrow> bool" where
  "writev_ok (SysWritev fd vs, a) \<longleftrightarrow>
     (if a_err a = None then 0 \<le> a_n a \<and> a_n a \<le> int (length (concat vs)) else a_n a = -1)"
| "writev_ok _ \<longleftrightarrow> True"

fun sentv :: "syscall \<times> answer \<Rightarrow> u8 list" where
  "sentv (SysWritev fd vs, a) = take (nat (a_n a)) (concat vs)"
| "sentv _ = []"

abbreviation all_sentv :: "(syscall \<times> answer) list \<Rightarrow> u8 list" where
  "all_sentv log \<equiv> concat (map sentv log)"

definition vec_ok :: "bool \<Rightarrow> int \<Rightarrow> nat \<Rightarrow> syscall \<times> answer \<Rightarrow> bool" where
  "vec_ok stream fd k ca \<longleftrightarrow> (\<exists>vs. fst ca = SysWritev fd vs \<and> vs \<noteq> [] \<and> length vs \<le> k
     \<and> (\<forall>c\<in>set vs. c \<noteq> [] \<and> (stream \<longrightarrow> int (length c) \<le> maxRW)))"

lemma sentv_attempts:
  assumes "list_all writev_ok (attempts (SysWritev fd vs) as a)" and "\<forall>b\<in>set as. a_err b = eintr"
  shows "all_sentv (attempts (SysWritev fd vs) as a) = take (nat (a_n a)) (concat vs)"
  using assms by (induction as) (simp_all add: attempts_def)

lemma stable_env: "stable (\<lambda>w. w_env w = env)"
  by (auto simp: stable_def keeps_def syscall_def prepareRead_def prepareWrite_def poll_prepare_def
      waitRead_def waitWrite_def poll_wait_def Let_def split: list.splits prod.splits outcome.splits if_splits)

text \<open>One pass: what was sent and what is left make up what there was.\<close>

lemma writev_pass:
  assumes "vs = build_iovecs (fd_IsStream fd) k v []" "vs \<noteq> []" "0 < k"
    and "\<forall>b\<in>set as. a_err b = eintr" and "list_all writev_ok (attempts (SysWritev s vs) as a)"
    and "wr = (if a_n a = -1 then 0 else a_n a)"
  shows "0 \<le> wr" "concat v = all_sentv (attempts (SysWritev s vs) as a) @ concat (consume v wr)"
    "wr = int (length (all_sentv (attempts (SysWritev s vs) as a)))"
    "list_all (vec_ok (fd_IsStream fd) s k) (attempts (SysWritev s vs) as a)"
proof -
  have ok: "writev_ok (SysWritev s vs, a)" using assms(5) by (simp add: attempts_def)
  then show wr: "0 \<le> wr" using assms(6) by (auto split: if_splits)
  have sent: "all_sentv (attempts (SysWritev s vs) as a) = take (nat (a_n a)) (concat vs)"
    using sentv_attempts assms(4,5) by blast
  have nat: "nat (a_n a) = nat wr" using assms(6) by simp
  have bound: "wr \<le> int (length (concat vs))" using ok assms(6) by (auto split: if_splits)
  obtain rest where "concat v = concat vs @ rest"
    using build_iovecs_prefix [of "[]" v "fd_IsStream fd" k] assms(1) by auto
  then have "take (nat wr) (concat v) = take (nat wr) (concat vs)" using bound by simp
  then show "concat v = all_sentv (attempts (SysWritev s vs) as a) @ concat (consume v wr)"
    using consume_concat [OF wr] unfolding sent nat by (metis append_take_drop_id)
  show "wr = int (length (all_sentv (attempts (SysWritev s vs) as a)))"
    using bound wr unfolding sent nat by simp
  show "list_all (vec_ok (fd_IsStream fd) s k) (attempts (SysWritev s vs) as a)"
    using assms(1-3) build_iovecs_length [of "[]" k "fd_IsStream fd" v] build_iovecs_chunks [of "[]" "fd_IsStream fd" k v]
    by (auto simp: attempts_def vec_ok_def list_all_iff)
qed

definition wrotev :: "FD \<Rightarrow> nat \<Rightarrow> u8 list list \<Rightarrow> int \<Rightarrow> u8 list list \<Rightarrow> int \<Rightarrow> err \<Rightarrow> (syscall \<times> answer) list \<Rightarrow> bool" where
  "wrotev fd k v n v' n' e log \<longleftrightarrow> concat v = all_sentv log @ concat v' \<and> n' = n + int (length (all_sentv log))
     \<and> (e = None \<longrightarrow> concat v' = []) \<and> list_all (vec_ok (fd_IsStream fd) (fd_Sysfd fd) k) log"

lemma wrotev_more:
  assumes "wrotev fd k v1 n1 v' n' e log'" and "concat v = all_sentv log @ concat v1"
    and "n1 = n + int (length (all_sentv log))" and "list_all (vec_ok (fd_IsStream fd) (fd_Sysfd fd) k) log"
  shows "wrotev fd k v n v' n' e (log @ log')"
  using assms by (auto simp: wrotev_def)

lemma max_vec_pos: "0 < max_vec goos"
  by (simp add: max_vec_def)

lemma writev_loop_log:
  assumes "writev_loop v n e0 w = (w', Ret (v', n', e))" and "e0 = None"
  shows "\<exists>log. w_log w' = w_log w @ log
    \<and> (list_all writev_ok log \<longrightarrow> wrotev (w_fd w) (max_vec (e_goos (w_env w))) v n v' n' e log)"
  using assms
proof (induction "todo w" arbitrary: w v n e0 rule: less_induct)
  case less
  define vs where "vs = build_iovecs (fd_IsStream (w_fd w)) (max_vec (e_goos (w_env w))) v []"
  note loop = writev_loop.simps [of v n e0 w, unfolded Let_def, folded vs_def]
  show ?case
  proof (cases "v = [] \<or> vs = []")
    case True
    then have "concat v = []"
      using build_iovecs_prefix [of "[]" v "fd_IsStream (w_fd w)" "max_vec (e_goos (w_env w))"] by (auto simp: vs_def)
    moreover have "writev_loop v n e0 w = (w, Ret (v, n, e0))" using True by (auto simp: loop)
    then have "w' = w" "v' = v" "n' = n" "e = None" using less.prems by simp_all
    ultimately show ?thesis by (intro exI [of _ "[]"]) (simp add: wrotev_def)
  next
    case False
    obtain w1 x where io: "writev (fd_Sysfd (w_fd w)) vs w = (w1, x)" by force
    then obtain a where s: "writev (fd_Sysfd (w_fd w)) vs w = (w1, Ret a)"
      using less.prems(1) False by (cases x) (simp_all add: loop)
    let ?c = "SysWritev (fd_Sysfd (w_fd w)) vs"
    obtain as where as: "w_log w1 = w_log w @ attempts ?c as a" "\<forall>b\<in>set as. a_err b = eintr" "a_err a \<noteq> eintr"
      "w_fd w1 = w_fd w" using ignoringEINTRIO_log [OF s [unfolded writev_def]] by blast
    have env1: "w_env w1 = w_env w"
      using keepsD [OF keeps_ignoringEINTRIO [OF stable_env] s [unfolded writev_def]] by simp
    obtain w2 r where wt: "waitWrite w1 = (w2, r)" by force
    have env2: "w_env w2 = w_env w" using keepsD [OF stableD(3) [OF stable_env] wt] env1 by simp
    note w2 = waitWrite_keeps [OF wt] wait_fd(2) [OF wt] env1 env2
    note t1 = ignoringEINTRIO_todo [OF s [unfolded writev_def]]
    define wr where "wr = (if a_n a = -1 then 0 else a_n a)"
    define n1 where "n1 = n + wr"
    have vs: "vs \<noteq> []" using False by simp
    note pass = writev_pass [OF vs_def vs max_vec_pos as(2) _ wr_def, of "fd_Sysfd (w_fd w)"]
    have "writev_loop v n e0 w =
        (if a_err a = eagain then
          (case r of Ret None \<Rightarrow> writev_loop (consume v wr) n1 None w2
           | Ret (Some e) \<Rightarrow> (w2, Ret (consume v wr, n1, Some e)) | Panic s \<Rightarrow> (w2, Panic s) | Blocked \<Rightarrow> (w2, Blocked))
         else if a_err a \<noteq> None then (w1, Ret (consume v wr, n1, a_err a))
         else if n1 = 0 then (w1, Ret (consume v wr, n1, Some ErrUnexpectedEOF))
         else writev_loop (consume v wr) n1 None w1)"
      unfolding loop s n1_def wr_def using False as(3) by (simp add: wt)
    note run = this [unfolded less.prems(1)]
    consider (stop) "w_log w' = w_log w1" "v' = consume v wr" "n' = n1" "e \<noteq> None"
      | (go) w3 where "w_log w3 = w_log w1" "w_fd w3 = w_fd w" "w_env w3 = w_env w" "todo w3 < todo w"
          "writev_loop (consume v wr) n1 None w3 = (w', Ret (v', n', e))"
    proof -
      assume stop: "w_log w' = w_log w1 \<Longrightarrow> v' = consume v wr \<Longrightarrow> n' = n1 \<Longrightarrow> e \<noteq> None \<Longrightarrow> thesis"
        and go: "\<And>w3. w_log w3 = w_log w1 \<Longrightarrow> w_fd w3 = w_fd w \<Longrightarrow> w_env w3 = w_env w \<Longrightarrow> todo w3 < todo w \<Longrightarrow>
          writev_loop (consume v wr) n1 None w3 = (w', Ret (v', n', e)) \<Longrightarrow> thesis"
      note go1 = go [of w1, OF refl as(4) env1 t1] and go2 = go [of w2]
      show thesis
      proof (cases "a_err a = eagain")
        case True
        then have "(case r of Ret None \<Rightarrow> writev_loop (consume v wr) n1 None w2
           | Ret (Some e) \<Rightarrow> (w2, Ret (consume v wr, n1, Some e)) | Panic s \<Rightarrow> (w2, Panic s) | Blocked \<Rightarrow> (w2, Blocked))
           = (w', Ret (v', n', e))" using run by simp
        then show thesis using stop go2 w2 as(4) t1 by (cases r) (auto split: option.splits)
      next
        case False
        then have r: "(if a_err a \<noteq> None then (w1, Ret (consume v wr, n1, a_err a))
         else if n1 = 0 then (w1, Ret (consume v wr, n1, Some ErrUnexpectedEOF))
         else writev_loop (consume v wr) n1 None w1) = (w', Ret (v', n', e))" using run by simp
        show thesis
        proof (cases "a_err a = None \<and> n1 \<noteq> 0")
          case True
          then show thesis using r by (intro go1) simp
        next
          case False
          then show thesis using r by (intro stop) (auto dest: sym [of "Some _"] split: if_splits)
        qed
      qed
    qed
    then show ?thesis
    proof cases
      case stop
      then show ?thesis using pass as(1) n1_def
        by (intro exI [of _ "attempts ?c as a"]) (auto simp: wrotev_def)
    next
      case go
      from less.hyps [OF go(4,5) refl] obtain log where log: "w_log w' = w_log w3 @ log"
        "list_all writev_ok log \<longrightarrow> wrotev (w_fd w) (max_vec (e_goos (w_env w))) (consume v wr) n1 v' n' e log"
        unfolding go(2,3) by blast
      have "wrotev (w_fd w) (max_vec (e_goos (w_env w))) v n v' n' e (attempts ?c as a @ log)"
        if "list_all writev_ok (attempts ?c as a @ log)"
        using that pass log(2) n1_def by (intro wrotev_more [where ?n1.0 = n1]) simp_all
      then show ?thesis using log(1) go(1) as(1) by (intro exI [of _ "attempts ?c as a @ log"]) simp
    qed
  qed
qed

text \<open>
  \<open>Writev\<close> on a free write lock, over a kernel that takes at most what it is given: the bytes
  the kernel took, in order, followed by what is left in the caller's buffers, are the bytes
  that were in the buffers; the count returned is the number of bytes taken; without an error
  nothing is left; each call has at least one and at most \<open>IOV_MAX\<close> buffers, none of them empty.
\<close>

theorem fd_writev_prefix:
  assumes "free_lock False (fd_fdmu (w_fd w))" and "fd_Writev v w = (w', Ret (v', n, e))"
    and "w_log w' = w_log w @ log" and "list_all writev_ok log"
  shows "concat v = all_sentv log @ concat v' \<and> n = int (length (all_sentv log))
    \<and> (e = None \<longrightarrow> concat v' = [])
    \<and> list_all (vec_ok (fd_IsStream (w_fd w)) (fd_Sysfd (w_fd w)) (max_vec (e_goos (w_env w)))) log"
proof -
  let ?body = "orReturn prepareWrite (\<lambda>e. (v, 0, Some e)) (writev_loop v 0 None)"
  have "runs_body ?body w w' (Ret (v', n, e))"
    by (rule writer_runs [OF assms(1) keeps_writev_body assms(2) [unfolded fd_Writev_def]]) simp
  then obtain mu w1 where b: "?body (set_fd (fd_fdmu_update (\<lambda>_. mu)) w) = (w1, Ret (v', n, e))"
    and l: "w_log w' = w_log w1" unfolding runs_body_def by blast
  then obtain w2 x where p: "prepareWrite (set_fd (fd_fdmu_update (\<lambda>_. mu)) w) = (w2, Ret x)"
    and r: "case x of Some y \<Rightarrow> w1 = w2 \<and> (v', n, e) = (v, 0, Some y) | None \<Rightarrow> writev_loop v 0 None w2 = (w1, Ret (v', n, e))"
    unfolding orReturn_Ret by blast
  have w2: "w_log w2 = w_log w" "fd_IsStream (w_fd w2) = fd_IsStream (w_fd w)" "fd_Sysfd (w_fd w2) = fd_Sysfd (w_fd w)"
    "w_env w2 = w_env w"
    using prepare_keeps(2) [OF p] keepsD [OF stableD(5) [OF stable_env] p] by (simp_all add: set_fd_def)
  show ?thesis
  proof (cases x)
    case None
    then have "writev_loop v 0 None w2 = (w1, Ret (v', n, e))" using r by simp
    from writev_loop_log [OF this refl] show ?thesis using l w2 assms(3,4) by (auto simp: wrotev_def)
  next
    case (Some y)
    then show ?thesis using r w2 l assms(3) by simp
  qed
qed

theorem fd_writev_prefix_witness:
  "all_sentv [(SysWritev 7 [[1,2],[3]], ans 1 None), (SysWritev 7 [[2],[3]], ans 2 None)] = [1,2,3]"
proof -
  let ?w = "a_world [] [ans 1 None, ans 2 None]"
  let ?log = "[(SysWritev 7 [[1,2],[3]], ans 1 None), (SysWritev 7 [[2],[3]], ans 2 None)]"
  have run: "snd (fd_Writev [[], [1,2],[3]] ?w) = Ret ([], 3, None)"
    "w_log (fst (fd_Writev [[], [1,2],[3]] ?w)) = w_log ?w @ ?log" by code_simp+
  have ok: "list_all writev_ok ?log" by code_simp
  have "fd_Writev [[], [1,2],[3]] ?w = (fst (fd_Writev [[], [1,2],[3]] ?w), Ret ([], 3, None))"
    using run(1) by (metis prod.collapse)
  from fd_writev_prefix [OF a_world_free this run(2) ok] show ?thesis by simp
qed

section \<open>Closing\<close>

lemma increfAndClose_open:
  assumes "usable mu"
  obtains mu' where "increfAndClose mu = (mu', Ret True)"
    and "mview mu' = (mview mu)\<lparr>v_closed := True, v_refs := v_refs (mview mu) + 1, v_rwait := 0, v_wwait := 0\<rparr>"
proof -
  obtain new where new: "increfAndClose_try (mu_state mu) = Try new"
    and v: "view new = (mview mu)\<lparr>v_closed := True, v_refs := v_refs (mview mu) + 1, v_rwait := 0, v_wwait := 0\<rparr>"
    using try_op_TryE [of IncrefAndClose "mu_state mu"] assms by (auto simp: usable_def)
  then show thesis using that by (simp add: increfAndClose_def Let_def)
qed

lemma set_fd_fd [simp]: "w_fd (set_fd f w) = f (w_fd w)" "w_ep (set_fd f w) = w_ep w" "w_env (set_fd f w) = w_env w"
  by (simp_all add: set_fd_def)

lemma poll_close_keeps:
  assumes "poll_close w = (w', Ret ())"
  shows "w_log w' = w_log w \<and> w_fd w' = (w_fd w)\<lparr>fd_runtimeCtx := 0\<rparr>"
  using assms by (cases "w_fd w") (auto simp: poll_close_def Let_def split: if_splits prod.splits outcome.splits)

lemma poll_evict_keeps:
  "poll_evict w = (w', r) \<Longrightarrow> w_log w' = w_log w \<and> w_fd w' = w_fd w"
  by (auto simp: poll_evict_def Let_def split: if_splits prod.splits)

lemma poll_evict_returns:
  assumes "fd_runtimeCtx (w_fd w) = 0 \<or> \<not> pd_closing (np_pd (w_ep w) (fd_runtimeCtx (w_fd w)))"
  shows "\<exists>w'. poll_evict w = (w', Ret ())"
proof (cases "fd_runtimeCtx (w_fd w) = 0")
  case False
  then obtain np' where "poll_runtime_pollUnblock (fd_runtimeCtx (w_fd w)) (w_ep w) = (np', Ret ())"
    using assms pollUnblock_spec [of "w_ep w" "fd_runtimeCtx (w_fd w)"] by blast
  then show ?thesis using False by (simp add: poll_evict_def)
qed (simp add: poll_evict_def)

lemma fd_destroy_Ret:
  assumes "fd_destroy w = (w', Ret e)"
  obtains a where "w_log w' = w_log w @ [(SysClose (fd_Sysfd (w_fd w)), a)]" "e = a_err a"
    "w_fd w' = (w_fd w)\<lparr>fd_runtimeCtx := 0, fd_Sysfd := -1, fd_csema := semrelease (fd_csema (w_fd w))\<rparr>"
proof -
  obtain w1 w2 a where c: "poll_close w = (w1, Ret ())" and s: "syscall (SysClose (fd_Sysfd (w_fd w1))) w1 = (w2, Ret a)"
    and d: "w' = set_fd (\<lambda>fd. fd\<lparr>fd_Sysfd := -1, fd_csema := semrelease (fd_csema fd)\<rparr>) w2" "e = a_err a"
    using assms by (auto simp: fd_destroy_def SysFile_destroy_def andThen_Ret ret_def)
  show thesis
    using that [of a] poll_close_keeps [OF c] syscall_log [OF s] wait_fd(3) [OF s] d by simp
qed

text \<open>Dropping a reference of a closed descriptor: only the last one closes it.\<close>

lemma fd_decref_closed:
  assumes "v_closed (mview (fd_fdmu (w_fd w)))" and "0 < v_refs (mview (fd_fdmu (w_fd w)))"
  obtains mu where "mview mu = (mview (fd_fdmu (w_fd w)))\<lparr>v_refs := v_refs (mview (fd_fdmu (w_fd w))) - 1\<rparr>"
    "fd_decref w = (if v_refs (mview (fd_fdmu (w_fd w))) = 1 then fd_destroy (set_fd (fd_fdmu_update (\<lambda>_. mu)) w)
       else (set_fd (fd_fdmu_update (\<lambda>_. mu)) w, Ret None))"
proof -
  obtain mu where "decref (fd_fdmu (w_fd w)) = (mu, Ret (v_closed (mview (fd_fdmu (w_fd w))) \<and> v_refs (mview (fd_fdmu (w_fd w))) = 1))"
    and v: "mview mu = (mview (fd_fdmu (w_fd w)))\<lparr>v_refs := v_refs (mview (fd_fdmu (w_fd w))) - 1\<rparr>"
    using decref_open [OF assms(2)] by metis
  then show thesis using that [OF v] assms(1) by (simp add: fd_decref_def andThen_def with_mutex_def ret_def)
qed

lemma fd_Close_open:
  assumes "usable (fd_fdmu (w_fd w))"
  obtains mu w1 r where "mview mu = (mview (fd_fdmu (w_fd w)))\<lparr>v_closed := True,
      v_refs := v_refs (mview (fd_fdmu (w_fd w))) + 1, v_rwait := 0, v_wwait := 0\<rparr>"
    "poll_evict (set_fd (fd_fdmu_update (\<lambda>_. mu)) w) = (w1, r)"
    "w_log w1 = w_log w" "w_fd w1 = (w_fd w)\<lparr>fd_fdmu := mu\<rparr>"
    "fd_Close w = (case r of Ret _ \<Rightarrow> andThen fd_decref (\<lambda>e w.
              if fd_isBlocking (w_fd w) = 0 then andThen csema_acquire (\<lambda>_. ret e) w
              else (w, Ret e)) w1 | Panic s \<Rightarrow> (w1, Panic s) | Blocked \<Rightarrow> (w1, Blocked))"
proof -
  obtain mu where mu: "increfAndClose (fd_fdmu (w_fd w)) = (mu, Ret True)"
    "mview mu = (mview (fd_fdmu (w_fd w)))\<lparr>v_closed := True,
      v_refs := v_refs (mview (fd_fdmu (w_fd w))) + 1, v_rwait := 0, v_wwait := 0\<rparr>"
    using increfAndClose_open [OF assms] by metis
  obtain w1 r where ev: "poll_evict (set_fd (fd_fdmu_update (\<lambda>_. mu)) w) = (w1, r)" by force
  have "w_fd w1 = (w_fd w)\<lparr>fd_fdmu := mu\<rparr>" using poll_evict_keeps [OF ev] by (cases "w_fd w") simp
  moreover have "fd_Close w = (case r of Ret _ \<Rightarrow> andThen fd_decref (\<lambda>e w.
              if fd_isBlocking (w_fd w) = 0 then andThen csema_acquire (\<lambda>_. ret e) w
              else (w, Ret e)) w1 | Panic s \<Rightarrow> (w1, Panic s) | Blocked \<Rightarrow> (w1, Blocked))"
    using mu(1) ev by (cases r) (simp_all add: fd_Close_def andThen_def with_mutex_def)
  ultimately show thesis using that [OF mu(2) ev] poll_evict_keeps [OF ev] by simp
qed

text \<open>
  C27. \<open>Close\<close> by the only user of a descriptor: it makes exactly one system call, \<open>close\<close> on the
  descriptor, even when that one is interrupted, returns its error, forgets the descriptor and its
  poller, leaves the semaphore as it was, and a second \<open>Close\<close> returns the closing error and
  does nothing.
\<close>

theorem fd_close_once:
  assumes "\<not> v_closed (mview (fd_fdmu (w_fd w)))" and "v_refs (mview (fd_fdmu (w_fd w))) = 0"
    and "fd_Close w = (w', Ret e)"
  shows "(\<exists>a. w_log w' = w_log w @ [(SysClose (fd_Sysfd (w_fd w)), a)] \<and> e = a_err a)
    \<and> fd_Sysfd (w_fd w') = -1 \<and> fd_runtimeCtx (w_fd w') = 0
    \<and> v_closed (mview (fd_fdmu (w_fd w'))) \<and> v_refs (mview (fd_fdmu (w_fd w'))) = 0
    \<and> (fd_isBlocking (w_fd w) = 0 \<longrightarrow> fd_csema (w_fd w') = fd_csema (w_fd w))
    \<and> fd_Close w' = (w', Ret (Some (errClosing (fd_isFile (w_fd w)))))"
proof -
  have "usable (fd_fdmu (w_fd w))" using assms(1,2) by (simp add: usable_def)
  then obtain mu w1 r where mu: "mview mu = (mview (fd_fdmu (w_fd w)))\<lparr>v_closed := True,
      v_refs := v_refs (mview (fd_fdmu (w_fd w))) + 1, v_rwait := 0, v_wwait := 0\<rparr>"
    and ev: "poll_evict (set_fd (fd_fdmu_update (\<lambda>_. mu)) w) = (w1, r)"
    and w1: "w_log w1 = w_log w" "w_fd w1 = (w_fd w)\<lparr>fd_fdmu := mu\<rparr>"
    and run: "fd_Close w = (case r of Ret _ \<Rightarrow> andThen fd_decref (\<lambda>e w.
              if fd_isBlocking (w_fd w) = 0 then andThen csema_acquire (\<lambda>_. ret e) w
              else (w, Ret e)) w1 | Panic s \<Rightarrow> (w1, Panic s) | Blocked \<Rightarrow> (w1, Blocked))"
    by (rule fd_Close_open)
  obtain w2 e2 where d: "fd_decref w1 = (w2, Ret e2)"
    and c: "(if fd_isBlocking (w_fd w2) = 0 then andThen csema_acquire (\<lambda>_. ret e2) w2 else (w2, Ret e2)) = (w', Ret e)"
    using assms(3) unfolding run by (cases r) (auto simp: andThen_Ret)
  have "v_closed (mview (fd_fdmu (w_fd w1)))" "0 < v_refs (mview (fd_fdmu (w_fd w1)))" "v_refs (mview (fd_fdmu (w_fd w1))) = 1"
    using w1 mu assms(2) by simp_all
  then obtain mu' where mu': "mview mu' = (mview (fd_fdmu (w_fd w1)))\<lparr>v_refs := v_refs (mview (fd_fdmu (w_fd w1))) - 1\<rparr>"
    and "fd_destroy (set_fd (fd_fdmu_update (\<lambda>_. mu')) w1) = (w2, Ret e2)"
    using d by (metis fd_decref_closed)
  from fd_destroy_Ret [OF this(2)] obtain a where
    a: "w_log w2 = w_log w @ [(SysClose (fd_Sysfd (w_fd w)), a)]" "e2 = a_err a"
      "w_fd w2 = (w_fd w)\<lparr>fd_fdmu := mu', fd_runtimeCtx := 0, fd_Sysfd := -1, fd_csema := semrelease (fd_csema (w_fd w))\<rparr>"
    using w1 by auto
  have w': "w_log w' = w_log w2" "e = e2" "fd_Sysfd (w_fd w') = -1" "fd_runtimeCtx (w_fd w') = 0"
    "fd_fdmu (w_fd w') = mu'" "fd_isFile (w_fd w') = fd_isFile (w_fd w)"
    "fd_isBlocking (w_fd w) = 0 \<longrightarrow> fd_csema (w_fd w') = fd_csema (w_fd w)"
    using c a(3) by (auto simp: andThen_Ret ret_def csema_acquire_def cansemacquire_def semrelease_def split: if_splits option.splits)
  have closed: "v_closed (mview mu')" "v_refs (mview mu') = 0" using mu mu' w1 assms(2) by simp_all
  have "set_fd (fd_fdmu_update (\<lambda>_. mu')) w' = w'" using w'(5) by (simp add: set_fd_def)
  then have "fd_Close w' = (w', Ret (Some (errClosing (fd_isFile (w_fd w)))))"
    using closed_refuses(3) [OF closed(1)] w'(5,6) by (simp add: fd_Close_def andThen_def with_mutex_def)
  then show ?thesis using w' a closed by auto
qed

theorem fd_close_once_witness:
  "snd (fd_Close (a_world [] [ans (-1) eintr])) = Ret eintr
   \<and> fd_Sysfd (w_fd (fst (fd_Close (a_world [] [ans (-1) eintr])))) = -1"
proof -
  let ?w = "a_world [] [ans (-1) eintr]"
  have h: "\<not> v_closed (mview (fd_fdmu (w_fd ?w)))" "v_refs (mview (fd_fdmu (w_fd ?w))) = 0"
    by (simp_all add: a_world_def a_socket_def view_def field_def)
  have run: "snd (fd_Close ?w) = Ret eintr" by code_simp
  then have "fd_Close ?w = (fst (fd_Close ?w), Ret eintr)" by (metis prod.collapse)
  from fd_close_once [OF h this] run show ?thesis by blast
qed

text \<open>
  \<open>Close\<close> while operations are in flight: it closes the mutex and evicts the poller, makes no
  system call and waits, and the descriptor stays what it was; then a reference that is dropped
  and is not the last does nothing, and the last one makes the one \<open>close\<close> call, forgets the
  descriptor and wakes the closer.
\<close>

theorem fd_close_waits_for_users:
  assumes "\<not> v_closed (mview (fd_fdmu (w_fd w)))" and "0 < v_refs (mview (fd_fdmu (w_fd w)))"
    and "v_refs (mview (fd_fdmu (w_fd w))) < max_count"
    and "fd_isBlocking (w_fd w) = 0" and "fd_csema (w_fd w) = 0"
    and "fd_runtimeCtx (w_fd w) = 0 \<or> \<not> pd_closing (np_pd (w_ep w) (fd_runtimeCtx (w_fd w)))"
    and "v_closed (mview (fd_fdmu (w_fd u)))" and "0 < v_refs (mview (fd_fdmu (w_fd u)))"
    and "fd_decref u = (u', Ret e)"
  shows "(\<exists>w'. fd_Close w = (w', Blocked) \<and> w_log w' = w_log w
      \<and> v_closed (mview (fd_fdmu (w_fd w'))) \<and> v_refs (mview (fd_fdmu (w_fd w'))) = v_refs (mview (fd_fdmu (w_fd w)))
      \<and> fd_Sysfd (w_fd w') = fd_Sysfd (w_fd w))
    \<and> (if v_refs (mview (fd_fdmu (w_fd u))) = 1
       then (\<exists>a. w_log u' = w_log u @ [(SysClose (fd_Sysfd (w_fd u)), a)] \<and> e = a_err a)
         \<and> fd_Sysfd (w_fd u') = -1 \<and> fd_csema (w_fd u') = fd_csema (w_fd u) + 1
       else w_log u' = w_log u \<and> e = None \<and> fd_Sysfd (w_fd u') = fd_Sysfd (w_fd u) \<and> fd_csema (w_fd u') = fd_csema (w_fd u))"
    (is "?close \<and> ?drop")
proof
  have "usable (fd_fdmu (w_fd w))" using assms(1,3) by (simp add: usable_def)
  then obtain mu w1 r where mu: "mview mu = (mview (fd_fdmu (w_fd w)))\<lparr>v_closed := True,
      v_refs := v_refs (mview (fd_fdmu (w_fd w))) + 1, v_rwait := 0, v_wwait := 0\<rparr>"
    and ev: "poll_evict (set_fd (fd_fdmu_update (\<lambda>_. mu)) w) = (w1, r)"
    and w1: "w_log w1 = w_log w" "w_fd w1 = (w_fd w)\<lparr>fd_fdmu := mu\<rparr>"
    and run: "fd_Close w = (case r of Ret _ \<Rightarrow> andThen fd_decref (\<lambda>e w.
              if fd_isBlocking (w_fd w) = 0 then andThen csema_acquire (\<lambda>_. ret e) w
              else (w, Ret e)) w1 | Panic s \<Rightarrow> (w1, Panic s) | Blocked \<Rightarrow> (w1, Blocked))"
    by (rule fd_Close_open)
  have r: "r = Ret ()" using poll_evict_returns [of "set_fd (fd_fdmu_update (\<lambda>_. mu)) w"] ev assms(6) by auto
  have "v_closed (mview (fd_fdmu (w_fd w1)))" "0 < v_refs (mview (fd_fdmu (w_fd w1)))" "v_refs (mview (fd_fdmu (w_fd w1))) \<noteq> 1"
    using w1 mu assms(2) by simp_all
  then obtain mu' where mu': "mview mu' = (mview (fd_fdmu (w_fd w1)))\<lparr>v_refs := v_refs (mview (fd_fdmu (w_fd w1))) - 1\<rparr>"
    and d: "fd_decref w1 = (set_fd (fd_fdmu_update (\<lambda>_. mu')) w1, Ret None)"
    by (metis fd_decref_closed)
  have "fd_Close w = (set_fd (fd_fdmu_update (\<lambda>_. mu')) w1, Blocked)"
    using run r d w1 assms(4,5) by (simp add: andThen_def csema_acquire_def cansemacquire_def)
  then show ?close using w1 mu mu' by simp
  obtain m where m: "mview m = (mview (fd_fdmu (w_fd u)))\<lparr>v_refs := v_refs (mview (fd_fdmu (w_fd u))) - 1\<rparr>"
    "fd_decref u = (if v_refs (mview (fd_fdmu (w_fd u))) = 1 then fd_destroy (set_fd (fd_fdmu_update (\<lambda>_. m)) u)
       else (set_fd (fd_fdmu_update (\<lambda>_. m)) u, Ret None))"
    using fd_decref_closed [OF assms(7,8)] by metis
  show ?drop
  proof (cases "v_refs (mview (fd_fdmu (w_fd u))) = 1")
    case True
    then have "fd_destroy (set_fd (fd_fdmu_update (\<lambda>_. m)) u) = (u', Ret e)" using m(2) assms(9) by simp
    from fd_destroy_Ret [OF this] obtain a where
      "w_log u' = w_log u @ [(SysClose (fd_Sysfd (w_fd u)), a)]" "e = a_err a"
      "w_fd u' = (w_fd u)\<lparr>fd_fdmu := m, fd_runtimeCtx := 0, fd_Sysfd := -1, fd_csema := semrelease (fd_csema (w_fd u))\<rparr>"
      by auto
    then show ?thesis using True by (simp add: semrelease_def)
  next
    case False
    then show ?thesis using m(2) assms(9) by auto
  qed
qed

definition in_flight :: world where
  "in_flight = set_fd (fd_fdmu_update (\<lambda>mu. mu\<lparr>mu_state := 10\<rparr>)) (a_world [] [ans 0 None])"

definition last_user :: world where
  "last_user = set_fd (\<lambda>fd. fd\<lparr>fd_fdmu := (fd_fdmu fd)\<lparr>mu_state := 9\<rparr>, fd_runtimeCtx := 0\<rparr>) (a_world [] [ans 0 None])"

theorem fd_close_waits_for_users_witness:
  "snd (fd_Close in_flight) = Blocked \<and> fd_Sysfd (w_fd (fst (fd_decref last_user))) = -1"
proof -
  have v: "view 10 = \<lparr>v_closed = False, v_rlock = True, v_wlock = False, v_refs = 1, v_rwait = 0, v_wwait = 0\<rparr>"
    "view 9 = \<lparr>v_closed = True, v_rlock = False, v_wlock = False, v_refs = 1, v_rwait = 0, v_wwait = 0\<rparr>"
    by (simp_all add: view_def field_def bit_numeral_rec)
  have st: "mu_state (fd_fdmu (w_fd in_flight)) = 10" "mu_state (fd_fdmu (w_fd last_user)) = 9"
    by (simp_all add: in_flight_def last_user_def)
  have fl: "fd_isBlocking (w_fd in_flight) = 0" "fd_csema (w_fd in_flight) = 0"
    "fd_runtimeCtx (w_fd in_flight) = 0 \<or> \<not> pd_closing (np_pd (w_ep in_flight) (fd_runtimeCtx (w_fd in_flight)))"
    by code_simp+
  have run: "snd (fd_decref last_user) = Ret None" by code_simp
  then have "fd_decref last_user = (fst (fd_decref last_user), Ret None)" by (metis prod.collapse)
  from fd_close_waits_for_users [OF _ _ _ fl _ _ this] show ?thesis by (auto simp: st v)
qed

section \<open>Deadlines\<close>

lemma setDeadline_past:
  assumes "\<not> pd_closing (np_pd np p)" and "d < 0" and "m = mode_r \<or> m = mode_w" and "mode = m \<or> mode = mode_rw"
  shows "netpollcheckerr (np_pd (poll_runtime_pollSetDeadline now p d mode np) p) m = pollErrTimeout"
proof -
  let ?pd = "np_pd np p"
  define pd0 where "pd0 = with_deadline now d mode ?pd"
  define pd1 where "pd1 = set_read_timer (combo pd0) (combo ?pd) (pd_rd ?pd) pd0"
  define pd2 where "pd2 = set_write_timer (combo pd0) (combo ?pd) (pd_wd ?pd) pd1"
  obtain pd3 delta rg wg where u: "unblock_expired pd2 = (pd3, delta, rg, wg)" by (metis prod_cases4)
  have "np_pd (poll_runtime_pollSetDeadline now p d mode np) p = pd3"
    using setDeadline_cases [OF assms(1) pd0_def pd1_def pd2_def] u by simp
  moreover have "pd_atomicInfo pd3 = pd_atomicInfo pd0"
    using unblock_expired_keeps [OF u] by (simp add: pd1_def pd2_def)
  moreover have "netpollcheckerr pd0 m = pollErrTimeout"
    using assms unfolding pd0_def with_deadline_def
    by (auto simp: checkerr_publishInfo expired_def new_deadline_def deadline_at_def)
  ultimately show ?thesis by (simp add: netpollcheckerr_def)
qed

lemma reset_expired:
  assumes "fd_runtimeCtx (w_fd w) \<noteq> 0" and "netpollcheckerr (np_pd (w_ep w) (fd_runtimeCtx (w_fd w))) mode = pollErrTimeout"
  shows "mode = mode_r \<Longrightarrow> prepareRead w = (w, Ret (Some ErrDeadlineExceeded))"
    and "mode = mode_w \<Longrightarrow> prepareWrite w = (w, Ret (Some ErrDeadlineExceeded))"
  using assms by (simp_all add: prepareRead_def prepareWrite_def poll_prepare_def poll_runtime_pollReset_def Let_def
      convertErr_def poll_codes)

text \<open>A method whose body returns the same from every state of the mutex.\<close>

lemma reader_result:
  assumes "free_lock True (fd_fdmu (w_fd w))" and "keeps_fd body" and "r \<noteq> Blocked"
    and "\<And>mu. body (set_fd (fd_fdmu_update (\<lambda>_. mu)) w) = (set_fd (fd_fdmu_update (\<lambda>_. mu)) w, r)"
  shows "snd (orReturn readLock h (deferring body readUnlock) w) = r
    \<and> w_log (fst (orReturn readLock h (deferring body readUnlock) w)) = w_log w"
proof -
  obtain mu' where acq: "rwlock True (fd_fdmu (w_fd w)) = (mu', Ret True)"
    using rl.acquire_free [OF assms(1)] by blast
  show ?thesis
    using rl.guarded_runs [OF assms(1,2) acq assms(4) assms(3), of h] unfolding readLock_def readUnlock_def
    by (metis fst_conv snd_conv set_fd_todo(2))
qed

lemma writer_result:
  assumes "free_lock False (fd_fdmu (w_fd w))" and "keeps_fd body" and "r \<noteq> Blocked"
    and "\<And>mu. body (set_fd (fd_fdmu_update (\<lambda>_. mu)) w) = (set_fd (fd_fdmu_update (\<lambda>_. mu)) w, r)"
  shows "snd (orReturn writeLock h (deferring body writeUnlock) w) = r
    \<and> w_log (fst (orReturn writeLock h (deferring body writeUnlock) w)) = w_log w"
proof -
  obtain mu' where acq: "rwlock False (fd_fdmu (w_fd w)) = (mu', Ret True)"
    using wl.acquire_free [OF assms(1)] by blast
  show ?thesis
    using wl.guarded_runs [OF assms(1,2) acq assms(4) assms(3), of h] unfolding writeLock_def writeUnlock_def
    by (metis fst_conv snd_conv set_fd_todo(2))
qed

lemma reader_expired:
  assumes "free_lock True (fd_fdmu (w_fd w))" and "fd_runtimeCtx (w_fd w) \<noteq> 0"
    and "netpollcheckerr (np_pd (w_ep w) (fd_runtimeCtx (w_fd w))) mode_r = pollErrTimeout"
    and "keeps_fd (orReturn prepareRead h rest)"
  shows "snd (orReturn readLock h' (deferring (orReturn prepareRead h rest) readUnlock) w) = Ret (h ErrDeadlineExceeded)
    \<and> w_log (fst (orReturn readLock h' (deferring (orReturn prepareRead h rest) readUnlock) w)) = w_log w"
proof (rule reader_result [OF assms(1,4)])
  show "orReturn prepareRead h rest (set_fd (fd_fdmu_update (\<lambda>_. mu)) w)
      = (set_fd (fd_fdmu_update (\<lambda>_. mu)) w, Ret (h ErrDeadlineExceeded))" for mu
    using reset_expired(1) [of "set_fd (fd_fdmu_update (\<lambda>_. mu)) w" mode_r] assms(2,3)
    by (simp add: orReturn_def andThen_def ret_def)
qed simp

lemma writer_expired:
  assumes "free_lock False (fd_fdmu (w_fd w))" and "fd_runtimeCtx (w_fd w) \<noteq> 0"
    and "netpollcheckerr (np_pd (w_ep w) (fd_runtimeCtx (w_fd w))) mode_w = pollErrTimeout"
    and "keeps_fd (orReturn prepareWrite h rest)"
  shows "snd (orReturn writeLock h' (deferring (orReturn prepareWrite h rest) writeUnlock) w) = Ret (h ErrDeadlineExceeded)
    \<and> w_log (fst (orReturn writeLock h' (deferring (orReturn prepareWrite h rest) writeUnlock) w)) = w_log w"
proof (rule writer_result [OF assms(1,4)])
  show "orReturn prepareWrite h rest (set_fd (fd_fdmu_update (\<lambda>_. mu)) w)
      = (set_fd (fd_fdmu_update (\<lambda>_. mu)) w, Ret (h ErrDeadlineExceeded))" for mu
    using reset_expired(2) [of "set_fd (fd_fdmu_update (\<lambda>_. mu)) w" mode_w] assms(2,3)
    by (simp add: orReturn_def andThen_def ret_def)
qed simp

lemma same_mutex_free: "same_mutex mu mu' \<Longrightarrow> free_lock read mu = free_lock read mu'"
  by (simp add: same_mutex_def free_lock_def usable_def)

lemma setDeadline_runs:
  assumes "usable (fd_fdmu (w_fd w))" and "fd_runtimeCtx (w_fd w) \<noteq> 0"
  obtains mu where "same_mutex mu (fd_fdmu (w_fd w))"
    "setDeadlineImpl until mode w = (set_fd (fd_fdmu_update (\<lambda>_. mu))
       (w\<lparr>w_ep := poll_runtime_pollSetDeadline (e_now (w_env w)) (fd_runtimeCtx (w_fd w)) (deadline_arg until) mode (w_ep w)\<rparr>), Ret None)"
proof -
  let ?body = "\<lambda>w. let ctx = fd_runtimeCtx (w_fd w) in
           if ctx = 0 then (w, Ret (Some ErrNoDeadline))
           else (w\<lparr>w_ep := poll_runtime_pollSetDeadline (e_now (w_env w)) ctx (deadline_arg until) mode (w_ep w)\<rparr>, Ret (None :: err))"
  obtain mu' where acq: "incref (fd_fdmu (w_fd w)) = (mu', Ret True)" using rf.acquire_free [OF assms(1)] by blast
  have keep: "keeps_fd ?body" by (simp add: keeps_fd_def Let_def)
  let ?w1 = "(set_fd (fd_fdmu_update (\<lambda>_. mu')) w)\<lparr>w_ep := poll_runtime_pollSetDeadline (e_now (w_env w)) (fd_runtimeCtx (w_fd w)) (deadline_arg until) mode (w_ep w)\<rparr>"
  have b: "?body (set_fd (fd_fdmu_update (\<lambda>_. mu')) w) = (?w1, Ret None)" using assms(2) by simp
  obtain mu'' where "same_mutex mu'' (fd_fdmu (w_fd w))"
    "orReturn (andThen (with_mutex incref) closing_unless) Some
      (deferring ?body (andThen (with_mutex decref) (\<lambda>last. if last then fd_destroy else ret None))) w
      = (set_fd (fd_fdmu_update (\<lambda>_. mu'')) ?w1, Ret None)"
    by (rule rf.guarded_runs [OF assms(1) keep acq b outcome.distinct(3) [of None]])
  note run = this
  have w1: "set_fd (fd_fdmu_update (\<lambda>_. mu'')) ?w1 = set_fd (fd_fdmu_update (\<lambda>_. mu''))
      (w\<lparr>w_ep := poll_runtime_pollSetDeadline (e_now (w_env w)) (fd_runtimeCtx (w_fd w)) (deadline_arg until) mode (w_ep w)\<rparr>)"
    by (simp add: set_fd_def)
  have "setDeadlineImpl until mode w = orReturn (andThen (with_mutex incref) closing_unless) Some
      (deferring ?body (andThen (with_mutex decref) (\<lambda>last. if last then fd_destroy else ret None))) w"
    unfolding setDeadlineImpl_def fd_incref_def fd_decref_def Let_def by (rule refl)
  then show thesis using that [OF run(1)] unfolding run(2) w1 by blast
qed

text \<open>
  C28. A deadline in the past: after \<open>SetDeadline\<close> with a time that is not in the future, on a
  pollable descriptor whose locks are free, \<open>Read\<close> into a buffer that is not empty, \<open>ReadFrom\<close>, \<open>Accept\<close>, \<open>Write\<close> and \<open>Writev\<close>
  return \<open>ErrDeadlineExceeded\<close> at once, with nothing done, and make no system call.
\<close>

theorem fd_past_deadline:
  assumes "free_lock True (fd_fdmu (w_fd w))" and "free_lock False (fd_fdmu (w_fd w))"
    and "fd_runtimeCtx (w_fd w) \<noteq> 0" and "\<not> pd_closing (np_pd (w_ep w) (fd_runtimeCtx (w_fd w)))"
    and "d \<le> 0" and "fd_SetDeadline (Some d) w = (w', r)" and "0 < lp"
  shows "r = Ret None
    \<and> snd (fd_Read lp w') = Ret (0, Some ErrDeadlineExceeded) \<and> w_log (fst (fd_Read lp w')) = w_log w
    \<and> snd (fd_ReadFrom lp w') = Ret (0, None, Some ErrDeadlineExceeded) \<and> w_log (fst (fd_ReadFrom lp w')) = w_log w
    \<and> snd (fd_Accept w') = Ret (-1, None, '''', Some ErrDeadlineExceeded) \<and> w_log (fst (fd_Accept w')) = w_log w
    \<and> snd (fd_Write p w') = Ret (0, Some ErrDeadlineExceeded) \<and> w_log (fst (fd_Write p w')) = w_log w
    \<and> snd (fd_Writev v w') = Ret (v, 0, Some ErrDeadlineExceeded) \<and> w_log (fst (fd_Writev v w')) = w_log w"
proof -
  have us: "usable (fd_fdmu (w_fd w))" using assms(1) by (simp add: free_lock_def)
  have "deadline_arg (Some d) < 0" using assms(5) by (simp add: deadline_arg_def)
  note past = setDeadline_past [OF assms(4) this]
  obtain mu where mu: "same_mutex mu (fd_fdmu (w_fd w))" and w': "(w', r) = (set_fd (fd_fdmu_update (\<lambda>_. mu))
       (w\<lparr>w_ep := poll_runtime_pollSetDeadline (e_now (w_env w)) (fd_runtimeCtx (w_fd w)) (deadline_arg (Some d)) mode_rw (w_ep w)\<rparr>), Ret None)"
    using setDeadline_runs [OF us assms(3)] assms(6) unfolding fd_SetDeadline_def by metis
  have free: "free_lock True (fd_fdmu (w_fd w'))" "free_lock False (fd_fdmu (w_fd w'))"
    using same_mutex_free [OF mu] assms(1,2) w' by simp_all
  have err: "netpollcheckerr (np_pd (w_ep w') (fd_runtimeCtx (w_fd w'))) m = pollErrTimeout" if "m = mode_r \<or> m = mode_w" for m
    using past [OF that, of mode_rw] w' by simp
  have ctx: "fd_runtimeCtx (w_fd w') \<noteq> 0" using w' assms(3) by simp
  have log: "w_log w' = w_log w" using w' by simp
  note rd = reader_expired [OF free(1) ctx err [of mode_r]] and wr = writer_expired [OF free(2) ctx err [of mode_w]]
  have "read_body lp = orReturn prepareRead (\<lambda>e. (0, Some e)) (\<lambda>w. let lp = (if fd_IsStream (w_fd w) \<and> int lp > maxRW then nat maxRW else lp) in
           andThen (read_loop (SysRead (fd_Sysfd (w_fd w)) lp))
             (\<lambda>a w. (w, Ret (a_n a, eofError (a_n a) (a_err a) w))) w)" (is "_ = ?body")
    using assms(7) by (simp add: read_body_def)
  note read = fd_Read_body [of lp, unfolded this] keeps_read_body [of lp, unfolded this]
  have "r = Ret None" using w' by simp
  moreover have "snd (fd_Read lp w') = Ret (0, Some ErrDeadlineExceeded) \<and> w_log (fst (fd_Read lp w')) = w_log w"
    unfolding read(1) log [symmetric] by (rule rd [OF _ read(2)]) simp
  moreover have "snd (fd_ReadFrom lp w') = Ret (0, None, Some ErrDeadlineExceeded) \<and> w_log (fst (fd_ReadFrom lp w')) = w_log w"
    unfolding fd_ReadFrom_def recv_with_def log [symmetric] by (rule rd [OF _ keeps_recv_body]) simp
  moreover have "snd (fd_Accept w') = Ret (-1, None, '''', Some ErrDeadlineExceeded) \<and> w_log (fst (fd_Accept w')) = w_log w"
    unfolding fd_Accept_def log [symmetric] by (rule rd [OF _ keeps_accept_body]) simp
  moreover have "snd (fd_Write p w') = Ret (0, Some ErrDeadlineExceeded) \<and> w_log (fst (fd_Write p w')) = w_log w"
    unfolding fd_Write_def log [symmetric] by (rule wr [OF _ keeps_write_body]) simp
  moreover have "snd (fd_Writev v w') = Ret (v, 0, Some ErrDeadlineExceeded) \<and> w_log (fst (fd_Writev v w')) = w_log w"
    unfolding fd_Writev_def log [symmetric] by (rule wr [OF _ keeps_writev_body]) simp
  ultimately show ?thesis by blast
qed

theorem fd_past_deadline_witness:
  "snd (fd_SetDeadline (Some 0) (a_world [] [ans 5 None])) = Ret None
   \<and> snd (fd_Read 10 (fst (fd_SetDeadline (Some 0) (a_world [] [ans 5 None])))) = Ret (0, Some ErrDeadlineExceeded)"
proof -
  let ?w = "a_world [] [ans 5 None]"
  have h: "fd_runtimeCtx (w_fd ?w) \<noteq> 0" "\<not> pd_closing (np_pd (w_ep ?w) (fd_runtimeCtx (w_fd ?w)))" by code_simp+
  have "fd_SetDeadline (Some 0) ?w = (fst (fd_SetDeadline (Some 0) ?w), snd (fd_SetDeadline (Some 0) ?w))" by simp
  from fd_past_deadline [OF a_world_free a_world_free h _ this, of 10] show ?thesis by simp
qed

end
