(* ===== verification/FdTransferProps.thy ===== *)
theory FdTransferProps
  imports FdTransfer FdIO
begin

text \<open>
  What the copies inside the kernel report: \<open>SendFile\<close> and \<open>Splice\<close> count the bytes that the kernel moved, and \<open>Splice\<close> gives
  no pipe back to the pool that still holds data of this connection. \<open>CopyFileRange\<close> may forget what it copied.
\<close>

section \<open>Counting\<close>

fun moved :: "syscall \<times> answer \<Rightarrow> int" where
  "moved (c, a) = (if a_n a > 0 then a_n a else 0)"

abbreviation bytes_moved :: "(syscall \<times> answer) list \<Rightarrow> int" where
  "bytes_moved log \<equiv> sum_list (map moved log)"

lemma bytes_moved_nonneg: "0 \<le> bytes_moved log"
  by (rule sum_list_nonneg) (auto split: if_splits)

text \<open>
  What \<^verbatim>\<open>sendfile(2)\<close>, \<^verbatim>\<open>splice(2)\<close> and \<^verbatim>\<open>copy_file_range(2)\<close> promise: at most as many bytes as they were
  asked for, and none with an error. A \<open>splice\<close> out of the pipe, which holds data then, moves something.
\<close>

definition answer_ok :: "int \<Rightarrow> int \<Rightarrow> answer \<Rightarrow> bool" where
  "answer_ok least lim a \<longleftrightarrow> (if a_err a = None then least \<le> a_n a \<and> a_n a \<le> lim else a_n a = -1)"

fun sendfile_ok :: "syscall \<times> answer \<Rightarrow> bool" where
  "sendfile_ok (SysSendfile dst src lim, a) = answer_ok 0 lim a"
| "sendfile_ok _ = True"

fun splice_ok :: "splicePipe \<Rightarrow> syscall \<times> answer \<Rightarrow> bool" where
  "splice_ok p (SysSplice src dst lim flags, a) = answer_ok (if src = sp_rfd p then 1 else 0) lim a"
| "splice_ok p _ = True"

section \<open>sendfile\<close>

definition sendfile_call :: "int \<Rightarrow> int \<Rightarrow> syscall \<times> answer \<Rightarrow> bool" where
  "sendfile_call dst src ca \<longleftrightarrow> (\<exists>lim. fst ca = SysSendfile dst src lim \<and> 0 < lim \<and> lim \<le> maxSendfileSize)"

text \<open>The log ends with the answer that says that there is no more.\<close>

definition at_end :: "(syscall \<times> answer) list \<Rightarrow> bool" where
  "at_end log \<longleftrightarrow> log \<noteq> [] \<and> a_n (snd (last log)) = 0 \<and> a_err (snd (last log)) = None"

lemma at_end_append: "at_end log' \<Longrightarrow> at_end (log @ log')"
  by (simp add: at_end_def)

lemma sendfile_loop_log:
  assumes "sendfile_loop src remain written w = (w', r)"
  shows "w_fd w' = w_fd w \<and> (\<exists>log. w_log w' = w_log w @ log \<and> list_all (sendfile_call (fd_Sysfd (w_fd w)) src) log
    \<and> (\<forall>n e h. r = Ret (n, e, h) \<longrightarrow> list_all sendfile_ok log \<longrightarrow> n = written + bytes_moved log \<and> bytes_moved log \<le> max 0 remain \<and> h = (e = None)
        \<and> (e = None \<longrightarrow> bytes_moved log = max 0 remain \<or> at_end log)))"
  using assms
proof (induction "todo w" arbitrary: w remain written rule: less_induct)
  case less
  define lim where "lim = (if maxSendfileSize > remain then remain else maxSendfileSize)"
  define c where "c = SysSendfile (fd_Sysfd (w_fd w)) src lim"
  note loop = sendfile_loop.simps [of src remain written w, unfolded Let_def, folded lim_def, folded c_def]
  show ?case
  proof (cases "remain > 0")
    case False
    then have "w' = w" "r = Ret (written, None, True)" using less.prems by (simp_all add: loop)
    then show ?thesis using False by (intro conjI exI [of _ "[]"]) simp_all
  next
    case pos: True
    obtain w1 o1 where s: "syscall c w = (w1, o1)" by force
    have lim: "0 < lim" "lim \<le> remain" "lim \<le> maxSendfileSize" using pos by (auto simp: lim_def maxSendfileSize_def)
    consider (none) "o1 = Blocked" "w1 = w" | (a) a where "o1 = Ret a" using syscall_blocked [OF s] by blast
    then show ?thesis
    proof cases
      case none
      then have "w' = w" "r = Blocked" using less.prems pos by (simp_all add: loop s)
      then show ?thesis by (intro conjI exI [of _ "[]"]) simp_all
    next
      case a
      obtain w2 o2 where wt: "waitWrite w1 = (w2, o2)" by force
      note w1 = syscall_log [OF s [unfolded a]] wait_fd(3) [OF s] syscall_todo [OF s [unfolded a]]
      note w2 = waitWrite_keeps [OF wt] wait_fd(2) [OF wt]
      define m where "m = moved (c, a)"
      have call: "sendfile_call (fd_Sysfd (w_fd w)) src (c, a)" using lim by (simp add: sendfile_call_def c_def)
      have ok: "sendfile_ok (c, a) = answer_ok 0 lim a" by (simp add: c_def)
      have m: "0 \<le> m" "answer_ok 0 lim a \<Longrightarrow> m \<le> remain" "a_err a \<noteq> None \<Longrightarrow> answer_ok 0 lim a \<Longrightarrow> m = 0"
        using lim by (auto simp: m_def answer_ok_def split: if_splits)
      have run: "sendfile_loop src remain written w =
        (if a_n a = 0 \<and> a_err a = None then (w1, Ret (written + m, None, True))
         else if a_err a = eintr then sendfile_loop src (remain - m) (written + m) w1
         else if a_err a = eagain then
           (case o2 of Ret None \<Rightarrow> sendfile_loop src (remain - m) (written + m) w2
            | Ret (Some e) \<Rightarrow> (w2, Ret (written + m, Some e, False)) | Panic s \<Rightarrow> (w2, Panic s) | Blocked \<Rightarrow> (w2, Blocked))
         else if a_err a \<noteq> None then (w1, Ret (written + m, a_err a, False))
         else sendfile_loop src (remain - m) (written + m) w1)"
        unfolding loop s a m_def using pos by (simp add: wt split: outcome.splits option.splits)
      consider (stop) w3 where "w' = w3" "w_log w3 = w_log w1" "w_fd w3 = w_fd w"
          "\<forall>n e h. r = Ret (n, e, h) \<longrightarrow> n = written + m \<and> h = (e = None) \<and> (e = None \<longrightarrow> a_n a = 0 \<and> a_err a = None)"
        | (go) w3 where "w_log w3 = w_log w1" "w_fd w3 = w_fd w" "todo w3 < todo w" "sendfile_loop src (remain - m) (written + m) w3 = (w', r)"
        using run [unfolded less.prems, symmetric] w1 w2 by (auto split: if_splits outcome.splits option.splits)
      then show ?thesis
      proof cases
        case stop
        then show ?thesis using w1(1) call ok m by (intro conjI exI [of _ "[(c, a)]"]) (auto simp: at_end_def m_def)
      next
        case go
        from less.hyps [OF go(3,4)] obtain log where log: "w_fd w' = w_fd w3" "w_log w' = w_log w3 @ log"
          "list_all (sendfile_call (fd_Sysfd (w_fd w)) src) log"
          "\<forall>n e h. r = Ret (n, e, h) \<longrightarrow> list_all sendfile_ok log \<longrightarrow> n = written + m + bytes_moved log \<and> bytes_moved log \<le> max 0 (remain - m) \<and> h = (e = None)
            \<and> (e = None \<longrightarrow> bytes_moved log = max 0 (remain - m) \<or> at_end log)"
          unfolding go(2) by blast
        have "n = written + bytes_moved ((c, a) # log) \<and> bytes_moved ((c, a) # log) \<le> max 0 remain \<and> h = (e = None)
            \<and> (e = None \<longrightarrow> bytes_moved ((c, a) # log) = max 0 remain \<or> at_end ((c, a) # log))"
          if "r = Ret (n, e, h)" "list_all sendfile_ok ((c, a) # log)" for n e h
          using log(4) [rule_format, OF that(1)] that(2) m(1) m(2) ok pos at_end_append [of log "[(c, a)]"]
          by (auto simp: m_def [symmetric] simp del: moved.simps)
        then show ?thesis using log(1-3) go(1,2) w1(1) call by (intro conjI exI [of _ "(c, a) # log"]) auto
      qed
    qed
  qed
qed

lemma keeps_fd_orReturn: "keeps_fd m \<Longrightarrow> keeps_fd rest \<Longrightarrow> keeps_fd (orReturn m h rest)"
  unfolding keeps_fd_iff by (blast intro: keeps_orReturn)

lemma keeps_fd_prepare: "keeps_fd prepareRead" "keeps_fd prepareWrite"
  unfolding keeps_fd_iff using stable_fd stableD(4,5) by blast+

lemma keeps_fdI': "(\<And>w w' r. m w = (w', r) \<Longrightarrow> w_fd w' = w_fd w) \<Longrightarrow> keeps_fd m"
  unfolding keeps_fd_def by (metis prod.collapse)

lemma keeps_sendfile_loop: "keeps_fd (sendfile_loop src remain written)"
  using sendfile_loop_log by (blast intro: keeps_fdI')

text \<open>A method under a lock, of which the body after \<open>prepareRead\<close> or \<open>prepareWrite\<close> is known.\<close>

lemma prepared:
  assumes "runs_body (orReturn prep h body) w w' (Ret r)" and "prep = prepareRead \<or> prep = prepareWrite"
  obtains (failed) e where "r = h e" "w_log w' = w_log w" "balanced w w'"
  | (ran) w1 w2 where "body w1 = (w2, Ret r)" "w_log w1 = w_log w" "w_log w' = w_log w2" "balanced w w'"
      "fd_Sysfd (w_fd w1) = fd_Sysfd (w_fd w)"
proof -
  obtain mu w2 where b: "orReturn prep h body (set_fd (fd_fdmu_update (\<lambda>_. mu)) w) = (w2, Ret r)" and l: "w_log w' = w_log w2"
    and bal: "balanced w w'" using assms(1) unfolding runs_body_def by blast
  then obtain w1 x where p: "prep (set_fd (fd_fdmu_update (\<lambda>_. mu)) w) = (w1, Ret x)"
    and x: "case x of Some y \<Rightarrow> w2 = w1 \<and> r = h y | None \<Rightarrow> body w1 = (w2, Ret r)"
    unfolding orReturn_Ret by blast
  have w1: "w_log w1 = w_log w" "fd_Sysfd (w_fd w1) = fd_Sysfd (w_fd w)"
    using p assms(2) prepare_keeps [of "set_fd (fd_fdmu_update (\<lambda>_. mu)) w" w1] by (auto simp: set_fd_def)
  show thesis using failed ran x l bal w1 by (cases x) auto
qed

section \<open>splice\<close>

lemma spliceDrain_loop_log:
  assumes "spliceDrain_loop pipefd lim w = (w', r)"
  shows "w_fd w' = w_fd w \<and> (\<exists>log. w_log w' = w_log w @ log
    \<and> (\<forall>ca\<in>set log. fst ca = SysSplice (fd_Sysfd (w_fd w)) pipefd lim spliceNonblock)
    \<and> (\<forall>n e. r = Ret (n, e) \<longrightarrow> (\<forall>ca\<in>set log. answer_ok 0 lim (snd ca)) \<longrightarrow> bytes_moved log = max 0 n \<and> n \<le> max 0 lim
        \<and> (e = None \<longrightarrow> 0 \<le> n \<and> (n = 0 \<longrightarrow> at_end log)) \<and> (e \<noteq> None \<longrightarrow> n \<le> 0)))"
  using assms
proof (induction "todo w" arbitrary: w rule: less_induct)
  case less
  define c where "c = SysSplice (fd_Sysfd (w_fd w)) pipefd lim spliceNonblock"
  note loop = spliceDrain_loop.simps [of pipefd lim w, unfolded splice_call_def, folded c_def]
  obtain w1 o1 where s: "syscall c w = (w1, o1)" by force
  consider (none) "o1 = Blocked" "w1 = w" | (a) a where "o1 = Ret a" using syscall_blocked [OF s] by blast
  then show ?case
  proof cases
    case none
    then have "w' = w" "r = Blocked" using less.prems by (simp_all add: loop s)
    then show ?thesis by (intro conjI exI [of _ "[]"]) simp_all
  next
    case a
    obtain w2 o2 where wt: "waitRead w1 = (w2, o2)" by force
    note w1 = syscall_log [OF s [unfolded a]] wait_fd(3) [OF s] syscall_todo [OF s [unfolded a]]
    note w2 = waitRead_keeps [OF wt] wait_fd(1) [OF wt]
    have run: "spliceDrain_loop pipefd lim w =
      (if a_err a = eintr then spliceDrain_loop pipefd lim w1 else if a_err a \<noteq> eagain then (w1, Ret (a_n a, a_err a))
       else if pollable w1 then
         (case o2 of Ret None \<Rightarrow> spliceDrain_loop pipefd lim w2 | Ret (Some e) \<Rightarrow> (w2, Ret (a_n a, Some e))
          | Panic s \<Rightarrow> (w2, Panic s) | Blocked \<Rightarrow> (w2, Blocked))
       else spliceDrain_loop pipefd lim w1)"
      unfolding loop s a by (simp add: wt split: outcome.splits option.splits)
    consider (stop) w3 where "w' = w3" "w_log w3 = w_log w1" "w_fd w3 = w_fd w"
        "\<forall>n e. r = Ret (n, e) \<longrightarrow> n = a_n a \<and> (e = None \<longleftrightarrow> a_err a = None)"
      | (go) w3 where "w_log w3 = w_log w1" "w_fd w3 = w_fd w" "todo w3 < todo w" "spliceDrain_loop pipefd lim w3 = (w', r)" "a_err a \<noteq> None"
      using run [unfolded less.prems, symmetric] w1 w2 by (auto split: if_splits outcome.splits option.splits)
    then show ?thesis
    proof cases
      case stop
      then show ?thesis using w1(1) by (intro conjI exI [of _ "[(c, a)]"]) (auto simp: at_end_def answer_ok_def c_def split: if_splits)
    next
      case go
      from less.hyps [OF go(3,4)] obtain log where log: "w_fd w' = w_fd w3" "w_log w' = w_log w3 @ log"
        "\<forall>ca\<in>set log. fst ca = c"
        "\<forall>n e. r = Ret (n, e) \<longrightarrow> (\<forall>ca\<in>set log. answer_ok 0 lim (snd ca)) \<longrightarrow> bytes_moved log = max 0 n \<and> n \<le> max 0 lim
          \<and> (e = None \<longrightarrow> 0 \<le> n \<and> (n = 0 \<longrightarrow> at_end log)) \<and> (e \<noteq> None \<longrightarrow> n \<le> 0)"
        unfolding go(2) c_def by blast
      have "answer_ok 0 lim a \<Longrightarrow> moved (c, a) = 0" using go(5) by (simp add: answer_ok_def)
      then show ?thesis using log go(1,2) w1(1) at_end_append [of log "[(c, a)]"]
        by (intro conjI exI [of _ "(c, a) # log"]) (auto simp: c_def simp del: moved.simps)
    qed
  qed
qed

lemma splicePump_loop_log:
  assumes "splicePump_loop pipefd inPipe written w = (w', r)"
  shows "w_fd w' = w_fd w \<and> (\<exists>log. w_log w' = w_log w @ log
    \<and> (\<forall>ca\<in>set log. \<exists>lim\<le>inPipe. fst ca = SysSplice pipefd (fd_Sysfd (w_fd w)) lim spliceNonblock)
    \<and> (\<forall>n e. r = Ret (n, e) \<longrightarrow> (\<forall>ca\<in>set log. \<forall>i d lim f. fst ca = SysSplice i d lim f \<longrightarrow> answer_ok 1 lim (snd ca)) \<longrightarrow>
        n = written + bytes_moved log \<and> bytes_moved log \<le> max 0 inPipe \<and> (e = None \<longrightarrow> bytes_moved log = max 0 inPipe)))"
  using assms
proof (induction "todo w" arbitrary: w inPipe written rule: less_induct)
  case less
  define c where "c = SysSplice pipefd (fd_Sysfd (w_fd w)) inPipe spliceNonblock"
  note loop = splicePump_loop.simps [of pipefd inPipe written w, unfolded splice_call_def, folded c_def]
  show ?case
  proof (cases "inPipe > 0")
    case False
    then have "w' = w" "r = Ret (written, None)" using less.prems by (simp_all add: loop)
    then show ?thesis using False by (intro conjI exI [of _ "[]"]) simp_all
  next
    case pos: True
    obtain w1 o1 where s: "syscall c w = (w1, o1)" by force
    consider (none) "o1 = Blocked" "w1 = w" | (a) a where "o1 = Ret a" using syscall_blocked [OF s] by blast
    then show ?thesis
    proof cases
      case none
      then have "w' = w" "r = Blocked" using less.prems pos by (simp_all add: loop s)
      then show ?thesis by (intro conjI exI [of _ "[]"]) simp_all
    next
      case a
      obtain w2 o2 where wt: "waitWrite w1 = (w2, o2)" by force
      note w1 = syscall_log [OF s [unfolded a]] wait_fd(3) [OF s] syscall_todo [OF s [unfolded a]]
      note w2 = waitWrite_keeps [OF wt] wait_fd(2) [OF wt]
      define m where "m = (if a_err a = eintr then 0 else moved (c, a))"
      have run: "splicePump_loop pipefd inPipe written w =
        (if a_err a = eintr then splicePump_loop pipefd inPipe written w1
         else if a_n a > 0 then splicePump_loop pipefd (inPipe - m) (written + m) w1
         else if a_err a \<noteq> eagain then (w1, Ret (written, a_err a))
         else if pollable w1 then
           (case o2 of Ret None \<Rightarrow> splicePump_loop pipefd inPipe written w2 | Ret (Some e) \<Rightarrow> (w2, Ret (written, Some e))
            | Panic s \<Rightarrow> (w2, Panic s) | Blocked \<Rightarrow> (w2, Blocked))
         else splicePump_loop pipefd inPipe written w1)"
        unfolding loop s a m_def using pos by (simp add: wt split: outcome.splits option.splits)
      have m: "0 \<le> m" "answer_ok 1 inPipe a \<Longrightarrow> m = moved (c, a) \<and> m \<le> inPipe" "answer_ok 1 inPipe a \<Longrightarrow> a_err a = None \<Longrightarrow> 0 < a_n a"
        using pos by (auto simp: m_def answer_ok_def split: if_splits)
      consider (stop) w3 where "w' = w3" "w_log w3 = w_log w1" "w_fd w3 = w_fd w" "m = 0"
          "\<forall>n e. r = Ret (n, e) \<longrightarrow> n = written \<and> (e = None \<longrightarrow> a_err a = None \<and> \<not> 0 < a_n a)"
        | (go) w3 where "w_log w3 = w_log w1" "w_fd w3 = w_fd w" "todo w3 < todo w" "splicePump_loop pipefd (inPipe - m) (written + m) w3 = (w', r)"
        using run [unfolded less.prems, symmetric] w1 w2 by (auto simp: m_def split: if_splits outcome.splits option.splits)
      then show ?thesis
      proof cases
        case stop
        have "bytes_moved [(c, a)] = 0" if "answer_ok 1 inPipe a" using m(2) [OF that] stop(4) by simp
        then show ?thesis using stop w1(1) m pos
          by (intro conjI exI [of _ "[(c, a)]"]) (auto simp: c_def simp del: moved.simps)
      next
        case go
        from less.hyps [OF go(3,4)] obtain log where log: "w_fd w' = w_fd w3" "w_log w' = w_log w3 @ log"
          "\<forall>ca\<in>set log. \<exists>lim\<le>inPipe - m. fst ca = SysSplice pipefd (fd_Sysfd (w_fd w)) lim spliceNonblock"
          "\<forall>n e. r = Ret (n, e) \<longrightarrow> (\<forall>ca\<in>set log. \<forall>i d lim f. fst ca = SysSplice i d lim f \<longrightarrow> answer_ok 1 lim (snd ca)) \<longrightarrow>
            n = written + m + bytes_moved log \<and> bytes_moved log \<le> max 0 (inPipe - m) \<and> (e = None \<longrightarrow> bytes_moved log = max 0 (inPipe - m))"
          unfolding go(2) by blast
        have "\<forall>ca\<in>set ((c, a) # log). \<exists>lim\<le>inPipe. fst ca = SysSplice pipefd (fd_Sysfd (w_fd w)) lim spliceNonblock"
          using log(3) m(1) unfolding c_def by (auto; fastforce)
        moreover have "n = written + bytes_moved ((c, a) # log) \<and> bytes_moved ((c, a) # log) \<le> max 0 inPipe \<and> (e = None \<longrightarrow> bytes_moved ((c, a) # log) = max 0 inPipe)"
          if "r = Ret (n, e)" and ok: "\<forall>ca\<in>set ((c, a) # log). \<forall>i d lim f. fst ca = SysSplice i d lim f \<longrightarrow> answer_ok 1 lim (snd ca)" for n e
        proof -
          have "answer_ok 1 inPipe a" using ok by (simp add: c_def)
          then show ?thesis using m(2) log(4) [rule_format, OF that(1)] ok pos by (simp del: moved.simps)
        qed
        ultimately show ?thesis using log(1,2) go(1,2) w1(1) by (intro conjI exI [of _ "(c, a) # log"]) auto
      qed
    qed
  qed
qed

lemma keeps_splice_loops: "keeps_fd (spliceDrain_loop pipefd lim)" "keeps_fd (splicePump_loop pipefd inPipe written)"
  using spliceDrain_loop_log splicePump_loop_log by (blast intro: keeps_fdI')+

text \<open>The calls that fill the pipe \<open>p\<close>, and those that empty it.\<close>

fun fills :: "splicePipe \<Rightarrow> syscall \<times> answer \<Rightarrow> bool" where
  "fills p (SysSplice src dst lim flags, a) = (dst = sp_wfd p)"
| "fills p _ = False"

fun empties :: "splicePipe \<Rightarrow> syscall \<times> answer \<Rightarrow> bool" where
  "empties p (SysSplice src dst lim flags, a) = (src = sp_rfd p)"
| "empties p _ = False"

abbreviation taken_in :: "splicePipe \<Rightarrow> (syscall \<times> answer) list \<Rightarrow> int" where
  "taken_in p log \<equiv> bytes_moved (filter (fills p) log)"

abbreviation given_out :: "splicePipe \<Rightarrow> (syscall \<times> answer) list \<Rightarrow> int" where
  "given_out p log \<equiv> bytes_moved (filter (empties p) log)"

fun is_splice :: "syscall \<times> answer \<Rightarrow> bool" where
  "is_splice (SysSplice src dst lim flags, a) = True"
| "is_splice _ = False"

text \<open>An FD whose mutex has gone through a lock and an unlock.\<close>

definition same_fd :: "FD \<Rightarrow> FD \<Rightarrow> bool" where
  "same_fd fd fd' \<longleftrightarrow> fd' = fd\<lparr>fd_fdmu := fd_fdmu fd'\<rparr> \<and> same_mutex (fd_fdmu fd') (fd_fdmu fd)"

lemma balanced_same: "balanced w w' \<longleftrightarrow> same_fd (w_fd w) (w_fd w')"
  by (simp add: balanced_def same_fd_def)

lemma same_fd_refl: "same_fd fd fd"
  by (simp add: same_fd_def same_mutex_def)

lemma same_fd_trans: "same_fd a b \<Longrightarrow> same_fd b c \<Longrightarrow> same_fd a c"
  unfolding same_fd_def same_mutex_def by (metis FD.unfold_congs(1) FD.update_convs(1) FD.surjective)

lemma same_fdD: "same_fd fd fd' \<Longrightarrow> fd_Sysfd fd' = fd_Sysfd fd" "same_fd fd fd' \<Longrightarrow> free_lock read (fd_fdmu fd') = free_lock read (fd_fdmu fd)"
  unfolding same_fd_def using same_mutex_free by (metis FD.select_convs(2) FD.surjective FD.update_convs(1), blast)

lemma spliceDrain_log:
  assumes "spliceDrain (sp_wfd p) lim w = (w', Ret (n, e))" and "free_lock True (fd_fdmu (w_fd w))" and "fd_Sysfd (w_fd w) \<noteq> sp_rfd p"
  obtains log where "w_log w' = w_log w @ log" "same_fd (w_fd w) (w_fd w')" "list_all is_splice log"
    "list_all (splice_ok p) log \<Longrightarrow> taken_in p log = max 0 n \<and> given_out p log = 0 \<and> n \<le> max 0 lim
      \<and> (e = None \<longrightarrow> 0 \<le> n \<and> (n = 0 \<longrightarrow> at_end log)) \<and> (e \<noteq> None \<longrightarrow> n \<le> 0)"
proof -
  have "runs_body (orReturn prepareRead (\<lambda>e. (0, Some e)) (spliceDrain_loop (sp_wfd p) lim)) w w' (Ret (n, e))"
    by (rule reader_runs [OF assms(2) keeps_fd_orReturn [OF keeps_fd_prepare(1) keeps_splice_loops(1)] assms(1) [unfolded spliceDrain_def]]) simp
  then consider (failed) x where "(n, e) = (0, Some x)" "w_log w' = w_log w" "balanced w w'"
    | (ran) w1 w2 where "spliceDrain_loop (sp_wfd p) lim w1 = (w2, Ret (n, e))" "w_log w1 = w_log w" "w_log w' = w_log w2" "balanced w w'" "fd_Sysfd (w_fd w1) = fd_Sysfd (w_fd w)"
    by (rule prepared [OF _ disjI1 [OF refl]]) blast+
  then show thesis
  proof cases
    case (ran w1 w2)
    obtain log where log: "w_log w2 = w_log w1 @ log"
      "\<forall>ca\<in>set log. fst ca = SysSplice (fd_Sysfd (w_fd w1)) (sp_wfd p) lim spliceNonblock"
      "(\<forall>ca\<in>set log. answer_ok 0 lim (snd ca)) \<longrightarrow> bytes_moved log = max 0 n \<and> n \<le> max 0 lim
        \<and> (e = None \<longrightarrow> 0 \<le> n \<and> (n = 0 \<longrightarrow> at_end log)) \<and> (e \<noteq> None \<longrightarrow> n \<le> 0)"
      using spliceDrain_loop_log [OF ran(1)] by blast
    have "filter (fills p) log = log" "filter (empties p) log = []" "list_all is_splice log"
      "list_all (splice_ok p) log \<Longrightarrow> \<forall>ca\<in>set log. answer_ok 0 lim (snd ca)"
      using log(2) ran(5) assms(3) by (force simp: filter_id_conv filter_empty_conv list_all_iff)+
    then show ?thesis using that [of log] log ran balanced_same by simp
  qed (use that [of "[]"] balanced_same in auto)
qed

lemma splicePump_log:
  assumes "splicePump (sp_rfd p) inPipe w = (w', Ret (n, e))" and "free_lock False (fd_fdmu (w_fd w))" and "fd_Sysfd (w_fd w) \<noteq> sp_wfd p"
  obtains log where "w_log w' = w_log w @ log" "same_fd (w_fd w) (w_fd w')" "list_all is_splice log"
    "list_all (splice_ok p) log \<Longrightarrow> given_out p log = n \<and> taken_in p log = 0 \<and> n \<le> max 0 inPipe \<and> (e = None \<longrightarrow> n = max 0 inPipe)"
proof -
  have "runs_body (orReturn prepareWrite (\<lambda>e. (0, Some e)) (splicePump_loop (sp_rfd p) inPipe 0)) w w' (Ret (n, e))"
    by (rule writer_runs [OF assms(2) keeps_fd_orReturn [OF keeps_fd_prepare(2) keeps_splice_loops(2)] assms(1) [unfolded splicePump_def]]) simp
  then consider (failed) x where "(n, e) = (0, Some x)" "w_log w' = w_log w" "balanced w w'"
    | (ran) w1 w2 where "splicePump_loop (sp_rfd p) inPipe 0 w1 = (w2, Ret (n, e))" "w_log w1 = w_log w" "w_log w' = w_log w2" "balanced w w'" "fd_Sysfd (w_fd w1) = fd_Sysfd (w_fd w)"
    by (rule prepared [OF _ disjI2 [OF refl]]) blast+
  then show thesis
  proof cases
    case (ran w1 w2)
    obtain log where log: "w_log w2 = w_log w1 @ log"
      "\<forall>ca\<in>set log. \<exists>lim\<le>inPipe. fst ca = SysSplice (sp_rfd p) (fd_Sysfd (w_fd w1)) lim spliceNonblock"
      "(\<forall>ca\<in>set log. \<forall>i d lim f. fst ca = SysSplice i d lim f \<longrightarrow> answer_ok 1 lim (snd ca)) \<longrightarrow>
        n = 0 + bytes_moved log \<and> bytes_moved log \<le> max 0 inPipe \<and> (e = None \<longrightarrow> bytes_moved log = max 0 inPipe)"
      using splicePump_loop_log [OF ran(1)] by blast
    have "filter (empties p) log = log" "filter (fills p) log = []" "list_all is_splice log"
      "list_all (splice_ok p) log \<Longrightarrow> \<forall>ca\<in>set log. \<forall>i d lim f. fst ca = SysSplice i d lim f \<longrightarrow> answer_ok 1 lim (snd ca)"
      using log(2) ran(5) assms(3) by (force simp: filter_id_conv filter_empty_conv list_all_iff)+
    then show ?thesis using that [of log] log ran balanced_same by simp
  qed (use that [of "[]"] balanced_same in auto)
qed

text \<open>Both locks are free, and neither descriptor is an end of the pipe.\<close>

definition fair :: "splicePipe \<Rightarrow> transfer \<Rightarrow> bool" where
  "fair p s \<longleftrightarrow> free_lock True (fd_fdmu (tr_src s)) \<and> free_lock False (fd_fdmu (w_fd (tr_w s)))
     \<and> fd_Sysfd (tr_src s) \<noteq> sp_rfd p \<and> fd_Sysfd (w_fd (tr_w s)) \<noteq> sp_wfd p"

text \<open>Nothing but the data of the pipe in hand and the mutexes has changed from \<open>s\<close> to \<open>s'\<close>.\<close>

definition carried :: "transfer \<Rightarrow> transfer \<Rightarrow> bool" where
  "carried s s' \<longleftrightarrow> tr_pool s' = tr_pool s \<and> sp_rfd (tr_pipe s') = sp_rfd (tr_pipe s) \<and> sp_wfd (tr_pipe s') = sp_wfd (tr_pipe s)
     \<and> same_fd (tr_src s) (tr_src s') \<and> same_fd (w_fd (tr_w s)) (w_fd (tr_w s'))"

lemma carried_trans: "carried a b \<Longrightarrow> carried b c \<Longrightarrow> carried a c"
  unfolding carried_def using same_fd_trans by metis

lemma carried_refl: "carried s s"
  by (simp add: carried_def same_fd_refl)

lemma carried_fair: "carried s s' \<Longrightarrow> fair p s \<Longrightarrow> fair p s'"
  unfolding carried_def fair_def using same_fdD by metis

lemma add_data_simps [simp]:
  "carried s (add_data x s') = carried s s'" "sp_data (tr_pipe (add_data x s)) = sp_data (tr_pipe s) + x"
  "sp_rfd (tr_pipe (add_data x s)) = sp_rfd (tr_pipe s)" "sp_wfd (tr_pipe (add_data x s)) = sp_wfd (tr_pipe s)" "fair p (add_data x s) = fair p s"
  by (simp_all add: add_data_def carried_def fair_def)

lemma drain_transfer:
  assumes "on_src (spliceDrain (sp_wfd p) lim) s = (s', Ret (n, e))" and "fair p s"
  obtains log where "w_log (tr_w s') = w_log (tr_w s) @ log" "carried s s'" "tr_pipe s' = tr_pipe s" "list_all is_splice log"
    "list_all (splice_ok p) log \<Longrightarrow> taken_in p log = max 0 n \<and> given_out p log = 0 \<and> n \<le> max 0 lim
      \<and> (e = None \<longrightarrow> 0 \<le> n \<and> (n = 0 \<longrightarrow> at_end log)) \<and> (e \<noteq> None \<longrightarrow> n \<le> 0)"
proof -
  let ?w = "set_fd (\<lambda>_. tr_src s) (tr_w s)"
  obtain w where w: "spliceDrain (sp_wfd p) lim ?w = (w, Ret (n, e))"
    and s': "s' = s\<lparr>tr_w := set_fd (\<lambda>_. w_fd (tr_w s)) w, tr_src := w_fd w\<rparr>" using assms(1) by (auto simp: on_simps)
  have "free_lock True (fd_fdmu (w_fd ?w))" "fd_Sysfd (w_fd ?w) \<noteq> sp_rfd p" using assms(2) by (simp_all add: fair_def)
  then show thesis
    by (rule spliceDrain_log [OF w]) (rule that, auto simp: s' carried_def same_fd_refl)
qed

lemma pump_transfer:
  assumes "on_dst (splicePump (sp_rfd p) inPipe) s = (s', Ret (n, e))" and "fair p s"
  obtains log where "w_log (tr_w s') = w_log (tr_w s) @ log" "carried s s'" "tr_pipe s' = tr_pipe s" "list_all is_splice log"
    "list_all (splice_ok p) log \<Longrightarrow> given_out p log = n \<and> taken_in p log = 0 \<and> n \<le> max 0 inPipe \<and> (e = None \<longrightarrow> n = max 0 inPipe)"
proof -
  obtain w where w: "splicePump (sp_rfd p) inPipe (tr_w s) = (w, Ret (n, e))" and s': "s' = s\<lparr>tr_w := w\<rparr>"
    using assms(1) by (auto simp: on_simps)
  have "free_lock False (fd_fdmu (w_fd (tr_w s)))" "fd_Sysfd (w_fd (tr_w s)) \<noteq> sp_wfd p" using assms(2) by (simp_all add: fair_def)
  then show thesis
    by (rule splicePump_log [OF w]) (rule that, auto simp: s' carried_def same_fd_refl)
qed

text \<open>What the loop has done when it returns \<open>n\<close> and \<open>e\<close> after \<open>log\<close>, with \<open>data\<close> bytes more in the pipe than before.\<close>

definition spliced :: "splicePipe \<Rightarrow> int \<Rightarrow> int \<Rightarrow> err \<Rightarrow> int \<Rightarrow> (syscall \<times> answer) list \<Rightarrow> bool" where
  "spliced p remain n e data log \<longleftrightarrow> n = given_out p log \<and> n \<le> max 0 remain \<and> data = taken_in p log - given_out p log \<and> 0 \<le> data
     \<and> (e = None \<longrightarrow> data = 0 \<and> (n = max 0 remain \<or> at_end log))"

lemma spliced_more:
  assumes "spliced p (remain - m) n e data log'" and "given_out p log = m" "taken_in p log = m" and "0 < remain" "m \<le> remain"
  shows "spliced p remain (m + n) e data (log @ log')"
  using assms at_end_append [of log' log] by (auto simp: spliced_def)

lemma given_out_nonneg: "0 \<le> given_out p log"
  by (rule bytes_moved_nonneg)

lemma splice_loop_log:
  assumes "splice_loop remain written handled s = (s', Ret (n, h, e))" and "fair p s"
    and "sp_rfd (tr_pipe s) = sp_rfd p" "sp_wfd (tr_pipe s) = sp_wfd p"
  shows "carried s s' \<and> (\<exists>log. w_log (tr_w s') = w_log (tr_w s) @ log \<and> list_all is_splice log
    \<and> (list_all (splice_ok p) log \<longrightarrow> spliced p remain (n - written) e (sp_data (tr_pipe s') - sp_data (tr_pipe s)) log
      \<and> (\<not> h \<longrightarrow> e \<noteq> None \<longrightarrow> \<not> handled \<and> taken_in p log = 0)))"
  using assms
proof (induction "tr_todo s" arbitrary: s remain written handled rule: less_induct)
  case less
  define lim where "lim = (if maxSpliceSize > remain then remain else maxSpliceSize)"
  note loop = splice_loop.simps [of remain written handled s, unfolded Let_def less.prems(3,4), folded lim_def]
  show ?case
  proof (cases "remain > 0")
    case False
    then have "s' = s" "n = written" "e = None" using less.prems(1) by (simp_all add: loop)
    then show ?thesis using False carried_refl by (intro conjI exI [of _ "[]"]) (simp_all add: spliced_def)
  next
    case pos: True
    have lim: "0 < lim" "lim \<le> remain" using pos by (auto simp: lim_def maxSpliceSize_def)
    obtain s1 inPipe e1 where d: "on_src (spliceDrain (sp_wfd p) lim) s = (s1, Ret (inPipe, e1))"
      using less.prems(1) pos by (auto simp: loop split: prod.splits outcome.splits)
    obtain log1 where log1: "w_log (tr_w s1) = w_log (tr_w s) @ log1" "carried s s1" "tr_pipe s1 = tr_pipe s" "list_all is_splice log1"
      "list_all (splice_ok p) log1 \<Longrightarrow> taken_in p log1 = max 0 inPipe \<and> given_out p log1 = 0 \<and> inPipe \<le> max 0 lim
        \<and> (e1 = None \<longrightarrow> 0 \<le> inPipe \<and> (inPipe = 0 \<longrightarrow> at_end log1)) \<and> (e1 \<noteq> None \<longrightarrow> inPipe \<le> 0)"
      using drain_transfer [OF d less.prems(2)] by blast
    show ?thesis
    proof (cases "e1 \<noteq> None \<or> inPipe = 0")
      case True
      then have "s' = s1" "n = written" "e = e1" "h = (handled \<or> e1 \<noteq> Some (Sys EINVAL))" using less.prems(1) pos by (auto simp: loop d)
      then show ?thesis using log1 True lim by (intro conjI exI [of _ log1]) (auto simp: spliced_def)
    next
      case False
      have f1: "fair p (add_data inPipe s1)" using carried_fair [OF log1(2) less.prems(2)] by simp
      obtain s2 m e2 where u: "on_dst (splicePump (sp_rfd p) inPipe) (add_data inPipe s1) = (s2, Ret (m, e2))"
        using less.prems(1) pos False by (auto simp: loop d split: prod.splits outcome.splits)
      obtain log2 where log2: "w_log (tr_w s2) = w_log (tr_w s1) @ log2" "carried s1 s2" "tr_pipe s2 = tr_pipe (add_data inPipe s1)" "list_all is_splice log2"
        "list_all (splice_ok p) log2 \<Longrightarrow> given_out p log2 = m \<and> taken_in p log2 = 0 \<and> m \<le> max 0 inPipe \<and> (e2 = None \<longrightarrow> m = max 0 inPipe)"
        using pump_transfer [OF u f1] by (auto simp: carried_def add_data_def)
      define k where "k = (if m > 0 then m else 0)"
      define s3 where "s3 = (if m > 0 then add_data (- m) s2 else s2)"
      have s3: "tr_w s3 = tr_w s2" "carried s s3" "sp_data (tr_pipe s3) = sp_data (tr_pipe s) + inPipe - k"
        using carried_trans [OF log1(2) log2(2)] log1(3) log2(3) by (simp_all add: s3_def k_def)
      have run: "splice_loop remain written handled s =
          (if e2 = None then splice_loop (remain - k) (written + k) (handled \<or> e1 \<noteq> Some (Sys EINVAL)) s3
           else (s3, Ret (written + k, handled \<or> e1 \<noteq> Some (Sys EINVAL), e2)))"
        unfolding loop using pos False by (simp add: d u k_def s3_def)
      have both: "given_out p (log1 @ log2) = k \<and> taken_in p (log1 @ log2) = inPipe \<and> k \<le> inPipe \<and> inPipe \<le> remain \<and> (e2 = None \<longrightarrow> k = inPipe)"
        if "list_all (splice_ok p) (log1 @ log2)"
        using log1(5) log2(5) that False lim given_out_nonneg [of p log2] by (auto simp: k_def)
      show ?thesis
      proof (cases e2)
        case (Some x)
        moreover have "e1 = None" using False by simp
        ultimately have "s' = s3" "n = written + k" "e = Some x" h using less.prems(1) run by simp_all
        then show ?thesis using log1(1,4) log2(1,4) s3 both pos
          by (intro conjI exI [of _ "log1 @ log2"]) (auto simp: spliced_def simp del: filter_append)
      next
        case None
        have less: "tr_todo s3 < tr_todo s"
          using splice_round_todo [of s1 inPipe "sp_wfd p" lim s s2 m e2 "sp_rfd p" inPipe "add_data inPipe"] d u s3(1) False by simp
        have pp: "sp_rfd (tr_pipe s3) = sp_rfd p" "sp_wfd (tr_pipe s3) = sp_wfd p" using s3(2) less.prems(3,4) by (simp_all add: carried_def)
        have "splice_loop (remain - k) (written + k) (handled \<or> e1 \<noteq> Some (Sys EINVAL)) s3 = (s', Ret (n, h, e))"
          using run less.prems(1) None by simp
        from less.hyps [OF less this carried_fair [OF s3(2) less.prems(2)] pp] obtain log where c: "carried s3 s'"
          and log: "w_log (tr_w s') = w_log (tr_w s3) @ log" "list_all is_splice log"
            "list_all (splice_ok p) log \<longrightarrow> spliced p (remain - k) (n - (written + k)) e (sp_data (tr_pipe s') - sp_data (tr_pipe s3)) log"
            "list_all (splice_ok p) log \<Longrightarrow> \<not> h \<Longrightarrow> e = None"
          using False by auto
        have "spliced p remain (n - written) e (sp_data (tr_pipe s') - sp_data (tr_pipe s)) ((log1 @ log2) @ log)"
          if "list_all (splice_ok p) ((log1 @ log2) @ log)"
        proof -
          have b: "given_out p (log1 @ log2) = k" "taken_in p (log1 @ log2) = k" "k \<le> remain" "k = inPipe"
            using both that None by (simp_all del: filter_append)
          have "spliced p (remain - k) (n - (written + k)) e (sp_data (tr_pipe s') - sp_data (tr_pipe s)) log"
            using log(3) that s3(3) b(4) by simp
          from spliced_more [OF this b(1,2) pos b(3)] show ?thesis by simp
        qed
        then show ?thesis using carried_trans [OF s3(2) c] log(1,2,4) log1(1,4) log2(1,4) s3(1)
          by (intro conjI exI [of _ "(log1 @ log2) @ log"]) (simp_all del: filter_append)
      qed
    qed
  qed
qed

text \<open>The pipe that is used is empty when all pipes of the pool are.\<close>

lemma getPipe_empty:
  assumes "getPipe s = (s1, Ret ('''', None))" and "\<forall>q\<in>set (tr_pool s). sp_data q = 0"
  shows "sp_data (tr_pipe s1) = 0" "\<forall>q\<in>set (tr_pool s1). sp_data q = 0"
  using assms by (auto simp: getPipe_def newPipe_def andThen_def ret_def on_dst_def split: list.splits prod.splits outcome.splits option.splits if_splits)

lemma splice_body_log:
  assumes "splice_body remain s = (s', Ret (n, h, sc, e))" and "fair (tr_pipe s) s"
  obtains log where "carried s s'" "w_log (tr_w s') = w_log (tr_w s) @ log" "list_all is_splice log"
    "list_all (splice_ok (tr_pipe s)) log \<Longrightarrow> spliced (tr_pipe s) remain n e (sp_data (tr_pipe s') - sp_data (tr_pipe s)) log
      \<and> (\<not> h \<longrightarrow> e \<noteq> None \<and> taken_in (tr_pipe s) log = 0)"
proof -
  obtain h' where "splice_loop remain 0 False s = (s', Ret (n, h', e))" "e \<noteq> None \<and> h = h' \<or> e = None \<and> h"
    using assms(1) by (auto simp: splice_body_def andThen_def ret_def split: prod.splits outcome.splits if_splits)
  from splice_loop_log [OF this(1) assms(2) refl refl] this(2) show thesis using that by auto
qed

lemma syscall_Ret: "syscall c w = (w', Ret a) \<Longrightarrow> w_log w' = w_log w @ [(c, a)] \<and> w_fd w' = w_fd w"
  using syscall_log wait_fd(3) by blast

lemma putPipe_log:
  assumes "putPipe s = (s', Ret x)"
  shows "sp_data (tr_pipe s) = 0 \<Longrightarrow> tr_pool s' = tr_pipe s # tr_pool s \<and> tr_w s' = tr_w s \<and> tr_src s' = tr_src s"
    and "sp_data (tr_pipe s) \<noteq> 0 \<Longrightarrow> tr_pool s' = tr_pool s \<and> w_fd (tr_w s') = w_fd (tr_w s) \<and> tr_src s' = tr_src s
      \<and> (\<exists>a b. w_log (tr_w s') = w_log (tr_w s) @ [(SysClose (sp_rfd (tr_pipe s)), a), (SysClose (sp_wfd (tr_pipe s)), b)])"
  using assms by (auto simp: putPipe_def destroyPipe_def andThen_Ret on_simps ret_def dest!: syscall_Ret)

section \<open>copy_file_range\<close>

text \<open>A step that leaves a part of the state alone.\<close>

definition preserves :: "('s \<Rightarrow> 'a) \<Rightarrow> ('s, 'r) prog \<Rightarrow> bool" where
  "preserves f m \<longleftrightarrow> (\<forall>s s' r. m s = (s', r) \<longrightarrow> f s' = f s)"

lemma preservesD: "preserves f m \<Longrightarrow> m s = (s', r) \<Longrightarrow> f s' = f s"
  by (auto simp: preserves_def)

lemma preserves_steps:
  "preserves f (ret x)" "preserves f m \<Longrightarrow> (\<And>x. preserves f (g x)) \<Longrightarrow> preserves f (andThen m g)"
  "preserves f m \<Longrightarrow> preserves f d \<Longrightarrow> preserves f (deferring m d)"
  unfolding preserves_def andThen_def ret_def deferring_def by (fastforce split: prod.splits outcome.splits)+

lemma preserves_orReturn: "preserves f m \<Longrightarrow> preserves f rest \<Longrightarrow> preserves f (orReturn m h rest)"
  unfolding orReturn_def by (intro preserves_steps(2)) (auto simp: preserves_steps(1) split: option.splits)

lemma preserves_reader: "(\<And>x. preserves f (m x)) \<Longrightarrow> preserves f (\<lambda>s. m (g s) s)"
  by (simp add: preserves_def)

abbreviation dst_of :: "transfer \<Rightarrow> FD" where
  "dst_of s \<equiv> w_fd (tr_w s)"

lemma preserves_call: "preserves dst_of (on_dst (ignoringEINTRIO c))" "preserves tr_src (on_dst m)" "preserves dst_of (on_src m)"
  using keepsD [OF keeps_ignoringEINTRIO [OF stable_fd]] by (auto simp: preserves_def on_simps)

text \<open>A body under the lock of one of the two descriptors.\<close>

lemma dst_locked:
  assumes "orReturn (on_dst writeLock) h (deferring body (on_dst writeUnlock)) s = (s', Ret r)"
    and "free_lock False (fd_fdmu (dst_of s))" and "preserves dst_of body"
  obtains mu mu' s2 where "body (s\<lparr>tr_w := set_fd (fd_fdmu_update (\<lambda>_. mu)) (tr_w s)\<rparr>) = (s2, Ret r)"
    "s' = s2\<lparr>tr_w := set_fd (fd_fdmu_update (\<lambda>_. mu')) (tr_w s2)\<rparr>" "same_mutex mu' (fd_fdmu (dst_of s))"
proof -
  obtain mu where acq: "rwlock False (fd_fdmu (dst_of s)) = (mu, Ret True)" using wl.acquire_free [OF assms(2)] by blast
  obtain mu' where rel: "rwunlock False mu = (mu', Ret False)" "same_mutex mu' (fd_fdmu (dst_of s))"
    using wl.release_taken [OF assms(2) acq] by blast
  define s1 where "s1 = s\<lparr>tr_w := set_fd (fd_fdmu_update (\<lambda>_. mu)) (tr_w s)\<rparr>"
  have "on_dst writeLock s = (s1, Ret None)"
    using acq by (simp add: on_dst_def writeLock_def andThen_def with_mutex_def closing_unless_def s1_def)
  then obtain s2 x where b: "body s1 = (s2, Ret r)" and u: "on_dst writeUnlock s2 = (s', Ret x)"
    using assms(1) by (auto simp: orReturn_def andThen_def deferring_def split: prod.splits outcome.splits)
  have "dst_of s2 = dst_of s1" using preservesD [OF assms(3) b] .
  then have "fd_fdmu (dst_of s2) = mu" by (simp add: s1_def)
  then have "s' = s2\<lparr>tr_w := set_fd (fd_fdmu_update (\<lambda>_. mu')) (tr_w s2)\<rparr>"
    using u rel(1) by (auto simp: on_dst_def writeUnlock_def andThen_def with_mutex_def ret_def)
  then show thesis using that b rel(2) unfolding s1_def by blast
qed

lemma src_locked:
  assumes "orReturn (on_src readLock) h (deferring body (on_src readUnlock)) s = (s', Ret r)"
    and "free_lock True (fd_fdmu (tr_src s))" and "preserves tr_src body"
  obtains mu mu' s2 where "body (s\<lparr>tr_src := (tr_src s)\<lparr>fd_fdmu := mu\<rparr>\<rparr>) = (s2, Ret r)"
    "s' = s2\<lparr>tr_src := (tr_src s2)\<lparr>fd_fdmu := mu'\<rparr>\<rparr>" "same_mutex mu' (fd_fdmu (tr_src s))"
proof -
  obtain mu where acq: "rwlock True (fd_fdmu (tr_src s)) = (mu, Ret True)" using rl.acquire_free [OF assms(2)] by blast
  obtain mu' where rel: "rwunlock True mu = (mu', Ret False)" "same_mutex mu' (fd_fdmu (tr_src s))"
    using rl.release_taken [OF assms(2) acq] by blast
  define s1 where "s1 = s\<lparr>tr_src := (tr_src s)\<lparr>fd_fdmu := mu\<rparr>\<rparr>"
  have "on_src readLock s = (s1, Ret None)"
    using acq by (simp add: on_src_def readLock_def andThen_def with_mutex_def closing_unless_def s1_def set_fd_def)
  then obtain s2 x where b: "body s1 = (s2, Ret r)" and u: "on_src readUnlock s2 = (s', Ret x)"
    using assms(1) by (auto simp: orReturn_def andThen_def deferring_def split: prod.splits outcome.splits)
  have "tr_src s2 = tr_src s1" using preservesD [OF assms(3) b] .
  then have "fd_fdmu (tr_src s2) = mu" by (simp add: s1_def)
  then have "s' = s2\<lparr>tr_src := (tr_src s2)\<lparr>fd_fdmu := mu'\<rparr>\<rparr>"
    using u rel(1) by (auto simp: on_src_def readUnlock_def andThen_def with_mutex_def ret_def set_fd_def)
  then show thesis using that b rel(2) unfolding s1_def by blast
qed

fun copy_ok :: "syscall \<times> answer \<Rightarrow> bool" where
  "copy_ok (SysCopyFileRange src dst lim, a) = answer_ok 0 lim a"
| "copy_ok _ = True"

definition locks_free :: "transfer \<Rightarrow> bool" where
  "locks_free s \<longleftrightarrow> free_lock True (fd_fdmu (tr_src s)) \<and> free_lock False (fd_fdmu (dst_of s))"

lemma carried_locks: "carried s s' \<Longrightarrow> locks_free s \<Longrightarrow> locks_free s'"
  unfolding carried_def locks_free_def using same_fdD(2) by metis

lemma copyFileRange_log:
  assumes "copyFileRange lim s = (s', Ret (n, e))" and "locks_free s"
  obtains log where "w_log (tr_w s') = w_log (tr_w s) @ log" "carried s s'"
    "list_all copy_ok log \<Longrightarrow> bytes_moved log = max 0 n \<and> n \<le> max 0 lim \<and> (e = None \<longrightarrow> 0 \<le> n \<and> (n = 0 \<longrightarrow> at_end log)) \<and> (e \<noteq> None \<longrightarrow> n \<le> 0)"
proof -
  let ?call = "\<lambda>c. andThen (on_dst (ignoringEINTRIO c)) (\<lambda>a. ret (a_n a, a_err a))"
  let ?body = "\<lambda>s. ?call (SysCopyFileRange (fd_Sysfd (tr_src s)) (fd_Sysfd (dst_of s)) lim) s"
  have p1: "preserves tr_src ?body"
    by (rule preserves_reader [where m = ?call]) (intro preserves_steps(1,2) preserves_call(2))
  have p1': "preserves dst_of ?body"
    by (rule preserves_reader [where m = ?call]) (intro preserves_steps(1,2) preserves_call(1))
  have p2: "preserves dst_of (orReturn (on_src readLock) (\<lambda>e. (0, Some e)) (deferring ?body (on_src readUnlock)))"
    by (intro preserves_orReturn preserves_steps(3) preserves_call(3) p1')
  have free: "free_lock False (fd_fdmu (dst_of s))" "free_lock True (fd_fdmu (tr_src s))"
    using assms(2) by (simp_all add: locks_free_def)
  obtain mu mu' s2 where d: "orReturn (on_src readLock) (\<lambda>e. (0, Some e)) (deferring ?body (on_src readUnlock))
      (s\<lparr>tr_w := set_fd (fd_fdmu_update (\<lambda>_. mu)) (tr_w s)\<rparr>) = (s2, Ret (n, e))"
    "s' = s2\<lparr>tr_w := set_fd (fd_fdmu_update (\<lambda>_. mu')) (tr_w s2)\<rparr>" "same_mutex mu' (fd_fdmu (dst_of s))"
    by (rule dst_locked [OF assms(1) [unfolded copyFileRange_def] free(1) p2])
  define s1 where "s1 = s\<lparr>tr_w := set_fd (fd_fdmu_update (\<lambda>_. mu)) (tr_w s)\<rparr>"
  have s1: "tr_src s1 = tr_src s" "tr_w s1 = set_fd (fd_fdmu_update (\<lambda>_. mu)) (tr_w s)" by (simp_all add: s1_def)
  obtain nu nu' s3 where c: "?body (s1\<lparr>tr_src := (tr_src s1)\<lparr>fd_fdmu := nu\<rparr>\<rparr>) = (s3, Ret (n, e))"
    "s2 = s3\<lparr>tr_src := (tr_src s3)\<lparr>fd_fdmu := nu'\<rparr>\<rparr>" "same_mutex nu' (fd_fdmu (tr_src s1))"
    by (rule src_locked [OF d(1) [folded s1_def] free(2) [folded s1(1)] p1])
  let ?c = "SysCopyFileRange (fd_Sysfd (tr_src s)) (fd_Sysfd (dst_of s)) lim"
  obtain w a where w: "ignoringEINTRIO ?c (set_fd (fd_fdmu_update (\<lambda>_. mu)) (tr_w s)) = (w, Ret a)"
    and s3: "s3 = s\<lparr>tr_w := w, tr_src := (tr_src s)\<lparr>fd_fdmu := nu\<rparr>\<rparr>" and a: "n = a_n a" "e = a_err a"
    using c(1) s1 by (auto simp: s1_def andThen_Ret on_simps ret_def)
  obtain as where as: "w_log w = w_log (set_fd (fd_fdmu_update (\<lambda>_. mu)) (tr_w s)) @ attempts ?c as a" "\<forall>b\<in>set as. a_err b = eintr"
    "w_fd w = dst_of (s\<lparr>tr_w := set_fd (fd_fdmu_update (\<lambda>_. mu)) (tr_w s)\<rparr>)"
    by (rule ignoringEINTRIO_log [OF w]) simp
  have s': "tr_w s' = set_fd (fd_fdmu_update (\<lambda>_. mu')) w" "tr_src s' = (tr_src s)\<lparr>fd_fdmu := nu'\<rparr>" "tr_pool s' = tr_pool s" "tr_pipe s' = tr_pipe s"
    using d(2) c(2) s3 by simp_all
  have "carried s s'" using d(3) c(3) as(3) s1(1) by (simp add: carried_def same_fd_def s')
  moreover have "bytes_moved (attempts ?c as a) = max 0 n" "n \<le> max 0 lim" "e = None \<longrightarrow> 0 \<le> n \<and> (n = 0 \<longrightarrow> at_end (attempts ?c as a))" "e \<noteq> None \<longrightarrow> n \<le> 0"
    if "list_all copy_ok (attempts ?c as a)"
  proof -
    have "a_n b = -1" if "b \<in> set as" for b
      using \<open>list_all copy_ok _\<close> as(2) that by (auto simp: attempts_def list_all_iff answer_ok_def)
    then have "bytes_moved (map (Pair ?c) as) = 0" by (induction as) simp_all
    then show "bytes_moved (attempts ?c as a) = max 0 n" using a by (simp add: attempts_def)
    have "answer_ok 0 lim a" using that by (simp add: attempts_def)
    then show "n \<le> max 0 lim" "e = None \<longrightarrow> 0 \<le> n \<and> (n = 0 \<longrightarrow> at_end (attempts ?c as a))" "e \<noteq> None \<longrightarrow> n \<le> 0"
      using a by (auto simp: answer_ok_def attempts_def at_end_def split: if_splits)
  qed
  ultimately show thesis using that [of "attempts ?c as a"] as(1) s'(1) by simp
qed

lemma copy_range_loop_log:
  assumes "copy_range_loop remain written s = (s', Ret (n, h, e))" and "locks_free s"
  shows "carried s s' \<and> (\<exists>log. w_log (tr_w s') = w_log (tr_w s) @ log
    \<and> (list_all copy_ok log \<longrightarrow> 0 \<le> written \<longrightarrow> bytes_moved log \<le> max 0 remain \<and> (if h then n = written + bytes_moved log else n = 0 \<and> e = None)
      \<and> (h \<longrightarrow> e = None \<longrightarrow> bytes_moved log = max 0 remain \<or> at_end log)))"
  using assms
proof (induction "tr_todo s" arbitrary: s remain written rule: less_induct)
  case less
  define lim where "lim = (if remain > maxCopyFileRangeRound then maxCopyFileRangeRound else remain)"
  note loop = copy_range_loop.simps [of remain written s, unfolded Let_def, folded lim_def]
  show ?case
  proof (cases "remain > 0")
    case False
    then have "s' = s" "n = written" "h" "e = None" using less.prems(1) by (simp_all add: loop)
    then show ?thesis using False carried_refl by (intro conjI exI [of _ "[]"]) simp_all
  next
    case pos: True
    have lim: "0 < lim" "lim \<le> remain" using pos by (auto simp: lim_def maxCopyFileRangeRound_def)
    obtain s1 k e1 where c: "copyFileRange lim s = (s1, Ret (k, e1))"
      using less.prems(1) pos by (auto simp: loop split: prod.splits outcome.splits)
    obtain log1 where log1: "w_log (tr_w s1) = w_log (tr_w s) @ log1" "carried s s1"
      "list_all copy_ok log1 \<Longrightarrow> bytes_moved log1 = max 0 k \<and> k \<le> max 0 lim \<and> (e1 = None \<longrightarrow> 0 \<le> k \<and> (k = 0 \<longrightarrow> at_end log1)) \<and> (e1 \<noteq> None \<longrightarrow> k \<le> 0)"
      using copyFileRange_log [OF c less.prems(2)] by blast
    have run: "copy_range_loop remain written s =
      (if e1 = None \<and> k \<noteq> 0 then copy_range_loop (remain - k) (written + k) s1
       else if e1 = None then (s1, Ret (if written = 0 then (0, False, None) else (written, True, None)))
       else if e1 \<in> {Some (Sys ENOSYS), Some (Sys EXDEV), Some (Sys EINVAL), Some (Sys EIO), Some (Sys EOPNOTSUPP), Some (Sys EPERM)} then (s1, Ret (0, False, None))
       else (s1, Ret (written, True, e1)))"
      unfolding loop using pos by (simp add: c)
    show ?thesis
    proof (cases "e1 = None \<and> k \<noteq> 0")
      case False
      then have "s' = s1" "if h then n = written \<and> e = e1 else n = 0 \<and> e = None"
        using less.prems(1) unfolding run by (auto split: if_splits)
      then show ?thesis using log1 False lim by (intro conjI exI [of _ log1]) (auto split: if_splits)
    next
      case True
      then have go: "copy_range_loop (remain - k) (written + k) s1 = (s', Ret (n, h, e))" using less.prems(1) run by simp
      have "tr_todo s1 < tr_todo s" using copyFileRange_todo c True by blast
      from less.hyps [OF this go carried_locks [OF log1(2) less.prems(2)]] obtain log where ih: "carried s1 s'"
        "w_log (tr_w s') = w_log (tr_w s1) @ log"
        "list_all copy_ok log \<longrightarrow> 0 \<le> written + k \<longrightarrow> bytes_moved log \<le> max 0 (remain - k) \<and> (if h then n = written + k + bytes_moved log else n = 0 \<and> e = None)
          \<and> (h \<longrightarrow> e = None \<longrightarrow> bytes_moved log = max 0 (remain - k) \<or> at_end log)"
        by blast
      then show ?thesis using log1 True lim carried_trans [OF log1(2) ih(1)] at_end_append [of log log1]
        by (intro conjI exI [of _ "log1 @ log"]) (auto split: if_splits)
    qed
  qed
qed

section \<open>Closed descriptors\<close>

lemma transfers_closed:
  assumes "v_closed (mview (fd_fdmu (w_fd w)))" and "e = errClosing (fd_isFile (w_fd w))"
  shows "SendFile src remain w = (w, Ret (0, Some e, False)) \<and> spliceDrain pipefd lim w = (w, Ret (0, Some e))
    \<and> splicePump pipefd k w = (w, Ret (0, Some e))"
  by (simp add: rl.guarded_closed [OF assms(1)] wl.guarded_closed [OF assms(1)] assms(2) SendFile_def spliceDrain_def splicePump_def readLock_def writeLock_def)

lemma sockopts_closed:
  assumes "v_closed (mview (fd_fdmu (w_fd w)))" and "e = errClosing (fd_isFile (w_fd w))"
  shows "fd_setsockopt level name o1 w = (w, Ret (Some e)) \<and> fd_SetsockoptInt level name n w = (w, Ret (Some e))
    \<and> fd_SetsockoptByte level name b w = (w, Ret (Some e)) \<and> fd_SetsockoptInet4Addr level name a4 w = (w, Ret (Some e))
    \<and> fd_SetsockoptLinger level name l w = (w, Ret (Some e)) \<and> fd_SetsockoptIPMreq level name m4 w = (w, Ret (Some e))
    \<and> fd_SetsockoptIPMreqn level name mn w = (w, Ret (Some e)) \<and> fd_SetsockoptIPv6Mreq level name m6 w = (w, Ret (Some e))
    \<and> fd_GetsockoptInt level name w = (w, Ret (-1, Some e))"
  by (simp add: rf.guarded_closed [OF assms(1)] assms(2) fd_SetsockoptInt_def fd_SetsockoptByte_def fd_SetsockoptInet4Addr_def fd_SetsockoptLinger_def
      fd_SetsockoptIPMreq_def fd_SetsockoptIPMreqn_def fd_SetsockoptIPv6Mreq_def fd_setsockopt_def ref_call_def
      fd_GetsockoptInt_def fd_incref_def)

section \<open>Properties\<close>

text \<open>
  C22. A closed descriptor refuses at once every method that takes one of its locks or a reference: all the reading and writing methods,
  the \<open>Inet\<close> forms, the raw forms, accepting, duplicating, seeking, the attributes, the deadlines, the socket options, \<open>Close\<close> itself, and
  \<open>SendFile\<close> and the two halves of \<open>Splice\<close> on it. Nothing is read, written, accepted or registered, no system call is made, the
  state is untouched, and the error is the closing error of its kind (file or network). The methods left are \<open>Init\<close>, which runs
  before the descriptor is shared, and \<open>WaitWrite\<close>, which only asks the poller and gives the poller's error.
\<close>

theorem fd_closed_refuses:
  assumes "v_closed (mview (fd_fdmu (w_fd w)))" and "e = errClosing (fd_isFile (w_fd w))"
  shows "fd_Read lp w = (w, Ret (0, Some e)) \<and> fd_Pread lp off w = (w, Ret (0, Some e))
    \<and> fd_ReadFrom lp w = (w, Ret (0, None, Some e)) \<and> fd_ReadFromInet4 lp w = (w, Ret (0, Some e))
    \<and> fd_ReadFromInet6 lp w = (w, Ret (0, Some e)) \<and> fd_ReadMsg lp loob flags w = (w, Ret (0, 0, 0, None, Some e))
    \<and> fd_ReadMsgInet4 lp loob flags w = (w, Ret (0, 0, 0, Some e))
    \<and> fd_ReadMsgInet6 lp loob flags w = (w, Ret (0, 0, 0, Some e)) \<and> fd_Accept w = (w, Ret (-1, None, '''', Some e))
    \<and> fd_RawRead w = (w, Ret (Some e)) \<and> fd_Write p w = (w, Ret (0, Some e)) \<and> fd_Pwrite p off w = (w, Ret (0, Some e))
    \<and> fd_WriteOnce p w = (w, Ret (0, Some e)) \<and> fd_WriteTo p sa w = (w, Ret (0, Some e))
    \<and> fd_WriteToInet4 p sa w = (w, Ret (0, Some e)) \<and> fd_WriteToInet6 p sa w = (w, Ret (0, Some e))
    \<and> fd_WriteMsg p loob sa w = (w, Ret (0, 0, Some e)) \<and> fd_WriteMsgInet4 p loob sa w = (w, Ret (0, 0, Some e))
    \<and> fd_WriteMsgInet6 p loob sa w = (w, Ret (0, 0, Some e)) \<and> fd_Writev v w = (w, Ret (v, 0, Some e))
    \<and> fd_RawWrite w = (w, Ret (Some e)) \<and> fd_Dup w = (w, Ret (-1, '''', Some e))
    \<and> fd_Seek off whence w = (w, Ret (0, Some e)) \<and> fd_ReadDirent lp w = (w, Ret (0, Some e))
    \<and> fd_Shutdown how w = (w, Ret (Some e)) \<and> fd_Fchdir w = (w, Ret (Some e)) \<and> fd_Fchmod perm w = (w, Ret (Some e))
    \<and> fd_Fstat w = (w, Ret (Some e)) \<and> fd_Fchown uid gid w = (w, Ret (Some e)) \<and> fd_Ftruncate off w = (w, Ret (Some e))
    \<and> fd_Fsync w = (w, Ret (Some e)) \<and> fd_RawControl w = (w, Ret (Some e))
    \<and> setDeadlineImpl until mode w = (w, Ret (Some e)) \<and> fd_SetDeadline until w = (w, Ret (Some e))
    \<and> fd_SetReadDeadline until w = (w, Ret (Some e)) \<and> fd_SetWriteDeadline until w = (w, Ret (Some e))
    \<and> fd_SetBlocking w = (w, Ret (Some e)) \<and> fd_Close w = (w, Ret (Some e))
    \<and> fd_setsockopt level name o1 w = (w, Ret (Some e)) \<and> fd_SetsockoptInt level name n w = (w, Ret (Some e))
    \<and> fd_SetsockoptByte level name b w = (w, Ret (Some e)) \<and> fd_SetsockoptInet4Addr level name a4 w = (w, Ret (Some e))
    \<and> fd_SetsockoptLinger level name l w = (w, Ret (Some e)) \<and> fd_SetsockoptIPMreq level name m4 w = (w, Ret (Some e))
    \<and> fd_SetsockoptIPMreqn level name mn w = (w, Ret (Some e)) \<and> fd_SetsockoptIPv6Mreq level name m6 w = (w, Ret (Some e))
    \<and> fd_GetsockoptInt level name w = (w, Ret (-1, Some e)) \<and> SendFile src remain w = (w, Ret (0, Some e, False))
    \<and> spliceDrain pipefd lim w = (w, Ret (0, Some e)) \<and> splicePump pipefd k w = (w, Ret (0, Some e))"
  by (simp only: readers_closed [OF assms] writers_closed [OF assms] refs_closed [OF assms] sockopts_closed [OF assms]
      transfers_closed [OF assms] simp_thms)

definition closed_world :: world where
  "closed_world = set_fd (fd_fdmu_update (\<lambda>mu. mu\<lparr>mu_state := 1\<rparr>)) (a_world [] [ans 5 None])"

theorem fd_closed_refuses_witness:
  "fd_Read 10 closed_world = (closed_world, Ret (0, Some ErrNetClosing))"
proof -
  have h: "v_closed (mview (fd_fdmu (w_fd closed_world)))" "ErrNetClosing = errClosing (fd_isFile (w_fd closed_world))"
    by code_simp+
  show ?thesis by (rule fd_closed_refuses [OF h, THEN conjunct1])
qed

text \<open>
  \<open>SendFile\<close> on a free write lock reports what the kernel moved: the count is the sum of the answers and never more than
  was asked for; without an error it is all that was asked for, or the kernel said that the file is at its end; the transfer counts as
  handled exactly when there is no error; each call asks for at most 4 MB; the lock is given back.
\<close>

theorem sendfile_counts:
  assumes "free_lock False (fd_fdmu (w_fd w))" and "SendFile src remain w = (w', Ret (n, e, h))"
    and "w_log w' = w_log w @ log" and "list_all sendfile_ok log"
  shows "n = bytes_moved log \<and> 0 \<le> n \<and> n \<le> max 0 remain \<and> h = (e = None) \<and> (e = None \<longrightarrow> n = max 0 remain \<or> at_end log)
    \<and> list_all (sendfile_call (fd_Sysfd (w_fd w)) src) log \<and> balanced w w'"
proof -
  have "runs_body (orReturn prepareWrite (\<lambda>e. (0, Some e, False)) (sendfile_loop src remain 0)) w w' (Ret (n, e, h))"
    by (rule writer_runs [OF assms(1) keeps_fd_orReturn [OF keeps_fd_prepare(2) keeps_sendfile_loop] assms(2) [unfolded SendFile_def]]) simp
  then consider (failed) x where "(n, e, h) = (0, Some x, False)" "w_log w' = w_log w" "balanced w w'"
    | (ran) w1 w2 where "sendfile_loop src remain 0 w1 = (w2, Ret (n, e, h))" "w_log w1 = w_log w" "w_log w' = w_log w2" "balanced w w'"
        "fd_Sysfd (w_fd w1) = fd_Sysfd (w_fd w)"
    by (rule prepared [OF _ disjI2 [OF refl]]) blast+
  then show ?thesis
  proof cases
    case (ran w1 w2)
    then show ?thesis using sendfile_loop_log [OF ran(1)] assms(3,4) bytes_moved_nonneg [of log] by auto
  qed (use assms(3) in simp)
qed

definition a_sendfile :: world where
  "a_sendfile = a_world [] [ans (-1) eintr, ans 60 None, ans 0 None]"

theorem sendfile_counts_witness:
  "\<exists>w' n log. SendFile 9 100 a_sendfile = (w', Ret (n, None, True)) \<and> w_log w' = w_log a_sendfile @ log \<and> n = 60 \<and> n = bytes_moved log \<and> at_end log"
proof -
  have run: "snd (SendFile 9 100 a_sendfile) = Ret (60, None, True)"
    "w_log (fst (SendFile 9 100 a_sendfile)) = w_log a_sendfile @
      [(SysSendfile 7 9 100, ans (-1) eintr), (SysSendfile 7 9 100, ans 60 None), (SysSendfile 7 9 40, ans 0 None)]"
    by code_simp+
  have ok: "list_all sendfile_ok [(SysSendfile 7 9 100, ans (-1) eintr), (SysSendfile 7 9 100, ans 60 None), (SysSendfile 7 9 40, ans 0 None)]"
    by code_simp
  have "free_lock False (fd_fdmu (w_fd a_sendfile))" unfolding a_sendfile_def by (rule a_world_free)
  moreover have e: "SendFile 9 100 a_sendfile = (fst (SendFile 9 100 a_sendfile), Ret (60, None, True))" using run(1) by (metis prod.collapse)
  ultimately have "60 = bytes_moved [(SysSendfile 7 9 100, ans (-1) eintr), (SysSendfile 7 9 100, ans 60 None), (SysSendfile 7 9 40, ans 0 None)]
      \<and> at_end [(SysSendfile 7 9 100, ans (-1) eintr), (SysSendfile 7 9 100, ans 60 None), (SysSendfile 7 9 40, ans 0 None)]"
    using sendfile_counts [OF _ e run(2) ok] by simp
  then show ?thesis using e run(2) by blast
qed

text \<open>
  C29. \<open>Splice\<close> between two descriptors whose locks are free, with a pipe from a pool of empty pipes or a new one, reports the bytes
  that have come out of the pipe to the destination; without an error nothing is left in the pipe, and the count is what was asked for
  or the source is at its end; a copy that it did not handle has taken nothing from the source. The pipe goes back to the pool only when it is empty; otherwise both its ends are closed, so that data
  of this connection never reaches another one. Both locks are given back.
\<close>

theorem splice_conserves:
  assumes "Splice remain s = (s', Ret (n, h, sc, e))" and "getPipe s = (s1, Ret ('''', None))" and "p = tr_pipe s1" and "fair p s1"
    and "\<forall>q\<in>set (tr_pool s). sp_data q = 0" and "w_log (tr_w s') = w_log (tr_w s1) @ log" and "list_all (splice_ok p) log"
  shows "n = given_out p log \<and> 0 \<le> n \<and> n \<le> max 0 remain \<and> n \<le> taken_in p log
    \<and> (e = None \<longrightarrow> taken_in p log = n \<and> (n = max 0 remain \<or> at_end log)) \<and> (\<not> h \<longrightarrow> e \<noteq> None \<and> taken_in p log = 0)
    \<and> (if taken_in p log = n then tr_pool s' = p # tr_pool s1 \<and> list_all is_splice log
       else tr_pool s' = tr_pool s1 \<and> (\<exists>moves a b. log = moves @ [(SysClose (sp_rfd p), a), (SysClose (sp_wfd p), b)] \<and> list_all is_splice moves))
    \<and> (\<forall>q\<in>set (tr_pool s'). sp_data q = 0) \<and> same_fd (tr_src s1) (tr_src s') \<and> same_fd (w_fd (tr_w s1)) (w_fd (tr_w s'))"
proof -
  note empty = getPipe_empty [OF assms(2,5)]
  have "deferring (splice_body remain) putPipe s1 = (s', Ret (n, h, sc, e))"
    using assms(1,2) by (simp add: Splice_def andThen_def)
  then obtain s2 x where b: "splice_body remain s1 = (s2, Ret (n, h, sc, e))" and put: "putPipe s2 = (s', Ret x)"
    by (auto simp: deferring_def split: prod.splits outcome.splits)
  obtain moves where m: "carried s1 s2" "w_log (tr_w s2) = w_log (tr_w s1) @ moves" "list_all is_splice moves"
      "list_all (splice_ok p) moves \<Longrightarrow> spliced p remain n e (sp_data (tr_pipe s2)) moves \<and> (\<not> h \<longrightarrow> e \<noteq> None \<and> taken_in p moves = 0)"
    using splice_body_log [OF b] assms(3,4) empty(1) by auto
  show ?thesis
  proof (cases "sp_data (tr_pipe s2) = 0")
    case True
    have "tr_pipe s2 = p" using True m(1) empty(1) assms(3) by (simp add: carried_def)
    then have put': "tr_pool s' = p # tr_pool s1" "log = moves" "tr_src s' = tr_src s2" "tr_w s' = tr_w s2"
      using putPipe_log(1) [OF put True] m(1,2) assms(6) by (auto simp: carried_def)
    then have "spliced p remain n e 0 log \<and> (\<not> h \<longrightarrow> e \<noteq> None \<and> taken_in p log = 0)" using m(4) assms(7) True by simp
    then show ?thesis
      using put' m(1,3) empty assms(3) given_out_nonneg [of p log] by (auto simp: spliced_def carried_def)
  next
    case False
    then obtain a b where put': "tr_pool s' = tr_pool s2" "w_fd (tr_w s') = w_fd (tr_w s2)" "tr_src s' = tr_src s2"
      "w_log (tr_w s') = w_log (tr_w s2) @ [(SysClose (sp_rfd (tr_pipe s2)), a), (SysClose (sp_wfd (tr_pipe s2)), b)]"
      using putPipe_log(2) [OF put] by blast
    have log: "log = moves @ [(SysClose (sp_rfd p), a), (SysClose (sp_wfd p), b)]" using put'(4) m(1,2) assms(3,6) by (simp add: carried_def)
    then have "given_out p log = given_out p moves" "taken_in p log = taken_in p moves" by simp_all
    moreover have "spliced p remain n e (sp_data (tr_pipe s2)) moves \<and> (\<not> h \<longrightarrow> e \<noteq> None \<and> taken_in p moves = 0)" using m(4) assms(7) log by simp
    ultimately show ?thesis
      using put' m(1,3) empty(2) False log given_out_nonneg [of p moves] by (auto simp: spliced_def carried_def)
  qed
qed

text \<open>A copy from descriptor 8 to the socket on 7, through the pipe with the ends 10 and 11.\<close>

definition a_pipe :: splicePipe where
  "a_pipe = \<lparr>sp_rfd = 10, sp_wfd = 11, sp_data = 0\<rparr>"

definition a_transfer :: "answer list \<Rightarrow> transfer" where
  "a_transfer io = \<lparr>tr_w = a_world [] io, tr_src = a_socket\<lparr>fd_Sysfd := 8, fd_runtimeCtx := 0\<rparr>, tr_pool = [a_pipe],
     tr_pipe = \<lparr>sp_rfd = -1, sp_wfd = -1, sp_data = 0\<rparr>\<rparr>"

lemma a_transfer_fair: "fair a_pipe ((a_transfer io)\<lparr>tr_pool := pool, tr_pipe := q\<rparr>)"
  using a_world_free [of _ "[]" "[]"] by (simp add: fair_def a_transfer_def a_pipe_def a_world_def a_socket_def)

definition a_broken_splice :: transfer where
  "a_broken_splice = a_transfer [ans 5 None, ans 3 None, ans (-1) (Some (Sys 32)), ans 0 None, ans 0 None]"

theorem splice_conserves_witness:
  "\<exists>s'. Splice 100 a_broken_splice = (s', Ret (3, True, ''splice'', Some (Sys 32))) \<and> tr_pool s' = []
     \<and> last (w_log (tr_w s')) = (SysClose 11, ans 0 None)"
proof -
  let ?log = "[(SysSplice 8 11 100 2, ans 5 None), (SysSplice 10 7 5 2, ans 3 None), (SysSplice 10 7 2 2, ans (-1) (Some (Sys 32))),
    (SysClose 10, ans 0 None), (SysClose 11, ans 0 None)]"
  let ?s1 = "a_broken_splice\<lparr>tr_pool := [], tr_pipe := a_pipe\<rparr>"
  have run: "snd (Splice 100 a_broken_splice) = Ret (3, True, ''splice'', Some (Sys 32))"
    "w_log (tr_w (fst (Splice 100 a_broken_splice))) = w_log (tr_w ?s1) @ ?log"
    by code_simp+
  have g: "getPipe a_broken_splice = (?s1, Ret ('''', None))" by (simp add: getPipe_def a_broken_splice_def a_transfer_def)
  have e: "Splice 100 a_broken_splice = (fst (Splice 100 a_broken_splice), Ret (3, True, ''splice'', Some (Sys 32)))"
    using run(1) by (metis prod.collapse)
  have f: "fair a_pipe ?s1" "\<forall>q\<in>set (tr_pool a_broken_splice). sp_data q = 0" "a_pipe = tr_pipe ?s1"
    using a_transfer_fair by (simp_all add: a_broken_splice_def a_transfer_def a_pipe_def)
  have ok: "list_all (splice_ok a_pipe) ?log" "taken_in a_pipe ?log \<noteq> 3" by code_simp+
  have "tr_pool (fst (Splice 100 a_broken_splice)) = []"
    using splice_conserves [OF e g f(3,1,2) run(2) ok(1)] ok(2) by simp
  then show ?thesis using e run(2) by (intro exI [of _ "fst (Splice 100 a_broken_splice)"]) simp
qed

text \<open>
  C30. \<open>CopyFileRange\<close> between files whose locks are free: when it says that it handled the copy, the count is what the kernel
  copied, never more than was asked for, and without an error it is all of it or the source is at its end; when it does not, it
  reports no byte and no error, whatever it copied before. Both locks are given back.
\<close>

theorem copy_range_counts:
  assumes "CopyFileRange version remain s = (s', Ret (n, h, e))" and "locks_free s"
    and "w_log (tr_w s') = w_log (tr_w s) @ log" and "list_all copy_ok log"
  shows "n \<le> bytes_moved log \<and> bytes_moved log \<le> max 0 remain \<and> (h \<longrightarrow> n = bytes_moved log) \<and> (\<not> h \<longrightarrow> n = 0 \<and> e = None)
    \<and> (h \<longrightarrow> e = None \<longrightarrow> n = max 0 remain \<or> at_end log) \<and> same_fd (tr_src s) (tr_src s') \<and> same_fd (dst_of s) (dst_of s')"
proof (cases "kernelVersion53 version")
  case True
  then have "copy_range_loop remain 0 s = (s', Ret (n, h, e))" using assms(1) by (simp add: CopyFileRange_def)
  from copy_range_loop_log [OF this assms(2)] show ?thesis
    using assms(3,4) bytes_moved_nonneg [of log] by (auto simp: carried_def split: if_splits)
next
  case False
  then have "s' = s" "n = 0" "\<not> h" "e = None" using assms(1) by (simp_all add: CopyFileRange_def ret_def)
  then show ?thesis using assms(3) by (simp add: same_fd_refl)
qed

text \<open>
  A copy of 100 bytes of which the first round copied 60 and the second answers \<open>EIO\<close>, as a file system on the network may: the result
  says that nothing was handled, and the caller starts over where the 60 bytes end, without counting them.
\<close>

definition a_broken_copy :: transfer where
  "a_broken_copy = a_transfer [ans 60 None, ans (-1) (Some (Sys EIO))]"

theorem copy_range_counts_witness:
  "\<exists>s' log. CopyFileRange (6, 1) 100 a_broken_copy = (s', Ret (0, False, None)) \<and> w_log (tr_w s') = w_log (tr_w a_broken_copy) @ log
     \<and> bytes_moved log = 60 \<and> same_fd (dst_of a_broken_copy) (dst_of s')"
proof -
  let ?log = "[(SysCopyFileRange 8 7 100, ans 60 None), (SysCopyFileRange 8 7 40, ans (-1) (Some (Sys EIO)))]"
  have run: "snd (CopyFileRange (6, 1) 100 a_broken_copy) = Ret (0, False, None)"
    "w_log (tr_w (fst (CopyFileRange (6, 1) 100 a_broken_copy))) = w_log (tr_w a_broken_copy) @ ?log"
    by code_simp+
  have ok: "list_all copy_ok ?log" "bytes_moved ?log = 60" by code_simp+
  have e: "CopyFileRange (6, 1) 100 a_broken_copy = (fst (CopyFileRange (6, 1) 100 a_broken_copy), Ret (0, False, None))"
    using run(1) by (metis prod.collapse)
  have "locks_free a_broken_copy"
    using a_world_free [of _ "[]" "[]"] by (simp add: locks_free_def a_broken_copy_def a_transfer_def a_world_def a_socket_def)
  from copy_range_counts [OF e this run(2) ok(1)] show ?thesis
    using e run(2) ok(2) by (intro exI [of _ "fst (CopyFileRange (6, 1) 100 a_broken_copy)"] exI [of _ ?log]) simp
qed

end
