(* ===== verification/NetUint128.thy ===== *)
theory NetUint128
  imports GoPrelude
begin

text \<open>
  \<^verbatim>\<open>net/netip/uint128.go\<close> and \<^verbatim>\<open>net/netip/leaf_alts.go\<close>: 128-bit values as two 64-bit words, and their
  byte encodings. \<open>u128\<close> is the 128-bit word a value stands for; each operation is the
  corresponding operation on words.
\<close>

section \<open>The type and its operations\<close>

record uint128 =
  hi :: u64
  lo :: u64

abbreviation u128_zero :: uint128 where
  "u128_zero \<equiv> \<lparr>hi = 0, lo = 0\<rparr>"

text \<open>Go's shifts by 64 and more give 0. The callers pass \<open>n \<le> 128\<close>.\<close>

definition mask6 :: "nat \<Rightarrow> uint128" where
  "mask6 n = \<lparr>hi = NOT (drop_bit n (NOT 0)), lo = push_bit (128 - n) (NOT 0)\<rparr>"

definition u128_isZero :: "uint128 \<Rightarrow> bool" where
  "u128_isZero u \<longleftrightarrow> hi u OR lo u = 0"

definition u128_and :: "uint128 \<Rightarrow> uint128 \<Rightarrow> uint128" where
  "u128_and u m = \<lparr>hi = hi u AND hi m, lo = lo u AND lo m\<rparr>"

definition u128_xor :: "uint128 \<Rightarrow> uint128 \<Rightarrow> uint128" where
  "u128_xor u m = \<lparr>hi = hi u XOR hi m, lo = lo u XOR lo m\<rparr>"

definition u128_or :: "uint128 \<Rightarrow> uint128 \<Rightarrow> uint128" where
  "u128_or u m = \<lparr>hi = hi u OR hi m, lo = lo u OR lo m\<rparr>"

definition u128_not :: "uint128 \<Rightarrow> uint128" where
  "u128_not u = \<lparr>hi = NOT (hi u), lo = NOT (lo u)\<rparr>"

text \<open>\<open>math/bits\<close>: sum and carry, difference and borrow.\<close>

definition Add64 :: "u64 \<Rightarrow> u64 \<Rightarrow> u64 \<Rightarrow> u64 \<times> u64" where
  "Add64 x y carry =
     (let sum = x + y + carry in (sum, drop_bit 63 ((x AND y) OR ((x OR y) AND NOT sum))))"

definition Sub64 :: "u64 \<Rightarrow> u64 \<Rightarrow> u64 \<Rightarrow> u64 \<times> u64" where
  "Sub64 x y borrow =
     (let diff = x - y - borrow in (diff, drop_bit 63 ((NOT x AND y) OR (NOT (x XOR y) AND diff))))"

definition subOne :: "uint128 \<Rightarrow> uint128" where
  "subOne u = (let (l, borrow) = Sub64 (lo u) 1 0 in \<lparr>hi = hi u - borrow, lo = l\<rparr>)"

definition addOne :: "uint128 \<Rightarrow> uint128" where
  "addOne u = (let (l, carry) = Add64 (lo u) 1 0 in \<lparr>hi = hi u + carry, lo = l\<rparr>)"

definition halves :: "uint128 \<Rightarrow> u64 list" where
  "halves u = [hi u, lo u]"

definition bitsSetFrom :: "uint128 \<Rightarrow> u8 \<Rightarrow> uint128" where
  "bitsSetFrom u b = u128_or u (u128_not (mask6 (unat b)))"

definition bitsClearedFrom :: "uint128 \<Rightarrow> u8 \<Rightarrow> uint128" where
  "bitsClearedFrom u b = u128_and u (mask6 (unat b))"

section \<open>Bytes\<close>

text \<open>\<open>byte(v >> k)\<close>\<close>

abbreviation byte_at :: "nat \<Rightarrow> 'a::len word \<Rightarrow> u8" where
  "byte_at k v \<equiv> ucast (drop_bit k v)"

definition beUint64 :: "u8 list \<Rightarrow> u64" where
  "beUint64 b = ucast (b ! 7) OR push_bit 8 (ucast (b ! 6)) OR push_bit 16 (ucast (b ! 5)) OR push_bit 24 (ucast (b ! 4))
     OR push_bit 32 (ucast (b ! 3)) OR push_bit 40 (ucast (b ! 2)) OR push_bit 48 (ucast (b ! 1)) OR push_bit 56 (ucast (b ! 0))"

text \<open>The bytes that are stored.\<close>

definition bePutUint64 :: "u64 \<Rightarrow> u8 list" where
  "bePutUint64 v = [byte_at 56 v, byte_at 48 v, byte_at 40 v, byte_at 32 v, byte_at 24 v, byte_at 16 v, byte_at 8 v, ucast v]"

definition bePutUint32 :: "u32 \<Rightarrow> u8 list" where
  "bePutUint32 v = [byte_at 24 v, byte_at 16 v, byte_at 8 v, ucast v]"

definition leUint16 :: "u8 list \<Rightarrow> u16" where
  "leUint16 b = ucast (b ! 0) OR push_bit 8 (ucast (b ! 1))"

definition lePutUint16 :: "u16 \<Rightarrow> u8 list" where
  "lePutUint16 v = [ucast v, byte_at 8 v]"

section \<open>The word a value stands for\<close>

definition u128 :: "uint128 \<Rightarrow> 128 word" where
  "u128 u = push_bit 64 (ucast (hi u)) OR ucast (lo u)"

lemma bit_u128:
  "bit (u128 u) n \<longleftrightarrow> (if n < 64 then bit (lo u) n else bit (hi u) (n - 64))"
  using bit_imp_le_length [of "lo u" n] bit_imp_le_length [of "hi u" "n - 64"]
  by (auto simp: u128_def bit_simps)

lemma u128_inject: "u128 u = u128 v \<longleftrightarrow> u = v"
proof
  assume e: "u128 u = u128 v"
  have "bit (hi u) n = bit (hi v) n" for n using arg_cong [OF e, of "\<lambda>w. bit w (n + 64)"] by (simp add: bit_u128)
  moreover have "bit (lo u) n = bit (lo v) n" for n
    using arg_cong [OF e, of "\<lambda>w. bit w n"] bit_imp_le_length [of "lo u" n] bit_imp_le_length [of "lo v" n]
    by (auto simp: bit_u128 split: if_splits)
  ultimately have "hi u = hi v" "lo u = lo v" by (auto intro: bit_eqI)
  then show "u = v" by simp
qed simp

lemma uint_u128: "uint (u128 u) = uint (hi u) * 2 ^ 64 + uint (lo u)"
proof -
  let ?k = "uint (hi u) * 2 ^ 64 + uint (lo u)"
  have "push_bit 64 (ucast (hi u)) AND (ucast (lo u) :: 128 word) = 0"
    by (rule bit_eqI) (auto simp: bit_simps dest: bit_imp_le_length)
  then have "u128 u = push_bit 64 (ucast (hi u)) + ucast (lo u)"
    by (simp add: u128_def disjunctive_add_eq_or)
  also have "\<dots> = word_of_int ?k"
    by (simp add: push_bit_eq_mult)
  finally have w: "u128 u = word_of_int ?k" .
  have "?k < 2 ^ 128"
    using uint_lt2p [of "hi u"] uint_lt2p [of "lo u"] by simp
  then show ?thesis
    using uint_nonnegative [of "hi u"] uint_nonnegative [of "lo u"]
    unfolding w uint_word_of_int by (intro mod_pos_pos_trivial) simp_all
qed

lemma u128_logic:
  "u128 (u128_and u v) = u128 u AND u128 v" "u128 (u128_or u v) = u128 u OR u128 v"
  "u128 (u128_xor u v) = u128 u XOR u128 v" "u128 (u128_not u) = NOT (u128 u)"
  by (rule bit_eqI, auto simp: bit_u128 u128_and_def u128_or_def u128_xor_def u128_not_def bit_simps)+

lemma u128_isZero: "u128_isZero u \<longleftrightarrow> u128 u = 0"
proof -
  have "u128 u128_zero = 0" by (rule bit_eqI) (simp add: bit_u128)
  then have "u128 u = 0 \<longleftrightarrow> u = u128_zero" by (metis u128_inject)
  then show ?thesis by (cases u) (auto simp: u128_isZero_def or_eq_0_iff)
qed

text \<open>\<open>mask6\<close> has the topmost \<open>n\<close> bits set.\<close>

lemma bit_mask6: "n \<le> 128 \<Longrightarrow> bit (u128 (mask6 n)) k \<longleftrightarrow> 128 - n \<le> k \<and> k < 128"
  by (auto simp: bit_u128 mask6_def bit_simps)

lemma u128_mask6: "n \<le> 128 \<Longrightarrow> u128 (mask6 n) = NOT (mask (128 - n))"
  by (rule bit_eqI) (auto simp: bit_mask6 bit_simps)

lemma bit_63: "bit (x :: u64) 63 \<longleftrightarrow> 2 ^ 63 \<le> uint x"
proof -
  have "uint x < 2 ^ 64" using uint_lt2p [of x] by simp
  moreover have "bit x 63 \<longleftrightarrow> bit (uint x) 63" by (simp add: bit_uint_iff)
  then have "bit x 63 \<longleftrightarrow> odd (uint x div 2 ^ 63)" by (simp only: bit_iff_odd)
  moreover have "uint x div 2 ^ 63 = (if 2 ^ 63 \<le> uint x then 1 else 0)"
    using \<open>uint x < 2 ^ 64\<close> uint_nonnegative [of x] int_div_pos_eq [of "uint x" "2 ^ 63" 1 "uint x - 2 ^ 63"]
    by simp
  ultimately show ?thesis by simp
qed

lemma drop_63: "drop_bit 63 (x :: u64) = of_bool (bit x 63)"
proof (rule bit_eqI)
  show "bit (drop_bit 63 x) n = bit (of_bool (bit x 63) :: u64) n" for n
    using bit_imp_le_length [of x "63 + n"] by (cases n) (auto simp: bit_simps)
qed

lemma uint_succ: "uint (x + 1) = (if x = -1 then 0 else uint x + 1)" for x :: "'a::len word"
proof (cases "x = -1")
  case False
  then have "uint x \<noteq> uint (-1 :: 'a word)" by (simp add: word_uint_eq_iff)
  then have "uint x \<noteq> 2 ^ LENGTH('a) - 1" by (simp add: unsigned_minus_1_eq_mask mask_eq_exp_minus_1)
  then have "uint x + 1 < 2 ^ LENGTH('a)" using uint_lt2p [of x] by linarith
  then show ?thesis using False by (simp add: uint_word_ariths)
qed simp

lemma uint_pred: "uint (x - 1) = (if x = 0 then 2 ^ LENGTH('a) - 1 else uint x - 1)" for x :: "'a::len word"
  using uint_succ [of "x - 1"] by (auto simp: unsigned_minus_1_eq_mask mask_eq_exp_minus_1)

lemma Add64_one: "Add64 x 1 0 = (x + 1, of_bool (x = -1))"
proof -
  have "bit x 63 \<and> \<not> bit (x + 1) 63 \<longleftrightarrow> x = -1"
    using uint_lt2p [of x] by (auto simp: bit_63 uint_succ unsigned_minus_1_eq_mask mask_eq_exp_minus_1)
  then show ?thesis by (auto simp: Add64_def Let_def drop_63 bit_simps)
qed

lemma Sub64_one: "Sub64 x 1 0 = (x - 1, of_bool (x = 0))"
proof -
  have "\<not> bit x 63 \<and> bit (x - 1) 63 \<longleftrightarrow> x = 0"
    by (auto simp: bit_63 uint_pred)
  then show ?thesis by (auto simp: Sub64_def Let_def drop_63 bit_simps)
qed

lemma u128_addOne: "u128 (addOne u) = u128 u + 1"
proof (rule word_uint_eqI)
  have one: "u128 u = -1 \<longleftrightarrow> hi u = -1 \<and> lo u = -1"
    using uint_lt2p [of "hi u"] uint_lt2p [of "lo u"]
    by (simp add: word_uint_eq_iff uint_u128 unsigned_minus_1_eq_mask mask_eq_exp_minus_1) linarith
  show "uint (u128 (addOne u)) = uint (u128 u + 1)"
    by (simp add: uint_u128 addOne_def Add64_one uint_succ one unsigned_minus_1_eq_mask mask_eq_exp_minus_1)
qed

lemma u128_subOne: "u128 (subOne u) = u128 u - 1"
proof -
  have "addOne (subOne u) = u"
    by (cases u) (auto simp: addOne_def subOne_def Add64_one Sub64_one)
  then show ?thesis using u128_addOne [of "subOne u"] by simp
qed

text \<open>Encoding and decoding.\<close>

lemma bit_shifted:
  "bit (push_bit k (ucast (b :: u8)) :: u64) n \<longleftrightarrow> n < 64 \<and> k \<le> n \<and> n < k + 8 \<and> bit b (n - k)"
  "bit (ucast b :: u64) n \<longleftrightarrow> n < 8 \<and> bit b n"
  using bit_imp_le_length [of b "n - k"] bit_imp_le_length [of b n]
  by (auto simp: bit_push_bit_iff bit_ucast_iff)

lemma octets:
  assumes "n < (64 :: nat)"
  obtains q r where "q \<in> {0, 1, 2, 3, 4, 5, 6, 7}" "r < 8" "n div 8 = q" "n mod 8 = r" "n = 8 * q + r"
proof -
  have "n div 8 < 8" using assms by simp
  then have "n div 8 \<in> {0, 1, 2, 3, 4, 5, 6, 7}" by auto
  then show thesis by (rule that [OF _ _ refl refl mult_div_mod_eq [symmetric]]) simp
qed

lemma bit_beUint64:
  assumes "n < 64"
  shows "bit (beUint64 b) n \<longleftrightarrow> bit (b ! (7 - n div 8)) (n mod 8)"
  using assms
proof (rule octets)
  fix q r
  assume q: "q \<in> {0, 1, 2, 3, 4, 5, 6, 7 :: nat}" and r: "r < 8" "n = 8 * q + r" and n: "n div 8 = q" "n mod 8 = r"
  have "bit (beUint64 b) (8 * q + r) \<longleftrightarrow> bit (b ! (7 - q)) r"
    using q r(1) by (elim insertE emptyE) (simp_all add: beUint64_def bit_or_iff bit_shifted)
  then show ?thesis unfolding n using r(2) by simp
qed

lemma beUint64_put: "beUint64 (bePutUint64 v) = v"
proof (rule bit_word_eqI)
  fix n
  assume "n < LENGTH(64)"
  then have n: "n < 64" by simp
  have "bit (bePutUint64 v ! (7 - n div 8)) (n mod 8) = bit v n"
    using n
  proof (rule octets)
    fix q r
    assume q: "q \<in> {0, 1, 2, 3, 4, 5, 6, 7 :: nat}" and r: "r < 8" "n = 8 * q + r" and n: "n div 8 = q" "n mod 8 = r"
    have "bit (bePutUint64 v ! (7 - q)) r = bit v (8 * q + r)"
      using q r(1) by (elim insertE emptyE) (simp_all add: bePutUint64_def bit_ucast_iff bit_drop_bit_eq)
    then show "bit (bePutUint64 v ! (7 - n div 8)) (n mod 8) = bit v n" unfolding n using r(2) by simp
  qed
  then show "bit (beUint64 (bePutUint64 v)) n = bit v n" by (simp add: bit_beUint64 [OF n])
qed

end
