(* ===== verification/NetAddr.thy ===== *)
theory NetAddr
  imports NetUint128 "HOL-Library.List_Lexorder" "HOL-Library.Char_ord"
begin

text \<open>
  The type \<open>Addr\<close> of \<^verbatim>\<open>net/netip/netip.go\<close>: its constructors, its accessors, the RFC classes,
  comparison, and the 4-, 16- and variable-length binary forms.
\<close>

section \<open>Addresses\<close>

text \<open>
  The pointer \<open>z\<close>: nil, the sentinels \<open>z4\<close> and \<open>z6noz\<close>, or the interned zone. Interned values
  are equal when their strings are.
\<close>

datatype zone = Z0 | Z4 | Z6noz | Zone string

record Addr =
  a_addr :: uint128
  a_z :: zone

definition zero_Addr :: Addr where
  "zero_Addr = \<lparr>a_addr = u128_zero, a_z = Z0\<rparr>"

definition AddrFrom4 :: "u8 list \<Rightarrow> Addr" where
  "AddrFrom4 addr = \<lparr>a_addr = \<lparr>hi = 0, lo = 0xffff00000000 OR push_bit 24 (ucast (addr ! 0))
     OR push_bit 16 (ucast (addr ! 1)) OR push_bit 8 (ucast (addr ! 2)) OR ucast (addr ! 3)\<rparr>, a_z = Z4\<rparr>"

definition AddrFrom16 :: "u8 list \<Rightarrow> Addr" where
  "AddrFrom16 addr = \<lparr>a_addr = \<lparr>hi = beUint64 (take 8 addr), lo = beUint64 (drop 8 addr)\<rparr>, a_z = Z6noz\<rparr>"

text \<open>The well-known addresses: \<open>bytes16\<close> is the array literal with some bytes given.\<close>

definition bytes16 :: "(nat \<times> u8) list \<Rightarrow> u8 list" where
  "bytes16 kvs = fold (\<lambda>(k, v) bs. bs[k := v]) kvs (replicate 16 0)"

definition IPv6LinkLocalAllNodes :: Addr where
  "IPv6LinkLocalAllNodes = AddrFrom16 (bytes16 [(0, 0xff), (1, 0x02), (15, 0x01)])"

definition IPv6LinkLocalAllRouters :: Addr where
  "IPv6LinkLocalAllRouters = AddrFrom16 (bytes16 [(0, 0xff), (1, 0x02), (15, 0x02)])"

definition IPv6Loopback :: Addr where
  "IPv6Loopback = AddrFrom16 (bytes16 [(15, 0x01)])"

definition IPv6Unspecified :: Addr where
  "IPv6Unspecified = \<lparr>a_addr = u128_zero, a_z = Z6noz\<rparr>"

definition IPv4Unspecified :: Addr where
  "IPv4Unspecified = AddrFrom4 [0, 0, 0, 0]"

text \<open>Nothing when the length is not 4 or 16.\<close>

definition AddrFromSlice :: "u8 list \<Rightarrow> Addr \<times> bool" where
  "AddrFromSlice b =
     (if length b = 4 then (AddrFrom4 b, True)
      else if length b = 16 then (AddrFrom16 b, True)
      else (zero_Addr, False))"

section \<open>Accessors\<close>

text \<open>The index is a byte and so is the arithmetic on it.\<close>

definition Addr_v4 :: "Addr \<Rightarrow> u8 \<Rightarrow> u8" where
  "Addr_v4 ip i = ucast (drop_bit (unat ((3 - i) * 8)) (lo (a_addr ip)))"

definition Addr_v6 :: "Addr \<Rightarrow> u8 \<Rightarrow> u8" where
  "Addr_v6 ip i = ucast (drop_bit (unat ((7 - i mod 8) * 8)) (halves (a_addr ip) ! unat ((i div 8) mod 2)))"

definition Addr_v6u16 :: "Addr \<Rightarrow> u8 \<Rightarrow> u16" where
  "Addr_v6u16 ip i = ucast (drop_bit (unat ((3 - i mod 4) * 16)) (halves (a_addr ip) ! unat ((i div 4) mod 2)))"

definition Addr_isZero :: "Addr \<Rightarrow> bool" where
  "Addr_isZero ip \<longleftrightarrow> a_z ip = Z0"

definition Addr_IsValid :: "Addr \<Rightarrow> bool" where
  "Addr_IsValid ip \<longleftrightarrow> a_z ip \<noteq> Z0"

definition BitLen :: "Addr \<Rightarrow> int" where
  "BitLen ip = (case a_z ip of Z0 \<Rightarrow> 0 | Z4 \<Rightarrow> 32 | _ \<Rightarrow> 128)"

definition Addr_Zone :: "Addr \<Rightarrow> string" where
  "Addr_Zone ip = (case a_z ip of Zone s \<Rightarrow> s | _ \<Rightarrow> '''')"

definition Is4 :: "Addr \<Rightarrow> bool" where
  "Is4 ip \<longleftrightarrow> a_z ip = Z4"

definition Is6 :: "Addr \<Rightarrow> bool" where
  "Is6 ip \<longleftrightarrow> a_z ip \<noteq> Z0 \<and> a_z ip \<noteq> Z4"

definition Is4In6 :: "Addr \<Rightarrow> bool" where
  "Is4In6 ip \<longleftrightarrow> Is6 ip \<and> hi (a_addr ip) = 0 \<and> drop_bit 32 (lo (a_addr ip)) = 0xffff"

definition Unmap :: "Addr \<Rightarrow> Addr" where
  "Unmap ip = (if Is4In6 ip then ip\<lparr>a_z := Z4\<rparr> else ip)"

definition WithZone :: "Addr \<Rightarrow> string \<Rightarrow> Addr" where
  "WithZone ip zone = (if \<not> Is6 ip then ip else if zone = '''' then ip\<lparr>a_z := Z6noz\<rparr> else ip\<lparr>a_z := Zone zone\<rparr>)"

definition withoutZone :: "Addr \<Rightarrow> Addr" where
  "withoutZone ip = (if \<not> Is6 ip then ip else ip\<lparr>a_z := Z6noz\<rparr>)"

definition hasZone :: "Addr \<Rightarrow> bool" where
  "hasZone ip \<longleftrightarrow> a_z ip \<noteq> Z0 \<and> a_z ip \<noteq> Z4 \<and> a_z ip \<noteq> Z6noz"

definition Addr_Compare :: "Addr \<Rightarrow> Addr \<Rightarrow> int" where
  "Addr_Compare ip ip2 =
     (let f1 = BitLen ip; f2 = BitLen ip2 in
      if f1 < f2 then -1 else if f1 > f2 then 1
      else if hi (a_addr ip) < hi (a_addr ip2) then -1 else if hi (a_addr ip) > hi (a_addr ip2) then 1
      else if lo (a_addr ip) < lo (a_addr ip2) then -1 else if lo (a_addr ip) > lo (a_addr ip2) then 1
      else if Is6 ip then
        (let za = Addr_Zone ip; zb = Addr_Zone ip2 in
         if za < zb then -1 else if za > zb then 1 else 0)
      else 0)"

definition Less :: "Addr \<Rightarrow> Addr \<Rightarrow> bool" where
  "Less ip ip2 \<longleftrightarrow> Addr_Compare ip ip2 = -1"

section \<open>Classes\<close>

text \<open>\<open>if ip.Is4In6() { ip = ip.Unmap() }\<close> comes first.\<close>

definition IsLinkLocalUnicast :: "Addr \<Rightarrow> bool" where
  "IsLinkLocalUnicast ip =
     (let ip = (if Is4In6 ip then Unmap ip else ip) in
      if Is4 ip then Addr_v4 ip 0 = 169 \<and> Addr_v4 ip 1 = 254
      else if Is6 ip then Addr_v6u16 ip 0 AND 0xffc0 = 0xfe80
      else False)"

definition IsLoopback :: "Addr \<Rightarrow> bool" where
  "IsLoopback ip =
     (let ip = (if Is4In6 ip then Unmap ip else ip) in
      if Is4 ip then Addr_v4 ip 0 = 127
      else if Is6 ip then hi (a_addr ip) = 0 \<and> lo (a_addr ip) = 1
      else False)"

definition IsMulticast :: "Addr \<Rightarrow> bool" where
  "IsMulticast ip =
     (let ip = (if Is4In6 ip then Unmap ip else ip) in
      if Is4 ip then Addr_v4 ip 0 AND 0xf0 = 0xe0
      else if Is6 ip then drop_bit (64 - 8) (hi (a_addr ip)) = 0xff
      else False)"

definition IsInterfaceLocalMulticast :: "Addr \<Rightarrow> bool" where
  "IsInterfaceLocalMulticast ip =
     (if Is6 ip \<and> \<not> Is4In6 ip then Addr_v6u16 ip 0 AND 0xff0f = 0xff01 else False)"

definition IsLinkLocalMulticast :: "Addr \<Rightarrow> bool" where
  "IsLinkLocalMulticast ip =
     (let ip = (if Is4In6 ip then Unmap ip else ip) in
      if Is4 ip then Addr_v4 ip 0 = 224 \<and> Addr_v4 ip 1 = 0 \<and> Addr_v4 ip 2 = 0
      else if Is6 ip then Addr_v6u16 ip 0 AND 0xff0f = 0xff02
      else False)"

definition IsGlobalUnicast :: "Addr \<Rightarrow> bool" where
  "IsGlobalUnicast ip =
     (if a_z ip = Z0 then False
      else
        let ip = (if Is4In6 ip then Unmap ip else ip) in
        if Is4 ip \<and> (ip = IPv4Unspecified \<or> ip = AddrFrom4 [255, 255, 255, 255]) then False
        else ip \<noteq> IPv6Unspecified \<and> \<not> IsLoopback ip \<and> \<not> IsMulticast ip \<and> \<not> IsLinkLocalUnicast ip)"

definition IsPrivate :: "Addr \<Rightarrow> bool" where
  "IsPrivate ip =
     (let ip = (if Is4In6 ip then Unmap ip else ip) in
      if Is4 ip then Addr_v4 ip 0 = 10 \<or> Addr_v4 ip 0 = 172 \<and> Addr_v4 ip 1 AND 0xf0 = 16
        \<or> Addr_v4 ip 0 = 192 \<and> Addr_v4 ip 1 = 168
      else if Is6 ip then Addr_v6 ip 0 AND 0xfe = 0xfc
      else False)"

definition IsUnspecified :: "Addr \<Rightarrow> bool" where
  "IsUnspecified ip \<longleftrightarrow> ip = IPv4Unspecified \<or> ip = IPv6Unspecified"

section \<open>Bytes, successor and predecessor\<close>

definition As16 :: "Addr \<Rightarrow> u8 list" where
  "As16 ip = bePutUint64 (hi (a_addr ip)) @ bePutUint64 (lo (a_addr ip))"

definition As4 :: "Addr \<Rightarrow> u8 list outcome" where
  "As4 ip =
     (if a_z ip = Z4 \<or> Is4In6 ip then Ret (bePutUint32 (ucast (lo (a_addr ip))))
      else if a_z ip = Z0 then Panic ''As4 called on IP zero value''
      else Panic ''As4 called on IPv6 address'')"

definition AsSlice :: "Addr \<Rightarrow> u8 list" where
  "AsSlice ip = (case a_z ip of
     Z0 \<Rightarrow> []
   | Z4 \<Rightarrow> bePutUint32 (ucast (lo (a_addr ip)))
   | _ \<Rightarrow> bePutUint64 (hi (a_addr ip)) @ bePutUint64 (lo (a_addr ip)))"

definition Next :: "Addr \<Rightarrow> Addr" where
  "Next ip =
     (let ip = ip\<lparr>a_addr := addOne (a_addr ip)\<rparr> in
      if Is4 ip then (if (ucast (lo (a_addr ip)) :: u32) = 0 then zero_Addr else ip)
      else (if u128_isZero (a_addr ip) then zero_Addr else ip))"

definition Prev :: "Addr \<Rightarrow> Addr" where
  "Prev ip =
     (if Is4 ip \<and> (ucast (lo (a_addr ip)) :: u32) = 0 then zero_Addr
      else if \<not> Is4 ip \<and> u128_isZero (a_addr ip) then zero_Addr
      else ip\<lparr>a_addr := subOne (a_addr ip)\<rparr>)"

section \<open>The binary form\<close>

text \<open>A string is its bytes.\<close>

definition to_bytes :: "string \<Rightarrow> u8 list" where
  "to_bytes s = map (\<lambda>c. of_nat (of_char c)) s"

definition of_bytes :: "u8 list \<Rightarrow> string" where
  "of_bytes bs = map (\<lambda>b. char_of (unat b)) bs"

definition marshalBinaryWithTrailingBytes :: "Addr \<Rightarrow> nat \<Rightarrow> u8 list" where
  "marshalBinaryWithTrailingBytes ip trailing = (case a_z ip of
     Z0 \<Rightarrow> replicate trailing 0
   | Z4 \<Rightarrow> bePutUint32 (ucast (lo (a_addr ip))) @ replicate trailing 0
   | _ \<Rightarrow> bePutUint64 (hi (a_addr ip)) @ bePutUint64 (lo (a_addr ip)) @ to_bytes (Addr_Zone ip) @ replicate trailing 0)"

definition Addr_MarshalBinary :: "Addr \<Rightarrow> u8 list" where
  "Addr_MarshalBinary ip = marshalBinaryWithTrailingBytes ip 0"

text \<open>\<open>None\<close> is the error "unexpected slice size".\<close>

definition Addr_UnmarshalBinary :: "u8 list \<Rightarrow> Addr option" where
  "Addr_UnmarshalBinary b =
     (let n = length b in
      if n = 0 then Some zero_Addr
      else if n = 4 then Some (AddrFrom4 b)
      else if n = 16 then Some (AddrFrom16 b)
      else if n > 16 then Some (WithZone (AddrFrom16 (take 16 b)) (of_bytes (drop 16 b)))
      else None)"

section \<open>Well-formed addresses\<close>

text \<open>
  What the functions of the package build: the zero address, an IPv4 address in its mapped
  form, or an IPv6 address whose zone is not empty.
\<close>

definition wf_Addr :: "Addr \<Rightarrow> bool" where
  "wf_Addr ip \<longleftrightarrow> (case a_z ip of
     Z0 \<Rightarrow> a_addr ip = u128_zero
   | Z4 \<Rightarrow> hi (a_addr ip) = 0 \<and> drop_bit 32 (lo (a_addr ip)) = 0xffff
   | Z6noz \<Rightarrow> True
   | Zone s \<Rightarrow> s \<noteq> '''')"

section \<open>Encoding facts\<close>

lemma byte_lists:
  "length (b :: u8 list) = 8 \<Longrightarrow> b = [b!0, b!1, b!2, b!3, b!4, b!5, b!6, b!7]"
  "length (b :: u8 list) = 4 \<Longrightarrow> b = [b!0, b!1, b!2, b!3]"
  by (auto intro!: nth_equalityI simp: less_Suc_eq numeral_eq_Suc)

lemma put_beUint64:
  assumes "length b = 8"
  shows "bePutUint64 (beUint64 b) = b"
proof (rule nth_equalityI)
  show "length (bePutUint64 (beUint64 b)) = length b" using assms by (simp add: bePutUint64_def)
  fix i
  assume "i < length (bePutUint64 (beUint64 b))"
  then have i: "i \<in> {0, 1, 2, 3, 4, 5, 6, 7}" by (auto simp: bePutUint64_def)
  show "bePutUint64 (beUint64 b) ! i = b ! i"
  proof (rule bit_word_eqI)
    fix n
    assume "n < LENGTH(8)"
    then have n: "n < 8" by simp
    have "bit (bePutUint64 (beUint64 b) ! i) n = bit (beUint64 b) (8 * (7 - i) + n)"
      using i n by (elim insertE emptyE) (simp_all add: bePutUint64_def bit_ucast_iff bit_drop_bit_eq)
    also have "\<dots> = bit (b ! (7 - (8 * (7 - i) + n) div 8)) ((8 * (7 - i) + n) mod 8)"
      using n i by (intro bit_beUint64) auto
    also have "\<dots> = bit (b ! i) n"
    proof -
      have "(8 * (7 - i) + n) div 8 = 7 - i" "(8 * (7 - i) + n) mod 8 = n" "7 - (7 - i) = i" using n i by auto
      then show ?thesis by simp
    qed
    finally show "bit (bePutUint64 (beUint64 b) ! i) n = bit (b ! i) n" .
  qed
qed

lemma mapped4:
  fixes v :: u64
  assumes "drop_bit 32 v = 0xffff"
  shows "v = 0xffff00000000 OR ucast (ucast v :: u32)"
proof -
  have "v = push_bit 32 (drop_bit 32 v) OR ucast (ucast v :: u32)"
    by (rule bit_word_eqI) (auto simp: bit_or_iff bit_push_bit_iff bit_ucast_iff bit_drop_bit_eq)
  then show ?thesis unfolding assms by simp
qed

lemma From4_put: "lo (a_addr (AddrFrom4 (bePutUint32 v))) = 0xffff00000000 OR ucast v"
proof -
  have "push_bit 24 (ucast (byte_at 24 v)) OR push_bit 16 (ucast (byte_at 16 v)) OR push_bit 8 (ucast (byte_at 8 v)) OR ucast (ucast v :: u8)
      = (ucast v :: u64)"
  proof (rule bit_word_eqI)
    fix n
    assume "n < LENGTH(64)"
    show "bit (push_bit 24 (ucast (byte_at 24 v)) OR push_bit 16 (ucast (byte_at 16 v)) OR push_bit 8 (ucast (byte_at 8 v)) OR ucast (ucast v :: u8) :: u64) n
      = bit (ucast v :: u64) n"
    proof -
      consider "n < 8" | "8 \<le> n" "n < 16" | "16 \<le> n" "n < 24" | "24 \<le> n" "n < 32" | "32 \<le> n" by linarith
      then show ?thesis
        using bit_imp_le_length [of v n] \<open>n < LENGTH(64)\<close>
        by cases (auto simp: bit_or_iff bit_shifted bit_ucast_iff bit_drop_bit_eq)
    qed
  qed
  then show ?thesis by (simp add: AddrFrom4_def bePutUint32_def or.assoc)
qed

end
