(* ===== verification/NetText.thy ===== *)
theory NetText
  imports NetAddr
begin

text \<open>
  The text form of \<open>Addr\<close>: \<open>ParseAddr\<close>, \<open>parseIPv4\<close>, \<open>parseIPv6\<close> and \<open>String\<close> of \<^verbatim>\<open>net/netip/netip.go\<close>,
  with the byte searches of \<^verbatim>\<open>internal/bytealg\<close> they use. A Go string is a list of bytes.
\<close>

section \<open>Byte searches\<close>

fun index_from :: "string \<Rightarrow> char \<Rightarrow> int \<Rightarrow> int" where
  "index_from [] c i = -1"
| "index_from (x # xs) c i = (if x = c then i else index_from xs c (i + 1))"

definition IndexByteString :: "string \<Rightarrow> char \<Rightarrow> int" where
  "IndexByteString s c = index_from s c 0"

fun last_index :: "string \<Rightarrow> char \<Rightarrow> nat \<Rightarrow> int" where
  "last_index s c 0 = -1"
| "last_index s c (Suc i) = (if s ! i = c then int i else last_index s c i)"

definition LastIndexByteString :: "string \<Rightarrow> char \<Rightarrow> int" where
  "LastIndexByteString s c = last_index s c (length s)"

section \<open>Errors\<close>

text \<open>
  \<open>parseAddrError\<close>: the string given, the message, the portion not parsed. An embedded IPv4 error
  gives its rendering as message, which is kept here as the error itself.
\<close>

datatype parseAddrError = ParseAddrError (pe_in: string) (pe_msg: emsg) (pe_at: string)
  and emsg = Msg string | ErrorOf parseAddrError

abbreviation parse_fail :: "string \<Rightarrow> string \<Rightarrow> string \<Rightarrow> parseAddrError + 'a" where
  "parse_fail inp msg at \<equiv> Inl (ParseAddrError inp (Msg msg) at)"

section \<open>IPv4\<close>

definition is_digit :: "char \<Rightarrow> bool" where
  "is_digit c \<longleftrightarrow> CHR ''0'' \<le> c \<and> c \<le> CHR ''9''"

text \<open>The loop over the string: what is left of it and the character before (none at the start).\<close>

fun parse4_loop :: "string \<Rightarrow> string \<Rightarrow> char option \<Rightarrow> u8 list \<Rightarrow> int \<Rightarrow> nat \<Rightarrow> nat \<Rightarrow> parseAddrError + Addr" where
  "parse4_loop inp [] prev fs v pos digLen =
     (if pos < 3 then parse_fail inp ''IPv4 address too short'' ''''
      else Inr (AddrFrom4 (fs[3 := word_of_int v])))"
| "parse4_loop inp (c # cs) prev fs v pos digLen =
     (if is_digit c then
        (if digLen = 1 \<and> v = 0 then parse_fail inp ''IPv4 field has octet with leading zero'' ''''
         else
           let v = v * 10 + (of_char c - 48); digLen = digLen + 1 in
           if v > 255 then parse_fail inp ''IPv4 field has value >255'' ''''
           else parse4_loop inp cs (Some c) fs v pos digLen)
      else if c = CHR ''.'' then
        (if prev = None \<or> cs = [] \<or> prev = Some (CHR ''.'')
         then parse_fail inp ''IPv4 field must have at least one digit'' (c # cs)
         else if pos = 3 then parse_fail inp ''IPv4 address too long'' ''''
         else parse4_loop inp cs (Some c) (fs[pos := word_of_int v]) 0 (pos + 1) 0)
      else parse_fail inp ''unexpected character'' (c # cs))"

definition parseIPv4 :: "string \<Rightarrow> parseAddrError + Addr" where
  "parseIPv4 s = parse4_loop s s None [0, 0, 0, 0] 0 0 0"

section \<open>IPv6\<close>

definition hex_value :: "char \<Rightarrow> u32 option" where
  "hex_value c =
     (if CHR ''0'' \<le> c \<and> c \<le> CHR ''9'' then Some (of_char c - 48)
      else if CHR ''a'' \<le> c \<and> c \<le> CHR ''f'' then Some (of_char c - 97 + 10)
      else if CHR ''A'' \<le> c \<and> c \<le> CHR ''F'' then Some (of_char c - 65 + 10)
      else None)"

text \<open>The hex number at the start of \<open>s\<close>: its length and value, nothing when it is too large.\<close>

fun scan_hex :: "string \<Rightarrow> nat \<Rightarrow> u32 \<Rightarrow> (nat \<times> u32) option" where
  "scan_hex [] off acc = Some (off, acc)"
| "scan_hex (c # cs) off acc = (case hex_value c of
     None \<Rightarrow> Some (off, acc)
   | Some d \<Rightarrow>
       (let acc = push_bit 4 acc + d in if acc > 0xffff then None else scan_hex cs (off + 1) acc))"

text \<open>The main loop, up to the string that is left, the bytes, their number and the place of \<open>::\<close>.\<close>

function parse6_loop :: "string \<Rightarrow> string \<Rightarrow> u8 list \<Rightarrow> nat \<Rightarrow> int \<Rightarrow> parseAddrError + string \<times> u8 list \<times> nat \<times> int" where
  "parse6_loop inp s ip i ellipsis =
     (if i < 16 then
        (case scan_hex s 0 0 of
           None \<Rightarrow> parse_fail inp ''IPv6 field has value >=2^16'' s
         | Some (off, acc) \<Rightarrow>
             if off = 0 then parse_fail inp ''each colon-separated field must have at least one digit'' s
             else if off < length s \<and> s ! off = CHR ''.'' then
               (if ellipsis < 0 \<and> i \<noteq> 12
                then parse_fail inp ''embedded IPv4 address must replace the final 2 fields of the address'' s
                else if i + 4 > 16
                then parse_fail inp ''too many hex fields to fit an embedded IPv4 at the end of the address'' s
                else (case parseIPv4 s of
                   Inl err \<Rightarrow> Inl (ParseAddrError inp (ErrorOf err) s)
                 | Inr ip4 \<Rightarrow> Inr ('''', ip[i := Addr_v4 ip4 0, i + 1 := Addr_v4 ip4 1, i + 2 := Addr_v4 ip4 2,
                     i + 3 := Addr_v4 ip4 3], i + 4, ellipsis)))
             else
               let ip = ip[i := ucast (drop_bit 8 acc), i + 1 := ucast acc]; i = i + 2; s = drop off s in
               if s = [] then Inr (s, ip, i, ellipsis)
               else if hd s \<noteq> CHR '':'' then parse_fail inp ''unexpected character, want colon'' s
               else if length s = 1 then parse_fail inp ''colon must be followed by more characters'' s
               else
                 let s = tl s in
                 if hd s = CHR '':'' then
                   (if ellipsis \<ge> 0 then parse_fail inp ''multiple :: in address'' s
                    else let s = tl s in
                      if s = [] then Inr (s, ip, i, int i) else parse6_loop inp s ip i (int i))
                 else parse6_loop inp s ip i ellipsis)
      else Inr (s, ip, i, ellipsis))"
  by pat_completeness auto
termination
  by (relation "measure (\<lambda>(inp, s, ip, i, ellipsis). 16 - i)") auto

declare parse6_loop.simps [simp del]

text \<open>The bytes from \<open>ellipsis\<close> to \<open>i\<close> move to the end, and zeros fill the gap.\<close>

definition expand_ellipsis :: "u8 list \<Rightarrow> nat \<Rightarrow> nat \<Rightarrow> u8 list" where
  "expand_ellipsis ip i ellipsis =
     (let n = 16 - i;
          ip = fold (\<lambda>j ip. ip[j + n := ip ! j]) (rev [ellipsis..<i]) ip
      in fold (\<lambda>j ip. ip[j := 0]) (rev [ellipsis..<ellipsis + n]) ip)"

definition parse6_finish :: "string \<Rightarrow> string \<Rightarrow> string \<times> u8 list \<times> nat \<times> int \<Rightarrow> parseAddrError + Addr" where
  "parse6_finish inp zone = (\<lambda>(s, ip, i, ellipsis).
     if s \<noteq> [] then parse_fail inp ''trailing garbage after address'' s
     else if i < 16 then
       (if ellipsis < 0 then parse_fail inp ''address string too short'' ''''
        else Inr (WithZone (AddrFrom16 (expand_ellipsis ip i (nat ellipsis))) zone))
     else if ellipsis \<ge> 0 then parse_fail inp ''the :: must expand to at least one field of zeros'' ''''
     else Inr (WithZone (AddrFrom16 ip) zone))"

definition parse6_body :: "string \<Rightarrow> string \<Rightarrow> string \<Rightarrow> parseAddrError + Addr" where
  "parse6_body inp s zone =
     (if length s \<ge> 2 \<and> s ! 0 = CHR '':'' \<and> s ! 1 = CHR '':'' then
        (let s = drop 2 s in
         if s = [] then Inr (WithZone IPv6Unspecified zone)
         else case parse6_loop inp s (replicate 16 0) 0 0 of Inl e \<Rightarrow> Inl e | Inr r \<Rightarrow> parse6_finish inp zone r)
      else case parse6_loop inp s (replicate 16 0) 0 (-1) of Inl e \<Rightarrow> Inl e | Inr r \<Rightarrow> parse6_finish inp zone r)"

definition parseIPv6 :: "string \<Rightarrow> parseAddrError + Addr" where
  "parseIPv6 inp =
     (let i = IndexByteString inp (CHR ''%'') in
      if i \<noteq> -1 then
        (let s = take (nat i) inp; zone = drop (nat (i + 1)) inp in
         if zone = '''' then parse_fail inp ''zone must be a non-empty string'' ''''
         else parse6_body inp s zone)
      else parse6_body inp inp '''')"

fun parse_addr_loop :: "string \<Rightarrow> string \<Rightarrow> parseAddrError + Addr" where
  "parse_addr_loop inp [] = parse_fail inp ''unable to parse IP'' ''''"
| "parse_addr_loop inp (c # cs) =
     (if c = CHR ''.'' then parseIPv4 inp
      else if c = CHR '':'' then parseIPv6 inp
      else if c = CHR ''%'' then parse_fail inp ''missing IPv6 address'' ''''
      else parse_addr_loop inp cs)"

definition ParseAddr :: "string \<Rightarrow> parseAddrError + Addr" where
  "ParseAddr s = parse_addr_loop s s"

section \<open>Printing\<close>

definition hexdigits :: string where
  "hexdigits = ''0123456789abcdef''"

abbreviation dig :: "'a::len word \<Rightarrow> char" where
  "dig x \<equiv> hexdigits ! unat x"

definition appendDecimal :: "string \<Rightarrow> u8 \<Rightarrow> string" where
  "appendDecimal b x =
     (let b = (if x \<ge> 100 then b @ [dig (x div 100)] else b);
          b = (if x \<ge> 10 then b @ [dig (x div 10 mod 10)] else b)
      in b @ [dig (x mod 10)])"

definition appendHex :: "string \<Rightarrow> u16 \<Rightarrow> string" where
  "appendHex b x =
     (let b = (if x \<ge> 0x1000 then b @ [dig (drop_bit 12 x)] else b);
          b = (if x \<ge> 0x100 then b @ [dig (drop_bit 8 x AND 0xf)] else b);
          b = (if x \<ge> 0x10 then b @ [dig (drop_bit 4 x AND 0xf)] else b)
      in b @ [dig (x AND 0xf)])"

definition appendHexPad :: "string \<Rightarrow> u16 \<Rightarrow> string" where
  "appendHexPad b x = b @ [dig (drop_bit 12 x), dig (drop_bit 8 x AND 0xf), dig (drop_bit 4 x AND 0xf), dig (x AND 0xf)]"

definition appendTo4 :: "Addr \<Rightarrow> string \<Rightarrow> string" where
  "appendTo4 ip ret =
     (let ret = appendDecimal ret (Addr_v4 ip 0) @ ''.'';
          ret = appendDecimal ret (Addr_v4 ip 1) @ ''.'';
          ret = appendDecimal ret (Addr_v4 ip 2) @ ''.''
      in appendDecimal ret (Addr_v4 ip 3))"

definition string4 :: "Addr \<Rightarrow> string" where
  "string4 ip = appendTo4 ip ''''"

text \<open>The longest run of at least two zero fields, the first of the longest; 255 when there is none.\<close>

function zero_end :: "Addr \<Rightarrow> nat \<Rightarrow> nat" where
  "zero_end ip j = (if j < 8 \<and> Addr_v6u16 ip (of_nat j) = 0 then zero_end ip (j + 1) else j)"
  by pat_completeness auto
termination by (relation "measure (\<lambda>(ip, j). 8 - j)") auto

declare zero_end.simps [simp del]

definition zero_step :: "Addr \<Rightarrow> nat \<Rightarrow> nat \<times> nat \<Rightarrow> nat \<times> nat" where
  "zero_step ip i = (\<lambda>(zeroStart, zeroEnd).
     let j = zero_end ip i; l = j - i in
     if l \<ge> 2 \<and> l > zeroEnd - zeroStart then (i, j) else (zeroStart, zeroEnd))"

definition zero_run :: "Addr \<Rightarrow> nat \<times> nat" where
  "zero_run ip = fold (zero_step ip) [0..<8] (255, 255)"

text \<open>The printing loop: each of at most 8 passes prints a field and goes to a later one.\<close>

fun print6_loop :: "nat \<Rightarrow> Addr \<Rightarrow> nat \<times> nat \<Rightarrow> nat \<Rightarrow> string \<Rightarrow> string" where
  "print6_loop 0 ip z i ret = ret"
| "print6_loop (Suc k) ip z i ret =
     (if i < 8 then
        (if i = fst z then
           (let ret = ret @ ''::''; i = snd z in
            if i \<ge> 8 then ret
            else print6_loop k ip z (i + 1) (appendHex ret (Addr_v6u16 ip (of_nat i))))
         else
           let ret = (if i > 0 then ret @ '':'' else ret) in
           print6_loop k ip z (i + 1) (appendHex ret (Addr_v6u16 ip (of_nat i))))
      else ret)"

definition appendTo6 :: "Addr \<Rightarrow> string \<Rightarrow> string" where
  "appendTo6 ip ret =
     (let ret = print6_loop 8 ip (zero_run ip) 0 ret in
      if a_z ip \<noteq> Z6noz then ret @ ''%'' @ Addr_Zone ip else ret)"

definition string6 :: "Addr \<Rightarrow> string" where
  "string6 ip = appendTo6 ip ''''"

definition Addr_String :: "Addr \<Rightarrow> string" where
  "Addr_String ip = (case a_z ip of
     Z0 \<Rightarrow> ''invalid IP''
   | Z4 \<Rightarrow> string4 ip
   | _ \<Rightarrow>
       if Is4In6 ip then
         (let z = Addr_Zone ip in
          if z \<noteq> '''' then ''::ffff:'' @ string4 (Unmap ip) @ ''%'' @ z
          else ''::ffff:'' @ string4 (Unmap ip))
       else string6 ip)"

definition Addr_AppendTo :: "Addr \<Rightarrow> string \<Rightarrow> string" where
  "Addr_AppendTo ip b = (case a_z ip of
     Z0 \<Rightarrow> b
   | Z4 \<Rightarrow> appendTo4 ip b
   | _ \<Rightarrow>
       if Is4In6 ip then
         (let b = appendTo4 (Unmap ip) (b @ ''::ffff:''); z = Addr_Zone ip in
          if z \<noteq> '''' then b @ ''%'' @ z else b)
       else appendTo6 ip b)"

definition StringExpanded :: "Addr \<Rightarrow> string" where
  "StringExpanded ip =
     (if a_z ip = Z0 \<or> a_z ip = Z4 then Addr_String ip
      else
        let ret = fold (\<lambda>i ret. appendHexPad (if i > 0 then ret @ '':'' else ret) (Addr_v6u16 ip (of_nat i))) [0..<8] ''''
        in if a_z ip \<noteq> Z6noz then ret @ ''%'' @ Addr_Zone ip else ret)"

definition Addr_MarshalText :: "Addr \<Rightarrow> string" where
  "Addr_MarshalText ip = (case a_z ip of
     Z0 \<Rightarrow> ''''
   | Z4 \<Rightarrow> appendTo4 ip ''''
   | _ \<Rightarrow>
       if Is4In6 ip then
         (let b = appendTo4 (Unmap ip) ''::ffff:''; z = Addr_Zone ip in
          if z \<noteq> '''' then b @ ''%'' @ z else b)
       else appendTo6 ip '''')"

definition Addr_UnmarshalText :: "string \<Rightarrow> parseAddrError + Addr" where
  "Addr_UnmarshalText text = (if length text = 0 then Inr zero_Addr else ParseAddr text)"

end
