(* ===== verification/Strconv.thy ===== *)
theory Strconv
  imports GoPrelude "HOL-Library.Char_ord"
begin

text \<open>
  Numbers and their text: \<open>ParseUint\<close>, \<open>ParseInt\<close> and \<open>Atoi\<close> of \<^verbatim>\<open>strconv/atoi.go\<close>, the
  formatting functions of \<^verbatim>\<open>strconv/itoa.go\<close>, and \<^verbatim>\<open>internal/itoa\<close>. A Go string is a list of bytes.
  \<open>h\<close> says that \<open>int\<close> and \<open>uint\<close> have 32 bits instead of 64 (\<open>host32bit\<close>).
\<close>

section \<open>Errors\<close>

datatype numErr = ErrRange | ErrSyntax | ErrBase int | ErrBitSize int

record NumError =
  ne_Func :: string
  ne_Num :: string
  ne_Err :: numErr

definition syntaxError :: "string \<Rightarrow> string \<Rightarrow> NumError" where
  "syntaxError f str = \<lparr>ne_Func = f, ne_Num = str, ne_Err = ErrSyntax\<rparr>"

definition rangeError :: "string \<Rightarrow> string \<Rightarrow> NumError" where
  "rangeError f str = \<lparr>ne_Func = f, ne_Num = str, ne_Err = ErrRange\<rparr>"

definition baseError :: "string \<Rightarrow> string \<Rightarrow> int \<Rightarrow> NumError" where
  "baseError f str base = \<lparr>ne_Func = f, ne_Num = str, ne_Err = ErrBase base\<rparr>"

definition bitSizeError :: "string \<Rightarrow> string \<Rightarrow> int \<Rightarrow> NumError" where
  "bitSizeError f str bitSize = \<lparr>ne_Func = f, ne_Num = str, ne_Err = ErrBitSize bitSize\<rparr>"

section \<open>Integers of the host\<close>

definition intSize :: "bool \<Rightarrow> int" where
  "intSize h = (if h then 32 else 64)"

text \<open>The conversions \<open>int(x)\<close>, \<open>int64(x)\<close> and \<open>uint(x)\<close>.\<close>

definition go_int :: "bool \<Rightarrow> int \<Rightarrow> int" where
  "go_int h x = (if h then sint (word_of_int x :: 32 word) else sint (word_of_int x :: 64 word))"

definition go_uint :: "bool \<Rightarrow> u64 \<Rightarrow> u64" where
  "go_uint h x = (if h then ucast (ucast x :: u32) else x)"

definition maxUint64 :: u64 where
  "maxUint64 = NOT 0"

abbreviation byte :: "char \<Rightarrow> u8" where
  "byte c \<equiv> of_char c"

definition lower :: "u8 \<Rightarrow> u8" where
  "lower c = c OR (byte (CHR ''x'') - byte (CHR ''X''))"

section \<open>Parsing\<close>

text \<open>The base that a literal names and what follows its prefix.\<close>

definition literal_base :: "string \<Rightarrow> int \<times> string" where
  "literal_base s =
     (if s ! 0 = CHR ''0'' then
        (if length s \<ge> 3 \<and> lower (byte (s ! 1)) = byte (CHR ''b'') then (2, drop 2 s)
         else if length s \<ge> 3 \<and> lower (byte (s ! 1)) = byte (CHR ''o'') then (8, drop 2 s)
         else if length s \<ge> 3 \<and> lower (byte (s ! 1)) = byte (CHR ''x'') then (16, drop 2 s)
         else (8, drop 1 s))
      else (10, s))"

definition digit_value :: "u8 \<Rightarrow> u8 option" where
  "digit_value c =
     (if byte (CHR ''0'') \<le> c \<and> c \<le> byte (CHR ''9'') then Some (c - byte (CHR ''0''))
      else if byte (CHR ''a'') \<le> lower c \<and> lower c \<le> byte (CHR ''z'') then Some (lower c - byte (CHR ''a'') + 10)
      else None)"

text \<open>The loop over the bytes: \<open>Inl\<close> is what an early return gives, \<open>Inr\<close> the state after the loop.\<close>

fun uint_loop :: "bool \<Rightarrow> int \<Rightarrow> u64 \<Rightarrow> u64 \<Rightarrow> string \<Rightarrow> string \<Rightarrow> bool \<Rightarrow> u64 \<Rightarrow> (u64 \<times> NumError option) + (bool \<times> u64)" where
  "uint_loop base0 base cutoff maxVal s0 [] underscores n = Inr (underscores, n)"
| "uint_loop base0 base cutoff maxVal s0 (c # cs) underscores n =
     (if c = CHR ''_'' \<and> base0 then uint_loop base0 base cutoff maxVal s0 cs True n
      else case digit_value (byte c) of
        None \<Rightarrow> Inl (0, Some (syntaxError ''ParseUint'' s0))
      | Some d \<Rightarrow>
          if d \<ge> word_of_int base then Inl (0, Some (syntaxError ''ParseUint'' s0))
          else if n \<ge> cutoff then Inl (maxVal, Some (rangeError ''ParseUint'' s0))
          else
            let n = n * word_of_int base; n1 = n + ucast d in
            if n1 < n \<or> n1 > maxVal then Inl (maxVal, Some (rangeError ''ParseUint'' s0))
            else uint_loop base0 base cutoff maxVal s0 cs underscores n1)"

text \<open>\<open>underscoreOK\<close>: \<open>saw\<close> is the class of the last character.\<close>

fun underscore_loop :: "bool \<Rightarrow> string \<Rightarrow> char \<Rightarrow> bool" where
  "underscore_loop hex [] saw \<longleftrightarrow> saw \<noteq> CHR ''_''"
| "underscore_loop hex (c # cs) saw \<longleftrightarrow>
     (if CHR ''0'' \<le> c \<and> c \<le> CHR ''9''
         \<or> hex \<and> byte (CHR ''a'') \<le> lower (byte c) \<and> lower (byte c) \<le> byte (CHR ''f'') then underscore_loop hex cs (CHR ''0'')
      else if c = CHR ''_'' then (if saw \<noteq> CHR ''0'' then False else underscore_loop hex cs (CHR ''_''))
      else if saw = CHR ''_'' then False
      else underscore_loop hex cs (CHR ''!''))"

definition underscoreOK :: "string \<Rightarrow> bool" where
  "underscoreOK s =
     (let s = (if length s \<ge> 1 \<and> (s ! 0 = CHR ''-'' \<or> s ! 0 = CHR ''+'') then drop 1 s else s) in
      if length s \<ge> 2 \<and> s ! 0 = CHR ''0'' \<and> (lower (byte (s ! 1)) = byte (CHR ''b'')
           \<or> lower (byte (s ! 1)) = byte (CHR ''o'') \<or> lower (byte (s ! 1)) = byte (CHR ''x''))
      then underscore_loop (lower (byte (s ! 1)) = byte (CHR ''x'')) (drop 2 s) (CHR ''0'')
      else underscore_loop False s (CHR ''^''))"

definition ParseUint :: "bool \<Rightarrow> string \<Rightarrow> int \<Rightarrow> int \<Rightarrow> u64 \<times> NumError option" where
  "ParseUint h s base bitSize =
     (if s = '''' then (0, Some (syntaxError ''ParseUint'' s))
      else
        let base0 = (base = 0); s0 = s in
        if \<not> (2 \<le> base \<and> base \<le> 36) \<and> base \<noteq> 0 then (0, Some (baseError ''ParseUint'' s0 base))
        else
          let (base, s) = (if base = 0 then literal_base s else (base, s)) in
          if bitSize \<noteq> 0 \<and> (bitSize < 0 \<or> bitSize > 64) then (0, Some (bitSizeError ''ParseUint'' s0 bitSize))
          else
            let bitSize = (if bitSize = 0 then intSize h else bitSize);
                cutoff = (if base = 10 then maxUint64 div 10 + 1 else if base = 16 then maxUint64 div 16 + 1
                  else maxUint64 div word_of_int base + 1);
                maxVal = push_bit (nat bitSize) 1 - 1
            in case uint_loop base0 base cutoff maxVal s0 s False 0 of
                 Inl r \<Rightarrow> r
               | Inr (underscores, n) \<Rightarrow>
                   if underscores \<and> \<not> underscoreOK s0 then (0, Some (syntaxError ''ParseUint'' s0)) else (n, None))"

text \<open>The end of \<open>ParseInt\<close>: the range check and the sign.\<close>

definition signed_result :: "bool \<Rightarrow> string \<Rightarrow> bool \<Rightarrow> u64 \<Rightarrow> int \<Rightarrow> int \<times> NumError option" where
  "signed_result h s0 neg un bitSize =
     (let bitSize = (if bitSize = 0 then intSize h else bitSize);
          cutoff = push_bit (nat (bitSize - 1)) 1 :: u64
      in if \<not> neg \<and> un \<ge> cutoff then (sint (cutoff - 1), Some (rangeError ''ParseInt'' s0))
         else if neg \<and> un > cutoff then (sint (- cutoff), Some (rangeError ''ParseInt'' s0))
         else (sint (if neg then - un else un), None))"

definition ParseInt :: "bool \<Rightarrow> string \<Rightarrow> int \<Rightarrow> int \<Rightarrow> int \<times> NumError option" where
  "ParseInt h s base bitSize =
     (if s = '''' then (0, Some (syntaxError ''ParseInt'' s))
      else
        let s0 = s;
            (neg, s) = (if s ! 0 = CHR ''+'' then (False, drop 1 s) else if s ! 0 = CHR ''-'' then (True, drop 1 s) else (False, s));
            (un, err) = ParseUint h s base bitSize
        in case err of
             None \<Rightarrow> signed_result h s0 neg un bitSize
           | Some e \<Rightarrow>
               if ne_Err e \<noteq> ErrRange then (0, Some (e\<lparr>ne_Func := ''ParseInt'', ne_Num := s0\<rparr>))
               else signed_result h s0 neg un bitSize)"

fun atoi_loop :: "bool \<Rightarrow> string \<Rightarrow> string \<Rightarrow> int \<Rightarrow> NumError + int" where
  "atoi_loop h s0 [] n = Inr n"
| "atoi_loop h s0 (c # cs) n =
     (let ch = byte c - byte (CHR ''0'') in
      if ch > 9 then Inl (syntaxError ''Atoi'' s0)
      else atoi_loop h s0 cs (go_int h (n * 10 + uint ch)))"

definition Atoi :: "bool \<Rightarrow> string \<Rightarrow> int \<times> NumError option" where
  "Atoi h s =
     (let sLen = length s in
      if intSize h = 32 \<and> 0 < sLen \<and> sLen < 10 \<or> intSize h = 64 \<and> 0 < sLen \<and> sLen < 19 then
        (let s0 = s; sign = (s ! 0 = CHR ''-'' \<or> s ! 0 = CHR ''+''); s = (if sign then drop 1 s else s) in
         if sign \<and> length s < 1 then (0, Some (syntaxError ''Atoi'' s0))
         else case atoi_loop h s0 s 0 of
           Inl e \<Rightarrow> (0, Some e)
         | Inr n \<Rightarrow> (if s0 ! 0 = CHR ''-'' then go_int h (- n) else n, None))
      else
        let (i64, err) = ParseInt h s 10 0
        in (go_int h i64, map_option (\<lambda>e. e\<lparr>ne_Func := ''Atoi''\<rparr>) err))"

section \<open>Formatting\<close>

definition smallsString :: string where
  "smallsString = ''00010203040506070809'' @ ''10111213141516171819'' @ ''20212223242526272829''
     @ ''30313233343536373839'' @ ''40414243444546474849'' @ ''50515253545556575859'' @ ''60616263646566676869''
     @ ''70717273747576777879'' @ ''80818283848586878889'' @ ''90919293949596979899''"

definition digits36 :: string where
  "digits36 = ''0123456789abcdefghijklmnopqrstuvwxyz''"

definition nSmalls :: int where
  "nSmalls = 100"

definition small :: "nat \<Rightarrow> string" where
  "small i = (if i < 10 then take 1 (drop i digits36) else take 2 (drop (i * 2) smallsString))"

text \<open>
  The loops of \<open>formatBits\<close> fill a buffer from its end: \<open>a\<close> is the part that is filled. The
  first is for bases that are powers of two, the second for the others; each of at most 64
  passes gives a digit.
\<close>

fun pow2_loop :: "nat \<Rightarrow> bool \<Rightarrow> u64 \<Rightarrow> nat \<Rightarrow> u64 \<Rightarrow> string \<Rightarrow> u64 \<times> string" where
  "pow2_loop 0 h base shift u a = (u, a)"
| "pow2_loop (Suc k) h base shift u a =
     (if u \<ge> base then pow2_loop k h base shift (drop_bit shift u) (digits36 ! unat (go_uint h u AND (base - 1)) # a) else (u, a))"

fun base_loop :: "nat \<Rightarrow> bool \<Rightarrow> u64 \<Rightarrow> u64 \<Rightarrow> string \<Rightarrow> u64 \<times> string" where
  "base_loop 0 h base u a = (u, a)"
| "base_loop (Suc k) h base u a =
     (if u \<ge> base then
        (let q = u div base in base_loop k h base q (digits36 ! unat (go_uint h (u - q * base)) # a))
      else (u, a))"

text \<open>Base 10 goes by two digits at a time.\<close>

definition two_digits :: "u64 \<Rightarrow> string \<Rightarrow> u64 \<times> string" where
  "two_digits us a =
     (let i = unat (us mod 100 * 2) in (us div 100, smallsString ! i # smallsString ! (i + 1) # a))"

function dec_loop :: "u64 \<Rightarrow> string \<Rightarrow> u64 \<times> string" where
  "dec_loop us a = (if us \<ge> 100 then (let (us, a) = two_digits us a in dec_loop us a) else (us, a))"
  by pat_completeness auto
termination
  by (relation "measure (\<lambda>(us, a). unat us)") (auto simp: two_digits_def unat_div word_le_nat_alt Let_def)

text \<open>On a 32-bit host, nine digits at a time first, with 32-bit operations.\<close>

definition nine_digits :: "bool \<Rightarrow> u64 \<Rightarrow> string \<Rightarrow> u64 \<times> string" where
  "nine_digits h u a =
     (let q = u div 1000000000; us = go_uint h (u - q * 1000000000);
          (us, a) = two_digits us a; (us, a) = two_digits us a; (us, a) = two_digits us a; (us, a) = two_digits us a
      in (q, smallsString ! (unat us * 2 + 1) # a))"

function dec32_loop :: "bool \<Rightarrow> u64 \<Rightarrow> string \<Rightarrow> u64 \<times> string" where
  "dec32_loop h u a = (if u \<ge> 1000000000 then (let (u, a) = nine_digits h u a in dec32_loop h u a) else (u, a))"
  by pat_completeness auto
termination
  by (relation "measure (\<lambda>(h, u, a). unat u)") (auto simp: nine_digits_def unat_div word_le_nat_alt Let_def split: prod.splits)

definition dec_digits :: "bool \<Rightarrow> u64 \<Rightarrow> string \<Rightarrow> string" where
  "dec_digits h u a =
     (let (u, a) = (if h then dec32_loop h u a else (u, a));
          (us, a) = dec_loop (go_uint h u) a;
          i = unat (us * 2); a = smallsString ! (i + 1) # a
      in if us \<ge> 10 then smallsString ! i # a else a)"

definition isPowerOfTwo :: "int \<Rightarrow> bool" where
  "isPowerOfTwo x \<longleftrightarrow> (word_of_int x :: 64 word) AND word_of_int (x - 1) = 0"

text \<open>\<open>bits.TrailingZeros\<close>, by the multiplication with a de Bruijn sequence.\<close>

definition deBruijn32 :: u32 where "deBruijn32 = 0x077CB531"

definition deBruijn32tab :: "nat list" where
  "deBruijn32tab = [0, 1, 28, 2, 29, 14, 24, 3, 30, 22, 20, 15, 25, 17, 4, 8,
     31, 27, 13, 23, 21, 19, 16, 7, 26, 12, 18, 6, 11, 5, 10, 9]"

definition deBruijn64 :: u64 where "deBruijn64 = 0x03f79d71b4ca8b09"

definition deBruijn64tab :: "nat list" where
  "deBruijn64tab = [0, 1, 56, 2, 57, 49, 28, 3, 61, 58, 42, 50, 38, 29, 17, 4,
     62, 47, 59, 36, 45, 43, 51, 22, 53, 39, 33, 30, 24, 18, 12, 5,
     63, 55, 48, 27, 60, 41, 37, 16, 46, 35, 44, 21, 52, 32, 23, 11,
     54, 26, 40, 15, 34, 20, 31, 10, 25, 14, 19, 9, 13, 8, 7, 6]"

definition TrailingZeros32 :: "u32 \<Rightarrow> nat" where
  "TrailingZeros32 x = (if x = 0 then 32 else deBruijn32tab ! unat (drop_bit (32 - 5) ((x AND - x) * deBruijn32)))"

definition TrailingZeros64 :: "u64 \<Rightarrow> nat" where
  "TrailingZeros64 x = (if x = 0 then 64 else deBruijn64tab ! unat (drop_bit (64 - 6) ((x AND - x) * deBruijn64)))"

definition TrailingZeros :: "bool \<Rightarrow> u64 \<Rightarrow> nat" where
  "TrailingZeros h x = (if h then TrailingZeros32 (ucast x) else TrailingZeros64 x)"

definition formatBits :: "bool \<Rightarrow> string \<Rightarrow> u64 \<Rightarrow> int \<Rightarrow> bool \<Rightarrow> bool \<Rightarrow> (string \<times> string) outcome" where
  "formatBits h dst u base neg app =
     (if base < 2 \<or> base > int (length digits36) then Panic ''strconv: illegal AppendInt/FormatInt base''
      else
        let u = (if neg then - u else u);
            b = word_of_int base :: u64;
            a = (if base = 10 then dec_digits h u []
                 else
                   let (u, a) = (if isPowerOfTwo base
                       then pow2_loop 64 h b (unat ((of_nat (TrailingZeros h b) :: u64) AND 7)) u []
                       else base_loop 64 h b u [])
                   in digits36 ! unat (go_uint h u) # a);
            a = (if neg then CHR ''-'' # a else a)
        in if app then Ret (dst @ a, '''') else Ret ('''', a))"

definition FormatUint :: "bool \<Rightarrow> u64 \<Rightarrow> int \<Rightarrow> string outcome" where
  "FormatUint h i base =
     (if uint i < nSmalls \<and> base = 10 then Ret (small (unat i))
      else map_outcome snd (formatBits h '''' i base False False))"

text \<open>An \<open>int64\<close> is its value.\<close>

definition FormatInt :: "bool \<Rightarrow> int \<Rightarrow> int \<Rightarrow> string outcome" where
  "FormatInt h i base =
     (if 0 \<le> i \<and> i < nSmalls \<and> base = 10 then Ret (small (nat i))
      else map_outcome snd (formatBits h '''' (word_of_int i) base (i < 0) False))"

definition Itoa :: "bool \<Rightarrow> int \<Rightarrow> string outcome" where
  "Itoa h i = FormatInt h i 10"

definition AppendInt :: "bool \<Rightarrow> string \<Rightarrow> int \<Rightarrow> int \<Rightarrow> string outcome" where
  "AppendInt h dst i base =
     (if 0 \<le> i \<and> i < nSmalls \<and> base = 10 then Ret (dst @ small (nat i))
      else map_outcome fst (formatBits h dst (word_of_int i) base (i < 0) True))"

definition AppendUint :: "bool \<Rightarrow> string \<Rightarrow> u64 \<Rightarrow> int \<Rightarrow> string outcome" where
  "AppendUint h dst i base =
     (if uint i < nSmalls \<and> base = 10 then Ret (dst @ small (unat i))
      else map_outcome fst (formatBits h dst i base False True))"

section \<open>The internal package\<close>

function uitoa_loop :: "u64 \<Rightarrow> string \<Rightarrow> u64 \<times> string" where
  "uitoa_loop val buf =
     (if val \<ge> 10 then (let q = val div 10 in uitoa_loop q (char_of (unat (ucast (48 + val - q * 10) :: u8)) # buf)) else (val, buf))"
  by pat_completeness auto
termination
  by (relation "measure (\<lambda>(v, buf). unat v)") (auto simp: unat_div word_le_nat_alt)

text \<open>\<open>val\<close> is a \<open>uint\<close>.\<close>

definition Uitoa :: "u64 \<Rightarrow> string" where
  "Uitoa val =
     (if val = 0 then ''0''
      else let (val, buf) = uitoa_loop val [] in char_of (unat (ucast (48 + val) :: u8)) # buf)"

definition itoa_Itoa :: "bool \<Rightarrow> int \<Rightarrow> string" where
  "itoa_Itoa h val = (if val < 0 then ''-'' @ Uitoa (go_uint h (word_of_int (- val))) else Uitoa (go_uint h (word_of_int val)))"

definition hex_digits :: string where
  "hex_digits = ''0123456789abcdef''"

function uitox_loop :: "u64 \<Rightarrow> string \<Rightarrow> u64 \<times> string" where
  "uitox_loop val buf =
     (if val \<ge> 16 then uitox_loop (val div 16) (hex_digits ! unat (val mod 16) # buf) else (val, buf))"
  by pat_completeness auto
termination
  by (relation "measure (\<lambda>(v, buf). unat v)") (auto simp: unat_div word_le_nat_alt)

definition Uitox :: "u64 \<Rightarrow> string" where
  "Uitox val =
     (if val = 0 then ''0x0''
      else let (val, buf) = uitox_loop val [] in CHR ''0'' # CHR ''x'' # hex_digits ! unat (val mod 16) # buf)"

declare dec_loop.simps [simp del] dec32_loop.simps [simp del] uitoa_loop.simps [simp del] uitox_loop.simps [simp del]

section \<open>Booleans\<close>

definition ParseBool :: "string \<Rightarrow> bool \<times> NumError option" where
  "ParseBool str =
     (if str \<in> {''1'', ''t'', ''T'', ''true'', ''TRUE'', ''True''} then (True, None)
      else if str \<in> {''0'', ''f'', ''F'', ''false'', ''FALSE'', ''False''} then (False, None)
      else (False, Some (syntaxError ''ParseBool'' str)))"

definition FormatBool :: "bool \<Rightarrow> string" where
  "FormatBool b = (if b then ''true'' else ''false'')"

definition AppendBool :: "string \<Rightarrow> bool \<Rightarrow> string" where
  "AppendBool dst b = (if b then dst @ ''true'' else dst @ ''false'')"

end
