(* ===== verification/NetPrefix.thy ===== *)
theory NetPrefix
  imports NetText Strconv
begin

text \<open>
  The types \<open>AddrPort\<close> and \<open>Prefix\<close> of \<^verbatim>\<open>net/netip/netip.go\<close>: constructors, comparison, membership, overlap, and their
  text and binary forms.
\<close>

section \<open>Addresses with ports\<close>

record AddrPort =
  ap_ip :: Addr
  ap_port :: u16

definition AddrPortFrom :: "Addr \<Rightarrow> u16 \<Rightarrow> AddrPort" where
  "AddrPortFrom ip port = \<lparr>ap_ip = ip, ap_port = port\<rparr>"

definition zero_AddrPort :: AddrPort where
  "zero_AddrPort = \<lparr>ap_ip = zero_Addr, ap_port = 0\<rparr>"

text \<open>The errors: a fixed message, or one that quotes its arguments.\<close>

datatype portError = PortMsg string | InvalidPort (ie_port: string) (ie_in: string) | PortAddr parseAddrError
  | BracketsOn4 string | NoBracketsOn6 string

definition splitAddrPort :: "string \<Rightarrow> portError + string \<times> string \<times> bool" where
  "splitAddrPort s =
     (let i = LastIndexByteString s (CHR '':'') in
      if i = -1 then Inl (PortMsg ''not an ip:port'')
      else
        let ip = take (nat i) s; port = drop (nat (i + 1)) s in
        if length ip = 0 then Inl (PortMsg ''no IP'')
        else if length port = 0 then Inl (PortMsg ''no port'')
        else if ip ! 0 = CHR ''['' then
          (if length ip < 2 \<or> ip ! (length ip - 1) \<noteq> CHR '']'' then Inl (PortMsg ''missing ]'')
           else Inr (drop 1 (take (length ip - 1) ip), port, True))
        else Inr (ip, port, False))"

definition ParseAddrPort :: "bool \<Rightarrow> string \<Rightarrow> portError + AddrPort" where
  "ParseAddrPort h s = (case splitAddrPort s of
     Inl err \<Rightarrow> Inl err
   | Inr (ip, port, v6) \<Rightarrow>
       (case ParseUint h port 10 16 of
          (_, Some _) \<Rightarrow> Inl (InvalidPort port s)
        | (port16, None) \<Rightarrow>
            (case ParseAddr ip of
               Inl err \<Rightarrow> Inl (PortAddr err)
             | Inr addr \<Rightarrow>
                 if v6 \<and> Is4 addr then Inl (BracketsOn4 s)
                 else if \<not> v6 \<and> Is6 addr then Inl (NoBracketsOn6 s)
                 else Inr \<lparr>ap_ip = addr, ap_port = ucast port16\<rparr>)))"

definition AddrPort_IsValid :: "AddrPort \<Rightarrow> bool" where
  "AddrPort_IsValid p \<longleftrightarrow> Addr_IsValid (ap_ip p)"

definition AddrPort_Compare :: "AddrPort \<Rightarrow> AddrPort \<Rightarrow> int" where
  "AddrPort_Compare p p2 =
     (let c = Addr_Compare (ap_ip p) (ap_ip p2) in
      if c \<noteq> 0 then c else int_cmp (uint (ap_port p)) (uint (ap_port p2)))"

definition AddrPort_String :: "bool \<Rightarrow> AddrPort \<Rightarrow> string outcome" where
  "AddrPort_String h p = (case a_z (ap_ip p) of
     Z0 \<Rightarrow> Ret ''invalid AddrPort''
   | Z4 \<Rightarrow> AppendUint h (appendTo4 (ap_ip p) '''' @ '':'') (ucast (ap_port p)) 10
   | _ \<Rightarrow> Ret (''['' @ Addr_String (ap_ip p) @ '']:'' @ Uitoa (ucast (ap_port p))))"

definition AddrPort_AppendTo :: "bool \<Rightarrow> AddrPort \<Rightarrow> string \<Rightarrow> string outcome" where
  "AddrPort_AppendTo h p b =
     (if a_z (ap_ip p) = Z0 then Ret b
      else
        let b = (if a_z (ap_ip p) = Z4 then appendTo4 (ap_ip p) b
          else
            (if Is4In6 (ap_ip p) then
               (let b = appendTo4 (Unmap (ap_ip p)) (b @ ''[::ffff:''); z = Addr_Zone (ap_ip p) in
                if z \<noteq> '''' then b @ ''%'' @ z else b)
             else appendTo6 (ap_ip p) (b @ ''['')) @ '']'')
        in AppendUint h (b @ '':'') (ucast (ap_port p)) 10)"

definition AddrPort_MarshalText :: "bool \<Rightarrow> AddrPort \<Rightarrow> string outcome" where
  "AddrPort_MarshalText h p = AddrPort_AppendTo h p ''''"

definition AddrPort_UnmarshalText :: "bool \<Rightarrow> string \<Rightarrow> portError + AddrPort" where
  "AddrPort_UnmarshalText h text = (if length text = 0 then Inr zero_AddrPort else ParseAddrPort h text)"

definition AddrPort_MarshalBinary :: "AddrPort \<Rightarrow> u8 list" where
  "AddrPort_MarshalBinary p =
     (let b = marshalBinaryWithTrailingBytes (ap_ip p) 2 in take (length b - 2) b @ lePutUint16 (ap_port p))"

text \<open>\<open>None\<close> is the error "unexpected slice size".\<close>

definition AddrPort_UnmarshalBinary :: "u8 list \<Rightarrow> AddrPort option" where
  "AddrPort_UnmarshalBinary b =
     (if length b < 2 then None
      else case Addr_UnmarshalBinary (take (length b - 2) b) of
        None \<Rightarrow> None
      | Some addr \<Rightarrow> Some (AddrPortFrom addr (leUint16 (drop (length b - 2) b))))"

section \<open>Prefixes\<close>

record Prefix =
  pf_ip :: Addr
  pf_bitsPlusOne :: u8

definition zero_Prefix :: Prefix where
  "zero_Prefix = \<lparr>pf_ip = zero_Addr, pf_bitsPlusOne = 0\<rparr>"

definition PrefixFrom :: "Addr \<Rightarrow> int \<Rightarrow> Prefix" where
  "PrefixFrom ip bits =
     \<lparr>pf_ip = withoutZone ip,
      pf_bitsPlusOne = (if \<not> Addr_isZero ip \<and> bits \<ge> 0 \<and> bits \<le> BitLen ip then word_of_int bits + 1 else 0)\<rparr>"

definition Bits :: "Prefix \<Rightarrow> int" where
  "Bits p = uint (pf_bitsPlusOne p) - 1"

definition Prefix_IsValid :: "Prefix \<Rightarrow> bool" where
  "Prefix_IsValid p \<longleftrightarrow> pf_bitsPlusOne p > 0"

definition Prefix_isZero :: "Prefix \<Rightarrow> bool" where
  "Prefix_isZero p \<longleftrightarrow> p = zero_Prefix"

definition IsSingleIP :: "Prefix \<Rightarrow> bool" where
  "IsSingleIP p \<longleftrightarrow> Prefix_IsValid p \<and> Bits p = BitLen (pf_ip p)"

text \<open>\<open>Addr.Prefix\<close>: the errors of a negative length and of one that is too large for the family.\<close>

datatype prefixError = NegativeBits | TooLarge4 int | TooLarge6 int | NoSlash string | PrefixAddr string parseAddrError
  | ZoneInPrefix string | BadBits string string | OutOfRange string

definition Addr_Prefix :: "Addr \<Rightarrow> int \<Rightarrow> prefixError + Prefix" where
  "Addr_Prefix ip b =
     (if b < 0 then Inl NegativeBits
      else case a_z ip of
        Z0 \<Rightarrow> Inr zero_Prefix
      | Z4 \<Rightarrow>
          if b > 32 then Inl (TooLarge4 b)
          else Inr (PrefixFrom (ip\<lparr>a_addr := u128_and (a_addr ip) (mask6 (nat (b + 96)))\<rparr>) b)
      | _ \<Rightarrow>
          if b > 128 then Inl (TooLarge6 b)
          else Inr (PrefixFrom (ip\<lparr>a_addr := u128_and (a_addr ip) (mask6 (nat b))\<rparr>) b))"

definition Prefix_compare :: "Prefix \<Rightarrow> Prefix \<Rightarrow> int" where
  "Prefix_compare p p2 =
     (let c = int_cmp (BitLen (pf_ip p)) (BitLen (pf_ip p2)) in
      if c \<noteq> 0 then c
      else let c = int_cmp (Bits p) (Bits p2) in
        if c \<noteq> 0 then c else Addr_Compare (pf_ip p) (pf_ip p2))"

definition ParsePrefix :: "bool \<Rightarrow> string \<Rightarrow> prefixError + Prefix" where
  "ParsePrefix h s =
     (let i = LastIndexByteString s (CHR ''/'') in
      if i < 0 then Inl (NoSlash s)
      else case ParseAddr (take (nat i) s) of
        Inl err \<Rightarrow> Inl (PrefixAddr s err)
      | Inr ip \<Rightarrow>
          if Is6 ip \<and> a_z ip \<noteq> Z6noz then Inl (ZoneInPrefix s)
          else
            let bitsStr = drop (nat (i + 1)) s in
            if length bitsStr > 1 \<and> (bitsStr ! 0 < CHR ''1'' \<or> bitsStr ! 0 > CHR ''9'') then Inl (BadBits s bitsStr)
            else case Atoi h bitsStr of
              (_, Some _) \<Rightarrow> Inl (BadBits s bitsStr)
            | (bits, None) \<Rightarrow>
                let maxBits = (if Is6 ip then 128 else 32) in
                if bits < 0 \<or> bits > maxBits then Inl (OutOfRange s)
                else Inr (PrefixFrom ip bits))"

text \<open>The zero prefix when \<open>Addr.Prefix\<close> fails.\<close>

definition Masked :: "Prefix \<Rightarrow> Prefix" where
  "Masked p = (case Addr_Prefix (pf_ip p) (Bits p) of Inl _ \<Rightarrow> zero_Prefix | Inr m \<Rightarrow> m)"

definition Contains :: "Prefix \<Rightarrow> Addr \<Rightarrow> bool" where
  "Contains p ip =
     (if \<not> Prefix_IsValid p \<or> hasZone ip then False
      else
        let f1 = BitLen (pf_ip p); f2 = BitLen ip in
        if f1 = 0 \<or> f2 = 0 \<or> f1 \<noteq> f2 then False
        else if Is4 ip then
          (ucast (drop_bit (nat ((32 - Bits p) AND 63)) (lo (a_addr ip) XOR lo (a_addr (pf_ip p)))) :: u32) = 0
        else u128_isZero (u128_and (u128_xor (a_addr ip) (a_addr (pf_ip p))) (mask6 (nat (Bits p)))))"

definition Overlaps :: "Prefix \<Rightarrow> Prefix \<Rightarrow> bool" where
  "Overlaps p o' =
     (if \<not> Prefix_IsValid p \<or> \<not> Prefix_IsValid o' then False
      else if p = o' then True
      else if Is4 (pf_ip p) \<noteq> Is4 (pf_ip o') then False
      else
        let pb = Bits p; ob = Bits o'; minBits = (if pb < ob then pb else ob) in
        if minBits = 0 then True
        else case Addr_Prefix (pf_ip p) minBits of
          Inl _ \<Rightarrow> False
        | Inr p \<Rightarrow> (case Addr_Prefix (pf_ip o') minBits of Inl _ \<Rightarrow> False | Inr o' \<Rightarrow> pf_ip p = pf_ip o'))"

definition Prefix_AppendTo :: "Prefix \<Rightarrow> string \<Rightarrow> string" where
  "Prefix_AppendTo p b =
     (if Prefix_isZero p then b
      else if \<not> Prefix_IsValid p then b @ ''invalid Prefix''
      else
        let b = (if a_z (pf_ip p) = Z4 then appendTo4 (pf_ip p) b
          else if Is4In6 (pf_ip p) then appendTo4 (Unmap (pf_ip p)) (b @ ''::ffff:'')
          else appendTo6 (pf_ip p) b)
        in appendDecimal (b @ ''/'') (word_of_int (Bits p)))"

definition Prefix_MarshalText :: "Prefix \<Rightarrow> string" where
  "Prefix_MarshalText p = Prefix_AppendTo p ''''"

definition Prefix_UnmarshalText :: "bool \<Rightarrow> string \<Rightarrow> prefixError + Prefix" where
  "Prefix_UnmarshalText h text = (if length text = 0 then Inr zero_Prefix else ParsePrefix h text)"

definition Prefix_MarshalBinary :: "Prefix \<Rightarrow> u8 list" where
  "Prefix_MarshalBinary p =
     (let b = marshalBinaryWithTrailingBytes (withoutZone (pf_ip p)) 1 in b[length b - 1 := word_of_int (Bits p)])"

definition Prefix_UnmarshalBinary :: "u8 list \<Rightarrow> Prefix option" where
  "Prefix_UnmarshalBinary b =
     (if length b < 1 then None
      else case Addr_UnmarshalBinary (take (length b - 1) b) of
        None \<Rightarrow> None
      | Some addr \<Rightarrow> Some (PrefixFrom addr (uint (b ! (length b - 1)))))"

definition Prefix_String :: "bool \<Rightarrow> Prefix \<Rightarrow> string" where
  "Prefix_String h p =
     (if \<not> Prefix_IsValid p then ''invalid Prefix''
      else Addr_String (pf_ip p) @ ''/'' @ itoa_Itoa h (Bits p))"

section \<open>Well-formed prefixes\<close>

text \<open>What the package builds: a zone-free address, and a length that is invalid (0) or in the range of the family.\<close>

definition wf_Prefix :: "Prefix \<Rightarrow> bool" where
  "wf_Prefix p \<longleftrightarrow> wf_Addr (pf_ip p) \<and> \<not> hasZone (pf_ip p) \<and> Bits p \<le> BitLen (pf_ip p)
     \<and> (a_z (pf_ip p) = Z0 \<longrightarrow> \<not> Prefix_IsValid p)"

end
