(* ===== verification/NetAddrProps.thy ===== *)
theory NetAddrProps
  imports NetAddr
begin

text \<open>
  What the operations of \<open>Addr\<close> guarantee: the binary form is exact, \<open>Compare\<close> is a linear order,
  \<open>Next\<close> and \<open>Prev\<close> walk through a family.
\<close>

section \<open>Encoding and decoding\<close>

lemma bit_From4:
  assumes "n < 32"
  shows "bit (lo (a_addr (AddrFrom4 b))) n \<longleftrightarrow>
     24 \<le> n \<and> bit (b ! 0) (n - 24) \<or> 16 \<le> n \<and> n < 24 \<and> bit (b ! 1) (n - 16) \<or>
      8 \<le> n \<and> n < 16 \<and> bit (b ! 2) (n - 8) \<or> n < 8 \<and> bit (b ! 3) n"
proof -
  have m: "(0xffff00000000 :: u64) = push_bit 32 0xffff" by simp
  consider "n < 8" | "8 \<le> n" "n < 16" | "16 \<le> n" "n < 24" | "24 \<le> n" by linarith
  then show ?thesis using assms
    unfolding AddrFrom4_def m
    by cases (simp_all add: bit_or_iff bit_shifted bit_push_bit_iff [of 32 _ n] del: push_bit_numeral push_bit_Suc_numeral)
qed

lemma upper_From4 [simp]: "drop_bit 32 (lo (a_addr (AddrFrom4 b))) = 0xffff"
proof -
  have z: "drop_bit 32 (push_bit k (ucast c :: u64)) = 0" if "k \<le> 24" for k and c :: u8
    using that by (intro bit_word_eqI) (auto simp: bit_drop_bit_eq bit_shifted)
  have z0: "drop_bit 32 (ucast c :: u64) = 0" for c :: u8
    using z [of 0 c] by simp
  have "drop_bit 32 (0xffff00000000 :: u64) = 0xffff" by simp
  then show ?thesis by (simp add: AddrFrom4_def drop_bit_or z z0)
qed

lemma put_From4:
  assumes "length b = 4"
  shows "bePutUint32 (ucast (lo (a_addr (AddrFrom4 b)))) = b"
proof -
  let ?v = "ucast (lo (a_addr (AddrFrom4 b))) :: u32"
  have bt: "bit ?v n \<longleftrightarrow> n < 32 \<and> bit (lo (a_addr (AddrFrom4 b))) n" for n
    by (auto simp: bit_ucast_iff)
  have bytes: "byte_at 24 ?v = b ! 0" "byte_at 16 ?v = b ! 1" "byte_at 8 ?v = b ! 2"
    by (rule bit_word_eqI, simp add: bit_ucast_iff [of "drop_bit _ _"] bit_drop_bit_eq bt bit_From4)+
  have "ucast ?v = b ! 3"
    by (rule bit_word_eqI) (simp add: bit_ucast_iff [of ?v] bt bit_From4)
  then show ?thesis using byte_lists(2) [OF assms] bytes by (simp add: bePutUint32_def)
qed

lemma From4_ucast:
  assumes "a_z ip = Z4" and "wf_Addr ip"
  shows "AddrFrom4 (bePutUint32 (ucast (lo (a_addr ip)))) = ip"
proof -
  have w: "hi (a_addr ip) = 0" "drop_bit 32 (lo (a_addr ip)) = 0xffff" using assms by (simp_all add: wf_Addr_def)
  have "lo (a_addr (AddrFrom4 (bePutUint32 (ucast (lo (a_addr ip)))))) = lo (a_addr ip)"
    using From4_put mapped4 [OF w(2)] by simp
  moreover have "hi (a_addr (AddrFrom4 b)) = 0" "a_z (AddrFrom4 b) = Z4" for b by (simp_all add: AddrFrom4_def)
  ultimately show ?thesis using w(1) assms(1) by (metis Addr.equality uint128.equality old.unit.exhaust)
qed

lemma From16_put [simp]: "AddrFrom16 (bePutUint64 h @ bePutUint64 l) = \<lparr>a_addr = \<lparr>hi = h, lo = l\<rparr>, a_z = Z6noz\<rparr>"
proof -
  have "length (bePutUint64 h) = 8" by (simp add: bePutUint64_def)
  then show ?thesis by (simp add: AddrFrom16_def beUint64_put)
qed

lemma put_lengths [simp]: "length (bePutUint64 v) = 8" "length (bePutUint32 w) = 4"
  by (simp_all add: bePutUint64_def bePutUint32_def)

lemma put_From16: "length b = 16 \<Longrightarrow> bePutUint64 (hi (a_addr (AddrFrom16 b))) @ bePutUint64 (lo (a_addr (AddrFrom16 b))) = b"
  by (simp add: AddrFrom16_def put_beUint64)

lemma bytes_string [simp]: "of_bytes (to_bytes s) = s" "to_bytes (of_bytes b) = b"
proof -
  have "unat (of_nat (of_char c) :: u8) = of_char c" for c :: char
    using of_char_of [of "of_char c :: nat"] by (simp add: unat_of_nat)
  then show "of_bytes (to_bytes s) = s" by (simp add: of_bytes_def to_bytes_def comp_def)
  have "(of_char (char_of (unat w) :: char) :: nat) = unat w" for w :: u8
    using unsigned_less [of w, where ?'a = nat] by simp
  then show "to_bytes (of_bytes b) = b" by (simp add: of_bytes_def to_bytes_def comp_def)
qed

lemma to_bytes_Nil [simp]: "to_bytes [] = []" "to_bytes s = [] \<longleftrightarrow> s = []" "of_bytes b = [] \<longleftrightarrow> b = []" "length (to_bytes s) = length s"
  by (simp_all add: to_bytes_def of_bytes_def)

section \<open>Properties of addresses\<close>

lemma wf_cases:
  assumes "wf_Addr ip"
  obtains "ip = zero_Addr" | "a_z ip = Z4" | h l where "ip = \<lparr>a_addr = \<lparr>hi = h, lo = l\<rparr>, a_z = Z6noz\<rparr>"
    | h l s where "ip = \<lparr>a_addr = \<lparr>hi = h, lo = l\<rparr>, a_z = Zone s\<rparr>" "s \<noteq> ''''"
proof (cases ip)
  case (fields u z)
  then show thesis using assms that by (cases u; cases z) (auto simp: wf_Addr_def zero_Addr_def)
qed

lemma Addr_binary:
  "(wf_Addr ip \<longrightarrow> Addr_UnmarshalBinary (Addr_MarshalBinary ip) = Some ip)
   \<and> (\<forall>ip'. Addr_UnmarshalBinary b = Some ip' \<longrightarrow> wf_Addr ip' \<and> Addr_MarshalBinary ip' = b)"
proof (intro conjI impI allI)
  assume "wf_Addr ip"
  then show "Addr_UnmarshalBinary (Addr_MarshalBinary ip) = Some ip"
  proof (rule wf_cases)
    assume "a_z ip = Z4"
    then show ?thesis using From4_ucast [OF _ \<open>wf_Addr ip\<close>]
      by (simp add: Addr_MarshalBinary_def marshalBinaryWithTrailingBytes_def Addr_UnmarshalBinary_def)
  qed (simp_all add: Addr_MarshalBinary_def marshalBinaryWithTrailingBytes_def Addr_UnmarshalBinary_def
      zero_Addr_def Addr_Zone_def WithZone_def Is6_def to_bytes_def [of "[]"])
next
  fix ip'
  assume "Addr_UnmarshalBinary b = Some ip'"
  then consider "length b = 0" "ip' = zero_Addr" | "length b = 4" "ip' = AddrFrom4 b" | "length b = 16" "ip' = AddrFrom16 b"
    | "length b > 16" "ip' = WithZone (AddrFrom16 (take 16 b)) (of_bytes (drop 16 b))"
    by (auto simp: Addr_UnmarshalBinary_def Let_def split: if_splits)
  then have "wf_Addr ip' \<and> Addr_MarshalBinary ip' = b"
  proof cases
    case 2
    moreover have "hi (a_addr (AddrFrom4 b)) = 0" "a_z (AddrFrom4 b) = Z4" by (simp_all add: AddrFrom4_def)
    ultimately show ?thesis using put_From4 by (simp add: Addr_MarshalBinary_def marshalBinaryWithTrailingBytes_def wf_Addr_def)
  next
    case 3
    then show ?thesis using put_From16 by (simp add: Addr_MarshalBinary_def marshalBinaryWithTrailingBytes_def wf_Addr_def AddrFrom16_def Addr_Zone_def)
  next
    case 4
    have "Is6 (AddrFrom16 (take 16 b))" by (simp add: Is6_def AddrFrom16_def)
    then show ?thesis using 4 put_From16 [of "take 16 b"]
      by (simp add: Addr_MarshalBinary_def marshalBinaryWithTrailingBytes_def wf_Addr_def WithZone_def Addr_Zone_def
          append_assoc [symmetric] del: append_assoc)
  qed (simp_all add: Addr_MarshalBinary_def marshalBinaryWithTrailingBytes_def wf_Addr_def zero_Addr_def)
  then show "wf_Addr ip'" "Addr_MarshalBinary ip' = b" by simp_all
qed

text \<open>
  C31. The binary form is exact: decoding what \<open>MarshalBinary\<close> gives is the address, zone included, for
  every address that the package builds; and encoding what \<open>UnmarshalBinary\<close> accepts gives back the bytes, for
  all bytes it accepts.
\<close>

theorem addr_binary_roundtrip:
  "(wf_Addr ip \<longrightarrow> Addr_UnmarshalBinary (Addr_MarshalBinary ip) = Some ip)
   \<and> (\<forall>ip'. Addr_UnmarshalBinary b = Some ip' \<longrightarrow> wf_Addr ip' \<and> Addr_MarshalBinary ip' = b)"
  by (rule Addr_binary)

theorem addr_binary_roundtrip_witness:
  "Addr_UnmarshalBinary (Addr_MarshalBinary (WithZone IPv6Loopback ''eth0'')) = Some (WithZone IPv6Loopback ''eth0'')"
proof -
  have "wf_Addr (WithZone IPv6Loopback ''eth0'')" by code_simp
  then show ?thesis using addr_binary_roundtrip by blast
qed

text \<open>The order of addresses: the family, the 128-bit value, the zone.\<close>

definition addr_key :: "Addr \<Rightarrow> int \<times> 128 word \<times> string" where
  "addr_key ip = (BitLen ip, u128 (a_addr ip), Addr_Zone ip)"

definition key_less :: "int \<times> 128 word \<times> string \<Rightarrow> int \<times> 128 word \<times> string \<Rightarrow> bool" where
  "key_less = (\<lambda>(f, v, z) (f', v', z'). f < f' \<or> f = f' \<and> (v < v' \<or> v = v' \<and> z < z'))"

lemma u128_less: "u128 u < u128 v \<longleftrightarrow> hi u < hi v \<or> hi u = hi v \<and> lo u < lo v"
proof -
  have b: "0 \<le> uint (lo u)" "uint (lo u) < 2 ^ 64" "0 \<le> uint (lo v)" "uint (lo v) < 2 ^ 64"
    using uint_lt2p [of "lo u"] uint_lt2p [of "lo v"] by simp_all
  show ?thesis
  proof (cases "uint (hi u) < uint (hi v)")
    case True
    then have "uint (hi u) * 2 ^ 64 + 2 ^ 64 \<le> uint (hi v) * 2 ^ 64" by simp
    then have "uint (hi u) * 2 ^ 64 + uint (lo u) < uint (hi v) * 2 ^ 64 + uint (lo v)" using b by linarith
    then show ?thesis using True by (simp add: word_less_def uint_u128)
  next
    case False
    note le = this
    show ?thesis
    proof (cases "hi u = hi v")
      case True
      then show ?thesis by (simp add: word_less_def uint_u128)
    next
      case False
      then have "uint (hi v) < uint (hi u)" using le by (simp add: word_uint_eq_iff)
      then have "uint (hi v) * 2 ^ 64 + 2 ^ 64 \<le> uint (hi u) * 2 ^ 64" by simp
      then have "\<not> uint (hi u) * 2 ^ 64 + uint (lo u) < uint (hi v) * 2 ^ 64 + uint (lo v)" using b by linarith
      then show ?thesis using le False by (simp add: word_less_def uint_u128)
    qed
  qed
qed

lemma u128_eq: "u128 u = u128 v \<longleftrightarrow> hi u = hi v \<and> lo u = lo v"
  using u128_inject [of u v] by auto

lemma Compare_key:
  "Addr_Compare x y = (if key_less (addr_key x) (addr_key y) then -1 else if key_less (addr_key y) (addr_key x) then 1 else 0)"
proof (cases "BitLen x" "BitLen y" rule: linorder_cases)
  case equal
  then have fam: "Is6 x = Is6 y" by (auto simp: BitLen_def Is6_def split: zone.splits)
  have zone: "\<not> Is6 x \<Longrightarrow> Addr_Zone x = Addr_Zone y"
    using fam by (auto simp: Addr_Zone_def Is6_def split: zone.splits)
  show ?thesis
  proof (cases "a_addr x = a_addr y")
    case True
    then show ?thesis using equal zone by (auto simp: Addr_Compare_def key_less_def addr_key_def Let_def)
  next
    case False
    then have "hi (a_addr x) \<noteq> hi (a_addr y) \<or> lo (a_addr x) \<noteq> lo (a_addr y)" by auto
    then show ?thesis using equal
      by (cases "hi (a_addr x)" "hi (a_addr y)" rule: linorder_cases; cases "lo (a_addr x)" "lo (a_addr y)" rule: linorder_cases)
        (auto simp: Addr_Compare_def key_less_def addr_key_def Let_def u128_less u128_eq)
  qed
qed (simp_all add: Addr_Compare_def key_less_def addr_key_def Let_def)

text \<open>The comparison is one; it is 0 for equal addresses only.\<close>

lemma key_less_order:
  "key_less x y \<Longrightarrow> \<not> key_less y x" "key_less x y \<Longrightarrow> key_less y z \<Longrightarrow> key_less x z" "\<not> key_less x y \<Longrightarrow> \<not> key_less y x \<Longrightarrow> x = y"
  by (cases x; cases y; auto simp: key_less_def)+

lemma Compare_le: "Addr_Compare a b \<le> 0 \<longleftrightarrow> \<not> key_less (addr_key b) (addr_key a)"
  unfolding Compare_key by (auto dest: key_less_order(1))

interpretation addr_cmp: comparison Addr_Compare
proof
  show "Addr_Compare a b = -1 \<or> Addr_Compare a b = 0 \<or> Addr_Compare a b = 1" for a b
    unfolding Compare_key by simp
  show "Addr_Compare b a = - Addr_Compare a b" for a b
    unfolding Compare_key by (auto dest: key_less_order(1))
  show "Addr_Compare a b \<le> 0 \<Longrightarrow> Addr_Compare b c \<le> 0 \<Longrightarrow> Addr_Compare a c \<le> 0" for a b c
    unfolding Compare_le using key_less_order(2,3) by metis
qed

lemma Compare_equal:
  assumes "wf_Addr a" and "wf_Addr b" and "Addr_Compare a b = 0"
  shows "a = b"
proof -
  have k: "addr_key a = addr_key b"
    using assms(3) unfolding Compare_key by (auto simp: key_less_def addr_key_def split: if_splits)
  then have "a_addr a = a_addr b" by (simp add: addr_key_def u128_inject)
  moreover have "a_z a = a_z b"
    using k assms(1,2) by (auto simp: addr_key_def BitLen_def Addr_Zone_def wf_Addr_def split: zone.splits)
  ultimately show ?thesis by simp
qed

text \<open>
  \<open>Compare\<close> is the three-way comparison of (family, 128-bit value, zone), with no zone before every zone; on
  the addresses that the package builds it is 0 for equal addresses only, so that \<open>Less\<close> is
  a strict linear order.
\<close>

theorem addr_compare_order:
  "Addr_Compare a b = (if key_less (addr_key a) (addr_key b) then -1 else if key_less (addr_key b) (addr_key a) then 1 else 0)
   \<and> Addr_Compare b a = - Addr_Compare a b
   \<and> (wf_Addr a \<longrightarrow> wf_Addr b \<longrightarrow> Addr_Compare a b = 0 \<longrightarrow> a = b)
   \<and> (Less a b \<longrightarrow> Less b c \<longrightarrow> Less a c)"
  using Compare_key [of a b] addr_cmp.swapped [of b a] Compare_equal [of a b] addr_cmp.less_trans [of a b c] by (auto simp: Less_def)

theorem addr_compare_order_witness:
  "Less (AddrFrom4 [127, 0, 0, 1]) (WithZone IPv6Loopback ''eth0'') \<and> AddrFrom16 (bytes16 [(15, 1)]) = IPv6Loopback"
proof -
  have "Less (AddrFrom4 [127, 0, 0, 1]) IPv6Loopback" "Less IPv6Loopback (WithZone IPv6Loopback ''eth0'')"
    "wf_Addr (AddrFrom16 (bytes16 [(15, 1)]))" "wf_Addr IPv6Loopback" "Addr_Compare (AddrFrom16 (bytes16 [(15, 1)])) IPv6Loopback = 0"
    by code_simp+
  then show ?thesis
    using addr_compare_order [of "AddrFrom4 [127, 0, 0, 1]" IPv6Loopback "WithZone IPv6Loopback ''eth0''"]
      addr_compare_order [of "AddrFrom16 (bytes16 [(15, 1)])" IPv6Loopback IPv6Loopback] by blast
qed

text \<open>The number of an address in its family, and the last number.\<close>

definition addr_num :: "Addr \<Rightarrow> int" where
  "addr_num ip = (if Is4 ip then uint (ucast (lo (a_addr ip)) :: u32) else uint (u128 (a_addr ip)))"

definition last_num :: "Addr \<Rightarrow> int" where
  "last_num ip = 2 ^ nat (BitLen ip) - 1"

lemma low_uint: "uint (ucast (x :: u64) :: u32) = uint x mod 2 ^ 32"
  by (simp add: unsigned_ucast_eq take_bit_eq_mod)

lemma up_uint: "drop_bit 32 (x :: u64) = 0xffff \<longleftrightarrow> uint x div 2 ^ 32 = 0xffff"
  by (simp add: word_uint_eq_iff drop_bit_eq_div uint_div)

lemma addr_num_bounds: "a_z ip \<noteq> Z0 \<Longrightarrow> 0 \<le> addr_num ip \<and> addr_num ip \<le> last_num ip"
  using uint_lt2p [of "ucast (lo (a_addr ip)) :: u32"] uint_lt2p [of "u128 (a_addr ip)"]
  by (auto simp: addr_num_def last_num_def BitLen_def Is4_def split: zone.splits)

lemma Next_6:
  assumes "a_z ip \<noteq> Z0" "a_z ip \<noteq> Z4"
  shows "Next ip = (if addr_num ip = last_num ip then zero_Addr else ip\<lparr>a_addr := addOne (a_addr ip)\<rparr>)"
    and "Prev ip = (if addr_num ip = 0 then zero_Addr else ip\<lparr>a_addr := subOne (a_addr ip)\<rparr>)"
proof -
  have "u128 (a_addr ip) = -1 \<longleftrightarrow> addr_num ip = last_num ip"
    using assms by (auto simp: addr_num_def last_num_def Is4_def BitLen_def word_uint_eq_iff
        unsigned_minus_1_eq_mask mask_eq_exp_minus_1 split: zone.splits)
  then have "u128_isZero (addOne (a_addr ip)) \<longleftrightarrow> addr_num ip = last_num ip"
    by (simp add: u128_isZero u128_addOne eq_neg_iff_add_eq_0)
  then show "Next ip = (if addr_num ip = last_num ip then zero_Addr else ip\<lparr>a_addr := addOne (a_addr ip)\<rparr>)"
    using assms by (simp add: Next_def Is4_def)
  have "u128_isZero (a_addr ip) \<longleftrightarrow> addr_num ip = 0"
    using assms by (simp add: u128_isZero addr_num_def Is4_def word_uint_eq_iff)
  then show "Prev ip = (if addr_num ip = 0 then zero_Addr else ip\<lparr>a_addr := subOne (a_addr ip)\<rparr>)"
    using assms by (simp add: Prev_def Is4_def)
qed

text \<open>In the mapped form the upper half of \<open>lo\<close> is \<open>0xffff\<close>, and no carry goes through it.\<close>

lemma Next_4:
  assumes "a_z ip = Z4" "wf_Addr ip"
  shows "Next ip = (if addr_num ip = last_num ip then zero_Addr else ip\<lparr>a_addr := \<lparr>hi = 0, lo = lo (a_addr ip) + 1\<rparr>\<rparr>)"
    and "Prev ip = (if addr_num ip = 0 then zero_Addr else ip\<lparr>a_addr := \<lparr>hi = 0, lo = lo (a_addr ip) - 1\<rparr>\<rparr>)"
    and "addr_num ip < last_num ip \<Longrightarrow> drop_bit 32 (lo (a_addr ip) + 1) = 0xffff"
    and "addr_num ip < last_num ip \<Longrightarrow> uint (ucast (lo (a_addr ip) + 1) :: u32) = addr_num ip + 1"
    and "0 < addr_num ip \<Longrightarrow> drop_bit 32 (lo (a_addr ip) - 1) = 0xffff"
    and "0 < addr_num ip \<Longrightarrow> uint (ucast (lo (a_addr ip) - 1) :: u32) = addr_num ip - 1"
proof -
  let ?x = "lo (a_addr ip)"
  define q where "q = uint ?x mod 2 ^ 32"
  have w: "hi (a_addr ip) = 0" "uint ?x div 2 ^ 32 = 0xffff"
    using assms by (simp_all add: wf_Addr_def up_uint)
  have num: "addr_num ip = q" "last_num ip = 2 ^ 32 - 1"
    using assms(1) by (simp_all add: addr_num_def last_num_def Is4_def BitLen_def low_uint q_def)
  have x: "uint ?x = 0xffff * 2 ^ 32 + q" unfolding q_def using w(2) mult_div_mod_eq [of "2 ^ 32" "uint ?x"] by simp
  have q: "0 \<le> q" "q < 2 ^ 32" by (simp_all add: q_def)
  have "?x \<noteq> -1"
  proof
    assume "?x = -1"
    then have "uint ?x = 2 ^ 64 - 1" by (simp add: unsigned_minus_1_eq_mask mask_eq_exp_minus_1)
    then show False using x q by simp
  qed
  then have up: "uint (?x + 1) = 0xffff * 2 ^ 32 + (q + 1)" using x by (simp add: uint_succ)
  have "?x \<noteq> 0" using x q by (auto simp: word_uint_eq_iff)
  then have down: "uint (?x - 1) = 0xffff * 2 ^ 32 + (q - 1)" using x by (simp add: uint_pred)
  have low1: "(ucast (?x + 1) :: u32) = 0 \<longleftrightarrow> addr_num ip = last_num ip"
  proof -
    have "uint (?x + 1) mod 2 ^ 32 = (q + 1) mod 2 ^ 32" unfolding up by (rule mod_mult_self3)
    then have "uint (ucast (?x + 1) :: u32) = (if q = 2 ^ 32 - 1 then 0 else q + 1)"
      using q unfolding low_uint by auto
    then show ?thesis using num q by (simp add: word_uint_eq_iff)
  qed
  show "Next ip = (if addr_num ip = last_num ip then zero_Addr else ip\<lparr>a_addr := \<lparr>hi = 0, lo = lo (a_addr ip) + 1\<rparr>\<rparr>)"
    using low1 assms(1) w(1) \<open>?x \<noteq> -1\<close> by (simp add: Next_def Is4_def addOne_def Add64_one)
  have low0: "(ucast ?x :: u32) = 0 \<longleftrightarrow> addr_num ip = 0"
    unfolding word_uint_eq_iff low_uint num by (simp add: q_def)
  show "Prev ip = (if addr_num ip = 0 then zero_Addr else ip\<lparr>a_addr := \<lparr>hi = 0, lo = lo (a_addr ip) - 1\<rparr>\<rparr>)"
    using low0 assms(1) w(1) \<open>?x \<noteq> 0\<close> by (simp add: Prev_def Is4_def subOne_def Sub64_one)
  have part: "(0xffff * 2 ^ 32 + y) mod 2 ^ 32 = y" "(0xffff * 2 ^ 32 + y) div 2 ^ 32 = 0xffff" if "0 \<le> y" "y < 2 ^ 32" for y :: int
  proof -
    have "(0xffff * 2 ^ 32 + y) mod 2 ^ 32 = y mod 2 ^ 32" by (rule mod_mult_self3)
    also have "\<dots> = y" using that by (rule mod_pos_pos_trivial)
    finally show "(0xffff * 2 ^ 32 + y) mod 2 ^ 32 = y" .
    show "(0xffff * 2 ^ 32 + y) div 2 ^ 32 = 0xffff"
      using that by simp
  qed
  show "drop_bit 32 (?x + 1) = 0xffff" "uint (ucast (?x + 1) :: u32) = addr_num ip + 1" if "addr_num ip < last_num ip"
    using that q part [of "q + 1"] unfolding up_uint low_uint up num by simp_all
  show "drop_bit 32 (?x - 1) = 0xffff" "uint (ucast (?x - 1) :: u32) = addr_num ip - 1" if "0 < addr_num ip"
    using that q part [of "q - 1"] unfolding up_uint low_uint down num by simp_all
qed

text \<open>
  \<open>Next\<close> and \<open>Prev\<close> on a valid address stay in its family and zone: \<open>Next\<close> gives the address
  with the next number, or the zero address after the last one; \<open>Prev\<close> the one before, or the zero address
  before the first; each undoes the other.
\<close>

theorem addr_next_prev:
  assumes "wf_Addr ip" and "Addr_IsValid ip"
  shows "(addr_num ip = last_num ip \<longrightarrow> Next ip = zero_Addr)
    \<and> (addr_num ip < last_num ip \<longrightarrow> wf_Addr (Next ip) \<and> a_z (Next ip) = a_z ip
        \<and> addr_num (Next ip) = addr_num ip + 1 \<and> Prev (Next ip) = ip)
    \<and> (addr_num ip = 0 \<longrightarrow> Prev ip = zero_Addr)
    \<and> (0 < addr_num ip \<longrightarrow> wf_Addr (Prev ip) \<and> a_z (Prev ip) = a_z ip
        \<and> addr_num (Prev ip) = addr_num ip - 1 \<and> Next (Prev ip) = ip)"
proof (cases "a_z ip = Z4")
  case True
  note n4 = Next_4 [OF True assms(1)]
  have num4: "addr_num x = uint (ucast (lo (a_addr x)) :: u32)" "last_num x = last_num ip" if "a_z x = Z4" for x
    using that True by (simp_all add: addr_num_def Is4_def last_num_def BitLen_def)
  have hi0: "hi (a_addr ip) = 0" using assms True by (simp add: wf_Addr_def)
  have ip: "ip\<lparr>a_addr := \<lparr>hi = 0, lo = lo (a_addr ip)\<rparr>\<rparr> = ip" using hi0 by simp
  have up: "wf_Addr (Next ip) \<and> a_z (Next ip) = a_z ip \<and> addr_num (Next ip) = addr_num ip + 1 \<and> Prev (Next ip) = ip"
    if l: "addr_num ip < last_num ip"
  proof -
    let ?n = "ip\<lparr>a_addr := \<lparr>hi = 0, lo = lo (a_addr ip) + 1\<rparr>\<rparr>"
    have n: "Next ip = ?n" "a_z ?n = Z4" using n4(1) l True by simp_all
    have wf: "wf_Addr ?n" using n4(3) [OF l] True by (simp add: wf_Addr_def)
    have num: "addr_num ?n = addr_num ip + 1" using n4(4) [OF l] num4(1) [OF n(2)] by simp
    have "Prev ?n = ip" using Next_4(2) [OF n(2) wf] num addr_num_bounds [of ip] True ip by simp
    then show ?thesis using n wf num True by simp
  qed
  have down: "wf_Addr (Prev ip) \<and> a_z (Prev ip) = a_z ip \<and> addr_num (Prev ip) = addr_num ip - 1 \<and> Next (Prev ip) = ip"
    if l: "0 < addr_num ip"
  proof -
    let ?n = "ip\<lparr>a_addr := \<lparr>hi = 0, lo = lo (a_addr ip) - 1\<rparr>\<rparr>"
    have n: "Prev ip = ?n" "a_z ?n = Z4" using n4(2) l True by simp_all
    have wf: "wf_Addr ?n" using n4(5) [OF l] True by (simp add: wf_Addr_def)
    have num: "addr_num ?n = addr_num ip - 1" using n4(6) [OF l] num4(1) [OF n(2)] by simp
    have "Next ?n = ip" using Next_4(1) [OF n(2) wf] num num4(2) [OF n(2)] addr_num_bounds [of ip] True ip by simp
    then show ?thesis using n wf num True by simp
  qed
  show ?thesis using n4(1,2) up down by simp
next
  case False
  have z0: "a_z ip \<noteq> Z0" using assms(2) by (simp add: Addr_IsValid_def)
  note n6 = Next_6 [OF z0 False]
  have gen: "wf_Addr (ip\<lparr>a_addr := u\<rparr>)" "addr_num (ip\<lparr>a_addr := u\<rparr>) = uint (u128 u)" "last_num (ip\<lparr>a_addr := u\<rparr>) = last_num ip"
    "addr_num ip = uint (u128 (a_addr ip))" "last_num ip = 2 ^ 128 - 1" for u
    using assms False z0 by (auto simp: wf_Addr_def addr_num_def last_num_def Is4_def BitLen_def split: zone.splits)
  have inv: "subOne (addOne u) = u" "addOne (subOne u) = u" for u
    unfolding u128_inject [symmetric] by (simp_all add: u128_addOne u128_subOne)
  have n6': "Next (ip\<lparr>a_addr := u\<rparr>) = (if uint (u128 u) = last_num ip then zero_Addr else ip\<lparr>a_addr := addOne u\<rparr>)"
    "Prev (ip\<lparr>a_addr := u\<rparr>) = (if uint (u128 u) = 0 then zero_Addr else ip\<lparr>a_addr := subOne u\<rparr>)" for u
    using Next_6 [of "ip\<lparr>a_addr := u\<rparr>"] z0 False gen by simp_all
  have up: "uint (u128 (addOne (a_addr ip))) = addr_num ip + 1" if "addr_num ip < last_num ip"
    using that gen(4,5) by (auto simp: u128_addOne uint_succ unsigned_minus_1_eq_mask mask_eq_exp_minus_1)
  have down: "uint (u128 (subOne (a_addr ip))) = addr_num ip - 1" if "0 < addr_num ip"
    using that gen(4) by (auto simp: u128_subOne uint_pred)
  show ?thesis using n6 n6' gen(1-3) up down inv addr_num_bounds [OF z0] by auto
qed

theorem addr_next_prev_witness:
  "Next (AddrFrom4 [255, 255, 255, 255]) = zero_Addr \<and> Prev (Next (AddrFrom4 [10, 0, 0, 255])) = AddrFrom4 [10, 0, 0, 255]"
proof -
  have "wf_Addr (AddrFrom4 [255, 255, 255, 255])" "Addr_IsValid (AddrFrom4 [255, 255, 255, 255])"
    "addr_num (AddrFrom4 [255, 255, 255, 255]) = last_num (AddrFrom4 [255, 255, 255, 255])"
    "wf_Addr (AddrFrom4 [10, 0, 0, 255])" "Addr_IsValid (AddrFrom4 [10, 0, 0, 255])"
    "addr_num (AddrFrom4 [10, 0, 0, 255]) < last_num (AddrFrom4 [10, 0, 0, 255])"
    by code_simp+
  then show ?thesis using addr_next_prev by blast
qed

text \<open>
  The zero address is not like the others: \<open>Next\<close> makes of it an address with a nil \<open>z\<close> that is not the
  zero address, which \<open>isZero\<close> takes for it all the same.
\<close>

lemma next_of_zero:
  "Next zero_Addr \<noteq> zero_Addr \<and> Addr_isZero (Next zero_Addr) \<and> \<not> Addr_IsValid (Next zero_Addr)"
  by code_simp

end
