(* ===== verification/NetFields.thy ===== *)
theory NetFields
  imports NetText NetAddrProps
begin

text \<open>
  The fields of a textual address: decimal bytes and hexadecimal fields as they are printed and as they are
  read, the run of zeros that is compressed, and the ellipsis that stands for it.
\<close>

section \<open>Digits\<close>

lemma less16: "n < 16 \<longleftrightarrow> n \<in> {0, 1, 2, 3, 4, 5, 6, 7, 8, 9, 10, 11, 12, 13, 14, 15 :: nat}"
  unfolding insert_iff empty_iff by presburger

lemma hex_digit:
  assumes "n < 16"
  shows "hex_value (hexdigits ! n) = Some (of_nat n)" "hexdigits ! n \<noteq> CHR ''.''" "hexdigits ! n \<noteq> CHR '':''" "hexdigits ! n \<noteq> CHR ''%''"
  using assms unfolding less16 by (elim insertE emptyE; simp add: hexdigits_def hex_value_def)+

lemma dec_digit:
  assumes "n < 10"
  shows "is_digit (hexdigits ! n)" "of_char (hexdigits ! n) = int n + 48"
proof -
  have "n \<in> {0, 1, 2, 3, 4, 5, 6, 7, 8, 9}" using assms by auto
  then show "is_digit (hexdigits ! n)" "of_char (hexdigits ! n) = int n + 48"
    by (elim insertE emptyE; simp add: hexdigits_def is_digit_def)+
qed

lemma not_digit [simp]: "\<not> is_digit (CHR ''.'')" "\<not> is_digit (CHR '':'')" "\<not> is_digit (CHR ''%'')" "\<not> is_digit (CHR ''/'')"
  by (simp_all add: is_digit_def)

lemma not_hex [simp]: "hex_value (CHR ''.'') = None" "hex_value (CHR '':'') = None" "hex_value (CHR ''%'') = None"
  by (simp_all add: hex_value_def)

section \<open>Decimal bytes\<close>

abbreviation dec :: "u8 \<Rightarrow> string" where
  "dec x \<equiv> appendDecimal [] x"

lemma appendDecimal_dec: "appendDecimal b x = b @ dec x"
  by (simp add: appendDecimal_def Let_def)

lemma unat_small_digits:
  fixes x :: u8
  shows "unat (x div 100) = unat x div 100" "unat (x div 10 mod 10) = unat x div 10 mod 10" "unat (x mod 10) = unat x mod 10"
    "x \<ge> 100 \<longleftrightarrow> unat x \<ge> 100" "x \<ge> 10 \<longleftrightarrow> unat x \<ge> 10"
  by (simp_all add: unat_div unat_mod word_le_nat_alt)

lemma parse4_digit:
  assumes "n < 10" and "\<not> (digLen = 1 \<and> v = 0)" and "v * 10 + int n \<le> 255"
  shows "parse4_loop inp (hexdigits ! n # cs) prev fs v pos digLen
    = parse4_loop inp cs (Some (hexdigits ! n)) fs (v * 10 + int n) pos (digLen + 1)"
  using assms dec_digit [OF assms(1)] by (auto simp: Let_def)

lemma parse4_dec:
  assumes "unat x = n"
  shows "parse4_loop inp (dec x @ rest) prev fs 0 pos 0
   = parse4_loop inp rest (Some (hexdigits ! (n mod 10))) fs (int n) pos (length (dec x))"
proof -
  have n: "n < 256" using unsigned_less [of x, where ?'a = nat] assms by simp
  note small = unat_small_digits [of x, unfolded assms]
  have d: "n div 100 < 10" "n div 10 mod 10 < 10" "n mod 10 < 10" using n by auto
  note step = parse4_digit [OF d(1)] parse4_digit [OF d(2)] parse4_digit [OF d(3)]
  consider "n < 10" | "10 \<le> n" "n < 100" | "100 \<le> n" by linarith
  then show ?thesis
  proof cases
    case 1
    then have "dec x = [hexdigits ! (n mod 10)]" "n mod 10 = n"
      by (simp_all add: appendDecimal_def small)
    then show ?thesis using parse4_digit [of n 0 0 inp rest prev fs pos] 1 n by (simp add: small del: parse4_loop.simps)
  next
    case 2
    then have x: "dec x = [hexdigits ! (n div 10), hexdigits ! (n mod 10)]" and d1: "n div 10 < 10" "n div 10 \<noteq> 0"
      by (simp_all add: appendDecimal_def small)
    have "int (n div 10) * 10 + int (n mod 10) = int n" by presburger
    then show ?thesis unfolding x
      using parse4_digit [OF d1(1), of 0 0 inp "hexdigits ! (n mod 10) # rest" prev fs pos]
        parse4_digit [OF d(3), of 1 "int (n div 10)" inp rest "Some (hexdigits ! (n div 10))" fs pos] d1 n
      by (simp add: small numeral_2_eq_2 del: parse4_loop.simps)
  next
    case 3
    then have x: "dec x = [hexdigits ! (n div 100), hexdigits ! (n div 10 mod 10), hexdigits ! (n mod 10)]" and d1: "n div 100 \<noteq> 0"
      by (simp_all add: appendDecimal_def small)
    define i j k where "i = n div 100" and "j = n div 10 mod 10" and "k = n mod 10"
    have "n div 100 = n div 10 div 10" by (simp add: div_mult2_eq [symmetric])
    then have "i * 10 + j = n div 10" "n div 10 * 10 + k = n" by (simp_all add: i_def j_def k_def div_mult_mod_eq)
    then have "(i * 10 + j) * 10 + k = n" by simp
    then have v: "((0 * 10 + int i) * 10 + int j) * 10 + int k = int n" by (simp flip: \<open>(i * 10 + j) * 10 + k = n\<close>)
    have lt: "i < 10" "j < 10" "k < 10" "i \<noteq> 0" using d d1 by (simp_all add: i_def j_def k_def)
    have "parse4_loop inp (hexdigits ! i # hexdigits ! j # hexdigits ! k # rest) prev fs 0 pos 0
      = parse4_loop inp (hexdigits ! j # hexdigits ! k # rest) (Some (hexdigits ! i)) fs (0 * 10 + int i) pos (0 + 1)"
      using lt(1) by (intro parse4_digit) simp_all
    also have "\<dots> = parse4_loop inp (hexdigits ! k # rest) (Some (hexdigits ! j)) fs ((0 * 10 + int i) * 10 + int j) pos (0 + 1 + 1)"
      using lt by (intro parse4_digit) simp_all
    also have "\<dots> = parse4_loop inp rest (Some (hexdigits ! k)) fs (((0 * 10 + int i) * 10 + int j) * 10 + int k) pos (0 + 1 + 1 + 1)"
      using lt n v by (intro parse4_digit) simp_all
    finally show ?thesis unfolding v x i_def [symmetric] j_def [symmetric] k_def [symmetric]
      by (simp del: parse4_loop.simps)
  qed
qed

section \<open>Dotted decimals\<close>

lemma dec_nonempty [simp]: "dec x \<noteq> []"
  by (simp add: appendDecimal_def Let_def)

lemma parse4_dot:
  assumes "cs \<noteq> []" and "p \<noteq> CHR ''.''" and "pos \<noteq> 3"
  shows "parse4_loop inp (CHR ''.'' # cs) (Some p) fs v pos dl
    = parse4_loop inp cs (Some (CHR ''.'')) (fs[pos := word_of_int v]) 0 (pos + 1) 0"
  using assms by simp

definition quad :: "u8 list \<Rightarrow> string" where
  "quad b = dec (b ! 0) @ ''.'' @ dec (b ! 1) @ ''.'' @ dec (b ! 2) @ ''.'' @ dec (b ! 3)"

lemma parse4_field:
  assumes "cs \<noteq> []" and "pos \<noteq> 3"
  shows "parse4_loop inp (dec x @ CHR ''.'' # cs) prev fs 0 pos 0 = parse4_loop inp cs (Some (CHR ''.'')) (fs[pos := x]) 0 (pos + 1) 0"
proof -
  have "unat x mod 10 < 16" by (simp add: less_trans [of _ 10])
  note p = hex_digit(2) [OF this]
  show ?thesis
    unfolding parse4_dec [OF refl] parse4_dot [OF assms(1) p assms(2)] by simp
qed

lemma parse4_quad:
  assumes "length b = 4"
  shows "parseIPv4 (quad b) = Inr (AddrFrom4 b)"
proof -
  have "parse4_loop inp (dec (b ! 0) @ ''.'' @ dec (b ! 1) @ ''.'' @ dec (b ! 2) @ ''.'' @ dec (b ! 3)) None [0, 0, 0, 0] 0 0 0
      = parse4_loop inp (dec (b ! 3) @ []) (Some (CHR ''.'')) [b ! 0, b ! 1, b ! 2, 0] 0 3 0" for inp
    by (simp add: parse4_field numeral_2_eq_2 numeral_3_eq_3 del: parse4_loop.simps)
  also have "\<dots> inp = Inr (AddrFrom4 [b ! 0, b ! 1, b ! 2, b ! 3])" for inp
    unfolding parse4_dec [OF refl] by simp
  finally show ?thesis using byte_lists(2) [OF assms] by (simp add: parseIPv4_def quad_def)
qed

lemma appendTo4_quad: "appendTo4 ip ret = ret @ quad [Addr_v4 ip 0, Addr_v4 ip 1, Addr_v4 ip 2, Addr_v4 ip 3]"
  by (simp add: appendTo4_def Let_def quad_def appendDecimal_dec [of "_ @ _"] appendDecimal_dec [of ret])

lemma v4_bytes: "[Addr_v4 ip 0, Addr_v4 ip 1, Addr_v4 ip 2, Addr_v4 ip 3] = bePutUint32 (ucast (lo (a_addr ip)))"
proof -
  have "(ucast (drop_bit k (ucast x :: u32)) :: u8) = ucast (drop_bit k x)" if "k \<le> 24" for k and x :: u64
    using that by (intro bit_word_eqI) (auto simp: bit_ucast_iff bit_drop_bit_eq)
  from this [of 24] this [of 16] this [of 8] this [of 0] show ?thesis by (simp add: Addr_v4_def bePutUint32_def)
qed

lemma parse4_string4:
  assumes "a_z ip = Z4" and "wf_Addr ip"
  shows "parseIPv4 (string4 ip) = Inr ip"
  using parse4_quad [of "bePutUint32 (ucast (lo (a_addr ip)))"] From4_ucast [OF assms]
  by (simp add: string4_def appendTo4_quad v4_bytes)

section \<open>Hexadecimal fields\<close>

abbreviation hex :: "u16 \<Rightarrow> string" where
  "hex x \<equiv> appendHex [] x"

lemma appendHex_hex: "appendHex b x = b @ hex x"
  by (simp add: appendHex_def Let_def)

text \<open>The number that a string of digits stands for.\<close>

definition hexnum :: "nat \<Rightarrow> string \<Rightarrow> nat" where
  "hexnum = foldl (\<lambda>a c. a * 16 + unat (the (hex_value c)))"

lemma hexnum_simps [simp]: "hexnum a [] = a" "hexnum a (c # cs) = hexnum (a * 16 + unat (the (hex_value c))) cs"
  by (simp_all add: hexnum_def)

lemma hexnum_mono: "a \<le> hexnum a ds"
proof (induction ds arbitrary: a)
  case (Cons c ds)
  show ?case using Cons [of "a * 16 + unat (the (hex_value c))"] by simp
qed simp

definition stops :: "string \<Rightarrow> bool" where
  "stops rest \<longleftrightarrow> rest = [] \<or> hex_value (hd rest) = None"

lemma scan_hex_digits:
  assumes "\<forall>c\<in>set ds. hex_value c \<noteq> None" and "hexnum (unat acc) ds \<le> 0xffff" and "stops rest"
  shows "scan_hex (ds @ rest) off acc = Some (off + length ds, of_nat (hexnum (unat acc) ds))"
  using assms(1,2)
proof (induction ds arbitrary: off acc)
  case Nil
  then show ?case using assms(3) by (cases rest) (auto simp: stops_def)
next
  case (Cons c ds)
  then obtain d where d: "hex_value c = Some d" by auto
  let ?a = "push_bit 4 acc + d"
  have le: "unat acc * 16 + unat d \<le> 0xffff"
    using hexnum_mono [of "unat acc * 16 + unat d" ds] Cons.prems(2) d by simp
  then have a: "unat ?a = unat acc * 16 + unat d"
    by (simp add: push_bit_eq_mult unat_word_ariths)
  have "\<not> ?a > 0xffff" using le a by (simp add: word_less_nat_alt)
  then show ?case using Cons d a by simp
qed

lemma hex_nibbles:
  fixes x :: u16
  shows "unat (drop_bit 12 x) = unat x div 4096" "unat (drop_bit 8 x AND 0xf) = unat x div 256 mod 16"
    "unat (drop_bit 4 x AND 0xf) = unat x div 16 mod 16" "unat (x AND 0xf) = unat x mod 16"
    "x \<ge> 0x1000 \<longleftrightarrow> unat x \<ge> 4096" "x \<ge> 0x100 \<longleftrightarrow> unat x \<ge> 256" "x \<ge> 0x10 \<longleftrightarrow> unat x \<ge> 16"
proof -
  have "(0xf :: u16) = mask 4" by (simp add: mask_eq_exp_minus_1)
  then have m: "y AND 0xf = take_bit 4 y" for y :: u16 by (simp only: take_bit_eq_mask)
  show "unat (drop_bit 12 x) = unat x div 4096" "unat (drop_bit 8 x AND 0xf) = unat x div 256 mod 16"
    "unat (drop_bit 4 x AND 0xf) = unat x div 16 mod 16" "unat (x AND 0xf) = unat x mod 16"
    unfolding m unat_take_bit unat_drop_bit by simp_all
qed (simp_all add: word_le_nat_alt)

definition nibs :: "nat \<Rightarrow> nat list" where
  "nibs n = (if 4096 \<le> n then [n div 4096] else []) @ (if 256 \<le> n then [n div 256 mod 16] else [])
     @ (if 16 \<le> n then [n div 16 mod 16] else []) @ [n mod 16]"

lemma hex_nibs: "hex x = map ((!) hexdigits) (nibs (unat x))"
  by (simp add: appendHex_def Let_def nibs_def hex_nibbles(1) flip: hex_nibbles(2-))

lemma nibs_value:
  assumes "n < 65536"
  shows "foldl (\<lambda>a n. a * 16 + n) 0 (nibs n) = n"
proof -
  define a b c d where "a = n div 4096" and "b = n div 256 mod 16" and "c = n div 16 mod 16" and "d = n mod 16"
  have "n div 256 div 16 = n div 4096" "n div 16 div 16 = n div 256" by (simp_all flip: div_mult2_eq)
  then have s: "n = n div 16 * 16 + d" "n div 16 = n div 256 * 16 + c" "n div 256 = a * 16 + b"
    using div_mult_mod_eq [of n 16] div_mult_mod_eq [of "n div 16" 16] div_mult_mod_eq [of "n div 256" 16]
    by (simp_all add: a_def b_def c_def d_def)
  have n: "n = ((a * 16 + b) * 16 + c) * 16 + d" using s(1) unfolding s(2) s(3) .
  have lt: "b < 16" "c < 16" "d < 16" by (simp_all add: b_def c_def d_def)
  have "nibs n = (if 4096 \<le> n then [a] else []) @ (if 256 \<le> n then [b] else []) @ (if 16 \<le> n then [c] else []) @ [d]"
    by (simp add: nibs_def a_def b_def c_def d_def)
  then show ?thesis using n lt by auto
qed

lemma hex_form:
  obtains ns where "hex x = map ((!) hexdigits) ns" "ns \<noteq> []" "\<forall>n\<in>set ns. n < 16" "foldl (\<lambda>a n. a * 16 + n) 0 ns = unat x"
proof
  have n: "unat x < 65536" using unsigned_less [of x, where ?'a = nat] by simp
  then have "unat x div 4096 < 16" by auto
  then show "\<forall>n\<in>set (nibs (unat x)). n < 16" by (auto simp: nibs_def)
  show "foldl (\<lambda>a n. a * 16 + n) 0 (nibs (unat x)) = unat x" by (rule nibs_value [OF n])
qed (simp_all add: hex_nibs, simp add: nibs_def)

lemma hexnum_map:
  "\<forall>n\<in>set ns. n < 16 \<Longrightarrow> hexnum a (map ((!) hexdigits) ns) = foldl (\<lambda>a n. a * 16 + n) a ns"
proof (induction ns arbitrary: a)
  case (Cons n ns)
  then show ?case by (simp add: hex_digit(1) unat_of_nat)
qed simp

lemma hex_props:
  "hex x \<noteq> []" "\<forall>c\<in>set (hex x). \<exists>n<16. c = hexdigits ! n" "hexnum 0 (hex x) = unat x"
proof -
  obtain ns where ns: "hex x = map ((!) hexdigits) ns" "ns \<noteq> []" "\<forall>n\<in>set ns. n < 16" "foldl (\<lambda>a n. a * 16 + n) 0 ns = unat x"
    by (rule hex_form)
  then show "hex x \<noteq> []" "\<forall>c\<in>set (hex x). \<exists>n<16. c = hexdigits ! n" "hexnum 0 (hex x) = unat x"
    by (auto simp: hexnum_map)
qed

lemma scan_hex_hex:
  assumes "stops rest"
  shows "scan_hex (hex x @ rest) 0 0 = Some (length (hex x), ucast x)"
proof -
  have "unat x < 65536" using unsigned_less [of x, where ?'a = nat] by simp
  moreover have "\<forall>c\<in>set (hex x). hex_value c \<noteq> None" using hex_props(2) [of x] hex_digit(1) by fastforce
  moreover have "(of_nat (unat x) :: u32) = ucast x" by simp
  ultimately show ?thesis using scan_hex_digits [of "hex x" 0 rest 0] assms hex_props(3) [of x] by simp
qed

text \<open>The digits of a decimal byte are a hexadecimal number that fits in 16 bits.\<close>

lemma dec_form:
  obtains ns where "dec x = map ((!) hexdigits) ns" "ns \<noteq> []" "length ns \<le> 3" "\<forall>n\<in>set ns. n < 16"
proof -
  define ns where "ns = (if 100 \<le> unat x then [unat x div 100] else []) @ (if 10 \<le> unat x then [unat x div 10 mod 10] else [])
     @ [unat x mod 10]"
  have "unat x < 256" using unsigned_less [of x, where ?'a = nat] by simp
  then have d: "unat x div 100 < 16" by auto
  have "m mod 10 < 16" for m :: nat using mod_less_divisor [of 10 m] by linarith
  with d have "\<forall>n\<in>set ns. n < 16" by (auto simp: ns_def)
  moreover have "dec x = map ((!) hexdigits) ns"
    by (simp add: appendDecimal_def Let_def ns_def flip: unat_small_digits)
  moreover have "ns \<noteq> []" "length ns \<le> 3" by (simp_all add: ns_def)
  ultimately show thesis by (intro that)
qed

lemma scan_hex_dec:
  assumes "stops rest"
  shows "\<exists>acc. scan_hex (dec x @ rest) 0 0 = Some (length (dec x), acc)"
proof -
  obtain ns where ns: "dec x = map ((!) hexdigits) ns" "length ns \<le> 3" "\<forall>n\<in>set ns. n < 16" by (rule dec_form)
  have "foldl (\<lambda>a n. a * 16 + n) a ns < (a + 1) * 16 ^ length ns" if "\<forall>n\<in>set ns. n < 16" for a and ns :: "nat list"
    using that
  proof (induction ns arbitrary: a)
    case (Cons n ns)
    have "foldl (\<lambda>a n. a * 16 + n) (a * 16 + n) ns < (a * 16 + n + 1) * 16 ^ length ns" using Cons by simp
    also have "\<dots> \<le> ((a + 1) * 16) * 16 ^ length ns" using Cons.prems by (intro mult_right_mono) simp_all
    finally show ?case by (simp add: algebra_simps)
  qed simp
  from this [OF ns(3), of 0] have "foldl (\<lambda>a n. a * 16 + n) 0 ns < 16 ^ length ns" by simp
  also have "(16 :: nat) ^ length ns \<le> 16 ^ 3" using ns(2) by (intro power_increasing) simp_all
  finally have "hexnum 0 (dec x) \<le> 0xffff" using ns by (simp add: hexnum_map)
  moreover have "\<forall>c\<in>set (dec x). hex_value c \<noteq> None" using ns hex_digit(1) by auto
  ultimately show ?thesis using scan_hex_digits [of "dec x" 0 rest 0] assms by simp
qed

section \<open>Printing fields\<close>

definition fields16 :: "Addr \<Rightarrow> u16 list" where
  "fields16 ip = map (\<lambda>i. Addr_v6u16 ip (of_nat i)) [0..<8]"

lemma fields16_length [simp]: "length (fields16 ip) = 8"
  by (simp add: fields16_def)

lemma fields16_nth [simp]: "i < 8 \<Longrightarrow> fields16 ip ! i = Addr_v6u16 ip (of_nat i)"
  by (simp add: fields16_def)

text \<open>Fields printed by \<open>d\<close>, with a colon before each, and between them.\<close>

definition colons_by :: "(u16 \<Rightarrow> string) \<Rightarrow> u16 list \<Rightarrow> string" where
  "colons_by d gs = concat (map (\<lambda>x. CHR '':'' # d x) gs)"

fun joined_by :: "(u16 \<Rightarrow> string) \<Rightarrow> u16 list \<Rightarrow> string" where
  "joined_by d [] = []"
| "joined_by d (x # gs) = d x @ colons_by d gs"

abbreviation colons :: "u16 list \<Rightarrow> string" where
  "colons \<equiv> colons_by hex"

abbreviation joined :: "u16 list \<Rightarrow> string" where
  "joined \<equiv> joined_by hex"

lemma colons_simps [simp]: "colons_by d [] = []" "colons_by d (x # gs) = CHR '':'' # d x @ colons_by d gs"
  by (simp_all add: colons_by_def)

lemma print6_tail:
  assumes "0 < i" and "fst z < i \<or> 8 \<le> fst z" and "8 - i \<le> k"
  shows "print6_loop k ip z i ret = ret @ colons (drop i (fields16 ip))"
  using assms
proof (induction k arbitrary: i ret)
  case (Suc k)
  show ?case
  proof (cases "i < 8")
    case True
    then have "drop i (fields16 ip) = Addr_v6u16 ip (of_nat i) # drop (Suc i) (fields16 ip)"
      by (simp flip: Cons_nth_drop_Suc)
    moreover have "i \<noteq> fst z" "fst z < Suc i \<or> 8 \<le> fst z" "8 - Suc i \<le> k" using Suc.prems True by auto
    ultimately show ?thesis using True Suc.prems
      by (simp add: Let_def appendHex_hex [of "_ @ _"] Suc.IH)
  qed simp
qed simp

lemma print6_run:
  assumes "i \<le> zs" and "zs < ze" and "zs < 8" and "ze \<le> 8" and "8 - i \<le> k"
  shows "print6_loop k ip (zs, ze) i ret
    = ret @ (if i = 0 then joined (take zs (fields16 ip)) else colons (take (zs - i) (drop i (fields16 ip)))) @ ''::'' @ joined (drop ze (fields16 ip))"
  using assms
proof (induction k arbitrary: i ret)
  case (Suc k)
  show ?case
  proof (cases "i = zs")
    case True
    have "drop ze (fields16 ip) = Addr_v6u16 ip (of_nat ze) # drop (Suc ze) (fields16 ip)" if "ze < 8"
      using that by (simp flip: Cons_nth_drop_Suc)
    then show ?thesis using Suc.prems True
      by (auto simp: Let_def appendHex_hex [of "_ @ _"] print6_tail)
  next
    case False
    then have i: "i < zs" "i < 8" using Suc.prems by auto
    then obtain d where d: "zs - i = Suc d" "zs - Suc i = d" by (metis Suc_diff_Suc)
    have g: "drop i (fields16 ip) = Addr_v6u16 ip (of_nat i) # drop (Suc i) (fields16 ip)"
      using i by (simp flip: Cons_nth_drop_Suc)
    then have "take (zs - i) (drop i (fields16 ip)) = Addr_v6u16 ip (of_nat i) # take d (drop (Suc i) (fields16 ip))"
      by (simp add: d)
    moreover from this have "take zs (fields16 ip) = Addr_v6u16 ip 0 # take d (drop (Suc i) (fields16 ip))" if "i = 0"
      using that by simp
    ultimately show ?thesis using i Suc.prems d
      by (auto simp: Let_def appendHex_hex [of "_ @ _"] appendHex_hex [of ret] Suc.IH)
  qed
qed simp

section \<open>The run of zeros\<close>

lemma zero_end_facts:
  "i \<le> zero_end ip i \<and> (i \<le> 8 \<longrightarrow> zero_end ip i \<le> 8) \<and> (\<forall>j. i \<le> j \<longrightarrow> j < zero_end ip i \<longrightarrow> Addr_v6u16 ip (of_nat j) = 0)"
proof (induction ip i rule: zero_end.induct)
  case (1 ip i)
  show ?case
  proof (cases "i < 8 \<and> Addr_v6u16 ip (of_nat i) = 0")
    case True
    have e: "zero_end ip i = zero_end ip (i + 1)" using True by (subst zero_end.simps) simp
    have "Addr_v6u16 ip (of_nat j) = 0" if "i \<le> j" "j < zero_end ip (i + 1)" for j
      using that 1 True by (cases "j = i") auto
    then show ?thesis using 1 True unfolding e by auto
  next
    case False
    then have "zero_end ip i = i" by (subst zero_end.simps) auto
    then show ?thesis by simp
  qed
qed

definition run_ok :: "Addr \<Rightarrow> nat \<times> nat \<Rightarrow> bool" where
  "run_ok ip = (\<lambda>(zs, ze). zs = 255 \<and> ze = 255
     \<or> zs + 2 \<le> ze \<and> ze \<le> 8 \<and> (\<forall>j. zs \<le> j \<longrightarrow> j < ze \<longrightarrow> Addr_v6u16 ip (of_nat j) = 0))"

lemma zero_run_ok: "run_ok ip (zero_run ip)"
proof -
  have step: "run_ok ip (zero_step ip i z)" if "run_ok ip z" "i < 8" for i z
    using that zero_end_facts [of i ip] by (cases z) (auto simp: zero_step_def run_ok_def Let_def)
  have "run_ok ip (fold (zero_step ip) is z)" if "run_ok ip z" "\<forall>i\<in>set is. i < 8" for "is" z
    using that
  proof (induction "is" arbitrary: z)
    case (Cons i "is")
    then show ?case using Cons.IH [of "zero_step ip i z"] step by simp
  qed simp
  then show ?thesis by (auto simp: zero_run_def run_ok_def)
qed

text \<open>What is printed of the 8 fields.\<close>

lemma print6_form:
  obtains "print6_loop 8 ip (zero_run ip) 0 [] = joined (fields16 ip)"
    | pre post n where "print6_loop 8 ip (zero_run ip) 0 [] = joined pre @ ''::'' @ joined post"
      "fields16 ip = pre @ replicate n 0 @ post" "2 \<le> n" "length pre + n + length post = 8"
proof -
  obtain zs ze where z: "zero_run ip = (zs, ze)" by (cases "zero_run ip")
  have "run_ok ip (zs, ze)" using zero_run_ok [of ip] z by simp
  then consider "zs = 255" | "zs + 2 \<le> ze" "ze \<le> 8" "\<forall>j. zs \<le> j \<longrightarrow> j < ze \<longrightarrow> Addr_v6u16 ip (of_nat j) = 0"
    by (auto simp: run_ok_def)
  then show thesis
  proof cases
    case 1
    have "fields16 ip = Addr_v6u16 ip 0 # drop 1 (fields16 ip)"
      using Cons_nth_drop_Suc [of 0 "fields16 ip"] by simp
    then have "joined (fields16 ip) = hex (Addr_v6u16 ip 0) @ colons (drop 1 (fields16 ip))"
      by (metis joined_by.simps(2))
    moreover have "print6_loop 8 ip (zs, ze) 0 [] = print6_loop 7 ip (zs, ze) 1 (hex (Addr_v6u16 ip 0))"
      using 1 print6_loop.simps(2) [of 7 ip "(zs, ze)" 0 "[]"] by (simp add: Let_def)
    ultimately show thesis using that(1) z 1 print6_tail [of 1 "(zs, ze)" 7 ip "hex (Addr_v6u16 ip 0)"] by simp
  next
    case 2
    let ?G = "fields16 ip"
    have "drop zs (take ze ?G) = replicate (ze - zs) 0"
    proof (rule nth_equalityI)
      fix i
      assume "i < length (drop zs (take ze ?G))"
      then have i: "zs + i < ze" using 2 by auto
      then have "Addr_v6u16 ip (of_nat (zs + i)) = 0" using 2(3) by (metis le_add1)
      then show "drop zs (take ze ?G) ! i = replicate (ze - zs) 0 ! i" using i 2 by (simp del: of_nat_add)
    qed (use 2 in simp)
    moreover have "?G = take zs ?G @ drop zs (take ze ?G) @ drop ze ?G"
    proof -
      have "take ze ?G = take zs (take ze ?G) @ drop zs (take ze ?G)" by (rule append_take_drop_id [symmetric])
      also have "take zs (take ze ?G) = take zs ?G" using 2 by (simp add: min_def)
      finally show ?thesis using append_take_drop_id [of ze ?G] by (metis append.assoc)
    qed
    ultimately have "?G = take zs ?G @ replicate (ze - zs) 0 @ drop ze ?G" by simp
    moreover have "print6_loop 8 ip (zero_run ip) 0 [] = joined (take zs ?G) @ ''::'' @ joined (drop ze ?G)"
      using print6_run [of 0 zs ze 8 ip "[]"] 2 z by simp
    ultimately show thesis using that(2) [of "take zs ?G" "drop ze ?G" "ze - zs"] 2 by simp
  qed
qed

section \<open>Parsing fields\<close>

abbreviation put16 :: "u16 \<Rightarrow> u8 list" where
  "put16 x \<equiv> [byte_at 8 x, ucast x]"

definition pad :: "u8 list \<Rightarrow> u8 list" where
  "pad bs = bs @ replicate (16 - length bs) 0"

lemma pad_put:
  assumes "length bs + 2 \<le> 16"
  shows "(pad bs)[length bs := a, Suc (length bs) := b] = pad (bs @ [a, b])"
proof -
  define m where "m = 14 - length bs"
  have "16 - length bs = Suc (Suc m)" "16 - length (bs @ [a, b]) = m" using assms by (simp_all add: m_def)
  then show ?thesis by (simp add: pad_def list_update_append)
qed

lemma put16_acc: "ucast (drop_bit 8 (ucast x :: u32)) = byte_at 8 (x :: u16)" "ucast (ucast x :: u32) = (ucast x :: u8)"
  by (rule bit_word_eqI, auto simp: bit_ucast_iff bit_drop_bit_eq)+

definition bytes16_of :: "u16 list \<Rightarrow> u8 list" where
  "bytes16_of gs = concat (map put16 gs)"

lemma bytes16_of_simps [simp]: "bytes16_of [] = []" "bytes16_of (x # gs) = put16 x @ bytes16_of gs"
  "bytes16_of (gs @ hs) = bytes16_of gs @ bytes16_of hs"
  by (simp_all add: bytes16_of_def)

lemma bytes16_of_length [simp]: "length (bytes16_of gs) = 2 * length gs"
  by (induction gs) simp_all

text \<open>Any way to print a field by its hexadecimal digits is read back; both printers of the package are.\<close>

locale field_printer =
  fixes d :: "u16 \<Rightarrow> string"
  assumes some: "d x \<noteq> []"
    and digits: "\<forall>c\<in>set (d x). \<exists>n<16. c = hexdigits ! n"
    and scan: "stops rest \<Longrightarrow> scan_hex (d x @ rest) 0 0 = Some (length (d x), ucast x)"
begin

lemma head: "\<exists>n<16. hd (d x @ r) = hexdigits ! n"
  using some [of x] digits [of x] hd_in_set [of "d x"] by (simp add: hd_append)

lemma not_colon: "hd (d x @ r) \<noteq> CHR '':''"
  using head [of x r] hex_digit(3) by metis

lemma parse6_end:
  assumes "length bs + 2 \<le> 16"
  shows "parse6_loop inp (d x) (pad bs) (length bs) e = Inr ([], pad (bs @ put16 x), length bs + 2, e)"
  using assms scan [of "[]" x] some [of x]
  by (subst parse6_loop.simps) (simp add: stops_def put16_acc pad_put)

lemma parse6_more:
  assumes "length bs + 2 \<le> 16" and "s \<noteq> []" and "hd s \<noteq> CHR '':''"
  shows "parse6_loop inp (d x @ CHR '':'' # s) (pad bs) (length bs) e = parse6_loop inp s (pad (bs @ put16 x)) (length (bs @ put16 x)) e"
  using assms scan [of "CHR '':'' # s" x] some [of x]
  by (subst parse6_loop.simps) (simp add: stops_def put16_acc pad_put Let_def nth_append)

lemma parse6_colons:
  assumes "length bs + 2 \<le> 16"
  shows "parse6_loop inp (d x @ ''::'' @ s) (pad bs) (length bs) (-1)
    = (let bs = bs @ put16 x in if s = [] then Inr ([], pad bs, length bs, int (length bs))
       else parse6_loop inp s (pad bs) (length bs) (int (length bs)))"
  using assms scan [of "''::'' @ s" x] some [of x]
  by (subst parse6_loop.simps) (simp add: stops_def put16_acc pad_put Let_def nth_append)

lemma joined_more: "joined_by d (x # y # gs) = d x @ CHR '':'' # joined_by d (y # gs)"
  by simp

lemma parse6_joined:
  assumes "gs \<noteq> []" and "length bs + 2 * length gs \<le> 16"
  shows "parse6_loop inp (joined_by d gs) (pad bs) (length bs) e
    = Inr ([], pad (bs @ bytes16_of gs), length (bs @ bytes16_of gs), e)"
  using assms
proof (induction gs arbitrary: bs)
  case (Cons x gs)
  show ?case
  proof (cases gs)
    case Nil
    then show ?thesis using Cons.prems parse6_end [of bs inp x e] by simp
  next
    case (Cons y hs)
    have "joined_by d gs \<noteq> []" "hd (joined_by d gs) \<noteq> CHR '':''" using Cons some [of y] not_colon [of y "colons_by d hs"] by simp_all
    then show ?thesis
      using Cons.prems Cons.IH [of "bs @ put16 x"] parse6_more [of bs "joined_by d gs" inp x e] Cons joined_more [of x y hs]
      by (simp del: joined_by.simps)
  qed
qed simp

lemma parse6_joined_colons:
  assumes "gs \<noteq> []" and "length bs + 2 * length gs \<le> 16"
  shows "parse6_loop inp (joined_by d gs @ ''::'' @ s) (pad bs) (length bs) (-1)
    = (let bs = bs @ bytes16_of gs in if s = [] then Inr ([], pad bs, length bs, int (length bs))
       else parse6_loop inp s (pad bs) (length bs) (int (length bs)))"
  using assms
proof (induction gs arbitrary: bs)
  case (Cons x gs)
  show ?case
  proof (cases gs)
    case Nil
    then show ?thesis using Cons.prems parse6_colons [of bs inp x s] by simp
  next
    case (Cons y hs)
    have "hd (joined_by d gs @ ''::'' @ s) \<noteq> CHR '':''" using Cons not_colon [of y "colons_by d hs @ ''::'' @ s"] by simp
    then show ?thesis
      using Cons.prems Cons.IH [of "bs @ put16 x"] parse6_more [of bs "joined_by d gs @ ''::'' @ s" inp x "-1"] Cons joined_more [of x y hs]
      by (simp del: joined_by.simps)
  qed
qed simp

end

abbreviation hexpad :: "u16 \<Rightarrow> string" where
  "hexpad x \<equiv> appendHexPad [] x"

interpretation hx: field_printer hex
  by unfold_locales (rule hex_props(1), rule hex_props(2), rule scan_hex_hex)

lemma hexpad_digits: "hexpad x = map ((!) hexdigits) [unat x div 4096, unat x div 256 mod 16, unat x div 16 mod 16, unat x mod 16]"
  by (simp add: appendHexPad_def hex_nibbles(1) flip: hex_nibbles(2-4))

interpretation hp: field_printer hexpad
proof
  fix x :: u16 and rest :: string
  have n: "unat x < 65536" using unsigned_less [of x, where ?'a = nat] by simp
  then have "unat x div 4096 < 16" by auto
  then have d: "\<forall>n\<in>set [unat x div 4096, unat x div 256 mod 16, unat x div 16 mod 16, unat x mod 16]. n < 16" by simp
  show "hexpad x \<noteq> []" by (simp add: hexpad_digits)
  have "\<forall>c\<in>set (map ((!) hexdigits) ns). \<exists>n<16. c = hexdigits ! n" if "\<forall>n\<in>set ns. n < 16" for ns
    using that by auto
  from this [OF d] show "\<forall>c\<in>set (hexpad x). \<exists>n<16. c = hexdigits ! n" unfolding hexpad_digits .
  have h: "\<forall>c\<in>set (hexpad x). hex_value c \<noteq> None" using d hex_digit(1) unfolding hexpad_digits by auto
  have v: "hexnum 0 (hexpad x) = unat x"
  proof -
    have "unat x div 256 div 16 = unat x div 4096" "unat x div 16 div 16 = unat x div 256" by (simp_all flip: div_mult2_eq)
    then have "unat x div 4096 * 16 + unat x div 256 mod 16 = unat x div 256" "unat x div 256 * 16 + unat x div 16 mod 16 = unat x div 16"
      using div_mult_mod_eq [of "unat x div 16" 16] div_mult_mod_eq [of "unat x div 256" 16] by simp_all
    then show ?thesis using div_mult_mod_eq [of "unat x" 16] unfolding hexpad_digits hexnum_map [OF d] by simp
  qed
  have o: "(of_nat (unat x) :: u32) = ucast x" by simp
  assume "stops rest"
  then show "scan_hex (hexpad x @ rest) 0 0 = Some (length (hexpad x), ucast x)"
    using scan_hex_digits [OF h, of 0 rest 0] v n o by simp
qed

section \<open>The ellipsis\<close>

lemma shift_right:
  assumes "length A = a" and "length B = m" and "length C = n"
  shows "\<exists>Y. length Y = n \<and> fold (\<lambda>j ip. ip[j + n := ip ! j]) (rev [a..<a + m]) (A @ B @ C @ T) = A @ Y @ B @ T"
  using assms(2,3)
proof (induction m arbitrary: B C T)
  case (Suc m)
  obtain B' x where B: "B = B' @ [x]" "length B' = m" using Suc.prems(1) by (metis length_Suc_conv_rev)
  show ?case
  proof (cases n)
    case 0
    then have "fold (\<lambda>j ip. ip[j + n := ip ! j]) js ip = ip" for js and ip :: "'a list" by (induction js) simp_all
    then show ?thesis using Suc.prems 0 by (intro exI [of _ "[]"]) simp
  next
    case (Suc k)
    obtain C' c where C: "C = C' @ [c]" "length C' = k" using Suc.prems(2) \<open>n = Suc k\<close> by (metis length_Suc_conv_rev)
    have "(A @ B @ C @ T)[a + m + n := (A @ B @ C @ T) ! (a + m)] = A @ B' @ (x # C') @ x # T"
      using B C \<open>n = Suc k\<close> assms(1) by (simp add: list_update_append nth_append)
    moreover obtain Y where "length Y = n" "fold (\<lambda>j ip. ip[j + n := ip ! j]) (rev [a..<a + m]) (A @ B' @ (x # C') @ x # T) = A @ Y @ B' @ x # T"
      using Suc.IH [of B' "x # C'" "x # T"] B C \<open>n = Suc k\<close> by auto
    ultimately show ?thesis using B by (intro exI [of _ Y]) simp
  qed
qed auto

lemma zero_fill:
  assumes "length A = a" and "length Y = n"
  shows "fold (\<lambda>j ip. ip[j := 0]) (rev [a..<a + n]) (A @ Y @ T) = A @ replicate n 0 @ T"
  using assms(2)
proof (induction n arbitrary: Y T)
  case (Suc n)
  obtain Y' y where Y: "Y = Y' @ [y]" "length Y' = n" using Suc.prems by (metis length_Suc_conv_rev)
  have "(A @ Y @ T)[a + n := 0] = A @ Y' @ 0 # T" using Y assms(1) by (simp add: list_update_append)
  then show ?case using Suc.IH [OF Y(2), of "0 # T"] by (simp add: replicate_app_Cons_same)
qed simp

lemma expand_pad:
  assumes "length (A @ B) \<le> 16"
  shows "expand_ellipsis (pad (A @ B)) (length (A @ B)) (length A) = A @ replicate (16 - length (A @ B)) 0 @ B"
proof -
  let ?n = "16 - length (A @ B)"
  obtain Y where Y: "length Y = ?n"
    "fold (\<lambda>j ip. ip[j + ?n := ip ! j]) (rev [length A..<length A + length B]) (A @ B @ replicate ?n 0 @ []) = A @ Y @ B @ []"
    using shift_right [of A "length A" B "length B" "replicate ?n 0" ?n "[]"] by auto
  then show ?thesis using zero_fill [OF refl Y(1), of A B] by (simp add: expand_ellipsis_def Let_def pad_def)
qed

end
