(* ===== verification/NetTextProps.thy ===== *)
theory NetTextProps
  imports NetFields
begin

text \<open>
  Reading what is printed gives the address back, for every form that the package prints; and what is read
  is always well formed.
\<close>

section \<open>Whole addresses\<close>

lemma bytes16_of_zeros [simp]: "bytes16_of (replicate n 0) = replicate (2 * n) 0"
  by (induction n) simp_all

lemma fields16_bytes: "bytes16_of (fields16 ip) = bePutUint64 (hi (a_addr ip)) @ bePutUint64 (lo (a_addr ip))"
proof -
  have c: "byte_at 8 (ucast (drop_bit k v) :: u16) = (byte_at (k + 8) v :: u8)" "ucast (ucast (drop_bit k v) :: u16) = (byte_at k v :: u8)" for k and v :: u64
    by (rule bit_word_eqI, auto simp: bit_ucast_iff bit_drop_bit_eq ac_simps)+
  have "byte_at 8 (ucast v :: u16) = (byte_at 8 v :: u8)" "ucast (ucast v :: u16) = (ucast v :: u8)" for v :: u64
    using c [of 0 v] by simp_all
  moreover have "[0..<8] = [0, 1, 2, 3, 4, 5, 6, 7]" by (simp add: upt_conv_Cons)
  ultimately show ?thesis
    by (simp add: fields16_def Addr_v6u16_def halves_def bePutUint64_def c)
qed

lemma joined_Nil [simp]: "joined gs = [] \<longleftrightarrow> gs = []"
  using hx.some by (cases gs) simp_all

context field_printer
begin

lemma body_joined:
  assumes "gs \<noteq> []"
  shows "parse6_body inp (joined_by d gs @ r) zone = (case parse6_loop inp (joined_by d gs @ r) (replicate 16 0) 0 (-1) of
     Inl e \<Rightarrow> Inl e | Inr x \<Rightarrow> parse6_finish inp zone x)"
proof -
  obtain x hs where "gs = x # hs" using assms by (cases gs) auto
  then have "(joined_by d gs @ r) ! 0 = hd (d x @ colons_by d hs @ r)" using some [of x] by (simp add: nth_append hd_conv_nth)
  then have "(joined_by d gs @ r) ! 0 \<noteq> CHR '':''" using not_colon [of x "colons_by d hs @ r"] by simp
  then show ?thesis unfolding parse6_body_def by simp
qed

lemma parse6_full:
  assumes "length gs = 8"
  shows "parse6_body inp (joined_by d gs) zone = Inr (WithZone (AddrFrom16 (bytes16_of gs)) zone)"
proof -
  have "gs \<noteq> []" using assms by auto
  moreover have "replicate 16 0 = pad []" by (simp add: pad_def)
  ultimately show ?thesis using body_joined [of gs inp "[]" zone] parse6_joined [of gs "[]" inp "-1"] assms
    by (simp add: parse6_finish_def pad_def [of "bytes16_of gs"])
qed

end

lemma parse6_short:
  assumes "length pre + n + length post = 8" and "0 < n"
  shows "parse6_body inp (joined pre @ ''::'' @ joined post) zone = Inr (WithZone (AddrFrom16 (bytes16_of (pre @ replicate n 0 @ post))) zone)"
proof -
  have z: "replicate 16 0 = pad []" by (simp add: pad_def)
  have fin: "parse6_finish inp zone ([], pad (bytes16_of pre @ bytes16_of post), 2 * (length pre + length post), int (2 * length pre))
      = Inr (WithZone (AddrFrom16 (bytes16_of (pre @ replicate n 0 @ post))) zone)"
  proof -
    have "16 - 2 * (length pre + length post) = 2 * n" using assms(1) by presburger
    moreover have "nat (int (2 * length pre)) = 2 * length pre" by (rule nat_int)
    ultimately show ?thesis using expand_pad [of "bytes16_of pre" "bytes16_of post"] assms
      by (simp add: parse6_finish_def distrib_left del: nat_int of_nat_mult)
  qed
  have tail: "parse6_loop inp (joined post) (pad (bytes16_of pre)) (2 * length pre) e
      = Inr ([], pad (bytes16_of pre @ bytes16_of post), 2 * (length pre + length post), e)" if "post \<noteq> []" for e
    using hx.parse6_joined [OF that, of "bytes16_of pre" inp e] assms(1) by simp
  show ?thesis
  proof (cases pre)
    case Nil
    then show ?thesis
    proof (cases post)
      case Nil
      have "AddrFrom16 (replicate 16 0) = IPv6Unspecified" by code_simp
      then show ?thesis using Nil \<open>pre = []\<close> assms(1) by (simp add: parse6_body_def)
    next
      case (Cons x hs)
      then show ?thesis using tail [of 0] fin \<open>pre = []\<close> z by (simp add: parse6_body_def del: joined_by.simps(2))
    qed
  next
    case (Cons x hs)
    then have "pre \<noteq> []" by simp
    note loop = hx.parse6_joined_colons [OF this, of "[]" inp "joined post"]
    show ?thesis
    proof (cases "post = []")
      case True
      then show ?thesis using loop fin hx.body_joined [OF \<open>pre \<noteq> []\<close>, of inp "''::''" zone] z assms(1) by simp
    next
      case False
      then show ?thesis using loop fin tail hx.body_joined [OF \<open>pre \<noteq> []\<close>, of inp "''::'' @ joined post" zone] z assms(1) by simp
    qed
  qed
qed

lemma parse6_printed:
  "parse6_body inp (print6_loop 8 ip (zero_run ip) 0 []) zone = Inr (WithZone \<lparr>a_addr = a_addr ip, a_z = Z6noz\<rparr> zone)"
proof -
  have a: "AddrFrom16 (bytes16_of (fields16 ip)) = \<lparr>a_addr = a_addr ip, a_z = Z6noz\<rparr>"
    by (simp add: fields16_bytes)
  show ?thesis
  proof (rule print6_form [of ip])
    assume "print6_loop 8 ip (zero_run ip) 0 [] = joined (fields16 ip)"
    then show ?thesis using hx.parse6_full [of "fields16 ip" inp zone] a by simp
  next
    fix pre post n
    assume p: "print6_loop 8 ip (zero_run ip) 0 [] = joined pre @ ''::'' @ joined post"
      and f: "fields16 ip = pre @ replicate n 0 @ post" and n: "2 \<le> n" "length pre + n + length post = 8"
    show ?thesis using parse6_short [of pre n post inp zone] n a unfolding p f by simp
  qed
qed

text \<open>An IPv4 address at the end.\<close>

lemma parse6_quad:
  assumes "length bs \<le> 12" and "length b = 4" and "0 \<le> e"
  shows "parse6_loop inp (quad b) (pad bs) (length bs) e = Inr ([], pad (bs @ b), length bs + 4, e)"
proof -
  define rest where "rest = ''.'' @ dec (b ! 1) @ ''.'' @ dec (b ! 2) @ ''.'' @ dec (b ! 3)"
  have q: "quad b = dec (b ! 0) @ rest" by (simp add: quad_def rest_def)
  have "stops rest" by (simp add: stops_def rest_def)
  then obtain acc where acc: "scan_hex (quad b) 0 0 = Some (length (dec (b ! 0)), acc)"
    using scan_hex_dec [of rest "b ! 0"] q by auto
  have dot: "quad b ! length (dec (b ! 0)) = CHR ''.''" "length (dec (b ! 0)) < length (quad b)"
    by (simp_all add: q rest_def nth_append)
  have v: "[Addr_v4 (AddrFrom4 b) 0, Addr_v4 (AddrFrom4 b) 1, Addr_v4 (AddrFrom4 b) 2, Addr_v4 (AddrFrom4 b) 3] = b"
    unfolding v4_bytes by (rule put_From4 [OF assms(2)])
  have p: "(pad bs)[length bs := x, length bs + 1 := y, length bs + 2 := z, length bs + 3 := w] = pad (bs @ [x, y, z, w])" for x y z w
    using pad_put [of bs x y] pad_put [of "bs @ [x, y]" z w] assms(1) by (simp add: numeral_3_eq_3)
  have "parse6_loop inp (quad b) (pad bs) (length bs) e = Inr ([], (pad bs)[length bs := Addr_v4 (AddrFrom4 b) 0,
      length bs + 1 := Addr_v4 (AddrFrom4 b) 1, length bs + 2 := Addr_v4 (AddrFrom4 b) 2, length bs + 3 := Addr_v4 (AddrFrom4 b) 3],
      length bs + 4, e)"
    using assms acc dot parse4_quad [OF assms(2)] by (subst parse6_loop.simps) simp
  then show ?thesis unfolding p v .
qed

lemma parse6_mapped:
  assumes "length b = 4"
  shows "parse6_body inp (''::ffff:'' @ quad b) zone
    = Inr (WithZone (AddrFrom16 (replicate 10 0 @ [0xff, 0xff] @ b)) zone)"
proof -
  have f: "hex 0xffff = ''ffff''" "put16 0xffff = [0xff, 0xff]" by code_simp+
  have z: "replicate 16 0 = pad []" by (simp add: pad_def)
  obtain n where n: "n < 16" "hd (quad b) = hexdigits ! n"
  proof -
    obtain ns where "dec (b ! 0) = map ((!) hexdigits) ns" "ns \<noteq> []" "\<forall>n\<in>set ns. n < 16" by (rule dec_form)
    then have "hd (quad b) = hexdigits ! hd ns" "hd ns < 16" by (simp_all add: quad_def hd_map)
    then show thesis using that by blast
  qed
  have "quad b \<noteq> []" by (simp add: quad_def)
  moreover have "hd (quad b) \<noteq> CHR '':''" unfolding n(2) by (rule hex_digit(3) [OF n(1)])
  ultimately have "parse6_loop inp (hex 0xffff @ CHR '':'' # quad b) (pad []) (length ([] :: u8 list)) 0
      = parse6_loop inp (quad b) (pad ([] @ put16 0xffff)) (length ([] @ put16 0xffff)) 0"
    by (intro hx.parse6_more) simp_all
  from this parse6_quad [of "[0xff, 0xff]" b 0 inp] assms
  have "parse6_loop inp (''ffff:'' @ quad b) (pad []) 0 0 = Inr ([], pad ([0xff, 0xff] @ b), 6, 0)"
    unfolding f by simp
  moreover have "parse6_finish inp zone ([], pad ([0xff, 0xff] @ b), 6, 0)
      = Inr (WithZone (AddrFrom16 (replicate 10 0 @ [0xff, 0xff] @ b)) zone)"
    using expand_pad [of "[]" "[0xff, 0xff] @ b"] assms by (simp add: parse6_finish_def)
  ultimately show ?thesis by (simp add: parse6_body_def z)
qed

section \<open>Dispatch\<close>

definition plain :: "char \<Rightarrow> bool" where
  "plain c \<longleftrightarrow> c \<noteq> CHR ''.'' \<and> c \<noteq> CHR '':'' \<and> c \<noteq> CHR ''%''"

lemma parse_addr_plain:
  assumes "list_all plain xs"
  shows "parse_addr_loop inp (xs @ cs) = parse_addr_loop inp cs"
  using assms by (induction xs) (simp_all add: plain_def)

context field_printer
begin

lemma plain_digits: "list_all plain (d x)"
  using digits [of x] hex_digit(2,3,4) by (fastforce simp: list_all_iff plain_def)

lemma percent_joined: "CHR ''%'' \<notin> set (joined_by d gs)" "CHR ''%'' \<notin> set (colons_by d gs)"
proof -
  have h: "CHR ''%'' \<notin> set (d x)" for x using plain_digits [of x] by (auto simp: list_all_iff plain_def)
  show c: "CHR ''%'' \<notin> set (colons_by d gs)" for gs by (induction gs) (simp_all add: h)
  show "CHR ''%'' \<notin> set (joined_by d gs)" by (cases gs) (simp_all add: h c)
qed

lemma parse_addr_joined:
  assumes "gs \<noteq> []" and "tl gs \<noteq> [] \<or> hd r = CHR '':'' \<and> r \<noteq> []"
  shows "parse_addr_loop inp (joined_by d gs @ r) = parseIPv6 inp"
proof -
  obtain x hs where g: "gs = x # hs" using assms(1) by (cases gs) auto
  have "colons_by d hs @ r \<noteq> [] \<and> hd (colons_by d hs @ r) = CHR '':''" using assms(2) g by (cases hs) auto
  then obtain t where "colons_by d hs @ r = CHR '':'' # t" by (metis list.collapse)
  then show ?thesis unfolding g by (simp add: parse_addr_plain plain_digits)
qed

end

lemma plain_dec: "list_all plain (dec x)"
proof -
  obtain ns where "dec x = map ((!) hexdigits) ns" "\<forall>n\<in>set ns. n < 16" by (rule dec_form)
  then show ?thesis using hex_digit(2,3,4) by (auto simp: list_all_iff plain_def)
qed

lemma ParseAddr_quad:
  assumes "length b = 4"
  shows "ParseAddr (quad b) = Inr (AddrFrom4 b)"
proof -
  have "parse_addr_loop inp (quad b) = parseIPv4 inp" for inp
    by (simp add: quad_def parse_addr_plain plain_dec)
  then show ?thesis using parse4_quad [OF assms] by (simp add: ParseAddr_def)
qed

text \<open>The text of an IPv6 address without its zone.\<close>

definition text6 :: "Addr \<Rightarrow> string" where
  "text6 ip = (if Is4In6 ip then ''::ffff:'' @ quad (bePutUint32 (ucast (lo (a_addr ip)))) else print6_loop 8 ip (zero_run ip) 0 [])"

lemma percent_text6: "CHR ''%'' \<notin> set (text6 ip)"
proof -
  have "CHR ''%'' \<notin> set (dec x)" for x using plain_dec [of x] by (auto simp: list_all_iff plain_def)
  then have "CHR ''%'' \<notin> set (quad b)" for b by (simp add: quad_def)
  moreover have "CHR ''%'' \<notin> set (print6_loop 8 ip (zero_run ip) 0 [])"
    by (rule print6_form [of ip]) (simp_all add: hx.percent_joined)
  ultimately show ?thesis by (simp add: text6_def)
qed

lemma ParseAddr_text6: "ParseAddr (text6 ip @ r) = parseIPv6 (text6 ip @ r)"
proof -
  have "parse_addr_loop inp (print6_loop 8 ip (zero_run ip) 0 [] @ r) = parseIPv6 inp" for inp
  proof (rule print6_form [of ip])
    have "fields16 ip \<noteq> []" "tl (fields16 ip) \<noteq> []" by (simp_all flip: length_0_conv)
    moreover assume "print6_loop 8 ip (zero_run ip) 0 [] = joined (fields16 ip)"
    ultimately show ?thesis by (simp add: hx.parse_addr_joined)
  next
    fix pre post n
    assume p: "print6_loop 8 ip (zero_run ip) 0 [] = joined pre @ ''::'' @ joined post"
    show ?thesis
    proof (cases "pre = []")
      case False
      then show ?thesis using hx.parse_addr_joined [of pre "''::'' @ joined post @ r" inp] p by simp
    qed (simp add: p)
  qed
  then show ?thesis by (simp add: ParseAddr_def text6_def)
qed

lemma parse6_text6: "parse6_body inp (text6 ip) zone = Inr (WithZone \<lparr>a_addr = a_addr ip, a_z = Z6noz\<rparr> zone)"
proof (cases "Is4In6 ip")
  case True
  let ?l = "lo (a_addr ip)"
  have h: "hi (a_addr ip) = 0" "drop_bit 32 ?l = 0xffff" using True by (simp_all add: Is4In6_def)
  have "bePutUint64 ?l = [0, 0, 0xff, 0xff] @ bePutUint32 (ucast ?l)"
  proof -
    have up: "byte_at (k + 32) ?l = (byte_at k (0xffff :: u64) :: u8)" for k
      unfolding h(2) [symmetric] by (simp add: add.commute)
    have low: "(byte_at k (ucast ?l :: u32) :: u8) = byte_at k ?l" if "k \<le> 24" for k
      using that by (intro bit_word_eqI) (auto simp: bit_ucast_iff bit_drop_bit_eq)
    from up [of 24] up [of 16] up [of 8] up [of 0] low [of 24] low [of 16] low [of 8] low [of 0] show ?thesis
      by (simp add: bePutUint64_def bePutUint32_def)
  qed
  moreover have "bePutUint64 0 = replicate 8 0" by code_simp
  ultimately have "replicate 10 0 @ [0xff, 0xff] @ bePutUint32 (ucast ?l) = bePutUint64 (hi (a_addr ip)) @ bePutUint64 ?l"
    using h(1) by (simp add: numeral_eq_Suc)
  moreover have "WithZone \<lparr>a_addr = \<lparr>hi = hi (a_addr ip), lo = ?l\<rparr>, a_z = Z6noz\<rparr> zone = WithZone \<lparr>a_addr = a_addr ip, a_z = Z6noz\<rparr> zone"
    by (cases "a_addr ip") simp
  ultimately show ?thesis using parse6_mapped [of "bePutUint32 (ucast ?l)" inp zone] True by (simp add: text6_def)
next
  case False
  then show ?thesis using parse6_printed by (simp add: text6_def)
qed

section \<open>Zones\<close>

lemma index_from_skip: "c \<notin> set xs \<Longrightarrow> index_from (xs @ r) c i = index_from r c (i + int (length xs))"
  by (induction xs arbitrary: i) (auto simp: algebra_simps)

lemma IndexByteString_first:
  "c \<notin> set s \<Longrightarrow> IndexByteString (s @ c # r) c = int (length s)" "c \<notin> set s \<Longrightarrow> IndexByteString s c = -1"
  using index_from_skip [of c s "c # r" 0] index_from_skip [of c s "[]" 0] by (simp_all add: IndexByteString_def)

lemma parseIPv6_zone:
  assumes "CHR ''%'' \<notin> set t" and "\<And>inp zone. parse6_body inp t zone = Inr (WithZone \<lparr>a_addr = a, a_z = Z6noz\<rparr> zone)"
  shows "parseIPv6 t = Inr \<lparr>a_addr = a, a_z = Z6noz\<rparr>"
    and "z \<noteq> '''' \<Longrightarrow> parseIPv6 (t @ CHR ''%'' # z) = Inr \<lparr>a_addr = a, a_z = Zone z\<rparr>"
proof -
  have n: "nat (int (length s) + 1) = Suc (length s)" for s :: string by simp
  show "parseIPv6 t = Inr \<lparr>a_addr = a, a_z = Z6noz\<rparr>"
    by (simp add: parseIPv6_def IndexByteString_first(2) [OF assms(1)] assms(2) WithZone_def Is6_def)
  show "parseIPv6 (t @ CHR ''%'' # z) = Inr \<lparr>a_addr = a, a_z = Zone z\<rparr>" if "z \<noteq> ''''"
    using that by (simp add: parseIPv6_def IndexByteString_first(1) [OF assms(1)] assms(2) WithZone_def Is6_def Let_def n)
qed

lemmas parseIPv6_text6 = parseIPv6_zone [OF percent_text6 parse6_text6]

lemma Addr_String_6:
  assumes "a_z ip = Z6noz \<or> a_z ip = Zone z \<and> z \<noteq> ''''"
  shows "Addr_String ip = text6 ip @ (if a_z ip = Z6noz then [] else CHR ''%'' # z)"
proof -
  have u: "a_addr (Unmap ip) = a_addr ip" by (simp add: Unmap_def)
  have q: "string4 (Unmap ip) = quad (bePutUint32 (ucast (lo (a_addr ip))))"
    by (simp add: string4_def appendTo4_quad v4_bytes u)
  show ?thesis using assms
    by (auto simp: Addr_String_def Addr_Zone_def text6_def q string6_def appendTo6_def Let_def)
qed

text \<open>Printing and parsing.\<close>

lemma ParseAddr_String:
  assumes "wf_Addr ip" and "Addr_IsValid ip"
  shows "ParseAddr (Addr_String ip) = Inr ip"
  using assms(1)
proof (rule wf_cases)
  assume z: "a_z ip = Z4"
  then have "Addr_String ip = quad (bePutUint32 (ucast (lo (a_addr ip))))"
    by (simp add: Addr_String_def string4_def appendTo4_quad v4_bytes)
  then show ?thesis using ParseAddr_quad [of "bePutUint32 (ucast (lo (a_addr ip)))"] From4_ucast [OF z assms(1)] by simp
next
  fix h l
  assume "ip = \<lparr>a_addr = \<lparr>hi = h, lo = l\<rparr>, a_z = Z6noz\<rparr>"
  then show ?thesis using Addr_String_6 [of ip] ParseAddr_text6 [of ip "[]"] parseIPv6_text6(1) [of ip] by simp
next
  fix h l s
  assume "ip = \<lparr>a_addr = \<lparr>hi = h, lo = l\<rparr>, a_z = Zone s\<rparr>" "s \<noteq> ''''"
  then show ?thesis using Addr_String_6 [of ip s] ParseAddr_text6 [of ip "CHR ''%'' # s"] parseIPv6_text6(2) [of s ip] by simp
qed (use assms(2) in \<open>simp add: Addr_IsValid_def zero_Addr_def\<close>)

lemma print6_append: "print6_loop k ip z i (r @ s) = r @ print6_loop k ip z i s"
proof (induction k arbitrary: i s)
  case (Suc k)
  have "appendHex (r @ x) y = r @ appendHex x y" for x y
    using appendHex_hex [of "r @ x" y] appendHex_hex [of x y] by simp
  with Suc show ?case by (auto simp: Let_def)
qed simp

lemma appendTo_append: "appendTo4 ip b = b @ string4 ip" "appendTo6 ip b = b @ string6 ip"
  using print6_append [of 8 ip "zero_run ip" 0 b "[]"]
  by (simp_all add: string4_def appendTo4_quad string6_def appendTo6_def Let_def)

lemma appended_text:
  assumes "Addr_IsValid ip"
  shows "Addr_AppendTo ip b = b @ Addr_String ip" "Addr_MarshalText ip = Addr_String ip"
proof -
  show a: "Addr_AppendTo ip b = b @ Addr_String ip" for b
    using assms unfolding Addr_AppendTo_def Addr_String_def Addr_IsValid_def appendTo_append Let_def
    by (cases "a_z ip") simp_all
  have "Addr_MarshalText ip = Addr_AppendTo ip []"
    using assms unfolding Addr_AppendTo_def Addr_MarshalText_def Addr_IsValid_def Let_def
    by (cases "a_z ip") simp_all
  then show "Addr_MarshalText ip = Addr_String ip" using a [of "[]"] by simp
qed

lemma quad_nonempty [simp]: "quad b \<noteq> []"
  by (simp add: quad_def)

lemma string_nonempty: "Addr_IsValid ip \<Longrightarrow> Addr_String ip \<noteq> []"
proof -
  have "string4 ip \<noteq> []" for ip by (simp add: string4_def appendTo4_quad)
  moreover have f: "fields16 ip \<noteq> []" using fields16_length [of ip] by force
  have "print6_loop 8 ip (zero_run ip) 0 [] \<noteq> []" by (rule print6_form [of ip]) (simp_all add: f)
  then have "string6 ip \<noteq> []" by (simp add: string6_def appendTo6_def Let_def)
  moreover assume "Addr_IsValid ip"
  ultimately show "Addr_String ip \<noteq> []" by (cases "a_z ip") (simp_all add: Addr_String_def Addr_IsValid_def Let_def)
qed

section \<open>The expanded form\<close>

lemma appendHexPad_hexpad: "appendHexPad b x = b @ hexpad x"
  by (simp add: appendHexPad_def)

lemma StringExpanded_6:
  assumes "Is6 ip"
  shows "StringExpanded ip = joined_by hexpad (fields16 ip) @ (if a_z ip \<noteq> Z6noz then CHR ''%'' # Addr_Zone ip else [])"
proof -
  have "[0..<8] = [0, 1, 2, 3, 4, 5, 6, 7]" by (simp add: upt_conv_Cons)
  then show ?thesis using assms
    by (simp add: StringExpanded_def Is6_def Let_def fields16_def appendHexPad_hexpad [of "_ @ _"] appendHexPad_hexpad [of "_ # _"]
        del: upt_Suc)
qed

lemma ParseAddr_expanded:
  assumes "wf_Addr ip" and "Is6 ip"
  shows "ParseAddr (StringExpanded ip) = Inr ip"
proof -
  let ?t = "joined_by hexpad (fields16 ip)"
  have b: "parse6_body inp ?t zone = Inr (WithZone \<lparr>a_addr = a_addr ip, a_z = Z6noz\<rparr> zone)" for inp zone
  proof -
    have "AddrFrom16 (bytes16_of (fields16 ip)) = \<lparr>a_addr = a_addr ip, a_z = Z6noz\<rparr>" by (simp add: fields16_bytes)
    then show ?thesis using hp.parse6_full [of "fields16 ip" inp zone] by simp
  qed
  note parse = parseIPv6_zone [OF hp.percent_joined(1) b]
  have n: "fields16 ip \<noteq> []" "tl (fields16 ip) \<noteq> []" using fields16_length [of ip] by (force, cases "fields16 ip") auto
  have d: "ParseAddr (?t @ r) = parseIPv6 (?t @ r)" for r
    using hp.parse_addr_joined [OF n(1) disjI1 [OF n(2)]] by (simp add: ParseAddr_def)
  from assms(1) show ?thesis
  proof (rule wf_cases)
    fix h l
    assume "ip = \<lparr>a_addr = \<lparr>hi = h, lo = l\<rparr>, a_z = Z6noz\<rparr>"
    then show ?thesis using StringExpanded_6 [OF assms(2)] d [of "[]"] parse(1) by simp
  next
    fix h l s
    assume "ip = \<lparr>a_addr = \<lparr>hi = h, lo = l\<rparr>, a_z = Zone s\<rparr>" "s \<noteq> ''''"
    then show ?thesis using StringExpanded_6 [OF assms(2)] d [of "CHR ''%'' # s"] parse(2) [of s] by (simp add: Addr_Zone_def)
  qed (use assms(2) in \<open>simp_all add: Is6_def zero_Addr_def\<close>)
qed

section \<open>What is parsed is well formed\<close>

lemma parse4_loop_result: "parse4_loop inp s prev fs v pos dl = Inr ip \<Longrightarrow> \<exists>b. ip = AddrFrom4 b"
  by (induction inp s prev fs v pos dl rule: parse4_loop.induct) (auto simp: Let_def split: if_splits)

lemma wf_From4 [simp]: "wf_Addr (AddrFrom4 b)" "Addr_IsValid (AddrFrom4 b)" "Is4 (AddrFrom4 b)"
proof -
  have "hi (a_addr (AddrFrom4 b)) = 0" "a_z (AddrFrom4 b) = Z4" by (simp_all add: AddrFrom4_def)
  then show "wf_Addr (AddrFrom4 b)" "Addr_IsValid (AddrFrom4 b)" "Is4 (AddrFrom4 b)"
    by (simp_all add: wf_Addr_def Addr_IsValid_def Is4_def)
qed

lemma wf_From16 [simp]: "wf_Addr (WithZone (AddrFrom16 b) z)" "Addr_IsValid (WithZone (AddrFrom16 b) z)" "Is6 (WithZone (AddrFrom16 b) z)"
  "wf_Addr (AddrFrom16 b)"
  by (simp_all add: wf_Addr_def Addr_IsValid_def WithZone_def AddrFrom16_def Is6_def)

lemma parseIPv6_result: "parseIPv6 s = Inr ip \<Longrightarrow> \<exists>b z. ip = WithZone (AddrFrom16 b) z"
proof -
  have u: "IPv6Unspecified = AddrFrom16 (replicate 16 0)" by code_simp
  have "parse6_finish inp z r = Inr ip \<Longrightarrow> \<exists>b z. ip = WithZone (AddrFrom16 b) z" for inp z r
    by (auto simp: parse6_finish_def split: if_splits prod.splits)
  then have "parse6_body inp t z = Inr ip \<Longrightarrow> \<exists>b z. ip = WithZone (AddrFrom16 b) z" for inp t z
    by (auto simp: parse6_body_def Let_def u split: if_splits sum.splits)
  moreover assume "parseIPv6 s = Inr ip"
  ultimately show ?thesis by (auto simp: parseIPv6_def Let_def split: if_splits)
qed

lemma ParseAddr_result:
  assumes "ParseAddr s = Inr ip"
  shows "(\<exists>b. ip = AddrFrom4 b) \<or> (\<exists>b z. ip = WithZone (AddrFrom16 b) z)"
proof -
  have "parse_addr_loop s t = Inr ip \<Longrightarrow> ?thesis" for t
    by (induction t) (auto split: if_splits dest: parseIPv6_result simp: parseIPv4_def dest: parse4_loop_result)
  then show ?thesis using assms by (simp add: ParseAddr_def)
qed

lemma ParseAddr_wf:
  assumes "ParseAddr s = Inr ip"
  shows "wf_Addr ip" "Addr_IsValid ip"
  using ParseAddr_result [OF assms] by auto

text \<open>
  C32. The text form is exact: \<open>ParseAddr\<close> reads back what \<open>String\<close> prints for every valid address, with the longest
  run of zeros compressed, the mapped IPv4 form and the zone, and what \<open>StringExpanded\<close> prints of an IPv6
  address; \<open>UnmarshalText\<close> reads back \<open>MarshalText\<close> for the zero address too; and \<open>AppendTo\<close>
  appends the same text.
\<close>

theorem addr_text_roundtrip:
  assumes "wf_Addr ip"
  shows "(Addr_IsValid ip \<longrightarrow> ParseAddr (Addr_String ip) = Inr ip \<and> Addr_AppendTo ip b = b @ Addr_String ip)
    \<and> (Is6 ip \<longrightarrow> ParseAddr (StringExpanded ip) = Inr ip)
    \<and> Addr_UnmarshalText (Addr_MarshalText ip) = Inr ip"
proof (cases "Addr_IsValid ip")
  case True
  then have "Addr_UnmarshalText (Addr_MarshalText ip) = Inr ip"
    using ParseAddr_String [OF assms True] appended_text(2) [OF True] string_nonempty [OF True]
    by (simp add: Addr_UnmarshalText_def)
  then show ?thesis using assms ParseAddr_String ParseAddr_expanded appended_text(1) by simp
next
  case False
  from assms have "ip = zero_Addr" by (rule wf_cases) (use False in \<open>auto simp: Addr_IsValid_def\<close>)
  then show ?thesis by (simp add: Addr_IsValid_def Addr_MarshalText_def Addr_UnmarshalText_def zero_Addr_def Is6_def)
qed

theorem addr_text_roundtrip_witness:
  "ParseAddr ''fe80::1:0:0:7%eth0'' = Inr \<lparr>a_addr = \<lparr>hi = 0xfe80000000000000, lo = 0x0001000000000007\<rparr>, a_z = Zone ''eth0''\<rparr>
   \<and> Addr_String \<lparr>a_addr = \<lparr>hi = 0xfe80000000000000, lo = 0x0001000000000007\<rparr>, a_z = Zone ''eth0''\<rparr> = ''fe80::1:0:0:7%eth0''"
proof -
  let ?ip = "\<lparr>a_addr = \<lparr>hi = 0xfe80000000000000, lo = 0x0001000000000007\<rparr>, a_z = Zone ''eth0''\<rparr>"
  have "wf_Addr ?ip" "Addr_IsValid ?ip" "Addr_String ?ip = ''fe80::1:0:0:7%eth0''" by code_simp+
  then show ?thesis using addr_text_roundtrip [of ?ip] by auto
qed

end
