(* ===== verification/StrconvProps.thy ===== *)
theory StrconvProps
  imports Strconv
begin

text \<open>
  The parsers against a reference that reads digits into unbounded numbers, and \<open>Atoi\<close> against \<open>ParseInt\<close>.
\<close>

section \<open>The reference for parsing\<close>

text \<open>The value of a digit in a base up to 36, and the number that digits stand for.\<close>

definition digit_of :: "char \<Rightarrow> nat option" where
  "digit_of c = map_option unat (digit_value (byte c))"

definition is_digit_in :: "nat \<Rightarrow> char \<Rightarrow> bool" where
  "is_digit_in b c \<longleftrightarrow> (case digit_of c of Some d \<Rightarrow> d < b | None \<Rightarrow> False)"

definition number :: "nat \<Rightarrow> nat \<Rightarrow> string \<Rightarrow> nat" where
  "number b = foldl (\<lambda>v c. v * b + the (digit_of c))"

text \<open>
  The digits at the start of the string decide: out of range when they stand for too much, no number when something
  else follows.
\<close>

definition uint_reference :: "nat \<Rightarrow> nat \<Rightarrow> string \<Rightarrow> nat \<times> numErr option" where
  "uint_reference b m s =
     (let ds = takeWhile (is_digit_in b) s; v = number b 0 ds in
      if m < v then (m, Some ErrRange) else if ds \<noteq> s then (0, Some ErrSyntax) else (v, None))"

lemma number_simps [simp]: "number b v [] = v" "number b v (c # cs) = number b (v * b + the (digit_of c)) cs"
  by (simp_all add: number_def)

lemma number_ge:
  assumes "0 < b"
  shows "v \<le> number b v ds"
proof (induction ds arbitrary: v)
  case (Cons c ds)
  have "v \<le> v * b + the (digit_of c)" using assms by (simp add: trans_le_add1)
  also have "\<dots> \<le> number b (v * b + the (digit_of c)) ds" by (rule Cons)
  finally show ?case by simp
qed simp

text \<open>One pass of the loop: the digit is added when the sum is in range.\<close>

lemma cutoff_test:
  assumes "2 \<le> b" and "b < 2 ^ 64"
  shows "n \<ge> maxUint64 div of_nat b + 1 \<longleftrightarrow> 2 ^ 64 \<le> unat n * b"
proof -
  let ?M = "2 ^ 64 - 1 :: nat"
  have b: "unat (of_nat b :: u64) = b" using assms(2) by (simp add: unat_of_nat)
  have M: "unat maxUint64 = ?M" by (simp add: maxUint64_def unsigned_minus_1_eq_mask mask_eq_exp_minus_1)
  have q: "unat (maxUint64 div of_nat b) = ?M div b" by (simp only: unat_div b M)
  have "?M div b < 2 ^ 64 - 1" using assms(1) by (simp add: div_less_dividend)
  then have c: "unat (maxUint64 div of_nat b + 1) = ?M div b + 1"
    using q by (simp add: unat_word_ariths)
  have "n \<ge> maxUint64 div of_nat b + 1 \<longleftrightarrow> ?M div b < unat n" unfolding word_le_nat_alt c by auto
  also have "\<dots> \<longleftrightarrow> ?M < unat n * b" using assms(1) by (intro div_less_iff_less_mult) simp
  also have "\<dots> \<longleftrightarrow> 2 ^ 64 \<le> unat n * b" by (rule iffI) simp_all
  finally show ?thesis .
qed

lemma digit_step:
  fixes n maxVal :: u64 and d :: u8
  assumes "unat n * b < 2 ^ 64" and "b < 2 ^ 64"
  defines "n1 \<equiv> n * of_nat b + ucast d"
  shows "n1 < n * of_nat b \<or> n1 > maxVal \<longleftrightarrow> unat maxVal < unat n * b + unat d"
    and "unat n * b + unat d \<le> unat maxVal \<Longrightarrow> unat n1 = unat n * b + unat d"
proof -
  have nb: "unat (n * of_nat b) = unat n * b" using assms(1,2) by (simp add: unat_word_ariths unat_of_nat)
  have m: "unat maxVal < 2 ^ 64" using unsigned_less [of maxVal, where ?'a = nat] by simp
  have dl: "unat d < 256" using unsigned_less [of d, where ?'a = nat] by simp
  have d: "unat (ucast d :: u64) = unat d" using dl by (simp add: unsigned_ucast_eq take_bit_eq_mod)
  have n1: "unat n1 = (unat n * b + unat d) mod 2 ^ 64" unfolding n1_def by (simp add: unat_word_ariths(1) nb d)
  show "unat n1 = unat n * b + unat d" if "unat n * b + unat d \<le> unat maxVal"
    using that m n1 by simp
  show "n1 < n * of_nat b \<or> n1 > maxVal \<longleftrightarrow> unat maxVal < unat n * b + unat d"
  proof (cases "unat n * b + unat d < 2 ^ 64")
    case True
    then show ?thesis using n1 nb by (simp add: word_less_nat_alt)
  next
    case False
    then have "unat n1 = unat n * b + unat d - 2 ^ 64" using n1 assms(1) dl by (simp add: mod_if)
    moreover have "x + y - 2 ^ 64 < x" if "y < 256" "2 ^ 64 \<le> x + y" for x y :: nat using that by simp
    ultimately have "unat n1 < unat n * b" using False dl by simp
    then show ?thesis using False m nb by (simp add: word_less_nat_alt)
  qed
qed

lemma uint_loop_reference:
  assumes "2 \<le> b" and "b \<le> 36" and "unat n \<le> unat maxVal"
  shows "uint_loop False (int b) (maxUint64 div of_nat b + 1) maxVal s0 s us n =
    (let ds = takeWhile (is_digit_in b) s; v = number b (unat n) ds in
     if unat maxVal < v then Inl (maxVal, Some (rangeError ''ParseUint'' s0))
     else if ds \<noteq> s then Inl (0, Some (syntaxError ''ParseUint'' s0))
     else Inr (us, of_nat v))"
  using assms(3)
proof (induction s arbitrary: n)
  case (Cons c cs)
  show ?case
  proof (cases "digit_value (byte c)")
    case None
    then show ?thesis using Cons.prems by (simp add: is_digit_in_def digit_of_def)
  next
    case (Some d)
    have b8: "unat (word_of_int (int b) :: u8) = b" using assms(2) by (simp add: unat_of_nat)
    have dg: "d \<ge> word_of_int (int b) \<longleftrightarrow> \<not> is_digit_in b c" "the (digit_of c) = unat d"
      using Some b8 by (auto simp: is_digit_in_def digit_of_def word_le_nat_alt)
    show ?thesis
    proof (cases "is_digit_in b c")
      case False
      then show ?thesis using Some dg Cons.prems by simp
    next
      case True
      have big: "unat maxVal < number b (unat n * b + unat d) ds" if "unat maxVal < unat n * b + unat d" for ds
        using that number_ge [of b "unat n * b + unat d" ds] assms(1) by simp
      have m: "unat maxVal < 2 ^ 64" using unsigned_less [of maxVal, where ?'a = nat] by simp
      have bl: "b < 2 ^ 64" using assms(2) by simp
      note cut = cutoff_test [OF assms(1) bl, of n]
      show ?thesis
      proof (cases "unat n * b + unat d \<le> unat maxVal")
        case ok: True
        then have lt: "unat n * b < 2 ^ 64" using m by simp
        then have "\<not> n \<ge> maxUint64 div of_nat b + 1" using cut by simp
        moreover have "\<not> (n * of_nat b + ucast d < n * of_nat b \<or> n * of_nat b + ucast d > maxVal)"
          using digit_step(1) [OF lt bl, of d maxVal] ok by simp
        moreover note digit_step(2) [OF lt bl ok]
        ultimately show ?thesis using Some dg True Cons.IH [of "n * of_nat b + ucast d"] ok by (simp add: Let_def)
      next
        case False
        then have "unat maxVal < unat n * b + unat d" by simp
        moreover from this have "n * of_nat b + ucast d < n * of_nat b \<or> n * of_nat b + ucast d > maxVal"
          if "\<not> n \<ge> maxUint64 div of_nat b + 1" using digit_step(1) [OF _ bl, of n d maxVal] that cut by simp
        ultimately show ?thesis using Some dg True big by (auto simp: Let_def)
      qed
    qed
  qed
qed simp

section \<open>ParseUint\<close>

lemma unat_maxVal: "k \<le> 64 \<Longrightarrow> unat (push_bit k 1 - 1 :: u64) = 2 ^ k - 1"
proof -
  assume k: "k \<le> 64"
  have "(push_bit k 1 - 1 :: u64) = mask k" by (simp add: mask_eq_exp_minus_1)
  also have "\<dots> = take_bit k (- 1)" by (simp add: take_bit_minus_one_eq_mask)
  finally have "unat (push_bit k 1 - 1 :: u64) = take_bit k (unat (- 1 :: u64))" by (simp only: unsigned_take_bit_eq)
  also have "unat (- 1 :: u64) = mask 64" by (simp add: unsigned_minus_1_eq_mask)
  also have "take_bit k (mask 64 :: nat) = mask (min k 64)" by (rule take_bit_of_mask)
  finally show ?thesis using k by (simp add: min_def mask_eq_exp_minus_1)
qed

definition bits_of :: "bool \<Rightarrow> int \<Rightarrow> nat" where
  "bits_of h bitSize = nat (if bitSize = 0 then intSize h else bitSize)"

lemma bits_of_bounds: "0 \<le> bitSize \<Longrightarrow> bitSize \<le> 64 \<Longrightarrow> 1 \<le> bits_of h bitSize \<and> bits_of h bitSize \<le> 64"
  by (auto simp: bits_of_def intSize_def)

definition as_result :: "string \<Rightarrow> string \<Rightarrow> nat \<times> numErr option \<Rightarrow> u64 \<times> NumError option" where
  "as_result f s = (\<lambda>(v, e). (of_nat v, map_option (\<lambda>e. \<lparr>ne_Func = f, ne_Num = s, ne_Err = e\<rparr>) e))"

lemma uint_of_reference:
  assumes "2 \<le> base" and "base \<le> 36" and "0 \<le> bitSize" and "bitSize \<le> 64" and "s \<noteq> ''''"
  shows "ParseUint h s base bitSize = as_result ''ParseUint'' s (uint_reference (nat base) (2 ^ bits_of h bitSize - 1) s)"
proof -
  define k where "k = bits_of h bitSize"
  have k: "k \<le> 64" using bits_of_bounds [OF assms(3,4)] by (simp add: k_def)
  define m :: u64 where "m = push_bit k 1 - 1"
  have m: "unat m = 2 ^ k - 1" unfolding m_def by (rule unat_maxVal [OF k])
  have "of_nat (2 ^ k - 1) = m" unfolding m [symmetric] by simp
  moreover have cut: "(if base = 10 then maxUint64 div 10 + 1 else if base = 16 then maxUint64 div 16 + 1
      else maxUint64 div word_of_int base + 1) = maxUint64 div of_nat (nat base) + (1 :: u64)"
    using assms(1) by simp
  moreover note loop = uint_loop_reference [of "nat base" 0 m s s False]
  moreover have "int (nat base) = base" "base \<noteq> 0" "2 \<le> nat base" "nat base \<le> 36" using assms(1,2) by simp_all
  ultimately show ?thesis using assms m
    by (simp add: ParseUint_def cut Let_def as_result_def uint_reference_def rangeError_def syntaxError_def
        flip: bits_of_def k_def m_def)
qed

text \<open>
  C38. What \<open>ParseUint\<close> returns for every base from 2 to 36, every size up to 64 and every string. Digits of the base only: the
  unbounded number they stand for, or the largest value of the size and a range error when the number is larger; the arithmetic on
  64 bits with its cutoff never misses an overflow and never reports a false one. The empty string, or another character somewhere, when
  the digits before it fit: 0 and a syntax error. Those are what the comment of \<open>ParseInt\<close> promises. Another character after digits
  that are too large already: the code has returned the largest value and a range error before it sees the character, where the comment
  says 0 and \<open>ErrSyntax\<close>; the last case states that divergence.
\<close>

theorem parse_uint_reference:
  assumes "2 \<le> base" and "base \<le> 36" and "0 \<le> bitSize" and "bitSize \<le> 64"
    and "b = nat base" and "m = 2 ^ bits_of h bitSize - 1" and "ds = takeWhile (is_digit_in b) s"
  shows "(s \<noteq> '''' \<and> list_all (is_digit_in b) s \<longrightarrow>
      ParseUint h s base bitSize = (if number b 0 s \<le> m then (of_nat (number b 0 s), None)
        else (of_nat m, Some (rangeError ''ParseUint'' s))))
    \<and> (s = '''' \<or> \<not> list_all (is_digit_in b) s \<and> number b 0 ds \<le> m \<longrightarrow>
      ParseUint h s base bitSize = (0, Some (syntaxError ''ParseUint'' s)))
    \<and> (\<not> list_all (is_digit_in b) s \<and> m < number b 0 ds \<longrightarrow>
      ParseUint h s base bitSize = (of_nat m, Some (rangeError ''ParseUint'' s)))"
proof -
  have all: "list_all (is_digit_in b) s \<longleftrightarrow> ds = s"
    unfolding assms(7) takeWhile_eq_all_conv by (simp add: list_all_iff)
  have "ParseUint h s base bitSize = as_result ''ParseUint'' s (uint_reference b m s)" if "s \<noteq> ''''"
    using uint_of_reference [OF assms(1-4) that] by (simp add: assms(5,6))
  moreover have "ds = ''''" if "s = ''''" using that assms(7) by simp
  ultimately show ?thesis unfolding all
    by (auto simp: uint_reference_def as_result_def rangeError_def syntaxError_def ParseUint_def Let_def simp flip: assms(7))
qed

theorem parse_uint_reference_witness:
  "ParseUint False ''65536'' 10 16 = (65535, Some (rangeError ''ParseUint'' ''65536''))
   \<and> ParseUint True ''dead'' 16 0 = (57005, None)
   \<and> ParseUint False ''1x'' 10 8 = (0, Some (syntaxError ''ParseUint'' ''1x''))
   \<and> ParseUint False ''999x'' 10 8 = (255, Some (rangeError ''ParseUint'' ''999x''))"
proof -
  note d = is_digit_in_def digit_of_def digit_value_def lower_def
  have bits: "bits_of False 16 = 16" "bits_of True 0 = 32" "bits_of False 8 = 8" by (simp_all add: bits_of_def intSize_def)
  have 1: "list_all (is_digit_in 10) ''65536''" "number 10 0 ''65536'' = 65536" by (simp_all add: d)
  have 2: "list_all (is_digit_in 16) ''dead''" "number 16 0 ''dead'' = 57005" by (simp_all add: d)
  have 3: "\<not> list_all (is_digit_in 10) ''1x''" "number 10 0 (takeWhile (is_digit_in 10) ''1x'') = 1" by (simp_all add: d)
  have 4: "\<not> list_all (is_digit_in 10) ''999x''" "number 10 0 (takeWhile (is_digit_in 10) ''999x'') = 999" by (simp_all add: d)
  note p = parse_uint_reference [OF _ _ _ _ _ refl refl, where b = 10]
    and q = parse_uint_reference [OF _ _ _ _ _ refl refl, where b = 16]
  have "ParseUint False ''65536'' 10 16 = (65535, Some (rangeError ''ParseUint'' ''65536''))"
    using p [of 10 16 "''65536''" False, THEN conjunct1, unfolded bits] 1 by (simp del: number_simps list.pred_inject)
  moreover have "ParseUint True ''dead'' 16 0 = (57005, None)"
    using q [of 16 0 "''dead''" True, THEN conjunct1, unfolded bits] 2 by (simp del: number_simps list.pred_inject)
  moreover have "ParseUint False ''1x'' 10 8 = (0, Some (syntaxError ''ParseUint'' ''1x''))"
    using p [of 10 8 "''1x''" False, THEN conjunct2, THEN conjunct1, unfolded bits] 3
    by (simp del: number_simps list.pred_inject takeWhile.simps)
  moreover have "ParseUint False ''999x'' 10 8 = (255, Some (rangeError ''ParseUint'' ''999x''))"
    using p [of 10 8 "''999x''" False, THEN conjunct2, THEN conjunct2, unfolded bits] 4
    by (simp del: number_simps list.pred_inject takeWhile.simps)
  ultimately show ?thesis by blast
qed

section \<open>ParseInt and Atoi\<close>

lemma sint_id: "- (2 ^ 63) \<le> x \<Longrightarrow> x < 2 ^ 63 \<Longrightarrow> sint (word_of_int x :: u64) = x"
  by (simp add: signed_of_int signed_take_bit_int_eq_self)

lemma sint32_id: "- (2 ^ 31) \<le> x \<Longrightarrow> x < 2 ^ 31 \<Longrightarrow> sint (word_of_int x :: u32) = x"
  by (simp add: signed_of_int signed_take_bit_int_eq_self)

lemma intSize_cases: obtains "intSize h = 32" "h" | "intSize h = 64" "\<not> h"
  by (cases h) (auto simp: intSize_def)

lemma go_int_id: "- (2 ^ nat (intSize h - 1)) \<le> x \<Longrightarrow> x < 2 ^ nat (intSize h - 1) \<Longrightarrow> go_int h x = x"
  by (rule intSize_cases [of h]) (simp_all add: go_int_def sint_id sint32_id)

lemma int_less_pow: "n < 2 ^ m \<Longrightarrow> int n < 2 ^ m" "n \<le> 2 ^ m \<Longrightarrow> int n \<le> 2 ^ m"
  by (metis of_nat_less_iff of_nat_numeral of_nat_power) (metis of_nat_le_iff of_nat_numeral of_nat_power)

lemma sint_small: "unat (w :: u64) < 2 ^ 63 \<Longrightarrow> sint w = int (unat w)"
  using sint_id [of "int (unat w)"] int_less_pow(1) [of "unat w" 63] uint_nonnegative [of w] by simp

lemma sint_minus: "unat (w :: u64) \<le> 2 ^ 63 \<Longrightarrow> sint (- w) = - int (unat w)"
  using sint_id [of "- int (unat w)"] int_less_pow(2) [of "unat w" 63] uint_nonnegative [of w] by simp

text \<open>What \<open>signed_result\<close> gives for a size of \<open>k\<close> bits.\<close>

lemma unat_cutoff: "1 \<le> k \<Longrightarrow> k \<le> 64 \<Longrightarrow> unat (push_bit (k - 1) 1 :: u64) = 2 ^ (k - 1)"
  by (simp add: unat_pow2)

lemma signed_result_value:
  assumes "0 \<le> bitSize" and "bitSize \<le> 64"
    and "k = bits_of h bitSize"
  shows "signed_result h s0 neg un bitSize =
    (if \<not> neg \<and> 2 ^ (k - 1) \<le> unat un then (2 ^ (k - 1) - 1, Some (rangeError ''ParseInt'' s0))
     else if neg \<and> 2 ^ (k - 1) < unat un then (- (2 ^ (k - 1)), Some (rangeError ''ParseInt'' s0))
     else (if neg then - int (unat un) else int (unat un), None))"
proof -
  have k: "1 \<le> k" "k \<le> 64" using bits_of_bounds [OF assms(1,2)] by (simp_all add: assms(3))
  define c :: u64 where "c = push_bit (k - 1) 1"
  have nk: "nat ((if bitSize = 0 then intSize h else bitSize) - 1) = k - 1" by (simp add: assms(3) bits_of_def nat_diff_distrib')
  have c: "unat c = 2 ^ (k - 1)" unfolding c_def by (rule unat_cutoff [OF k])
  have "(2 :: nat) ^ (k - 1) \<le> 2 ^ 63" using k by (intro power_increasing) simp_all
  then have "sint (- c) = - (2 ^ (k - 1))" "unat (c - 1) < 2 ^ 63" "int (unat (c - 1)) = 2 ^ (k - 1) - 1"
    using sint_minus [of c] c by (simp_all add: unat_sub_if' of_nat_diff)
  moreover from this have "sint (c - 1) = 2 ^ (k - 1) - 1" using sint_small by metis
  moreover have "sint un = int (unat un)" if "unat un < 2 ^ (k - 1)"
    using that \<open>2 ^ (k - 1) \<le> 2 ^ 63\<close> by (intro sint_small) simp
  moreover have "sint (- un) = - int (unat un)" if "unat un \<le> 2 ^ (k - 1)"
    using that \<open>2 ^ (k - 1) \<le> 2 ^ 63\<close> by (intro sint_minus) simp
  ultimately show ?thesis unfolding signed_result_def Let_def nk c_def [symmetric]
    by (auto simp: word_le_nat_alt word_less_nat_alt c)
qed

lemma signed_result_bounds:
  assumes "0 \<le> bitSize" and "bitSize \<le> 64"
  shows "- (2 ^ (bits_of h bitSize - 1)) \<le> fst (signed_result h s0 neg un bitSize)
    \<and> fst (signed_result h s0 neg un bitSize) < 2 ^ (bits_of h bitSize - 1)"
proof -
  have p: "(0 :: int) < 2 ^ m" for m by simp
  show ?thesis unfolding signed_result_value [OF assms refl]
    using p [of "bits_of h bitSize - 1"] int_less_pow [of "unat un" "bits_of h bitSize - 1"]
    by (auto intro: order_trans [of _ 0] le_less_trans [of _ 0])
qed

lemma byte_digit:
  "(byte c - byte (CHR ''0'') > 9) = (\<not> is_digit_in 10 c)"
  "is_digit_in 10 c \<Longrightarrow> the (digit_of c) = unat (byte c - byte (CHR ''0''))"
proof -
  define b where "b = byte c"
  have b: "unat b < 256" using unsigned_less [of b, where ?'a = nat] by simp
  have l: "\<not> unat (lower b - 97 + 10) < 10" if "97 \<le> unat (lower b)" "unat (lower b) \<le> 122"
    using that by (simp add: unat_word_ariths unat_sub_if')
  have d: "is_digit_in 10 c \<longleftrightarrow> 48 \<le> unat b \<and> unat b \<le> 57"
    using l by (auto simp: is_digit_in_def digit_of_def digit_value_def word_le_nat_alt unat_sub_if' simp flip: b_def)
  show "(byte c - byte (CHR ''0'') > 9) = (\<not> is_digit_in 10 c)"
    unfolding d using b by (auto simp: word_less_nat_alt unat_sub_if' simp flip: b_def)
  show "the (digit_of c) = unat (byte c - byte (CHR ''0''))" if "is_digit_in 10 c"
    using that unfolding d by (simp add: digit_of_def digit_value_def word_le_nat_alt flip: b_def)
qed

lemma number10_bound:
  assumes "list_all (is_digit_in 10) ds"
  shows "number 10 n ds < (n + 1) * 10 ^ length ds"
  using assms
proof (induction ds arbitrary: n)
  case (Cons c ds)
  then have d: "the (digit_of c) < 10" by (auto simp: is_digit_in_def split: option.splits)
  have "number 10 (n * 10 + the (digit_of c)) ds < (n * 10 + the (digit_of c) + 1) * 10 ^ length ds" using Cons by simp
  also have "\<dots> \<le> ((n + 1) * 10) * 10 ^ length ds" using d by (intro mult_right_mono) simp_all
  finally show ?case by (simp add: algebra_simps)
qed simp

lemma takeWhile_all: "takeWhile P xs = xs \<longleftrightarrow> list_all P xs"
  by (induction xs) auto

lemma atoi_loop_number:
  assumes "(n + 1) * 10 ^ length t \<le> 2 ^ nat (intSize h - 1)"
  shows "atoi_loop h s0 t (int n) = (if list_all (is_digit_in 10) t then Inr (int (number 10 n t)) else Inl (syntaxError ''Atoi'' s0))"
  using assms
proof (induction t arbitrary: n)
  case (Cons c t)
  show ?case
  proof (cases "is_digit_in 10 c")
    case True
    let ?m = "n * 10 + the (digit_of c)"
    have d: "the (digit_of c) < 10" using True by (auto simp: is_digit_in_def split: option.splits)
    have "(?m + 1) * 10 ^ length t \<le> ((n + 1) * 10) * 10 ^ length t" using d by (intro mult_right_mono) simp_all
    also have "\<dots> = (n + 1) * 10 ^ length (c # t)" by (simp add: algebra_simps)
    also note Cons.prems
    finally have le: "(?m + 1) * 10 ^ length t \<le> 2 ^ nat (intSize h - 1)" .
    have "?m + 1 \<le> (?m + 1) * 10 ^ length t" using mult_le_mono2 [of 1 "10 ^ length t" "?m + 1"] by (simp del: mult_Suc)
    then have "?m < 2 ^ nat (intSize h - 1)" using le by linarith
    then have "go_int h (int ?m) = int ?m"
      using int_less_pow(1) [of ?m "nat (intSize h - 1)"] zero_less_power [of "2 :: int" "nat (intSize h - 1)"]
      by (intro go_int_id) linarith+
    moreover have "int n * 10 + uint (byte c - byte (CHR ''0'')) = int ?m" using byte_digit(2) [OF True] by simp
    ultimately show ?thesis using True byte_digit(1) [of c] Cons.IH [OF le] by (simp add: Let_def del: of_nat_add of_nat_mult)
  next
    case False
    then show ?thesis using byte_digit(1) [of c] by (simp add: Let_def)
  qed
qed simp

lemma ParseInt_bounds:
  assumes "0 \<le> bitSize" and "bitSize \<le> 64"
  shows "- (2 ^ (bits_of h bitSize - 1)) \<le> fst (ParseInt h s base bitSize) \<and> fst (ParseInt h s base bitSize) < 2 ^ (bits_of h bitSize - 1)"
proof -
  have "(- (2 ^ m) :: int) \<le> 0 \<and> (0 :: int) < 2 ^ m" for m by simp
  then show ?thesis using signed_result_bounds [OF assms, of h]
    by (auto simp: ParseInt_def Let_def split: prod.splits option.splits if_splits)
qed

lemma bits_of_int: "bits_of h 0 - 1 = nat (intSize h - 1)"
  by (cases h) (simp_all add: bits_of_def intSize_def)

text \<open>The two ways of \<open>Atoi\<close> on a short string of digits.\<close>

lemma fast_digits:
  assumes "length t < 19" and "h \<longrightarrow> length t < 10" and "t \<noteq> []"
  shows "ParseUint h t 10 0 = (if list_all (is_digit_in 10) t then (of_nat (number 10 0 t), None) else (0, Some (syntaxError ''ParseUint'' t)))"
    and "list_all (is_digit_in 10) t \<Longrightarrow> number 10 0 t < 2 ^ nat (intSize h - 1)"
proof -
  have "(10 :: nat) ^ length t \<le> 10 ^ (if h then 9 else 18)" using assms by (intro power_increasing) auto
  also have "\<dots> \<le> 2 ^ nat (intSize h - 1)" by (cases h) (simp_all add: intSize_def)
  finally have p: "(10 :: nat) ^ length t \<le> 2 ^ nat (intSize h - 1)" .
  show b: "number 10 0 t < 2 ^ nat (intSize h - 1)" if "list_all (is_digit_in 10) t"
    using number10_bound [OF that, of 0] p by simp
  let ?ds = "takeWhile (is_digit_in 10) t"
  have "(10 :: nat) ^ length ?ds \<le> 10 ^ length t" by (rule power_increasing [OF length_takeWhile_le]) simp
  also note p
  finally have "(10 :: nat) ^ length ?ds \<le> 2 ^ nat (intSize h - 1)" .
  moreover have "list_all (is_digit_in 10) ?ds" by (auto simp: list_all_iff dest: set_takeWhileD)
  ultimately have "number 10 0 ?ds < 2 ^ nat (intSize h - 1)" using number10_bound [of ?ds 0] by simp
  moreover have "(2 :: nat) ^ nat (intSize h - 1) \<le> 2 ^ bits_of h 0 - 1" by (cases h) (simp_all add: intSize_def bits_of_def)
  ultimately have "\<not> 2 ^ bits_of h 0 - 1 < number 10 0 ?ds" by linarith
  then show "ParseUint h t 10 0 = (if list_all (is_digit_in 10) t then (of_nat (number 10 0 t), None) else (0, Some (syntaxError ''ParseUint'' t)))"
    using uint_of_reference [of 10 0 t h] assms(3) takeWhile_all [of "is_digit_in 10" t]
    by (cases "list_all (is_digit_in 10) t") (simp_all add: uint_reference_def Let_def as_result_def syntaxError_def del: takeWhile_eq_all_conv)
qed

lemma Atoi_ParseInt:
  "Atoi h s = (fst (ParseInt h s 10 0), map_option (\<lambda>e. e\<lparr>ne_Func := ''Atoi''\<rparr>) (snd (ParseInt h s 10 0)))"
proof (cases "0 < length s \<and> length s < (if h then 10 else 19)")
  case False
  have "go_int h (fst (ParseInt h s 10 0)) = fst (ParseInt h s 10 0)"
    using ParseInt_bounds [of 0 h s 10] unfolding bits_of_int by (intro go_int_id) simp_all
  moreover have slow: "\<not> (intSize h = 32 \<and> 0 < length s \<and> length s < 10 \<or> intSize h = 64 \<and> 0 < length s \<and> length s < 19)"
    using False by (cases h) (auto simp: intSize_def)
  ultimately show ?thesis unfolding Atoi_def Let_def if_not_P [OF slow] by (simp add: case_prod_beta)
next
  case True
  then have fast: "intSize h = 32 \<and> 0 < length s \<and> length s < 10 \<or> intSize h = 64 \<and> 0 < length s \<and> length s < 19"
    by (cases h) (simp_all add: intSize_def)
  define sign where "sign = (s ! 0 = CHR ''-'' \<or> s ! 0 = CHR ''+'')"
  define t where "t = (if sign then drop 1 s else s)"
  have s: "s \<noteq> []" using True by auto
  have len: "length t < 19" "h \<longrightarrow> length t < 10" using True by (auto simp: t_def split: if_splits)
  let ?neg = "s ! 0 = CHR ''-''"
  have P: "ParseInt h s 10 0 = (let (un, err) = ParseUint h t 10 0 in case err of
      None \<Rightarrow> signed_result h s ?neg un 0
    | Some e \<Rightarrow> if ne_Err e \<noteq> ErrRange then (0, Some (e\<lparr>ne_Func := ''ParseInt'', ne_Num := s\<rparr>)) else signed_result h s ?neg un 0)"
    using s by (auto simp: ParseInt_def Let_def t_def sign_def split: prod.splits option.splits)
  show ?thesis
  proof (cases "t = []")
    case True
    then have "sign" using s by (auto simp: t_def split: if_splits)
    have "Atoi h s = (0, Some (syntaxError ''Atoi'' s))"
      unfolding Atoi_def using fast True \<open>sign\<close> by (simp add: Let_def t_def flip: sign_def)
    moreover have "ParseInt h s 10 0 = (0, Some (syntaxError ''ParseInt'' s))"
      unfolding P by (simp add: True ParseUint_def syntaxError_def)
    ultimately show ?thesis by (simp add: syntaxError_def)
  next
    case ne: False
    have A: "Atoi h s = (case atoi_loop h s t 0 of Inl e \<Rightarrow> (0, Some e) | Inr n \<Rightarrow> (if ?neg then go_int h (- n) else n, None))"
      unfolding Atoi_def using fast ne by (auto simp: Let_def t_def simp flip: sign_def)
    have "(10 :: nat) ^ length t \<le> 10 ^ (if h then 9 else 18)" using len by (intro power_increasing) auto
    also have "\<dots> \<le> 2 ^ nat (intSize h - 1)" by (cases h) (simp_all add: intSize_def)
    finally have loop: "atoi_loop h s t 0 = (if list_all (is_digit_in 10) t then Inr (int (number 10 0 t)) else Inl (syntaxError ''Atoi'' s))"
      using atoi_loop_number [of 0 t h s] by simp
    note U = fast_digits [OF len ne]
    show ?thesis
    proof (cases "list_all (is_digit_in 10) t")
      case True
      let ?v = "number 10 0 t"
      have b: "?v < 2 ^ nat (intSize h - 1)" by (rule U(2) [OF True])
      have "(2 :: nat) ^ nat (intSize h - 1) < 2 ^ 64" by (cases h) (simp_all add: intSize_def)
      then have un: "unat (of_nat ?v :: u64) = ?v" using b by (simp add: unat_of_nat)
      have "signed_result h s ?neg (of_nat ?v) 0 = (if ?neg then - int ?v else int ?v, None)"
        unfolding signed_result_value [OF order_refl zero_le_numeral refl] bits_of_int un using b by simp
      moreover have "go_int h (- int ?v) = - int ?v" 
        using int_less_pow(1) [OF b] zero_less_power [of "2 :: int" "nat (intSize h - 1)"] by (intro go_int_id) linarith+
      ultimately show ?thesis unfolding A P loop U(1) using True by simp
    next
      case False
      then show ?thesis unfolding A P loop U(1) by (simp add: syntaxError_def)
    qed
  qed
qed

text \<open>
  C39. \<open>Atoi\<close> is \<open>ParseInt(s, 10, 0)\<close> with its own name in the error, on every string and for both sizes of \<open>int\<close>: its
  fast path for short strings, with unchecked arithmetic on \<open>int\<close>, agrees on values, signs and errors.
\<close>

theorem atoi_is_parse_int:
  "Atoi h s = (fst (ParseInt h s 10 0), map_option (\<lambda>e. e\<lparr>ne_Func := ''Atoi''\<rparr>) (snd (ParseInt h s 10 0)))"
  by (rule Atoi_ParseInt)

text \<open>
  For a size of one bit the largest unsigned value equals the cutoff, so that a negative number out of range is
  taken for \<open>-1\<close>: the range error of \<open>ParseUint\<close> is lost.
\<close>

theorem parse_int_one_bit:
  "ParseInt h ''-5'' 10 1 = (-1, None) \<and> ParseInt h ''-3'' 10 2 = (-2, Some (rangeError ''ParseInt'' ''-3''))"
  by (cases h) (simp, code_simp, simp, code_simp)

end
