(* ===== verification/StrconvFormat.thy ===== *)
theory StrconvFormat
  imports StrconvProps
begin

text \<open>
  The formatters give the digits of the number, in every base and on both kinds of host; the parsers read them back; the
  internal package prints the same text; and the de Bruijn tables find the lowest bit.
\<close>

section \<open>Emitting digits\<close>

text \<open>
  Part of a number \<open>n\<close> has gone into the digits before \<open>a\<close>, and \<open>n'\<close> of it is left.
\<close>

definition emits :: "nat \<Rightarrow> nat \<Rightarrow> string \<Rightarrow> nat \<Rightarrow> string \<Rightarrow> bool" where
  "emits b n a n' a' \<longleftrightarrow> (\<exists>ds. a' = map ((!) digits36) ds @ a \<and> (\<forall>d\<in>set ds. d < b)
     \<and> n = foldl (\<lambda>v d. v * b + d) n' ds \<and> (ds \<noteq> [] \<longrightarrow> 0 < n'))"

lemma emits_refl [simp]: "emits b n a n a"
  unfolding emits_def by (intro exI [of _ "[]"]) simp

lemma emits_trans:
  assumes "emits b n a n1 a1" and "emits b n1 a1 n2 a2"
  shows "emits b n a n2 a2"
proof -
  obtain ds where ds: "a1 = map ((!) digits36) ds @ a" "\<forall>d\<in>set ds. d < b" "n = foldl (\<lambda>v d. v * b + d) n1 ds" "ds \<noteq> [] \<longrightarrow> 0 < n1"
    using assms(1) unfolding emits_def by blast
  obtain es where es: "a2 = map ((!) digits36) es @ a1" "\<forall>d\<in>set es. d < b" "n1 = foldl (\<lambda>v d. v * b + d) n2 es" "es \<noteq> [] \<longrightarrow> 0 < n2"
    using assms(2) unfolding emits_def by blast
  show ?thesis unfolding emits_def using ds es by (intro exI [of _ "es @ ds"]) auto
qed

lemma emit_digit:
  assumes "2 \<le> b" and "b \<le> n"
  shows "emits b n a (n div b) (digits36 ! (n mod b) # a)"
  unfolding emits_def using assms by (intro exI [of _ "[n mod b]"]) (simp add: div_greater_zero_iff)

lemma go_uint_small: "unat u < 2 ^ 32 \<Longrightarrow> unat (go_uint h u) = unat u"
  by (simp add: go_uint_def unsigned_ucast_eq take_bit_eq_mod unat_mod)

text \<open>What a loop gives: digits, and less than the base.\<close>

definition emitted :: "nat \<Rightarrow> u64 \<Rightarrow> string \<Rightarrow> nat \<Rightarrow> u64 \<times> string \<Rightarrow> bool" where
  "emitted b u a m = (\<lambda>(u', a'). emits b (unat u) a (unat u') a' \<and> unat u' < m)"

lemma base_loop_emits:
  assumes "2 \<le> b" and "b \<le> 36" and "unat u < 2 ^ Suc k"
  shows "emitted b u a b (base_loop k h (of_nat b) u a)"
  using assms(3)
proof (induction k arbitrary: u a)
  case 0
  then show ?case using assms(1) by (simp add: emitted_def)
next
  case (Suc k)
  have b: "unat (of_nat b :: u64) = b" using assms(2) by (simp add: unat_of_nat)
  show ?case
  proof (cases "u \<ge> of_nat b")
    case True
    then have le: "b \<le> unat u" by (simp add: word_le_nat_alt b)
    have q: "unat (u div of_nat b) = unat u div b" by (simp only: unat_div b)
    have "u - u div of_nat b * of_nat b = u mod of_nat b" by (rule minus_div_mult_eq_mod)
    then have "unat (u - u div of_nat b * of_nat b) = unat u mod b" by (simp only: unat_mod b)
    moreover have "unat u mod b < 36" using mod_less_divisor [of b "unat u"] assms(1,2) by linarith
    ultimately have d: "unat (go_uint h (u - u div of_nat b * of_nat b)) = unat u mod b" by (simp add: go_uint_small)
    have "unat u div b \<le> unat u div 2" using assms(1) by (intro div_le_mono2) simp_all
    then have "unat (u div of_nat b) < 2 ^ Suc k" using Suc.prems q by simp
    from Suc.IH [OF this, of "digits36 ! (unat u mod b) # a"] emit_digit [OF assms(1) le, of a]
    show ?thesis using True by (auto simp: emitted_def d q intro: emits_trans)
  next
    case False
    then show ?thesis by (simp add: emitted_def word_le_nat_alt b)
  qed
qed

lemma pow2_loop_emits:
  assumes "b = 2 ^ sh" and "1 \<le> sh" and "sh \<le> 5" and "unat u < 2 ^ Suc k"
  shows "emitted b u a b (pow2_loop k h (of_nat b) sh u a)"
  using assms(4)
proof (induction k arbitrary: u a)
  case 0
  have "2 \<le> b" using assms(1,2) power_increasing [of 1 sh "2 :: nat"] by simp
  then show ?case using 0 by (simp add: emitted_def)
next
  case (Suc k)
  have b36: "2 \<le> b" "b \<le> 32" using assms(1-3) power_increasing [of 1 sh "2 :: nat"] power_increasing [of sh 5 "2 :: nat"] by simp_all
  then have b: "unat (of_nat b :: u64) = b" by (simp add: unat_of_nat)
  show ?case
  proof (cases "u \<ge> of_nat b")
    case True
    then have le: "b \<le> unat u" by (simp add: word_le_nat_alt b)
    have q: "unat (drop_bit sh u) = unat u div b" by (simp add: unat_drop_bit assms(1))
    have "take_bit sh (go_uint h u) = take_bit sh u"
      using assms(3) by (intro bit_word_eqI) (auto simp: go_uint_def bit_take_bit_iff bit_ucast_iff)
    moreover have "(of_nat b - 1 :: u64) = mask sh" by (simp add: assms(1) mask_eq_exp_minus_1)
    ultimately have d: "unat (go_uint h u AND (of_nat b - 1)) = unat u mod b"
      by (simp add: unat_take_bit assms(1) flip: take_bit_eq_mask)
    have "unat u div b \<le> unat u div 2" using b36 by (intro div_le_mono2) simp_all
    then have "unat (drop_bit sh u) < 2 ^ Suc k" using Suc.prems q by simp
    from Suc.IH [OF this, of "digits36 ! (unat u mod b) # a"] emit_digit [OF b36(1) le, of a]
    show ?thesis using True by (auto simp: emitted_def d q intro: emits_trans)
  next
    case False
    then show ?thesis by (simp add: emitted_def word_le_nat_alt b)
  qed
qed

section \<open>Base 10\<close>

lemma smalls_digits:
  assumes "i < 100"
  shows "smallsString ! (i * 2) = digits36 ! (i div 10)" "smallsString ! (i * 2 + 1) = digits36 ! (i mod 10)"
proof -
  have "list_all (\<lambda>i. smallsString ! (i * 2) = digits36 ! (i div 10) \<and> smallsString ! (i * 2 + 1) = digits36 ! (i mod 10)) [0..<100]"
    by code_simp
  then show "smallsString ! (i * 2) = digits36 ! (i div 10)" "smallsString ! (i * 2 + 1) = digits36 ! (i mod 10)"
    using assms by (auto simp: list_all_iff)
qed

lemma tens: "n mod 100 div 10 = n div 10 mod (10 :: nat)" "n mod 100 mod 10 = n mod (10 :: nat)"
  using mod_mult2_eq [of n 10 10] by (simp_all add: mod_mod_cancel)

lemma two_digits_eq:
  "two_digits us a = (us div 100, digits36 ! (unat us div 10 mod 10) # digits36 ! (unat us mod 10) # a)"
proof -
  have i: "unat (us mod 100 * 2) = unat us mod 100 * 2" by (simp add: unat_word_ariths unat_mod)
  show ?thesis using smalls_digits [of "unat us mod 100"] by (simp add: two_digits_def Let_def i tens)
qed

lemma emit_two:
  assumes "100 \<le> n"
  shows "emits 10 n a (n div 100) (digits36 ! (n div 10 mod 10) # digits36 ! (n mod 10) # a)"
proof -
  have "10 \<le> n" "10 \<le> n div 10" using assms by simp_all
  from emits_trans [OF emit_digit [OF _ this(1)] emit_digit [OF _ this(2)]]
  show ?thesis by (simp add: div_mult2_eq [symmetric])
qed

lemma dec_loop_emits: "emitted 10 us a 100 (dec_loop us a)"
proof (induction us a rule: dec_loop.induct)
  case (1 us a)
  show ?case
  proof (cases "us \<ge> 100")
    case True
    then have "100 \<le> unat us" by (simp add: word_le_nat_alt)
    from emit_two [OF this, of a] 1 [OF True two_digits_eq [symmetric] refl]
    show ?thesis using True two_digits_eq [of us a]
      by (subst dec_loop.simps) (auto simp: emitted_def unat_div intro: emits_trans)
  next
    case False
    then show ?thesis by (subst dec_loop.simps) (simp add: emitted_def word_le_nat_alt)
  qed
qed

text \<open>The digits of the low part of a number are its low digits.\<close>

lemma low_digits: "n mod (c * 100 * e) div c mod 100 = n div c mod (100 :: nat)"
proof -
  have "n mod (c * (100 * e)) div c = n div c mod (100 * e)"
    by (cases "c = 0") (simp_all add: mod_mult2_eq)
  then show ?thesis by (simp add: mod_mod_cancel mult.assoc)
qed

lemma nine_digits_emits:
  assumes "1000000000 \<le> unat u"
  shows "case nine_digits h u a of (u', a') \<Rightarrow> u' = u div 1000000000 \<and> emits 10 (unat u) a (unat u') a'"
proof -
  define n where "n = unat u"
  define us where "us = go_uint h (u - u div 1000000000 * 1000000000)"
  have "u - u div 1000000000 * 1000000000 = u mod 1000000000" by (rule minus_div_mult_eq_mod)
  then have "unat (u - u div 1000000000 * 1000000000) = n mod 1000000000" by (simp only: unat_mod n_def) simp
  then have us: "unat us = n mod 1000000000" unfolding us_def by (subst go_uint_small) simp_all
  define put where "put m a = digits36 ! (m div 10 mod 10) # digits36 ! (m mod 10) # a" for m :: nat and a
  have put_low: "put (n mod 1000000000 div c) a = put (n div c) a" if "c * 100 * e = 1000000000" for c e a
  proof -
    have "put m a = digits36 ! (m mod 100 div 10) # digits36 ! (m mod 100 mod 10) # a" for m by (simp add: put_def tens)
    then show ?thesis using low_digits [of n c e] that by simp
  qed
  have two: "two_digits v a = (v div 100, put (unat v) a)" for v a by (simp add: two_digits_eq put_def)
  have emit: "emits 10 m a (m div 100) (put m a)" if "100 \<le> m" for m a
    using emit_two [OF that] by (simp add: put_def)
  define a4 where "a4 = put (n div 1000000) (put (n div 10000) (put (n div 100) (put n a)))"
  have v: "unat (us div 100) = n mod 1000000000 div 100" "unat (us div 100 div 100) = n mod 1000000000 div 10000"
    "unat (us div 100 div 100 div 100) = n mod 1000000000 div 1000000"
    "unat (us div 100 div 100 div 100 div 100) = n mod 1000000000 div 100000000"
    by (simp_all add: unat_div us div_mult2_eq [symmetric])
  have last: "n mod 1000000000 div 100000000 = n div 100000000 mod 10"
    using mod_mult2_eq [of n 100000000 10] by simp
  have "smallsString ! (k * 2 + 1) = digits36 ! k" if "k < 10" for k using smalls_digits(2) [of k] that by simp
  then have run: "nine_digits h u a = (u div 1000000000, digits36 ! (n div 100000000 mod 10) # a4)"
    using put_low [of 1 10000000 a] put_low [of 100 100000] put_low [of 10000 1000] put_low [of 1000000 10]
    by (simp add: nine_digits_def Let_def two v us last a4_def flip: us_def)
  have n9: "1000000000 \<le> n" using assms by (simp add: n_def)
  then have "emits 10 n a (n div 100) (put n a)" "emits 10 (n div 100) b (n div 10000) (put (n div 100) b)"
    "emits 10 (n div 10000) b (n div 1000000) (put (n div 10000) b)"
    "emits 10 (n div 1000000) b (n div 100000000) (put (n div 1000000) b)" for b
    using emit [of n a] emit [of "n div 100" b] emit [of "n div 10000" b] emit [of "n div 1000000" b]
    by (simp_all add: div_mult2_eq [symmetric])
  then have "emits 10 n a (n div 100000000) a4" unfolding a4_def by (meson emits_trans)
  moreover have "10 \<le> n div 100000000" using n9 by simp
  ultimately have "emits 10 n a (n div 1000000000) (digits36 ! (n div 100000000 mod 10) # a4)"
    using emits_trans [OF _ emit_digit [of 10 "n div 100000000" a4]] by (simp add: div_mult2_eq [symmetric])
  then show ?thesis unfolding run by (simp add: n_def unat_div)
qed

lemma dec32_loop_emits: "emitted 10 u a 1000000000 (dec32_loop h u a)"
proof (induction h u a rule: dec32_loop.induct)
  case (1 h u a)
  show ?case
  proof (cases "u \<ge> 1000000000")
    case True
    then have "1000000000 \<le> unat u" by (simp add: word_le_nat_alt)
    note nine = nine_digits_emits [OF this, where h = h and a = a]
    obtain u' a' where n: "nine_digits h u a = (u', a')" by (cases "nine_digits h u a")
    then have "emits 10 (unat u) a (unat u') a'" using nine unfolding n prod.case by blast
    with 1 [OF True n [symmetric] refl] show ?thesis using True n
      by (subst dec32_loop.simps) (auto simp: emitted_def intro: emits_trans)
  next
    case False
    then show ?thesis by (subst dec32_loop.simps) (simp add: emitted_def word_le_nat_alt)
  qed
qed

text \<open>All the digits of a number.\<close>

definition digits_of :: "nat \<Rightarrow> nat \<Rightarrow> string \<Rightarrow> bool" where
  "digits_of b n s \<longleftrightarrow> (\<exists>ds. s = map ((!) digits36) ds \<and> ds \<noteq> [] \<and> (\<forall>d\<in>set ds. d < b)
     \<and> n = foldl (\<lambda>v d. v * b + d) 0 ds \<and> (tl ds \<noteq> [] \<longrightarrow> 0 < hd ds))"

lemma emits_last:
  assumes "emits b n [] n' a" and "n' < b"
  shows "digits_of b n (digits36 ! n' # a)"
proof -
  obtain ds where ds: "a = map ((!) digits36) ds" "\<forall>d\<in>set ds. d < b" "n = foldl (\<lambda>v d. v * b + d) n' ds" "ds \<noteq> [] \<longrightarrow> 0 < n'"
    using assms(1) unfolding emits_def by auto
  show ?thesis unfolding digits_of_def using ds assms(2) by (intro exI [of _ "n' # ds"]) auto
qed

lemma dec_digits_of: "digits_of 10 (unat u) (dec_digits h u [])"
proof -
  obtain u1 a1 where s: "(if h then dec32_loop h u [] else (u, [])) = (u1, a1)" by fastforce
  have e1: "emits 10 (unat u) [] (unat u1) a1" "h \<Longrightarrow> unat u1 < 1000000000"
    using s dec32_loop_emits [of u "[]" h] by (auto simp: emitted_def split: if_splits)
  have t: "unat (go_uint h u1) = unat u1"
  proof (cases h)
    case True
    then show ?thesis using e1(2) by (intro go_uint_small) simp
  qed (simp add: go_uint_def)
  obtain us a2 where l: "dec_loop (go_uint h u1) a1 = (us, a2)" by fastforce
  have e2: "emits 10 (unat u1) a1 (unat us) a2" "unat us < 100"
    using dec_loop_emits [of "go_uint h u1" a1] l t by (simp_all add: emitted_def)
  have e: "emits 10 (unat u) [] (unat us) a2" by (rule emits_trans [OF e1(1) e2(1)])
  have i: "unat (us * 2) = unat us * 2" using e2(2) by (simp add: unat_word_ariths)
  note sm = smalls_digits [OF e2(2)]
  show ?thesis
  proof (cases "us \<ge> 10")
    case True
    then have u: "10 \<le> unat us" by (simp add: word_le_nat_alt)
    have "emits 10 (unat u) [] (unat us div 10) (digits36 ! (unat us mod 10) # a2)"
      using emits_trans [OF e emit_digit [OF _ u]] by simp
    from emits_last [OF this] e2(2) show ?thesis using True s l i sm by (simp add: dec_digits_def)
  next
    case False
    then have u: "unat us < 10" by (simp add: word_le_nat_alt)
    from emits_last [OF e u] show ?thesis using False s l i sm u by (simp add: dec_digits_def)
  qed
qed

section \<open>Any base\<close>

lemma power_bases:
  assumes "2 \<le> base" and "base \<le> 36" and "isPowerOfTwo base"
    and sh_def: "sh = unat ((of_nat (TrailingZeros h (word_of_int base)) :: u64) AND 7)"
  shows "nat base = 2 ^ sh" "1 \<le> sh" "sh \<le> 5"
proof -
  have "list_all (\<lambda>b. isPowerOfTwo b \<longrightarrow> b \<in> {2, 4, 8, 16, 32}) [2..36]" by code_simp
  moreover have "base \<in> set [2..36]" using assms(1,2) by (simp only: set_upto) simp
  ultimately have "base \<in> {2, 4, 8, 16, 32}" using assms(3) unfolding list_all_iff by blast
  moreover have "list_all (\<lambda>(b, k). unat ((of_nat (TrailingZeros h (word_of_int b)) :: u64) AND 7) = k)
      [(2, 1), (4, 2), (8, 3), (16, 4), (32, 5)]"
    by (cases h) (simp, code_simp, simp, code_simp)
  ultimately show "nat base = 2 ^ sh" "1 \<le> sh" "sh \<le> 5" unfolding sh_def by auto
qed

lemma formatBits_digits:
  assumes "2 \<le> base" and "base \<le> 36"
  obtains s where "digits_of (nat base) (unat (if neg then - u else u)) s"
    "\<And>dst app. formatBits h dst u base neg app = Ret (if app then (dst @ (if neg then CHR ''-'' # s else s), '''') else ('''', if neg then CHR ''-'' # s else s))"
proof -
  define v where "v = (if neg then - u else u)"
  define b where "b = nat base"
  have b: "2 \<le> b" "b \<le> 36" "int b = base" "(word_of_int base :: u64) = of_nat b" using assms by (simp_all add: b_def)
  have lt: "unat v < 2 ^ Suc 64" using unsigned_less [of v, where ?'a = nat] by simp
  define r where "r = (if isPowerOfTwo base
       then pow2_loop 64 h (of_nat b) (unat ((of_nat (TrailingZeros h (of_nat b)) :: u64) AND 7)) v []
       else base_loop 64 h (of_nat b) v [])"
  have r: "emitted b v [] b r"
  proof (cases "isPowerOfTwo base")
    case True
    note p = power_bases [OF assms True refl, of h, unfolded b(4), folded b_def]
    show ?thesis using pow2_loop_emits [OF p lt] True by (simp add: r_def)
  next
    case False
    then show ?thesis using base_loop_emits [OF b(1,2) lt] by (simp add: r_def)
  qed
  define s where "s = (if base = 10 then dec_digits h v [] else (let (u, a) = r in digits36 ! unat (go_uint h u) # a))"
  have "digits_of b (unat v) s"
  proof (cases "base = 10")
    case True
    then show ?thesis using dec_digits_of [of v h] by (simp add: s_def b_def)
  next
    case False
    obtain u' a' where ua: "r = (u', a')" by fastforce
    then have e: "emits b (unat v) [] (unat u') a'" "unat u' < b" using r by (simp_all add: emitted_def)
    moreover have "unat (go_uint h u') = unat u'" using e(2) b(2) by (intro go_uint_small) simp
    ultimately show ?thesis using emits_last False ua by (simp add: s_def)
  qed
  moreover have "formatBits h dst u base neg app = Ret (if app then (dst @ (if neg then CHR ''-'' # s else s), '''') else ('''', if neg then CHR ''-'' # s else s))" for dst app
  proof -
    have "\<not> (base < 2 \<or> base > int (length digits36))" using assms by (simp add: digits36_def)
    then show ?thesis unfolding formatBits_def Let_def
      by (simp add: s_def r_def b(4) Let_def flip: v_def)
  qed
  ultimately show thesis by (intro that [of s]) (simp_all add: b_def v_def)
qed

lemma digit36:
  assumes "d < 36"
  shows "digit_of (digits36 ! d) = Some d" "digits36 ! d \<noteq> CHR ''-''" "digits36 ! d \<noteq> CHR ''+''"
proof -
  have "list_all (\<lambda>d. digit_of (digits36 ! d) = Some d \<and> digits36 ! d \<noteq> CHR ''-'' \<and> digits36 ! d \<noteq> CHR ''+'') [0..<36]"
    by code_simp
  then show "digit_of (digits36 ! d) = Some d" "digits36 ! d \<noteq> CHR ''-''" "digits36 ! d \<noteq> CHR ''+''"
    using assms by (auto simp: list_all_iff)
qed

lemma digits_of_parse:
  assumes "digits_of b n s" and "b \<le> 36"
  shows "list_all (is_digit_in b) s" "number b 0 s = n" "s \<noteq> []" "s ! 0 \<noteq> CHR ''-''" "s ! 0 \<noteq> CHR ''+''"
proof -
  obtain ds where ds: "s = map ((!) digits36) ds" "ds \<noteq> []" "\<forall>d\<in>set ds. d < b" "n = foldl (\<lambda>v d. v * b + d) 0 ds"
    using assms(1) unfolding digits_of_def by blast
  have lt: "\<forall>d\<in>set ds. d < 36" using ds(3) assms(2) by auto
  have "number b v (map ((!) digits36) ds) = foldl (\<lambda>v d. v * b + d) v ds" for v
    using lt by (induction ds arbitrary: v) (simp_all add: digit36)
  then show "number b 0 s = n" using ds by simp
  show "list_all (is_digit_in b) s" using ds lt by (auto simp: list_all_iff is_digit_in_def digit36)
  have "s ! 0 = digits36 ! hd ds" "hd ds < 36" using ds lt by (simp_all add: hd_conv_nth)
  then show "s ! 0 \<noteq> CHR ''-''" "s ! 0 \<noteq> CHR ''+''" using digit36(2,3) by simp_all
  show "s \<noteq> []" using ds by simp
qed

lemma digits_of_length:
  assumes "digits_of b n s" and "2 \<le> b" and "n < 2 ^ k" and "1 \<le> k"
  shows "length s \<le> k"
proof -
  obtain ds where ds: "s = map ((!) digits36) ds" "ds \<noteq> []" "n = foldl (\<lambda>v d. v * b + d) 0 ds" "tl ds \<noteq> [] \<longrightarrow> 0 < hd ds"
    using assms(1) unfolding digits_of_def by blast
  have ge: "v * b ^ length es \<le> foldl (\<lambda>v d. v * b + d) v es" for v es
  proof (induction es arbitrary: v)
    case (Cons e es)
    have "v * b ^ length (e # es) \<le> (v * b + e) * b ^ length es" by (simp add: algebra_simps)
    also have "\<dots> \<le> foldl (\<lambda>v d. v * b + d) (v * b + e) es" by (rule Cons)
    finally show ?case by simp
  qed simp
  show ?thesis
  proof (cases "tl ds = []")
    case True
    then have "length ds = 1" using ds(2) by (cases ds) simp_all
    then show ?thesis using ds(1) assms(4) by simp
  next
    case False
    then have d: "ds = hd ds # tl ds" "1 \<le> hd ds" using ds(2,4) by simp_all
    have "n = foldl (\<lambda>v d. v * b + d) (hd ds) (tl ds)"
      unfolding ds(3) by (subst d(1)) (simp only: foldl_Cons mult_zero_left add_0)
    then have "hd ds * b ^ length (tl ds) \<le> n" using ge [of "hd ds" "tl ds"] by (simp only:)
    moreover have "2 ^ length (tl ds) \<le> hd ds * b ^ length (tl ds)"
      using d(2) assms(2) power_mono [of 2 b "length (tl ds)"] mult_le_mono [of 1 "hd ds" "2 ^ length (tl ds)" "b ^ length (tl ds)"] by simp
    ultimately have "(2 :: nat) ^ length (tl ds) < 2 ^ k" using assms(3) by linarith
    then have "length (tl ds) < k" by simp
    then show ?thesis using ds(1) by simp
  qed
qed

lemma small_digits: "i < 100 \<Longrightarrow> digits_of 10 i (small i)"
proof -
  assume i: "i < 100"
  have l: "length smallsString = 200" "length digits36 = 36" by (simp_all add: smallsString_def digits36_def)
  have two: "take 2 (drop j xs) = [xs ! j, xs ! (j + 1)]" if "j + 1 < length xs" for j and xs :: string
  proof -
    have "drop j xs = xs ! j # xs ! Suc j # drop (Suc (Suc j)) xs" using that by (simp add: Cons_nth_drop_Suc)
    then show ?thesis by simp
  qed
  have one: "take 1 (drop j xs) = [xs ! j]" if "j < length xs" for j and xs :: string
    using that by (simp flip: Cons_nth_drop_Suc)
  have s: "small i = (if i < 10 then [digits36 ! i] else [digits36 ! (i div 10), digits36 ! (i mod 10)])"
    using i l one [of i digits36] two [of "i * 2" smallsString] smalls_digits [OF i] by (simp add: small_def)
  show ?thesis
  proof (cases "i < 10")
    case True
    then show ?thesis using s unfolding digits_of_def by (intro exI [of _ "[i]"]) simp
  next
    case False
    then show ?thesis using s i unfolding digits_of_def by (intro exI [of _ "[i div 10, i mod 10]"]) auto
  qed
qed

text \<open>The two formatting functions.\<close>

lemma FormatUint_digits:
  assumes "2 \<le> base" and "base \<le> 36"
  obtains s where "FormatUint h u base = Ret s" "digits_of (nat base) (unat u) s"
    "AppendUint h dst u base = Ret (dst @ s)"
proof (cases "uint u < nSmalls \<and> base = 10")
  case True
  then have "int (unat u) < 100" by (simp add: nSmalls_def)
  then have "unat u < 100" by linarith
  from small_digits [OF this] True that [of "small (unat u)"] show thesis
    by (simp add: FormatUint_def AppendUint_def)
next
  case False
  obtain s where "digits_of (nat base) (unat u) s" "\<And>dst app. formatBits h dst u base False app = Ret (if app then (dst @ s, []) else ([], s))"
    using formatBits_digits [OF assms, of False u h] by (metis (full_types))
  then show thesis using False that [of s] by (auto simp: FormatUint_def AppendUint_def)
qed

section \<open>Formatting and parsing\<close>

lemma ParseUint_digits:
  assumes "digits_of b (unat v) s" and "2 \<le> b" and "b \<le> 36"
  shows "ParseUint h s (int b) 64 = (v, None)"
proof -
  note p = digits_of_parse [OF assms(1,3)]
  have "unat v < 2 ^ 64" using unsigned_less [of v, where ?'a = nat] by simp
  then have "uint_reference b (2 ^ bits_of h 64 - 1) s = (unat v, None)"
    using p(1,2) takeWhile_all [of "is_digit_in b" s] by (simp add: uint_reference_def bits_of_def Let_def del: takeWhile_eq_all_conv)
  then show ?thesis using uint_of_reference [of "int b" 64 s h] assms(2,3) p(3) by (simp add: as_result_def)
qed

lemma sint_cases:
  fixes w :: u64
  shows "0 \<le> sint w \<Longrightarrow> unat w < 2 ^ 63 \<and> sint w = int (unat w)"
    and "sint w < 0 \<Longrightarrow> unat (- w) \<le> 2 ^ 63 \<and> sint w = - int (unat (- w))"
proof -
  have m: "unat (0 - w) = (if unat w = 0 then 0 else 2 ^ 64 - unat w)" by (simp only: unat_sub_if') simp
  have neg: "unat (- w) \<le> 2 ^ 63 \<and> sint w = - int (unat (- w)) \<and> sint w < 0" if "2 ^ 63 \<le> unat w"
  proof -
    have "unat w < 2 ^ 64" using unsigned_less [of w, where ?'a = nat] by simp
    then have "unat (- w) \<le> 2 ^ 63 \<and> 0 < unat (- w)" using that m by simp
    moreover from this have "sint w = - int (unat (- w))" using sint_minus [of "- w"] by simp
    ultimately show ?thesis by linarith
  qed
  show "0 \<le> sint w \<Longrightarrow> unat w < 2 ^ 63 \<and> sint w = int (unat w)"
    using neg sint_small [of w] by (cases "unat w < 2 ^ 63") auto
  show "sint w < 0 \<Longrightarrow> unat (- w) \<le> 2 ^ 63 \<and> sint w = - int (unat (- w))"
    using neg sint_small [of w] by (cases "unat w < 2 ^ 63") auto
qed

lemma FormatInt_digits:
  fixes w :: u64
  assumes "2 \<le> base" and "base \<le> 36"
  obtains s where "digits_of (nat base) (unat (if sint w < 0 then - w else w)) s"
    "FormatInt h (sint w) base = Ret (if sint w < 0 then CHR ''-'' # s else s)"
    "\<And>dst. AppendInt h dst (sint w) base = Ret (dst @ (if sint w < 0 then CHR ''-'' # s else s))"
proof (cases "0 \<le> sint w \<and> sint w < nSmalls \<and> base = 10")
  case True
  then have w: "sint w = int (unat w)" using sint_cases(1) by blast
  then have "int (unat w) < 100" using True by (simp add: nSmalls_def)
  then have "unat w < 100" by linarith
  note small = small_digits [OF this]
  have "nat (sint w) = unat w" unfolding w by (rule nat_int)
  moreover have "\<not> sint w < 0" "nat base = 10" using True by simp_all
  ultimately show thesis using True small
    by (intro that [of "small (unat w)"]) (simp_all only: FormatInt_def AppendInt_def if_False simp_thms if_True)
next
  case False
  show thesis
  proof (rule formatBits_digits [OF assms, where neg = "sint w < 0" and u = w and h = h])
    fix s
    assume "digits_of (nat base) (unat (if sint w < 0 then - w else w)) s"
      and "\<And>dst app. formatBits h dst w base (sint w < 0) app = Ret (if app then (dst @ (if sint w < 0 then CHR ''-'' # s else s), [])
        else ([], if sint w < 0 then CHR ''-'' # s else s))"
    then show thesis
      by (intro that [of s]) (simp_all add: FormatInt_def AppendInt_def if_not_P [OF False])
  qed
qed

lemma ParseInt_digits:
  fixes w :: u64
  assumes "digits_of b (unat (if sint w < 0 then - w else w)) s" and "2 \<le> b" and "b \<le> 36"
  shows "ParseInt h (if sint w < 0 then CHR ''-'' # s else s) (int b) 64 = (sint w, None)"
proof -
  note u = ParseUint_digits [OF assms, of h] and p = digits_of_parse(3-5) [OF assms(1,3)]
  have k: "bits_of h 64 - 1 = 63" by (simp add: bits_of_def)
  have r: "signed_result h s0 (sint w < 0) (if sint w < 0 then - w else w) 64 = (sint w, None)" for s0
    unfolding signed_result_value [OF zero_le_numeral order_refl refl] k using sint_cases [of w] by (cases "sint w < 0") auto
  show ?thesis using u p r by (cases "sint w < 0") (simp_all add: ParseInt_def)
qed

text \<open>
  C40. In every base from 2 to 36 and on hosts of both sizes, \<open>ParseUint\<close> reads back what \<open>FormatUint\<close> prints of any
  \<open>uint64\<close>, and \<open>ParseInt\<close> what \<open>FormatInt\<close> prints of any \<open>int64\<close>, the smallest one included; the text has at most 64
  digits, so that it fits the buffer of 65 bytes of \<open>formatBits\<close>; and \<open>AppendUint\<close> and \<open>AppendInt\<close> append the same text.
\<close>

theorem strconv_roundtrip:
  fixes u w :: u64
  assumes "2 \<le> base" and "base \<le> 36"
  shows "\<exists>s t. FormatUint h u base = Ret s \<and> ParseUint h' s base 64 = (u, None) \<and> length s \<le> 64
    \<and> AppendUint h dst u base = Ret (dst @ s)
    \<and> FormatInt h (sint w) base = Ret t \<and> ParseInt h' t base 64 = (sint w, None) \<and> length t \<le> 65
    \<and> AppendInt h dst (sint w) base = Ret (dst @ t)"
proof -
  have b: "2 \<le> nat base" "nat base \<le> 36" "int (nat base) = base" using assms by simp_all
  have lt: "unat v < 2 ^ 64" for v :: u64 using unsigned_less [of v, where ?'a = nat] by simp
  obtain s where s: "FormatUint h u base = Ret s" "digits_of (nat base) (unat u) s" "AppendUint h dst u base = Ret (dst @ s)"
    using FormatUint_digits [OF assms, of h u dst] by metis
  obtain t where t: "digits_of (nat base) (unat (if sint w < 0 then - w else w)) t"
    "FormatInt h (sint w) base = Ret (if sint w < 0 then CHR ''-'' # t else t)"
    "AppendInt h dst (sint w) base = Ret (dst @ (if sint w < 0 then CHR ''-'' # t else t))"
    using FormatInt_digits [OF assms, of w h] by metis
  have "length s \<le> 64" "length t \<le> 64"
    using digits_of_length [OF s(2) b(1) lt] digits_of_length [OF t(1) b(1) lt] by simp_all
  moreover note ParseUint_digits [OF s(2) b(1,2), of h', unfolded b(3)] ParseInt_digits [OF t(1) b(1,2), of h', unfolded b(3)]
  ultimately show ?thesis using s t by (intro exI [of _ s] exI [of _ "if sint w < 0 then CHR ''-'' # t else t"]) auto
qed

theorem strconv_roundtrip_witness:
  "FormatInt False (-9223372036854775808) 36 = Ret ''-1y2p0ij32e8e8'' \<and> ParseInt True ''-1y2p0ij32e8e8'' 36 64 = (-9223372036854775808, None)"
proof -
  have "sint (0x8000000000000000 :: u64) = -9223372036854775808" by code_simp
  moreover have "FormatInt False (-9223372036854775808) 36 = Ret ''-1y2p0ij32e8e8''" by code_simp
  ultimately show ?thesis using strconv_roundtrip [of 36 False 0 True "''''" "0x8000000000000000"] by auto
qed

section \<open>One text for each number\<close>

fun digit_list :: "nat \<Rightarrow> nat \<Rightarrow> nat list" where
  "digit_list b n = (if n < b \<or> b < 2 then [n] else digit_list b (n div b) @ [n mod b])"

declare digit_list.simps [simp del]

lemma digit_list_unique:
  assumes "2 \<le> b" and "ds \<noteq> []" and "\<forall>d\<in>set ds. d < b" and "tl ds \<noteq> [] \<longrightarrow> 0 < hd ds"
  shows "ds = digit_list b (foldl (\<lambda>v d. v * b + d) 0 ds)"
  using assms(2-4)
proof (induction ds rule: rev_induct)
  case (snoc e es)
  show ?case
  proof (cases "es = []")
    case True
    then show ?thesis using snoc.prems(2) by (subst digit_list.simps) simp
  next
    case False
    let ?v = "foldl (\<lambda>v d. v * b + d) 0 es"
    have h: "0 < hd es" using snoc.prems(3) False by (cases es) simp_all
    have "w \<le> foldl (\<lambda>v d. v * b + d) w fs" for w fs
    proof (induction fs arbitrary: w)
      case (Cons f fs)
      have "w \<le> w * b + f" using assms(1) by (simp add: trans_le_add1)
      also have "\<dots> \<le> foldl (\<lambda>v d. v * b + d) (w * b + f) fs" by (rule Cons)
      finally show ?case by simp
    qed simp
    from this [of "hd es" "tl es"] have "hd es \<le> ?v" using False by (cases es) simp_all
    then have v: "0 < ?v" using h by simp
    have "e < b" using snoc.prems(2) by simp
    then have "(?v * b + e) div b = ?v" "(?v * b + e) mod b = e" "\<not> ?v * b + e < b"
      using v assms(1) by (simp_all add: div_add1_eq) (metis le_add1 mult_le_mono1 nat_mult_1 not_less One_nat_def Suc_leI trans_le_add1)
    moreover have "es = digit_list b ?v" using snoc.IH [OF False] snoc.prems(2) h by simp
    ultimately show ?thesis using assms(1) by (subst digit_list.simps) simp
  qed
qed simp

lemma digits_of_unique:
  assumes "2 \<le> b" and "digits_of b n s" and "digits_of b n t"
  shows "s = t"
proof -
  have "u = map ((!) digits36) (digit_list b n)" if d: "digits_of b n u" for u
    using d digit_list_unique [OF assms(1)] unfolding digits_of_def by auto
  from this [OF assms(2)] this [OF assms(3)] show ?thesis by simp
qed

section \<open>The internal package\<close>

lemma decimal_char:
  fixes r :: u64
  assumes "unat r < 10"
  shows "char_of (unat (ucast (48 + r) :: u8)) = digits36 ! unat r"
proof -
  have "unat (48 + r) = 48 + unat r" using assms by (simp add: unat_word_ariths)
  then have "unat (ucast (48 + r) :: u8) = 48 + unat r" using assms by (simp add: unsigned_ucast_eq take_bit_eq_mod)
  moreover have "list_all (\<lambda>d. char_of (48 + d) = digits36 ! d) [0..<10]" by code_simp
  ultimately show ?thesis using assms by (simp only: list_all_iff) simp
qed

lemma uitoa_loop_emits: "emitted 10 v a 10 (uitoa_loop v a)"
proof (induction v a rule: uitoa_loop.induct)
  case (1 v a)
  show ?case
  proof (cases "v \<ge> 10")
    case True
    then have u: "10 \<le> unat v" by (simp add: word_le_nat_alt)
    have m: "unat (v mod 10) = unat v mod 10" "unat (v div 10) = unat v div 10" by (simp_all add: unat_mod unat_div)
    have e: "48 + v - v div 10 * 10 = 48 + v mod 10" by (metis add_diff_eq minus_div_mult_eq_mod)
    have "char_of (unat (ucast (48 + v - v div 10 * 10) :: u8)) = digits36 ! (unat v mod 10)"
      unfolding e using decimal_char [of "v mod 10"] m(1) by simp
    with 1 [OF True refl] emit_digit [OF _ u, of a] m(2) show ?thesis
      using True by (subst uitoa_loop.simps) (auto simp: emitted_def intro: emits_trans)
  next
    case False
    then show ?thesis by (subst uitoa_loop.simps) (simp add: emitted_def word_le_nat_alt)
  qed
qed

lemma Uitoa_digits: "digits_of 10 (unat v) (Uitoa v)"
proof (cases "v = 0")
  case True
  have "Uitoa 0 = [digits36 ! 0]" by code_simp
  then show ?thesis using True unfolding digits_of_def by (intro exI [of _ "[0]"]) simp
next
  case False
  obtain w a where l: "uitoa_loop v [] = (w, a)" by fastforce
  then have e: "emits 10 (unat v) [] (unat w) a" "unat w < 10" using uitoa_loop_emits [of v "[]"] by (simp_all add: emitted_def)
  from emits_last [OF this] show ?thesis using False l decimal_char [OF e(2)] by (simp add: Uitoa_def)
qed

lemma FormatUint_Uitoa: "FormatUint h v 10 = Ret (Uitoa v)" "AppendUint h dst v 10 = Ret (dst @ Uitoa v)"
proof -
  obtain s where "FormatUint h v 10 = Ret s" "digits_of (nat 10) (unat v) s" "AppendUint h dst v 10 = Ret (dst @ s)"
    using FormatUint_digits [of 10 h v dst] by auto
  then show "FormatUint h v 10 = Ret (Uitoa v)" "AppendUint h dst v 10 = Ret (dst @ Uitoa v)"
    using digits_of_unique [of 10 "unat v" s "Uitoa v"] Uitoa_digits by simp_all
qed

lemma Itoa_internal:
  fixes w :: u64
  shows "Itoa False (sint w) = Ret (itoa_Itoa False (sint w))"
proof -
  obtain s where s: "digits_of (nat 10) (unat (if sint w < 0 then - w else w)) s"
    "FormatInt False (sint w) 10 = Ret (if sint w < 0 then CHR ''-'' # s else s)"
    using FormatInt_digits [of 10 w False] by auto
  have "s = Uitoa (if sint w < 0 then - w else w)" using digits_of_unique [OF _ s(1)] Uitoa_digits by simp
  moreover have "(word_of_int (- sint w) :: u64) = - w" by simp
  ultimately show ?thesis using s(2) by (simp add: Itoa_def itoa_Itoa_def go_uint_def)
qed

section \<open>Trailing zeros\<close>

lemma lowest_bit_alone:
  fixes x :: "'a::len word"
  assumes "bit x k" and "\<And>j. j < k \<Longrightarrow> \<not> bit x j"
  shows "x AND - x = push_bit k 1"
proof -
  define y where "y = drop_bit k x"
  have ge: "k \<le> n" if "bit x n" for n using assms(2) that not_less by blast
  have x: "x = push_bit k y"
  proof (rule bit_word_eqI)
    fix n
    assume "n < LENGTH('a)"
    then show "bit x n = bit (push_bit k y) n" using ge [of n]
      by (cases "k \<le> n") (auto simp: y_def bit_push_bit_iff bit_drop_bit_eq)
  qed
  have "odd y" using assms(1) by (simp add: y_def bit_drop_bit_eq flip: bit_0)
  then have "y - 1 = y XOR 1" by (simp add: xor_one_eq)
  then have "- y = NOT (y XOR 1)" by (simp only: minus_eq_not_minus_1)
  moreover have "bit (1 :: 'a word) n \<longleftrightarrow> n = 0" for n by (simp add: bit_1_iff)
  ultimately have "y AND - y = y AND 1"
    by (intro bit_word_eqI) (auto simp: bit_and_iff bit_not_iff bit_xor_iff)
  also have "\<dots> = 1" using \<open>odd y\<close> by (simp add: and_one_eq odd_iff_mod_2_eq_one)
  finally have "y AND - y = 1" .
  then have "push_bit k (y AND - y) = push_bit k 1" by simp
  then show ?thesis unfolding x by (simp add: push_bit_and push_bit_minus)
qed

lemma deBruijn_tables:
  "k < 64 \<Longrightarrow> deBruijn64tab ! unat (drop_bit (64 - 6) (push_bit k 1 * deBruijn64)) = k"
  "k < 32 \<Longrightarrow> deBruijn32tab ! unat (drop_bit (32 - 5) (push_bit k 1 * deBruijn32)) = k"
proof -
  have "list_all (\<lambda>k. deBruijn64tab ! unat (drop_bit (64 - 6) (push_bit k 1 * deBruijn64)) = k) [0..<64]" by code_simp
  then show "k < 64 \<Longrightarrow> deBruijn64tab ! unat (drop_bit (64 - 6) (push_bit k 1 * deBruijn64)) = k" by (simp only: list_all_iff) simp
  have "list_all (\<lambda>k. deBruijn32tab ! unat (drop_bit (32 - 5) (push_bit k 1 * deBruijn32)) = k) [0..<32]" by code_simp
  then show "k < 32 \<Longrightarrow> deBruijn32tab ! unat (drop_bit (32 - 5) (push_bit k 1 * deBruijn32)) = k" by (simp only: list_all_iff) simp
qed

text \<open>
  The multiplication with a de Bruijn sequence finds the lowest bit that is set, for every word of 64 and of 32 bits
  but 0, for which the answer is the width.
\<close>

theorem trailing_zeros_lowest:
  "TrailingZeros64 x = (if x = 0 then 64 else LEAST k. bit x k)
   \<and> TrailingZeros32 y = (if y = 0 then 32 else LEAST k. bit y k)"
proof -
  have low: "bit w (LEAST k. bit w k)" "\<And>j. j < (LEAST k. bit w k) \<Longrightarrow> \<not> bit w j" "(LEAST k. bit w k) < LENGTH('b)"
    if w: "w \<noteq> 0" for w :: "'b::len word"
  proof -
    obtain n where "bit w n" using w bit_eq_iff [of w 0] by auto
    then show b: "bit w (LEAST k. bit w k)" by (rule LeastI)
    show "\<And>j. j < (LEAST k. bit w k) \<Longrightarrow> \<not> bit w j" by (rule not_less_Least)
    show "(LEAST k. bit w k) < LENGTH('b)" using b by (rule bit_imp_le_length)
  qed
  have "TrailingZeros64 x = (LEAST k. bit x k)" if "x \<noteq> 0"
  proof -
    have "x AND - x = push_bit (LEAST k. bit x k) 1" by (rule lowest_bit_alone [OF low(1,2) [OF that]])
    moreover have "(LEAST k. bit x k) < 64" using low(3) [OF that] by simp
    ultimately show ?thesis using deBruijn_tables(1) [of "LEAST k. bit x k"] that by (simp add: TrailingZeros64_def)
  qed
  moreover have "TrailingZeros32 y = (LEAST k. bit y k)" if "y \<noteq> 0"
  proof -
    have "y AND - y = push_bit (LEAST k. bit y k) 1" by (rule lowest_bit_alone [OF low(1,2) [OF that]])
    moreover have "(LEAST k. bit y k) < 32" using low(3) [OF that] by simp
    ultimately show ?thesis using deBruijn_tables(2) [of "LEAST k. bit y k"] that by (simp add: TrailingZeros32_def)
  qed
  ultimately show ?thesis by (simp add: TrailingZeros64_def TrailingZeros32_def)
qed

end
