(* ===== verification/NetPrefixProps.thy ===== *)
theory NetPrefixProps
  imports NetPrefix NetTextProps StrconvFormat
begin

text \<open>
  Facts of the prefixes and ports of \<^verbatim>\<open>net/netip\<close>: the network number of an address, what \<open>PrefixFrom\<close> and
  \<open>Masked\<close> build, membership and overlap of address blocks, the comparisons as interpretations of the
  locale \<open>comparison\<close>, and the binary forms as interpretations of the locale \<open>codec\<close>.
\<close>

section \<open>Network numbers\<close>

text \<open>The number of the network of size \<open>2 ^ m\<close> that an address lies in.\<close>

definition network :: "nat \<Rightarrow> Addr \<Rightarrow> 128 word" where
  "network m ip = drop_bit m (u128 (a_addr ip))"

text \<open>The number of host bits.\<close>

definition host_bits :: "Prefix \<Rightarrow> nat" where
  "host_bits p = nat (BitLen (pf_ip p) - Bits p)"

lemma drop_bit_eq_iff: "drop_bit m x = drop_bit m y \<longleftrightarrow> (\<forall>n. m \<le> n \<longrightarrow> bit x n = bit y n)" for x y :: "'a::len word"
proof
  have d: "bit (drop_bit m z) (n - m) = bit z n" if "m \<le> n" for z :: "'a word" and n using that by (simp add: bit_drop_bit_eq)
  show "\<forall>n. m \<le> n \<longrightarrow> bit x n = bit y n" if "drop_bit m x = drop_bit m y" using d [of _ x] d [of _ y] that by simp
  show "drop_bit m x = drop_bit m y" if "\<forall>n. m \<le> n \<longrightarrow> bit x n = bit y n"
    using that by (intro bit_word_eqI) (simp add: bit_drop_bit_eq)
qed

lemma masked_eq: "x AND NOT (mask m) = y AND NOT (mask m) \<longleftrightarrow> drop_bit m x = drop_bit m y" for x y :: "'a::len word"
proof -
  have b: "bit (z AND NOT (mask m)) n \<longleftrightarrow> m \<le> n \<and> bit z n" for z :: "'a word" and n
    by (auto simp: bit_and_iff bit_not_iff bit_mask_iff not_less dest: bit_imp_le_length)
  show ?thesis unfolding drop_bit_eq_iff using b [of x] b [of y] by (metis bit_eqI)
qed

lemma xor_mask_zero: "(x XOR y) AND NOT (mask m) = 0 \<longleftrightarrow> drop_bit m x = drop_bit m y" for x y :: "'a::len word"
proof -
  have "(x XOR y) AND NOT (mask m) = 0 \<longleftrightarrow> x AND NOT (mask m) = y AND NOT (mask m)"
    unfolding bit_eq_iff by (auto simp: bit_and_iff bit_xor_iff bit_not_iff)
  then show ?thesis by (simp add: masked_eq)
qed

text \<open>An IPv4 address in its mapped form.\<close>

lemma mapped_bits:
  assumes "wf_Addr ip" and "a_z ip = Z4"
  shows "bit (u128 (a_addr ip)) n \<longleftrightarrow> (if n < 32 then bit (lo (a_addr ip)) n else n < 48)"
proof -
  have w: "hi (a_addr ip) = 0" "drop_bit 32 (lo (a_addr ip)) = 0xffff" using assms by (simp_all add: wf_Addr_def)
  have "(0xffff :: u64) = mask 16" by (simp add: mask_eq_exp_minus_1)
  then have b: "bit (drop_bit 32 (lo (a_addr ip))) k \<longleftrightarrow> k < 16" for k unfolding w(2) by (simp only: bit_mask_iff) auto
  show ?thesis using w(1) b [of "n - 32"] by (cases "n < 32"; cases "n < 64") (auto simp: bit_u128 bit_drop_bit_eq)
qed

section \<open>Valid prefixes\<close>

lemma Prefix_IsValid_Bits: "Prefix_IsValid p \<longleftrightarrow> 0 \<le> Bits p"
proof -
  have "Prefix_IsValid p \<longleftrightarrow> uint (pf_bitsPlusOne p) \<noteq> 0"
    by (simp add: Prefix_IsValid_def word_gt_0 unsigned_eq_0_iff)
  then show ?thesis using uint_nonnegative [of "pf_bitsPlusOne p"] by (auto simp: Bits_def less_le)
qed

lemma BitLen_cases:
  "a_z ip = Z0 \<Longrightarrow> BitLen ip = 0" "a_z ip = Z4 \<Longrightarrow> BitLen ip = 32" "a_z ip \<noteq> Z0 \<Longrightarrow> a_z ip \<noteq> Z4 \<Longrightarrow> BitLen ip = 128"
  by (cases "a_z ip"; simp add: BitLen_def)+

lemma valid_prefix_cases:
  assumes "wf_Prefix p" and "Prefix_IsValid p"
  obtains "a_z (pf_ip p) = Z4" "0 \<le> Bits p" "Bits p \<le> 32" | "a_z (pf_ip p) = Z6noz" "0 \<le> Bits p" "Bits p \<le> 128"
proof -
  have "0 \<le> Bits p" using assms(2) by (simp add: Prefix_IsValid_Bits)
  moreover have "a_z (pf_ip p) = Z4 \<or> a_z (pf_ip p) = Z6noz"
    using assms by (cases "a_z (pf_ip p)") (auto simp: wf_Prefix_def hasZone_def)
  ultimately show thesis using that assms(1) by (auto simp: wf_Prefix_def BitLen_cases)
qed

lemma PrefixFrom_simps:
  assumes "Addr_IsValid ip" and "0 \<le> b" and "b \<le> BitLen ip"
  shows "Bits (PrefixFrom ip b) = b" "pf_ip (PrefixFrom ip b) = withoutZone ip" "Prefix_IsValid (PrefixFrom ip b)"
proof -
  have "BitLen ip \<le> 128" by (simp add: BitLen_def split: zone.split)
  then have u: "uint (word_of_int b + 1 :: u8) = b + 1" using assms(2,3) by (simp add: uint_word_ariths uint_word_of_int)
  then show b: "Bits (PrefixFrom ip b) = b" using assms by (simp add: Bits_def PrefixFrom_def Addr_isZero_def Addr_IsValid_def)
  show "pf_ip (PrefixFrom ip b) = withoutZone ip" by (simp add: PrefixFrom_def)
  show "Prefix_IsValid (PrefixFrom ip b)" using b assms(2) by (simp add: Prefix_IsValid_Bits)
qed

lemma wf_withoutZone:
  assumes "wf_Addr ip"
  shows "wf_Addr (withoutZone ip)" "\<not> hasZone (withoutZone ip)" "a_addr (withoutZone ip) = a_addr ip"
    "BitLen (withoutZone ip) = BitLen ip" "Addr_IsValid (withoutZone ip) = Addr_IsValid ip" "Is4 (withoutZone ip) = Is4 ip"
  using assms by (auto simp: withoutZone_def wf_Addr_def hasZone_def Is6_def BitLen_def Addr_IsValid_def Is4_def split: zone.splits)

lemma wf_PrefixFrom: "wf_Addr ip \<Longrightarrow> wf_Prefix (PrefixFrom ip b)"
proof -
  assume w: "wf_Addr ip"
  show "wf_Prefix (PrefixFrom ip b)"
  proof (cases "Addr_IsValid ip \<and> 0 \<le> b \<and> b \<le> BitLen ip")
    case True
    then show ?thesis using PrefixFrom_simps [of ip b] wf_withoutZone [OF w]
      by (auto simp: wf_Prefix_def Addr_IsValid_def)
  next
    case False
    then have "PrefixFrom ip b = \<lparr>pf_ip = withoutZone ip, pf_bitsPlusOne = 0\<rparr>"
      by (auto simp: PrefixFrom_def Addr_isZero_def Addr_IsValid_def)
    moreover have "0 \<le> BitLen (withoutZone ip)" by (simp add: BitLen_def split: zone.split)
    ultimately show ?thesis using wf_withoutZone [OF w] by (simp add: wf_Prefix_def Bits_def Prefix_IsValid_def)
  qed
qed

text \<open>\<open>Addr.Prefix\<close> clears the host bits.\<close>

lemma Addr_Prefix_ok:
  assumes "wf_Addr ip" and "Addr_IsValid ip" and "0 \<le> b" and "b \<le> BitLen ip"
  obtains q where "Addr_Prefix ip b = Inr q" "wf_Prefix q" "Bits q = b" "Prefix_IsValid q"
    "a_z (pf_ip q) = a_z (withoutZone ip)"
    "u128 (a_addr (pf_ip q)) = u128 (a_addr ip) AND NOT (mask (nat (BitLen ip - b)))"
proof -
  define n where "n = nat (if a_z ip = Z4 then b + 96 else b)"
  define ip' where "ip' = ip\<lparr>a_addr := u128_and (a_addr ip) (mask6 n)\<rparr>"
  have le: "b \<le> (if a_z ip = Z4 then 32 else 128)" using assms(2,4) by (auto simp: BitLen_cases Addr_IsValid_def)
  then have n: "n \<le> 128" "128 - n = nat (BitLen ip - b)"
    using assms(2,3) by (auto simp: n_def BitLen_cases Addr_IsValid_def)
  have u: "u128 (a_addr ip') = u128 (a_addr ip) AND NOT (mask (nat (BitLen ip - b)))"
    by (simp add: ip'_def u128_logic u128_mask6 n)
  have z: "a_z ip' = a_z ip" "BitLen ip' = BitLen ip" "Addr_IsValid ip'" using assms(2) by (simp_all add: ip'_def BitLen_def Addr_IsValid_def)
  have run: "Addr_Prefix ip b = Inr (PrefixFrom ip' b)"
    using assms(2,3) le by (cases "a_z ip") (simp_all add: Addr_Prefix_def ip'_def n_def Addr_IsValid_def)
  have wf: "wf_Addr ip'"
  proof (cases "a_z ip = Z4")
    case True
    have "drop_bit 32 (lo (a_addr ip')) = 0xffff"
    proof -
      have "n \<ge> 96" using True assms(3) by (simp add: n_def)
      then have "bit (lo (mask6 n)) k" if "32 \<le> k" "k < 64" for k
        using bit_mask6 [OF n(1), of k] that by (simp add: bit_u128)
      then have "drop_bit 32 (lo (a_addr ip')) = drop_bit 32 (lo (a_addr ip))"
        unfolding drop_bit_eq_iff using bit_imp_le_length [of "lo (a_addr ip)"]
        by (auto simp: ip'_def u128_and_def bit_and_iff)
      then show ?thesis using assms(1) True by (simp add: wf_Addr_def)
    qed
    then show ?thesis using assms(1) True by (simp add: wf_Addr_def ip'_def u128_and_def)
  next
    case False
    then show ?thesis using assms(1,2) by (cases "a_z ip") (simp_all add: wf_Addr_def ip'_def Addr_IsValid_def)
  qed
  have "a_z (withoutZone ip') = a_z (withoutZone ip)" using z(1) by (simp add: withoutZone_def Is6_def)
  then show thesis
    using that [OF run wf_PrefixFrom [OF wf]] PrefixFrom_simps [of ip' b] wf_withoutZone(3) [OF wf] u z assms(3,4) by simp
qed

lemma Addr_Prefix_fails:
  "Addr_Prefix ip b = Inl e \<Longrightarrow> b < 0 \<or> BitLen ip < b"
  by (auto simp: Addr_Prefix_def BitLen_def split: zone.splits if_splits)

section \<open>Membership\<close>

lemma and_63: "0 \<le> x \<Longrightarrow> x < 64 \<Longrightarrow> x AND 63 = x" for x :: int
proof -
  have "x AND mask 6 = take_bit 6 x" by (simp only: take_bit_eq_mask)
  also have "(mask 6 :: int) = 63" by (simp add: mask_eq_exp_minus_1)
  finally show "0 \<le> x \<Longrightarrow> x < 64 \<Longrightarrow> x AND 63 = x" by (simp add: take_bit_int_eq_self)
qed

lemma contains_iff:
  assumes "wf_Prefix p" and "wf_Addr ip"
  shows "Contains p ip \<longleftrightarrow> Prefix_IsValid p \<and> \<not> hasZone ip \<and> a_z ip = a_z (pf_ip p)
    \<and> network (host_bits p) ip = network (host_bits p) (pf_ip p)"
proof (cases "Prefix_IsValid p \<and> \<not> hasZone ip")
  case True
  from assms(1) have wp: "wf_Addr (pf_ip p)" by (simp add: wf_Prefix_def)
  have "Prefix_IsValid p" using True by simp
  with assms(1) show ?thesis
  proof (rule valid_prefix_cases)
    assume p: "a_z (pf_ip p) = Z4" "0 \<le> Bits p" "Bits p \<le> 32"
    show ?thesis
    proof (cases "a_z ip = Z4")
      case ip: True
      let ?s = "nat (32 - Bits p)" and ?x = "lo (a_addr ip)" and ?y = "lo (a_addr (pf_ip p))"
      have s: "nat ((32 - Bits p) AND 63) = ?s" "host_bits p = ?s" "?s \<le> 32" using p by (simp_all add: and_63 host_bits_def BitLen_def)
      have "Contains p ip \<longleftrightarrow> (ucast (drop_bit ?s (?x XOR ?y)) :: u32) = 0"
        using True p ip s(1) by (simp add: Contains_def BitLen_def Is4_def)
      also have "\<dots> \<longleftrightarrow> (\<forall>k<32. \<not> bit (?x XOR ?y) (?s + k))"
        by (auto simp: bit_eq_iff bit_ucast_iff bit_drop_bit_eq bit_xor_iff)
      also have "\<dots> \<longleftrightarrow> (\<forall>n. ?s \<le> n \<longrightarrow> bit (u128 (a_addr ip)) n = bit (u128 (a_addr (pf_ip p))) n)"
      proof -
        have mb: "bit (u128 (a_addr ip)) n = (if n < 32 then bit ?x n else n < 48)"
          "bit (u128 (a_addr (pf_ip p))) n = (if n < 32 then bit ?y n else n < 48)" for n
          by (rule mapped_bits [OF assms(2) ip], rule mapped_bits [OF wp p(1)])
        have up: "bit ?x n = bit ?y n" if "32 \<le> n" for n
        proof (cases "n < 64")
          case True
          then show ?thesis using mb [of n] that by (simp add: bit_u128)
        qed (auto dest: bit_imp_le_length)
        show ?thesis
        proof
          assume a: "\<forall>k<32. \<not> bit (?x XOR ?y) (?s + k)"
          show "\<forall>n. ?s \<le> n \<longrightarrow> bit (u128 (a_addr ip)) n = bit (u128 (a_addr (pf_ip p))) n"
          proof (intro allI impI)
            fix n
            assume "?s \<le> n"
            then have "n < 32 \<Longrightarrow> bit ?x n = bit ?y n" using a [rule_format, of "n - ?s"] s(3) by (simp add: bit_xor_iff)
            then show "bit (u128 (a_addr ip)) n = bit (u128 (a_addr (pf_ip p))) n" unfolding mb by simp
          qed
        next
          assume a: "\<forall>n. ?s \<le> n \<longrightarrow> bit (u128 (a_addr ip)) n = bit (u128 (a_addr (pf_ip p))) n"
          have "bit ?x (?s + k) = bit ?y (?s + k)" for k
            using a [rule_format, of "?s + k"] up [of "?s + k"] unfolding mb by (cases "?s + k < 32") simp_all
          then show "\<forall>k<32. \<not> bit (?x XOR ?y) (?s + k)" by (simp add: bit_xor_iff)
        qed
      qed
      finally show ?thesis using True p(1) ip s(2) by (simp add: network_def drop_bit_eq_iff)
    next
      case False
      then show ?thesis using True p BitLen_cases [of ip] BitLen_cases [of "pf_ip p"]
        by (cases "a_z ip") (simp_all add: Contains_def Let_def)
    qed
  next
    assume p: "a_z (pf_ip p) = Z6noz" "0 \<le> Bits p" "Bits p \<le> 128"
    show ?thesis
    proof (cases "a_z ip = Z6noz")
      case ip: True
      have n: "nat (Bits p) \<le> 128" "128 - nat (Bits p) = host_bits p" using p by (simp_all add: host_bits_def BitLen_def nat_diff_distrib')
      have "Contains p ip \<longleftrightarrow> u128_isZero (u128_and (u128_xor (a_addr ip) (a_addr (pf_ip p))) (mask6 (nat (Bits p))))"
        using True p ip by (simp add: Contains_def BitLen_def Is4_def)
      also have "\<dots> \<longleftrightarrow> network (host_bits p) ip = network (host_bits p) (pf_ip p)"
        by (simp add: u128_isZero u128_logic u128_mask6 [OF n(1)] n(2) xor_mask_zero network_def)
      finally show ?thesis using True p(1) ip by simp
    next
      case False
      then show ?thesis using True p BitLen_cases [of ip] BitLen_cases [of "pf_ip p"]
        by (cases "a_z ip") (simp_all add: Contains_def Let_def hasZone_def)
    qed
  qed
next
  case False
  then show ?thesis by (auto simp: Contains_def)
qed

lemma drop_bit_le: "drop_bit m x = drop_bit m y \<Longrightarrow> m \<le> m' \<Longrightarrow> drop_bit m' x = drop_bit m' y" for x y :: "'a::len word"
  by (simp add: drop_bit_eq_iff)

lemma network_le: "network m ip = network m ip' \<Longrightarrow> m \<le> m' \<Longrightarrow> network m' ip = network m' ip'"
  unfolding network_def by (rule drop_bit_le)

lemma network_masked: "drop_bit m (x AND NOT (mask m)) = drop_bit m x" for x :: "'a::len word"
  unfolding drop_bit_eq_iff by (auto simp: bit_and_iff bit_not_iff bit_mask_iff dest: bit_imp_le_length)

lemma prefix_addr_in:
  assumes "wf_Prefix p" and "Prefix_IsValid p"
  shows "Contains p (pf_ip p)" "wf_Addr (pf_ip p)" "Addr_IsValid (pf_ip p)" "withoutZone (pf_ip p) = pf_ip p" "Bits p \<le> BitLen (pf_ip p)" "0 \<le> Bits p"
proof -
  show w: "wf_Addr (pf_ip p)" using assms(1) by (simp add: wf_Prefix_def)
  show "Contains p (pf_ip p)" using contains_iff [OF assms(1) w] assms by (simp add: wf_Prefix_def)
  show "Addr_IsValid (pf_ip p)" using assms by (auto simp: wf_Prefix_def Addr_IsValid_def)
  show "withoutZone (pf_ip p) = pf_ip p"
    using assms by (rule valid_prefix_cases) (cases "pf_ip p"; simp add: withoutZone_def Is6_def)+
  show "Bits p \<le> BitLen (pf_ip p)" "0 \<le> Bits p" using assms by (simp_all add: wf_Prefix_def Prefix_IsValid_Bits)
qed

text \<open>The masked prefix has the same members, and its address is their first.\<close>

lemma Masked_ok:
  assumes "wf_Prefix p" and "Prefix_IsValid p"
  shows "wf_Prefix (Masked p)" "Prefix_IsValid (Masked p)" "Bits (Masked p) = Bits p" "a_z (pf_ip (Masked p)) = a_z (pf_ip p)"
    "u128 (a_addr (pf_ip (Masked p))) = u128 (a_addr (pf_ip p)) AND NOT (mask (host_bits p))"
proof -
  note p = prefix_addr_in [OF assms]
  obtain q where "Addr_Prefix (pf_ip p) (Bits p) = Inr q" "wf_Prefix q" "Bits q = Bits p" "Prefix_IsValid q"
    "a_z (pf_ip q) = a_z (pf_ip p)" "u128 (a_addr (pf_ip q)) = u128 (a_addr (pf_ip p)) AND NOT (mask (host_bits p))"
    using Addr_Prefix_ok [OF p(2,3,6,5)] p(4) by (auto simp: host_bits_def)
  then show "wf_Prefix (Masked p)" "Prefix_IsValid (Masked p)" "Bits (Masked p) = Bits p" "a_z (pf_ip (Masked p)) = a_z (pf_ip p)"
    "u128 (a_addr (pf_ip (Masked p))) = u128 (a_addr (pf_ip p)) AND NOT (mask (host_bits p))"
    by (simp_all add: Masked_def)
qed

lemma Masked_invalid: "\<not> Prefix_IsValid p \<Longrightarrow> Masked p = zero_Prefix"
  by (simp add: Masked_def Addr_Prefix_def Prefix_IsValid_Bits)

lemma host_bits_Masked:
  assumes "wf_Prefix p" and "Prefix_IsValid p"
  shows "host_bits (Masked p) = host_bits p"
  using Masked_ok [OF assms] by (simp add: host_bits_def BitLen_def)

lemma Contains_Masked:
  assumes "wf_Prefix p" and "Prefix_IsValid p" and "wf_Addr ip"
  shows "Contains (Masked p) ip = Contains p ip"
proof -
  note m = Masked_ok [OF assms(1,2)]
  have "network (host_bits p) (pf_ip (Masked p)) = network (host_bits p) (pf_ip p)"
    unfolding network_def m(5) by (rule network_masked)
  then show ?thesis
    using contains_iff [OF m(1) assms(3)] contains_iff [OF assms(1,3)] m host_bits_Masked [OF assms(1,2)] assms(2) by simp
qed

section \<open>Overlap\<close>

text \<open>Two addresses with the same top bits have the same masked address.\<close>

lemma masked_same:
  assumes "Addr_Prefix ip b = Inr q" "Addr_Prefix ip' b = Inr q'"
    and "wf_Addr ip" "wf_Addr ip'" "Addr_IsValid ip" "0 \<le> b" "b \<le> BitLen ip" "\<not> hasZone ip" "a_z ip' = a_z ip"
  shows "pf_ip q = pf_ip q' \<longleftrightarrow> network (nat (BitLen ip - b)) ip = network (nat (BitLen ip - b)) ip'"
proof -
  have v: "Addr_IsValid ip'" "BitLen ip' = BitLen ip" "withoutZone ip' = ip'\<lparr>a_z := a_z (withoutZone ip)\<rparr>"
    using assms(5,9) by (simp_all add: Addr_IsValid_def BitLen_def withoutZone_def Is6_def)
  have q: "u128 (a_addr (pf_ip q)) = u128 (a_addr ip) AND NOT (mask (nat (BitLen ip - b)))" "a_z (pf_ip q) = a_z (withoutZone ip)"
    using Addr_Prefix_ok [OF assms(3,5,6,7)] assms(1) by force+
  have q': "u128 (a_addr (pf_ip q')) = u128 (a_addr ip') AND NOT (mask (nat (BitLen ip - b)))" "a_z (pf_ip q') = a_z (withoutZone ip)"
    using Addr_Prefix_ok [OF assms(4) v(1) assms(6)] assms(2,7) v(2,3) by force+
  have "pf_ip q = pf_ip q' \<longleftrightarrow> a_addr (pf_ip q) = a_addr (pf_ip q')"
    using q(2) q'(2) by (metis Addr.equality old.unit.exhaust)
  also have "\<dots> \<longleftrightarrow> u128 (a_addr (pf_ip q)) = u128 (a_addr (pf_ip q'))" by (simp add: u128_inject)
  finally show ?thesis unfolding q q' masked_eq network_def .
qed

lemma network_all: "network 128 ip = network 128 ip'"
  unfolding network_def drop_bit_eq_iff by (auto dest: bit_imp_le_length)

lemma network_all4:
  assumes "wf_Addr ip" "wf_Addr ip'" "a_z ip = Z4" "a_z ip' = Z4"
  shows "network 32 ip = network 32 ip'"
  unfolding network_def drop_bit_eq_iff using mapped_bits [OF assms(1,3)] mapped_bits [OF assms(2,4)] by simp

lemma overlaps_iff:
  assumes "wf_Prefix p" and "wf_Prefix q" and "Prefix_IsValid p" and "Prefix_IsValid q"
  shows "Overlaps p q \<longleftrightarrow> a_z (pf_ip p) = a_z (pf_ip q)
    \<and> network (max (host_bits p) (host_bits q)) (pf_ip p) = network (max (host_bits p) (host_bits q)) (pf_ip q)"
proof -
  note P = prefix_addr_in [OF assms(1,3)] and Q = prefix_addr_in [OF assms(2,4)]
  have fam: "a_z (pf_ip p) = Z4 \<or> a_z (pf_ip p) = Z6noz" "a_z (pf_ip q) = Z4 \<or> a_z (pf_ip q) = Z6noz"
    using assms by (auto elim: valid_prefix_cases)
  show ?thesis
  proof (cases "a_z (pf_ip p) = a_z (pf_ip q)")
    case False
    then have "Overlaps p q = False" using fam by (auto simp: Overlaps_def Is4_def)
    then show ?thesis using False by simp
  next
    case True
    define m where "m = min (Bits p) (Bits q)"
    have L: "BitLen (pf_ip q) = BitLen (pf_ip p)" using True by (simp add: BitLen_def)
    have m: "0 \<le> m" "m \<le> BitLen (pf_ip p)" "(if Bits p < Bits q then Bits p else Bits q) = m"
      using P(5,6) Q(6) by (auto simp: m_def)
    have mx: "max (host_bits p) (host_bits q) = nat (BitLen (pf_ip p) - m)"
      unfolding host_bits_def m_def L by linarith
    obtain x where x: "Addr_Prefix (pf_ip p) m = Inr x" using Addr_Prefix_ok [OF P(2,3) m(1,2)] by blast
    obtain y where y: "Addr_Prefix (pf_ip q) m = Inr y" using Addr_Prefix_ok [OF Q(2,3) m(1)] m(2) L by auto
    have nz: "\<not> hasZone (pf_ip p)" using assms(1) by (simp add: wf_Prefix_def)
    note same = masked_same [OF x y P(2) Q(2) P(3) m(1,2) nz True [symmetric]]
    have zero: "network (nat (BitLen (pf_ip p) - m)) (pf_ip p) = network (nat (BitLen (pf_ip p) - m)) (pf_ip q)" if "m = 0"
      using fam(1) that True network_all4 [OF P(2) Q(2)] network_all by (auto simp: BitLen_def)
    have "Overlaps p q \<longleftrightarrow> p = q \<or> m = 0 \<or> pf_ip x = pf_ip y"
      using assms(3,4) True by (simp add: Overlaps_def Let_def Is4_def m(3) x y)
    then show ?thesis unfolding mx same using True zero by auto
  qed
qed

text \<open>\<open>Overlaps\<close> means that some address is in both.\<close>

lemma overlaps_common:
  assumes "wf_Prefix p" and "wf_Prefix q"
  shows "Overlaps p q \<longleftrightarrow> (\<exists>ip. wf_Addr ip \<and> Contains p ip \<and> Contains q ip)"
proof (cases "Prefix_IsValid p \<and> Prefix_IsValid q")
  case False
  then show ?thesis by (auto simp: Overlaps_def Contains_def)
next
  case True
  then have v: "Prefix_IsValid p" "Prefix_IsValid q" by simp_all
  note P = prefix_addr_in [OF assms(1) v(1)] and Q = prefix_addr_in [OF assms(2) v(2)]
  have nz: "\<not> hasZone (pf_ip p)" "\<not> hasZone (pf_ip q)" using assms by (simp_all add: wf_Prefix_def)
  have "\<exists>ip. wf_Addr ip \<and> Contains p ip \<and> Contains q ip" if o: "Overlaps p q"
  proof (cases "host_bits p \<le> host_bits q")
    case le: True
    then have "Contains q (pf_ip p)"
      using o overlaps_iff [OF assms v] contains_iff [OF assms(2) P(2)] v nz by (simp add: max_def)
    then show ?thesis using P(1,2) by blast
  next
    case False
    then have "Contains p (pf_ip q)"
      using o overlaps_iff [OF assms v] contains_iff [OF assms(1) Q(2)] v nz by (simp add: max_def)
    then show ?thesis using Q(1,2) by blast
  qed
  moreover have "Overlaps p q" if "wf_Addr ip" "Contains p ip" "Contains q ip" for ip
    using that contains_iff [OF assms(1) that(1)] contains_iff [OF assms(2) that(1)] overlaps_iff [OF assms v]
      network_le [of "host_bits p" ip "pf_ip p" "max (host_bits p) (host_bits q)"]
      network_le [of "host_bits q" ip "pf_ip q" "max (host_bits p) (host_bits q)"] by simp
  ultimately show ?thesis by blast
qed

subsection \<open>Masked prefixes are canonical\<close>

text \<open>One bit of a number.\<close>

definition u128_bit :: "nat \<Rightarrow> uint128" where
  "u128_bit n = (if n < 64 then \<lparr>hi = 0, lo = push_bit n 1\<rparr> else \<lparr>hi = push_bit (n - 64) 1, lo = 0\<rparr>)"

lemma bit_u128_bit: "n < 128 \<Longrightarrow> bit (u128 (u128_bit n)) k \<longleftrightarrow> k = n"
  by (auto simp: bit_u128 u128_bit_def bit_push_bit_iff bit_1_iff bit_exp_iff)

definition flip_bit_of :: "nat \<Rightarrow> Addr \<Rightarrow> Addr" where
  "flip_bit_of n ip = ip\<lparr>a_addr := u128_xor (a_addr ip) (u128_bit n)\<rparr>"

lemma flip_bit_simps:
  assumes "n < 128"
  shows "bit (u128 (a_addr (flip_bit_of n ip))) k \<longleftrightarrow> (if k = n then \<not> bit (u128 (a_addr ip)) n else bit (u128 (a_addr ip)) k)"
    "a_z (flip_bit_of n ip) = a_z ip"
  using bit_u128_bit [OF assms] by (auto simp: flip_bit_of_def u128_logic bit_xor_iff)

lemma wf_flip_bit:
  assumes "wf_Addr ip" and "a_z ip = Z4 \<and> n < 32 \<or> a_z ip = Z6noz"
  shows "wf_Addr (flip_bit_of n ip)"
proof -
  have "drop_bit 32 (2 ^ n :: u64) = 0" if "n < 32"
    using that by (intro bit_word_eqI) (simp add: bit_drop_bit_eq bit_exp_iff)
  then show ?thesis using assms by (auto simp: wf_Addr_def flip_bit_of_def u128_bit_def u128_xor_def)
qed

lemma longer_prefix_smaller:
  assumes "wf_Prefix p" "wf_Prefix q" "Prefix_IsValid p" "Prefix_IsValid q" "Contains q (pf_ip p)" "host_bits p < host_bits q"
  obtains ip where "wf_Addr ip" "Contains q ip" "\<not> Contains p ip"
proof -
  note p = prefix_addr_in [OF assms(1,3)] and nz = assms(1) [unfolded wf_Prefix_def]
  define ip where "ip = flip_bit_of (host_bits p) (pf_ip p)"
  have q: "a_z (pf_ip p) = a_z (pf_ip q)" "network (host_bits q) (pf_ip p) = network (host_bits q) (pf_ip q)"
    using contains_iff [OF assms(2) p(2)] assms(5) by simp_all
  have h: "host_bits q \<le> (if a_z (pf_ip q) = Z4 then 32 else 128)"
    using prefix_addr_in(5,6) [OF assms(2,4)] by (cases "a_z (pf_ip q)") (simp_all add: host_bits_def BitLen_def)
  then have n: "host_bits p < 128" "a_z (pf_ip p) = Z4 \<longrightarrow> host_bits p < 32" using assms(6) q(1) by (auto split: if_splits)
  note flip = flip_bit_simps [OF n(1), of "pf_ip p", folded ip_def]
  have w: "wf_Addr ip" unfolding ip_def
    using wf_flip_bit [OF p(2)] n(2) valid_prefix_cases [OF assms(1,3)] by blast
  have z: "\<not> hasZone ip" "\<not> hasZone (pf_ip p)" using nz flip(2) by (simp_all add: hasZone_def)
  have "network (host_bits q) ip = network (host_bits q) (pf_ip p)"
    unfolding network_def drop_bit_eq_iff using flip(1) assms(6) by auto
  then have "Contains q ip" using contains_iff [OF assms(2) w] assms(4) z flip(2) q by simp
  moreover have "network (host_bits p) ip \<noteq> network (host_bits p) (pf_ip p)"
    unfolding network_def drop_bit_eq_iff using flip(1) by (metis order_refl)
  then have "\<not> Contains p ip" using contains_iff [OF assms(1) w] by simp
  ultimately show thesis using that w by blast
qed

lemma Masked_canonical:
  assumes "wf_Prefix p" and "wf_Prefix q" and "Prefix_IsValid p" and "Prefix_IsValid q"
  shows "Masked p = Masked q \<longleftrightarrow> (\<forall>ip. wf_Addr ip \<longrightarrow> Contains p ip = Contains q ip)"
proof
  assume "Masked p = Masked q"
  then show "\<forall>ip. wf_Addr ip \<longrightarrow> Contains p ip = Contains q ip"
    using Contains_Masked [OF assms(1,3)] Contains_Masked [OF assms(2,4)] by simp
next
  assume same: "\<forall>ip. wf_Addr ip \<longrightarrow> Contains p ip = Contains q ip"
  note P = prefix_addr_in [OF assms(1,3)] and Q = prefix_addr_in [OF assms(2,4)] and mp = Masked_ok [OF assms(1,3)] and mq = Masked_ok [OF assms(2,4)]
  have c: "Contains q (pf_ip p)" "Contains p (pf_ip q)" using same P(1,2) Q(1,2) by simp_all
  have hb: "host_bits p = host_bits q"
    using longer_prefix_smaller [OF assms c(1)] longer_prefix_smaller [OF assms(2,1,4,3) c(2)] same by (metis linorder_neqE_nat)
  have z: "a_z (pf_ip p) = a_z (pf_ip q)" "network (host_bits q) (pf_ip p) = network (host_bits q) (pf_ip q)"
    using contains_iff [OF assms(2) P(2)] c(1) by simp_all
  then have "Bits p = Bits q" using hb P(5,6) Q(5,6) by (simp add: host_bits_def BitLen_def)
  then have "pf_bitsPlusOne (Masked p) = pf_bitsPlusOne (Masked q)" using mp(3) mq(3) by (simp add: Bits_def word_uint_eq_iff)
  moreover have "u128 (a_addr (pf_ip (Masked p))) = u128 (a_addr (pf_ip (Masked q)))"
    using z(2) unfolding mp(5) mq(5) hb masked_eq network_def .
  then have "a_addr (pf_ip (Masked p)) = a_addr (pf_ip (Masked q))" by (simp only: u128_inject)
  then have "pf_ip (Masked p) = pf_ip (Masked q)" using mp(4) mq(4) z(1) by simp
  ultimately show "Masked p = Masked q" by simp
qed

section \<open>Comparison\<close>

lemma comparison_on:
  assumes "comparison f"
  shows "comparison (\<lambda>a b. f (k a) (k b))"
  using comparison.signs [OF assms] comparison.swapped [OF assms] comparison.le_trans [OF assms] by unfold_locales blast+

interpretation addrport_cmp: comparison AddrPort_Compare
proof -
  have "AddrPort_Compare = then_cmp (\<lambda>a b. Addr_Compare (ap_ip a) (ap_ip b)) (\<lambda>a b. int_cmp (uint (ap_port a)) (uint (ap_port b)))"
    by (intro ext) (simp add: AddrPort_Compare_def then_cmp_def Let_def)
  moreover have "comparison (then_cmp (\<lambda>(a :: AddrPort) b. Addr_Compare (ap_ip a) (ap_ip b)) (\<lambda>a b. int_cmp (uint (ap_port a)) (uint (ap_port b))))"
    by (rule comparison_lex [OF comparison_on [OF addr_cmp.comparison_axioms] int_cmp_comparison])
  ultimately show "comparison AddrPort_Compare" by simp
qed

interpretation prefix_cmp: comparison Prefix_compare
proof -
  have "Prefix_compare = then_cmp (\<lambda>a b. int_cmp (BitLen (pf_ip a)) (BitLen (pf_ip b)))
      (then_cmp (\<lambda>a b. int_cmp (Bits a) (Bits b)) (\<lambda>a b. Addr_Compare (pf_ip a) (pf_ip b)))"
    by (intro ext) (simp add: Prefix_compare_def then_cmp_def Let_def)
  moreover have "comparison (then_cmp (\<lambda>a b. int_cmp (BitLen (pf_ip a)) (BitLen (pf_ip b)))
      (then_cmp (\<lambda>a b. int_cmp (Bits a) (Bits b)) (\<lambda>a b. Addr_Compare (pf_ip a) (pf_ip b))))"
    by (rule comparison_lex [OF int_cmp_comparison comparison_lex [OF int_cmp_comparison comparison_on [OF addr_cmp.comparison_axioms]]])
  ultimately show "comparison Prefix_compare" by simp
qed

lemma int_cmp_0: "int_cmp x y = 0 \<longleftrightarrow> x = y"
  by (auto simp: int_cmp_def)

lemma AddrPort_equal:
  assumes "wf_Addr (ap_ip p)" and "wf_Addr (ap_ip q)" and "AddrPort_Compare p q = 0"
  shows "p = q"
proof -
  have "Addr_Compare (ap_ip p) (ap_ip q) = 0" "ap_port p = ap_port q"
    using assms(3) by (auto simp: AddrPort_Compare_def Let_def int_cmp_0 word_uint_eq_iff split: if_splits)
  then show ?thesis using Compare_equal [OF assms(1,2)] by simp
qed

lemma Prefix_equal:
  assumes "wf_Prefix p" and "wf_Prefix q" and "Prefix_compare p q = 0"
  shows "p = q"
proof -
  have "Addr_Compare (pf_ip p) (pf_ip q) = 0" "Bits p = Bits q"
    using assms(3) by (auto simp: Prefix_compare_def Let_def int_cmp_0 split: if_splits)
  then have "pf_ip p = pf_ip q" "pf_bitsPlusOne p = pf_bitsPlusOne q"
    using Compare_equal assms(1,2) by (simp_all add: wf_Prefix_def Bits_def word_uint_eq_iff)
  then show ?thesis by simp
qed

text \<open>
  The comment on \<open>compare\<close> puts invalid prefixes before valid ones; the code looks at the family first.
\<close>

theorem prefix_compare_validity:
  "Prefix_compare (PrefixFrom (AddrFrom4 [10, 0, 0, 0]) 8) (PrefixFrom IPv6Loopback (-1)) = -1
   \<and> Prefix_IsValid (PrefixFrom (AddrFrom4 [10, 0, 0, 0]) 8) \<and> \<not> Prefix_IsValid (PrefixFrom IPv6Loopback (-1))"
proof -
  have "Prefix_compare (PrefixFrom (AddrFrom4 [10, 0, 0, 0]) 8) (PrefixFrom IPv6Loopback (-1)) = -1"
    by (simp add: Prefix_compare_def PrefixFrom_def withoutZone_def Is6_def BitLen_def AddrFrom4_def IPv6Loopback_def AddrFrom16_def int_cmp_def)
  moreover have "Prefix_IsValid (PrefixFrom (AddrFrom4 [10, 0, 0, 0]) 8)"
    by (rule PrefixFrom_simps) (simp_all add: AddrFrom4_def Addr_IsValid_def BitLen_def)
  moreover have "\<not> Prefix_IsValid (PrefixFrom IPv6Loopback (-1))" by (simp add: PrefixFrom_def Prefix_IsValid_def)
  ultimately show ?thesis by simp
qed

section \<open>Binary forms\<close>

lemma marshal_trailing: "marshalBinaryWithTrailingBytes ip k = Addr_MarshalBinary ip @ replicate k 0"
  by (cases "a_z ip") (simp_all add: Addr_MarshalBinary_def marshalBinaryWithTrailingBytes_def)

lemma leUint16_put: "leUint16 (lePutUint16 v) = v"
  by (rule bit_word_eqI) (auto simp: leUint16_def lePutUint16_def bit_or_iff bit_push_bit_iff bit_ucast_iff bit_drop_bit_eq)

interpretation addr_binary: codec Addr_MarshalBinary Addr_UnmarshalBinary Some wf_Addr
  using Addr_binary by unfold_locales auto

interpretation addrport_binary: codec AddrPort_MarshalBinary AddrPort_UnmarshalBinary Some "\<lambda>p. wf_Addr (ap_ip p)"
proof
  fix p :: AddrPort
  assume "wf_Addr (ap_ip p)"
  have l: "length (lePutUint16 v) = 2" for v by (simp add: lePutUint16_def)
  have "AddrPort_MarshalBinary p = Addr_MarshalBinary (ap_ip p) @ lePutUint16 (ap_port p)"
    by (simp add: AddrPort_MarshalBinary_def marshal_trailing)
  then show "AddrPort_UnmarshalBinary (AddrPort_MarshalBinary p) = Some p"
    using addr_binary.dec_enc [OF \<open>wf_Addr (ap_ip p)\<close>] l by (simp add: AddrPort_UnmarshalBinary_def AddrPortFrom_def leUint16_put)
qed simp

lemma PrefixFrom_Bits:
  assumes "wf_Prefix p"
  shows "PrefixFrom (pf_ip p) (uint (word_of_int (Bits p) :: u8)) = p"
proof (cases "Prefix_IsValid p")
  case True
  note p = prefix_addr_in [OF assms True]
  have "BitLen (pf_ip p) \<le> 128" by (simp add: BitLen_def split: zone.split)
  then have "uint (word_of_int (Bits p) :: u8) = Bits p" using p(5,6) by (simp add: uint_word_of_int)
  then show ?thesis using p by (simp add: PrefixFrom_def Addr_isZero_def Addr_IsValid_def Bits_def)
next
  case False
  then have b: "pf_bitsPlusOne p = 0" by (simp add: Prefix_IsValid_def word_gt_0)
  then have "Bits p = -1" by (simp add: Bits_def)
  moreover have "\<not> uint (word_of_int (-1) :: u8) \<le> BitLen (pf_ip p)"
    by (simp add: BitLen_def unsigned_minus_1_eq_mask mask_eq_exp_minus_1 split: zone.split)
  moreover have "withoutZone (pf_ip p) = pf_ip p"
    using assms by (cases "pf_ip p") (auto simp: withoutZone_def wf_Prefix_def hasZone_def Is6_def)
  ultimately show ?thesis using b by (simp add: PrefixFrom_def)
qed

interpretation prefix_binary: codec Prefix_MarshalBinary Prefix_UnmarshalBinary Some wf_Prefix
proof
  fix p
  assume w: "wf_Prefix p"
  have z: "withoutZone (pf_ip p) = pf_ip p" "wf_Addr (pf_ip p)"
    using w by (cases "pf_ip p"; auto simp: withoutZone_def wf_Prefix_def hasZone_def Is6_def)+
  have "Prefix_MarshalBinary p = Addr_MarshalBinary (pf_ip p) @ [word_of_int (Bits p)]"
    by (simp add: Prefix_MarshalBinary_def marshal_trailing z(1) list_update_append)
  then show "Prefix_UnmarshalBinary (Prefix_MarshalBinary p) = Some p"
    using addr_binary.dec_enc [OF z(2)] PrefixFrom_Bits [OF w] by (simp add: Prefix_UnmarshalBinary_def)
qed simp

end
