(* ===== verification/NetPrefixText.thy ===== *)
theory NetPrefixText
  imports NetPrefixProps
begin

text \<open>
  The text forms of the prefixes and ports of \<^verbatim>\<open>net/netip\<close>, as interpretations of the locale \<open>codec\<close> over the number
  formatting and parsing of \<^verbatim>\<open>strconv\<close>, the types the package keeps, and the properties of both.
\<close>

section \<open>Text forms\<close>

lemma last_index_at:
  assumes "i < n" and "s ! i = c" and "\<And>j. i < j \<Longrightarrow> j < n \<Longrightarrow> s ! j \<noteq> c"
  shows "last_index s c n = int i"
  using assms
proof (induction n)
  case (Suc n)
  show ?case
  proof (cases "i = n")
    case False
    then have "s ! n \<noteq> c" using Suc.prems(1,3) by simp
    then show ?thesis using Suc False by simp
  qed (use Suc.prems in simp)
qed simp

lemma LastIndex_sep:
  assumes "c \<notin> set r"
  shows "LastIndexByteString (s @ c # r) c = int (length s)"
  unfolding LastIndexByteString_def
proof (rule last_index_at)
  fix j
  assume "length s < j" "j < length (s @ c # r)"
  then have "(s @ c # r) ! j = r ! (j - Suc (length s))" "j - Suc (length s) < length r" by (auto simp: nth_append nth_Cons')
  then show "(s @ c # r) ! j \<noteq> c" using assms by (metis nth_mem)
qed simp_all

text \<open>The digits of a small number.\<close>

lemma decimal_chars:
  assumes "d < 10"
  shows "digits36 ! d \<noteq> CHR '':''" "digits36 ! d \<noteq> CHR ''/''" "hexdigits ! d = digits36 ! d" "digits36 ! d \<noteq> CHR ''[''"
    "0 < d \<Longrightarrow> CHR ''1'' \<le> digits36 ! d \<and> digits36 ! d \<le> CHR ''9''"
proof -
  have "list_all (\<lambda>d. digits36 ! d \<noteq> CHR '':'' \<and> digits36 ! d \<noteq> CHR ''/'' \<and> hexdigits ! d = digits36 ! d \<and> digits36 ! d \<noteq> CHR ''[''
      \<and> (0 < d \<longrightarrow> CHR ''1'' \<le> digits36 ! d \<and> digits36 ! d \<le> CHR ''9'')) [0..<10]" by code_simp
  then show "digits36 ! d \<noteq> CHR '':''" "digits36 ! d \<noteq> CHR ''/''" "hexdigits ! d = digits36 ! d" "digits36 ! d \<noteq> CHR ''[''"
    "0 < d \<Longrightarrow> CHR ''1'' \<le> digits36 ! d \<and> digits36 ! d \<le> CHR ''9''"
    using assms by (simp_all add: list_all_iff)
qed

lemma decimal_text:
  assumes "digits_of 10 n s"
  shows "CHR '':'' \<notin> set s" "CHR ''/'' \<notin> set s" "s \<noteq> []" "length s > 1 \<Longrightarrow> CHR ''1'' \<le> s ! 0 \<and> s ! 0 \<le> CHR ''9''"
proof -
  obtain ds where ds: "s = map ((!) digits36) ds" "ds \<noteq> []" "\<forall>d\<in>set ds. d < 10" "tl ds \<noteq> [] \<longrightarrow> 0 < hd ds"
    using assms unfolding digits_of_def by blast
  show "CHR '':'' \<notin> set s" "CHR ''/'' \<notin> set s" using ds decimal_chars(1,2) by force+
  show "s \<noteq> []" using ds by simp
  show "CHR ''1'' \<le> s ! 0 \<and> s ! 0 \<le> CHR ''9''" if "length s > 1"
    using that ds decimal_chars(5) [of "hd ds"] by (cases ds) auto
qed

lemma dec_digits10: "digits_of 10 (unat x) (dec x)" for x :: u8
proof -
  define ns where "ns = (if 100 \<le> unat x then [unat x div 100] else []) @ (if 10 \<le> unat x then [unat x div 10 mod 10] else []) @ [unat x mod 10]"
  have n: "unat x < 256" using unsigned_less [of x, where ?'a = nat] by simp
  have "dec x = map ((!) hexdigits) ns" by (simp add: appendDecimal_def Let_def ns_def flip: unat_small_digits)
  moreover have lt: "\<forall>d\<in>set ns. d < 10" using n by (auto simp: ns_def)
  then have "map ((!) hexdigits) ns = map ((!) digits36) ns" using decimal_chars(3) by simp
  ultimately have "dec x = map ((!) digits36) ns" by metis
  moreover have "unat x = foldl (\<lambda>v d. v * 10 + d) 0 ns"
  proof -
    define a b c where "a = unat x div 100" and "b = unat x div 10 mod 10" and "c = unat x mod 10"
    have "unat x div 10 div 10 = a" by (simp add: a_def flip: div_mult2_eq)
    then have "unat x div 10 = a * 10 + b" "unat x = unat x div 10 * 10 + c"
      using div_mult_mod_eq [of "unat x div 10" 10] div_mult_mod_eq [of "unat x" 10] by (simp_all add: b_def c_def)
    then have x: "unat x = (a * 10 + b) * 10 + c" by metis
    have "b < 10" "c < 10" by (simp_all add: b_def c_def)
    moreover have "ns = (if 100 \<le> unat x then [a] else []) @ (if 10 \<le> unat x then [b] else []) @ [c]"
      by (simp add: ns_def a_def b_def c_def)
    ultimately show ?thesis using x by auto
  qed
  moreover have "tl ns \<noteq> [] \<longrightarrow> 0 < hd ns" "ns \<noteq> []" by (auto simp: ns_def)
  ultimately show ?thesis using lt unfolding digits_of_def by blast
qed

lemma parse_decimal:
  assumes "digits_of 10 n s"
  shows "n < 2 ^ 31 \<Longrightarrow> Atoi h s = (int n, None)"
    and "n < 2 ^ 16 \<Longrightarrow> ParseUint h s 10 16 = (of_nat n, None)"
proof -
  note p = digits_of_parse [OF assms, simplified]
  have r: "uint_reference 10 (2 ^ k - 1) s = (n, None)" if "n < 2 ^ k" for k
    using that p(1,2) takeWhile_all [of "is_digit_in 10" s] by (simp add: uint_reference_def Let_def del: takeWhile_eq_all_conv)
  show "ParseUint h s 10 16 = (of_nat n, None)" if "n < 2 ^ 16"
    using uint_of_reference [of 10 16 s h] r [OF that] p(3) by (simp add: bits_of_def as_result_def)
  show "Atoi h s = (int n, None)" if n: "n < 2 ^ 31"
  proof -
    have k: "31 \<le> bits_of h 0 - 1" "bits_of h 0 \<le> 64" by (cases h; simp add: bits_of_def intSize_def)+
    have "(2 :: nat) ^ 31 \<le> 2 ^ (bits_of h 0 - 1)" using k by (intro power_increasing) simp_all
    then have n1: "n < 2 ^ (bits_of h 0 - 1)" using n by simp
    also have "(2 :: nat) ^ (bits_of h 0 - 1) \<le> 2 ^ bits_of h 0" by (intro power_increasing) simp_all
    finally have "ParseUint h s 10 0 = (of_nat n, None)"
      using uint_of_reference [of 10 0 s h] r [of "bits_of h 0"] p(3) by (simp add: as_result_def)
    moreover have "unat (of_nat n :: u64) = n" using n by (simp add: unat_of_nat)
    then have "signed_result h s False (of_nat n) 0 = (int n, None)"
      unfolding signed_result_value [OF order_refl zero_le_numeral refl] using n1 by simp
    ultimately have "ParseInt h s 10 0 = (int n, None)" using p(3-5) by (simp add: ParseInt_def)
    then show ?thesis unfolding Atoi_ParseInt by simp
  qed
qed

subsection \<open>Prefixes\<close>

lemma ParsePrefix_text:
  assumes "wf_Prefix p" and "Prefix_IsValid p" and "digits_of 10 (nat (Bits p)) s"
  shows "ParsePrefix h (Addr_String (pf_ip p) @ CHR ''/'' # s) = Inr p"
proof -
  note p = prefix_addr_in [OF assms(1,2)] and d = decimal_text [OF assms(3)]
  have le: "Bits p \<le> (if Is6 (pf_ip p) then 128 else 32)" "\<not> (Is6 (pf_ip p) \<and> a_z (pf_ip p) \<noteq> Z6noz)"
    using assms(1,2) by (auto elim!: valid_prefix_cases simp: Is6_def)
  have "BitLen (pf_ip p) \<le> 128" by (simp add: BitLen_def split: zone.split)
  then have "nat (Bits p) < 2 ^ 31" using p(5) by simp
  then have a: "Atoi h s = (Bits p, None)" using parse_decimal(1) [OF assms(3)] p(6) by simp
  have f: "PrefixFrom (pf_ip p) (Bits p) = p" using p(3-6) by (simp add: PrefixFrom_def Addr_isZero_def Addr_IsValid_def Bits_def)
  have b: "\<not> (length s > 1 \<and> (s ! 0 < CHR ''1'' \<or> s ! 0 > CHR ''9''))" using d(4) by auto
  have n: "nat (int (length t) + 1) = Suc (length t)" for t :: string by simp
  show ?thesis
    unfolding ParsePrefix_def LastIndex_sep [OF d(2)] Let_def
    using a f le b p(6) ParseAddr_String [OF p(2,3)] by (simp add: n)
qed

lemma Prefix_String_form:
  assumes "wf_Prefix p" and "Prefix_IsValid p"
  shows "Prefix_String h p = Addr_String (pf_ip p) @ CHR ''/'' # Uitoa (word_of_int (Bits p))"
    "Prefix_AppendTo p b = b @ Addr_String (pf_ip p) @ CHR ''/'' # Uitoa (word_of_int (Bits p))"
    "digits_of 10 (nat (Bits p)) (Uitoa (word_of_int (Bits p)))"
proof -
  note p = prefix_addr_in [OF assms]
  have "BitLen (pf_ip p) \<le> 128" by (simp add: BitLen_def split: zone.split)
  then have b: "Bits p \<le> 128" "0 \<le> Bits p" using p(5,6) by simp_all
  have u: "unat (word_of_int (Bits p) :: u64) = nat (Bits p)" "unat (word_of_int (Bits p) :: u8) = nat (Bits p)"
    using b by (simp_all add: unat_eq_nat_uint uint_word_of_int)
  have g: "go_uint h (word_of_int (Bits p)) = word_of_int (Bits p)"
    using go_uint_small [of "word_of_int (Bits p)" h] u(1) b by (simp add: word_unat_eq_iff)
  show d: "digits_of 10 (nat (Bits p)) (Uitoa (word_of_int (Bits p)))" using Uitoa_digits [of "word_of_int (Bits p)"] u(1) by simp
  show "Prefix_String h p = Addr_String (pf_ip p) @ CHR ''/'' # Uitoa (word_of_int (Bits p))"
    using assms(2) b g by (simp add: Prefix_String_def itoa_Itoa_def)
  have e: "dec (word_of_int (Bits p)) = Uitoa (word_of_int (Bits p))"
    using digits_of_unique [OF _ dec_digits10 d [folded u(2)]] by simp
  have "Prefix_AppendTo p b = appendDecimal (Addr_AppendTo (pf_ip p) b @ ''/'') (word_of_int (Bits p))"
  proof -
    have "\<not> Prefix_isZero p" using assms(2) by (auto simp: Prefix_isZero_def zero_Prefix_def Prefix_IsValid_def)
    moreover have "Addr_Zone (pf_ip p) = ''''" "a_z (pf_ip p) \<noteq> Z0" "a_z (pf_ip p) \<noteq> Zone z" for z
      using assms by (auto elim!: valid_prefix_cases simp: Addr_Zone_def)
    ultimately show ?thesis using assms(2)
      by (cases "a_z (pf_ip p)") (simp_all add: Prefix_AppendTo_def Addr_AppendTo_def Let_def)
  qed
  then show "Prefix_AppendTo p b = b @ Addr_String (pf_ip p) @ CHR ''/'' # Uitoa (word_of_int (Bits p))"
    using appended_text(1) [OF p(3)] e by (simp add: appendDecimal_dec [of "_ @ _"])
qed

interpretation prefix_text: codec "Prefix_String h" "ParsePrefix h'" "Inr :: Prefix \<Rightarrow> prefixError + Prefix" "\<lambda>p. wf_Prefix p \<and> Prefix_IsValid p"
  using ParsePrefix_text Prefix_String_form by unfold_locales auto

lemma Prefix_UnmarshalText_Marshal:
  assumes "wf_Prefix p" and "Prefix_IsValid p \<or> p = zero_Prefix"
  shows "Prefix_UnmarshalText h (Prefix_MarshalText p) = Inr p"
proof (cases "Prefix_IsValid p")
  case True
  then show ?thesis using ParsePrefix_text [OF assms(1) True] Prefix_String_form(2,3) [OF assms(1) True]
    by (simp add: Prefix_UnmarshalText_def Prefix_MarshalText_def)
next
  case False
  then show ?thesis using assms(2) by (simp add: Prefix_UnmarshalText_def Prefix_MarshalText_def Prefix_AppendTo_def Prefix_isZero_def)
qed

subsection \<open>Addresses with ports\<close>

text \<open>The address in brackets when it is an IPv6 one.\<close>

definition host_text :: "Addr \<Rightarrow> string" where
  "host_text ip = (if Is4 ip then Addr_String ip else ''['' @ Addr_String ip @ '']'')"

lemma host_text_split:
  assumes "wf_Addr ip" and "Addr_IsValid ip" and "CHR '':'' \<notin> set port" and "port \<noteq> ''''"
  shows "splitAddrPort (host_text ip @ CHR '':'' # port) = Inr (Addr_String ip, port, \<not> Is4 ip)"
proof -
  have n: "nat (int (length t) + 1) = Suc (length t)" for t :: string by simp
  have ne: "host_text ip \<noteq> []" "Addr_String ip \<noteq> []" using string_nonempty [OF assms(2)] by (simp_all add: host_text_def)
  have "hd (Addr_String ip) \<noteq> CHR ''[''" if "Is4 ip"
  proof -
    obtain ns where ns: "dec (Addr_v4 ip 0) = map ((!) hexdigits) ns" "ns \<noteq> []" "\<forall>n\<in>set ns. n < 16" by (rule dec_form)
    have "hd (Addr_String ip) = hd (dec (Addr_v4 ip 0))"
      using that by (simp add: Is4_def Addr_String_def string4_def appendTo4_quad quad_def)
    then have h: "hd (Addr_String ip) = hexdigits ! hd ns" "hd ns < 16" using ns by (simp_all add: hd_map)
    have "list_all (\<lambda>d. hexdigits ! d \<noteq> CHR ''['') [0..<16]" by code_simp
    then show ?thesis using h by (simp only: list_all_iff) simp
  qed
  then show ?thesis
    using ne by (auto simp: splitAddrPort_def LastIndex_sep [OF assms(3)] Let_def n host_text_def assms(4) hd_conv_nth nth_append)
qed

lemma ParseAddrPort_text:
  assumes "wf_Addr (ap_ip p)" and "Addr_IsValid (ap_ip p)"
  shows "ParseAddrPort h (host_text (ap_ip p) @ CHR '':'' # Uitoa (ucast (ap_port p))) = Inr p"
proof -
  have l: "unat (ap_port p) < 2 ^ 16" using unsigned_less [of "ap_port p", where ?'a = nat] by simp
  then have "take_bit LENGTH(64) (unat (ap_port p)) = unat (ap_port p)" by (intro take_bit_nat_eq_self) simp
  then have u: "unat (ucast (ap_port p) :: u64) = unat (ap_port p)" unfolding unsigned_ucast_eq .
  have d: "digits_of 10 (unat (ap_port p)) (Uitoa (ucast (ap_port p)))" using Uitoa_digits [of "ucast (ap_port p)"] u by simp
  note t = decimal_text(1,3) [OF d] and parse = parse_decimal(2) [OF d l, of h]
  have "Is6 (ap_ip p) \<longleftrightarrow> \<not> Is4 (ap_ip p)" using assms(2) by (auto simp: Is6_def Is4_def Addr_IsValid_def)
  moreover have "(ucast (of_nat (unat (ap_port p)) :: u64) :: u16) = ap_port p"
    unfolding u [symmetric] of_nat_unat ucast_id by (rule bit_word_eqI) (auto simp: bit_ucast_iff dest: bit_imp_le_length)
  ultimately show ?thesis
    unfolding ParseAddrPort_def host_text_split [OF assms t] using parse ParseAddr_String [OF assms] by simp
qed

lemma AddrPort_text:
  assumes "Addr_IsValid (ap_ip p)"
  shows "AddrPort_String h p = Ret (host_text (ap_ip p) @ CHR '':'' # Uitoa (ucast (ap_port p)))"
    "AddrPort_AppendTo h p b = Ret (b @ host_text (ap_ip p) @ CHR '':'' # Uitoa (ucast (ap_port p)))"
proof -
  have z: "a_z (ap_ip p) \<noteq> Z0" using assms by (simp add: Addr_IsValid_def)
  then show "AddrPort_String h p = Ret (host_text (ap_ip p) @ CHR '':'' # Uitoa (ucast (ap_port p)))"
    by (cases "a_z (ap_ip p)") (simp_all add: AddrPort_String_def host_text_def Is4_def FormatUint_Uitoa Addr_String_def string4_def)
  have "AddrPort_AppendTo h p b = AppendUint h (b @ host_text (ap_ip p) @ '':'') (ucast (ap_port p)) 10"
  proof (cases "Is4 (ap_ip p)")
    case True
    then show ?thesis by (simp add: AddrPort_AppendTo_def host_text_def Is4_def Addr_String_def appendTo_append(1) [of _ b] Let_def)
  next
    case False
    then have "AddrPort_AppendTo h p b = AppendUint h (Addr_AppendTo (ap_ip p) (b @ ''['') @ '']:'') (ucast (ap_port p)) 10"
    proof -
      have "appendTo4 ip (b @ ''[::ffff:'') = appendTo4 ip ((b @ ''['') @ ''::ffff:'')" for ip by simp
      with False z show ?thesis
        by (cases "a_z (ap_ip p)") (simp_all add: AddrPort_AppendTo_def Addr_AppendTo_def Is4_def Let_def)
    qed
    then show ?thesis using False appended_text(1) [OF assms, of "b @ ''[''"] by (simp add: host_text_def)
  qed
  then show "AddrPort_AppendTo h p b = Ret (b @ host_text (ap_ip p) @ CHR '':'' # Uitoa (ucast (ap_port p)))"
    by (simp add: FormatUint_Uitoa)
qed

text \<open>What is parsed is well formed.\<close>

lemma ParsePrefix_wf:
  assumes "ParsePrefix h s = Inr p"
  shows "wf_Prefix p" "Prefix_IsValid p"
proof -
  obtain ip b where "ParseAddr (take (nat (LastIndexByteString s (CHR ''/''))) s) = Inr ip" "p = PrefixFrom ip b" "0 \<le> b" "b \<le> (if Is6 ip then 128 else 32)"
    using assms by (auto simp: ParsePrefix_def Let_def split: if_splits sum.splits prod.splits option.splits)
  moreover from this have "wf_Addr ip" "Addr_IsValid ip" by (auto dest: ParseAddr_wf)
  moreover from this have "BitLen ip = (if Is6 ip then 128 else 32)" by (cases "a_z ip") (simp_all add: BitLen_def Is6_def Addr_IsValid_def)
  ultimately show "wf_Prefix p" "Prefix_IsValid p" using wf_PrefixFrom PrefixFrom_simps(3) by simp_all
qed

lemma ParseAddrPort_wf:
  assumes "ParseAddrPort h s = Inr p"
  shows "wf_Addr (ap_ip p)" "Addr_IsValid (ap_ip p)"
proof -
  obtain ip t where "ParseAddr t = Inr ip" "ap_ip p = ip"
    using assms by (auto simp: ParseAddrPort_def split: if_splits sum.splits prod.splits option.splits)
  then show "wf_Addr (ap_ip p)" "Addr_IsValid (ap_ip p)" by (auto dest: ParseAddr_wf)
qed

section \<open>The types of the package\<close>

lemma AddrFromSlice_wf: "wf_Addr (fst (AddrFromSlice b))"
proof -
  have "wf_Addr zero_Addr" by (simp add: wf_Addr_def zero_Addr_def)
  then show ?thesis by (simp add: AddrFromSlice_def)
qed

lemma Unmap_wf: "wf_Addr ip \<Longrightarrow> wf_Addr (Unmap ip)"
  by (auto simp: Unmap_def Is4In6_def wf_Addr_def Is6_def)

lemma WithZone_wf: "wf_Addr ip \<Longrightarrow> wf_Addr (WithZone ip z)"
  by (auto simp: WithZone_def withoutZone_def wf_Addr_def Is6_def split: zone.splits)

lemma Masked_wf:
  assumes "wf_Prefix p"
  shows "wf_Prefix (Masked p)"
proof (cases "Prefix_IsValid p")
  case False
  have "wf_Prefix zero_Prefix" by code_simp
  then show ?thesis using Masked_invalid [OF False] by simp
qed (use Masked_ok [OF assms] in simp)

lemma Addr_Prefix_wf:
  assumes "wf_Addr ip" and "Addr_Prefix ip b = Inr q"
  shows "wf_Prefix q"
proof (cases "Addr_IsValid ip")
  case True
  moreover have "0 \<le> b" "b \<le> BitLen ip"
    using assms(2) True by (auto simp: Addr_Prefix_def BitLen_def Addr_IsValid_def split: zone.splits if_splits)
  ultimately show ?thesis using Addr_Prefix_ok [OF assms(1)] assms(2) by (metis sum.inject(2))
next
  case False
  have "wf_Prefix zero_Prefix" by code_simp
  then show ?thesis using assms(2) False by (auto simp: Addr_Prefix_def Addr_IsValid_def split: if_splits)
qed

lemma UnmarshalBinary_wf:
  shows "Addr_UnmarshalBinary b = Some ip \<Longrightarrow> wf_Addr ip"
    and "AddrPort_UnmarshalBinary b = Some a \<Longrightarrow> wf_Addr (ap_ip a)"
    and "Prefix_UnmarshalBinary b = Some p \<Longrightarrow> wf_Prefix p"
proof -
  show A: "Addr_UnmarshalBinary b = Some ip \<Longrightarrow> wf_Addr ip" for b ip using Addr_binary by blast
  then show "AddrPort_UnmarshalBinary b = Some a \<Longrightarrow> wf_Addr (ap_ip a)"
    by (auto simp: AddrPort_UnmarshalBinary_def AddrPortFrom_def split: if_splits option.splits)
  show "Prefix_UnmarshalBinary b = Some p \<Longrightarrow> wf_Prefix p"
    using A by (auto simp: Prefix_UnmarshalBinary_def wf_PrefixFrom split: if_splits option.splits)
qed

lemma UnmarshalText_wf:
  shows "Addr_UnmarshalText s = Inr ip \<Longrightarrow> wf_Addr ip"
    and "AddrPort_UnmarshalText h s = Inr a \<Longrightarrow> wf_Addr (ap_ip a)"
    and "Prefix_UnmarshalText h s = Inr p \<Longrightarrow> wf_Prefix p"
proof -
  have z: "wf_Addr zero_Addr" "wf_Addr (ap_ip zero_AddrPort)" "wf_Prefix zero_Prefix" by code_simp+
  show "Addr_UnmarshalText s = Inr ip \<Longrightarrow> wf_Addr ip"
    using z(1) ParseAddr_wf(1) by (auto simp: Addr_UnmarshalText_def split: if_splits)
  show "AddrPort_UnmarshalText h s = Inr a \<Longrightarrow> wf_Addr (ap_ip a)"
    using z(2) ParseAddrPort_wf(1) by (auto simp: AddrPort_UnmarshalText_def split: if_splits)
  show "Prefix_UnmarshalText h s = Inr p \<Longrightarrow> wf_Prefix p"
    using z(3) ParsePrefix_wf(1) by (auto simp: Prefix_UnmarshalText_def split: if_splits)
qed

interpretation addrport_text: codec "\<lambda>p. case AddrPort_String h p of Ret s \<Rightarrow> s" "ParseAddrPort h'" "Inr :: AddrPort \<Rightarrow> portError + AddrPort"
    "\<lambda>p. wf_Addr (ap_ip p) \<and> Addr_IsValid (ap_ip p)"
  using ParseAddrPort_text AddrPort_text(1) by unfold_locales auto

section \<open>Properties\<close>

text \<open>
  C34. \<open>Contains\<close> decides membership in the address block: a valid prefix contains exactly the
  zone-free addresses of its own family whose bits above the host part are those of its address. The
  code tests an IPv4 prefix with a 32-bit exclusive or and shift, and an IPv6 one with two masked halves.
\<close>

theorem prefix_contains:
  assumes "wf_Prefix p" and "wf_Addr ip"
  shows "Contains p ip \<longleftrightarrow> Prefix_IsValid p \<and> \<not> hasZone ip \<and> a_z ip = a_z (pf_ip p)
    \<and> drop_bit (nat (BitLen (pf_ip p) - Bits p)) (u128 (a_addr ip)) = drop_bit (nat (BitLen (pf_ip p) - Bits p)) (u128 (a_addr (pf_ip p)))"
  using contains_iff [OF assms] unfolding network_def host_bits_def .

theorem prefix_contains_witness:
  "Contains (PrefixFrom (AddrFrom4 [10, 1, 9, 9]) 16) (AddrFrom4 [10, 1, 2, 3])
   \<and> \<not> Contains (PrefixFrom (AddrFrom4 [10, 1, 9, 9]) 16) (AddrFrom4 [10, 2, 0, 0])"
proof -
  let ?p = "PrefixFrom (AddrFrom4 [10, 1, 9, 9]) 16"
  have b: "Bits ?p = 16" "pf_ip ?p = AddrFrom4 [10, 1, 9, 9]" "Prefix_IsValid ?p"
    using PrefixFrom_simps [of "AddrFrom4 [10, 1, 9, 9]" 16] by (simp_all add: AddrFrom4_def BitLen_def Addr_IsValid_def withoutZone_def Is6_def)
  have "drop_bit 16 (u128 (a_addr (AddrFrom4 [10, 1, 2, 3]))) = drop_bit 16 (u128 (a_addr (AddrFrom4 [10, 1, 9, 9])))"
    "drop_bit 16 (u128 (a_addr (AddrFrom4 [10, 2, 0, 0]))) \<noteq> drop_bit 16 (u128 (a_addr (AddrFrom4 [10, 1, 9, 9])))"
    "BitLen (AddrFrom4 [10, 1, 9, 9]) = 32" "\<not> hasZone (AddrFrom4 [10, 1, 2, 3])" "a_z (AddrFrom4 [10, 1, 2, 3]) = a_z (AddrFrom4 [10, 1, 9, 9])"
    by code_simp+
  then show ?thesis
    using prefix_contains [of ?p "AddrFrom4 [10, 1, 2, 3]"] prefix_contains [of ?p "AddrFrom4 [10, 2, 0, 0]"] wf_PrefixFrom [of "AddrFrom4 [10, 1, 9, 9]" 16]
    by (simp add: b)
qed

text \<open>
  \<open>Masked\<close> is the canonical form of a prefix: two valid prefixes have the same masked form exactly
  when they contain the same addresses.
\<close>

theorem prefix_masked_canonical:
  assumes "wf_Prefix p" and "wf_Prefix q" and "Prefix_IsValid p" and "Prefix_IsValid q"
  shows "Masked p = Masked q \<longleftrightarrow> (\<forall>ip. wf_Addr ip \<longrightarrow> Contains p ip = Contains q ip)"
  by (rule Masked_canonical [OF assms])

theorem prefix_masked_canonical_witness:
  "\<not> (\<exists>ip. wf_Addr ip \<and> Contains (PrefixFrom (AddrFrom4 [10, 1, 9, 9]) 16) ip \<noteq> Contains (PrefixFrom (AddrFrom4 [10, 1, 0, 77]) 16) ip)"
proof -
  let ?p = "PrefixFrom (AddrFrom4 [10, 1, 9, 9]) 16" and ?q = "PrefixFrom (AddrFrom4 [10, 1, 0, 77]) 16"
  have "wf_Prefix ?p" "wf_Prefix ?q" by (simp_all add: wf_PrefixFrom)
  moreover have "Prefix_IsValid ?p" "Prefix_IsValid ?q" "Masked ?p = Masked ?q" by code_simp+
  ultimately show ?thesis using prefix_masked_canonical [of ?p ?q] by blast
qed

text \<open>
  C35. \<open>Overlaps\<close> says exactly that some address is in both prefixes (invalid prefixes overlap nothing).
\<close>

theorem prefix_overlaps:
  assumes "wf_Prefix p" and "wf_Prefix q"
  shows "Overlaps p q \<longleftrightarrow> (\<exists>ip. wf_Addr ip \<and> Contains p ip \<and> Contains q ip)"
  by (rule overlaps_common [OF assms])

theorem prefix_overlaps_witness:
  "Overlaps (PrefixFrom (AddrFrom4 [10, 0, 0, 0]) 8) (PrefixFrom (AddrFrom4 [10, 1, 0, 0]) 16)
   \<and> (\<exists>ip. wf_Addr ip \<and> Contains (PrefixFrom (AddrFrom4 [10, 0, 0, 0]) 8) ip \<and> Contains (PrefixFrom (AddrFrom4 [10, 1, 0, 0]) 16) ip)"
proof -
  let ?p = "PrefixFrom (AddrFrom4 [10, 0, 0, 0]) 8" and ?q = "PrefixFrom (AddrFrom4 [10, 1, 0, 0]) 16"
  have "wf_Prefix ?p" "wf_Prefix ?q" by (simp_all add: wf_PrefixFrom)
  moreover have "Overlaps ?p ?q" by code_simp
  ultimately show ?thesis using prefix_overlaps [of ?p ?q] by blast
qed

text \<open>
  C33. The types of the package are kept: every constructor, parser and decoder gives a well-formed
  address, port pair or prefix (an IPv4 address is stored in its mapped form, a zone is not empty, a
  prefix has no zone and a length in the range of its family), and the operations keep that.
\<close>

theorem netip_types:
  assumes "wf_Addr ip" and "wf_Prefix p"
  shows "wf_Addr (AddrFrom4 b) \<and> wf_Addr (AddrFrom16 b) \<and> wf_Addr (fst (AddrFromSlice b))
    \<and> (\<forall>x. Addr_UnmarshalText s = Inr x \<longrightarrow> wf_Addr x) \<and> (\<forall>x. ParseAddr s = Inr x \<longrightarrow> wf_Addr x \<and> Addr_IsValid x)
    \<and> (\<forall>x. Addr_UnmarshalBinary b = Some x \<longrightarrow> wf_Addr x)
    \<and> wf_Addr (Unmap ip) \<and> wf_Addr (WithZone ip z) \<and> wf_Addr (withoutZone ip)
    \<and> (\<forall>a. AddrPort_UnmarshalText h s = Inr a \<longrightarrow> wf_Addr (ap_ip a))
    \<and> (\<forall>a. ParseAddrPort h s = Inr a \<longrightarrow> wf_Addr (ap_ip a) \<and> Addr_IsValid (ap_ip a))
    \<and> (\<forall>a. AddrPort_UnmarshalBinary b = Some a \<longrightarrow> wf_Addr (ap_ip a))
    \<and> wf_Prefix (PrefixFrom ip n) \<and> (\<forall>q. Addr_Prefix ip n = Inr q \<longrightarrow> wf_Prefix q) \<and> wf_Prefix (Masked p)
    \<and> (\<forall>q. Prefix_UnmarshalText h s = Inr q \<longrightarrow> wf_Prefix q) \<and> (\<forall>q. ParsePrefix h s = Inr q \<longrightarrow> wf_Prefix q \<and> Prefix_IsValid q)
    \<and> (\<forall>q. Prefix_UnmarshalBinary b = Some q \<longrightarrow> wf_Prefix q)"
  using assms
  by (intro conjI allI impI)
    (simp_all add: AddrFromSlice_wf UnmarshalText_wf UnmarshalBinary_wf ParseAddr_wf ParseAddrPort_wf ParsePrefix_wf
      Unmap_wf WithZone_wf wf_withoutZone wf_PrefixFrom Addr_Prefix_wf Masked_wf)

theorem netip_types_witness:
  "wf_Addr (Unmap (AddrFrom4 [127, 0, 0, 1])) \<and> wf_Addr (WithZone IPv6Loopback ''eth0'') \<and> wf_Prefix (Masked (PrefixFrom (AddrFrom4 [10, 1, 2, 3]) 8))"
proof -
  have w: "wf_Addr (AddrFrom4 [127, 0, 0, 1])" "wf_Prefix (PrefixFrom (AddrFrom4 [10, 1, 2, 3]) 8)" "wf_Addr IPv6Loopback" by code_simp+
  have "wf_Addr (Unmap (AddrFrom4 [127, 0, 0, 1]))" "wf_Prefix (Masked (PrefixFrom (AddrFrom4 [10, 1, 2, 3]) 8))"
    using netip_types [OF w(1,2)] by simp_all
  moreover have "wf_Addr (WithZone IPv6Loopback ''eth0'')" using netip_types [OF w(3,2)] by simp
  ultimately show ?thesis by simp
qed

text \<open>
  C36. The text and binary forms of a prefix are exact: \<open>ParsePrefix\<close> reads back what \<open>String\<close> prints of a
  valid prefix and \<open>AppendTo\<close> appends that text; \<open>UnmarshalText\<close> reads back \<open>MarshalText\<close>, for the zero
  prefix too; \<open>UnmarshalBinary\<close> reads back \<open>MarshalBinary\<close> for every prefix, so two prefixes with the
  same encoding are equal.
\<close>

theorem prefix_roundtrip:
  assumes "wf_Prefix p"
  shows "(Prefix_IsValid p \<longrightarrow> ParsePrefix h (Prefix_String h' p) = Inr p \<and> Prefix_AppendTo p b = b @ Prefix_String h' p)
    \<and> (Prefix_IsValid p \<or> p = zero_Prefix \<longrightarrow> Prefix_UnmarshalText h (Prefix_MarshalText p) = Inr p)
    \<and> Prefix_UnmarshalBinary (Prefix_MarshalBinary p) = Some p
    \<and> (\<forall>q. wf_Prefix q \<longrightarrow> (Prefix_MarshalBinary p = Prefix_MarshalBinary q) = (p = q))"
proof (intro conjI impI allI)
  assume v: "Prefix_IsValid p"
  show "ParsePrefix h (Prefix_String h' p) = Inr p" using assms v by (intro prefix_text.dec_enc) simp
  show "Prefix_AppendTo p b = b @ Prefix_String h' p" using Prefix_String_form(1,2) [OF assms v] by simp
next
  assume "Prefix_IsValid p \<or> p = zero_Prefix"
  with assms show "Prefix_UnmarshalText h (Prefix_MarshalText p) = Inr p" by (rule Prefix_UnmarshalText_Marshal)
qed (use prefix_binary.dec_enc [OF assms] prefix_binary.enc_inj [OF assms] in simp_all)

theorem prefix_roundtrip_witness:
  "ParsePrefix True ''10.1.0.0/16'' = Inr (PrefixFrom (AddrFrom4 [10, 1, 0, 0]) 16)
   \<and> Prefix_UnmarshalBinary [10, 1, 0, 0, 16] = Some (PrefixFrom (AddrFrom4 [10, 1, 0, 0]) 16)"
proof -
  let ?p = "PrefixFrom (AddrFrom4 [10, 1, 0, 0]) 16"
  have "wf_Prefix ?p" by (simp add: wf_PrefixFrom)
  moreover have "Prefix_IsValid ?p" "Prefix_String True ?p = ''10.1.0.0/16''" "Prefix_MarshalBinary ?p = [10, 1, 0, 0, 16]" by code_simp+
  ultimately show ?thesis using prefix_roundtrip [of ?p True True] by metis
qed

text \<open>
  The text and binary forms of an address with a port are exact: \<open>ParseAddrPort\<close> reads back what
  \<open>String\<close> and \<open>MarshalText\<close> print of a valid pair (an IPv6 address in brackets, its zone included),
  neither panics, and the two print the same text; \<open>UnmarshalBinary\<close> reads back \<open>MarshalBinary\<close> for every
  pair, so two pairs with the same encoding are equal.
\<close>

theorem addrport_roundtrip:
  assumes "wf_Addr (ap_ip p)"
  shows "(Addr_IsValid (ap_ip p) \<longrightarrow>
      (\<exists>s. AddrPort_String h p = Ret s \<and> AddrPort_MarshalText h p = Ret s \<and> AddrPort_AppendTo h p b = Ret (b @ s)
        \<and> ParseAddrPort h' s = Inr p \<and> AddrPort_UnmarshalText h' s = Inr p))
    \<and> AddrPort_UnmarshalBinary (AddrPort_MarshalBinary p) = Some p
    \<and> (\<forall>q. wf_Addr (ap_ip q) \<longrightarrow> (AddrPort_MarshalBinary p = AddrPort_MarshalBinary q) = (p = q))"
proof (intro conjI impI allI)
  assume v: "Addr_IsValid (ap_ip p)"
  let ?s = "host_text (ap_ip p) @ CHR '':'' # Uitoa (ucast (ap_port p))"
  have "AddrPort_MarshalText h p = Ret ?s" "AddrPort_UnmarshalText h' ?s = ParseAddrPort h' ?s"
    using AddrPort_text(2) [OF v, of h "''''"] by (simp_all add: AddrPort_MarshalText_def AddrPort_UnmarshalText_def)
  then show "\<exists>s. AddrPort_String h p = Ret s \<and> AddrPort_MarshalText h p = Ret s \<and> AddrPort_AppendTo h p b = Ret (b @ s)
      \<and> ParseAddrPort h' s = Inr p \<and> AddrPort_UnmarshalText h' s = Inr p"
    using AddrPort_text [OF v] ParseAddrPort_text [OF assms v] by (intro exI [of _ ?s]) simp
qed (use addrport_binary.dec_enc [of p] addrport_binary.enc_inj [of p] assms in simp_all)

theorem addrport_roundtrip_witness:
  "AddrPort_UnmarshalBinary [127, 0, 0, 1, 144, 31] = Some (AddrPortFrom (AddrFrom4 [127, 0, 0, 1]) 8080)
   \<and> ParseAddrPort True ''[::1%lo]:80'' = Inr (AddrPortFrom (WithZone IPv6Loopback ''lo'') 80)"
proof -
  let ?p = "AddrPortFrom (AddrFrom4 [127, 0, 0, 1]) 8080" and ?q = "AddrPortFrom (WithZone IPv6Loopback ''lo'') 80"
  have "wf_Addr (ap_ip ?p)" "AddrPort_MarshalBinary ?p = [127, 0, 0, 1, 144, 31]"
    "wf_Addr (ap_ip ?q)" "Addr_IsValid (ap_ip ?q)" "AddrPort_String True ?q = Ret ''[::1%lo]:80''" by code_simp+
  then show ?thesis using addrport_roundtrip [of ?p] addrport_roundtrip [of ?q True _ True] by auto
qed

text \<open>
  C37. The comparisons are total orders: \<open>Addr.Compare\<close> is the three-way comparison of (family, 128-bit value,
  zone), with no zone before every zone; it and the comparisons of addresses with ports and of prefixes
  give the sign, the opposite sign the other way round, are transitive, and are 0 for equal values only.
\<close>

theorem netip_compare_orders:
  assumes "wf_Addr x" "wf_Addr y" and "wf_Addr (ap_ip a)" "wf_Addr (ap_ip b)" and "wf_Prefix p" "wf_Prefix q"
  shows "Addr_Compare x y = (if key_less (addr_key x) (addr_key y) then -1 else if key_less (addr_key y) (addr_key x) then 1 else 0)
    \<and> (Addr_Compare x y = 0) = (x = y) \<and> (\<forall>z. Less x y \<longrightarrow> Less y z \<longrightarrow> Less x z)
    \<and> AddrPort_Compare a b \<in> {-1, 0, 1} \<and> AddrPort_Compare b a = - AddrPort_Compare a b \<and> (AddrPort_Compare a b = 0) = (a = b)
    \<and> (\<forall>c. AddrPort_Compare a b \<le> 0 \<longrightarrow> AddrPort_Compare b c \<le> 0 \<longrightarrow> AddrPort_Compare a c \<le> 0)
    \<and> Prefix_compare p q \<in> {-1, 0, 1} \<and> Prefix_compare q p = - Prefix_compare p q \<and> (Prefix_compare p q = 0) = (p = q)
    \<and> (\<forall>r. Prefix_compare p q \<le> 0 \<longrightarrow> Prefix_compare q r \<le> 0 \<longrightarrow> Prefix_compare p r \<le> 0)"
proof (intro conjI allI impI)
  show "Addr_Compare x y = (if key_less (addr_key x) (addr_key y) then -1 else if key_less (addr_key y) (addr_key x) then 1 else 0)"
    by (rule Compare_key)
  show "(Addr_Compare x y = 0) = (x = y)" using Compare_equal [OF assms(1,2)] addr_cmp.cmp_same by blast
  show "Less x y \<Longrightarrow> Less y z \<Longrightarrow> Less x z" for z using addr_cmp.less_trans [of x y z] by (simp add: Less_def)
  show "AddrPort_Compare a b \<in> {-1, 0, 1}" using addrport_cmp.signs [of a b] by auto
  show "AddrPort_Compare b a = - AddrPort_Compare a b" by (rule addrport_cmp.swapped)
  show "(AddrPort_Compare a b = 0) = (a = b)" using AddrPort_equal [OF assms(3,4)] addrport_cmp.cmp_same by blast
  show "AddrPort_Compare a b \<le> 0 \<Longrightarrow> AddrPort_Compare b c \<le> 0 \<Longrightarrow> AddrPort_Compare a c \<le> 0" for c by (rule addrport_cmp.le_trans)
  show "Prefix_compare p q \<in> {-1, 0, 1}" using prefix_cmp.signs [of p q] by auto
  show "Prefix_compare q p = - Prefix_compare p q" by (rule prefix_cmp.swapped)
  show "(Prefix_compare p q = 0) = (p = q)" using Prefix_equal [OF assms(5,6)] prefix_cmp.cmp_same by blast
  show "Prefix_compare p q \<le> 0 \<Longrightarrow> Prefix_compare q r \<le> 0 \<Longrightarrow> Prefix_compare p r \<le> 0" for r by (rule prefix_cmp.le_trans)
qed

theorem netip_compare_orders_witness:
  "AddrPort_Compare (AddrPortFrom (AddrFrom4 [10, 0, 0, 1]) 80) (AddrPortFrom (AddrFrom4 [10, 0, 0, 1]) 443) = -1
   \<and> Prefix_compare (PrefixFrom IPv6Loopback 64) (PrefixFrom (AddrFrom4 [10, 0, 0, 0]) 8) = 1
   \<and> AddrFrom16 (bytes16 [(15, 1)]) = IPv6Loopback"
proof -
  let ?a = "AddrPortFrom (AddrFrom4 [10, 0, 0, 1]) 80" and ?b = "AddrPortFrom (AddrFrom4 [10, 0, 0, 1]) 443"
  let ?p = "PrefixFrom (AddrFrom4 [10, 0, 0, 0]) 8" and ?q = "PrefixFrom IPv6Loopback 64"
  have w: "wf_Addr (AddrFrom16 (bytes16 [(15, 1)]))" "wf_Addr IPv6Loopback" "wf_Addr (ap_ip ?a)" "wf_Addr (ap_ip ?b)" "wf_Prefix ?p" "wf_Prefix ?q"
    by code_simp+
  have "AddrPort_Compare ?b ?a = 1" "Prefix_compare ?p ?q = -1" "Addr_Compare (AddrFrom16 (bytes16 [(15, 1)])) IPv6Loopback = 0"
    by code_simp+
  moreover have "(Addr_Compare (AddrFrom16 (bytes16 [(15, 1)])) IPv6Loopback = 0) = (AddrFrom16 (bytes16 [(15, 1)]) = IPv6Loopback)"
    "AddrPort_Compare ?b ?a = - AddrPort_Compare ?a ?b" "Prefix_compare ?q ?p = - Prefix_compare ?p ?q"
    using netip_compare_orders [OF w] by blast+
  ultimately show ?thesis by simp
qed

end
