(* ===== verification/TimerHeap.thy ===== *)
theory TimerHeap
  imports GoPrelude "HOL-Library.Multiset"
begin

text \<open>
  The heap of timers of a P (\<^verbatim>\<open>runtime/time.go\<close>): an array in which the children of the timer at \<open>i\<close> are at
  \<open>4 * i + 1\<close> to \<open>4 * i + 4\<close>. A timer is its address; \<open>w\<close> gives its field \<open>when\<close>.
\<close>

section \<open>Sifting\<close>

definition corruption :: string where
  "corruption = ''timer data corruption''"

function siftup_loop :: "(nat \<Rightarrow> int) \<Rightarrow> int \<Rightarrow> nat list \<Rightarrow> nat \<Rightarrow> nat list \<times> nat" where
  "siftup_loop w when t i =
     (if i > 0 then
        (let p = (i - 1) div 4 in
         if when \<ge> w (t ! p) then (t, i) else siftup_loop w when (t[i := t ! p]) p)
      else (t, i))"
  by pat_completeness auto
termination by (relation "measure (\<lambda>(w, when, t, i). i)") auto

definition siftupTimer :: "(nat \<Rightarrow> int) \<Rightarrow> nat list \<Rightarrow> nat \<Rightarrow> (nat list \<times> nat) outcome" where
  "siftupTimer w t i =
     (if i \<ge> length t then Panic corruption
      else if w (t ! i) \<le> 0 then Panic corruption
      else let tmp = t ! i; (t, i) = siftup_loop w (w tmp) t i
        in Ret (if tmp \<noteq> t ! i then t[i := tmp] else t, i))"

text \<open>The first of the children of \<open>i\<close> with the least time, and that time.\<close>

definition least_child :: "(nat \<Rightarrow> int) \<Rightarrow> nat list \<Rightarrow> nat \<Rightarrow> nat \<times> int" where
  "least_child w t i =
     (let n = length t; c = i * 4 + 1; c3 = c + 2; wc = w (t ! c);
          (c, wc) = (if c + 1 < n \<and> w (t ! (c + 1)) < wc then (c + 1, w (t ! (c + 1))) else (c, wc))
      in if c3 < n then
           let w3 = w (t ! c3);
               (c3, w3) = (if c3 + 1 < n \<and> w (t ! (c3 + 1)) < w3 then (c3 + 1, w (t ! (c3 + 1))) else (c3, w3))
           in if w3 < wc then (c3, w3) else (c, wc)
         else (c, wc))"

lemma least_child_facts:
  assumes "i * 4 + 1 < length t"
  obtains c where "least_child w t i = (c, w (t ! c))" "i * 4 + 1 \<le> c" "c \<le> i * 4 + 4" "c < length t"
    "\<And>j. i * 4 + 1 \<le> j \<Longrightarrow> j \<le> i * 4 + 4 \<Longrightarrow> j < length t \<Longrightarrow> w (t ! c) \<le> w (t ! j)"
proof -
  define a b c d where "a = i * 4 + 1" and "b = a + 1" and "c = a + 2" and "d = a + 3"
  have j: "j = a \<or> j = b \<or> j = c \<or> j = d" if "i * 4 + 1 \<le> j" "j \<le> i * 4 + 4" for j
    using that by (auto simp: a_def b_def c_def d_def)
  have e: "i * 4 + 1 = a" "a + 1 = b" "a + 2 = c" "c + 1 = d" by (simp_all add: a_def b_def c_def d_def)
  have L: "least_child w t i =
    (let (x, wx) = (if b < length t \<and> w (t ! b) < w (t ! a) then (b, w (t ! b)) else (a, w (t ! a)));
         (y, wy) = (if d < length t \<and> w (t ! d) < w (t ! c) then (d, w (t ! d)) else (c, w (t ! c)))
     in if c < length t then (if wy < wx then (y, wy) else (x, wx)) else (x, wx))"
    unfolding least_child_def Let_def e by (simp split: prod.split)
  define x y where "x = (if b < length t \<and> w (t ! b) < w (t ! a) then b else a)"
    and "y = (if d < length t \<and> w (t ! d) < w (t ! c) then d else c)"
  define r where "r = (if c < length t \<and> w (t ! y) < w (t ! x) then y else x)"
  have "least_child w t i = (r, w (t ! r))" by (simp add: L r_def x_def y_def)
  moreover have "r \<in> {a, b, c, d}" by (simp add: r_def x_def y_def)
  then have "i * 4 + 1 \<le> r" "r \<le> i * 4 + 4" by (auto simp: a_def b_def c_def d_def)
  moreover have "r < length t" using assms by (auto simp: r_def x_def y_def a_def)
  moreover have "w (t ! r) \<le> w (t ! j)" if "i * 4 + 1 \<le> j" "j \<le> i * 4 + 4" "j < length t" for j
    using j [OF that(1,2)] that(3) by (auto simp: r_def x_def y_def c_def d_def)
  ultimately show thesis using that by blast
qed

function siftdown_loop :: "(nat \<Rightarrow> int) \<Rightarrow> int \<Rightarrow> nat list \<Rightarrow> nat \<Rightarrow> nat list \<times> nat" where
  "siftdown_loop w when t i =
     (if i * 4 + 1 \<ge> length t then (t, i)
      else (let (c, wc) = least_child w t i in
        if wc \<ge> when then (t, i) else siftdown_loop w when (t[i := t ! c]) c))"
  by pat_completeness auto
termination
proof (relation "measure (\<lambda>(w, when, t, i). length t - i)")
  fix w :: "nat \<Rightarrow> int" and tw t i c wc x
  assume "\<not> length t \<le> i * 4 + 1" and x: "x = least_child w t i" "(c, wc) = x"
  then have "i * 4 + 1 < length t" by simp
  then obtain d where d: "least_child w t i = (d, w (t ! d))" "i * 4 + 1 \<le> d" "d \<le> i * 4 + 4" "d < length t"
    by (rule least_child_facts)
  then show "((w, tw, t[i := t ! c], c), w, tw, t, i) \<in> measure (\<lambda>(w, when, t, i). length t - i)"
    using x by auto
qed simp

declare siftup_loop.simps [simp del] siftdown_loop.simps [simp del]

definition siftdownTimer :: "(nat \<Rightarrow> int) \<Rightarrow> nat list \<Rightarrow> nat \<Rightarrow> nat list outcome" where
  "siftdownTimer w t i =
     (if i \<ge> length t then Panic corruption
      else if w (t ! i) \<le> 0 then Panic corruption
      else let tmp = t ! i; (t, i) = siftdown_loop w (w tmp) t i
        in Ret (if tmp \<noteq> t ! i then t[i := tmp] else t))"

section \<open>Heaps\<close>

definition parent :: "nat \<Rightarrow> nat" where
  "parent j = (j - 1) div 4"

definition heap :: "(nat \<Rightarrow> int) \<Rightarrow> nat list \<Rightarrow> bool" where
  "heap w xs \<longleftrightarrow> (\<forall>j. 0 < j \<longrightarrow> j < length xs \<longrightarrow> w (xs ! parent j) \<le> w (xs ! j))"

text \<open>A heap but for the timer at \<open>i\<close>, which may be out of order with its children; with its parent as well.\<close>

definition heap_below :: "(nat \<Rightarrow> int) \<Rightarrow> nat list \<Rightarrow> nat \<Rightarrow> bool" where
  "heap_below w xs i \<longleftrightarrow>
     (\<forall>j. 0 < j \<longrightarrow> j < length xs \<longrightarrow> (if parent j = i then 0 < i \<longrightarrow> w (xs ! parent i) \<le> w (xs ! j) else w (xs ! parent j) \<le> w (xs ! j)))"

definition heap_but :: "(nat \<Rightarrow> int) \<Rightarrow> nat list \<Rightarrow> nat \<Rightarrow> bool" where
  "heap_but w xs i \<longleftrightarrow>
     (\<forall>j. 0 < j \<longrightarrow> j < length xs \<longrightarrow> j \<noteq> i \<longrightarrow> (if parent j = i then 0 < i \<longrightarrow> w (xs ! parent i) \<le> w (xs ! j) else w (xs ! parent j) \<le> w (xs ! j)))"

text \<open>And one that may be out of order with its parent only.\<close>

definition heap_above :: "(nat \<Rightarrow> int) \<Rightarrow> nat list \<Rightarrow> nat \<Rightarrow> bool" where
  "heap_above w xs i \<longleftrightarrow>
     (\<forall>j. 0 < j \<longrightarrow> j < length xs \<longrightarrow> (j \<noteq> i \<longrightarrow> w (xs ! parent j) \<le> w (xs ! j)) \<and> (parent j = i \<longrightarrow> 0 < i \<longrightarrow> w (xs ! parent i) \<le> w (xs ! j)))"

lemma parent_less: "0 < j \<Longrightarrow> parent j < j"
  by (auto simp: parent_def)

lemma parent_children: "0 < j \<Longrightarrow> parent j = i \<longleftrightarrow> i * 4 + 1 \<le> j \<and> j \<le> i * 4 + 4"
  by (auto simp: parent_def)

lemma least_index: "i * 4 + 1 \<le> j \<Longrightarrow> j \<le> i * 4 + 4 \<Longrightarrow> parent j = i"
  using parent_children [of j i] by simp

lemma heap_butD:
  assumes "heap_but w xs i" "0 < j" "j < length xs" "j \<noteq> i"
  shows "parent j \<noteq> i \<Longrightarrow> w (xs ! parent j) \<le> w (xs ! j)" "parent j = i \<Longrightarrow> 0 < i \<Longrightarrow> w (xs ! parent i) \<le> w (xs ! j)"
  using assms unfolding heap_but_def by (metis, metis)

lemma heap_belowD:
  assumes "heap_below w xs i" "0 < j" "j < length xs"
  shows "parent j \<noteq> i \<Longrightarrow> w (xs ! parent j) \<le> w (xs ! j)" "parent j = i \<Longrightarrow> 0 < i \<Longrightarrow> w (xs ! parent i) \<le> w (xs ! j)"
  using assms unfolding heap_below_def by (metis, metis)

lemma heap_above_but: "heap_above w xs i \<Longrightarrow> heap_but w xs i"
  by (auto simp: heap_above_def heap_but_def)

lemma heap_heap_below: "heap w xs \<Longrightarrow> i < length xs \<Longrightarrow> heap_below w xs i"
  unfolding heap_below_def heap_def by (auto intro: order_trans [of _ "w (xs ! i)"])

lemma heap_but_below: "heap_but w xs i \<Longrightarrow> (0 < i \<Longrightarrow> w (xs ! parent i) \<le> w (xs ! i)) \<Longrightarrow> heap_below w xs i"
proof -
  have "parent i \<noteq> i" if "0 < i" using parent_less [OF that] by simp
  then show "heap_but w xs i \<Longrightarrow> (0 < i \<Longrightarrow> w (xs ! parent i) \<le> w (xs ! i)) \<Longrightarrow> heap_below w xs i"
    unfolding heap_but_def heap_below_def by metis
qed

text \<open>One step up.\<close>

lemma up_step:
  assumes "heap_but w xs i" and "0 < i" and "i < length xs" and "w (xs ! i) \<le> w (xs ! parent i)"
  shows "heap_above w (xs[i := xs ! parent i, parent i := xs ! i]) (parent i)"
proof -
  define p ys where "p = parent i" and "ys = xs[i := xs ! p, p := xs ! i]"
  have p: "p < i" using parent_less [OF assms(2)] by (simp add: p_def)
  have ys: "ys ! j = (if j = p then xs ! i else if j = i then xs ! p else xs ! j)" if "j < length xs" for j
    using that p assms(3) by (simp add: ys_def nth_list_update)
  note but = heap_butD [OF assms(1)]
  have child: "w (ys ! parent j) \<le> w (ys ! j)" if j: "0 < j" "j < length xs" "j \<noteq> p" for j
  proof -
    have pj: "parent j < j" using parent_less [OF j(1)] .
    consider "j = i" | "j \<noteq> i" "parent j = i" | "j \<noteq> i" "parent j = p" | "j \<noteq> i" "parent j \<noteq> i" "parent j \<noteq> p" by blast
    then show ?thesis
    proof cases
      case 1
      then show ?thesis using assms(3,4) p by (simp add: ys p_def [symmetric])
    next
      case 2
      then show ?thesis using but(2) [OF j(1,2) 2(1) 2(2) assms(2)] j p assms(3) by (simp add: ys p_def)
    next
      case 3
      then have "w (xs ! p) \<le> w (xs ! j)" using but(1) [OF j(1,2) 3(1)] p by simp
      then show ?thesis using assms(4) j p assms(3) pj 3 by (simp add: ys p_def)
    next
      case 4
      then show ?thesis using but(1) [OF j(1,2) 4(1,2)] j pj by (simp add: ys)
    qed
  qed
  moreover have "w (ys ! parent p) \<le> w (ys ! j)" if j: "0 < j" "j < length xs" "parent j = p" "0 < p" for j
  proof -
    have pp: "parent p < p" using parent_less [OF j(4)] .
    have "w (xs ! parent p) \<le> w (xs ! p)" using but(1) [of p] p pp assms(3) j(4) by simp
    moreover have "w (xs ! p) \<le> w (xs ! j)" if "j \<noteq> i" using but(1) [OF j(1,2) that] j(3) p by simp
    moreover have "j \<noteq> p" using parent_less [OF j(1)] j(3) by simp
    ultimately show ?thesis using pp p j(2) assms(3) by (cases "j = i") (auto simp: ys)
  qed
  ultimately have "heap_above w ys p" by (simp add: heap_above_def ys_def)
  then show ?thesis by (simp add: ys_def p_def)
qed

text \<open>One step down.\<close>

lemma down_step:
  assumes "heap_below w xs i" and "parent c = i" and "0 < c" and "c < length xs" and "w (xs ! c) \<le> w (xs ! i)"
    and least: "\<And>j. 0 < j \<Longrightarrow> parent j = i \<Longrightarrow> j < length xs \<Longrightarrow> w (xs ! c) \<le> w (xs ! j)"
  shows "heap_below w (xs[i := xs ! c, c := xs ! i]) c"
proof -
  define ys where "ys = xs[i := xs ! c, c := xs ! i]"
  have i: "i < c" using parent_less [OF assms(3)] assms(2) by simp
  have ys: "ys ! j = (if j = c then xs ! i else if j = i then xs ! c else xs ! j)" if "j < length xs" for j
    using that i assms(4) by (simp add: ys_def nth_list_update)
  note below = heap_belowD [OF assms(1)]
  have "w (ys ! parent j) \<le> w (ys ! j)" if j: "0 < j" "j < length xs" "parent j \<noteq> c" for j
  proof -
    have pj: "parent j < j" using parent_less [OF j(1)] .
    consider "j = c" | "j \<noteq> c" "parent j = i" | "j = i" | "j \<noteq> c" "j \<noteq> i" "parent j \<noteq> i" by blast
    then show ?thesis
    proof cases
      case 1
      then show ?thesis using assms i by (simp add: ys)
    next
      case 2
      then show ?thesis using least [OF j(1) 2(2) j(2)] j pj i by (simp add: ys)
    next
      case 3
      then have "w (xs ! parent i) \<le> w (xs ! c)" using below(2) [OF assms(3,4,2)] j(1) by simp
      then show ?thesis using 3 j pj i by (simp add: ys)
    next
      case 4
      then show ?thesis using below(1) [OF j(1,2) 4(3)] j pj by (simp add: ys)
    qed
  qed
  moreover have "w (ys ! parent c) \<le> w (ys ! j)" if j: "0 < j" "j < length xs" "parent j = c" for j
  proof -
    have "j \<noteq> c" "j \<noteq> i" "parent j \<noteq> i" using parent_less [OF j(1)] j(3) i by auto
    then show ?thesis using below(1) [OF j(1,2)] j assms(2,4) i by (simp add: ys)
  qed
  ultimately have "heap_below w ys c" by (simp add: heap_below_def ys_def)
  then show ?thesis by (simp add: ys_def)
qed


section \<open>The loops\<close>

text \<open>The list with the hole at \<open>i\<close> filled by \<open>x\<close>: the loops keep it up to order.\<close>

lemma fill_step:
  assumes "i < length t" and "k < length t" and "i \<noteq> k"
  shows "(t[i := t ! k])[k := x] = (t[i := x])[i := (t[i := x]) ! k, k := (t[i := x]) ! i]"
    "mset ((t[i := t ! k])[k := x]) = mset (t[i := x])"
proof -
  show e: "(t[i := t ! k])[k := x] = (t[i := x])[i := (t[i := x]) ! k, k := (t[i := x]) ! i]" using assms by simp
  show "mset ((t[i := t ! k])[k := x]) = mset (t[i := x])" unfolding e using mset_swap [of k "t[i := x]" i] assms by simp
qed

lemma siftup_frame:
  "siftup_loop w tw t i = (t', k) \<Longrightarrow> i < length t \<Longrightarrow>
    k \<le> i \<and> length t' = length t \<and> mset (t'[k := x]) = mset (t[i := x]) \<and> (\<forall>j. j < k \<or> i < j \<longrightarrow> t' ! j = t ! j)"
proof (induction w tw t i rule: siftup_loop.induct)
  case (1 w tw t i)
  show ?case
  proof (cases "0 < i \<and> \<not> w (t ! parent i) \<le> tw")
    case True
    have p: "parent i < i" using True by (simp add: parent_less)
    have "siftup_loop w tw (t[i := t ! parent i]) (parent i) = (t', k)"
      using 1(2) True by (subst (asm) siftup_loop.simps) (simp add: parent_def Let_def)
    then have "k \<le> parent i \<and> length t' = length t \<and> mset (t'[k := x]) = mset ((t[i := t ! parent i])[parent i := x])
        \<and> (\<forall>j. j < k \<or> parent i < j \<longrightarrow> t' ! j = (t[i := t ! parent i]) ! j)"
      using 1(1) [OF _ refl] True 1(3) p by (simp add: parent_def)
    then show ?thesis using fill_step(2) [of i t "parent i" x] p 1(3) by simp
  next
    case False
    then have "t' = t \<and> k = i" using 1(2) by (subst (asm) siftup_loop.simps) (auto simp: parent_def Let_def split: if_splits)
    then show ?thesis by simp
  qed
qed

lemma siftup_heap:
  "siftup_loop w (w x) t i = (t', k) \<Longrightarrow> i < length t \<Longrightarrow> heap_above w (t[i := x]) i \<Longrightarrow> heap w (t'[k := x])"
proof (induction w "w x" t i rule: siftup_loop.induct)
  case (1 w t i)
  show ?case
  proof (cases "0 < i \<and> \<not> w (t ! parent i) \<le> w x")
    case True
    have p: "parent i < i" using True by (simp add: parent_less)
    have "siftup_loop w (w x) (t[i := t ! parent i]) (parent i) = (t', k)"
      using 1(2) True by (subst (asm) siftup_loop.simps) (simp add: parent_def Let_def)
    moreover have "heap_above w ((t[i := t ! parent i])[parent i := x]) (parent i)"
      using up_step [OF heap_above_but [OF 1(4)]] True 1(3) p unfolding fill_step(1) [OF 1(3) less_trans [OF p 1(3)] less_imp_neq [OF p, symmetric]] by simp
    ultimately show ?thesis using 1(1) [OF _ refl] True 1(3) p by (simp add: parent_def)
  next
    case False
    then have "t' = t \<and> k = i" using 1(2) by (subst (asm) siftup_loop.simps) (auto simp: parent_def Let_def split: if_splits)
    moreover have "heap w (t[i := x])" using 1(3,4) False parent_less by (auto simp: heap_def heap_above_def nth_list_update)
    ultimately show ?thesis by simp
  qed
qed

text \<open>From a place that is out of order both ways, what is left is at most out of order below that place.\<close>

lemma siftup_heap_below:
  assumes "siftup_loop w (w x) t i = (t', k)" and "i < length t" and "heap_but w (t[i := x]) i"
  shows "heap_below w (t'[k := x]) i"
proof (cases "0 < i \<and> \<not> w (t ! parent i) \<le> w x")
  case True
  have p: "parent i < i" using True by (simp add: parent_less)
  have s: "siftup_loop w (w x) (t[i := t ! parent i]) (parent i) = (t', k)"
    using assms(1) True by (subst (asm) siftup_loop.simps) (simp add: parent_def Let_def)
  moreover have "heap_above w ((t[i := t ! parent i])[parent i := x]) (parent i)"
    using up_step [OF assms(3)] True assms(2) p unfolding fill_step(1) [OF assms(2) less_trans [OF p assms(2)] less_imp_neq [OF p, symmetric]] by simp
  ultimately have "heap w (t'[k := x])" using siftup_heap [of w x "t[i := t ! parent i]" "parent i"] assms(2) p by simp
  then show ?thesis using siftup_frame [OF s] assms(2) p by (intro heap_heap_below) simp_all
next
  case False
  then have "t' = t \<and> k = i" using assms(1) by (subst (asm) siftup_loop.simps) (auto simp: parent_def Let_def split: if_splits)
  moreover have "heap_below w (t[i := x]) i"
    using assms(2) False parent_less [of i] by (intro heap_but_below [OF assms(3)]) auto
  ultimately show ?thesis by simp
qed

lemma siftdown_step:
  assumes "i * 4 + 1 < length t"
  obtains c where "least_child w t i = (c, w (t ! c))" "parent c = i" "0 < c" "i < c" "c < length t"
    "\<forall>j. 0 < j \<longrightarrow> parent j = i \<longrightarrow> j < length t \<longrightarrow> w (t ! c) \<le> w (t ! j)"
proof (rule least_child_facts [OF assms, where w = w])
  fix c
  assume c: "least_child w t i = (c, w (t ! c))" "i * 4 + 1 \<le> c" "c \<le> i * 4 + 4" "c < length t"
    "\<And>j. i * 4 + 1 \<le> j \<Longrightarrow> j \<le> i * 4 + 4 \<Longrightarrow> j < length t \<Longrightarrow> w (t ! c) \<le> w (t ! j)"
  have "w (t ! c) \<le> w (t ! j)" if "0 < j" "parent j = i" "j < length t" for j
    using c(5) [of j] that parent_children [OF that(1), of i] by blast
  then show thesis using that [OF c(1)] c(2-4) least_index by simp
qed

lemma siftdown_done: "length t \<le> i * 4 + 1 \<Longrightarrow> 0 < j \<Longrightarrow> j < length t \<Longrightarrow> parent j \<noteq> i"
  using parent_children [of j i] by auto

lemma siftdown_frame:
  "siftdown_loop w tw t i = (t', k) \<Longrightarrow> i < length t \<Longrightarrow>
    i \<le> k \<and> k < length t \<and> length t' = length t \<and> mset (t'[k := x]) = mset (t[i := x]) \<and> (\<forall>j<i. t' ! j = t ! j)"
proof (induction w tw t i rule: siftdown_loop.induct)
  case (1 w tw t i)
  show ?case
  proof (cases "i * 4 + 1 < length t \<and> \<not> tw \<le> snd (least_child w t i)")
    case True
    obtain c where c: "least_child w t i = (c, w (t ! c))" "i < c" "c < length t"
      using siftdown_step [of i t w] True by blast
    have r: "siftdown_loop w tw (t[i := t ! c]) c = (t', k)"
      using 1(2) True c(1) by (subst (asm) siftdown_loop.simps) simp
    have "c \<le> k \<and> k < length t \<and> length t' = length t \<and> mset (t'[k := x]) = mset ((t[i := t ! c])[c := x]) \<and> (\<forall>j<c. t' ! j = (t[i := t ! c]) ! j)"
      using 1(1) [of _ c] r True c by simp
    then show ?thesis using fill_step(2) [of i t c x] c 1(3) by simp
  next
    case False
    then have "t' = t \<and> k = i" using 1(2) by (subst (asm) siftdown_loop.simps) (auto split: if_splits prod.splits)
    then show ?thesis using 1(3) by simp
  qed
qed

lemma siftdown_heap:
  "siftdown_loop w (w x) t i = (t', k) \<Longrightarrow> i < length t \<Longrightarrow> heap_below w (t[i := x]) i \<Longrightarrow> heap w (t'[k := x])"
proof (induction w "w x" t i rule: siftdown_loop.induct)
  case (1 w t i)
  show ?case
  proof (cases "i * 4 + 1 < length t")
    case True
    then obtain c where c: "least_child w t i = (c, w (t ! c))" "parent c = i" "0 < c" "i < c" "c < length t"
      "\<forall>j. 0 < j \<longrightarrow> parent j = i \<longrightarrow> j < length t \<longrightarrow> w (t ! c) \<le> w (t ! j)"
      by (rule siftdown_step [where w = w])
    have least: "w (t[i := x] ! c) \<le> w (t[i := x] ! j)" if "0 < j" "parent j = i" "j < length (t[i := x])" for j
      using c(4,5) c(6) that parent_less [of j] by simp
    show ?thesis
    proof (cases "w x \<le> w (t ! c)")
      case stop: True
      then have "t' = t \<and> k = i" using 1(2) True c(1) by (subst (asm) siftdown_loop.simps) simp
      moreover have "heap w (t[i := x])" unfolding heap_def
      proof (intro allI impI)
        fix j
        assume j: "0 < j" "j < length (t[i := x])"
        show "w (t[i := x] ! parent j) \<le> w (t[i := x] ! j)"
        proof (cases "parent j = i")
          case True
          then show ?thesis using least [OF j(1) True j(2)] stop c(4) 1(3) by simp
        qed (rule heap_belowD(1) [OF 1(4) j])
      qed
      ultimately show ?thesis by simp
    next
      case False
      have r: "siftdown_loop w (w x) (t[i := t ! c]) c = (t', k)"
        using 1(2) True False c(1) by (subst (asm) siftdown_loop.simps) simp
      have "c < length (t[i := x])" "w (t[i := x] ! c) \<le> w (t[i := x] ! i)" using False c(4,5) 1(3) by simp_all
      then have "heap_below w ((t[i := t ! c])[c := x]) c"
        unfolding fill_step(1) [OF 1(3) c(5) less_imp_neq [OF c(4)]] by (rule down_step [OF 1(4) c(2,3)]) (rule least)
      then show ?thesis using 1(1) [of _ c] r True False c(1,5) by simp
    qed
  next
    case False
    then have "t' = t \<and> k = i" using 1(2) by (subst (asm) siftdown_loop.simps) simp
    moreover have "heap w (t[i := x])"
      using heap_belowD(1) [OF 1(4)] siftdown_done [of t i] False by (simp add: heap_def)
    ultimately show ?thesis by simp
  qed
qed

section \<open>What the two functions do\<close>

lemma siftupTimer_ok:
  assumes "i < length xs" and "0 < w (xs ! i)"
  obtains ys k where "siftupTimer w xs i = Ret (ys, k)" "k \<le> i" "mset ys = mset xs" "\<And>j. j < k \<or> i < j \<Longrightarrow> ys ! j = xs ! j"
    "heap_but w xs i \<Longrightarrow> heap_below w ys i" "heap_above w xs i \<Longrightarrow> heap w ys"
proof -
  obtain t' k where r: "siftup_loop w (w (xs ! i)) xs i = (t', k)" by (cases "siftup_loop w (w (xs ! i)) xs i")
  note f = siftup_frame [OF r assms(1), of "xs ! i"]
  have s: "siftupTimer w xs i = Ret (t'[k := xs ! i], k)" using assms r by (simp add: siftupTimer_def Let_def)
  have "t'[k := xs ! i] ! j = xs ! j" if "j < k \<or> i < j" for j
    using f that by auto
  moreover have "mset (t'[k := xs ! i]) = mset xs" using f by simp
  moreover have "heap_but w xs i \<Longrightarrow> heap_below w (t'[k := xs ! i]) i" "heap_above w xs i \<Longrightarrow> heap w (t'[k := xs ! i])"
    using siftup_heap_below [OF r assms(1)] siftup_heap [OF r assms(1)] by simp_all
  ultimately show thesis using that [OF s] f by blast
qed

lemma siftdownTimer_ok:
  assumes "i < length xs" and "0 < w (xs ! i)"
  obtains ys where "siftdownTimer w xs i = Ret ys" "mset ys = mset xs" "\<And>j. j < i \<Longrightarrow> ys ! j = xs ! j" "heap_below w xs i \<Longrightarrow> heap w ys"
proof -
  obtain t' k where r: "siftdown_loop w (w (xs ! i)) xs i = (t', k)" by (cases "siftdown_loop w (w (xs ! i)) xs i")
  note f = siftdown_frame [OF r assms(1), of "xs ! i"]
  have s: "siftdownTimer w xs i = Ret (t'[k := xs ! i])" using assms r by (simp add: siftdownTimer_def Let_def)
  have "t'[k := xs ! i] ! j = xs ! j" if "j < i" for j
    using f that by auto
  moreover have "mset (t'[k := xs ! i]) = mset xs" using f by simp
  moreover have "heap_below w xs i \<Longrightarrow> heap w (t'[k := xs ! i])"
    using siftdown_heap [OF r assms(1)] by simp
  ultimately show thesis using that [OF s] by blast
qed

section \<open>Heaps and their changes\<close>

lemma heap_root:
  assumes "heap w xs" and "x \<in> set xs"
  shows "w (xs ! 0) \<le> w x"
proof -
  have "w (xs ! 0) \<le> w (xs ! j)" if "j < length xs" for j
    using that
  proof (induction j rule: less_induct)
    case (less j)
    show ?case
    proof (cases "0 < j")
      case True
      then have "w (xs ! parent j) \<le> w (xs ! j)" "parent j < j" using assms(1) less.prems parent_less by (simp_all add: heap_def)
      then show ?thesis using less.IH [of "parent j"] less.prems by simp
    qed simp
  qed
  then show ?thesis using assms(2) by (auto simp: in_set_conv_nth)
qed

lemma heap_cong: "(\<And>x. x \<in> set xs \<Longrightarrow> w x = w' x) \<Longrightarrow> heap w xs = heap w' xs"
  using parent_less by (simp add: heap_def) (metis less_trans nth_mem)

lemma heap_append:
  assumes "heap w xs"
  shows "heap_above w (xs @ [x]) (length xs)"
proof -
  have "w ((xs @ [x]) ! parent j) \<le> w ((xs @ [x]) ! j) \<and> parent j \<noteq> length xs" if "0 < j" "j < length xs" for j
    using assms that parent_less [of j] by (simp add: heap_def nth_append)
  moreover have "parent (length xs) \<noteq> length xs" if "xs \<noteq> []" using parent_less [of "length xs"] that by simp
  ultimately show ?thesis by (auto simp: heap_above_def less_Suc_eq)
qed

text \<open>The last timer in the place of the one at \<open>i\<close>, whose time does not matter any more.\<close>

definition fill_last :: "nat list \<Rightarrow> nat \<Rightarrow> nat list" where
  "fill_last xs i = butlast (xs[i := last xs])"

lemma fill_last_nth: "j < length xs - 1 \<Longrightarrow> fill_last xs i ! j = (if j = i then xs ! (length xs - 1) else xs ! j)"
  by (cases "xs = []") (simp_all add: fill_last_def nth_butlast last_conv_nth nth_list_update)

lemma fill_last_length [simp]: "length (fill_last xs i) = length xs - 1"
  by (simp add: fill_last_def)

lemma fill_last_mset: "i < length xs \<Longrightarrow> add_mset (xs ! i) (mset (fill_last xs i)) = mset xs"
proof -
  assume i: "i < length xs"
  define n where "n = length xs - 1"
  have n: "n < length xs" "last xs = xs ! n" using i by (cases xs; simp add: n_def last_conv_nth)+
  define ys where "ys = xs[i := xs ! n, n := xs ! i]"
  have "mset ys = mset xs" unfolding ys_def using mset_swap [of n xs i] i n by simp
  moreover have "butlast ys = fill_last xs i" by (simp add: ys_def fill_last_def n(2) n_def butlast_list_update)
  moreover have ne: "ys \<noteq> []" using i by (auto simp: ys_def)
  moreover have "length ys - 1 = n" "ys ! n = xs ! i" using n(1) by (simp_all add: ys_def n_def)
  then have "last ys = xs ! i" using last_conv_nth [OF ne] by simp
  ultimately show ?thesis by (metis append_butlast_last_id mset_append mset_single_iff union_commute add_mset_add_single)
qed

lemma heap_fill_last:
  assumes "heap w xs" and "distinct xs" and "i < length xs" and same: "\<And>x. x \<in> set xs \<Longrightarrow> x \<noteq> xs ! i \<Longrightarrow> w' x = w x"
  shows "heap_but w' (fill_last xs i) i" "i = length xs - 1 \<Longrightarrow> heap w' (fill_last xs i)"
proof -
  have e: "w (xs ! parent j) \<le> w (xs ! j)" "parent j < j" if "0 < j" "j < length xs" for j
    using assms(1) that parent_less by (simp_all add: heap_def)
  have w': "w' (fill_last xs i ! j) = w (xs ! j)" if "j < length xs - 1" "j \<noteq> i" for j
    using that same [of "xs ! j"] assms(2,3) by (simp add: fill_last_nth nth_eq_iff_index_eq)
  have "w' (fill_last xs i ! parent j) \<le> w' (fill_last xs i ! j)" if "0 < j" "j < length xs - 1" "j \<noteq> i" "parent j \<noteq> i" for j
    using that e [of j] w' [of j] w' [of "parent j"] less_trans [of "parent j" j] by auto
  moreover have "w' (fill_last xs i ! parent i) \<le> w' (fill_last xs i ! j)" if "0 < j" "j < length xs - 1" "parent j = i" "0 < i" for j
    using that e [of j] e [of i] w' [of j] w' [of "parent i"] by force
  ultimately show "heap_but w' (fill_last xs i) i" by (simp add: heap_but_def)
  show "heap w' (fill_last xs i)" if "i = length xs - 1"
    unfolding heap_def
  proof (intro allI impI)
    fix j
    assume j: "0 < j" "j < length (fill_last xs i)"
    then have "parent j < length xs - 1" using parent_less [of j] by simp
    then show "w' (fill_last xs i ! parent j) \<le> w' (fill_last xs i ! j)"
      using that j e(1) [of j] w' [of j] w' [of "parent j"] by simp
  qed
qed

end
