(* ===== verification/Timers.thy ===== *)
theory Timers
  imports TimerHeap "HOL-Library.Signed_Division"
begin

text \<open>
  The timers of the runtime (\<^verbatim>\<open>runtime/time.go\<close>, and \<open>checkTimers\<close> of \<^verbatim>\<open>runtime/proc.go\<close>): each P has a heap of timers;
  other Ps only mark a timer as deleted or modified, and the P that owns the heap moves it later. A function
  below runs with the locks that it takes held, so that no other goroutine interferes; a status that another
  goroutine sets for a short time (\<open>timerRunning\<close>, \<open>timerMoving\<close> and so on) makes the callers wait (\<open>Blocked\<close>).
  Timers and Ps are named by their addresses; 0 is \<open>nil\<close>. Times are \<open>int64\<close>.
\<close>

section \<open>State\<close>

datatype tstatus = TNoStatus | TWaiting | TRunning | TDeleted | TRemoving | TRemoved | TModifying
  | TModifiedEarlier | TModifiedLater | TMoving

record rtimer =
  rt_pp :: nat
  rt_when :: int
  rt_period :: int
  rt_f :: nat
  rt_arg :: nat
  rt_seq :: u64
  rt_nextwhen :: int
  rt_status :: tstatus

record ptimers =
  pt_timers :: "nat list"
  pt_timer0When :: int
  pt_numTimers :: u32
  pt_deletedTimers :: u32
  pt_modifiedEarliest :: int

text \<open>What the scheduler sees of the timers: the calls that are made.\<close>

datatype tevent = NetpollBreak | Wakep | TimerFunc nat nat u64

text \<open>\<open>ts_lastpoll\<close> is 0 while a thread is blocked in the poller, until \<open>ts_pollUntil\<close> (0: no limit).\<close>

record tsys =
  ts_timer :: "nat \<Rightarrow> rtimer"
  ts_p :: "nat \<Rightarrow> ptimers"
  ts_preemptStop :: bool
  ts_netpollInited :: bool
  ts_lastpoll :: int
  ts_pollUntil :: int
  ts_log :: "tevent list"

definition upd_timer :: "nat \<Rightarrow> (rtimer \<Rightarrow> rtimer) \<Rightarrow> tsys \<Rightarrow> tsys" where
  "upd_timer t f s = s\<lparr>ts_timer := (ts_timer s)(t := f (ts_timer s t))\<rparr>"

definition upd_p :: "nat \<Rightarrow> (ptimers \<Rightarrow> ptimers) \<Rightarrow> tsys \<Rightarrow> tsys" where
  "upd_p pid f s = s\<lparr>ts_p := (ts_p s)(pid := f (ts_p s pid))\<rparr>"

definition set_status :: "nat \<Rightarrow> tstatus \<Rightarrow> tsys \<Rightarrow> tsys" where
  "set_status t st = upd_timer t (\<lambda>x. x\<lparr>rt_status := st\<rparr>)"

definition when_of :: "tsys \<Rightarrow> nat \<Rightarrow> int" where
  "when_of s t = rt_when (ts_timer s t)"

definition status_of :: "tsys \<Rightarrow> nat \<Rightarrow> tstatus" where
  "status_of s t = rt_status (ts_timer s t)"

definition heap_of :: "tsys \<Rightarrow> nat \<Rightarrow> nat list" where
  "heap_of s pid = pt_timers (ts_p s pid)"

definition maxWhen :: int where
  "maxWhen = 2 ^ 63 - 1"

text \<open>Arithmetic on \<open>int64\<close> wraps.\<close>

definition wrap64 :: "int \<Rightarrow> int" where
  "wrap64 x = signed_take_bit 63 x"

section \<open>The heap of a P\<close>

definition updateTimer0When :: "nat \<Rightarrow> tsys \<Rightarrow> tsys" where
  "updateTimer0When pid s =
     upd_p pid (\<lambda>p. p\<lparr>pt_timer0When := (if pt_timers p = [] then 0 else when_of s (pt_timers p ! 0))\<rparr>) s"

definition updateTimerModifiedEarliest :: "nat \<Rightarrow> int \<Rightarrow> tsys \<Rightarrow> tsys" where
  "updateTimerModifiedEarliest pid nextwhen s =
     (let old = pt_modifiedEarliest (ts_p s pid) in
      if old \<noteq> 0 \<and> old < nextwhen then s else upd_p pid (\<lambda>p. p\<lparr>pt_modifiedEarliest := nextwhen\<rparr>) s)"

definition doaddtimer :: "nat \<Rightarrow> nat \<Rightarrow> tsys \<Rightarrow> tsys outcome" where
  "doaddtimer pid t s =
     (let s = s\<lparr>ts_netpollInited := True\<rparr> in
      if rt_pp (ts_timer s t) \<noteq> 0 then Panic ''doaddtimer: P already set in timer''
      else
        let s = upd_timer t (\<lambda>x. x\<lparr>rt_pp := pid\<rparr>) s; i = length (heap_of s pid)
        in obind (siftupTimer (when_of s) (heap_of s pid @ [t]) i) (\<lambda>(ts, _).
             let s = upd_p pid (\<lambda>p. p\<lparr>pt_timers := ts\<rparr>) s;
                 s = (if t = ts ! 0 then upd_p pid (\<lambda>p. p\<lparr>pt_timer0When := when_of s t\<rparr>) s else s)
             in Ret (upd_p pid (\<lambda>p. p\<lparr>pt_numTimers := pt_numTimers p + 1\<rparr>) s)))"

text \<open>The end of both deletions: one timer less.\<close>

definition one_less :: "nat \<Rightarrow> tsys \<Rightarrow> tsys" where
  "one_less pid s =
     (let s = upd_p pid (\<lambda>p. p\<lparr>pt_numTimers := pt_numTimers p - 1\<rparr>) s
      in if pt_numTimers (ts_p s pid) = 0 then upd_p pid (\<lambda>p. p\<lparr>pt_modifiedEarliest := 0\<rparr>) s else s)"

text \<open>Sifting the timer that took the place of the deleted one, when there is one.\<close>

definition sift_both :: "(nat \<Rightarrow> int) \<Rightarrow> nat list \<Rightarrow> nat \<Rightarrow> nat \<Rightarrow> (nat list \<times> nat) outcome" where
  "sift_both w ts i n =
     (if i \<noteq> n
      then obind (siftupTimer w ts i) (\<lambda>(ts, smallestChanged).
             obind (siftdownTimer w ts i) (\<lambda>ts. Ret (ts, smallestChanged)))
      else Ret (ts, i))"

definition dodeltimer :: "nat \<Rightarrow> nat \<Rightarrow> tsys \<Rightarrow> (tsys \<times> nat) outcome" where
  "dodeltimer pid i s =
     (let ts = heap_of s pid in
      if i \<ge> length ts then Panic ''index out of range''
      else if rt_pp (ts_timer s (ts ! i)) \<noteq> pid then Panic ''dodeltimer: wrong P''
      else
        let s = upd_timer (ts ! i) (\<lambda>x. x\<lparr>rt_pp := 0\<rparr>) s;
            last = length ts - 1;
            ts = take last (if i \<noteq> last then ts[i := ts ! last] else ts)
        in obind (sift_both (when_of s) ts i last) (\<lambda>(ts, smallestChanged).
             let s = upd_p pid (\<lambda>p. p\<lparr>pt_timers := ts\<rparr>) s;
                 s = (if i = 0 then updateTimer0When pid s else s)
             in Ret (one_less pid s, smallestChanged)))"

definition dodeltimer0 :: "nat \<Rightarrow> tsys \<Rightarrow> tsys outcome" where
  "dodeltimer0 pid s =
     (let ts = heap_of s pid in
      if ts = [] then Panic ''index out of range''
      else if rt_pp (ts_timer s (ts ! 0)) \<noteq> pid then Panic ''dodeltimer0: wrong P''
      else
        let s = upd_timer (ts ! 0) (\<lambda>x. x\<lparr>rt_pp := 0\<rparr>) s;
            last = length ts - 1;
            ts = take last (if last > 0 then ts[0 := ts ! last] else ts)
        in obind (if last > 0 then siftdownTimer (when_of s) ts 0 else Ret ts) (\<lambda>ts.
             let s = updateTimer0When pid (upd_p pid (\<lambda>p. p\<lparr>pt_timers := ts\<rparr>) s)
             in Ret (one_less pid s)))"

text \<open>The two cases that \<open>cleantimers\<close> and \<open>runtimer\<close> share: the first timer is deleted, or modified.\<close>

definition remove_head :: "nat \<Rightarrow> nat \<Rightarrow> tsys \<Rightarrow> tsys outcome" where
  "remove_head pid t s =
     obind (dodeltimer0 pid (set_status t TRemoving s)) (\<lambda>s.
       Ret (upd_p pid (\<lambda>p. p\<lparr>pt_deletedTimers := pt_deletedTimers p - 1\<rparr>) (set_status t TRemoved s)))"

definition take_nextwhen :: "nat \<Rightarrow> tsys \<Rightarrow> tsys" where
  "take_nextwhen t = upd_timer t (\<lambda>x. x\<lparr>rt_when := rt_nextwhen x\<rparr>)"

definition move_head :: "nat \<Rightarrow> nat \<Rightarrow> tsys \<Rightarrow> tsys outcome" where
  "move_head pid t s =
     obind (dodeltimer0 pid (take_nextwhen t (set_status t TMoving s))) (\<lambda>s.
       obind (doaddtimer pid t s) (\<lambda>s. Ret (set_status t TWaiting s)))"

section \<open>What the operations on the heap leave alone\<close>

lemma upd_simps [simp]:
  "ts_timer (upd_timer t f s) = (ts_timer s)(t := f (ts_timer s t))" "ts_p (upd_timer t f s) = ts_p s"
  "ts_timer (upd_p q g s) = ts_timer s" "ts_p (upd_p q g s) = (ts_p s)(q := g (ts_p s q))"
  "ts_preemptStop (upd_timer t f s) = ts_preemptStop s" "ts_preemptStop (upd_p q g s) = ts_preemptStop s"
  "ts_log (upd_timer t f s) = ts_log s" "ts_log (upd_p q g s) = ts_log s"
  "heap_of (upd_timer t f s) = heap_of s" "heap_of (upd_p q g s) x = (if x = q then pt_timers (g (ts_p s q)) else heap_of s x)"
  "status_of (upd_p q g s) = status_of s" "when_of (upd_p q g s) = when_of s"
  by (auto simp: upd_timer_def upd_p_def heap_of_def status_of_def when_of_def)

lemma heap_of_upd: "(\<And>p. pt_timers (g p) = pt_timers p) \<Longrightarrow> heap_of (upd_p q g s) = heap_of s"
  by (auto simp: upd_p_def heap_of_def)

lemma one_less_simps [simp]:
  "ts_timer (one_less pid s) = ts_timer s" "heap_of (one_less pid s) = heap_of s" "ts_log (one_less pid s) = ts_log s"
  "ts_preemptStop (one_less pid s) = ts_preemptStop s"
  by (auto simp: one_less_def Let_def fun_eq_iff) (simp_all add: heap_of_def)

lemma updateTimer0When_simps [simp]:
  "ts_timer (updateTimer0When pid s) = ts_timer s" "heap_of (updateTimer0When pid s) = heap_of s" "ts_log (updateTimer0When pid s) = ts_log s"
  "ts_preemptStop (updateTimer0When pid s) = ts_preemptStop s"
  by (auto simp: updateTimer0When_def fun_eq_iff) (simp_all add: heap_of_def)

lemma siftup_mset: "siftupTimer w xs i = Ret (ys, k) \<Longrightarrow> mset ys = mset xs"
  using siftupTimer_ok [of i xs w] by (fastforce simp: siftupTimer_def split: if_splits)

lemma siftdown_mset: "siftdownTimer w xs i = Ret ys \<Longrightarrow> mset ys = mset xs"
  using siftdownTimer_ok [of i xs w] by (fastforce simp: siftdownTimer_def split: if_splits)

lemma code_fill_last:
  "i < length ts \<Longrightarrow> take (length ts - 1) (if i \<noteq> length ts - 1 then ts[i := ts ! (length ts - 1)] else ts) = fill_last ts i"
  "0 < length ts \<Longrightarrow> take (length ts - 1) (if length ts - 1 > 0 then ts[0 := ts ! (length ts - 1)] else ts) = fill_last ts 0"
  by (cases "ts = []"; auto simp: fill_last_def butlast_conv_take last_conv_nth list_update_same_conv)+

lemma sift_both_mset: "sift_both w ts i n = Ret (ys, k) \<Longrightarrow> mset ys = mset ts"
  using siftup_mset siftdown_mset by (fastforce simp: sift_both_def obind_Ret split: if_splits)

lemma dodeltimer_alt:
  assumes "i < length (heap_of s pid)" and "rt_pp (ts_timer s (heap_of s pid ! i)) = pid"
  shows "dodeltimer pid i s =
    (let s = upd_timer (heap_of s pid ! i) (\<lambda>x. x\<lparr>rt_pp := 0\<rparr>) s
     in obind (sift_both (when_of s) (fill_last (heap_of s pid) i) i (length (heap_of s pid) - 1)) (\<lambda>(ts, k).
       let s = upd_p pid (\<lambda>p. p\<lparr>pt_timers := ts\<rparr>) s in Ret (one_less pid (if i = 0 then updateTimer0When pid s else s), k)))"
  unfolding dodeltimer_def Let_def code_fill_last(1) [OF assms(1)] using assms by simp

lemma dodeltimer_pre:
  assumes "dodeltimer pid i s = Ret r"
  shows "i < length (heap_of s pid)" "rt_pp (ts_timer s (heap_of s pid ! i)) = pid"
  using assms by (auto simp: dodeltimer_def Let_def split: if_splits)

lemma dodeltimer_frame:
  assumes "dodeltimer pid i s = Ret (s', k)"
  shows "mset (heap_of s pid) = add_mset (heap_of s pid ! i) (mset (heap_of s' pid))"
    "ts_timer s' = (ts_timer s)(heap_of s pid ! i := (ts_timer s (heap_of s pid ! i))\<lparr>rt_pp := 0\<rparr>)"
proof -
  note pre = dodeltimer_pre [OF assms]
  let ?s = "upd_timer (heap_of s pid ! i) (\<lambda>x. x\<lparr>rt_pp := 0\<rparr>) s"
  obtain ts where ts: "sift_both (when_of ?s) (fill_last (heap_of s pid) i) i (length (heap_of s pid) - 1) = Ret (ts, k)"
    and s': "s' = one_less pid (if i = 0 then updateTimer0When pid (upd_p pid (\<lambda>p. p\<lparr>pt_timers := ts\<rparr>) ?s) else upd_p pid (\<lambda>p. p\<lparr>pt_timers := ts\<rparr>) ?s)"
    using assms unfolding dodeltimer_alt [OF pre] by (auto simp: obind_Ret Let_def)
  show "mset (heap_of s pid) = add_mset (heap_of s pid ! i) (mset (heap_of s' pid))"
    using fill_last_mset [OF pre(1)] sift_both_mset [OF ts] s' by (cases "i = 0") simp_all
  show "ts_timer s' = (ts_timer s)(heap_of s pid ! i := (ts_timer s (heap_of s pid ! i))\<lparr>rt_pp := 0\<rparr>)" using s' by simp
qed

text \<open>\<open>dodeltimer0\<close> does what \<open>dodeltimer\<close> does at 0, where sifting up changes nothing.\<close>

lemma siftup_root: "siftupTimer w ts 0 = (if ts = [] \<or> w (ts ! 0) \<le> 0 then Panic corruption else Ret (ts, 0))"
  by (simp add: siftupTimer_def siftup_loop.simps Let_def)

lemma sift_both_root: "sift_both w ts 0 n = (if 0 < n then obind (siftdownTimer w ts 0) (\<lambda>ts. Ret (ts, 0)) else Ret (ts, 0))"
  by (auto simp: sift_both_def siftup_root siftdownTimer_def)

lemma dodeltimer0_alt: "dodeltimer0 pid s = Ret s' \<longleftrightarrow> dodeltimer pid 0 s = Ret (s', 0)"
proof (cases "heap_of s pid \<noteq> [] \<and> rt_pp (ts_timer s (heap_of s pid ! 0)) = pid")
  case True
  then show ?thesis
    by (auto simp: dodeltimer0_def dodeltimer_def Let_def code_fill_last sift_both_root obind_Ret)
next
  case False
  then show ?thesis by (auto simp: dodeltimer0_def dodeltimer_def Let_def)
qed

lemma doaddtimer_frame:
  assumes "doaddtimer pid t s = Ret s'"
  shows "rt_pp (ts_timer s t) = 0" "mset (heap_of s' pid) = add_mset t (mset (heap_of s pid))"
    "ts_timer s' = (ts_timer s)(t := (ts_timer s t)\<lparr>rt_pp := pid\<rparr>)" "ts_preemptStop s' = ts_preemptStop s"
    "status_of s' = status_of s"
proof -
  show "rt_pp (ts_timer s t) = 0" using assms by (auto simp: doaddtimer_def Let_def split: if_splits)
  then obtain ts k where ts: "siftupTimer (when_of (upd_timer t (\<lambda>x. x\<lparr>rt_pp := pid\<rparr>) (s\<lparr>ts_netpollInited := True\<rparr>))) (heap_of s pid @ [t]) (length (heap_of s pid)) = Ret (ts, k)"
    and s': "ts_timer s' = (ts_timer s)(t := (ts_timer s t)\<lparr>rt_pp := pid\<rparr>)" "heap_of s' pid = ts" "ts_preemptStop s' = ts_preemptStop s"
    using assms by (auto simp: doaddtimer_def Let_def obind_Ret heap_of_def)
  show "mset (heap_of s' pid) = add_mset t (mset (heap_of s pid))" "ts_timer s' = (ts_timer s)(t := (ts_timer s t)\<lparr>rt_pp := pid\<rparr>)"
    "ts_preemptStop s' = ts_preemptStop s"
    using siftup_mset [OF ts] s' by simp_all
  then show "status_of s' = status_of s" by (simp add: status_of_def fun_eq_iff)
qed

section \<open>Cleaning the head of the heap\<close>

text \<open>How many timers in the heap are not waiting: what the loops over the heap use up.\<close>

definition unsettled :: "tsys \<Rightarrow> nat \<Rightarrow> nat" where
  "unsettled s pid = size (filter_mset (\<lambda>t. status_of s t \<noteq> TWaiting) (mset (heap_of s pid)))"

lemma set_status_simps [simp]:
  "heap_of (set_status t st s) = heap_of s" "status_of (set_status t st s) = (status_of s)(t := st)"
  "rt_pp (ts_timer (set_status t st s) x) = rt_pp (ts_timer s x)" "when_of (set_status t st s) = when_of s"
  "ts_preemptStop (set_status t st s) = ts_preemptStop s"
  by (auto simp: set_status_def heap_of_def status_of_def when_of_def)

lemma take_nextwhen_simps [simp]:
  "heap_of (take_nextwhen t s) = heap_of s" "status_of (take_nextwhen t s) = status_of s"
  "rt_pp (ts_timer (take_nextwhen t s) x) = rt_pp (ts_timer s x)" "ts_preemptStop (take_nextwhen t s) = ts_preemptStop s"
  by (auto simp: take_nextwhen_def heap_of_def status_of_def)

lemma dodeltimer0_frame:
  assumes "dodeltimer0 pid s = Ret s'"
  shows "mset (heap_of s pid) = add_mset (heap_of s pid ! 0) (mset (heap_of s' pid))" "status_of s' = status_of s"
  using dodeltimer_frame [OF assms [unfolded dodeltimer0_alt]] by (auto simp: status_of_def)

lemma remove_head_unsettled:
  assumes "remove_head pid (heap_of s pid ! 0) s = Ret s'" and "status_of s (heap_of s pid ! 0) = TDeleted"
  shows "unsettled s' pid < unsettled s pid"
proof -
  define t where "t = heap_of s pid ! 0"
  obtain s1 where s1: "dodeltimer0 pid (set_status t TRemoving s) = Ret s1"
    and s': "heap_of s' pid = heap_of s1 pid" "status_of s' = (status_of s1)(t := TRemoved)"
    using assms(1) by (auto simp: remove_head_def obind_Ret t_def [symmetric] heap_of_upd)
  have "mset (heap_of s pid) = add_mset t (mset (heap_of s' pid))" "status_of s' = (status_of s)(t := TRemoved)"
    using dodeltimer0_frame [OF s1] s' by (simp_all add: t_def)
  moreover have "filter_mset (\<lambda>x. ((status_of s)(t := TRemoved)) x \<noteq> TWaiting) M = filter_mset (\<lambda>x. status_of s x \<noteq> TWaiting) M" for M
    using assms(2) by (intro filter_mset_cong) (simp_all add: t_def)
  ultimately show ?thesis using assms(2) by (simp add: unsettled_def t_def [symmetric])
qed

lemma move_head_unsettled:
  assumes "move_head pid (heap_of s pid ! 0) s = Ret s'" and "status_of s (heap_of s pid ! 0) \<noteq> TWaiting" and "heap_of s pid \<noteq> []"
  shows "unsettled s' pid < unsettled s pid"
proof -
  define t where "t = heap_of s pid ! 0"
  obtain s1 s2 where s1: "dodeltimer0 pid (take_nextwhen t (set_status t TMoving s)) = Ret s1" and s2: "doaddtimer pid t s1 = Ret s2"
    and s': "heap_of s' pid = heap_of s2 pid" "status_of s' = (status_of s2)(t := TWaiting)"
    using assms(1) by (auto simp: move_head_def obind_Ret t_def [symmetric])
  have "mset (heap_of s' pid) = mset (heap_of s pid)" "status_of s' = (status_of s)(t := TWaiting)"
    using dodeltimer0_frame [OF s1] doaddtimer_frame(2,5) [OF s2] s' by (simp_all add: t_def)
  then have "unsettled s' pid = size (filter_mset (\<lambda>x. x \<noteq> t \<and> status_of s x \<noteq> TWaiting) (mset (heap_of s pid)))"
    unfolding unsettled_def by (intro arg_cong [of _ _ size] filter_mset_cong) auto
  also have "\<dots> < unsettled s pid"
  proof -
    have "t \<in># mset (heap_of s pid)" using assms(3) by (simp add: t_def)
    then obtain M where "mset (heap_of s pid) = add_mset t M" by (metis insert_DiffM)
    moreover have "size (filter_mset (\<lambda>x. x \<noteq> t \<and> status_of s x \<noteq> TWaiting) M) \<le> size (filter_mset (\<lambda>x. status_of s x \<noteq> TWaiting) M)"
      by (intro size_mset_mono filter_mset_mono_strong) auto
    ultimately show ?thesis using assms(2) by (simp add: unsettled_def t_def [symmetric])
  qed
  finally show ?thesis .
qed

section \<open>The operations\<close>

function cleantimers :: "nat \<Rightarrow> tsys \<Rightarrow> tsys outcome" where
  "cleantimers pid s =
     (if heap_of s pid = [] then Ret s
      else if ts_preemptStop s then Ret s
      else
        let t = heap_of s pid ! 0 in
        if rt_pp (ts_timer s t) \<noteq> pid then Panic ''cleantimers: bad p''
        else if status_of s t = TDeleted then obind (remove_head pid t s) (cleantimers pid)
        else if status_of s t = TModifiedEarlier \<or> status_of s t = TModifiedLater
          then obind (move_head pid t s) (cleantimers pid)
        else Ret s)"
  by pat_completeness auto
termination
  by (relation "measure (\<lambda>(pid, s). unsettled s pid)")
    (auto intro: remove_head_unsettled move_head_unsettled)

definition wakeNetPoller :: "int \<Rightarrow> tsys \<Rightarrow> tsys" where
  "wakeNetPoller when s =
     (if ts_lastpoll s = 0 then
        (if ts_pollUntil s = 0 \<or> ts_pollUntil s > when then s\<lparr>ts_log := ts_log s @ [NetpollBreak]\<rparr> else s)
      else s\<lparr>ts_log := ts_log s @ [Wakep]\<rparr>)"

text \<open>\<open>cur\<close> is the P of the caller.\<close>

definition addtimer :: "nat \<Rightarrow> nat \<Rightarrow> tsys \<Rightarrow> tsys outcome" where
  "addtimer cur t s =
     (if when_of s t \<le> 0 then Panic ''timer when must be positive''
      else if rt_period (ts_timer s t) < 0 then Panic ''timer period must be non-negative''
      else if status_of s t \<noteq> TNoStatus then Panic ''addtimer called with initialized timer''
      else
        let s = set_status t TWaiting s; when = when_of s t
        in obind (cleantimers cur s) (\<lambda>s. obind (doaddtimer cur t s) (\<lambda>s. Ret (wakeNetPoller when s))))"

text \<open>What the two cases that delete the timer do.\<close>

definition mark_deleted :: "nat \<Rightarrow> tsys \<Rightarrow> tsys" where
  "mark_deleted t s =
     (let tpp = rt_pp (ts_timer s t)
      in upd_p tpp (\<lambda>p. p\<lparr>pt_deletedTimers := pt_deletedTimers p + 1\<rparr>) (set_status t TDeleted s))"

definition deltimer :: "nat \<Rightarrow> tsys \<Rightarrow> (tsys \<times> bool) outcome" where
  "deltimer t s = (case status_of s t of
     TWaiting \<Rightarrow> Ret (mark_deleted t s, True)
   | TModifiedLater \<Rightarrow> Ret (mark_deleted t s, True)
   | TModifiedEarlier \<Rightarrow> Ret (mark_deleted t s, True)
   | TDeleted \<Rightarrow> Ret (s, False) | TRemoving \<Rightarrow> Ret (s, False) | TRemoved \<Rightarrow> Ret (s, False)
   | TRunning \<Rightarrow> Blocked | TMoving \<Rightarrow> Blocked
   | TNoStatus \<Rightarrow> Ret (s, False)
   | TModifying \<Rightarrow> Blocked)"

definition mark_modified :: "nat \<Rightarrow> int \<Rightarrow> tsys \<Rightarrow> tsys" where
  "mark_modified t when s =
     (let s = upd_timer t (\<lambda>x. x\<lparr>rt_nextwhen := when\<rparr>) s;
          newStatus = (if when < when_of s t then TModifiedEarlier else TModifiedLater);
          tpp = rt_pp (ts_timer s t);
          s = (if newStatus = TModifiedEarlier then updateTimerModifiedEarliest tpp when s else s);
          s = set_status t newStatus s
      in if newStatus = TModifiedEarlier then wakeNetPoller when s else s)"

definition modtimer :: "nat \<Rightarrow> nat \<Rightarrow> int \<Rightarrow> int \<Rightarrow> nat \<Rightarrow> nat \<Rightarrow> u64 \<Rightarrow> tsys \<Rightarrow> (tsys \<times> bool) outcome" where
  "modtimer cur t when period f arg seq s =
     (if when \<le> 0 then Panic ''timer when must be positive''
      else if period < 0 then Panic ''timer period must be non-negative''
      else
        let status = status_of s t;
            tpp = rt_pp (ts_timer s t);
            fields = (\<lambda>s. upd_timer t (\<lambda>x. x\<lparr>rt_period := period, rt_f := f, rt_arg := arg, rt_seq := seq\<rparr>) (set_status t TModifying s))
        in if status \<in> {TWaiting, TModifiedEarlier, TModifiedLater} then Ret (mark_modified t when (fields s), True)
           else if status \<in> {TNoStatus, TRemoved} then
             obind (doaddtimer cur t (upd_timer t (\<lambda>x. x\<lparr>rt_when := when\<rparr>) (fields s))) (\<lambda>s.
               Ret (wakeNetPoller when (set_status t TWaiting s), False))
           else if status = TDeleted then
             Ret (mark_modified t when (fields (upd_p tpp (\<lambda>p. p\<lparr>pt_deletedTimers := pt_deletedTimers p - 1\<rparr>) s)), False)
           else Blocked)"

definition resettimer :: "nat \<Rightarrow> nat \<Rightarrow> int \<Rightarrow> tsys \<Rightarrow> (tsys \<times> bool) outcome" where
  "resettimer cur t when s =
     (let x = ts_timer s t in modtimer cur t when (rt_period x) (rt_f x) (rt_arg x) (rt_seq x) s)"

text \<open>The loop of \<open>adjusttimers\<close> from index \<open>i\<close>; \<open>moved\<close> are the timers taken off the heap.\<close>

function adjust_loop :: "nat \<Rightarrow> nat \<Rightarrow> nat list \<Rightarrow> tsys \<Rightarrow> (tsys \<times> nat list) outcome" where
  "adjust_loop pid i moved s =
     (if i \<ge> length (heap_of s pid) then Ret (s, moved)
      else
        let t = heap_of s pid ! i in
        if rt_pp (ts_timer s t) \<noteq> pid then Panic ''adjusttimers: bad p''
        else case status_of s t of
          TDeleted \<Rightarrow>
            obind (dodeltimer pid i (set_status t TRemoving s)) (\<lambda>(s, changed).
              adjust_loop pid changed moved
                (upd_p pid (\<lambda>p. p\<lparr>pt_deletedTimers := pt_deletedTimers p - 1\<rparr>) (set_status t TRemoved s)))
        | TModifiedEarlier \<Rightarrow>
            obind (dodeltimer pid i (take_nextwhen t (set_status t TMoving s))) (\<lambda>(s, changed).
              adjust_loop pid changed (moved @ [t]) s)
        | TModifiedLater \<Rightarrow>
            obind (dodeltimer pid i (take_nextwhen t (set_status t TMoving s))) (\<lambda>(s, changed).
              adjust_loop pid changed (moved @ [t]) s)
        | TWaiting \<Rightarrow> adjust_loop pid (i + 1) moved s
        | TModifying \<Rightarrow> Blocked
        | _ \<Rightarrow> Panic corruption)"
  by pat_completeness auto
termination
  by (relation "measures [\<lambda>(pid, i, moved, s). length (heap_of s pid), \<lambda>(pid, i, moved, s). length (heap_of s pid) - i]")
    (auto dest!: dodeltimer_frame(1) [THEN arg_cong, of _ _ _ _ _ size] simp: heap_of_upd)

fun addAdjustedTimers :: "nat \<Rightarrow> nat list \<Rightarrow> tsys \<Rightarrow> tsys outcome" where
  "addAdjustedTimers pid [] s = Ret s"
| "addAdjustedTimers pid (t # moved) s =
     obind (doaddtimer pid t s) (\<lambda>s. addAdjustedTimers pid moved (set_status t TWaiting s))"

definition adjusttimers :: "nat \<Rightarrow> int \<Rightarrow> tsys \<Rightarrow> tsys outcome" where
  "adjusttimers pid now s =
     (let first = pt_modifiedEarliest (ts_p s pid) in
      if first = 0 \<or> first > now then Ret s
      else obind (adjust_loop pid 0 [] (upd_p pid (\<lambda>p. p\<lparr>pt_modifiedEarliest := 0\<rparr>) s)) (\<lambda>(s, moved).
        addAdjustedTimers pid moved s))"

definition nobarrierWakeTime :: "nat \<Rightarrow> tsys \<Rightarrow> int" where
  "nobarrierWakeTime pid s =
     (let next = pt_timer0When (ts_p s pid); nextAdj = pt_modifiedEarliest (ts_p s pid)
      in if next = 0 \<or> nextAdj \<noteq> 0 \<and> nextAdj < next then nextAdj else next)"

text \<open>
  The function of a timer runs with the lock released: \<open>call f arg seq\<close> is what it and the goroutines
  that take the lock meanwhile do to the timers.
\<close>

type_synonym timer_call = "nat \<Rightarrow> nat \<Rightarrow> u64 \<Rightarrow> tsys \<Rightarrow> tsys"

definition next_period :: "int \<Rightarrow> int \<Rightarrow> int \<Rightarrow> int" where
  "next_period now period when =
     (let delta = wrap64 (when - now);
          when = wrap64 (when + wrap64 (period * wrap64 (1 + wrap64 (- delta) sdiv period)))
      in if when < 0 then maxWhen else when)"

definition runOneTimer :: "timer_call \<Rightarrow> nat \<Rightarrow> nat \<Rightarrow> int \<Rightarrow> tsys \<Rightarrow> tsys outcome" where
  "runOneTimer call pid t now s =
     (let x = ts_timer s t in
      obind (if rt_period x > 0 then
               (let s = upd_timer t (\<lambda>x. x\<lparr>rt_when := next_period now (rt_period x) (rt_when x)\<rparr>) s
                in obind (siftdownTimer (when_of s) (heap_of s pid) 0) (\<lambda>ts.
                     Ret (updateTimer0When pid (set_status t TWaiting (upd_p pid (\<lambda>p. p\<lparr>pt_timers := ts\<rparr>) s)))))
             else obind (dodeltimer0 pid s) (\<lambda>s. Ret (set_status t TNoStatus s))) (\<lambda>s.
        Ret (call (rt_f x) (rt_arg x) (rt_seq x) (s\<lparr>ts_log := ts_log s @ [TimerFunc (rt_f x) (rt_arg x) (rt_seq x)]\<rparr>))))"

text \<open>0: a timer ran; -1: there is none left; else the time of the first one.\<close>

function runtimer :: "timer_call \<Rightarrow> nat \<Rightarrow> int \<Rightarrow> tsys \<Rightarrow> (tsys \<times> int) outcome" where
  "runtimer call pid now s =
     (if heap_of s pid = [] then Panic ''index out of range''
      else
        let t = heap_of s pid ! 0 in
        if rt_pp (ts_timer s t) \<noteq> pid then Panic ''runtimer: bad p''
        else case status_of s t of
          TWaiting \<Rightarrow>
            if when_of s t > now then Ret (s, when_of s t)
            else obind (runOneTimer call pid t now (set_status t TRunning s)) (\<lambda>s. Ret (s, 0))
        | TDeleted \<Rightarrow> obind (remove_head pid t s) (\<lambda>s.
            if heap_of s pid = [] then Ret (s, -1) else runtimer call pid now s)
        | TModifiedEarlier \<Rightarrow> obind (move_head pid t s) (runtimer call pid now)
        | TModifiedLater \<Rightarrow> obind (move_head pid t s) (runtimer call pid now)
        | TModifying \<Rightarrow> Blocked
        | _ \<Rightarrow> Panic corruption)"
  by pat_completeness auto
termination
  by (relation "measure (\<lambda>(call, pid, now, s). unsettled s pid)")
    (auto intro: remove_head_unsettled move_head_unsettled)

text \<open>
  \<open>clearDeletedTimers\<close>: the timers that stay move to the front of the array; \<open>js\<close> are the indexes that
  are left, \<open>to\<close> the next free one.
\<close>

fun clear_loop :: "nat list \<Rightarrow> nat list \<Rightarrow> nat \<Rightarrow> nat \<Rightarrow> bool \<Rightarrow> tsys \<Rightarrow> (tsys \<times> nat list \<times> nat \<times> nat) outcome" where
  "clear_loop [] ts to cdel changedHeap s = Ret (s, ts, to, cdel)"
| "clear_loop (j # js) ts to cdel changedHeap s =
     (let t = ts ! j in
      case status_of s t of
        TWaiting \<Rightarrow>
          if changedHeap then obind (siftupTimer (when_of s) (ts[to := t]) to) (\<lambda>(ts, _). clear_loop js ts (to + 1) cdel changedHeap s)
          else clear_loop js ts (to + 1) cdel changedHeap s
      | TModifiedEarlier \<Rightarrow>
          (let s = take_nextwhen t (set_status t TMoving s) in
           obind (siftupTimer (when_of s) (ts[to := t]) to) (\<lambda>(ts, _). clear_loop js ts (to + 1) cdel True (set_status t TWaiting s)))
      | TModifiedLater \<Rightarrow>
          (let s = take_nextwhen t (set_status t TMoving s) in
           obind (siftupTimer (when_of s) (ts[to := t]) to) (\<lambda>(ts, _). clear_loop js ts (to + 1) cdel True (set_status t TWaiting s)))
      | TDeleted \<Rightarrow>
          clear_loop js ts to (cdel + 1) True (set_status t TRemoved (upd_timer t (\<lambda>x. x\<lparr>rt_pp := 0\<rparr>) s))
      | TModifying \<Rightarrow> Blocked
      | _ \<Rightarrow> Panic corruption)"

definition clearDeletedTimers :: "nat \<Rightarrow> tsys \<Rightarrow> tsys outcome" where
  "clearDeletedTimers pid s =
     (let s = upd_p pid (\<lambda>p. p\<lparr>pt_modifiedEarliest := 0\<rparr>) s; timers = heap_of s pid
      in obind (clear_loop [0..<length timers] timers 0 0 False s) (\<lambda>(s, timers, to, cdel).
           let s = upd_p pid (\<lambda>p. p\<lparr>pt_deletedTimers := pt_deletedTimers p - of_nat cdel,
                                   pt_numTimers := pt_numTimers p - of_nat cdel, pt_timers := take to timers\<rparr>) s
           in Ret (updateTimer0When pid s)))"

text \<open>The timers of a P that goes away, to the P \<open>cur\<close>.\<close>

fun moveTimers :: "nat \<Rightarrow> nat list \<Rightarrow> tsys \<Rightarrow> tsys outcome" where
  "moveTimers cur [] s = Ret s"
| "moveTimers cur (t # timers) s =
     (let unlink = upd_timer t (\<lambda>x. x\<lparr>rt_pp := 0\<rparr>) in
      case status_of s t of
        TWaiting \<Rightarrow>
          obind (doaddtimer cur t (unlink (set_status t TMoving s))) (\<lambda>s. moveTimers cur timers (set_status t TWaiting s))
      | TModifiedEarlier \<Rightarrow>
          obind (doaddtimer cur t (unlink (take_nextwhen t (set_status t TMoving s)))) (\<lambda>s. moveTimers cur timers (set_status t TWaiting s))
      | TModifiedLater \<Rightarrow>
          obind (doaddtimer cur t (unlink (take_nextwhen t (set_status t TMoving s)))) (\<lambda>s. moveTimers cur timers (set_status t TWaiting s))
      | TDeleted \<Rightarrow> moveTimers cur timers (unlink (set_status t TRemoved s))
      | TModifying \<Rightarrow> Blocked
      | _ \<Rightarrow> Panic corruption)"

text \<open>The part of \<open>destroy\<close> that is about timers.\<close>

definition destroy_timers :: "nat \<Rightarrow> nat \<Rightarrow> tsys \<Rightarrow> tsys outcome" where
  "destroy_timers plocal pid s =
     (if length (heap_of s pid) > 0 then
        obind (moveTimers plocal (heap_of s pid) s) (\<lambda>s.
          Ret (upd_p pid (\<lambda>p. p\<lparr>pt_timers := [], pt_numTimers := 0, pt_deletedTimers := 0, pt_timer0When := 0\<rparr>) s))
      else Ret s)"

text \<open>The debugging check of the heap.\<close>

definition verifyTimerHeap :: "nat \<Rightarrow> tsys \<Rightarrow> unit outcome" where
  "verifyTimerHeap pid s =
     (let ts = heap_of s pid in
      if \<exists>i<length ts. 0 < i \<and> when_of s (ts ! i) < when_of s (ts ! ((i - 1) div 4)) then Panic ''bad timer heap''
      else if int (length ts) \<noteq> uint (pt_numTimers (ts_p s pid)) then Panic ''bad timer heap len''
      else Ret ())"

section \<open>The scheduler\<close>

text \<open>The loop of \<open>checkTimers\<close>; a timer function that adds a timer that is due each time keeps it going for ever.\<close>

partial_function (option) run_loop :: "timer_call \<Rightarrow> nat \<Rightarrow> int \<Rightarrow> bool \<Rightarrow> tsys \<Rightarrow> (tsys \<times> int \<times> bool) outcome option" where
  "run_loop call pid now any s =
     (if heap_of s pid = [] then Some (Ret (s, 0, any))
      else case runtimer call pid now s of
        Ret (s, tw) \<Rightarrow> if tw \<noteq> 0 then Some (Ret (s, if tw > 0 then tw else 0, any)) else run_loop call pid now True s
      | Panic msg \<Rightarrow> Some (Panic msg)
      | Blocked \<Rightarrow> Some Blocked)"

definition checkTimers :: "timer_call \<Rightarrow> int \<Rightarrow> nat \<Rightarrow> nat \<Rightarrow> int \<Rightarrow> tsys \<Rightarrow> (tsys \<times> int \<times> int \<times> bool) outcome option" where
  "checkTimers call nanotime cur pid now s =
     (let next = nobarrierWakeTime pid s in
      if next = 0 then Some (Ret (s, now, 0, False))
      else
        let now = (if now = 0 then nanotime else now) in
        if now < next \<and> (pid \<noteq> cur \<or> uint (pt_deletedTimers (ts_p s pid)) \<le> uint (pt_numTimers (ts_p s pid) div 4))
        then Some (Ret (s, now, next, False))
        else
          let clear = (\<lambda>(s, pollUntil, any).
                if pid = cur \<and> uint (pt_deletedTimers (ts_p s pid)) > int (length (heap_of s pid) div 4)
                then obind (clearDeletedTimers pid s) (\<lambda>s. Ret (s, now, pollUntil, any))
                else Ret (s, now, pollUntil, any))
          in if heap_of s pid \<noteq> [] then
               (case adjusttimers pid now s of
                  Ret s \<Rightarrow> map_option (\<lambda>r. obind r clear) (run_loop call pid now False s)
                | Panic msg \<Rightarrow> Some (Panic msg)
                | Blocked \<Rightarrow> Some Blocked)
             else Some (clear (s, 0, False)))"

text \<open>The first wake-up time of some Ps; \<open>allp\<close> without the entries that are \<open>nil\<close>.\<close>

definition checkTimersNoP :: "(nat \<times> bool) list \<Rightarrow> int \<Rightarrow> tsys \<Rightarrow> int" where
  "checkTimersNoP allp pollUntil s =
     fold (\<lambda>(pid, mask) pollUntil.
       if mask then (let w = nobarrierWakeTime pid s in if w \<noteq> 0 \<and> (pollUntil = 0 \<or> w < pollUntil) then w else pollUntil)
       else pollUntil) allp pollUntil"

definition timeSleepUntil :: "nat list \<Rightarrow> tsys \<Rightarrow> int" where
  "timeSleepUntil allp s =
     fold (\<lambda>pid next.
       let w = pt_timer0When (ts_p s pid); next = (if w \<noteq> 0 \<and> w < next then w else next);
           w = pt_modifiedEarliest (ts_p s pid)
       in if w \<noteq> 0 \<and> w < next then w else next) allp maxWhen"

section \<open>Package time\<close>

text \<open>
  \<open>timeSleep\<close> prepares the timer \<open>t\<close> of the goroutine \<open>gp\<close> (allocated at its first sleep) and parks; \<open>gopark\<close> then
  calls \<open>resetForSleep\<close>, which starts it. The others are what package \<open>time\<close> calls.
\<close>

definition timeSleep_prepare :: "nat \<Rightarrow> nat \<Rightarrow> int \<Rightarrow> int \<Rightarrow> nat \<Rightarrow> tsys \<Rightarrow> tsys" where
  "timeSleep_prepare goroutineReady gp nanotime ns t s =
     (let nextwhen = wrap64 (nanotime + ns); nextwhen = (if nextwhen < 0 then maxWhen else nextwhen)
      in upd_timer t (\<lambda>x. x\<lparr>rt_f := goroutineReady, rt_arg := gp, rt_nextwhen := nextwhen\<rparr>) s)"

definition resetForSleep :: "nat \<Rightarrow> nat \<Rightarrow> tsys \<Rightarrow> (tsys \<times> bool) outcome" where
  "resetForSleep cur t s = obind (resettimer cur t (rt_nextwhen (ts_timer s t)) s) (\<lambda>(s, _). Ret (s, True))"

definition timeSleep :: "nat \<Rightarrow> nat \<Rightarrow> nat \<Rightarrow> int \<Rightarrow> int \<Rightarrow> nat \<Rightarrow> tsys \<Rightarrow> tsys outcome" where
  "timeSleep goroutineReady cur gp nanotime ns t s =
     (if ns \<le> 0 then Ret s
      else obind (resetForSleep cur t (timeSleep_prepare goroutineReady gp nanotime ns t s)) (\<lambda>(s, _). Ret s))"

definition startTimer :: "nat \<Rightarrow> nat \<Rightarrow> tsys \<Rightarrow> tsys outcome" where
  "startTimer cur t s = addtimer cur t s"

definition stopTimer :: "nat \<Rightarrow> tsys \<Rightarrow> (tsys \<times> bool) outcome" where
  "stopTimer t s = deltimer t s"

definition resetTimer :: "nat \<Rightarrow> nat \<Rightarrow> int \<Rightarrow> tsys \<Rightarrow> (tsys \<times> bool) outcome" where
  "resetTimer cur t when s = resettimer cur t when s"

definition modTimer :: "nat \<Rightarrow> nat \<Rightarrow> int \<Rightarrow> int \<Rightarrow> nat \<Rightarrow> nat \<Rightarrow> u64 \<Rightarrow> tsys \<Rightarrow> tsys outcome" where
  "modTimer cur t when period f arg seq s = obind (modtimer cur t when period f arg seq s) (\<lambda>(s, _). Ret s)"

declare cleantimers.simps [simp del] runtimer.simps [simp del] adjust_loop.simps [simp del]

end
