(* ===== verification/TimersInv.thy ===== *)
theory TimersInv
  imports Timers
begin

text \<open>
  The invariant of the timers: each heap is in order and its counters are exact, a timer that is linked to a P is in
  its heap with a status that fits, and the heap knows a lower bound of the times of the timers that were modified to
  an earlier time. \<open>fires\<close> is what a timer promises: when it will fire, if it will. Taking timers off a
  heap and putting them back keeps both.
\<close>

section \<open>The heap of a P is in order\<close>

definition heap_inv :: "tsys \<Rightarrow> nat \<Rightarrow> bool" where
  "heap_inv s pid \<longleftrightarrow> distinct (heap_of s pid) \<and> heap (when_of s) (heap_of s pid) \<and> (\<forall>t\<in>set (heap_of s pid). rt_pp (ts_timer s t) = pid \<and> 0 < when_of s t)
     \<and> pt_timer0When (ts_p s pid) = (if heap_of s pid = [] then 0 else when_of s (heap_of s pid ! 0))
     \<and> pt_numTimers (ts_p s pid) = of_nat (length (heap_of s pid)) \<and> length (heap_of s pid) < 2 ^ 32"

text \<open>Only the fields of \<open>pid\<close> change.\<close>

definition frame :: "nat \<Rightarrow> tsys \<Rightarrow> tsys \<Rightarrow> bool" where
  "frame pid s s' \<longleftrightarrow> (\<forall>q. q \<noteq> pid \<longrightarrow> ts_p s' q = ts_p s q) \<and> ts_preemptStop s' = ts_preemptStop s
     \<and> ts_lastpoll s' = ts_lastpoll s \<and> ts_pollUntil s' = ts_pollUntil s \<and> ts_log s' = ts_log s"

lemma frame_refl [simp]: "frame pid s s"
  by (simp add: frame_def)

lemma frame_trans: "frame pid s s' \<Longrightarrow> frame pid s' s'' \<Longrightarrow> frame pid s s''"
  by (simp add: frame_def)

lemma frame_upd [simp]:
  "frame pid s (upd_timer t f s)" "frame pid s (upd_p pid g s)" "frame pid s (set_status t st s)" "frame pid s (take_nextwhen t s)"
  "frame pid s (updateTimer0When pid s)" "frame pid s (one_less pid s)"
  by (simp_all add: frame_def upd_timer_def upd_p_def set_status_def take_nextwhen_def updateTimer0When_def one_less_def Let_def)

lemma frame_heap: "frame pid s s' \<Longrightarrow> q \<noteq> pid \<Longrightarrow> heap_of s' q = heap_of s q"
  by (simp add: frame_def heap_of_def)

text \<open>The timer at \<open>i\<close> is taken off. Its own time and status do not matter, and may have changed already.\<close>

lemma least_of_heap:
  assumes "heap w xs" "heap w ys" and "xs \<noteq> []" "ys \<noteq> []" and "xs ! 0 \<in> set ys" "ys ! 0 \<in> set xs"
  shows "w (xs ! 0) = w (ys ! 0)"
  using heap_root [OF assms(1,6)] heap_root [OF assms(2,5)] by simp

lemma sift_both_ok:
  assumes "i < length xs" and "distinct xs" and "heap w0 xs" and "\<And>x. x \<in> set xs \<Longrightarrow> x \<noteq> xs ! i \<Longrightarrow> w x = w0 x \<and> 0 < w x"
  obtains ys k where "sift_both w (fill_last xs i) i (length xs - 1) = Ret (ys, k)" "k \<le> i" "mset ys = mset (fill_last xs i)"
    "heap w ys" "\<And>j. j < k \<Longrightarrow> ys ! j = xs ! j"
proof (cases "i = length xs - 1")
  case True
  have "heap w (fill_last xs i)" using heap_fill_last(2) [OF assms(3,2,1), of w] assms(4) True by blast
  moreover have "fill_last xs i ! j = xs ! j" if "j < i" for j using that True by (simp add: fill_last_nth)
  ultimately show thesis using that [of "fill_last xs i" i] True by (simp add: sift_both_def)
next
  case False
  define zs where "zs = fill_last xs i"
  have i: "i < length zs" using assms(1) False by (simp add: zs_def)
  have in_zs: "x \<in> set zs \<Longrightarrow> x \<in> set xs \<and> x \<noteq> xs ! i" for x
  proof -
    have m: "mset xs = add_mset (xs ! i) (mset zs)" using fill_last_mset [OF assms(1)] by (simp add: zs_def)
    then have "distinct (xs ! i # zs)" using assms(2) by (metis mset.simps(2) mset_eq_imp_distinct_iff)
    moreover have "set xs = insert (xs ! i) (set zs)" using m by (metis mset.simps(2) mset_eq_setD list.simps(15))
    ultimately show "x \<in> set zs \<Longrightarrow> x \<in> set xs \<and> x \<noteq> xs ! i" by auto
  qed
  have pos: "0 < w (ys ! i)" if "mset ys = mset zs" for ys
    using that i in_zs assms(4) by (metis mset_eq_length mset_eq_setD nth_mem)
  have but: "heap_but w zs i" unfolding zs_def using heap_fill_last(1) [OF assms(3,2,1), of w] assms(4) by blast
  obtain ys k where u: "siftupTimer w zs i = Ret (ys, k)" "k \<le> i" "mset ys = mset zs" "\<And>j. j < k \<or> i < j \<Longrightarrow> ys ! j = zs ! j" "heap_below w ys i"
    using siftupTimer_ok [of i zs w, OF i pos [OF refl]] but by metis
  have i': "i < length ys" using u(3) i by (metis size_mset)
  obtain vs where d: "siftdownTimer w ys i = Ret vs" "mset vs = mset ys" "\<And>j. j < i \<Longrightarrow> vs ! j = ys ! j" "heap w vs"
    using siftdownTimer_ok [of i ys w, OF i' pos [OF u(3)]] u(5) by metis
  have "sift_both w zs i (length xs - 1) = Ret (vs, k)" using u(1) d(1) False by (simp add: sift_both_def)
  moreover have "vs ! j = xs ! j" if "j < k" for j
  proof -
    have "vs ! j = zs ! j" using d(3) [of j] u(4) [of j] u(2) that by simp
    then show ?thesis using that u(2) i by (simp add: zs_def fill_last_nth)
  qed
  ultimately show thesis using that u(2,3) d(2,4) unfolding zs_def by simp
qed

lemma one_less_fields [simp]:
  "pt_timers (ts_p (one_less pid s) pid) = pt_timers (ts_p s pid)" "pt_timer0When (ts_p (one_less pid s) pid) = pt_timer0When (ts_p s pid)"
  "pt_deletedTimers (ts_p (one_less pid s) pid) = pt_deletedTimers (ts_p s pid)" "pt_numTimers (ts_p (one_less pid s) pid) = pt_numTimers (ts_p s pid) - 1"
  "pt_modifiedEarliest (ts_p (one_less pid s) pid) = (if pt_numTimers (ts_p s pid) = 1 then 0 else pt_modifiedEarliest (ts_p s pid))"
  by (simp_all add: one_less_def Let_def)

lemma updateTimer0When_fields [simp]:
  "pt_timers (ts_p (updateTimer0When pid s) pid) = pt_timers (ts_p s pid)" "pt_numTimers (ts_p (updateTimer0When pid s) pid) = pt_numTimers (ts_p s pid)"
  "pt_deletedTimers (ts_p (updateTimer0When pid s) pid) = pt_deletedTimers (ts_p s pid)"
  "pt_modifiedEarliest (ts_p (updateTimer0When pid s) pid) = pt_modifiedEarliest (ts_p s pid)"
  "pt_timer0When (ts_p (updateTimer0When pid s) pid) = (if heap_of s pid = [] then 0 else when_of s (heap_of s pid ! 0))"
  by (simp_all add: updateTimer0When_def heap_of_def)

lemma when_of_simps [simp]: "when_of (one_less pid s) = when_of s" "when_of (updateTimer0When pid s) = when_of s"
  by (simp_all add: when_of_def fun_eq_iff)

lemma of_nat_len: "0 < n \<Longrightarrow> n < 2 ^ 32 \<Longrightarrow> (of_nat n :: u32) - 1 = of_nat (n - 1) \<and> ((of_nat n :: u32) = 1 \<longleftrightarrow> n = 1)"
  by (auto simp: word_unat_eq_iff unat_of_nat of_nat_diff Suc_le_eq)

lemma dodeltimer_ok:
  fixes s0 s :: tsys and pid i :: nat
  defines "t \<equiv> heap_of s pid ! i"
  assumes inv: "heap_inv s0 pid" and i: "i < length (heap_of s0 pid)"
    and same: "heap_of s pid = heap_of s0 pid" "pt_timer0When (ts_p s pid) = pt_timer0When (ts_p s0 pid)"
      "pt_numTimers (ts_p s pid) = pt_numTimers (ts_p s0 pid)"
    and others: "\<And>x. x \<in> set (heap_of s pid) \<Longrightarrow> x \<noteq> t \<Longrightarrow> ts_timer s x = ts_timer s0 x" and pp: "rt_pp (ts_timer s t) = pid"
  obtains s' k where "dodeltimer pid i s = Ret (s', k)" "k \<le> i" "heap_inv s' pid" "mset (heap_of s pid) = add_mset t (mset (heap_of s' pid))"
    "ts_timer s' = (ts_timer s)(t := (ts_timer s t)\<lparr>rt_pp := 0\<rparr>)" "frame pid s s'" "pt_deletedTimers (ts_p s' pid) = pt_deletedTimers (ts_p s pid)"
    "pt_modifiedEarliest (ts_p s' pid) = (if heap_of s' pid = [] then 0 else pt_modifiedEarliest (ts_p s pid))"
    "\<And>j. j < k \<Longrightarrow> heap_of s' pid ! j = heap_of s pid ! j"
proof -
  let ?xs = "heap_of s pid" and ?s = "upd_timer t (\<lambda>x. x\<lparr>rt_pp := 0\<rparr>) s"
  have inv': "distinct ?xs" "heap (when_of s0) ?xs" "\<forall>x\<in>set ?xs. rt_pp (ts_timer s0 x) = pid \<and> 0 < when_of s0 x"
    "pt_timer0When (ts_p s pid) = when_of s0 (?xs ! 0)" "pt_numTimers (ts_p s pid) = of_nat (length ?xs)" "length ?xs < 2 ^ 32"
    using inv i unfolding heap_inv_def same by auto
  have i: "i < length ?xs" using i same(1) by simp
  have w: "when_of ?s x = when_of s0 x \<and> 0 < when_of ?s x" if "x \<in> set ?xs" "x \<noteq> ?xs ! i" for x
    using that others [of x] inv'(3) by (simp add: t_def when_of_def)
  obtain ys k where ys: "sift_both (when_of ?s) (fill_last ?xs i) i (length ?xs - 1) = Ret (ys, k)" "k \<le> i" "mset ys = mset (fill_last ?xs i)"
      "heap (when_of ?s) ys" "\<And>j. j < k \<Longrightarrow> ys ! j = ?xs ! j"
    using sift_both_ok [of i ?xs "when_of s0" "when_of ?s", OF i inv'(1,2) w] by metis
  define s1 where "s1 = upd_p pid (\<lambda>p. p\<lparr>pt_timers := ys\<rparr>) ?s"
  define s' where "s' = one_less pid (if i = 0 then updateTimer0When pid s1 else s1)"
  have run: "dodeltimer pid i s = Ret (s', k)"
    unfolding dodeltimer_alt [OF i pp [unfolded t_def]] using ys(1) by (simp add: s'_def s1_def t_def [symmetric])
  have m: "mset ?xs = add_mset t (mset ys)" using fill_last_mset [OF i] ys(3) by (simp add: t_def)
  have len: "length ?xs = Suc (length ys)" using arg_cong [OF m, of size] by simp
  have t: "ts_timer s' = (ts_timer s)(t := (ts_timer s t)\<lparr>rt_pp := 0\<rparr>)" "heap_of s' pid = ys" "when_of s' = when_of ?s"
    by (simp_all add: s'_def s1_def when_of_def fun_eq_iff)
  have d: "distinct (t # ys)" using m inv'(1) by (metis mset.simps(2) mset_eq_imp_distinct_iff)
  have set: "set ?xs = insert t (set ys)" using m by (metis mset.simps(2) mset_eq_setD list.simps(15))
  have num: "pt_numTimers (ts_p s' pid) = of_nat (length ys)" "pt_numTimers (ts_p s1 pid) = 1 \<longleftrightarrow> ys = []"
    using of_nat_len [of "length ?xs"] inv'(5,6) len by (simp_all add: s'_def s1_def)
  have t0: "pt_timer0When (ts_p s' pid) = (if ys = [] then 0 else when_of ?s (ys ! 0))"
  proof (cases "i = 0")
    case False
    then have ne: "ys \<noteq> []" "?xs ! 0 \<noteq> ?xs ! i" using i len inv'(1) by (auto simp: nth_eq_iff_index_eq)
    have y: "ys ! 0 \<in> set ys" using ne(1) by (intro nth_mem) simp
    have x: "?xs ! 0 \<in> set ?xs" by (rule nth_mem) (use i in linarith)
    have nt: "t \<notin> set ys" using d by simp
    have mem: "?xs ! 0 \<in> set ys" "ys ! 0 \<in> set ?xs" using x y set ne(2) by (auto simp: t_def)
    have ny: "ys ! 0 \<noteq> t" using y nt by metis
    have "when_of s0 (?xs ! 0) \<le> when_of s0 (ys ! 0)" using heap_root [OF inv'(2) mem(2)] .
    moreover have "when_of ?s (ys ! 0) \<le> when_of ?s (?xs ! 0)" using heap_root [OF ys(4) mem(1)] .
    moreover have "when_of ?s (?xs ! 0) = when_of s0 (?xs ! 0)" "when_of ?s (ys ! 0) = when_of s0 (ys ! 0)"
      using w [OF mem(2)] w [OF x ne(2)] ny by (simp_all add: t_def)
    ultimately show ?thesis using False ne inv'(4) by (simp add: s'_def s1_def)
  qed (simp add: s'_def s1_def)
  have "rt_pp (ts_timer s' x) = pid \<and> 0 < when_of s' x" if "x \<in> set ys" for x
  proof -
    have "x \<noteq> t" "x \<in> set ?xs" using that d set by auto
    then show ?thesis using w [of x] others [of x] inv'(3) t by (simp add: t_def)
  qed
  then have "heap_inv s' pid" using ys(4) d t num(1) t0 inv'(6) len by (simp add: heap_inv_def)
  moreover have "frame pid s s'"
    by (auto simp: s'_def s1_def intro: frame_trans [OF frame_upd(1) frame_trans [OF frame_upd(2) frame_trans [OF frame_upd(5) frame_upd(6)]]]
        frame_trans [OF frame_upd(1) frame_trans [OF frame_upd(2) frame_upd(6)]])
  moreover have "pt_deletedTimers (ts_p s' pid) = pt_deletedTimers (ts_p s pid)"
    "pt_modifiedEarliest (ts_p s' pid) = (if heap_of s' pid = [] then 0 else pt_modifiedEarliest (ts_p s pid))"
    using num(2) t(2) by (auto simp: s'_def s1_def)
  moreover have "heap_of s' pid ! j = ?xs ! j" if "j < k" for j using ys(5) that t(2) by simp
  ultimately show thesis using that [OF run ys(2)] m t(1,2) by simp
qed

lemma doaddtimer_ok:
  assumes inv: "heap_inv s pid" and pp: "rt_pp (ts_timer s t) = 0" "pid \<noteq> 0" and w: "0 < when_of s t" and room: "length (heap_of s pid) + 1 < 2 ^ 32"
  obtains s' where "doaddtimer pid t s = Ret s'" "heap_inv s' pid" "mset (heap_of s' pid) = add_mset t (mset (heap_of s pid))"
    "ts_timer s' = (ts_timer s)(t := (ts_timer s t)\<lparr>rt_pp := pid\<rparr>)" "frame pid s s'" "pt_deletedTimers (ts_p s' pid) = pt_deletedTimers (ts_p s pid)"
    "pt_modifiedEarliest (ts_p s' pid) = pt_modifiedEarliest (ts_p s pid)"
proof -
  let ?xs = "heap_of s pid" and ?s = "upd_timer t (\<lambda>x. x\<lparr>rt_pp := pid\<rparr>) (s\<lparr>ts_netpollInited := True\<rparr>)"
  have inv': "distinct ?xs" "heap (when_of s) ?xs" "\<forall>x\<in>set ?xs. rt_pp (ts_timer s x) = pid \<and> 0 < when_of s x"
    "pt_timer0When (ts_p s pid) = (if ?xs = [] then 0 else when_of s (?xs ! 0))" "pt_numTimers (ts_p s pid) = of_nat (length ?xs)"
    using inv unfolding heap_inv_def by auto
  have new: "t \<notin> set ?xs" using inv'(3) pp by auto
  have w': "when_of ?s = when_of s" by (simp add: when_of_def fun_eq_iff)
  have h: "heap_of ?s = heap_of s" by (simp add: heap_of_def fun_eq_iff)
  have i: "length ?xs < length (?xs @ [t])" "0 < when_of s ((?xs @ [t]) ! length ?xs)" using w by simp_all
  obtain ys k where ys: "siftupTimer (when_of s) (?xs @ [t]) (length ?xs) = Ret (ys, k)" "mset ys = mset (?xs @ [t])" "heap (when_of s) ys"
    using siftupTimer_ok [of "length ?xs" "?xs @ [t]" "when_of s", OF i] heap_append [OF inv'(2)] by metis
  define s1 where "s1 = upd_p pid (\<lambda>p. p\<lparr>pt_timers := ys\<rparr>) ?s"
  define s2 where "s2 = (if t = ys ! 0 then upd_p pid (\<lambda>p. p\<lparr>pt_timer0When := when_of s1 t\<rparr>) s1 else s1)"
  define s' where "s' = upd_p pid (\<lambda>p. p\<lparr>pt_numTimers := pt_numTimers p + 1\<rparr>) s2"
  have run: "doaddtimer pid t s = Ret s'"
    unfolding doaddtimer_def Let_def h w' using pp(1) ys(1) by (simp add: h w' s'_def s2_def s1_def)
  have t: "ts_timer s' = (ts_timer s)(t := (ts_timer s t)\<lparr>rt_pp := pid\<rparr>)" "heap_of s' pid = ys" "when_of s' = when_of s"
    by (simp_all add: s'_def s2_def s1_def when_of_def fun_eq_iff heap_of_def)
  have m: "mset ys = add_mset t (mset ?xs)" using ys(2) by simp
  have "distinct (?xs @ [t])" using new inv'(1) by simp
  then have d: "distinct ys" using mset_eq_imp_distinct_iff [OF ys(2)] by simp
  have set: "set ys = insert t (set ?xs)" using mset_eq_setD [OF ys(2)] by simp
  have len: "length ys = Suc (length ?xs)" using arg_cong [OF m, of size] by simp
  have t0: "pt_timer0When (ts_p s' pid) = when_of s (ys ! 0)"
  proof (cases "t = ys ! 0")
    case True
    then show ?thesis by (simp add: s'_def s2_def s1_def w' when_of_def)
  next
    case False
    have "ys ! 0 \<in> set ys" using len by (intro nth_mem) simp
    then have mem: "ys ! 0 \<in> set ?xs" "?xs \<noteq> []" using False set by auto
    moreover have mem': "?xs ! 0 \<in> set ys" using mem(2) set by simp
    ultimately have "when_of s (?xs ! 0) = when_of s (ys ! 0)"
      using heap_root [OF inv'(2) mem(1)] heap_root [OF ys(3) mem'] by simp
    then show ?thesis using False inv'(4) mem(2) by (simp add: s'_def s2_def s1_def)
  qed
  have "pt_numTimers (ts_p s' pid) = of_nat (length ys)" using inv'(5) len by (simp add: s'_def s2_def s1_def)
  moreover have "rt_pp (ts_timer s' x) = pid \<and> 0 < when_of s' x" if "x \<in> set ys" for x
    using that inv'(3) set w t(1,3) by auto
  ultimately have "heap_inv s' pid" using ys(3) d t t0 room len by (auto simp: heap_inv_def)
  moreover have "frame pid s s'" by (simp add: frame_def s'_def s2_def s1_def upd_timer_def upd_p_def)
  moreover have "pt_deletedTimers (ts_p s' pid) = pt_deletedTimers (ts_p s pid)" "pt_modifiedEarliest (ts_p s' pid) = pt_modifiedEarliest (ts_p s pid)"
    by (simp_all add: s'_def s2_def s1_def)
  ultimately show thesis using that [OF run] m t(1,2) by simp
qed

section \<open>The timers of the system\<close>

text \<open>A timer in the heap of a P.\<close>

definition timer_ok :: "tsys \<Rightarrow> nat \<Rightarrow> nat \<Rightarrow> bool" where
  "timer_ok s pid t \<longleftrightarrow> (let x = ts_timer s t in rt_pp x = pid \<and> 0 < rt_when x \<and> rt_when x \<le> maxWhen \<and> 0 \<le> rt_period x \<and> rt_period x \<le> maxWhen
     \<and> (case rt_status x of TWaiting \<Rightarrow> True | TDeleted \<Rightarrow> True | TModifiedEarlier \<Rightarrow> 0 < rt_nextwhen x \<and> rt_nextwhen x < rt_when x
        | TModifiedLater \<Rightarrow> rt_when x \<le> rt_nextwhen x \<and> rt_nextwhen x \<le> maxWhen | _ \<Rightarrow> False))"

text \<open>\<open>T\<close> are the timers that an operation has taken off a heap and not put back yet.\<close>

definition core :: "nat set \<Rightarrow> tsys \<Rightarrow> bool" where
  "core T s \<longleftrightarrow> (\<forall>pid. pid \<noteq> 0 \<longrightarrow> heap_inv s pid \<and> (\<forall>t\<in>set (heap_of s pid). timer_ok s pid t))
     \<and> (\<forall>t. rt_pp (ts_timer s t) \<noteq> 0 \<longrightarrow> t \<in> set (heap_of s (rt_pp (ts_timer s t))))
     \<and> (\<forall>t. rt_pp (ts_timer s t) = 0 \<longrightarrow> t \<in> T \<or> status_of s t = TNoStatus \<or> status_of s t = TRemoved)
     \<and> (\<forall>t\<in>T. rt_pp (ts_timer s t) = 0)"

definition deleted_count :: "tsys \<Rightarrow> nat \<Rightarrow> nat" where
  "deleted_count s pid = size (filter_mset (\<lambda>t. status_of s t = TDeleted) (mset (heap_of s pid)))"

definition deleted_ok :: "tsys \<Rightarrow> nat \<Rightarrow> bool" where
  "deleted_ok s pid \<longleftrightarrow> pt_deletedTimers (ts_p s pid) = of_nat (deleted_count s pid)"

definition earliest_ok :: "tsys \<Rightarrow> nat \<Rightarrow> bool" where
  "earliest_ok s pid \<longleftrightarrow> 0 \<le> pt_modifiedEarliest (ts_p s pid) \<and> (\<forall>t\<in>set (heap_of s pid). status_of s t = TModifiedEarlier \<longrightarrow>
     pt_modifiedEarliest (ts_p s pid) \<noteq> 0 \<and> pt_modifiedEarliest (ts_p s pid) \<le> rt_nextwhen (ts_timer s t))"

definition inv_off :: "nat set \<Rightarrow> tsys \<Rightarrow> bool" where
  "inv_off T s \<longleftrightarrow> core T s \<and> (\<forall>pid. pid \<noteq> 0 \<longrightarrow> deleted_ok s pid \<and> earliest_ok s pid)"

abbreviation timers_inv :: "tsys \<Rightarrow> bool" where
  "timers_inv \<equiv> inv_off {}"

text \<open>When a timer will fire: the specification of the state of a timer.\<close>

definition fires :: "tsys \<Rightarrow> nat \<Rightarrow> int option" where
  "fires s t = (let x = ts_timer s t in case rt_status x of TWaiting \<Rightarrow> Some (rt_when x)
     | TModifiedEarlier \<Rightarrow> Some (rt_nextwhen x) | TModifiedLater \<Rightarrow> Some (rt_nextwhen x) | _ \<Rightarrow> None)"

text \<open>The heaps are as they were; the counters may change.\<close>

definition same_heaps :: "tsys \<Rightarrow> tsys \<Rightarrow> bool" where
  "same_heaps s s' \<longleftrightarrow> (\<forall>q. pt_timers (ts_p s' q) = pt_timers (ts_p s q) \<and> pt_timer0When (ts_p s' q) = pt_timer0When (ts_p s q)
     \<and> pt_numTimers (ts_p s' q) = pt_numTimers (ts_p s q))"

lemma same_heaps_refl [simp]: "same_heaps s s"
  by (simp add: same_heaps_def)

lemma same_heaps_upd [simp]:
  "same_heaps s (upd_timer t f s') = same_heaps s s'" "same_heaps s (set_status t st s') = same_heaps s s'" "same_heaps s (take_nextwhen t s') = same_heaps s s'"
  "same_heaps s (upd_p q (\<lambda>p. p\<lparr>pt_deletedTimers := d p\<rparr>) s') = same_heaps s s'"
  "same_heaps s (upd_p q (\<lambda>p. p\<lparr>pt_modifiedEarliest := m p\<rparr>) s') = same_heaps s s'"
  by (auto simp: same_heaps_def set_status_def take_nextwhen_def split: if_splits)

lemma same_heaps_heap: "same_heaps s s' \<Longrightarrow> heap_of s' = heap_of s"
  by (simp add: same_heaps_def heap_of_def fun_eq_iff)

lemma heap_inv_cong:
  assumes "same_heaps s s'" and "\<And>t. t \<in> set (heap_of s pid) \<Longrightarrow> rt_pp (ts_timer s' t) = rt_pp (ts_timer s t) \<and> when_of s' t = when_of s t"
  shows "heap_inv s' pid = heap_inv s pid"
proof -
  have h: "heap_of s' = heap_of s" using same_heaps_heap [OF assms(1)] .
  have "heap (when_of s') (heap_of s pid) = heap (when_of s) (heap_of s pid)" using assms(2) by (intro heap_cong) simp
  moreover have "when_of s' (heap_of s pid ! 0) = when_of s (heap_of s pid ! 0)" if "heap_of s pid \<noteq> []"
    using assms(2) that by (meson length_greater_0_conv nth_mem)
  ultimately show ?thesis using assms(2) assms(1) [unfolded same_heaps_def] unfolding heap_inv_def h by auto
qed

lemma coreD:
  assumes "core T s"
  shows "pid \<noteq> 0 \<Longrightarrow> heap_inv s pid" "pid \<noteq> 0 \<Longrightarrow> t \<in> set (heap_of s pid) \<Longrightarrow> timer_ok s pid t"
    "t \<in> T \<Longrightarrow> rt_pp (ts_timer s t) = 0" "pid \<noteq> 0 \<Longrightarrow> rt_pp (ts_timer s t) = pid \<Longrightarrow> t \<in> set (heap_of s pid)"
    "rt_pp (ts_timer s t) = 0 \<Longrightarrow> t \<notin> T \<Longrightarrow> status_of s t = TNoStatus \<or> status_of s t = TRemoved"
  using assms unfolding core_def by blast+

lemma core_member: "core T s \<Longrightarrow> pid \<noteq> 0 \<Longrightarrow> t \<in> set (heap_of s pid) \<longleftrightarrow> rt_pp (ts_timer s t) = pid"
  using coreD(2) [of T s pid t] coreD(4) [of T s pid t] by (auto simp: timer_ok_def Let_def)

text \<open>A timer that is off the heaps may change as it likes.\<close>

lemma core_off:
  assumes "core T s" and "t \<in> T" and "same_heaps s s'" and "ts_timer s' = (ts_timer s)(t := x)" and "rt_pp x = 0"
  shows "core T s'"
proof -
  have off: "u \<noteq> t" if "u \<in> set (heap_of s pid)" "pid \<noteq> 0" for u pid
    using coreD(3) [OF assms(1,2)] core_member [OF assms(1) that(2)] that by metis
  have h: "heap_of s' = heap_of s" using same_heaps_heap [OF assms(3)] .
  have "heap_inv s' pid \<and> (\<forall>u\<in>set (heap_of s pid). timer_ok s' pid u)" if "pid \<noteq> 0" for pid
  proof -
    have e: "ts_timer s' u = ts_timer s u" if "u \<in> set (heap_of s pid)" for u
      using off [OF that \<open>pid \<noteq> 0\<close>] assms(4) by simp
    have "heap_inv s' pid" using heap_inv_cong [OF assms(3), of pid] coreD(1) [OF assms(1) that] e by (simp add: when_of_def)
    moreover have "timer_ok s' pid u" if "u \<in> set (heap_of s pid)" for u
      using coreD(2) [OF assms(1) \<open>pid \<noteq> 0\<close> that] e [OF that] by (simp add: timer_ok_def)
    ultimately show ?thesis by blast
  qed
  then show ?thesis using assms unfolding core_def h by (auto simp: status_of_def)
qed

lemma core_drop:
  assumes "core T s" and "t \<in> T" and "st = TNoStatus \<or> st = TRemoved"
  shows "core (T - {t}) (set_status t st s)"
proof -
  have "core T (set_status t st s)"
    using core_off [OF assms(1,2), of "set_status t st s"] coreD(3) [OF assms(1,2)] by (simp add: set_status_def)
  then show ?thesis using assms(2,3) unfolding core_def by (auto simp: set_status_def upd_timer_def status_of_def split: if_splits)
qed

text \<open>Taking a timer off its heap.\<close>

lemma take_ok:
  assumes "core T s" and "pid \<noteq> 0" and i: "i < length (heap_of s pid)" and t: "t = heap_of s pid ! i"
    and s1: "same_heaps s s1" "ts_timer s1 = (ts_timer s)(t := x)" and x: "rt_pp x = pid"
  obtains s2 k where "dodeltimer pid i s1 = Ret (s2, k)" "k \<le> i" "core (insert t T) s2" "mset (heap_of s pid) = add_mset t (mset (heap_of s2 pid))"
    "ts_timer s2 = (ts_timer s)(t := x\<lparr>rt_pp := 0\<rparr>)" "frame pid s1 s2" "pt_deletedTimers (ts_p s2 pid) = pt_deletedTimers (ts_p s1 pid)"
    "pt_modifiedEarliest (ts_p s2 pid) = (if heap_of s2 pid = [] then 0 else pt_modifiedEarliest (ts_p s1 pid))"
    "\<And>j. j < k \<Longrightarrow> heap_of s2 pid ! j = heap_of s pid ! j"
proof -
  have h: "heap_of s1 = heap_of s" using same_heaps_heap [OF s1(1)] .
  have eq: "pt_timer0When (ts_p s1 pid) = pt_timer0When (ts_p s pid)" "pt_numTimers (ts_p s1 pid) = pt_numTimers (ts_p s pid)"
    using s1(1) by (simp_all add: same_heaps_def)
  have oth: "u \<noteq> heap_of s1 pid ! i \<Longrightarrow> ts_timer s1 u = ts_timer s u" for u using s1(2) t h by simp
  have pp: "rt_pp (ts_timer s1 (heap_of s1 pid ! i)) = pid" using s1(2) t x h by simp
  obtain s2 k where d: "dodeltimer pid i s1 = Ret (s2, k)" "k \<le> i" "heap_inv s2 pid" "mset (heap_of s pid) = add_mset t (mset (heap_of s2 pid))"
    "ts_timer s2 = (ts_timer s)(t := x\<lparr>rt_pp := 0\<rparr>)" "frame pid s1 s2" "pt_deletedTimers (ts_p s2 pid) = pt_deletedTimers (ts_p s1 pid)"
    "pt_modifiedEarliest (ts_p s2 pid) = (if heap_of s2 pid = [] then 0 else pt_modifiedEarliest (ts_p s1 pid))"
    "\<forall>j<k. heap_of s2 pid ! j = heap_of s pid ! j"
  proof (rule dodeltimer_ok [of s pid i s1, OF coreD(1) [OF assms(1,2)] i fun_cong [OF h] eq], goal_cases)
    case (1 u)
    then show ?case using oth by simp
  next
    case 2
    then show ?case using pp by simp
  next
    case (3 s2 k)
    then show ?case using that [of s2 k] s1(2) unfolding h t [symmetric] by simp
  qed
  have tin: "t \<in> set (heap_of s pid)" using i t by simp
  have set2: "set (heap_of s pid) = insert t (set (heap_of s2 pid))" using d(4) by (metis mset.simps(2) mset_eq_setD list.simps(15))
  have dist: "t \<notin> set (heap_of s2 pid)"
    using mset_eq_imp_distinct_iff [of "heap_of s pid" "t # heap_of s2 pid"] d(4) coreD(1) [OF assms(1,2)] by (simp add: heap_inv_def)
  have tT: "t \<notin> T" using coreD(3) [OF assms(1), of t] core_member [OF assms(1,2), of t] tin assms(2) by auto
  have other: "heap_of s2 q = heap_of s q" if "q \<noteq> pid" for q using frame_heap [OF d(6) that] h by simp
  have tq: "t \<notin> set (heap_of s q)" if "q \<noteq> pid" "q \<noteq> 0" for q
    using core_member [OF assms(1) that(2), of t] core_member [OF assms(1,2), of t] tin that by simp
  have A: "heap_inv s2 q \<and> (\<forall>u\<in>set (heap_of s2 q). timer_ok s2 q u)" if "q \<noteq> 0" for q
  proof (cases "q = pid")
    case True
    have "timer_ok s2 pid u" if "u \<in> set (heap_of s2 pid)" for u
    proof -
      have "u \<noteq> t" "u \<in> set (heap_of s pid)" using that dist set2 by auto
      then show ?thesis using coreD(2) [OF assms(1,2)] d(5) by (auto simp: timer_ok_def)
    qed
    then show ?thesis using d(3) True by blast
  next
    case False
    have e: "ts_timer s2 u = ts_timer s u" if "u \<in> set (heap_of s q)" for u using that tq [OF False \<open>q \<noteq> 0\<close>] d(5) by auto
    have "ts_p s2 q = ts_p s1 q" using d(6) False by (simp add: frame_def)
    then have "pt_timers (ts_p s2 q) = pt_timers (ts_p s q)" "pt_timer0When (ts_p s2 q) = pt_timer0When (ts_p s q)" "pt_numTimers (ts_p s2 q) = pt_numTimers (ts_p s q)"
      using s1(1) by (simp_all add: same_heaps_def)
    then have "heap_inv s2 q"
      using coreD(1) [OF assms(1) that] e heap_cong [of "heap_of s q" "when_of s2" "when_of s"]
      by (auto simp: heap_inv_def heap_of_def when_of_def)
    moreover have "timer_ok s2 q u" if "u \<in> set (heap_of s2 q)" for u
      using that coreD(2) [OF assms(1) \<open>q \<noteq> 0\<close>, of u] e [of u] other [OF False] by (simp add: timer_ok_def)
    ultimately show ?thesis by blast
  qed
  have B: "u \<in> set (heap_of s2 (rt_pp (ts_timer s2 u)))" if "rt_pp (ts_timer s2 u) \<noteq> 0" for u
  proof -
    have u: "u \<noteq> t" "ts_timer s2 u = ts_timer s u" using that d(5) by (auto split: if_splits)
    then have "u \<in> set (heap_of s (rt_pp (ts_timer s u)))" using coreD(4) [OF assms(1), of "rt_pp (ts_timer s u)" u] that by simp
    then show ?thesis using u set2 other [of "rt_pp (ts_timer s u)"] by (cases "rt_pp (ts_timer s u) = pid") auto
  qed
  have C: "u \<in> insert t T \<or> status_of s2 u = TNoStatus \<or> status_of s2 u = TRemoved" if "rt_pp (ts_timer s2 u) = 0" for u
    using that coreD(5) [OF assms(1), of u] d(5) by (auto simp: status_of_def split: if_splits)
  have D: "rt_pp (ts_timer s2 u) = 0" if "u \<in> insert t T" for u
    using that coreD(3) [OF assms(1), of u] d(5) by auto
  have "core (insert t T) s2" unfolding core_def using A B C D by (intro conjI allI impI) simp_all
  then show thesis using that [OF d(1,2)] d(4-9) by simp
qed

lemma heap_inv_local:
  assumes p: "ts_p s' q = ts_p s q" and same: "\<And>t. t \<in> set (heap_of s q) \<Longrightarrow> rt_pp (ts_timer s' t) = rt_pp (ts_timer s t) \<and> when_of s' t = when_of s t"
  shows "heap_inv s' q = heap_inv s q"
proof -
  have h: "heap_of s' q = heap_of s q" using p by (simp add: heap_of_def)
  have "heap (when_of s') (heap_of s q) = heap (when_of s) (heap_of s q)" using same by (intro heap_cong) simp
  moreover have "when_of s' (heap_of s q ! 0) = when_of s (heap_of s q ! 0)" if "heap_of s q \<noteq> []"
    using same that by (meson length_greater_0_conv nth_mem)
  ultimately show ?thesis using same unfolding heap_inv_def h p by auto
qed

text \<open>Putting a timer on a heap.\<close>

lemma put_ok:
  assumes "core T s" and "pid \<noteq> 0" and t: "t \<in> T" and w: "0 < when_of s t" "when_of s t \<le> maxWhen"
    and p: "0 \<le> rt_period (ts_timer s t)" "rt_period (ts_timer s t) \<le> maxWhen" and room: "length (heap_of s pid) + 1 < 2 ^ 32"
  obtains s' where "doaddtimer pid t s = Ret s'" "core (T - {t}) (set_status t TWaiting s')" "mset (heap_of s' pid) = add_mset t (mset (heap_of s pid))"
    "ts_timer s' = (ts_timer s)(t := (ts_timer s t)\<lparr>rt_pp := pid\<rparr>)" "frame pid s s'" "pt_deletedTimers (ts_p s' pid) = pt_deletedTimers (ts_p s pid)"
    "pt_modifiedEarliest (ts_p s' pid) = pt_modifiedEarliest (ts_p s pid)"
proof -
  have pp: "rt_pp (ts_timer s t) = 0" using coreD(3) [OF assms(1) t] .
  obtain s' where d: "doaddtimer pid t s = Ret s'" "heap_inv s' pid" "mset (heap_of s' pid) = add_mset t (mset (heap_of s pid))"
    "ts_timer s' = (ts_timer s)(t := (ts_timer s t)\<lparr>rt_pp := pid\<rparr>)" "frame pid s s'" "pt_deletedTimers (ts_p s' pid) = pt_deletedTimers (ts_p s pid)"
    "pt_modifiedEarliest (ts_p s' pid) = pt_modifiedEarliest (ts_p s pid)"
    using doaddtimer_ok [OF coreD(1) [OF assms(1,2)] pp assms(2) w(1) room] by metis
  let ?s = "set_status t TWaiting s'"
  have set2: "set (heap_of s' pid) = insert t (set (heap_of s pid))" using d(3) by (metis mset.simps(2) mset_eq_setD list.simps(15))
  have off: "t \<notin> set (heap_of s q)" if "q \<noteq> 0" for q using core_member [OF assms(1) that, of t] pp that by simp
  have other: "heap_of s' q = heap_of s q" if "q \<noteq> pid" for q using frame_heap [OF d(5) that] .
  have tm: "ts_timer ?s u = ts_timer s u" if "u \<noteq> t" for u using that d(4) by (simp add: set_status_def)
  have A: "heap_inv ?s q \<and> (\<forall>u\<in>set (heap_of ?s q). timer_ok ?s q u)" if "q \<noteq> 0" for q
  proof (cases "q = pid")
    case True
    have "timer_ok ?s pid u" if "u \<in> set (heap_of s' pid)" for u
    proof (cases "u = t")
      case True
      then show ?thesis using w p d(4) by (simp add: timer_ok_def set_status_def when_of_def Let_def)
    next
      case False
      then show ?thesis using coreD(2) [OF assms(1,2), of u] that set2 tm [OF False] by (simp add: timer_ok_def)
    qed
    moreover have "heap_inv ?s pid" using heap_inv_cong [of s' ?s pid] d(2) by (simp add: set_status_def when_of_def)
    ultimately show ?thesis using True by simp
  next
    case False
    have e: "ts_timer ?s u = ts_timer s u" if "u \<in> set (heap_of s q)" for u using that off [OF \<open>q \<noteq> 0\<close>] tm by metis
    have "ts_p ?s q = ts_p s q" using d(5) False by (simp add: frame_def set_status_def)
    then have "heap_inv ?s q = heap_inv s q" by (rule heap_inv_local) (simp only: e when_of_def)
    then have "heap_inv ?s q" using coreD(1) [OF assms(1) that] by simp
    moreover have "timer_ok ?s q u" if "u \<in> set (heap_of s q)" for u
      using that coreD(2) [OF assms(1) \<open>q \<noteq> 0\<close>, of u] e [of u] by (simp add: timer_ok_def)
    ultimately show ?thesis using other [OF False] by simp
  qed
  have B: "u \<in> set (heap_of ?s (rt_pp (ts_timer ?s u)))" if "rt_pp (ts_timer ?s u) \<noteq> 0" for u
  proof (cases "u = t")
    case True
    then show ?thesis using set2 d(4) by simp
  next
    case False
    then show ?thesis
      using coreD(4) [OF assms(1), of "rt_pp (ts_timer s u)" u] that tm [OF False] set2 other [of "rt_pp (ts_timer s u)"]
      by (cases "rt_pp (ts_timer s u) = pid") auto
  qed
  have C: "u \<in> T - {t} \<or> status_of ?s u = TNoStatus \<or> status_of ?s u = TRemoved" if "rt_pp (ts_timer ?s u) = 0" for u
  proof (cases "u = t")
    case True
    then show ?thesis using that d(4) assms(2) by simp
  next
    case False
    have "status_of ?s u = status_of s u" "rt_pp (ts_timer ?s u) = rt_pp (ts_timer s u)" unfolding status_of_def tm [OF False] by (rule refl)+
    then show ?thesis using that coreD(5) [OF assms(1), of u] False by (metis DiffI singletonD)
  qed
  have D: "rt_pp (ts_timer ?s u) = 0" if "u \<in> T - {t}" for u
    using that coreD(3) [OF assms(1), of u] tm [of u] by simp
  have "core (T - {t}) ?s" unfolding core_def using A B C D by (intro conjI allI impI) simp_all
  then show thesis using that [OF d(1)] d(3-7) by simp
qed

lemma core_same:
  assumes "core T s" and "same_heaps s s'" and "ts_timer s' = ts_timer s"
  shows "core T s'"
proof -
  have h: "heap_of s' = heap_of s" using same_heaps_heap [OF assms(2)] .
  have "heap_inv s' pid = heap_inv s pid" for pid using heap_inv_cong [OF assms(2)] assms(3) by (simp add: when_of_def)
  then show ?thesis using assms(1) unfolding core_def h timer_ok_def status_of_def assms(3) by simp
qed

section \<open>Operations that keep when timers fire\<close>

text \<open>What a timer is called with, and its period: the fields that moving it does not touch.\<close>

definition kept_fields :: "rtimer \<Rightarrow> rtimer" where
  "kept_fields x = x\<lparr>rt_pp := 0, rt_when := 0, rt_status := TNoStatus\<rparr>"

lemma kept_fields_simps [simp]:
  "kept_fields (x\<lparr>rt_pp := a\<rparr>) = kept_fields x" "kept_fields (x\<lparr>rt_when := b\<rparr>) = kept_fields x" "kept_fields (x\<lparr>rt_status := c\<rparr>) = kept_fields x"
  by (cases x; simp add: kept_fields_def)+

text \<open>\<open>keeps pid s s'\<close>: only the heap of \<open>pid\<close> was tidied up; all timers fire as before.\<close>

definition keeps_off :: "nat set \<Rightarrow> nat \<Rightarrow> tsys \<Rightarrow> tsys \<Rightarrow> bool" where
  "keeps_off T pid s s' \<longleftrightarrow> inv_off T s' \<and> fires s' = fires s \<and> frame pid s s' \<and> (\<forall>t\<in>T. ts_timer s' t = ts_timer s t)
     \<and> (\<forall>t. fires s t \<noteq> None \<longrightarrow> rt_pp (ts_timer s' t) = rt_pp (ts_timer s t)) \<and> (\<forall>t. kept_fields (ts_timer s' t) = kept_fields (ts_timer s t))
     \<and> set (heap_of s' pid) \<subseteq> set (heap_of s pid) \<and> length (heap_of s' pid) \<le> length (heap_of s pid)
     \<and> (\<forall>t. status_of s' t = TModifiedEarlier \<longrightarrow> status_of s t = TModifiedEarlier)"

abbreviation keeps :: "nat \<Rightarrow> tsys \<Rightarrow> tsys \<Rightarrow> bool" where
  "keeps \<equiv> keeps_off {}"

lemma keeps_refl: "inv_off T s \<Longrightarrow> keeps_off T pid s s"
  by (simp add: keeps_off_def)

lemma keeps_trans: "keeps_off T pid s s' \<Longrightarrow> keeps_off T pid s' s'' \<Longrightarrow> keeps_off T pid s s''"
  unfolding keeps_off_def by (auto intro: frame_trans)

text \<open>The fields of a timer in a fixed order.\<close>

lemma rt_order:
  "x\<lparr>rt_status := a, rt_pp := b\<rparr> = x\<lparr>rt_pp := b, rt_status := a\<rparr>" "x\<lparr>rt_status := a, rt_when := w\<rparr> = x\<lparr>rt_when := w, rt_status := a\<rparr>"
  "x\<lparr>rt_when := w, rt_pp := b\<rparr> = x\<lparr>rt_pp := b, rt_when := w\<rparr>" for x :: rtimer
  by (cases x; simp)+

lemma deleted_count_add:
  assumes "mset (heap_of s pid) = add_mset t (mset (heap_of s' pid))" and "\<And>u. u \<in> set (heap_of s' pid) \<Longrightarrow> status_of s' u = status_of s u"
  shows "deleted_count s pid = of_bool (status_of s t = TDeleted) + deleted_count s' pid"
proof -
  have "filter_mset (\<lambda>u. status_of s u = TDeleted) (mset (heap_of s' pid)) = filter_mset (\<lambda>u. status_of s' u = TDeleted) (mset (heap_of s' pid))"
    using assms(2) by (intro filter_mset_cong) simp_all
  then show ?thesis unfolding deleted_count_def assms(1) by simp
qed

lemma deleted_other:
  assumes "frame pid s s'" and "q \<noteq> pid" and "\<And>u. u \<in> set (heap_of s q) \<Longrightarrow> status_of s' u = status_of s u"
  shows "deleted_ok s' q = deleted_ok s q"
proof -
  have h: "ts_p s' q = ts_p s q" "heap_of s' q = heap_of s q" using assms(1,2) by (simp_all add: frame_def heap_of_def)
  have "deleted_count s' q = deleted_count s q"
    unfolding deleted_count_def h using assms(3) by (intro arg_cong [of _ _ size] filter_mset_cong) auto
  then show ?thesis unfolding deleted_ok_def h by simp
qed

lemma status_unchanged: "ts_timer s' = (ts_timer s)(t := x) \<Longrightarrow> u \<noteq> t \<Longrightarrow> status_of s' u = status_of s u"
  by (simp add: status_of_def)

lemma add_mset_member:
  assumes "mset xs = add_mset t (mset ys)" and "distinct xs"
  shows "set xs = insert t (set ys)" "t \<notin> set ys" "distinct ys" "length xs = Suc (length ys)"
proof -
  have e: "mset xs = mset (t # ys)" using assms(1) by simp
  have "distinct (t # ys)" using assms(2) mset_eq_imp_distinct_iff [OF e] by blast
  then show "t \<notin> set ys" "distinct ys" by simp_all
  show "set xs = insert t (set ys)" using mset_eq_setD [OF e] by (simp only: list.set)
  show "length xs = Suc (length ys)" using mset_eq_length [OF e] by (simp only: list.size)
qed

lemma off_heaps:
  assumes "core T s" and "pid \<noteq> 0" and "t \<in> set (heap_of s pid)" and "q \<noteq> 0" and "q \<noteq> pid"
  shows "t \<notin> set (heap_of s q)"
  using core_member [OF assms(1,4), of t] core_member [OF assms(1,2), of t] assms(3,5) by simp

text \<open>The three moves of the loops: a deleted timer goes, a modified one is taken off, and put back.\<close>

definition removed :: "nat \<Rightarrow> nat \<Rightarrow> tsys \<Rightarrow> tsys" where
  "removed pid t s = upd_p pid (\<lambda>p. p\<lparr>pt_deletedTimers := pt_deletedTimers p - 1\<rparr>) (set_status t TRemoved s)"

lemma heap_of_removed [simp]: "heap_of (removed pid t s) = heap_of s"
  by (simp add: removed_def heap_of_upd)

lemma remove_ok:
  assumes "core T s" and "pid \<noteq> 0" and i: "i < length (heap_of s pid)" and t: "t = heap_of s pid ! i" and st: "status_of s t = TDeleted"
  obtains s2 k where "dodeltimer pid i (set_status t TRemoving s) = Ret (s2, k)" "k \<le> i" "core T (removed pid t s2)"
    "mset (heap_of s pid) = add_mset t (mset (heap_of (removed pid t s2) pid))" "frame pid s (removed pid t s2)"
    "ts_timer (removed pid t s2) = (ts_timer s)(t := (ts_timer s t)\<lparr>rt_pp := 0, rt_status := TRemoved\<rparr>)"
    "\<And>q. q \<noteq> 0 \<Longrightarrow> deleted_ok s q \<Longrightarrow> deleted_ok (removed pid t s2) q"
    "pt_modifiedEarliest (ts_p (removed pid t s2) pid) = (if heap_of s2 pid = [] then 0 else pt_modifiedEarliest (ts_p s pid))"
    "\<And>j. j < k \<Longrightarrow> heap_of (removed pid t s2) pid ! j = heap_of s pid ! j"
proof (rule take_ok [OF assms(1,2) i t, of "set_status t TRemoving s" "(ts_timer s t)\<lparr>rt_status := TRemoving\<rparr>"], goal_cases)
  case 1
  then show ?case by simp
next
  case 2
  then show ?case by (simp add: set_status_def)
next
  case 3
  have "t \<in> set (heap_of s pid)" using i t by simp
  then show ?case using core_member [OF assms(1,2), of t] by simp
next
  case (4 s2 k)
  note r = 4(2-)
  let ?r = "removed pid t s2"
  have tin: "t \<in> set (heap_of s pid)" using i t by simp
  have tT: "t \<notin> T" using coreD(3) [OF assms(1), of t] core_member [OF assms(1,2), of t] tin assms(2) by auto
  have "core (insert t T - {t}) (set_status t TRemoved s2)" using core_drop [OF r(3), of t TRemoved] by simp
  then have "core T (set_status t TRemoved s2)" using tT by simp
  then have c: "core T ?r" by (rule core_same) (simp_all add: removed_def)
  have m: "mset (heap_of s pid) = add_mset t (mset (heap_of ?r pid))" using r(4) by simp
  have f: "frame pid s ?r" unfolding removed_def
    by (rule frame_trans [OF frame_trans [OF frame_trans [OF frame_upd(3) r(6)] frame_upd(3)] frame_upd(2)])
  have tm: "ts_timer ?r = (ts_timer s)(t := (ts_timer s t)\<lparr>rt_pp := 0, rt_status := TRemoved\<rparr>)"
    using r(5) by (simp add: removed_def set_status_def fun_eq_iff rt_order)
  have set: "t \<notin> set (heap_of ?r pid)" using add_mset_member(2) [OF m] coreD(1) [OF assms(1,2)] by (simp add: heap_inv_def)
  have dc: "deleted_count s pid = 1 + deleted_count ?r pid"
    using deleted_count_add [OF m status_unchanged [OF tm]] st set by auto
  have "deleted_ok ?r q" if "q \<noteq> 0" "deleted_ok s q" for q
  proof (cases "q = pid")
    case True
    have "pt_deletedTimers (ts_p ?r pid) = pt_deletedTimers (ts_p s pid) - 1" using r(7) by (simp add: removed_def set_status_def)
    then show ?thesis using that True dc by (simp add: deleted_ok_def)
  next
    case False
    have "deleted_ok ?r q = deleted_ok s q"
      using off_heaps [OF assms(1,2) tin that(1) False] by (intro deleted_other [OF f False] status_unchanged [OF tm]) auto
    then show ?thesis using that by simp
  qed
  moreover have "pt_modifiedEarliest (ts_p ?r pid) = (if heap_of s2 pid = [] then 0 else pt_modifiedEarliest (ts_p s pid))"
    using r(8) by (simp add: removed_def set_status_def)
  moreover have "heap_of ?r pid ! j = heap_of s pid ! j" if "j < k" for j using r(9) [OF that] by simp
  ultimately show ?case using that [OF r(1,2) c m f tm] by blast
qed

lemma move_off_ok:
  assumes "core T s" and "pid \<noteq> 0" and i: "i < length (heap_of s pid)" and t: "t = heap_of s pid ! i" and st: "status_of s t \<noteq> TDeleted"
  obtains s2 k where "dodeltimer pid i (take_nextwhen t (set_status t TMoving s)) = Ret (s2, k)" "k \<le> i" "core (insert t T) s2"
    "mset (heap_of s pid) = add_mset t (mset (heap_of s2 pid))" "frame pid s s2"
    "ts_timer s2 = (ts_timer s)(t := (ts_timer s t)\<lparr>rt_pp := 0, rt_when := rt_nextwhen (ts_timer s t), rt_status := TMoving\<rparr>)"
    "\<And>q. q \<noteq> 0 \<Longrightarrow> deleted_ok s q \<Longrightarrow> deleted_ok s2 q"
    "pt_modifiedEarliest (ts_p s2 pid) = (if heap_of s2 pid = [] then 0 else pt_modifiedEarliest (ts_p s pid))"
    "\<And>j. j < k \<Longrightarrow> heap_of s2 pid ! j = heap_of s pid ! j"
proof (rule take_ok [OF assms(1,2) i t, of "take_nextwhen t (set_status t TMoving s)" "(ts_timer s t)\<lparr>rt_when := rt_nextwhen (ts_timer s t), rt_status := TMoving\<rparr>"], goal_cases)
  case 1
  then show ?case by simp
next
  case 2
  then show ?case by (simp add: set_status_def take_nextwhen_def rt_order)
next
  case 3
  have "t \<in> set (heap_of s pid)" using i t by simp
  then show ?case using core_member [OF assms(1,2), of t] by simp
next
  case (4 s2 k)
  note r = 4(2-)
  have tin: "t \<in> set (heap_of s pid)" using i t by simp
  have f: "frame pid s s2" by (rule frame_trans [OF frame_trans [OF frame_upd(3) frame_upd(4)] r(6)])
  have tm: "ts_timer s2 = (ts_timer s)(t := (ts_timer s t)\<lparr>rt_pp := 0, rt_when := rt_nextwhen (ts_timer s t), rt_status := TMoving\<rparr>)"
    using r(5) by (simp add: fun_eq_iff rt_order)
  have set: "t \<notin> set (heap_of s2 pid)" using add_mset_member(2) [OF r(4)] coreD(1) [OF assms(1,2)] by (simp add: heap_inv_def)
  have dc: "deleted_count s pid = deleted_count s2 pid"
    using deleted_count_add [OF r(4) status_unchanged [OF tm]] st set by auto
  have "deleted_ok s2 q" if "q \<noteq> 0" "deleted_ok s q" for q
  proof (cases "q = pid")
    case True
    have "pt_deletedTimers (ts_p s2 pid) = pt_deletedTimers (ts_p s pid)" using r(7) by (simp add: set_status_def take_nextwhen_def)
    then show ?thesis using that True dc by (simp add: deleted_ok_def)
  next
    case False
    have "deleted_ok s2 q = deleted_ok s q"
      using off_heaps [OF assms(1,2) tin that(1) False] by (intro deleted_other [OF f False] status_unchanged [OF tm]) auto
    then show ?thesis using that by simp
  qed
  moreover have "pt_modifiedEarliest (ts_p s2 pid) = (if heap_of s2 pid = [] then 0 else pt_modifiedEarliest (ts_p s pid))"
    using r(8) by (simp add: set_status_def take_nextwhen_def)
  ultimately show ?case using that [OF r(1-4) f tm] r(9) by blast
qed

lemma place_ok:
  assumes "core T s" and "pid \<noteq> 0" and t: "t \<in> T" and w: "0 < when_of s t" "when_of s t \<le> maxWhen"
    and p: "0 \<le> rt_period (ts_timer s t)" "rt_period (ts_timer s t) \<le> maxWhen" and room: "length (heap_of s pid) + 1 < 2 ^ 32"
  obtains s2 s' where "doaddtimer pid t s = Ret s2" "s' = set_status t TWaiting s2" "core (T - {t}) s'" "mset (heap_of s' pid) = add_mset t (mset (heap_of s pid))"
    "ts_timer s' = (ts_timer s)(t := (ts_timer s t)\<lparr>rt_pp := pid, rt_status := TWaiting\<rparr>)" "frame pid s s'"
    "\<And>q. q \<noteq> 0 \<Longrightarrow> deleted_ok s q \<Longrightarrow> deleted_ok s' q"
    "pt_modifiedEarliest (ts_p s' pid) = pt_modifiedEarliest (ts_p s pid)"
proof (rule put_ok [OF assms(1,2) t w p room], goal_cases)
  case (1 s2)
  note r = 1(2-)
  let ?s = "set_status t TWaiting s2"
  have tm: "ts_timer ?s = (ts_timer s)(t := (ts_timer s t)\<lparr>rt_pp := pid, rt_status := TWaiting\<rparr>)"
    using r(4) by (simp add: set_status_def fun_eq_iff rt_order)
  have f: "frame pid s ?s" by (rule frame_trans [OF r(5) frame_upd(3)])
  have off: "t \<notin> set (heap_of s q)" if "q \<noteq> 0" for q using core_member [OF assms(1) that, of t] coreD(3) [OF assms(1) t] that by simp
  have m: "mset (heap_of ?s pid) = add_mset t (mset (heap_of s pid))" using r(3) by simp
  have st: "status_of ?s t = TWaiting" by (simp add: status_of_def tm)
  have dc: "deleted_count ?s pid = deleted_count s pid"
    using deleted_count_add [OF m status_unchanged [OF tm, symmetric]] off [OF assms(2)] st by auto
  have "deleted_ok ?s q" if "q \<noteq> 0" "deleted_ok s q" for q
  proof (cases "q = pid")
    case True
    have "pt_deletedTimers (ts_p ?s pid) = pt_deletedTimers (ts_p s pid)" using r(6) by (simp add: set_status_def)
    then show ?thesis using that True dc by (simp add: deleted_ok_def)
  next
    case False
    have "deleted_ok ?s q = deleted_ok s q"
      using off [OF that(1)] by (intro deleted_other [OF f False] status_unchanged [OF tm]) auto
    then show ?thesis using that by simp
  qed
  moreover have "pt_modifiedEarliest (ts_p ?s pid) = pt_modifiedEarliest (ts_p s pid)" using r(7) by (simp add: set_status_def)
  ultimately show ?case using that [OF r(1) refl r(2) m tm f] by blast
qed

lemma earliest_local:
  assumes "earliest_ok s q" and "\<And>u. u \<in> set (heap_of s' q) \<Longrightarrow> status_of s' u = TModifiedEarlier \<Longrightarrow> u \<in> set (heap_of s q) \<and> ts_timer s' u = ts_timer s u"
    and "pt_modifiedEarliest (ts_p s' q) = pt_modifiedEarliest (ts_p s q)
      \<or> pt_modifiedEarliest (ts_p s' q) = 0 \<and> (\<forall>u\<in>set (heap_of s' q). status_of s' u \<noteq> TModifiedEarlier)"
  shows "earliest_ok s' q"
  using assms unfolding earliest_ok_def status_of_def by (metis order_refl)

lemma earliest_other:
  assumes "earliest_ok s q" and "frame pid s s'" and "q \<noteq> pid" and "\<And>u. u \<in> set (heap_of s q) \<Longrightarrow> ts_timer s' u = ts_timer s u"
  shows "earliest_ok s' q"
  using assms(1) by (rule earliest_local) (use assms(2-4) in \<open>auto simp: frame_def heap_of_def\<close>)

lemma timers_invD:
  assumes "inv_off T s"
  shows "core T s" "pid \<noteq> 0 \<Longrightarrow> deleted_ok s pid" "pid \<noteq> 0 \<Longrightarrow> earliest_ok s pid"
  using assms by (simp_all add: inv_off_def)

lemma heap_distinct: "core T s \<Longrightarrow> pid \<noteq> 0 \<Longrightarrow> distinct (heap_of s pid)"
  using coreD(1) [of T s pid] by (simp add: heap_inv_def)

lemma off_T: "core T s \<Longrightarrow> u \<in> T \<Longrightarrow> pid \<noteq> 0 \<Longrightarrow> t \<in> set (heap_of s pid) \<Longrightarrow> u \<noteq> t"
  using coreD(3) [of T s u] core_member [of T s pid t] by auto

lemma remove_head_ok:
  assumes inv: "inv_off T s" and pid: "pid \<noteq> 0" and ne: "heap_of s pid \<noteq> []" and st: "status_of s (heap_of s pid ! 0) = TDeleted"
  obtains s' where "remove_head pid (heap_of s pid ! 0) s = Ret s'" "keeps_off T pid s s'"
proof (rule remove_ok [OF timers_invD(1) [OF inv] pid _ refl st], goal_cases)
  case 1
  then show ?case using ne by simp
next
  case (2 s2 k)
  note r = 2(2-)
  let ?t = "heap_of s pid ! 0" and ?s = "removed pid (heap_of s pid ! 0) s2"
  have k: "k = 0" using r(2) by simp
  have run: "remove_head pid ?t s = Ret ?s" using r(1) k by (simp add: remove_head_def removed_def dodeltimer0_alt [THEN iffD2])
  have tin: "?t \<in> set (heap_of s pid)" using ne by simp
  note m = add_mset_member [OF r(4) heap_distinct [OF timers_invD(1) [OF inv] pid]]
  have "earliest_ok ?s q" if "q \<noteq> 0" for q
  proof (cases "q = pid")
    case True
    have "earliest_ok ?s pid"
      using timers_invD(3) [OF inv pid] by (rule earliest_local) (use m(1,2) r(6,8) in auto)
    then show ?thesis using True by simp
  next
    case False
    then show ?thesis using timers_invD(3) [OF inv that] off_heaps [OF timers_invD(1) [OF inv] pid tin that False] r(6)
      by (intro earliest_other [OF _ r(5)]) auto
  qed
  then have inv': "inv_off T ?s" using r(3,7) timers_invD(2) [OF inv] by (simp add: inv_off_def)
  have fi: "fires ?s = fires s" using st r(6) by (auto simp: fires_def status_of_def Let_def fun_eq_iff)
  have fn: "fires s ?t = None" using st by (simp add: fires_def status_of_def Let_def)
  have "keeps_off T pid s ?s"
    unfolding keeps_off_def
  proof (intro conjI allI ballI impI)
    show "kept_fields (ts_timer ?s u) = kept_fields (ts_timer s u)" for u using r(6) by simp
    show "status_of s u = TModifiedEarlier" if "status_of ?s u = TModifiedEarlier" for u
      using that r(6) by (simp add: status_of_def split: if_splits)
    show "ts_timer ?s u = ts_timer s u" if "u \<in> T" for u using off_T [OF timers_invD(1) [OF inv] that pid tin] r(6) by simp
    show "rt_pp (ts_timer ?s u) = rt_pp (ts_timer s u)" if "fires s u \<noteq> None" for u using that fn r(6) by auto
  qed (use inv' fi r(5) m(1,4) in auto)
  then show ?case using that [OF run] by blast
qed

lemma timer_ok_next:
  assumes "timer_ok s pid t" and "status_of s t = TModifiedEarlier \<or> status_of s t = TModifiedLater"
  shows "0 < rt_nextwhen (ts_timer s t)" "rt_nextwhen (ts_timer s t) \<le> maxWhen" "fires s t = Some (rt_nextwhen (ts_timer s t))"
  using assms by (auto simp: timer_ok_def status_of_def fires_def Let_def)

lemma timer_ok_fields:
  assumes "timer_ok s pid t"
  shows "0 < when_of s t" "when_of s t \<le> maxWhen" "0 \<le> rt_period (ts_timer s t)" "rt_period (ts_timer s t) \<le> maxWhen" "rt_pp (ts_timer s t) = pid"
  using assms by (simp_all add: timer_ok_def when_of_def Let_def)

lemma move_head_ok:
  assumes inv: "inv_off T s" and pid: "pid \<noteq> 0" and ne: "heap_of s pid \<noteq> []"
    and st: "status_of s (heap_of s pid ! 0) = TModifiedEarlier \<or> status_of s (heap_of s pid ! 0) = TModifiedLater"
  obtains s' where "move_head pid (heap_of s pid ! 0) s = Ret s'" "keeps_off T pid s s'"
proof -
  let ?t = "heap_of s pid ! 0"
  note c = timers_invD(1) [OF inv]
  have tin: "?t \<in> set (heap_of s pid)" using ne by simp
  have ok: "timer_ok s pid ?t" using coreD(2) [OF c pid tin] .
  have i: "0 < length (heap_of s pid)" "status_of s ?t \<noteq> TDeleted" using ne st by auto
  show thesis
  proof (rule move_off_ok [OF c pid i(1) refl i(2)], goal_cases)
    case (1 s2 k)
    note r = 1
    have k: "k = 0" using r(2) by simp
    note m = add_mset_member [OF r(4) heap_distinct [OF c pid]]
    have w: "0 < when_of s2 ?t" "when_of s2 ?t \<le> maxWhen" "0 \<le> rt_period (ts_timer s2 ?t)" "rt_period (ts_timer s2 ?t) \<le> maxWhen"
      using timer_ok_next [OF ok st] timer_ok_fields [OF ok] r(6) by (simp_all add: when_of_def)
    have room: "length (heap_of s2 pid) + 1 < 2 ^ 32" using coreD(1) [OF c pid] m(4) by (simp add: heap_inv_def)
    show thesis
    proof (rule place_ok [OF r(3) pid _ w room], goal_cases)
      case 1
      then show ?case by simp
    next
      case (2 s3 s')
      note p = 2
      have run: "move_head pid ?t s = Ret s'" using r(1) k p(1,2) by (simp add: move_head_def dodeltimer0_alt [THEN iffD2])
      have tm: "ts_timer s' = (ts_timer s)(?t := (ts_timer s ?t)\<lparr>rt_pp := pid, rt_when := rt_nextwhen (ts_timer s ?t), rt_status := TWaiting\<rparr>)"
        using p(5) r(6) by (simp add: rt_order)
      have f: "frame pid s s'" using frame_trans [OF r(5) p(6)] .
      have heap': "set (heap_of s' pid) = set (heap_of s pid)" "length (heap_of s' pid) = length (heap_of s pid)"
        using mset_eq_setD [of "heap_of s' pid" "heap_of s pid"] mset_eq_length [of "heap_of s' pid" "heap_of s pid"] p(4) r(4) by simp_all
      have "earliest_ok s' q" if "q \<noteq> 0" for q
      proof (cases "q = pid")
        case True
        have W: "status_of s' ?t = TWaiting" using tm by (simp add: status_of_def)
        have "earliest_ok s' pid"
        proof (rule earliest_local [OF timers_invD(3) [OF inv pid]])
          show "u \<in> set (heap_of s pid) \<and> ts_timer s' u = ts_timer s u" if "u \<in> set (heap_of s' pid)" "status_of s' u = TModifiedEarlier" for u
            using that heap'(1) tm W by auto
          show "pt_modifiedEarliest (ts_p s' pid) = pt_modifiedEarliest (ts_p s pid)
              \<or> pt_modifiedEarliest (ts_p s' pid) = 0 \<and> (\<forall>u\<in>set (heap_of s' pid). status_of s' u \<noteq> TModifiedEarlier)"
            using p(8) r(8) W m(1) heap'(1) by (cases "heap_of s2 pid = []") auto
        qed
        then show ?thesis using True by simp
      next
        case False
        then show ?thesis using timers_invD(3) [OF inv that] off_heaps [OF c pid tin that False] tm
          by (intro earliest_other [OF _ f]) auto
      qed
      moreover have tT: "?t \<notin> T" using off_T [OF c _ pid tin] by blast
      ultimately have inv': "inv_off T s'" using p(3,7) r(7) timers_invD(2) [OF inv] by (simp add: inv_off_def)
      have fi: "fires s' = fires s" using timer_ok_next(3) [OF ok st] tm by (auto simp: fires_def Let_def fun_eq_iff)
      have "keeps_off T pid s s'"
        unfolding keeps_off_def
      proof (intro conjI allI ballI impI)
        show "kept_fields (ts_timer s' u) = kept_fields (ts_timer s u)" for u using tm by simp
        show "status_of s u = TModifiedEarlier" if "status_of s' u = TModifiedEarlier" for u
          using that tm by (simp add: status_of_def split: if_splits)
        show "ts_timer s' u = ts_timer s u" if "u \<in> T" for u using that tT tm by auto
        show "rt_pp (ts_timer s' u) = rt_pp (ts_timer s u)" for u using tm timer_ok_fields(5) [OF ok] by simp
      qed (use inv' fi f heap' in auto)
      then show thesis using that [OF run] by blast
    qed
  qed
qed

lemma heap_pp: "core T s \<Longrightarrow> pid \<noteq> 0 \<Longrightarrow> t \<in> set (heap_of s pid) \<Longrightarrow> rt_pp (ts_timer s t) = pid"
  using core_member by blast

lemma cleantimers_ok: "inv_off T s \<Longrightarrow> pid \<noteq> 0 \<Longrightarrow> \<exists>s'. cleantimers pid s = Ret s' \<and> keeps_off T pid s s'"
proof (induction pid s rule: cleantimers.induct)
  case (1 pid s)
  note inv = 1(3) and pid = 1(4)
  let ?t = "heap_of s pid ! 0"
  consider (stop) "heap_of s pid = [] \<or> ts_preemptStop s" | (del) "heap_of s pid \<noteq> []" "\<not> ts_preemptStop s" "status_of s ?t = TDeleted"
    | (mod) "heap_of s pid \<noteq> []" "\<not> ts_preemptStop s" "status_of s ?t = TModifiedEarlier \<or> status_of s ?t = TModifiedLater"
    | (rest) "heap_of s pid \<noteq> []" "status_of s ?t \<notin> {TDeleted, TModifiedEarlier, TModifiedLater}"
    by blast
  then show ?case
  proof cases
    case stop
    then show ?thesis using keeps_refl [OF inv] by (subst cleantimers.simps) auto
  next
    case del
    have pp: "rt_pp (ts_timer s ?t) = pid" using heap_pp [OF timers_invD(1) [OF inv] pid] del(1) by simp
    obtain s1 where s1: "remove_head pid ?t s = Ret s1" "keeps_off T pid s s1" using remove_head_ok [OF inv pid del(1,3)] .
    have "inv_off T s1" using s1(2) by (simp add: keeps_off_def)
    then obtain s2 where s2: "cleantimers pid s1 = Ret s2" "keeps_off T pid s1 s2" using 1(1) [OF del(1,2) refl _ del(3) s1(1)] pp pid by blast
    have "cleantimers pid s = Ret s2" using del pp s1(1) s2(1) by (simp add: cleantimers.simps [of pid s])
    then show ?thesis using keeps_trans [OF s1(2) s2(2)] by blast
  next
    case mod
    have pp: "rt_pp (ts_timer s ?t) = pid" using heap_pp [OF timers_invD(1) [OF inv] pid] mod(1) by simp
    obtain s1 where s1: "move_head pid ?t s = Ret s1" "keeps_off T pid s s1" using move_head_ok [OF inv pid mod(1,3)] .
    have nd: "status_of s ?t \<noteq> TDeleted" using mod(3) by auto
    have "inv_off T s1" using s1(2) by (simp add: keeps_off_def)
    then obtain s2 where s2: "cleantimers pid s1 = Ret s2" "keeps_off T pid s1 s2" using 1(2) [OF mod(1,2) refl _ nd mod(3) s1(1)] pp pid by blast
    have "cleantimers pid s = Ret s2" using mod nd pp s1(1) s2(1) by (auto simp: cleantimers.simps [of pid s])
    then show ?thesis using keeps_trans [OF s1(2) s2(2)] by blast
  next
    case rest
    have pp: "rt_pp (ts_timer s ?t) = pid" using heap_pp [OF timers_invD(1) [OF inv] pid] rest(1) by simp
    then show ?thesis using rest keeps_refl [OF inv] by (subst cleantimers.simps) auto
  qed
qed

end
