(* ===== verification/TimersRun.thy ===== *)
theory TimersRun
  imports TimersInv
begin

text \<open>
  Adjusting the heap of a P, and running its timers: the loop of \<open>checkTimers\<close> runs each timer that is due once, in the
  order of their times.
\<close>

section \<open>Adjusting the heap\<close>

text \<open>When a timer will fire, also while it is being moved.\<close>

definition due :: "tsys \<Rightarrow> nat \<Rightarrow> int option" where
  "due s t = (if status_of s t = TMoving then Some (when_of s t) else fires s t)"

lemma due_fires: "core {} s \<Longrightarrow> due s = fires s"
proof
  fix t
  assume c: "core {} s"
  have "status_of s t \<noteq> TMoving"
  proof (cases "rt_pp (ts_timer s t) = 0")
    case True
    then show ?thesis using coreD(5) [OF c, of t] by auto
  next
    case False
    then have "timer_ok s (rt_pp (ts_timer s t)) t" using coreD(2,4) [OF c] by blast
    then show ?thesis by (auto simp: timer_ok_def status_of_def Let_def split: tstatus.splits)
  qed
  then show "due s t = fires s t" by (simp add: due_def)
qed

text \<open>Ready to be put on a heap again.\<close>

definition ready :: "tsys \<Rightarrow> nat \<Rightarrow> bool" where
  "ready s t \<longleftrightarrow> status_of s t = TMoving \<and> 0 < when_of s t \<and> when_of s t \<le> maxWhen \<and> 0 \<le> rt_period (ts_timer s t) \<and> rt_period (ts_timer s t) \<le> maxWhen"

text \<open>The state in the middle of the loop: \<open>moved\<close> is off the heap of \<open>pid\<close>, and the timers before \<open>i\<close> are settled.\<close>

definition adjusting :: "nat \<Rightarrow> tsys \<Rightarrow> nat \<Rightarrow> nat list \<Rightarrow> tsys \<Rightarrow> bool" where
  "adjusting pid s0 i moved s \<longleftrightarrow> core (set moved) s \<and> distinct moved \<and> (\<forall>t\<in>set moved. ready s t)
     \<and> (\<forall>j<i. j < length (heap_of s pid) \<longrightarrow> status_of s (heap_of s pid ! j) = TWaiting)
     \<and> (\<forall>q. q \<noteq> 0 \<longrightarrow> deleted_ok s q) \<and> pt_modifiedEarliest (ts_p s pid) = 0 \<and> frame pid s0 s
     \<and> due s = due s0 \<and> (\<forall>t. kept_fields (ts_timer s t) = kept_fields (ts_timer s0 t))
     \<and> (\<forall>t. due s0 t \<noteq> None \<longrightarrow> t \<notin> set moved \<longrightarrow> rt_pp (ts_timer s t) = rt_pp (ts_timer s0 t)) \<and> (\<forall>t\<in>set moved. rt_pp (ts_timer s0 t) = pid)
     \<and> (\<forall>q u. q \<noteq> pid \<longrightarrow> q \<noteq> 0 \<longrightarrow> u \<in> set (heap_of s q) \<longrightarrow> ts_timer s u = ts_timer s0 u)
     \<and> set (heap_of s pid) \<union> set moved \<subseteq> set (heap_of s0 pid) \<and> length (heap_of s pid) + length moved \<le> length (heap_of s0 pid)"

lemma adjustingD:
  assumes "adjusting pid s0 i moved s"
  shows "core (set moved) s" "distinct moved" "t \<in> set moved \<Longrightarrow> ready s t"
    "j < i \<Longrightarrow> j < length (heap_of s pid) \<Longrightarrow> status_of s (heap_of s pid ! j) = TWaiting"
    "q \<noteq> 0 \<Longrightarrow> deleted_ok s q" "pt_modifiedEarliest (ts_p s pid) = 0" "frame pid s0 s" "due s = due s0"
    "kept_fields (ts_timer s t) = kept_fields (ts_timer s0 t)"
    "due s0 t \<noteq> None \<Longrightarrow> t \<notin> set moved \<Longrightarrow> rt_pp (ts_timer s t) = rt_pp (ts_timer s0 t)" "t \<in> set moved \<Longrightarrow> rt_pp (ts_timer s0 t) = pid"
    "q \<noteq> pid \<Longrightarrow> q \<noteq> 0 \<Longrightarrow> u \<in> set (heap_of s q) \<Longrightarrow> ts_timer s u = ts_timer s0 u"
    "set (heap_of s pid) \<union> set moved \<subseteq> set (heap_of s0 pid)" "length (heap_of s pid) + length moved \<le> length (heap_of s0 pid)"
  using assms unfolding adjusting_def by blast+

lemma adjust_delete:
  assumes a: "adjusting pid s0 i moved s" and pid: "pid \<noteq> 0" and i: "i < length (heap_of s pid)" and st: "status_of s (heap_of s pid ! i) = TDeleted"
  obtains s2 k where "dodeltimer pid i (set_status (heap_of s pid ! i) TRemoving s) = Ret (s2, k)" "adjusting pid s0 k moved (removed pid (heap_of s pid ! i) s2)"
proof -
  let ?t = "heap_of s pid ! i"
  note A = adjustingD [OF a]
  have tin: "?t \<in> set (heap_of s pid)" using i by simp
  have pp: "rt_pp (ts_timer s ?t) = pid" using heap_pp [OF A(1) pid tin] .
  have tm: "?t \<notin> set moved" using coreD(3) [OF A(1)] pp pid by auto
  show thesis
  proof (rule remove_ok [OF A(1) pid i refl st], goal_cases)
    case (1 s2 k)
    note r = 1
    let ?s = "removed pid ?t s2"
    note m = add_mset_member [OF r(4) heap_distinct [OF A(1) pid]]
    have f: "frame pid s0 ?s" using frame_trans [OF A(7) r(5)] .
    have sub: "set (heap_of ?s pid) \<union> set moved \<subseteq> set (heap_of s0 pid)" "length (heap_of ?s pid) + length moved \<le> length (heap_of s0 pid)"
      using A(13,14) m(1,4) by auto
    have t: "ts_timer ?s u = ts_timer s u" if "u \<noteq> ?t" for u using that r(6) by simp
    have W: "status_of ?s (heap_of ?s pid ! j) = TWaiting" if "j < k" "j < length (heap_of ?s pid)" for j
    proof -
      have "heap_of ?s pid ! j = heap_of s pid ! j" using r(9) [OF that(1)] .
      moreover have "status_of s (heap_of s pid ! j) = TWaiting" using A(4) that r(2) m(4) by simp
      moreover have "heap_of ?s pid ! j \<noteq> ?t" using nth_mem [OF that(2)] m(2) by auto
      ultimately show ?thesis using t by (metis status_of_def)
    qed
    have dn: "due s ?t = None" using st by (simp add: due_def fires_def status_of_def)
    have D: "due ?s = due s0"
    proof
      fix u
      show "due ?s u = due s0 u"
      proof (cases "u = ?t")
        case True
        have "due ?s ?t = None" using r(6) by (simp add: due_def fires_def status_of_def)
        then show ?thesis using dn A(8) True by simp
      next
        case False
        have "due ?s u = due s u" unfolding due_def fires_def status_of_def when_of_def t [OF False] by (rule refl)
        then show ?thesis using A(8) by simp
      qed
    qed
    have "adjusting pid s0 k moved ?s"
      unfolding adjusting_def
    proof (intro conjI allI ballI impI)
      show "ready ?s u" if "u \<in> set moved" for u
      proof -
        have "u \<noteq> ?t" using tm that by metis
        then show ?thesis using A(3) [OF that] unfolding ready_def status_of_def when_of_def t [OF \<open>u \<noteq> ?t\<close>] by blast
      qed
      show "kept_fields (ts_timer ?s u) = kept_fields (ts_timer s0 u)" for u
        using A(9) [of u] t [of u] r(6) by (cases "u = ?t") simp_all
      show "rt_pp (ts_timer ?s u) = rt_pp (ts_timer s0 u)" if "due s0 u \<noteq> None" "u \<notin> set moved" for u
        using A(8,10) that t [of u] dn by metis
      show "ts_timer ?s u = ts_timer s0 u" if "q \<noteq> pid" "q \<noteq> 0" "u \<in> set (heap_of ?s q)" for q u
      proof -
        have "u \<in> set (heap_of s q)" using that frame_heap [OF r(5) that(1)] by simp
        then show ?thesis using A(12) [OF that(1,2)] t [of u] off_heaps [OF A(1) pid tin that(2,1)] by metis
      qed
      show "pt_modifiedEarliest (ts_p ?s pid) = 0" using r(8) A(6) by simp
    qed (use r(3,7) A(2,5,11) W f D sub in auto)
    then show thesis using that [OF r(1)] by blast
  qed
qed

lemma adjust_move:
  assumes a: "adjusting pid s0 i moved s" and pid: "pid \<noteq> 0" and i: "i < length (heap_of s pid)"
    and st: "status_of s (heap_of s pid ! i) = TModifiedEarlier \<or> status_of s (heap_of s pid ! i) = TModifiedLater"
  obtains s2 k where "dodeltimer pid i (take_nextwhen (heap_of s pid ! i) (set_status (heap_of s pid ! i) TMoving s)) = Ret (s2, k)"
    "adjusting pid s0 k (moved @ [heap_of s pid ! i]) s2"
proof -
  let ?t = "heap_of s pid ! i"
  note A = adjustingD [OF a]
  have tin: "?t \<in> set (heap_of s pid)" using i by simp
  have pp: "rt_pp (ts_timer s ?t) = pid" using heap_pp [OF A(1) pid tin] .
  have tm: "?t \<notin> set moved" using coreD(3) [OF A(1)] pp pid by auto
  have nd: "status_of s ?t \<noteq> TDeleted" "status_of s ?t \<noteq> TMoving" using st by auto
  have ok: "timer_ok s pid ?t" using coreD(2) [OF A(1) pid tin] .
  note nx = timer_ok_next [OF ok st]
  have dt: "due s0 ?t = Some (rt_nextwhen (ts_timer s ?t))" using nx(3) nd(2) A(8) by (metis due_def)
  show thesis
  proof (rule move_off_ok [OF A(1) pid i refl nd(1)], goal_cases)
    case (1 s2 k)
    note r = 1
    note m = add_mset_member [OF r(4) heap_distinct [OF A(1) pid]]
    have f: "frame pid s0 s2" using frame_trans [OF A(7) r(5)] .
    have sub: "set (heap_of s2 pid) \<union> set (moved @ [?t]) \<subseteq> set (heap_of s0 pid)" "length (heap_of s2 pid) + length (moved @ [?t]) \<le> length (heap_of s0 pid)"
      using A(13,14) m(1,4) by auto
    have t: "ts_timer s2 u = ts_timer s u" if "u \<noteq> ?t" for u using that r(6) by simp
    have W: "status_of s2 (heap_of s2 pid ! j) = TWaiting" if "j < k" "j < length (heap_of s2 pid)" for j
    proof -
      have "heap_of s2 pid ! j = heap_of s pid ! j" using r(9) [OF that(1)] .
      moreover have "status_of s (heap_of s pid ! j) = TWaiting" using A(4) that r(2) m(4) by simp
      moreover have "heap_of s2 pid ! j \<noteq> ?t" using nth_mem [OF that(2)] m(2) by auto
      ultimately show ?thesis using t by (metis status_of_def)
    qed
    have rt: "ready s2 ?t" "due s2 ?t = due s0 ?t"
      using nx timer_ok_fields [OF ok] r(6) dt by (simp_all add: ready_def status_of_def when_of_def due_def)
    have D: "due s2 = due s0"
    proof
      fix u
      show "due s2 u = due s0 u"
      proof (cases "u = ?t")
        case False
        have "due s2 u = due s u" unfolding due_def fires_def status_of_def when_of_def t [OF False] by (rule refl)
        then show ?thesis using A(8) by simp
      qed (use rt(2) in simp)
    qed
    have "core (set (moved @ [?t])) s2" using r(3) by simp
    moreover have "distinct (moved @ [?t])" using A(2) tm by simp
    moreover have "ready s2 u" if "u \<in> set (moved @ [?t])" for u
    proof (cases "u = ?t")
      case False
      then show ?thesis using A(3) [of u] t [OF False] that by (simp add: ready_def status_of_def when_of_def)
    qed (use rt(1) in simp)
    moreover have "kept_fields (ts_timer s2 u) = kept_fields (ts_timer s0 u)" for u using A(9) [of u] t [of u] r(6) by (cases "u = ?t") simp_all
    moreover have "rt_pp (ts_timer s2 u) = rt_pp (ts_timer s0 u)" if "due s0 u \<noteq> None" "u \<notin> set (moved @ [?t])" for u
      using A(10) [OF that(1)] t [of u] that(2) by simp
    moreover have "rt_pp (ts_timer s0 u) = pid" if "u \<in> set (moved @ [?t])" for u
      using A(11) [of u] A(10) [of ?t] dt pp tm that by auto
    moreover have "ts_timer s2 u = ts_timer s0 u" if "q \<noteq> pid" "q \<noteq> 0" "u \<in> set (heap_of s2 q)" for q u
    proof -
      have "u \<in> set (heap_of s q)" using that frame_heap [OF r(5) that(1)] by simp
      then show ?thesis using A(12) [OF that(1,2)] t [of u] off_heaps [OF A(1) pid tin that(2,1)] by metis
    qed
    moreover have "pt_modifiedEarliest (ts_p s2 pid) = 0" using r(8) A(6) by simp
    ultimately have "adjusting pid s0 k (moved @ [?t]) s2"
      unfolding adjusting_def using r(7) A(5) W f D sub by (intro conjI allI ballI impI) blast+
    then show thesis using that [OF r(1)] by blast
  qed
qed

lemma timer_ok_status:
  assumes "timer_ok s pid t"
  obtains "status_of s t = TWaiting" | "status_of s t = TDeleted" | "status_of s t = TModifiedEarlier" | "status_of s t = TModifiedLater"
  using assms by (auto simp: timer_ok_def Let_def status_of_def split: tstatus.splits)

lemma adjusting_skip:
  assumes "adjusting pid s0 i moved s" and "i < length (heap_of s pid) \<Longrightarrow> status_of s (heap_of s pid ! i) = TWaiting"
  shows "adjusting pid s0 (i + 1) moved s"
proof -
  have "status_of s (heap_of s pid ! j) = TWaiting" if "j < i + 1" "j < length (heap_of s pid)" for j
    using adjustingD(4) [OF assms(1), of j] assms(2) that by (cases "j = i") auto
  then show ?thesis using assms(1) unfolding adjusting_def by blast
qed

lemma adjust_loop_ok:
  "adjusting pid s0 i moved s \<Longrightarrow> pid \<noteq> 0 \<Longrightarrow>
     \<exists>s' moved'. adjust_loop pid i moved s = Ret (s', moved') \<and> adjusting pid s0 (length (heap_of s' pid)) moved' s'"
proof (induction pid i moved s rule: adjust_loop.induct)
  case (1 pid i moved s)
  note a = 1(5) and pid = 1(6)
  let ?t = "heap_of s pid ! i"
  show ?case
  proof (cases "i < length (heap_of s pid)")
    case False
    have "adjusting pid s0 (length (heap_of s pid)) moved s"
      using a False unfolding adjusting_def by auto
    then show ?thesis using False by (subst adjust_loop.simps) simp
  next
    case i: True
    have tin: "?t \<in> set (heap_of s pid)" using i by simp
    have ok: "timer_ok s pid ?t" using coreD(2) [OF adjustingD(1) [OF a] pid tin] .
    note pp = timer_ok_fields(5) [OF ok]
    have ni: "\<not> length (heap_of s pid) \<le> i" "\<not> rt_pp (ts_timer s ?t) \<noteq> pid" using i pp by auto
    from ok show ?thesis
    proof (cases rule: timer_ok_status)
      case 1
      have "adjusting pid s0 (i + 1) moved s" using adjusting_skip [OF a] 1 by simp
      then show ?thesis using "1.IH"(1) [OF ni(1) refl ni(2) 1] i pp pid 1 by (subst adjust_loop.simps) simp
    next
      case 2
      obtain s2 k where d: "dodeltimer pid i (set_status ?t TRemoving s) = Ret (s2, k)" "adjusting pid s0 k moved (removed pid ?t s2)"
        using adjust_delete [OF a pid i 2] .
      show ?thesis using "1.IH"(2) [OF ni(1) refl ni(2) 2 d(1) refl d(2) [unfolded removed_def] pid] i pp 2 d(1) by (subst adjust_loop.simps) simp
    next
      case 3
      obtain s2 k where d: "dodeltimer pid i (take_nextwhen ?t (set_status ?t TMoving s)) = Ret (s2, k)" "adjusting pid s0 k (moved @ [?t]) s2"
        using adjust_move [OF a pid i] 3 by metis
      show ?thesis using "1.IH"(3) [OF ni(1) refl ni(2) 3 d(1) refl d(2) pid] i pp 3 d(1) by (subst adjust_loop.simps) simp
    next
      case 4
      obtain s2 k where d: "dodeltimer pid i (take_nextwhen ?t (set_status ?t TMoving s)) = Ret (s2, k)" "adjusting pid s0 k (moved @ [?t]) s2"
        using adjust_move [OF a pid i] 4 by metis
      show ?thesis using "1.IH"(4) [OF ni(1) refl ni(2) 4 d(1) refl d(2) pid] i pp 4 d(1) by (subst adjust_loop.simps) simp
    qed
  qed
qed

lemma adjust_place:
  assumes a: "adjusting pid s0 (length (heap_of s pid)) (t # moved) s" and pid: "pid \<noteq> 0" and room: "length (heap_of s0 pid) < 2 ^ 32"
  obtains s2 where "doaddtimer pid t s = Ret s2" "adjusting pid s0 (length (heap_of s2 pid)) moved (set_status t TWaiting s2)"
proof -
  note A = adjustingD [OF a]
  have rd: "ready s t" using A(3) by simp
  have len: "length (heap_of s pid) + 1 < 2 ^ 32" using A(14) room by simp
  have tT: "t \<in> set (t # moved)" by simp
  show thesis
  proof (rule place_ok [OF A(1) pid tT _ _ _ _ len], goal_cases)
    case (5 s2 s')
    note r = 5
    have nt: "t \<notin> set moved" using A(2) by simp
    have T: "set (t # moved) - {t} = set moved" using nt by auto
    have f: "frame pid s0 s'" using frame_trans [OF A(7) r(6)] .
    have u: "ts_timer s' u = ts_timer s u" if "u \<noteq> t" for u using that r(5) by simp
    have hs: "set (heap_of s' pid) = insert t (set (heap_of s pid))" "length (heap_of s' pid) = Suc (length (heap_of s pid))"
      using mset_eq_setD [of "heap_of s' pid" "t # heap_of s pid"] mset_eq_length [of "heap_of s' pid" "t # heap_of s pid"] r(4) by simp_all
    have W: "status_of s' x = TWaiting" if "x \<in> set (heap_of s' pid)" for x
    proof (cases "x = t")
      case False
      then have "x \<in> set (heap_of s pid)" using that hs(1) by simp
      then obtain j where "j < length (heap_of s pid)" "x = heap_of s pid ! j" by (auto simp: in_set_conv_nth)
      then show ?thesis using A(4) u [OF False] by (simp add: status_of_def)
    qed (simp add: r(5) status_of_def)
    have D: "due s' = due s0"
    proof
      fix x
      show "due s' x = due s0 x"
      proof (cases "x = t")
        case True
        have "due s t = Some (when_of s t)" using rd by (simp add: due_def ready_def)
        moreover have "due s' t = Some (when_of s t)" using r(5) by (simp add: due_def fires_def status_of_def when_of_def)
        ultimately show ?thesis using A(8) True by simp
      next
        case False
        have "due s' x = due s x" unfolding due_def fires_def status_of_def when_of_def u [OF False] by (rule refl)
        then show ?thesis using A(8) by simp
      qed
    qed
    have "adjusting pid s0 (length (heap_of s2 pid)) moved s'"
      unfolding adjusting_def
    proof (intro conjI allI ballI impI)
      show "core (set moved) s'" using r(3) unfolding T .
      show "ready s' x" if "x \<in> set moved" for x
      proof -
        have "x \<noteq> t" using that nt by metis
        then show ?thesis using A(3) [of x] that unfolding ready_def status_of_def when_of_def u [OF \<open>x \<noteq> t\<close>] by simp
      qed
      show "kept_fields (ts_timer s' x) = kept_fields (ts_timer s0 x)" for x
        using A(9) [of x] u [of x] r(5) by (cases "x = t") simp_all
      show "rt_pp (ts_timer s' x) = rt_pp (ts_timer s0 x)" if "due s0 x \<noteq> None" "x \<notin> set moved" for x
        using A(10) [OF that(1)] A(11) [of x] that(2) u [of x] r(5) by (cases "x = t") simp_all
      show "ts_timer s' x = ts_timer s0 x" if "q \<noteq> pid" "q \<noteq> 0" "x \<in> set (heap_of s' q)" for q x
      proof -
        have x: "x \<in> set (heap_of s q)" using that frame_heap [OF r(6) that(1)] by simp
        have "x \<noteq> t" using heap_pp [OF A(1) that(2) x] coreD(3) [OF A(1) tT] that(2) by metis
        then show ?thesis using A(12) [OF that(1,2) x] u by simp
      qed
      show "pt_modifiedEarliest (ts_p s' pid) = 0" using r(8) A(6) by simp
      show "status_of s' (heap_of s' pid ! j) = TWaiting" if "j < length (heap_of s' pid)" for j using W [OF nth_mem [OF that]] .
    qed (use r(7) A(2,5,11,13,14) f D hs in auto)
    then show ?case using that r(1,2) by simp
  qed (use rd in \<open>simp_all add: ready_def\<close>)
qed

lemma addAdjusted_ok:
  "adjusting pid s0 (length (heap_of s pid)) moved s \<Longrightarrow> pid \<noteq> 0 \<Longrightarrow> length (heap_of s0 pid) < 2 ^ 32 \<Longrightarrow>
     \<exists>s'. addAdjustedTimers pid moved s = Ret s' \<and> adjusting pid s0 (length (heap_of s' pid)) [] s'"
proof (induction pid moved s rule: addAdjustedTimers.induct)
  case (2 pid t moved s)
  obtain s2 where d: "doaddtimer pid t s = Ret s2" "adjusting pid s0 (length (heap_of s2 pid)) moved (set_status t TWaiting s2)"
    using adjust_place [OF 2(2-4)] .
  show ?case using 2(1) [OF d(1) _ 2(3,4)] d by simp
qed simp

lemma adjusted_keeps:
  assumes inv: "timers_inv s0" and pid: "pid \<noteq> 0" and a: "adjusting pid s0 (length (heap_of s pid)) [] s"
  shows "keeps pid s0 s" "t \<in> set (heap_of s pid) \<Longrightarrow> status_of s t = TWaiting"
proof -
  note A = adjustingD [OF a]
  have c: "core {} s" using A(1) by simp
  have fr: "fires s = fires s0" using A(8) due_fires [OF c] due_fires [OF timers_invD(1) [OF inv]] by simp
  show W: "t \<in> set (heap_of s pid) \<Longrightarrow> status_of s t = TWaiting" for t using A(4) by (auto simp: in_set_conv_nth)
  have "earliest_ok s q" if "q \<noteq> 0" for q
  proof (cases "q = pid")
    case True
    then show ?thesis using W A(6) by (simp add: earliest_ok_def)
  next
    case False
    then show ?thesis using timers_invD(3) [OF inv that] A(12) [OF False that] frame_heap [OF A(7) False] by (intro earliest_other [OF _ A(7)]) auto
  qed
  then have "timers_inv s" using c A(5) by (simp add: inv_off_def)
  moreover have "status_of s0 u = TModifiedEarlier" if "status_of s u = TModifiedEarlier" for u
  proof -
    let ?q = "rt_pp (ts_timer s u)"
    have q: "?q \<noteq> 0" using coreD(5) [OF c, of u] that by auto
    have u: "u \<in> set (heap_of s ?q)" using coreD(4) [OF c q] by simp
    then have n: "?q \<noteq> pid" using W that by auto
    show ?thesis using A(12) [OF n q u] that by (simp add: status_of_def)
  qed
  moreover have "rt_pp (ts_timer s u) = rt_pp (ts_timer s0 u)" if "fires s0 u \<noteq> None" for u
    using A(10) [of u] that due_fires [OF timers_invD(1) [OF inv]] by simp
  ultimately show "keeps pid s0 s" using fr A(7,9,13,14) by (simp add: keeps_off_def)
qed

lemma adjusting_start:
  assumes inv: "timers_inv s" and pid: "pid \<noteq> 0"
  shows "adjusting pid s 0 [] (upd_p pid (\<lambda>p. p\<lparr>pt_modifiedEarliest := 0\<rparr>) s)"
proof -
  let ?s = "upd_p pid (\<lambda>p. p\<lparr>pt_modifiedEarliest := 0\<rparr>) s"
  have h: "heap_of ?s = heap_of s" by (simp add: heap_of_upd)
  have "core {} ?s" by (rule core_same [OF timers_invD(1) [OF inv]]) simp_all
  moreover have "deleted_ok ?s q = deleted_ok s q" for q by (simp add: deleted_ok_def deleted_count_def h)
  moreover have "due ?s = due s" by (simp add: due_def fires_def fun_eq_iff)
  ultimately show ?thesis using timers_invD(2) [OF inv] by (simp add: adjusting_def h)
qed

text \<open>Afterwards no timer waits to be moved to a time that has come.\<close>

definition moved_up :: "nat \<Rightarrow> int \<Rightarrow> tsys \<Rightarrow> bool" where
  "moved_up pid now s \<longleftrightarrow> (\<forall>t\<in>set (heap_of s pid). status_of s t = TModifiedEarlier \<longrightarrow> now < rt_nextwhen (ts_timer s t))"

lemma adjusttimers_places:
  assumes inv: "timers_inv s" and pid: "pid \<noteq> 0"
  shows "\<exists>s'. adjusttimers pid now s = Ret s' \<and> keeps pid s s' \<and> moved_up pid now s'
    \<and> (if pt_modifiedEarliest (ts_p s pid) = 0 \<or> pt_modifiedEarliest (ts_p s pid) > now then s' = s
       else \<forall>t\<in>set (heap_of s' pid). status_of s' t = TWaiting)"
proof (cases "pt_modifiedEarliest (ts_p s pid) = 0 \<or> pt_modifiedEarliest (ts_p s pid) > now")
  case True
  then have "moved_up pid now s" using timers_invD(3) [OF inv pid] by (force simp: moved_up_def earliest_ok_def)
  then show ?thesis using True keeps_refl [OF inv] by (auto simp: adjusttimers_def)
next
  case False
  obtain s1 moved where s1: "adjust_loop pid 0 [] (upd_p pid (\<lambda>p. p\<lparr>pt_modifiedEarliest := 0\<rparr>) s) = Ret (s1, moved)"
    "adjusting pid s (length (heap_of s1 pid)) moved s1"
    using adjust_loop_ok [OF adjusting_start [OF inv pid] pid] by blast
  have room: "length (heap_of s pid) < 2 ^ 32" using coreD(1) [OF timers_invD(1) [OF inv] pid] by (simp add: heap_inv_def)
  obtain s' where s': "addAdjustedTimers pid moved s1 = Ret s'" "adjusting pid s (length (heap_of s' pid)) [] s'"
    using addAdjusted_ok [OF s1(2) pid room] by blast
  note waiting = adjusted_keeps(2) [OF inv pid s'(2)]
  have "moved_up pid now s'" using adjusted_keeps(2) [OF inv pid s'(2)] by (simp add: moved_up_def)
  then show ?thesis using adjusted_keeps(1) [OF inv pid s'(2)] s1(1) s'(1) False waiting by (simp add: adjusttimers_def)
qed

lemma adjusttimers_ok:
  assumes "timers_inv s" and "pid \<noteq> 0"
  shows "\<exists>s'. adjusttimers pid now s = Ret s' \<and> keeps pid s s' \<and> moved_up pid now s'"
  using adjusttimers_places [OF assms, of now] by blast

lemma upkeepD:
  assumes "keeps pid s s'"
  shows "timers_inv s'" "fires s' = fires s" "frame pid s s'" "fires s t \<noteq> None \<Longrightarrow> rt_pp (ts_timer s' t) = rt_pp (ts_timer s t)"
    "kept_fields (ts_timer s' t) = kept_fields (ts_timer s t)" "set (heap_of s' pid) \<subseteq> set (heap_of s pid)" "length (heap_of s' pid) \<le> length (heap_of s pid)"
    "status_of s' t = TModifiedEarlier \<Longrightarrow> status_of s t = TModifiedEarlier"
  using assms unfolding keeps_off_def by blast+

lemma kept_fieldsD:
  assumes "kept_fields x = kept_fields y"
  shows "rt_period x = rt_period y" "rt_f x = rt_f y" "rt_arg x = rt_arg y" "rt_seq x = rt_seq y" "rt_nextwhen x = rt_nextwhen y"
  using assms by (cases x; cases y; simp add: kept_fields_def)+

lemma keeps_moved_up:
  assumes "keeps pid s s'" and "moved_up pid now s"
  shows "moved_up pid now s'"
  using upkeepD(6,8) [OF assms(1)] kept_fieldsD(5) [OF upkeepD(5) [OF assms(1)]] assms(2) unfolding moved_up_def by (metis subsetD)

lemma move_head_nonempty: "move_head pid t s = Ret s' \<Longrightarrow> heap_of s' pid \<noteq> []"
  by (auto simp: move_head_def obind_Ret dest!: doaddtimer_frame(2) [THEN arg_cong, of _ _ _ _ size])

section \<open>Running the first timer\<close>

text \<open>\<open>runtimer\<close> tidies the heap up until the first timer is waiting, or the heap is empty.\<close>

lemma runtimer_ok:
  "timers_inv s \<Longrightarrow> pid \<noteq> 0 \<Longrightarrow> heap_of s pid \<noteq> [] \<Longrightarrow>
     (\<exists>s'. keeps pid s s' \<and> heap_of s' pid = [] \<and> runtimer call pid now s = Ret (s', -1))
     \<or> (\<exists>s' t. keeps pid s s' \<and> heap_of s' pid \<noteq> [] \<and> t = heap_of s' pid ! 0 \<and> status_of s' t = TWaiting
         \<and> runtimer call pid now s = (if when_of s' t > now then Ret (s', when_of s' t)
             else obind (runOneTimer call pid t now (set_status t TRunning s')) (\<lambda>s. Ret (s, 0))))"
proof (induction call pid now s rule: runtimer.induct)
  case (1 call pid now s)
  note inv = 1(4) and pid = 1(5) and ne = 1(6)
  let ?t = "heap_of s pid ! 0"
  have tin: "?t \<in> set (heap_of s pid)" using ne by simp
  have ok: "timer_ok s pid ?t" using coreD(2) [OF timers_invD(1) [OF inv] pid tin] .
  note pp = timer_ok_fields(5) [OF ok]
  then have npp: "\<not> rt_pp (ts_timer s ?t) \<noteq> pid" by simp
  from ok show ?case
  proof (cases rule: timer_ok_status)
    case 1
    then show ?thesis using ne pp keeps_refl [OF inv] by (intro disjI2 exI [of _ s] exI [of _ ?t]) (simp add: runtimer.simps [of call pid now s] Let_def)
  next
    case 2
    obtain s1 where s1: "remove_head pid ?t s = Ret s1" "keeps pid s s1" using remove_head_ok [OF inv pid ne 2] .
    show ?thesis
    proof (cases "heap_of s1 pid = []")
      case True
      then show ?thesis using s1 2 ne pp by (intro disjI1 exI [of _ s1]) (simp add: runtimer.simps [of call pid now s])
    next
      case False
      have "runtimer call pid now s = runtimer call pid now s1" using s1(1) 2 ne pp False by (simp add: runtimer.simps [of call pid now s])
      then show ?thesis using "1.IH"(1) [OF ne refl npp 2 s1(1) False upkeepD(1) [OF s1(2)] pid False] keeps_trans [OF s1(2)] by metis
    qed
  next
    case 3
    obtain s1 where s1: "move_head pid ?t s = Ret s1" "keeps pid s s1" using move_head_ok [OF inv pid ne] 3 by blast
    have h: "heap_of s1 pid \<noteq> []" using move_head_nonempty [OF s1(1)] .
    have "runtimer call pid now s = runtimer call pid now s1" using s1(1) 3 ne pp by (simp add: runtimer.simps [of call pid now s])
    then show ?thesis using "1.IH"(2) [OF ne refl npp 3 s1(1) upkeepD(1) [OF s1(2)] pid h] keeps_trans [OF s1(2)] by metis
  next
    case 4
    obtain s1 where s1: "move_head pid ?t s = Ret s1" "keeps pid s s1" using move_head_ok [OF inv pid ne] 4 by blast
    have h: "heap_of s1 pid \<noteq> []" using move_head_nonempty [OF s1(1)] .
    have "runtimer call pid now s = runtimer call pid now s1" using s1(1) 4 ne pp by (simp add: runtimer.simps [of call pid now s])
    then show ?thesis using "1.IH"(3) [OF ne refl npp 4 s1(1) upkeepD(1) [OF s1(2)] pid h] keeps_trans [OF s1(2)] by metis
  qed
qed

lemma wrap64_id: "- (2 ^ 63) \<le> x \<Longrightarrow> x < 2 ^ 63 \<Longrightarrow> wrap64 x = x"
  unfolding wrap64_def by (rule signed_take_bit_int_eq_self) simp_all

lemma wrap64_add: "wrap64 (x + wrap64 y) = wrap64 (x + y)"
  unfolding wrap64_def using signed_take_bit_add [of 63 x "signed_take_bit 63 y"] signed_take_bit_add [of 63 x y] by simp

lemma wrap64_over:
  assumes "2 ^ 63 \<le> x" and "x < 2 ^ 64"
  shows "wrap64 x = x - 2 ^ 64"
proof -
  have "wrap64 x = wrap64 (x - 2 ^ 64)"
    unfolding wrap64_def by (simp add: signed_take_bit_eq_iff_take_bit_eq take_bit_eq_mod)
  then show ?thesis using wrap64_id [of "x - 2 ^ 64"] assms by simp
qed

lemma mult_div_le_int: "0 < p \<Longrightarrow> p * (x div p) \<le> x" for p x :: int
  using mult_div_mod_eq [of p x] pos_mod_sign [of p x] by linarith

text \<open>A periodic timer fires next at the first multiple of its period that is still to come.\<close>

lemma next_period_eq:
  assumes "0 < when'" "when' \<le> now" "now \<le> maxWhen" "0 < period" "period \<le> maxWhen"
  shows "next_period now period when' = min maxWhen (when' + period * (1 + (now - when') div period))"
proof -
  define q where "q = (now - when') div period"
  have m: "maxWhen = 2 ^ 63 - 1" by (simp add: maxWhen_def)
  have q: "0 \<le> q" "q \<le> now - when'" "period * q \<le> now - when'"
    using assms zdiv_mono2 [of "now - when'" 1 period] by (simp_all add: q_def pos_imp_zdiv_nonneg_iff mult_div_le_int)
  have d: "wrap64 (when' - now) = when' - now" "wrap64 (- (when' - now)) = now - when'"
    using assms m by (simp_all add: wrap64_id)
  have s: "(now - when') sdiv period = q" using assms by (cases "now = when'") (simp_all add: q_def signed_divide_int_def)
  have q1: "wrap64 (1 + q) = 1 + q" using q assms m by (intro wrap64_id) linarith+
  define v where "v = when' + period * (1 + q)"
  have pq: "period * (1 + q) = period + period * q" by (simp add: distrib_left)
  have "0 \<le> period * q" using q(1) assms by simp
  then have v0: "0 < v" using assms unfolding v_def pq by linarith
  have "v \<le> maxWhen + maxWhen" using q(3) assms unfolding v_def pq by linarith
  then have v: "0 < v" "v < 2 ^ 64" using m v0 by simp_all
  have "next_period now period when' = (if wrap64 v < 0 then maxWhen else wrap64 v)"
    unfolding next_period_def Let_def d s q1 v_def wrap64_add by (rule refl)
  also have "\<dots> = min maxWhen v"
  proof (cases "v < 2 ^ 63")
    case True
    then show ?thesis using wrap64_id [of v] v m by simp
  next
    case False
    then show ?thesis using wrap64_over [of v] v m by simp
  qed
  finally show ?thesis by (simp add: v_def q_def)
qed

lemma next_period_bounds:
  assumes "0 < when'" "when' \<le> now" "now < maxWhen" "0 < period" "period \<le> maxWhen"
  shows "now < next_period now period when'" "next_period now period when' \<le> maxWhen" "next_period now period when' \<le> now + period"
proof -
  have "(now - when') mod period < period" using assms by simp
  then have "now - when' < period * (1 + (now - when') div period)"
    using mult_div_mod_eq [of period "now - when'"] unfolding distrib_left by linarith
  moreover have "period * ((now - when') div period) \<le> now - when'" using assms by (simp add: mult_div_le_int)
  then have "period * (1 + (now - when') div period) \<le> now - when' + period" by (simp add: distrib_left)
  ultimately show "now < next_period now period when'" "next_period now period when' \<le> maxWhen" "next_period now period when' \<le> now + period"
    using next_period_eq [of when' now period] assms by auto
qed

text \<open>Only the first timer changes: the rest of the heap is in order below it.\<close>

lemma heap_below_root:
  assumes "heap w xs" and "distinct xs" and "\<And>x. x \<in> set xs \<Longrightarrow> x \<noteq> xs ! 0 \<Longrightarrow> w' x = w x"
  shows "heap_below w' xs 0"
  unfolding heap_below_def
proof (intro allI impI)
  fix j :: nat
  assume j: "0 < j" "j < length xs"
  show "if parent j = 0 then (0::nat) < 0 \<longrightarrow> w' (xs ! parent 0) \<le> w' (xs ! j) else w' (xs ! parent j) \<le> w' (xs ! j)"
  proof (cases "parent j = 0")
    case False
    have l: "parent j < length xs" using parent_less [OF j(1)] j(2) by simp
    have "xs \<noteq> []" using j by auto
    then have "xs ! parent j \<noteq> xs ! 0" "xs ! j \<noteq> xs ! 0" using False j l assms(2) nth_eq_iff_index_eq [of xs "parent j" 0] nth_eq_iff_index_eq [of xs j 0] by auto
    moreover have "w (xs ! parent j) \<le> w (xs ! j)" using assms(1) j by (simp add: heap_def)
    ultimately show ?thesis using assms(3) [of "xs ! parent j"] assms(3) [of "xs ! j"] False l j(2) by simp
  qed simp
qed

lemma reset_head_ok:
  assumes c: "core {} s" and pid: "pid \<noteq> 0" and ne: "heap_of s pid \<noteq> []" and t: "t = heap_of s pid ! 0"
    and s1: "same_heaps s s1" "ts_timer s1 = (ts_timer s)(t := x)"
    and x: "rt_pp x = pid" "0 < rt_when x" "rt_when x \<le> maxWhen" "0 \<le> rt_period x" "rt_period x \<le> maxWhen"
  obtains ts s2 where "siftdownTimer (when_of s1) (heap_of s pid) 0 = Ret ts"
    "s2 = updateTimer0When pid (set_status t TWaiting (upd_p pid (\<lambda>p. p\<lparr>pt_timers := ts\<rparr>) s1))" "core {} s2"
    "mset (heap_of s2 pid) = mset (heap_of s pid)" "ts_timer s2 = (ts_timer s)(t := x\<lparr>rt_status := TWaiting\<rparr>)" "frame pid s1 s2"
    "pt_deletedTimers (ts_p s2 pid) = pt_deletedTimers (ts_p s1 pid)" "pt_modifiedEarliest (ts_p s2 pid) = pt_modifiedEarliest (ts_p s1 pid)"
proof -
  let ?xs = "heap_of s pid"
  have h: "heap_of s1 = heap_of s" using same_heaps_heap [OF s1(1)] .
  have inv: "heap_inv s pid" using coreD(1) [OF c pid] .
  have tin: "t \<in> set ?xs" using ne t by simp
  have w: "when_of s1 u = (if u = t then rt_when x else when_of s u)" for u using s1(2) by (simp add: when_of_def)
  have pos: "0 < length ?xs" "0 < when_of s1 (?xs ! 0)" using ne x(2) w t by simp_all
  have b: "heap_below (when_of s1) ?xs 0" using heap_below_root [of "when_of s" ?xs "when_of s1"] inv w t by (simp add: heap_inv_def)
  obtain ts where ts: "siftdownTimer (when_of s1) ?xs 0 = Ret ts" "mset ts = mset ?xs" "heap (when_of s1) ts"
    using siftdownTimer_ok [of 0 ?xs "when_of s1", OF pos] b by metis
  define s2 where "s2 = updateTimer0When pid (set_status t TWaiting (upd_p pid (\<lambda>p. p\<lparr>pt_timers := ts\<rparr>) s1))"
  have tm: "ts_timer s2 = (ts_timer s)(t := x\<lparr>rt_status := TWaiting\<rparr>)" using s1(2) by (simp add: s2_def set_status_def fun_eq_iff)
  have h2: "heap_of s2 q = (if q = pid then ts else heap_of s q)" for q by (simp add: s2_def h)
  have w2: "when_of s2 = when_of s1" using tm s1(2) by (simp add: when_of_def fun_eq_iff)
  have set: "set ts = set ?xs" "length ts = length ?xs" using mset_eq_setD [OF ts(2)] mset_eq_length [OF ts(2)] by simp_all
  have f: "frame pid s1 s2" unfolding s2_def by (intro frame_trans [OF frame_trans [OF frame_upd(2) frame_upd(3)] frame_upd(5)])
  have A: "heap_inv s2 q \<and> (\<forall>u\<in>set (heap_of s2 q). timer_ok s2 q u)" if "q \<noteq> 0" for q
  proof (cases "q = pid")
    case True
    have "timer_ok s2 pid u" if "u \<in> set ts" for u
      using coreD(2) [OF c pid, of u] that set x tm by (cases "u = t") (simp_all add: timer_ok_def Let_def)
    moreover from this have "\<forall>u\<in>set ts. rt_pp (ts_timer s2 u) = pid \<and> 0 < when_of s2 u" using timer_ok_fields by blast
    moreover have "distinct ts" using inv mset_eq_imp_distinct_iff [OF ts(2)] by (simp add: heap_inv_def)
    moreover have "pt_numTimers (ts_p s2 pid) = of_nat (length ts)" "pt_timer0When (ts_p s2 pid) = (if ts = [] then 0 else when_of s2 (ts ! 0))"
      using inv s1(1) set(2) w2 by (simp_all add: s2_def set_status_def heap_inv_def same_heaps_def)
    ultimately show ?thesis using True h2 ts(3) inv set(2) w2 by (simp add: heap_inv_def)
  next
    case False
    have e: "ts_timer s2 u = ts_timer s u" if "u \<in> set (heap_of s q)" for u
      using that off_heaps [OF c pid tin \<open>q \<noteq> 0\<close> False] tm by auto
    have "heap_inv s2 q = heap_inv s1 q" using f False that e s1(2) h off_heaps [OF c pid tin \<open>q \<noteq> 0\<close> False]
      by (intro heap_inv_local) (auto simp: frame_def when_of_def)
    also have "\<dots> = heap_inv s q" using e tm s1(2) off_heaps [OF c pid tin \<open>q \<noteq> 0\<close> False] by (intro heap_inv_cong [OF s1(1)]) (auto simp: when_of_def)
    finally have "heap_inv s2 q" using coreD(1) [OF c that] by simp
    moreover have "timer_ok s2 q u" if "u \<in> set (heap_of s2 q)" for u
      using that coreD(2) [OF c \<open>q \<noteq> 0\<close>, of u] e [of u] h2 False by (simp add: timer_ok_def)
    ultimately show ?thesis by blast
  qed
  have pp: "rt_pp (ts_timer s2 u) = rt_pp (ts_timer s u)" for u using tm x(1) heap_pp [OF c pid tin] by simp
  have B: "u \<in> set (heap_of s2 (rt_pp (ts_timer s2 u)))" if "rt_pp (ts_timer s2 u) \<noteq> 0" for u
    using coreD(4) [OF c, of "rt_pp (ts_timer s u)" u] that pp [of u] set h2 by (cases "rt_pp (ts_timer s u) = pid") simp_all
  have C: "status_of s2 u = TNoStatus \<or> status_of s2 u = TRemoved" if "rt_pp (ts_timer s2 u) = 0" for u
  proof -
    have "u \<noteq> t" using that x(1) tm pid by auto
    then show ?thesis using coreD(5) [OF c, of u] that pp [of u] tm by (simp add: status_of_def)
  qed
  have "core {} s2" unfolding core_def using A B C by (intro conjI allI impI) simp_all
  moreover have "pt_deletedTimers (ts_p s2 pid) = pt_deletedTimers (ts_p s1 pid)" "pt_modifiedEarliest (ts_p s2 pid) = pt_modifiedEarliest (ts_p s1 pid)"
    by (simp_all add: s2_def set_status_def)
  ultimately show thesis using that [OF ts(1) s2_def] tm f h2 ts(2) by simp
qed

text \<open>When a timer that runs fires again.\<close>

definition fires_again :: "int \<Rightarrow> rtimer \<Rightarrow> int option" where
  "fires_again now x = (if 0 < rt_period x then Some (next_period now (rt_period x) (rt_when x)) else None)"

lemma log_simps [simp]:
  "ts_timer (s\<lparr>ts_log := l\<rparr>) = ts_timer s" "ts_p (s\<lparr>ts_log := l\<rparr>) = ts_p s" "heap_of (s\<lparr>ts_log := l\<rparr>) = heap_of s"
  "status_of (s\<lparr>ts_log := l\<rparr>) = status_of s" "when_of (s\<lparr>ts_log := l\<rparr>) = when_of s" "fires (s\<lparr>ts_log := l\<rparr>) = fires s"
  by (simp_all add: heap_of_def status_of_def when_of_def fires_def fun_eq_iff)

text \<open>The heap, its counters and the timers are all that the invariant is about.\<close>

lemma timers_inv_cong:
  assumes "ts_timer s' = ts_timer s" and "ts_p s' = ts_p s"
  shows "inv_off T s' = inv_off T s"
  unfolding inv_off_def core_def heap_inv_def timer_ok_def deleted_ok_def earliest_ok_def deleted_count_def heap_of_def
    status_of_def when_of_def assms by (rule refl)

definition ran_once :: "nat \<Rightarrow> nat \<Rightarrow> int \<Rightarrow> tsys \<Rightarrow> tsys \<Rightarrow> bool" where
  "ran_once pid t now s s' \<longleftrightarrow> timers_inv s' \<and> fires s' = (fires s)(t := fires_again now (ts_timer s t)) \<and> frame pid s s'
     \<and> (\<forall>u. u \<noteq> t \<longrightarrow> ts_timer s' u = ts_timer s u) \<and> kept_fields (ts_timer s' t) = kept_fields (ts_timer s t)
     \<and> rt_pp (ts_timer s' t) = (if 0 < rt_period (ts_timer s t) then pid else 0) \<and> set (heap_of s' pid) \<subseteq> set (heap_of s pid)
     \<and> status_of s' t \<noteq> TModifiedEarlier"

lemma run_inv:
  assumes inv: "timers_inv s" and pid: "pid \<noteq> 0" and tin: "t \<in> set (heap_of s pid)" and st: "status_of s t = TWaiting"
    and r: "core {} s'" "mset (heap_of s pid) = (if b then add_mset t (mset (heap_of s' pid)) else mset (heap_of s' pid))" "ts_timer s' = (ts_timer s)(t := x)"
      "rt_status x = (if b then TNoStatus else TWaiting)" "frame pid s s'" "pt_deletedTimers (ts_p s' pid) = pt_deletedTimers (ts_p s pid)"
      "pt_modifiedEarliest (ts_p s' pid) = (if heap_of s' pid = [] then 0 else pt_modifiedEarliest (ts_p s pid))"
  shows "timers_inv s'" "set (heap_of s' pid) \<subseteq> set (heap_of s pid)"
proof -
  note c = timers_invD(1) [OF inv]
  have off: "t \<notin> set (heap_of s q)" if "q \<noteq> 0" "q \<noteq> pid" for q using off_heaps [OF c pid tin that] .
  have u: "ts_timer s' u = ts_timer s u" if "u \<noteq> t" for u using r(3) that by simp
  have "set_mset (mset (heap_of s' pid)) \<subseteq> set_mset (mset (heap_of s pid))" unfolding r(2) by auto
  then show sub: "set (heap_of s' pid) \<subseteq> set (heap_of s pid)" by simp
  have d: "deleted_count s' pid = deleted_count s pid"
  proof -
    have e: "filter_mset (\<lambda>u. status_of s' u = TDeleted) M = filter_mset (\<lambda>u. status_of s u = TDeleted) M" for M
      by (intro filter_mset_cong) (use st r(3,4) in \<open>auto simp: status_of_def\<close>)
    show ?thesis unfolding deleted_count_def r(2) e using st by simp
  qed
  have "deleted_ok s' q \<and> earliest_ok s' q" if "q \<noteq> 0" for q
  proof (cases "q = pid")
    case True
    have "earliest_ok s' pid"
    proof (rule earliest_local [OF timers_invD(3) [OF inv pid]])
      show "v \<in> set (heap_of s pid) \<and> ts_timer s' v = ts_timer s v" if "v \<in> set (heap_of s' pid)" "status_of s' v = TModifiedEarlier" for v
        using that sub r(3,4) by (auto simp: status_of_def split: if_splits)
    qed (use r(7) in auto)
    then show ?thesis using timers_invD(2) [OF inv pid] d r(6) True by (simp add: deleted_ok_def)
  next
    case False
    have e: "ts_timer s' v = ts_timer s v" if "v \<in> set (heap_of s q)" for v using u off [OF \<open>q \<noteq> 0\<close> False] that by metis
    have "deleted_ok s' q = deleted_ok s q" using e by (intro deleted_other [OF r(5) False]) (simp add: status_of_def)
    then show ?thesis using timers_invD(2,3) [OF inv that] earliest_other [OF _ r(5) False e] by blast
  qed
  then show "timers_inv s'" using r(1) by (simp add: inv_off_def)
qed

lemma runOneTimer_ok:
  assumes inv: "timers_inv s" and pid: "pid \<noteq> 0" and ne: "heap_of s pid \<noteq> []" and t: "t = heap_of s pid ! 0" and st: "status_of s t = TWaiting"
    and w: "when_of s t \<le> now" and now: "now < maxWhen"
  obtains s' where "ran_once pid t now s s'"
    "\<And>call. runOneTimer call pid t now (set_status t TRunning s) = (let x = ts_timer s t in
       Ret (call (rt_f x) (rt_arg x) (rt_seq x) (s'\<lparr>ts_log := ts_log s @ [TimerFunc (rt_f x) (rt_arg x) (rt_seq x)]\<rparr>)))"
proof -
  let ?x = "ts_timer s t"
  note c = timers_invD(1) [OF inv]
  have tin: "t \<in> set (heap_of s pid)" using ne t by simp
  note ok = timer_ok_fields [OF coreD(2) [OF c pid tin]]
  have other: "fires s' u = fires s u" if "ts_timer s' u = ts_timer s u" for s' u using that by (simp add: fires_def)
  show thesis
  proof (cases "0 < rt_period ?x")
    case True
    define n where "n = next_period now (rt_period ?x) (rt_when ?x)"
    have nb: "now < n" "n \<le> maxWhen" using next_period_bounds [of "rt_when ?x" now "rt_period ?x"] ok w now True by (simp_all add: n_def when_of_def)
    have npos: "0 < n" using nb(1) w ok(1) by simp
    define s1 where "s1 = upd_timer t (\<lambda>x. x\<lparr>rt_when := n\<rparr>) (set_status t TRunning s)"
    have s1: "same_heaps s s1" "ts_timer s1 = (ts_timer s)(t := ?x\<lparr>rt_status := TRunning, rt_when := n\<rparr>)"
      by (simp_all add: s1_def set_status_def)
    obtain ts s2 where r: "siftdownTimer (when_of s1) (heap_of s pid) 0 = Ret ts"
      "s2 = updateTimer0When pid (set_status t TWaiting (upd_p pid (\<lambda>p. p\<lparr>pt_timers := ts\<rparr>) s1))" "core {} s2"
      "mset (heap_of s2 pid) = mset (heap_of s pid)" "ts_timer s2 = (ts_timer s)(t := ?x\<lparr>rt_status := TRunning, rt_when := n, rt_status := TWaiting\<rparr>)" "frame pid s1 s2"
      "pt_deletedTimers (ts_p s2 pid) = pt_deletedTimers (ts_p s1 pid)" "pt_modifiedEarliest (ts_p s2 pid) = pt_modifiedEarliest (ts_p s1 pid)"
      using reset_head_ok [OF c pid ne t s1] ok nb(2) npos by auto
    have f: "frame pid s s2" using frame_trans [OF frame_trans [OF frame_upd(3) frame_upd(1)] r(6) [unfolded s1_def]] .
    have h2: "heap_of s2 pid \<noteq> []" using r(4) ne by (metis mset_zero_iff)
    have p1: "ts_p s1 = ts_p s" by (simp add: s1_def set_status_def)
    have inv2: "timers_inv s2" "set (heap_of s2 pid) \<subseteq> set (heap_of s pid)"
      using run_inv [OF inv pid tin st r(3) _ r(5) _ f, of False] r(4,7,8) h2 p1 by simp_all
    have "fires s2 = (fires s)(t := fires_again now ?x)"
    proof
      fix u
      show "fires s2 u = ((fires s)(t := fires_again now ?x)) u"
        using other [of s2 u] r(5) True by (cases "u = t") (simp_all add: fires_def fires_again_def n_def)
    qed
    then have ran: "ran_once pid t now s s2" using inv2 f r(5) True ok(5) by (simp add: ran_once_def status_of_def rt_order)
    have per: "rt_period (ts_timer (set_status t TRunning s) t) = rt_period ?x" "rt_when (ts_timer (set_status t TRunning s) t) = rt_when ?x"
      "rt_f (ts_timer (set_status t TRunning s) t) = rt_f ?x" "rt_arg (ts_timer (set_status t TRunning s) t) = rt_arg ?x" "rt_seq (ts_timer (set_status t TRunning s) t) = rt_seq ?x"
      by (simp_all add: set_status_def)
    have hs1: "heap_of s1 pid = heap_of s pid" by (simp add: s1_def)
    have "ts_log s2 = ts_log s" using f by (simp add: frame_def)
    moreover have "upd_timer t (\<lambda>x. x\<lparr>rt_when := next_period now (rt_period x) (rt_when x)\<rparr>) (set_status t TRunning s) = s1"
      by (simp add: s1_def n_def upd_timer_def set_status_def)
    ultimately show thesis using that [OF ran] r(1,2) True hs1 by (simp add: runOneTimer_def Let_def per)
  next
    case False
    have i: "0 < length (heap_of s pid)" using ne by simp
    show thesis
    proof (rule take_ok [OF c pid i t, of "set_status t TRunning s" "?x\<lparr>rt_status := TRunning\<rparr>"], goal_cases)
      case (4 s2 k)
      note r = 4
      let ?s = "set_status t TNoStatus s2"
      have k: "k = 0" using r(2) by simp
      have core: "core {} ?s" using core_drop [OF r(3), of t TNoStatus] by simp
      have tm: "ts_timer ?s = (ts_timer s)(t := ?x\<lparr>rt_pp := 0, rt_status := TNoStatus\<rparr>)"
        using r(5) by (simp add: set_status_def fun_eq_iff rt_order)
      have f: "frame pid s ?s" using frame_trans [OF frame_trans [OF frame_upd(3) r(6)] frame_upd(3)] .
      have inv2: "timers_inv ?s" "set (heap_of ?s pid) \<subseteq> set (heap_of s pid)"
        using run_inv [OF inv pid tin st core _ tm _ f, of True] r(4,7,8) by (simp_all add: set_status_def)
      have "fires ?s = (fires s)(t := fires_again now ?x)"
      proof
        fix u
        show "fires ?s u = ((fires s)(t := fires_again now ?x)) u"
          using other [of ?s u] tm False by (cases "u = t") (simp_all add: fires_def fires_again_def)
      qed
      then have ran: "ran_once pid t now s ?s" using inv2 f tm False by (simp add: ran_once_def)
      have per: "rt_period (ts_timer (set_status t TRunning s) t) = rt_period ?x"
        "rt_f (ts_timer (set_status t TRunning s) t) = rt_f ?x" "rt_arg (ts_timer (set_status t TRunning s) t) = rt_arg ?x" "rt_seq (ts_timer (set_status t TRunning s) t) = rt_seq ?x"
        by (simp_all add: set_status_def)
      have "ts_log ?s = ts_log s" using f by (simp add: frame_def)
      then show thesis using that [OF ran] r(1) k False by (simp add: runOneTimer_def Let_def per dodeltimer0_alt [THEN iffD2])
    qed (use ok(5) in \<open>simp_all add: set_status_def\<close>)
  qed
qed

section \<open>The loop of the scheduler\<close>

text \<open>The timers of \<open>pid\<close> whose time has come; when one of them fires again after it ran; the call that is made.\<close>

definition due_now :: "nat \<Rightarrow> int \<Rightarrow> tsys \<Rightarrow> nat set" where
  "due_now pid now s = {t. rt_pp (ts_timer s t) = pid \<and> (\<exists>x. fires s t = Some x \<and> x \<le> now)}"

definition again :: "int \<Rightarrow> tsys \<Rightarrow> nat \<Rightarrow> int option" where
  "again now s t = (let p = rt_period (ts_timer s t) in if 0 < p then Some (next_period now p (the (fires s t))) else None)"

definition timer_event :: "tsys \<Rightarrow> nat \<Rightarrow> tevent" where
  "timer_event s t = (let x = ts_timer s t in TimerFunc (rt_f x) (rt_arg x) (rt_seq x))"

text \<open>The due timers \<open>ts\<close> of \<open>pid\<close> have run, each once, in the order of their times.\<close>

definition ran_due :: "nat \<Rightarrow> int \<Rightarrow> tsys \<Rightarrow> nat list \<Rightarrow> tsys \<Rightarrow> bool" where
  "ran_due pid now s ts s' \<longleftrightarrow> timers_inv s' \<and> distinct ts \<and> set ts = due_now pid now s \<and> sorted (map (\<lambda>t. the (fires s t)) ts)
     \<and> ts_log s' = ts_log s @ map (timer_event s) ts \<and> fires s' = (\<lambda>t. if t \<in> set ts then again now s t else fires s t)
     \<and> (\<forall>t. kept_fields (ts_timer s' t) = kept_fields (ts_timer s t)) \<and> due_now pid now s' = {}"

text \<open>Functions of timers that leave the timers alone.\<close>

definition quiet :: "timer_call \<Rightarrow> bool" where
  "quiet call \<longleftrightarrow> (\<forall>f a q s. ts_timer (call f a q s) = ts_timer s \<and> ts_p (call f a q s) = ts_p s \<and> ts_log (call f a q s) = ts_log s)"

lemma keeps_due:
  assumes "keeps pid s s'"
  shows "due_now q now s' = due_now q now s" "again now s' = again now s" "timer_event s' = timer_event s"
proof -
  note k = upkeepD [OF assms]
  note f = kept_fieldsD [OF k(5)]
  show "due_now q now s' = due_now q now s" using k(2,4) unfolding due_now_def by auto
  show "again now s' = again now s" by (simp add: again_def k(2) f fun_eq_iff Let_def)
  show "timer_event s' = timer_event s" by (simp add: timer_event_def f fun_eq_iff Let_def)
qed

lemma fires_heap:
  assumes "core {} s" and "fires s t \<noteq> None"
  shows "rt_pp (ts_timer s t) \<noteq> 0" "t \<in> set (heap_of s (rt_pp (ts_timer s t)))"
proof -
  show "rt_pp (ts_timer s t) \<noteq> 0"
    using coreD(5) [OF assms(1), of t] assms(2) by (cases "rt_pp (ts_timer s t) = 0") (auto simp: fires_def status_of_def Let_def)
  then show "t \<in> set (heap_of s (rt_pp (ts_timer s t)))" using coreD(4) [OF assms(1)] by simp
qed

lemma due_in_heap: "core {} s \<Longrightarrow> t \<in> due_now pid now s \<Longrightarrow> t \<in> set (heap_of s pid)"
  using fires_heap(2) [of s t] by (auto simp: due_now_def)

lemma finite_due: "core {} s \<Longrightarrow> finite (due_now pid now s)"
  by (rule finite_subset [of _ "set (heap_of s pid)"]) (auto dest: due_in_heap)

text \<open>The first timer is the first to fire, but for timers that wait to be moved.\<close>

lemma root_first:
  assumes c: "core {} s" and pid: "pid \<noteq> 0" and t: "t \<in> set (heap_of s pid)" and f: "fires s t = Some x" and ne: "status_of s t \<noteq> TModifiedEarlier"
  shows "when_of s (heap_of s pid ! 0) \<le> x"
proof -
  have "when_of s (heap_of s pid ! 0) \<le> when_of s t" using heap_root [of "when_of s" "heap_of s pid" t] coreD(1) [OF c pid] t by (simp add: heap_inv_def)
  moreover have "when_of s t \<le> x"
    using coreD(2) [OF c pid t] f ne by (auto simp: timer_ok_def fires_def status_of_def when_of_def Let_def split: tstatus.splits)
  ultimately show ?thesis by simp
qed

lemma due_after_root:
  assumes c: "core {} s" and pid: "pid \<noteq> 0" and m: "moved_up pid now s" and t: "t \<in> due_now pid now s"
  shows "when_of s (heap_of s pid ! 0) \<le> the (fires s t)" "the (fires s t) \<le> now"
proof -
  have tin: "t \<in> set (heap_of s pid)" using due_in_heap [OF c t] .
  obtain x where x: "fires s t = Some x" "x \<le> now" using t by (auto simp: due_now_def)
  have "status_of s t \<noteq> TModifiedEarlier"
    using m tin x by (auto simp: moved_up_def fires_def status_of_def Let_def)
  then show "when_of s (heap_of s pid ! 0) \<le> the (fires s t)" "the (fires s t) \<le> now" using root_first [OF c pid tin x(1)] x by simp_all
qed

lemma fires_waiting: "status_of s t = TWaiting \<Longrightarrow> fires s t = Some (when_of s t)"
  by (simp add: fires_def status_of_def when_of_def Let_def)

lemma ran_once_due:
  assumes r: "ran_once pid t now s s'" and inv: "timers_inv s" and pid: "pid \<noteq> 0" and tin: "t \<in> set (heap_of s pid)" and st: "status_of s t = TWaiting"
    and w: "when_of s t \<le> now" and now: "now < maxWhen"
  shows "t \<in> due_now pid now s" "due_now pid now s' = due_now pid now s - {t}" "fires s' t = again now s t"
    "\<And>u. u \<noteq> t \<Longrightarrow> again now s' u = again now s u" "\<And>u. kept_fields (ts_timer s' u) = kept_fields (ts_timer s u)" "moved_up pid now s \<Longrightarrow> moved_up pid now s'"
proof -
  note ok = timer_ok_fields [OF coreD(2) [OF timers_invD(1) [OF inv] pid tin]]
  have R: "fires s' = (fires s)(t := fires_again now (ts_timer s t))" "\<And>u. u \<noteq> t \<Longrightarrow> ts_timer s' u = ts_timer s u"
    "kept_fields (ts_timer s' t) = kept_fields (ts_timer s t)" "set (heap_of s' pid) \<subseteq> set (heap_of s pid)" "status_of s' t \<noteq> TModifiedEarlier"
    using r unfolding ran_once_def by blast+
  show "t \<in> due_now pid now s" using fires_waiting [OF st] w ok(5) by (simp add: due_now_def)
  have "t \<notin> due_now pid now s'"
    using R(1) next_period_bounds(1) [of "when_of s t" now "rt_period (ts_timer s t)"] ok w now by (auto simp: due_now_def fires_again_def when_of_def)
  moreover have "\<forall>u. u \<noteq> t \<longrightarrow> u \<in> due_now pid now s' \<longleftrightarrow> u \<in> due_now pid now s" using R(1,2) by (simp add: due_now_def)
  ultimately have "u \<in> due_now pid now s' \<longleftrightarrow> u \<in> due_now pid now s - {t}" for u by (cases "u = t") simp_all
  then show "due_now pid now s' = due_now pid now s - {t}" by (rule set_eqI)
  show "fires s' t = again now s t" using R(1) fires_waiting [OF st] by (simp add: fires_again_def again_def when_of_def)
  show "u \<noteq> t \<Longrightarrow> again now s' u = again now s u" for u using R(1,2) by (simp add: again_def Let_def)
  show "kept_fields (ts_timer s' u) = kept_fields (ts_timer s u)" for u using R(2,3) by (cases "u = t") simp_all
  show "moved_up pid now s'" if "moved_up pid now s"
    unfolding moved_up_def
  proof (intro ballI impI)
    fix u
    assume u: "u \<in> set (heap_of s' pid)" "status_of s' u = TModifiedEarlier"
    then have "u \<noteq> t" "u \<in> set (heap_of s pid)" using R(4,5) by auto
    then show "now < rt_nextwhen (ts_timer s' u)" using that u(2) R(2) by (simp add: moved_up_def status_of_def)
  qed
qed

lemma ran_due_step:
  assumes k: "keeps pid s s1" and r: "ran_once pid t now s1 s2" and inv: "timers_inv s1" and pid: "pid \<noteq> 0" and t: "t = heap_of s1 pid ! 0" "heap_of s1 pid \<noteq> []"
    and st: "status_of s1 t = TWaiting" and w: "when_of s1 t \<le> now" "now < maxWhen" and m: "moved_up pid now s1"
    and s3: "ts_timer s3 = ts_timer s2" "ts_p s3 = ts_p s2" "ts_log s3 = ts_log s1 @ [timer_event s1 t]" and d: "ran_due pid now s3 ts s'"
  shows "ran_due pid now s (t # ts) s'"
proof -
  have tin: "t \<in> set (heap_of s1 pid)" using t by simp
  note R = ran_once_due [OF r inv pid tin st w]
  have e1: "fires s3 = fires s2" by (simp add: fires_def s3 fun_eq_iff)
  have e: "fires s3 = fires s2" "due_now q n s3 = due_now q n s2" "again now s3 = again now s2" for q n
    by (simp_all add: e1 due_now_def again_def s3 fun_eq_iff Let_def)
  have f2: "fires s2 u = fires s1 u" if "u \<noteq> t" for u using r that by (simp add: ran_once_def)
  have D: "timers_inv s'" "distinct ts" "set ts = due_now pid now s1 - {t}" "sorted (map (\<lambda>u. the (fires s3 u)) ts)"
    "ts_log s' = ts_log s1 @ timer_event s1 t # map (timer_event s3) ts" "fires s' = (\<lambda>u. if u \<in> set ts then again now s2 u else fires s2 u)"
    "\<And>u. kept_fields (ts_timer s' u) = kept_fields (ts_timer s2 u)" "due_now pid now s' = {}"
    using d R(2) s3 e unfolding ran_due_def by auto
  have nt: "u \<in> set ts \<Longrightarrow> u \<noteq> t" for u using D(3) by simp
  have K: "fires s1 = fires s" "due_now pid now s1 = due_now pid now s" "again now s1 = again now s" "timer_event s1 = timer_event s" "ts_log s1 = ts_log s"
    using upkeepD(2,3) [OF k] keeps_due [OF k] by (simp_all add: frame_def)
  have "map (\<lambda>u. the (fires s3 u)) ts = map (\<lambda>u. the (fires s u)) ts" using f2 nt e K by simp
  then have "sorted (map (\<lambda>u. the (fires s u)) ts)" using D(4) by metis
  moreover have "the (fires s t) \<le> the (fires s u)" if "u \<in> set ts" for u
    using due_after_root(1) [OF timers_invD(1) [OF inv] pid m, of u] that D(3) t(1) fires_waiting [OF st] K(1) by simp
  ultimately have so: "sorted (map (\<lambda>u. the (fires s u)) (t # ts))" by simp
  have ev: "timer_event s3 = timer_event s1" using kept_fieldsD [OF R(5)] by (simp add: timer_event_def s3 Let_def fun_eq_iff)
  have fi: "fires s' = (\<lambda>u. if u \<in> set (t # ts) then again now s u else fires s u)"
  proof
    show "fires s' u = (if u \<in> set (t # ts) then again now s u else fires s u)" for u
      using D(6) R(3) R(4) [of u] nt [of u] f2 [of u] K by (cases "u = t") auto
  qed
  have kf: "kept_fields (ts_timer s' u) = kept_fields (ts_timer s u)" for u using D(7) [of u] R(5) [of u] upkeepD(5) [OF k, of u] by simp
  show ?thesis
    unfolding ran_due_def
  proof (intro conjI allI)
    show "set (t # ts) = due_now pid now s" using D(3) R(1) K(2) by auto
    show "distinct (t # ts)" using D(2,3) by simp
    show "ts_log s' = ts_log s @ map (timer_event s) (t # ts)" using D(5) ev K(4,5) by simp
  qed (fact so fi kf D(1,8))+
qed

text \<open>What the loop says about the next timer: none, or the time of the first of the heap.\<close>

definition next_root :: "nat \<Rightarrow> int \<Rightarrow> int \<Rightarrow> tsys \<Rightarrow> bool" where
  "next_root pid now w s \<longleftrightarrow> (if heap_of s pid = [] then w = 0 else now < w \<and> fires s (heap_of s pid ! 0) = Some w \<and> when_of s (heap_of s pid ! 0) = w)"

lemma ran_none:
  assumes k: "keeps pid s s'" and n: "due_now pid now s' = {}"
  shows "ran_due pid now s [] s'"
  using upkeepD(1,2,3,5) [OF k] keeps_due(1) [OF k, of pid now] n by (simp add: ran_due_def frame_def)

lemma run_loop_ok:
  assumes q: "quiet call" and pid: "pid \<noteq> 0" and now: "0 < now" "now < maxWhen"
  shows "timers_inv s \<Longrightarrow> moved_up pid now s \<Longrightarrow>
    \<exists>ts s' w. run_loop call pid now any s = Some (Ret (s', w, any \<or> ts \<noteq> [])) \<and> ran_due pid now s ts s' \<and> next_root pid now w s'"
proof (induction "card (due_now pid now s)" arbitrary: s any rule: less_induct)
  case less
  note inv = less(2) and m = less(3)
  show ?case
  proof (cases "heap_of s pid = []")
    case True
    then have "due_now pid now s = {}" using due_in_heap [OF timers_invD(1) [OF inv], of _ pid now] by auto
    then show ?thesis using True ran_none [OF keeps_refl [OF inv]] by (intro exI [of _ "[]"]) (simp add: run_loop.simps next_root_def)
  next
    case ne: False
    from runtimer_ok [OF inv pid ne, of call now] show ?thesis
    proof (elim disjE exE conjE, goal_cases)
      case (1 s1)
      then have "due_now pid now s1 = {}" using due_in_heap [OF timers_invD(1) [OF upkeepD(1) [OF 1(1)]], of _ pid now] by auto
      then show ?thesis using 1 ne ran_none [OF 1(1)] by (intro exI [of _ "[]"]) (simp add: run_loop.simps [of call pid now any s] next_root_def)
    next
      case (2 s1 t)
      note k = 2(1) and ne1 = 2(2) and t = 2(3) and st = 2(4) and run = 2(5)
      note inv1 = upkeepD(1) [OF k] and m1 = keeps_moved_up [OF k m]
      note c1 = timers_invD(1) [OF inv1]
      have tin: "t \<in> set (heap_of s1 pid)" using ne1 t by simp
      show ?thesis
      proof (cases "when_of s1 t > now")
        case True
        have "due_now pid now s1 = {}" using due_after_root [OF c1 pid m1] True t by fastforce
        moreover have "next_root pid now (when_of s1 t) s1" using ne1 True fires_waiting [OF st] t by (simp add: next_root_def)
        ultimately show ?thesis using run True now(1) ne ran_none [OF k]
          by (intro exI [of _ "[]"]) (simp add: run_loop.simps [of call pid now any s])
      next
        case False
        then have w: "when_of s1 t \<le> now" by simp
        obtain s2 where s2: "ran_once pid t now s1 s2" "\<forall>call. runOneTimer call pid t now (set_status t TRunning s1) = (let x = ts_timer s1 t in
            Ret (call (rt_f x) (rt_arg x) (rt_seq x) (s2\<lparr>ts_log := ts_log s1 @ [TimerFunc (rt_f x) (rt_arg x) (rt_seq x)]\<rparr>)))"
          using runOneTimer_ok [OF inv1 pid ne1 t st w now(2)] by metis
        let ?x = "ts_timer s1 t"
        define s3 where "s3 = call (rt_f ?x) (rt_arg ?x) (rt_seq ?x) (s2\<lparr>ts_log := ts_log s1 @ [timer_event s1 t]\<rparr>)"
        have s3: "ts_timer s3 = ts_timer s2" "ts_p s3 = ts_p s2" "ts_log s3 = ts_log s1 @ [timer_event s1 t]"
          using q by (simp_all add: s3_def quiet_def)
        note D = ran_once_due [OF s2(1) inv1 pid tin st w now(2)]
        have inv3: "timers_inv s3" using timers_inv_cong [OF s3(1,2)] s2(1) by (simp add: ran_once_def)
        have e: "due_now pid now s3 = due_now pid now s2" "moved_up pid now s3 = moved_up pid now s2"
          by (simp_all add: due_now_def fires_def moved_up_def heap_of_def status_of_def s3)
        have d: "due_now pid now s3 = due_now pid now s - {t}" "t \<in> due_now pid now s" "finite (due_now pid now s)"
          using D(1,2) e(1) keeps_due(1) [OF k] finite_due [OF timers_invD(1) [OF inv]] by simp_all
        have "card (due_now pid now s3) < card (due_now pid now s)" unfolding d(1) by (rule card_Diff1_less [OF d(3,2)])
        moreover have m3: "moved_up pid now s3" using D(6) [OF m1] e(2) by simp
        ultimately have "\<exists>ts s' w. run_loop call pid now True s3 = Some (Ret (s', w, True \<or> ts \<noteq> [])) \<and> ran_due pid now s3 ts s' \<and> next_root pid now w s'"
          using less(1) inv3 by blast
        then obtain ts s' w' where r: "run_loop call pid now True s3 = Some (Ret (s', w', True \<or> ts \<noteq> []))" "ran_due pid now s3 ts s'" "next_root pid now w' s'"
          by blast
        have "runtimer call pid now s = Ret (s3, 0)" using run False s2(2) by (simp add: s3_def timer_event_def Let_def)
        then have "run_loop call pid now any s = Some (Ret (s', w', any \<or> t # ts \<noteq> []))" using ne r(1) by (simp add: run_loop.simps [of call pid now any s])
        moreover have "ran_due pid now s (t # ts) s'" using ran_due_step [OF k s2(1) inv1 pid t ne1 st w now(2) m1 s3 r(2)] .
        ultimately show ?thesis using r(3) by blast
      qed
    qed
  qed
qed

end
