(* ===== verification/TimersClear.thy ===== *)
theory TimersClear
  imports TimersRun
begin

text \<open>
  \<open>clearDeletedTimers\<close> builds the heap anew in the front of the array, without the deleted timers.
\<close>

section \<open>Clearing the deleted timers\<close>

text \<open>Sifting up works in the front of the array.\<close>

lemma siftup_loop_front:
  "i < length a \<Longrightarrow> siftup_loop w v (a @ b) i = (let (a', k) = siftup_loop w v a i in (a' @ b, k)) \<and> length (fst (siftup_loop w v a i)) = length a
     \<and> snd (siftup_loop w v a i) < length a"
proof (induction w v a i rule: siftup_loop.induct)
  case (1 w v a i)
  let ?p = "(i - 1) div 4"
  have "?p < length a" "?p \<le> i" using 1(2) by auto
  then show ?case using 1 by (auto simp: siftup_loop.simps [of w v "a @ b" i] siftup_loop.simps [of w v a i] Let_def nth_append list_update_append)
qed

lemma siftup_front:
  assumes "i < length a"
  shows "siftupTimer w (a @ b) i = obind (siftupTimer w a i) (\<lambda>(a', k). Ret (a' @ b, k))"
  using siftup_loop_front [OF assms, of w "w (a ! i)" b] assms
  by (auto simp: siftupTimer_def Let_def nth_append list_update_append split: prod.split)

lemma heap_take: "heap w xs \<Longrightarrow> heap w (take k xs)"
  unfolding heap_def using parent_less by (metis length_take min_less_iff_conj nth_take order.strict_trans)

text \<open>A timer that \<open>clearDeletedTimers\<close> has been at.\<close>

definition cleared :: "rtimer \<Rightarrow> rtimer" where
  "cleared x = (case rt_status x of TDeleted \<Rightarrow> x\<lparr>rt_pp := 0, rt_status := TRemoved\<rparr>
     | TModifiedEarlier \<Rightarrow> x\<lparr>rt_when := rt_nextwhen x, rt_status := TWaiting\<rparr>
     | TModifiedLater \<Rightarrow> x\<lparr>rt_when := rt_nextwhen x, rt_status := TWaiting\<rparr> | _ \<Rightarrow> x)"

text \<open>The first \<open>i\<close> timers of \<open>xs\<close> have been cleared; those that stay are in the first \<open>to\<close> places of \<open>ts\<close>.\<close>

definition clearing :: "tsys \<Rightarrow> nat list \<Rightarrow> nat \<Rightarrow> nat list \<Rightarrow> nat \<Rightarrow> nat \<Rightarrow> bool \<Rightarrow> tsys \<Rightarrow> bool" where
  "clearing s0 xs i ts to cdel changed s \<longleftrightarrow>
     s = s0\<lparr>ts_timer := (\<lambda>t. if t \<in> set (take i xs) then cleared (ts_timer s0 t) else ts_timer s0 t)\<rparr>
     \<and> length ts = length xs \<and> drop i ts = drop i xs \<and> to + cdel = i \<and> (changed \<or> cdel = 0 \<and> s = s0 \<and> ts = xs)
     \<and> heap (when_of s) (take to ts) \<and> mset (take to ts) = filter_mset (\<lambda>t. status_of s0 t \<noteq> TDeleted) (mset (take i xs))"

lemma upd_timer_alt: "upd_timer t f (s0\<lparr>ts_timer := g\<rparr>) = s0\<lparr>ts_timer := g(t := f (g t))\<rparr>"
  by (simp add: upd_timer_def)

lemma clearing_nth:
  assumes "clearing s0 xs i ts to cdel changed s" and "distinct xs" and "i < length xs"
  shows "ts ! i = xs ! i" "xs ! i \<notin> set (take i xs)" "status_of s (xs ! i) = status_of s0 (xs ! i)" "ts_timer s (xs ! i) = ts_timer s0 (xs ! i)"
    "to \<le> i" "set (take to ts) \<subseteq> set (take i xs)" "length ts = length xs"
proof -
  have d: "drop i ts = drop i xs" "length ts = length xs" using assms(1) by (simp_all add: clearing_def)
  show "ts ! i = xs ! i" using arg_cong [OF d(1), of hd] d(2) assms(3) by (simp add: hd_drop_conv_nth)
  show n: "xs ! i \<notin> set (take i xs)" using assms(2,3) by (auto simp: in_set_conv_nth nth_eq_iff_index_eq)
  then show "status_of s (xs ! i) = status_of s0 (xs ! i)" "ts_timer s (xs ! i) = ts_timer s0 (xs ! i)"
    using assms(1) by (simp_all add: clearing_def status_of_def)
  show "to \<le> i" using assms(1) by (simp add: clearing_def)
  have "mset (take to ts) \<subseteq># mset (take i xs)" using assms(1) by (simp add: clearing_def)
  then show "set (take to ts) \<subseteq> set (take i xs)" by (metis set_mset_mono set_mset_mset)
  show "length ts = length xs" by (fact d(2))
qed

text \<open>The next timer stays: it is sifted up in the front part.\<close>

lemma clearing_time:
  "clearing s0 xs i ts to cdel changed s \<Longrightarrow> distinct xs \<Longrightarrow> i < length xs \<Longrightarrow> t = xs ! i \<Longrightarrow>
     s\<lparr>ts_timer := (ts_timer s)(t := cleared (ts_timer s t))\<rparr>
       = s0\<lparr>ts_timer := (\<lambda>u. if u \<in> set (take (i + 1) xs) then cleared (ts_timer s0 u) else ts_timer s0 u)\<rparr>"
  using clearing_nth(4) [of s0 xs i ts to cdel changed s]
  by (auto simp: clearing_def take_Suc_conv_app_nth fun_eq_iff)

lemma clear_keep:
  assumes c: "clearing s0 xs i ts to cdel changed s" and d: "distinct xs" and i: "i < length xs" and t: "t = xs ! i"
    and st: "status_of s0 t \<noteq> TDeleted" and s': "s' = s\<lparr>ts_timer := (ts_timer s)(t := cleared (ts_timer s t))\<rparr>" and w: "0 < when_of s' t"
  obtains ts' k where "siftupTimer (when_of s') (ts[to := t]) to = Ret (ts', k)" "clearing s0 xs (i + 1) ts' (to + 1) cdel True s'"
proof -
  note n = clearing_nth [OF c d i]
  have C: "drop i ts = drop i xs" "to + cdel = i" "heap (when_of s) (take to ts)"
    "mset (take to ts) = filter_mset (\<lambda>t. status_of s0 t \<noteq> TDeleted) (mset (take i xs))"
    using c unfolding clearing_def by blast+
  let ?a = "take to ts @ [t]" and ?b = "drop (to + 1) ts"
  have to: "to < length ts" "length (take to ts) = to" using n(5,7) i by simp_all
  have split: "ts[to := t] = ?a @ ?b" using to(1) by (simp add: upd_conv_take_nth_drop)
  have "when_of s' u = when_of s u" if "u \<in> set (take to ts)" for u
    using that n(2,6) t by (auto simp: s' when_of_def)
  then have h: "heap (when_of s') (take to ts)" using C(3) heap_cong [of "take to ts" "when_of s'" "when_of s"] by simp
  have a: "to < length ?a" "0 < when_of s' (?a ! to)" using w to by (simp_all add: nth_append)
  obtain ys k where ys: "siftupTimer (when_of s') ?a to = Ret (ys, k)" "mset ys = mset ?a" "heap (when_of s') ys"
    using siftupTimer_ok [of to ?a "when_of s'", OF a] heap_append [OF h, of t] to(2) by metis
  have len: "length ys = to + 1" using mset_eq_length [OF ys(2)] to(2) by simp
  have run: "siftupTimer (when_of s') (ts[to := t]) to = Ret (ys @ ?b, k)" unfolding split using siftup_front [OF a(1), of "when_of s'" ?b] ys(1) by simp
  have "clearing s0 xs (i + 1) (ys @ ?b) (to + 1) cdel True s'"
    unfolding clearing_def
  proof (intro conjI)
    show "s' = s0\<lparr>ts_timer := (\<lambda>u. if u \<in> set (take (i + 1) xs) then cleared (ts_timer s0 u) else ts_timer s0 u)\<rparr>"
      using clearing_time [OF c d i t] s' by simp
    show "length (ys @ ?b) = length xs" using len to n(7) by simp
    have "drop (i + 1) (ys @ ?b) = drop (i + 1) ts" using len n(5) by simp
    also have "\<dots> = drop (i + 1) xs" using arg_cong [OF C(1), of "drop 1"] by simp
    finally show "drop (i + 1) (ys @ ?b) = drop (i + 1) xs" .
    show "heap (when_of s') (take (to + 1) (ys @ ?b))" using ys(3) len by simp
    show "mset (take (to + 1) (ys @ ?b)) = filter_mset (\<lambda>t. status_of s0 t \<noteq> TDeleted) (mset (take (i + 1) xs))"
      using ys(2) len C(4) st t i by (simp add: take_Suc_conv_app_nth)
  qed (use C(2) in simp_all)
  then show thesis using that [OF run] by blast
qed

lemma clear_drop:
  assumes c: "clearing s0 xs i ts to cdel changed s" and d: "distinct xs" and i: "i < length xs" and t: "t = xs ! i"
    and st: "status_of s0 t = TDeleted" and s': "s' = s\<lparr>ts_timer := (ts_timer s)(t := cleared (ts_timer s t))\<rparr>"
  shows "clearing s0 xs (i + 1) ts to (cdel + 1) True s'"
proof -
  note n = clearing_nth [OF c d i]
  have C: "drop i ts = drop i xs" "to + cdel = i" "heap (when_of s) (take to ts)"
    "mset (take to ts) = filter_mset (\<lambda>t. status_of s0 t \<noteq> TDeleted) (mset (take i xs))"
    using c unfolding clearing_def by blast+
  have "when_of s' u = when_of s u" if "u \<in> set (take to ts)" for u
    using that n(2,6) t by (auto simp: s' when_of_def)
  then have h: "heap (when_of s') (take to ts)" using C(3) heap_cong [of "take to ts" "when_of s'" "when_of s"] by simp
  have "drop (i + 1) ts = drop (i + 1) xs" using arg_cong [OF C(1), of "drop 1"] by simp
  then show ?thesis
    unfolding clearing_def using clearing_time [OF c d i t] s' n(7) C(2,4) h st t i by (simp add: take_Suc_conv_app_nth)
qed

lemma clear_same:
  assumes c: "clearing s0 xs i ts to cdel False s" and i: "i < length xs" and st: "status_of s0 (xs ! i) = TWaiting" and h: "heap (when_of s0) xs"
  shows "clearing s0 xs (i + 1) ts (to + 1) cdel False s"
proof -
  have C: "to = i" "cdel = 0" "s = s0" "ts = xs" "s = s0\<lparr>ts_timer := (\<lambda>t. if t \<in> set (take i xs) then cleared (ts_timer s0 t) else ts_timer s0 t)\<rparr>"
    "mset (take i xs) = filter_mset (\<lambda>t. status_of s0 t \<noteq> TDeleted) (mset (take i xs))"
    using c by (auto simp: clearing_def)
  have "cleared (ts_timer s0 (xs ! i)) = ts_timer s0 (xs ! i)" using st by (simp add: cleared_def status_of_def)
  moreover have "ts_timer s0 = (\<lambda>t. if t \<in> set (take i xs) then cleared (ts_timer s0 t) else ts_timer s0 t)"
    using arg_cong [OF C(5), of ts_timer] C(3) by simp
  ultimately have "ts_timer s0 = (\<lambda>t. if t \<in> set (take (i + 1) xs) then cleared (ts_timer s0 t) else ts_timer s0 t)"
    using i by (auto simp: take_Suc_conv_app_nth fun_eq_iff) metis+
  then have "s0 = s0\<lparr>ts_timer := (\<lambda>t. if t \<in> set (take (i + 1) xs) then cleared (ts_timer s0 t) else ts_timer s0 t)\<rparr>" by simp
  moreover have "mset (take (i + 1) xs) = filter_mset (\<lambda>t. status_of s0 t \<noteq> TDeleted) (mset (take (i + 1) xs))"
    using C(6) st i by (simp add: take_Suc_conv_app_nth)
  ultimately show ?thesis unfolding clearing_def using C(1-4) heap_take [OF h] by simp
qed

lemma cleared_states:
  "status_of s t = TWaiting \<Longrightarrow> s\<lparr>ts_timer := (ts_timer s)(t := cleared (ts_timer s t))\<rparr> = s"
  "status_of s t = TDeleted \<Longrightarrow> s\<lparr>ts_timer := (ts_timer s)(t := cleared (ts_timer s t))\<rparr> = set_status t TRemoved (upd_timer t (\<lambda>x. x\<lparr>rt_pp := 0\<rparr>) s)"
  "status_of s t = TModifiedEarlier \<or> status_of s t = TModifiedLater \<Longrightarrow>
     s\<lparr>ts_timer := (ts_timer s)(t := cleared (ts_timer s t))\<rparr> = set_status t TWaiting (take_nextwhen t (set_status t TMoving s))"
  by (auto simp: cleared_def status_of_def set_status_def upd_timer_def take_nextwhen_def rt_order)

lemma cleared_ok:
  assumes "timer_ok s pid t" and "status_of s t \<noteq> TDeleted"
  shows "0 < rt_when (cleared (ts_timer s t))" "rt_when (cleared (ts_timer s t)) \<le> maxWhen" "rt_pp (cleared (ts_timer s t)) = pid"
    "rt_status (cleared (ts_timer s t)) = TWaiting" "rt_period (cleared (ts_timer s t)) = rt_period (ts_timer s t)" "fires s t = Some (rt_when (cleared (ts_timer s t)))"
  using assms by (auto simp: timer_ok_def cleared_def status_of_def fires_def Let_def split: tstatus.splits)

lemma clear_loop_ok:
  assumes d: "distinct xs" and h: "heap (when_of s0) xs" and ok: "\<And>t. t \<in> set xs \<Longrightarrow> timer_ok s0 pid t"
  shows "clearing s0 xs i ts to cdel changed s \<Longrightarrow> i \<le> length xs \<Longrightarrow>
    \<exists>s' ts' to' cdel' changed'. clear_loop [i..<length xs] ts to cdel changed s = Ret (s', ts', to', cdel') \<and> clearing s0 xs (length xs) ts' to' cdel' changed' s'"
proof (induction "length xs - i" arbitrary: i ts to cdel changed s)
  case 0
  then show ?case by auto
next
  case (Suc n)
  note c = Suc(3)
  have i: "i < length xs" using Suc(2) by simp
  let ?t = "xs ! i"
  note nt = clearing_nth [OF c d i]
  define s' where "s' = s\<lparr>ts_timer := (ts_timer s)(?t := cleared (ts_timer s ?t))\<rparr>"
  have js: "[i..<length xs] = i # [i + 1..<length xs]" using i by (simp add: upt_conv_Cons)
  have IH: "clearing s0 xs (i + 1) ts1 to1 cdel1 ch1 s1 \<Longrightarrow> \<exists>s' ts' to' cdel' changed'. clear_loop [i + 1..<length xs] ts1 to1 cdel1 ch1 s1 = Ret (s', ts', to', cdel')
      \<and> clearing s0 xs (length xs) ts' to' cdel' changed' s'" for ts1 to1 cdel1 ch1 s1
    using Suc(1) [of "i + 1"] Suc(2) i by simp
  have tok: "timer_ok s0 pid ?t" using ok i by simp
  have w: "status_of s0 ?t \<noteq> TDeleted \<Longrightarrow> 0 < when_of s' ?t" using cleared_ok(1) [OF tok] nt(4) by (simp add: s'_def when_of_def)
  from tok show ?case
  proof (cases rule: timer_ok_status)
    case 1
    show ?thesis
    proof (cases changed)
      case True
      have nd: "status_of s0 ?t \<noteq> TDeleted" using 1 by simp
      obtain ts' k where k: "siftupTimer (when_of s') (ts[to := ?t]) to = Ret (ts', k)" "clearing s0 xs (i + 1) ts' (to + 1) cdel True s'"
        using clear_keep [OF c d i refl nd s'_def w [OF nd]] .
      have "s' = s" using cleared_states(1) [of s ?t] 1 nt(3) by (simp add: s'_def)
      then show ?thesis using IH [OF k(2)] k(1) 1 nt(1,3) True by (simp add: js)
    next
      case False
      then show ?thesis using IH [OF clear_same [OF _ i 1 h]] c 1 nt(1,3) by (simp add: js)
    qed
  next
    case 2
    have "s' = set_status ?t TRemoved (upd_timer ?t (\<lambda>x. x\<lparr>rt_pp := 0\<rparr>) s)" using cleared_states(2) [of s ?t] 2 nt(3) by (simp add: s'_def)
    then show ?thesis using IH [OF clear_drop [OF c d i refl 2 s'_def]] 2 nt(1,3) by (simp add: js Let_def)
  next
    case 3
    have nd: "status_of s0 ?t \<noteq> TDeleted" using 3 by simp
    obtain ts' k where k: "siftupTimer (when_of s') (ts[to := ?t]) to = Ret (ts', k)" "clearing s0 xs (i + 1) ts' (to + 1) cdel True s'"
      using clear_keep [OF c d i refl nd s'_def w [OF nd]] .
    have "s' = set_status ?t TWaiting (take_nextwhen ?t (set_status ?t TMoving s))" using cleared_states(3) [of s ?t] 3 nt(3) by (simp add: s'_def)
    then show ?thesis using IH [OF k(2)] k(1) 3 nt(1,3) by (simp add: js Let_def)
  next
    case 4
    have nd: "status_of s0 ?t \<noteq> TDeleted" using 4 by simp
    obtain ts' k where k: "siftupTimer (when_of s') (ts[to := ?t]) to = Ret (ts', k)" "clearing s0 xs (i + 1) ts' (to + 1) cdel True s'"
      using clear_keep [OF c d i refl nd s'_def w [OF nd]] .
    have "s' = set_status ?t TWaiting (take_nextwhen ?t (set_status ?t TMoving s))" using cleared_states(3) [of s ?t] 4 nt(3) by (simp add: s'_def)
    then show ?thesis using IH [OF k(2)] k(1) 4 nt(1,3) by (simp add: js Let_def)
  qed
qed

lemma clearDeletedTimers_ok:
  assumes inv: "timers_inv s" and pid: "pid \<noteq> 0"
  obtains s' where "clearDeletedTimers pid s = Ret s'" "keeps pid s s'" "\<And>t. t \<in> set (heap_of s' pid) \<Longrightarrow> status_of s' t = TWaiting"
    "pt_deletedTimers (ts_p s' pid) = 0"
proof -
  note c = timers_invD(1) [OF inv]
  define s0 where "s0 = upd_p pid (\<lambda>p. p\<lparr>pt_modifiedEarliest := 0\<rparr>) s"
  let ?xs = "heap_of s pid"
  have s0: "ts_timer s0 = ts_timer s" "heap_of s0 = heap_of s" "when_of s0 = when_of s" "status_of s0 = status_of s"
    by (simp_all add: s0_def heap_of_upd)
  have hi: "heap_inv s pid" using coreD(1) [OF c pid] .
  then have d: "distinct ?xs" and h: "heap (when_of s0) ?xs" and len: "length ?xs < 2 ^ 32" by (simp_all add: heap_inv_def s0)
  have ok: "timer_ok s0 pid t" if "t \<in> set ?xs" for t using coreD(2) [OF c pid that] by (simp add: timer_ok_def s0)
  have start: "clearing s0 ?xs 0 ?xs 0 0 False s0" by (simp add: clearing_def heap_def)
  obtain s1 ts to cdel ch where l: "clear_loop [0..<length ?xs] ?xs 0 0 False s0 = Ret (s1, ts, to, cdel)" "clearing s0 ?xs (length ?xs) ts to cdel ch s1"
    using clear_loop_ok [OF d h ok start] by blast
  have s1: "s1 = s0\<lparr>ts_timer := (\<lambda>t. if t \<in> set ?xs then cleared (ts_timer s t) else ts_timer s t)\<rparr>"
    and num: "to + cdel = length ?xs" and hp: "heap (when_of s1) (take to ts)" and lt: "length ts = length ?xs"
    and m: "mset (take to ts) = filter_mset (\<lambda>t. status_of s t \<noteq> TDeleted) (mset ?xs)"
    using l(2) unfolding clearing_def s0(1,4) take_all [OF order_refl] by blast+
  define ys where "ys = take to ts"
  have ly: "length ys = to" using num lt by (simp add: ys_def)
  have dc: "cdel = deleted_count s pid"
  proof -
    have "mset ?xs = filter_mset (\<lambda>t. status_of s t \<noteq> TDeleted) (mset ?xs) + filter_mset (\<lambda>t. \<not> status_of s t \<noteq> TDeleted) (mset ?xs)"
      by (rule multiset_partition)
    then have "length ?xs = size (filter_mset (\<lambda>t. status_of s t \<noteq> TDeleted) (mset ?xs)) + size (filter_mset (\<lambda>t. \<not> status_of s t \<noteq> TDeleted) (mset ?xs))"
      by (subst size_mset [symmetric], subst size_union [symmetric], rule arg_cong)
    then show ?thesis using num ly arg_cong [OF m, of size] by (simp add: deleted_count_def ys_def)
  qed
  define s' where "s' = updateTimer0When pid (upd_p pid (\<lambda>p. p\<lparr>pt_deletedTimers := pt_deletedTimers p - of_nat cdel,
                                   pt_numTimers := pt_numTimers p - of_nat cdel, pt_timers := ys\<rparr>) s1)"
  have run: "clearDeletedTimers pid s = Ret s'"
    unfolding clearDeletedTimers_def Let_def s0_def [symmetric] s0(2) l(1) s'_def ys_def by simp
  have tm: "ts_timer s' = (\<lambda>t. if t \<in> set ?xs then cleared (ts_timer s t) else ts_timer s t)" by (simp add: s'_def s1)
  have p1: "ts_p s1 = ts_p s0" by (simp add: s1)
  have hs: "heap_of s' q = (if q = pid then ys else heap_of s q)" for q
    by (simp add: s'_def) (simp add: heap_of_def p1 s0_def)
  have w1: "when_of s' = when_of s1" by (simp add: s'_def)
  have ysx: "t \<in> set ys \<longleftrightarrow> t \<in> set ?xs \<and> status_of s t \<noteq> TDeleted" for t
    using arg_cong [OF m, of set_mset] by (auto simp: ys_def)
  have dy: "distinct ys"
  proof -
    have "mset ys = mset (filter (\<lambda>t. status_of s t \<noteq> TDeleted) ?xs)" using m by (simp add: ys_def)
    then show ?thesis using d mset_eq_imp_distinct_iff distinct_filter by metis
  qed
  have P: "ts_p s' pid = (ts_p s pid)\<lparr>pt_timers := ys, pt_timer0When := (if ys = [] then 0 else when_of s' (ys ! 0)),
      pt_numTimers := pt_numTimers (ts_p s pid) - of_nat cdel, pt_deletedTimers := pt_deletedTimers (ts_p s pid) - of_nat cdel, pt_modifiedEarliest := 0\<rparr>"
    by (simp add: s'_def updateTimer0When_def p1 s0_def upd_p_def when_of_def)
  have f: "frame pid s s'" by (simp add: frame_def s'_def updateTimer0When_def s1 s0_def upd_p_def)
  have yok: "timer_ok s' pid t \<and> status_of s' t = TWaiting \<and> fires s' t = fires s t" if "t \<in> set ys" for t
  proof -
    have t: "timer_ok s pid t" "status_of s t \<noteq> TDeleted" "t \<in> set ?xs" using that ysx coreD(2) [OF c pid] by auto
    note k = cleared_ok [OF t(1,2)]
    show ?thesis using k t(3) tm timer_ok_fields(3,4) [OF t(1)] by (simp add: timer_ok_def status_of_def fires_def Let_def)
  qed
  have q: "ts_timer s' t = ts_timer s t" if "q \<noteq> pid" "q \<noteq> 0" "t \<in> set (heap_of s q)" for q t
    using that tm off_heaps [OF c that(2,3) pid] by auto
  have A: "heap_inv s' q \<and> (\<forall>u\<in>set (heap_of s' q). timer_ok s' q u)" if "q \<noteq> 0" for q
  proof (cases "q = pid")
    case True
    have "pt_numTimers (ts_p s pid) = of_nat (length ?xs)" using hi by (simp add: heap_inv_def)
    also have "\<dots> = of_nat to + of_nat cdel" using num by (metis of_nat_add)
    finally have "pt_numTimers (ts_p s' pid) = of_nat (length ys)" by (simp add: P ly)
    moreover have "\<forall>t\<in>set ys. rt_pp (ts_timer s' t) = pid \<and> 0 < when_of s' t" using yok timer_ok_fields(1,5) by blast
    moreover have "pt_timer0When (ts_p s' pid) = (if ys = [] then 0 else when_of s' (ys ! 0))" by (simp add: P)
    ultimately show ?thesis using dy hp yok hs True len num w1 ly by (simp add: heap_inv_def ys_def [symmetric])
  next
    case False
    have "heap_inv s' q = heap_inv s q" using f False q [OF False that] by (intro heap_inv_local) (simp_all add: frame_def when_of_def)
    then show ?thesis using coreD(1,2) [OF c that] hs False q [OF False that] by (simp add: timer_ok_def)
  qed
  have off: "status_of s' t = TRemoved \<and> rt_pp (ts_timer s' t) = 0 \<and> fires s' t = None \<and> fires s t = None" if "t \<in> set ?xs" "t \<notin> set ys" for t
    using that ysx tm by (simp add: cleared_def status_of_def fires_def)
  have B: "u \<in> set (heap_of s' (rt_pp (ts_timer s' u)))" if "rt_pp (ts_timer s' u) \<noteq> 0" for u
  proof (cases "u \<in> set ?xs")
    case True
    then have "u \<in> set ys" using off [of u] that by (cases "u \<in> set ys") simp_all
    then show ?thesis using yok timer_ok_fields(5) [of s' pid u] hs by simp
  next
    case False
    then have "ts_timer s' u = ts_timer s u" by (simp add: tm)
    then show ?thesis using coreD(4) [OF c, of "rt_pp (ts_timer s u)" u] that False hs by (cases "rt_pp (ts_timer s u) = pid") simp_all
  qed
  have C: "status_of s' u = TNoStatus \<or> status_of s' u = TRemoved" if "rt_pp (ts_timer s' u) = 0" for u
  proof (cases "u \<in> set ?xs")
    case True
    then have "u \<notin> set ys" using yok timer_ok_fields(5) [of s' pid u] that pid by auto
    then show ?thesis using off True by simp
  next
    case False
    then have "ts_timer s' u = ts_timer s u" by (simp add: tm)
    then show ?thesis using coreD(5) [OF c, of u] that by (simp add: status_of_def)
  qed
  have core: "core {} s'" unfolding core_def using A B C by (intro conjI allI impI) simp_all
  have W: "t \<in> set (heap_of s' pid) \<Longrightarrow> status_of s' t = TWaiting" for t using yok hs by simp
  have del: "pt_deletedTimers (ts_p s' pid) = 0" using timers_invD(2) [OF inv pid] dc by (simp add: P deleted_ok_def)
  have "deleted_ok s' r \<and> earliest_ok s' r" if "r \<noteq> 0" for r
  proof (cases "r = pid")
    case True
    have "deleted_count s' pid = 0" using W by (auto simp: deleted_count_def filter_mset_eq_mempty_iff)
    then show ?thesis using True del W by (simp add: deleted_ok_def earliest_ok_def P)
  next
    case False
    have "deleted_ok s' r = deleted_ok s r" using q [OF False that] by (intro deleted_other [OF f False]) (simp add: status_of_def)
    then show ?thesis using timers_invD(2,3) [OF inv that] earliest_other [OF _ f False q [OF False that]] by blast
  qed
  then have "timers_inv s'" using core by (simp add: inv_off_def)
  moreover have "fires s' t = fires s t" for t using off yok tm by (cases "t \<in> set ?xs"; cases "t \<in> set ys") (simp_all add: fires_def ysx)
  moreover have "rt_pp (ts_timer s' t) = rt_pp (ts_timer s t)" if "fires s t \<noteq> None" for t
  proof (cases "t \<in> set ?xs")
    case True
    then have "t \<in> set ys" using off [of t] that by (cases "t \<in> set ys") simp_all
    then show ?thesis using yok [of t] timer_ok_fields(5) [of s' pid t] heap_pp [OF c pid True] by simp
  qed (simp add: tm)
  moreover have "kept_fields (ts_timer s' t) = kept_fields (ts_timer s t)" for t
    by (simp add: tm cleared_def split: tstatus.splits)
  moreover have "status_of s t = TModifiedEarlier" if "status_of s' t = TModifiedEarlier" for t
    using that off [of t] yok [of t] tm by (cases "t \<in> set ?xs"; cases "t \<in> set ys") (simp_all add: status_of_def)
  moreover have "set ys \<subseteq> set ?xs" "length ys \<le> length ?xs" using ysx num ly by auto
  ultimately have "keeps pid s s'" using f hs by (simp add: keeps_off_def fun_eq_iff)
  then show thesis using that [OF run] W del by blast
qed

end
