(* ===== verification/TimersOps.thy ===== *)
theory TimersOps
  imports TimersClear
begin

text \<open>
  What the callers rely on: wake-up times are early enough, \<open>checkTimers\<close> as a whole, and adding, modifying and
  deleting a timer as updates of \<open>fires\<close>.
\<close>

section \<open>Wake-up times\<close>

lemma wake_time:
  assumes inv: "timers_inv s" and pid: "pid \<noteq> 0" and t: "rt_pp (ts_timer s t) = pid" and f: "fires s t = Some x"
  shows "nobarrierWakeTime pid s \<noteq> 0" "nobarrierWakeTime pid s \<le> x"
    "pt_timer0When (ts_p s pid) \<noteq> 0 \<and> pt_timer0When (ts_p s pid) \<le> x \<or> pt_modifiedEarliest (ts_p s pid) \<noteq> 0 \<and> pt_modifiedEarliest (ts_p s pid) \<le> x"
proof -
  note c = timers_invD(1) [OF inv]
  have tin: "t \<in> set (heap_of s pid)" using fires_heap(2) [OF c, of t] f t by simp
  then have ne: "heap_of s pid \<noteq> []" by auto
  then have "heap_of s pid ! 0 \<in> set (heap_of s pid)" by simp
  then have w: "pt_timer0When (ts_p s pid) = when_of s (heap_of s pid ! 0)" "0 < when_of s (heap_of s pid ! 0)"
    using coreD(1) [OF c pid] ne unfolding heap_inv_def by auto
  show *: "pt_timer0When (ts_p s pid) \<noteq> 0 \<and> pt_timer0When (ts_p s pid) \<le> x \<or> pt_modifiedEarliest (ts_p s pid) \<noteq> 0 \<and> pt_modifiedEarliest (ts_p s pid) \<le> x"
  proof (cases "status_of s t = TModifiedEarlier")
    case True
    then have "rt_nextwhen (ts_timer s t) = x" using f by (simp add: fires_def status_of_def Let_def)
    then show ?thesis using timers_invD(3) [OF inv pid] tin True by (auto simp: earliest_ok_def)
  next
    case False
    then show ?thesis using root_first [OF c pid tin f] w by simp
  qed
  have e: "0 \<le> pt_modifiedEarliest (ts_p s pid)" using timers_invD(3) [OF inv pid] by (simp add: earliest_ok_def)
  show "nobarrierWakeTime pid s \<noteq> 0" "nobarrierWakeTime pid s \<le> x" using * w e by (auto simp: nobarrierWakeTime_def Let_def)
qed

lemma no_wake_no_due: "timers_inv s \<Longrightarrow> pid \<noteq> 0 \<Longrightarrow> nobarrierWakeTime pid s = 0 \<or> now < nobarrierWakeTime pid s \<Longrightarrow> due_now pid now s = {}"
  using wake_time(1,2) [of s pid] by (fastforce simp: due_now_def)

text \<open>The first wake-up time of some Ps is early enough for all of their timers.\<close>

lemma checkTimersNoP_le:
  "(checkTimersNoP allp pu s \<noteq> 0 \<or> pu = 0) \<and> (pu \<noteq> 0 \<longrightarrow> checkTimersNoP allp pu s \<le> pu)
    \<and> (\<forall>pid. (pid, True) \<in> set allp \<longrightarrow> nobarrierWakeTime pid s \<noteq> 0
      \<longrightarrow> checkTimersNoP allp pu s \<noteq> 0 \<and> checkTimersNoP allp pu s \<le> nobarrierWakeTime pid s)"
proof (induction allp arbitrary: pu)
  case (Cons a allp)
  obtain q m where a: "a = (q, m)" by (cases a)
  define w where "w = nobarrierWakeTime q s"
  define p1 where "p1 = (if m \<and> w \<noteq> 0 \<and> (pu = 0 \<or> w < pu) then w else pu)"
  have step: "checkTimersNoP (a # allp) pu s = checkTimersNoP allp p1 s" by (simp add: checkTimersNoP_def a p1_def w_def Let_def)
  have p1: "p1 \<noteq> 0 \<or> pu = 0" "pu \<noteq> 0 \<longrightarrow> p1 \<le> pu" "m \<longrightarrow> w \<noteq> 0 \<longrightarrow> p1 \<noteq> 0 \<and> p1 \<le> w" by (auto simp: p1_def)
  show ?case
    unfolding step using Cons [of p1] p1 by (auto simp: a w_def intro: order_trans)
qed (simp add: checkTimersNoP_def)

lemma timeSleepUntil_ge:
  assumes "pid \<in> set allp"
  shows "w = pt_timer0When (ts_p s pid) \<or> w = pt_modifiedEarliest (ts_p s pid) \<Longrightarrow> w \<noteq> 0 \<Longrightarrow> timeSleepUntil allp s \<le> w"
proof -
  define g where "g = (\<lambda>pid next. let w = pt_timer0When (ts_p s pid); next = (if w \<noteq> 0 \<and> w < next then w else next);
           w = pt_modifiedEarliest (ts_p s pid) in if w \<noteq> 0 \<and> w < next then w else next)"
  have le: "g q n \<le> n" for q n by (simp add: g_def Let_def)
  have fold_le: "fold g qs n \<le> n" for qs n by (induction qs arbitrary: n) (auto intro: order_trans [OF _ le])
  have pick: "g pid n \<le> w" if "w = pt_timer0When (ts_p s pid) \<or> w = pt_modifiedEarliest (ts_p s pid)" "w \<noteq> 0" for n w
    using that by (auto simp: g_def Let_def)
  have "fold g qs n \<le> w" if "pid \<in> set qs" "w = pt_timer0When (ts_p s pid) \<or> w = pt_modifiedEarliest (ts_p s pid)" "w \<noteq> 0" for qs n w
    using that(1)
  proof (induction qs arbitrary: n)
    case (Cons q qs)
    then show ?case using order_trans [OF fold_le pick [OF that(2,3)]] by (cases "q = pid") auto
  qed simp
  then show "w = pt_timer0When (ts_p s pid) \<or> w = pt_modifiedEarliest (ts_p s pid) \<Longrightarrow> w \<noteq> 0 \<Longrightarrow> timeSleepUntil allp s \<le> w"
    using assms by (simp add: timeSleepUntil_def g_def)
qed

section \<open>Checking the timers of a P\<close>

lemma ran_due_keeps:
  assumes "ran_due pid now s ts s'" and "keeps pid s' s''"
  shows "ran_due pid now s ts s''"
proof -
  note k = upkeepD [OF assms(2)]
  have "ts_log s'' = ts_log s'" using k(3) by (simp add: frame_def)
  then show ?thesis using assms(1) k(1,2,5) keeps_due(1) [OF assms(2)] unfolding ran_due_def by simp
qed

lemma ran_due_after:
  assumes "keeps pid s s'" and "ran_due pid now s' ts s''"
  shows "ran_due pid now s ts s''"
proof -
  note k = upkeepD [OF assms(1)]
  have "ts_log s' = ts_log s" using k(3) by (simp add: frame_def)
  then show ?thesis using assms(2) k(5) unfolding ran_due_def k(2) keeps_due [OF assms(1)] by simp
qed

text \<open>All timers that are due have run, each once, in order; nothing else changes when timers fire.\<close>

lemma checkTimers_ok:
  assumes inv: "timers_inv s" and pid: "pid \<noteq> 0" and q: "quiet call" and n: "n = (if now = 0 then nanotime else now)" "0 < n" "n < maxWhen"
  shows "\<exists>ts s' w. checkTimers call nanotime cur pid now s = Some (Ret (s', (if nobarrierWakeTime pid s = 0 then now else n), w, ts \<noteq> [])) \<and> ran_due pid n s ts s'"
proof -
  let ?next = "nobarrierWakeTime pid s"
  have none: "ran_due pid n s [] s" if "?next = 0 \<or> n < ?next"
    using ran_none [OF keeps_refl [OF inv] no_wake_no_due [OF inv pid that]] .
  consider (no) "?next = 0" | (early) "?next \<noteq> 0" "n < ?next" "pid \<noteq> cur \<or> uint (pt_deletedTimers (ts_p s pid)) \<le> uint (pt_numTimers (ts_p s pid) div 4)"
    | (run) "?next \<noteq> 0" "\<not> (n < ?next \<and> (pid \<noteq> cur \<or> uint (pt_deletedTimers (ts_p s pid)) \<le> uint (pt_numTimers (ts_p s pid) div 4)))" by blast
  then show ?thesis
  proof cases
    case no
    then show ?thesis using none by (intro exI [of _ "[]"]) (simp add: checkTimers_def Let_def)
  next
    case early
    then show ?thesis using none n(1) by (intro exI [of _ "[]"]) (simp add: checkTimers_def Let_def)
  next
    case run
    define clear where "clear = (\<lambda>(s, pollUntil, any).
                if pid = cur \<and> uint (pt_deletedTimers (ts_p s pid)) > int (length (heap_of s pid) div 4)
                then obind (clearDeletedTimers pid s) (\<lambda>s. Ret (s, n, pollUntil, any))
                else Ret (s, n, pollUntil :: int, any :: bool))"
    have C: "\<exists>s2. clear (s1, w, a) = Ret (s2, n, w, a) \<and> ran_due pid n s ts s2" if r: "ran_due pid n s ts s1" for ts s1 w a
    proof (cases "pid = cur \<and> uint (pt_deletedTimers (ts_p s1 pid)) > int (length (heap_of s1 pid) div 4)")
      case True
      have "timers_inv s1" using r by (simp add: ran_due_def)
      then obtain s2 where "clearDeletedTimers pid s1 = Ret s2" "keeps pid s1 s2" using clearDeletedTimers_ok [OF _ pid] by metis
      moreover have "clear (s1, w, a) = obind (clearDeletedTimers pid s1) (\<lambda>s. Ret (s, n, w, a))"
        unfolding clear_def split_conv using True by (rule if_P)
      ultimately show ?thesis using ran_due_keeps [OF r] by auto
    next
      case False
      then show ?thesis using r by (auto simp: clear_def)
    qed
    have body: "checkTimers call nanotime cur pid now s = (if heap_of s pid \<noteq> [] then
               (case adjusttimers pid n s of
                  Ret s \<Rightarrow> map_option (\<lambda>r. obind r clear) (run_loop call pid n False s)
                | Panic msg \<Rightarrow> Some (Panic msg)
                | Blocked \<Rightarrow> Some Blocked)
             else Some (clear (s, 0, False)))"
      unfolding checkTimers_def Let_def n(1) [symmetric] clear_def [symmetric] if_not_P [OF run(1)] if_not_P [OF run(2)] by (rule refl)
    show ?thesis
    proof (cases "heap_of s pid = []")
      case True
      then have "due_now pid n s = {}" using due_in_heap [OF timers_invD(1) [OF inv], of _ pid n] by auto
      then have "ran_due pid n s [] s" by (rule ran_none [OF keeps_refl [OF inv]])
      from C [OF this, of 0 False] show ?thesis using body True run(1) by (intro exI [of _ "[]"]) auto
    next
      case False
      obtain s1 where s1: "adjusttimers pid n s = Ret s1" "keeps pid s s1" "moved_up pid n s1" using adjusttimers_ok [OF inv pid] by blast
      obtain ts s2 w where r: "run_loop call pid n False s1 = Some (Ret (s2, w, ts \<noteq> []))" "ran_due pid n s1 ts s2"
        using run_loop_ok [OF q pid n(2,3) upkeepD(1) [OF s1(2)] s1(3), of False] by auto
      obtain s3 where "clear (s2, w, ts \<noteq> []) = Ret (s3, n, w, ts \<noteq> [])" "ran_due pid n s ts s3" using C [OF ran_due_after [OF s1(2) r(2)]] by blast
      then show ?thesis using body False s1(1) r(1) run(1) by auto
    qed
  qed
qed

section \<open>Adding, deleting and modifying timers\<close>

text \<open>A timer that stays where it is in its heap, with another status, and the counters of its P.\<close>

lemma status_change:
  assumes inv: "timers_inv s" and t: "rt_pp (ts_timer s t) = pid" "pid \<noteq> 0"
    and tm: "ts_timer s' = (ts_timer s)(t := x)" and p: "\<And>q. q \<noteq> pid \<Longrightarrow> ts_p s' q = ts_p s q" and sh: "same_heaps s s'"
    and x: "rt_when x = when_of s t" "timer_ok s' pid t"
    and d: "pt_deletedTimers (ts_p s' pid) + of_bool (status_of s t = TDeleted) = pt_deletedTimers (ts_p s pid) + of_bool (rt_status x = TDeleted)"
    and e: "0 \<le> pt_modifiedEarliest (ts_p s' pid)" "pt_modifiedEarliest (ts_p s pid) \<noteq> 0 \<Longrightarrow> pt_modifiedEarliest (ts_p s' pid) \<noteq> 0 \<and> pt_modifiedEarliest (ts_p s' pid) \<le> pt_modifiedEarliest (ts_p s pid)"
      "rt_status x = TModifiedEarlier \<Longrightarrow> pt_modifiedEarliest (ts_p s' pid) \<noteq> 0 \<and> pt_modifiedEarliest (ts_p s' pid) \<le> rt_nextwhen x"
  shows "timers_inv s'"
proof -
  note c = timers_invD(1) [OF inv]
  have tin: "t \<in> set (heap_of s pid)" using coreD(4) [OF c t(2,1)] .
  have h: "heap_of s' = heap_of s" using same_heaps_heap [OF sh] .
  have xp: "rt_pp x = pid" using timer_ok_fields(5) [OF x(2)] tm by simp
  have u: "ts_timer s' u = ts_timer s u" if "u \<noteq> t" for u using that tm by simp
  have w: "rt_pp (ts_timer s' u) = rt_pp (ts_timer s u) \<and> when_of s' u = when_of s u" for u
    using t(1) xp x(1) tm by (simp add: when_of_def)
  have hi: "heap_inv s' q = heap_inv s q" for q using heap_inv_cong [OF sh] w by simp
  have off: "t \<notin> set (heap_of s q)" if "q \<noteq> 0" "q \<noteq> pid" for q using off_heaps [OF c t(2) tin that] .
  have ok: "timer_ok s' q v" if "q \<noteq> 0" "v \<in> set (heap_of s q)" for q v
  proof (cases "v = t")
    case True
    then have "q = pid" using off that by auto
    then show ?thesis using x(2) True by simp
  next
    case False
    then show ?thesis using coreD(2) [OF c that] u [OF False] by (simp add: timer_ok_def)
  qed
  have "status_of s' v = TNoStatus \<or> status_of s' v = TRemoved" if "rt_pp (ts_timer s' v) = 0" for v
  proof -
    have "v \<noteq> t" using that xp t(2) tm by auto
    then show ?thesis using coreD(5) [OF c, of v] that u [of v] by (simp add: status_of_def)
  qed
  then have core: "core {} s'" using coreD(1,4) [OF c] hi ok w h unfolding core_def by auto
  have "deleted_ok s' q \<and> earliest_ok s' q" if "q \<noteq> 0" for q
  proof (cases "q = pid")
    case True
    obtain M where M: "mset (heap_of s pid) = add_mset t M" using tin by (metis insert_DiffM set_mset_mset)
    have nM: "v \<noteq> t" if "v \<in># M" for v
    proof
      assume "v = t"
      then have "count (mset (heap_of s pid)) t \<ge> 2" using M that by (simp add: Suc_leI)
      then show False using heap_distinct [OF c t(2)] by (metis distinct_count_atmost_1 tin numeral_le_one_iff semiring_norm(69))
    qed
    have "filter_mset (\<lambda>v. status_of s' v = TDeleted) M = filter_mset (\<lambda>v. status_of s v = TDeleted) M"
      using nM u by (intro filter_mset_cong) (auto simp: status_of_def)
    then have "deleted_count s' pid + of_bool (status_of s t = TDeleted) = deleted_count s pid + of_bool (rt_status x = TDeleted)"
      using tm by (simp add: deleted_count_def h M status_of_def)
    then have "(of_nat (deleted_count s' pid) :: u32) + of_bool (status_of s t = TDeleted) = of_nat (deleted_count s pid) + of_bool (rt_status x = TDeleted)"
      by (metis of_nat_add of_nat_of_bool)
    then have "deleted_ok s' pid" using d timers_invD(2) [OF inv t(2)] unfolding deleted_ok_def by (metis add_right_cancel)
    moreover have "earliest_ok s' pid"
      unfolding earliest_ok_def
    proof (intro conjI ballI impI)
      show "0 \<le> pt_modifiedEarliest (ts_p s' pid)" by (fact e(1))
      fix v
      assume v: "v \<in> set (heap_of s' pid)" "status_of s' v = TModifiedEarlier"
      have "pt_modifiedEarliest (ts_p s' pid) \<noteq> 0 \<and> pt_modifiedEarliest (ts_p s' pid) \<le> rt_nextwhen (ts_timer s' v)"
      proof (cases "v = t")
        case True
        then show ?thesis using e(3) v(2) tm by (simp add: status_of_def)
      next
        case False
        then have "pt_modifiedEarliest (ts_p s pid) \<noteq> 0 \<and> pt_modifiedEarliest (ts_p s pid) \<le> rt_nextwhen (ts_timer s v)"
          using timers_invD(3) [OF inv t(2)] v u [OF False] h by (simp add: earliest_ok_def status_of_def)
        then show ?thesis using e(2) u [OF False] by fastforce
      qed
      then show "pt_modifiedEarliest (ts_p s' pid) \<noteq> 0" "pt_modifiedEarliest (ts_p s' pid) \<le> rt_nextwhen (ts_timer s' v)" by simp_all
    qed
    ultimately show ?thesis using True by simp
  next
    case False
    have e: "ts_timer s' v = ts_timer s v" if "v \<in> set (heap_of s q)" for v using u off [OF \<open>q \<noteq> 0\<close> False] that by metis
    have "deleted_count s' q = deleted_count s q"
      unfolding deleted_count_def h using e by (intro arg_cong [of _ _ size] filter_mset_cong) (simp_all add: status_of_def)
    then show ?thesis using timers_invD(2,3) [OF inv that] p [OF False] h e
      by (simp add: deleted_ok_def earliest_ok_def status_of_def)
  qed
  then show ?thesis using core by (simp add: inv_off_def)
qed

lemma fires_upd: "ts_timer s' = (ts_timer s)(t := x) \<Longrightarrow> fires s' = (fires s)(t := fires s' t)"
  by (auto simp: fires_def fun_eq_iff)

lemma fires_status: "timers_inv s \<Longrightarrow> fires s t \<noteq> None \<longleftrightarrow> status_of s t \<in> {TWaiting, TModifiedEarlier, TModifiedLater}"
  by (auto simp: fires_def status_of_def Let_def split: tstatus.splits)

text \<open>The state of a timer between two operations: deleted or pending in a heap, or in none.\<close>

lemma timer_cases:
  assumes "timers_inv s"
  obtains (pending) "fires s t \<noteq> None" "rt_pp (ts_timer s t) \<noteq> 0" "timer_ok s (rt_pp (ts_timer s t)) t"
  | (deleted) "status_of s t = TDeleted" "fires s t = None" "rt_pp (ts_timer s t) \<noteq> 0" "timer_ok s (rt_pp (ts_timer s t)) t"
  | (off) "status_of s t = TNoStatus \<or> status_of s t = TRemoved" "fires s t = None" "rt_pp (ts_timer s t) = 0"
proof (cases "rt_pp (ts_timer s t) = 0")
  case True
  then have "status_of s t = TNoStatus \<or> status_of s t = TRemoved" using coreD(5) [OF timers_invD(1) [OF assms]] by blast
  moreover from this have "fires s t = None" by (auto simp: fires_def status_of_def Let_def)
  ultimately show thesis using off True by blast
next
  case False
  have "t \<in> set (heap_of s (rt_pp (ts_timer s t)))" using coreD(4) [OF timers_invD(1) [OF assms] False refl] .
  then have ok: "timer_ok s (rt_pp (ts_timer s t)) t" using coreD(2) [OF timers_invD(1) [OF assms] False] by blast
  then show thesis
  proof (cases rule: timer_ok_status)
    case 2
    then show ?thesis using deleted False ok by (auto simp: fires_def status_of_def Let_def)
  qed (use pending False ok in \<open>auto simp: fires_def status_of_def Let_def\<close>)
qed

lemma deltimer_ok:
  assumes inv: "timers_inv s"
  obtains s' where "deltimer t s = Ret (s', fires s t \<noteq> None)" "timers_inv s'" "fires s' = (fires s)(t := None)"
    "heap_of s' = heap_of s" "\<And>u. u \<noteq> t \<Longrightarrow> ts_timer s' u = ts_timer s u" "\<And>u. kept_fields (ts_timer s' u) = kept_fields (ts_timer s u)"
proof (cases rule: timer_cases [OF inv, of t])
  case pending: 1
  let ?p = "rt_pp (ts_timer s t)" and ?s = "mark_deleted t s"
  have st: "status_of s t \<in> {TWaiting, TModifiedEarlier, TModifiedLater}" using pending(1) fires_status [OF inv] by blast
  have run: "deltimer t s = Ret (?s, fires s t \<noteq> None)" using st pending(1) by (auto simp: deltimer_def)
  have tm: "ts_timer ?s = (ts_timer s)(t := (ts_timer s t)\<lparr>rt_status := TDeleted\<rparr>)" by (simp add: mark_deleted_def Let_def set_status_def)
  have P: "ts_p ?s q = (if q = ?p then (ts_p s q)\<lparr>pt_deletedTimers := pt_deletedTimers (ts_p s q) + 1\<rparr> else ts_p s q)" for q
    by (simp add: mark_deleted_def Let_def set_status_def upd_p_def)
  have sh: "same_heaps s ?s" by (simp add: same_heaps_def P)
  have "timers_inv ?s"
    by (rule status_change [OF inv refl pending(2) tm _ sh])
      (use pending(3) st timers_invD(3) [OF inv pending(2)] in \<open>auto simp: P when_of_def timer_ok_def tm Let_def earliest_ok_def\<close>)
  moreover have "fires ?s = (fires s)(t := None)" using fires_upd [OF tm] tm by (simp add: fires_def)
  moreover have "kept_fields (ts_timer ?s u) = kept_fields (ts_timer s u)" for u using tm by simp
  ultimately show thesis using that [OF run] same_heaps_heap [OF sh] tm by simp
next
  case deleted: 2
  then show thesis using that [of s] inv by (simp add: deltimer_def fun_upd_idem)
next
  case off: 3
  then show thesis using that [of s] inv by (auto simp: deltimer_def fun_upd_idem)
qed

lemma wakeNetPoller_simps [simp]:
  "ts_timer (wakeNetPoller w s) = ts_timer s" "ts_p (wakeNetPoller w s) = ts_p s"
  by (simp_all add: wakeNetPoller_def)

lemma fires_cong: "ts_timer s' = ts_timer s \<Longrightarrow> fires s' = fires s"
  by (simp add: fires_def fun_eq_iff)

lemma mark_modified_timer:
  "ts_timer (mark_modified t w s) = (ts_timer s)(t := (ts_timer s t)\<lparr>rt_nextwhen := w, rt_status := (if w < when_of s t then TModifiedEarlier else TModifiedLater)\<rparr>)"
  by (simp add: mark_modified_def Let_def updateTimerModifiedEarliest_def set_status_def when_of_def)

lemma mark_modified_p:
  "ts_p (mark_modified t w s) q = (if q = rt_pp (ts_timer s t) \<and> w < when_of s t
     then (let old = pt_modifiedEarliest (ts_p s q) in (ts_p s q)\<lparr>pt_modifiedEarliest := (if old \<noteq> 0 \<and> old < w then old else w)\<rparr>) else ts_p s q)"
  by (auto simp: mark_modified_def Let_def updateTimerModifiedEarliest_def set_status_def when_of_def)

lemma mark_modified_inv:
  assumes inv: "timers_inv s" and pp: "rt_pp (ts_timer s t) \<noteq> 0" and ok: "timer_ok s (rt_pp (ts_timer s t)) t" and w: "0 < w" "w \<le> maxWhen"
    and per: "0 \<le> period" "period \<le> maxWhen"
    and tm: "ts_timer s1 = (ts_timer s)(t := (ts_timer s t)\<lparr>rt_period := period, rt_f := f, rt_arg := arg, rt_seq := seq, rt_status := TModifying\<rparr>)"
    and p: "ts_p s1 = (ts_p s)(rt_pp (ts_timer s t) := (ts_p s (rt_pp (ts_timer s t)))\<lparr>pt_deletedTimers := pt_deletedTimers (ts_p s (rt_pp (ts_timer s t))) - of_bool (status_of s t = TDeleted)\<rparr>)"
  shows "timers_inv (mark_modified t w s1)" "fires (mark_modified t w s1) = (fires s)(t := Some w)" "heap_of (mark_modified t w s1) = heap_of s"
proof -
  let ?s = "mark_modified t w s1" and ?p = "rt_pp (ts_timer s t)"
  let ?x = "(ts_timer s t)\<lparr>rt_period := period, rt_f := f, rt_arg := arg, rt_seq := seq, rt_nextwhen := w, rt_status := (if w < when_of s t then TModifiedEarlier else TModifiedLater)\<rparr>"
  have wh: "when_of s1 t = when_of s t" "rt_pp (ts_timer s1 t) = ?p" using tm by (simp_all add: when_of_def)
  have T: "ts_timer ?s = (ts_timer s)(t := ?x)" by (simp add: mark_modified_timer tm when_of_def)
  note k = timer_ok_fields [OF ok]
  have sh: "same_heaps s ?s" using p wh by (auto simp: same_heaps_def mark_modified_p Let_def)
  show "heap_of ?s = heap_of s" using same_heaps_heap [OF sh] .
  show "timers_inv ?s"
  proof (rule status_change [OF inv refl pp T _ sh])
    show "timer_ok ?s ?p t" using k w per T by (simp add: timer_ok_def Let_def when_of_def)
    show "ts_p ?s q = ts_p s q" if "q \<noteq> ?p" for q using that p wh by (simp add: mark_modified_p)
    show "pt_deletedTimers (ts_p ?s ?p) + of_bool (status_of s t = TDeleted) = pt_deletedTimers (ts_p s ?p) + of_bool (rt_status ?x = TDeleted)"
      using p wh by (simp add: mark_modified_p Let_def)
    show "0 \<le> pt_modifiedEarliest (ts_p ?s ?p)" using timers_invD(3) [OF inv pp] p wh w by (auto simp: mark_modified_p Let_def earliest_ok_def)
    show "pt_modifiedEarliest (ts_p ?s ?p) \<noteq> 0 \<and> pt_modifiedEarliest (ts_p ?s ?p) \<le> pt_modifiedEarliest (ts_p s ?p)" if "pt_modifiedEarliest (ts_p s ?p) \<noteq> 0"
      using that p wh w by (auto simp: mark_modified_p Let_def)
    show "pt_modifiedEarliest (ts_p ?s ?p) \<noteq> 0 \<and> pt_modifiedEarliest (ts_p ?s ?p) \<le> rt_nextwhen ?x" if "rt_status ?x = TModifiedEarlier"
      using that p wh w by (auto simp: mark_modified_p Let_def split: if_splits)
  qed (simp add: when_of_def)
  have "fires ?s t = Some w" using T by (simp add: fires_def)
  then show "fires ?s = (fires s)(t := Some w)" using fires_upd [OF T] by simp
qed

text \<open>A timer that is in no heap may be prepared, and put into one.\<close>

lemma off_prepare:
  assumes inv: "timers_inv s" and pp: "rt_pp (ts_timer s t) = 0" and tm: "ts_timer s1 = (ts_timer s)(t := x)" and p: "ts_p s1 = ts_p s" and x: "rt_pp x = 0"
  shows "inv_off {t} s1"
proof -
  note c = timers_invD(1) [OF inv]
  have "core {t} s" using c pp unfolding core_def by auto
  then have c1: "core {t} s1" using core_off [of "{t}" s t s1 x] tm x p by (simp add: same_heaps_def)
  have h: "heap_of s1 = heap_of s" using p by (simp add: heap_of_def fun_eq_iff)
  have e: "ts_timer s1 u = ts_timer s u" if "q \<noteq> 0" "u \<in> set (heap_of s q)" for q u
    using heap_pp [OF c that] that(1) pp tm by (cases "u = t") simp_all
  have "deleted_count s1 q = deleted_count s q" if "q \<noteq> 0" for q
    unfolding deleted_count_def h using e [OF that] by (intro arg_cong [of _ _ size] filter_mset_cong) (simp_all add: status_of_def)
  then show ?thesis using c1 timers_invD(2,3) [OF inv] e p h by (simp add: inv_off_def deleted_ok_def earliest_ok_def status_of_def)
qed

lemma place_off:
  assumes inv: "inv_off T s" and tT: "t \<in> T" and cur: "cur \<noteq> 0" and w: "0 < when_of s t" "when_of s t \<le> maxWhen"
    and per: "0 \<le> rt_period (ts_timer s t)" "rt_period (ts_timer s t) \<le> maxWhen" and room: "length (heap_of s cur) + 1 < 2 ^ 32"
  obtains s2 s' where "doaddtimer cur t s = Ret s2" "s' = set_status t TWaiting s2" "inv_off (T - {t}) s'" "frame cur s s'"
    "ts_timer s' = (ts_timer s)(t := (ts_timer s t)\<lparr>rt_pp := cur, rt_status := TWaiting\<rparr>)" "fires s' = (fires s)(t := Some (when_of s t))"
    "length (heap_of s' cur) = Suc (length (heap_of s cur))"
proof -
  note c = timers_invD(1) [OF inv]
  show thesis
  proof (rule place_ok [OF c cur tT w per room], goal_cases)
    case (1 s2 s')
    note r = 1
    have off: "t \<notin> set (heap_of s q)" if "q \<noteq> 0" for q using core_member [OF c that] coreD(3) [OF c tT] that by simp
    have "earliest_ok s' q" if "q \<noteq> 0" for q
    proof (cases "q = cur")
      case True
      have set: "set (heap_of s' cur) = insert t (set (heap_of s cur))"
        using mset_eq_setD [of "heap_of s' cur" "t # heap_of s cur"] r(4) by simp
      have "earliest_ok s' cur"
      proof (rule earliest_local [OF timers_invD(3) [OF inv cur]])
        show "u \<in> set (heap_of s cur) \<and> ts_timer s' u = ts_timer s u" if "u \<in> set (heap_of s' cur)" "status_of s' u = TModifiedEarlier" for u
          using that set r(5) by (auto simp: status_of_def split: if_splits)
      qed (use r(8) in simp)
      then show ?thesis using True by simp
    next
      case False
      then show ?thesis using timers_invD(3) [OF inv that] off [OF that] r(5) by (intro earliest_other [OF _ r(6)]) auto
    qed
    then have "inv_off (T - {t}) s'" using r(3,7) timers_invD(2) [OF inv] by (simp add: inv_off_def)
    moreover have "fires s' t = Some (when_of s t)" using r(5) by (simp add: fires_def when_of_def)
    then have "fires s' = (fires s)(t := Some (when_of s t))" using fires_upd [OF r(5)] by simp
    moreover have "length (heap_of s' cur) = Suc (length (heap_of s cur))" using arg_cong [OF r(4), of size] by simp
    ultimately show thesis using that r(1,2,5,6) by blast
  qed
qed

lemma place_inv:
  assumes inv: "inv_off {t} s" and cur: "cur \<noteq> 0" and w: "0 < when_of s t" "when_of s t \<le> maxWhen"
    and per: "0 \<le> rt_period (ts_timer s t)" "rt_period (ts_timer s t) \<le> maxWhen" and room: "length (heap_of s cur) + 1 < 2 ^ 32"
  obtains s2 s' where "doaddtimer cur t s = Ret s2" "s' = set_status t TWaiting s2" "timers_inv s'" "frame cur s s'"
    "ts_timer s' = (ts_timer s)(t := (ts_timer s t)\<lparr>rt_pp := cur, rt_status := TWaiting\<rparr>)" "fires s' = (fires s)(t := Some (when_of s t))"
    "length (heap_of s' cur) = Suc (length (heap_of s cur))"
proof (rule place_off [OF inv singletonI cur w per room], goal_cases)
  case (1 s2 s')
  then show ?case using that [of s2 s'] by simp
qed

lemma set_status_same: "status_of s t = st \<Longrightarrow> set_status t st s = s"
  by (cases s; cases "ts_timer s t") (simp add: set_status_def upd_timer_def status_of_def fun_upd_idem)

lemma addtimer_ok:
  assumes inv: "timers_inv s" and cur: "cur \<noteq> 0" and st: "status_of s t = TNoStatus" "rt_pp (ts_timer s t) = 0"
    and w: "0 < when_of s t" "when_of s t \<le> maxWhen" and per: "0 \<le> rt_period (ts_timer s t)" "rt_period (ts_timer s t) \<le> maxWhen"
    and room: "length (heap_of s cur) + 1 < 2 ^ 32"
  obtains s' where "addtimer cur t s = Ret s'" "timers_inv s'" "fires s' = (fires s)(t := Some (when_of s t))" "rt_pp (ts_timer s' t) = cur"
    "\<And>u. kept_fields (ts_timer s' u) = kept_fields (ts_timer s u)" "\<And>q. q \<noteq> cur \<Longrightarrow> ts_p s' q = ts_p s q"
proof -
  let ?s = "set_status t TWaiting s"
  have tm: "ts_timer ?s = (ts_timer s)(t := (ts_timer s t)\<lparr>rt_status := TWaiting\<rparr>)" "ts_p ?s = ts_p s" by (simp_all add: set_status_def)
  have i1: "inv_off {t} ?s" using off_prepare [OF inv st(2) tm] st(2) by simp
  obtain s2 where s2: "cleantimers cur ?s = Ret s2" "keeps_off {t} cur ?s s2" using cleantimers_ok [OF i1 cur] by blast
  have k: "inv_off {t} s2" "fires s2 = fires ?s" "ts_timer s2 t = (ts_timer s t)\<lparr>rt_status := TWaiting\<rparr>" "length (heap_of s2 cur) \<le> length (heap_of s cur)"
    using s2(2) tm(1) unfolding keeps_off_def by auto
  have kf: "kept_fields (ts_timer s2 u) = kept_fields (ts_timer s u)" for u
    using s2(2) tm(1) unfolding keeps_off_def by (cases "u = t") simp_all
  have w2: "when_of s2 t = when_of s t" "rt_period (ts_timer s2 t) = rt_period (ts_timer s t)" using k(3) by (simp_all add: when_of_def)
  have r2: "0 < when_of s2 t" "when_of s2 t \<le> maxWhen" "0 \<le> rt_period (ts_timer s2 t)" "rt_period (ts_timer s2 t) \<le> maxWhen" "length (heap_of s2 cur) + 1 < 2 ^ 32"
    using w per room k(4) by (simp_all add: w2)
  obtain s3 s4 where s3: "doaddtimer cur t s2 = Ret s3" "s4 = set_status t TWaiting s3" "timers_inv s4" "ts_timer s4 = (ts_timer s2)(t := (ts_timer s2 t)\<lparr>rt_pp := cur, rt_status := TWaiting\<rparr>)"
      "fires s4 = (fires s2)(t := Some (when_of s2 t))" "frame cur s2 s4"
    using place_inv [OF k(1) cur r2] by metis
  have "status_of s3 t = TWaiting" using doaddtimer_frame(5) [OF s3(1)] k(3) by (simp add: status_of_def)
  then have s4: "s4 = s3" using s3(2) set_status_same by simp
  have run: "addtimer cur t s = Ret (wakeNetPoller (when_of s t) s3)"
    using w per st s2(1) s3(1) by (simp add: addtimer_def Let_def)
  have "fires ?s u = fires s u" if "u \<noteq> t" for u using that tm(1) by (simp add: fires_def)
  then have "fires s3 = (fires s)(t := Some (when_of s t))" using s3(5) s4 k(2) w2(1) by (auto simp: fun_eq_iff)
  moreover have "rt_pp (ts_timer s3 t) = cur" using s3(4) s4 by simp
  moreover have "ts_p s3 q = ts_p s q" if "q \<noteq> cur" for q
    using that s3(6) s4 s2(2) tm(2) by (simp add: keeps_off_def frame_def)
  moreover have "kept_fields (ts_timer s3 u) = kept_fields (ts_timer s u)" for u
    using s3(4) s4 kf [of u] by (cases "u = t") simp_all
  moreover have "timers_inv (wakeNetPoller (when_of s t) s3)" using timers_inv_cong [of "wakeNetPoller (when_of s t) s3" s3] s3(3) s4 by simp
  ultimately show thesis using that [OF run] fires_cong [of "wakeNetPoller (when_of s t) s3" s3] by simp
qed

lemma modtimer_ok:
  assumes inv: "timers_inv s" and cur: "cur \<noteq> 0" and w: "0 < w" "w \<le> maxWhen" and per: "0 \<le> period" "period \<le> maxWhen"
    and room: "length (heap_of s cur) + 1 < 2 ^ 32"
  obtains s' where "modtimer cur t w period f arg seq s = Ret (s', fires s t \<noteq> None)" "timers_inv s'" "fires s' = (fires s)(t := Some w)"
    "rt_pp (ts_timer s' t) = (if rt_pp (ts_timer s t) = 0 then cur else rt_pp (ts_timer s t))"
    "rt_period (ts_timer s' t) = period \<and> rt_f (ts_timer s' t) = f \<and> rt_arg (ts_timer s' t) = arg \<and> rt_seq (ts_timer s' t) = seq"
    "\<And>u. u \<noteq> t \<Longrightarrow> ts_timer s' u = ts_timer s u"
proof -
  note result = that
  let ?p = "rt_pp (ts_timer s t)"
  define fields where "fields = (\<lambda>s. upd_timer t (\<lambda>x. x\<lparr>rt_period := period, rt_f := f, rt_arg := arg, rt_seq := seq\<rparr>) (set_status t TModifying s))"
  have F: "ts_timer (fields s) = (ts_timer s)(t := (ts_timer s t)\<lparr>rt_period := period, rt_f := f, rt_arg := arg, rt_seq := seq, rt_status := TModifying\<rparr>)"
      "ts_p (fields s) = ts_p s" for s
    by (cases "ts_timer s t"; simp add: fields_def set_status_def)+
  have marked: thesis
    if s1: "ts_timer s1 = ts_timer s" "ts_p s1 = (ts_p s)(?p := (ts_p s ?p)\<lparr>pt_deletedTimers := pt_deletedTimers (ts_p s ?p) - of_bool (status_of s t = TDeleted)\<rparr>)"
      and run: "modtimer cur t w period f arg seq s = Ret (mark_modified t w (fields s1), fires s t \<noteq> None)" and pp: "?p \<noteq> 0" and ok: "timer_ok s ?p t" for s1
  proof -
    have tm: "ts_timer (fields s1) = (ts_timer s)(t := (ts_timer s t)\<lparr>rt_period := period, rt_f := f, rt_arg := arg, rt_seq := seq, rt_status := TModifying\<rparr>)"
      "ts_p (fields s1) = (ts_p s)(?p := (ts_p s ?p)\<lparr>pt_deletedTimers := pt_deletedTimers (ts_p s ?p) - of_bool (status_of s t = TDeleted)\<rparr>)"
      using F [of s1] s1 by simp_all
    note m = mark_modified_inv [OF inv pp ok w per tm]
    show thesis using result [OF run m(1,2)] pp by (simp add: mark_modified_timer tm)
  qed
  show thesis
  proof (cases rule: timer_cases [OF inv, of t])
    case pending: 1
    have st: "status_of s t \<in> {TWaiting, TModifiedEarlier, TModifiedLater}" using pending(1) fires_status [OF inv] by blast
    show thesis
      by (rule marked [of s]) (use w per st pending in \<open>auto simp: modtimer_def fields_def Let_def\<close>)
  next
    case deleted: 2
    show thesis
      by (rule marked [of "upd_p ?p (\<lambda>p. p\<lparr>pt_deletedTimers := pt_deletedTimers p - 1\<rparr>) s"])
        (use w per deleted in \<open>simp_all add: modtimer_def fields_def Let_def\<close>)
  next
    case off: 3
    let ?s = "upd_timer t (\<lambda>x. x\<lparr>rt_when := w\<rparr>) (fields s)"
    have tm: "ts_timer ?s = (ts_timer s)(t := (ts_timer s t)\<lparr>rt_when := w, rt_period := period, rt_f := f, rt_arg := arg, rt_seq := seq, rt_status := TModifying\<rparr>)"
      "ts_p ?s = ts_p s" using F [of s] by (cases "ts_timer s t"; simp)+
    have i1: "inv_off {t} ?s" using off_prepare [OF inv off(3) tm] off(3) by simp
    have r: "0 < when_of ?s t" "when_of ?s t \<le> maxWhen" "0 \<le> rt_period (ts_timer ?s t)" "rt_period (ts_timer ?s t) \<le> maxWhen" "length (heap_of ?s cur) + 1 < 2 ^ 32"
      using w per room tm by (simp_all add: when_of_def heap_of_def)
    obtain s3 s4 where s3: "doaddtimer cur t ?s = Ret s3" "s4 = set_status t TWaiting s3" "timers_inv s4" "ts_timer s4 = (ts_timer ?s)(t := (ts_timer ?s t)\<lparr>rt_pp := cur, rt_status := TWaiting\<rparr>)"
        "fires s4 = (fires ?s)(t := Some (when_of ?s t))"
      using place_inv [OF i1 cur r] by metis
    have run: "modtimer cur t w period f arg seq s = Ret (wakeNetPoller w s4, fires s t \<noteq> None)"
      using w per off s3(1,2) by (auto simp: modtimer_def Let_def fields_def)
    have "fires ?s u = fires s u" if "u \<noteq> t" for u using that tm(1) by (simp add: fires_def)
    moreover have "when_of ?s t = w" using tm(1) by (simp add: when_of_def)
    ultimately have "fires s4 = (fires s)(t := Some w)" using s3(5) by (auto simp: fun_eq_iff)
    moreover have "timers_inv (wakeNetPoller w s4)" using timers_inv_cong [of "wakeNetPoller w s4" s4] s3(3) by simp
    ultimately show thesis using result [OF run] fires_cong [of "wakeNetPoller w s4" s4] s3(4) F [of s] off(3) tm(1) by simp
  qed
qed

end
