(* ===== verification/TimersMove.thy ===== *)
theory TimersMove
  imports TimersOps
begin

text \<open>
  A P that goes away gives its timers to another P. While they move, the heap of the old P still lists timers that are gone;
  \<open>view\<close> is the state without it, for which the invariant holds all the time.
\<close>

section \<open>The view of a P that is emptied\<close>

text \<open>\<open>emptied pid s\<close> is \<open>s\<close> after the fields of \<open>pid\<close> have been cleared; in \<open>view pid ts s\<close> the timers \<open>ts\<close> are off it, too.\<close>

definition emptied :: "nat \<Rightarrow> tsys \<Rightarrow> tsys" where
  "emptied pid s = upd_p pid (\<lambda>p. p\<lparr>pt_timers := [], pt_numTimers := 0, pt_deletedTimers := 0, pt_timer0When := 0\<rparr>) s"

definition view :: "nat \<Rightarrow> nat list \<Rightarrow> tsys \<Rightarrow> tsys" where
  "view pid ts s = emptied pid (s\<lparr>ts_timer := (\<lambda>t. if t \<in> set ts then (ts_timer s t)\<lparr>rt_pp := 0\<rparr> else ts_timer s t)\<rparr>)"

lemma view_simps [simp]:
  "ts_timer (view pid ts s) t = (if t \<in> set ts then (ts_timer s t)\<lparr>rt_pp := 0\<rparr> else ts_timer s t)"
  "ts_p (view pid ts s) q = (if q = pid then (ts_p s q)\<lparr>pt_timers := [], pt_numTimers := 0, pt_deletedTimers := 0, pt_timer0When := 0\<rparr> else ts_p s q)"
  "heap_of (view pid ts s) q = (if q = pid then [] else heap_of s q)" "when_of (view pid ts s) = when_of s" "status_of (view pid ts s) = status_of s"
  by (simp_all add: view_def emptied_def heap_of_def when_of_def status_of_def upd_p_def fun_eq_iff)

lemma emptied_simps [simp]:
  "ts_timer (emptied pid s) = ts_timer s" "ts_p (emptied pid s) q = ts_p (view pid [] s) q"
  by (simp_all add: emptied_def)

lemma view_start:
  assumes inv: "timers_inv s" and pid: "pid \<noteq> 0"
  shows "inv_off (set (heap_of s pid)) (view pid (heap_of s pid) s)"
proof -
  note c = timers_invD(1) [OF inv]
  let ?xs = "heap_of s pid" and ?v = "view pid (heap_of s pid) s"
  have e: "ts_timer ?v u = ts_timer s u" if "q \<noteq> 0" "q \<noteq> pid" "u \<in> set (heap_of s q)" for q u
    using off_heaps [OF c that(1,3) pid] that(2) by auto
  have A: "heap_inv ?v q \<and> (\<forall>u\<in>set (heap_of ?v q). timer_ok ?v q u)" if "q \<noteq> 0" for q
  proof (cases "q = pid")
    case True
    then show ?thesis by (simp add: heap_inv_def heap_def)
  next
    case False
    have "heap_inv ?v q = heap_inv s q" using False e [OF that False] by (intro heap_inv_local) simp_all
    then show ?thesis using coreD(1,2) [OF c that] e [OF that False] False by (simp add: timer_ok_def del: view_simps(1))
  qed
  have B: "u \<in> set (heap_of ?v (rt_pp (ts_timer ?v u)))" if "rt_pp (ts_timer ?v u) \<noteq> 0" for u
  proof -
    have u: "u \<notin> set ?xs" "rt_pp (ts_timer ?v u) = rt_pp (ts_timer s u)" using that by (simp_all split: if_splits)
    then show ?thesis using coreD(4) [OF c, of "rt_pp (ts_timer s u)" u] that by auto
  qed
  have C: "u \<in> set ?xs \<or> status_of ?v u = TNoStatus \<or> status_of ?v u = TRemoved" if "rt_pp (ts_timer ?v u) = 0" for u
    using that coreD(5) [OF c, of u] by (auto split: if_splits)
  have "core (set ?xs) ?v" unfolding core_def using A B C by (intro conjI allI impI) simp_all
  moreover have "deleted_ok ?v q \<and> earliest_ok ?v q" if "q \<noteq> 0" for q
    using timers_invD(2,3) [OF inv that] e [OF that] by (cases "q = pid") (auto simp: deleted_ok_def deleted_count_def earliest_ok_def)
  ultimately show ?thesis by (simp add: inv_off_def)
qed

text \<open>Adding a timer looks at one P and at times only.\<close>

lemma doaddtimer_local:
  assumes a: "doaddtimer cur t v = Ret v2" and p: "ts_p s cur = ts_p v cur" and w: "when_of s = when_of v" and pp: "rt_pp (ts_timer s t) = 0"
  obtains s2 where "doaddtimer cur t s = Ret s2" "ts_p s2 = (ts_p s)(cur := ts_p v2 cur)" "ts_timer s2 = (ts_timer s)(t := (ts_timer s t)\<lparr>rt_pp := cur\<rparr>)"
proof -
  have h: "heap_of s cur = heap_of v cur" using p by (simp add: heap_of_def)
  have pv: "rt_pp (ts_timer v t) = 0" using a by (auto simp: doaddtimer_def Let_def split: if_splits)
  have W: "when_of (upd_timer t (\<lambda>x. x\<lparr>rt_pp := cur\<rparr>) (z\<lparr>ts_netpollInited := True\<rparr>)) = when_of z" "heap_of (z\<lparr>ts_netpollInited := True\<rparr>) = heap_of z" for z
    by (simp_all add: when_of_def heap_of_def fun_eq_iff)
  obtain ts k where ts: "siftupTimer (when_of v) (heap_of v cur @ [t]) (length (heap_of v cur)) = Ret (ts, k)"
    using a pv by (auto simp: doaddtimer_def Let_def obind_Ret W)
  define g where "g = (\<lambda>z. let z = upd_p cur (\<lambda>p. p\<lparr>pt_timers := ts\<rparr>) (upd_timer t (\<lambda>x. x\<lparr>rt_pp := cur\<rparr>) (z\<lparr>ts_netpollInited := True\<rparr>));
                 z = (if t = ts ! 0 then upd_p cur (\<lambda>p. p\<lparr>pt_timer0When := when_of z t\<rparr>) z else z)
             in upd_p cur (\<lambda>p. p\<lparr>pt_numTimers := pt_numTimers p + 1\<rparr>) z)"
  have G: "doaddtimer cur t z = Ret (g z)" if "rt_pp (ts_timer z t) = 0" "when_of z = when_of v" "heap_of z cur = heap_of v cur" for z
    using that ts by (simp add: doaddtimer_def Let_def W g_def)
  have "v2 = g v" using G [OF pv refl refl] a by simp
  moreover have "ts_p (g s) = (ts_p s)(cur := ts_p (g v) cur)" using p w by (simp add: g_def Let_def fun_eq_iff when_of_def)
  moreover have "ts_timer (g s) = (ts_timer s)(t := (ts_timer s t)\<lparr>rt_pp := cur\<rparr>)" by (simp add: g_def Let_def)
  ultimately show thesis using that [OF G [OF pp w h]] by simp
qed

text \<open>Two changes of a timer that is off the heaps.\<close>

lemma off_change:
  assumes inv: "inv_off T v" and t: "t \<in> T" and v': "ts_timer v' = (ts_timer v)(t := x)" "ts_p v' = ts_p v" "rt_pp x = 0"
  shows "inv_off T v'" "rt_status x = TNoStatus \<or> rt_status x = TRemoved \<Longrightarrow> inv_off (T - {t}) v'"
proof -
  note c = timers_invD(1) [OF inv]
  have sh: "same_heaps v v'" using v'(2) by (simp add: same_heaps_def)
  have c': "core T v'" using core_off [OF c t sh v'(1,3)] .
  have h: "heap_of v' = heap_of v" using same_heaps_heap [OF sh] .
  have e: "ts_timer v' u = ts_timer v u" if "q \<noteq> 0" "u \<in> set (heap_of v q)" for q u
    using off_T [OF c t that] v'(1) by auto
  have "deleted_count v' q = deleted_count v q" if "q \<noteq> 0" for q
    unfolding deleted_count_def h using e [OF that] by (intro arg_cong [of _ _ size] filter_mset_cong) (simp_all add: status_of_def)
  then have k: "\<forall>q. q \<noteq> 0 \<longrightarrow> deleted_ok v' q \<and> earliest_ok v' q"
    using timers_invD(2,3) [OF inv] e v'(2) h by (simp add: deleted_ok_def earliest_ok_def status_of_def)
  then show "inv_off T v'" using c' by (simp add: inv_off_def)
  assume x: "rt_status x = TNoStatus \<or> rt_status x = TRemoved"
  have "set_status t (rt_status x) v' = v'" using v'(1) by (cases v') (auto simp: set_status_def upd_timer_def fun_eq_iff intro: rtimer.equality)
  then have "core (T - {t}) v'" using core_drop [OF c' t x] by simp
  then show "inv_off (T - {t}) v'" using k by (simp add: inv_off_def)
qed

lemma view_cong:
  assumes "ts_p s' = (ts_p s)(cur := P)" "cur \<noteq> pid" and "ts_timer s' = (ts_timer s)(t := x)" "t \<notin> set ts"
    and v: "ts_p v = (ts_p (view pid (t # ts) s))(cur := P)" "ts_timer v = (ts_timer (view pid (t # ts) s))(t := x)"
  shows "inv_off T (view pid ts s') = inv_off T v"
  by (rule timers_inv_cong) (use assms in \<open>auto simp: fun_eq_iff\<close>)

text \<open>A pending timer moves, with its time if that was changed.\<close>

lemma move_one:
  assumes inv: "inv_off (set (t # ts)) (view pid (t # ts) s)" and d: "t \<notin> set ts" and pid: "cur \<noteq> pid" "cur \<noteq> 0"
    and room: "length (heap_of s cur) + 1 < 2 ^ 32" and tm: "ts_timer s1 = (ts_timer s)(t := x)" "ts_p s1 = ts_p s"
    and x: "rt_pp x = 0" "0 < rt_when x" "rt_when x \<le> maxWhen" "0 \<le> rt_period x" "rt_period x \<le> maxWhen"
  obtains s2 where "doaddtimer cur t s1 = Ret s2" "inv_off (set ts) (view pid ts (set_status t TWaiting s2))"
    "ts_timer (set_status t TWaiting s2) = (ts_timer s)(t := x\<lparr>rt_pp := cur, rt_status := TWaiting\<rparr>)"
    "heap_of s2 pid = heap_of s pid" "length (heap_of s2 cur) = Suc (length (heap_of s cur))"
proof -
  let ?v = "view pid (t # ts) s1"
  have tT: "t \<in> set (t # ts)" by simp
  have v: "ts_timer ?v = (ts_timer (view pid (t # ts) s))(t := x)" "ts_p ?v = ts_p (view pid (t # ts) s)"
    using tm x(1) by (auto simp: fun_eq_iff)
  have i: "inv_off (set (t # ts)) ?v" using off_change(1) [OF inv tT v x(1)] .
  have h: "heap_of ?v cur = heap_of s cur" using pid(1) tm(2) by (simp add: heap_of_def)
  have r: "0 < when_of ?v t" "when_of ?v t \<le> maxWhen" "0 \<le> rt_period (ts_timer ?v t)" "rt_period (ts_timer ?v t) \<le> maxWhen" "length (heap_of ?v cur) + 1 < 2 ^ 32"
    using x room tm(1) h by (simp_all add: when_of_def)
  show thesis
  proof (rule place_off [OF i tT pid(2) r], goal_cases)
    case (1 v2 v3)
    note p = 1
    obtain s2 where s2: "doaddtimer cur t s1 = Ret s2" "ts_p s2 = (ts_p s1)(cur := ts_p v2 cur)" "ts_timer s2 = (ts_timer s1)(t := (ts_timer s1 t)\<lparr>rt_pp := cur\<rparr>)"
      using doaddtimer_local [OF p(1), of s1] pid(1) tm(1) x(1) by auto
    let ?s3 = "set_status t TWaiting s2"
    have t3: "ts_timer ?s3 = (ts_timer s)(t := x\<lparr>rt_pp := cur, rt_status := TWaiting\<rparr>)" "ts_p ?s3 = (ts_p s)(cur := ts_p v2 cur)"
      using s2(2,3) tm by (simp_all add: set_status_def rt_order fun_eq_iff)
    have v3: "ts_p v3 = (ts_p (view pid (t # ts) s))(cur := ts_p v2 cur)"
    proof
      fix q
      show "ts_p v3 q = ((ts_p (view pid (t # ts) s))(cur := ts_p v2 cur)) q"
        using p(2,4) v(2) by (cases "q = cur") (simp_all add: frame_def set_status_def)
    qed
    have "ts_timer v3 = (ts_timer (view pid (t # ts) s))(t := x\<lparr>rt_pp := cur, rt_status := TWaiting\<rparr>)"
      using p(5) v(1) tm(1) x(1) by (simp add: fun_eq_iff)
    then have "inv_off (set ts) (view pid ts ?s3) = inv_off (set ts) v3" using view_cong [OF t3(2) pid(1) t3(1) d v3] by blast
    moreover have "inv_off (set ts) v3" using p(3) d by simp
    moreover have "heap_of s2 pid = heap_of s pid" using s2(2) pid(1) tm(2) by (simp add: heap_of_def)
    moreover have "heap_of s2 cur = heap_of v2 cur" using s2(2) by (simp add: heap_of_def)
    ultimately show thesis using that [OF s2(1)] t3(1) p(2,7) h by simp
  qed
qed

lemma moveTimers_ok:
  "inv_off (set ts) (view pid ts s) \<Longrightarrow> distinct ts \<Longrightarrow> cur \<noteq> pid \<Longrightarrow> cur \<noteq> 0 \<Longrightarrow> (\<forall>t\<in>set ts. timer_ok s pid t) \<Longrightarrow> length (heap_of s cur) + length ts < 2 ^ 32 \<Longrightarrow>
   \<exists>s'. moveTimers cur ts s = Ret s' \<and> timers_inv (view pid [] s') \<and> fires s' = fires s \<and> heap_of s' pid = heap_of s pid
     \<and> (\<forall>t. t \<notin> set ts \<longrightarrow> ts_timer s' t = ts_timer s t) \<and> (\<forall>t\<in>set ts. rt_pp (ts_timer s' t) = (if status_of s t = TDeleted then 0 else cur))
     \<and> (\<forall>t. kept_fields (ts_timer s' t) = kept_fields (ts_timer s t))"
proof (induction cur ts s rule: moveTimers.induct)
  case (1 cur s)
  then show ?case by simp
next
  case (2 cur t ts s)
  note inv = 2(5) and pid = 2(7,8)
  have d: "t \<notin> set ts" "distinct ts" using 2(6) by simp_all
  have ok: "timer_ok s pid t" "\<forall>u\<in>set ts. timer_ok s pid u" using 2(9) by simp_all
  have room: "length (heap_of s cur) + 1 < 2 ^ 32" using 2(10) by simp
  have nxt: ?case
    if IH: "inv_off (set ts) (view pid ts s3) \<Longrightarrow> distinct ts \<Longrightarrow> cur \<noteq> pid \<Longrightarrow> cur \<noteq> 0 \<Longrightarrow> \<forall>t\<in>set ts. timer_ok s3 pid t \<Longrightarrow> length (heap_of s3 cur) + length ts < 2 ^ 32 \<Longrightarrow>
       \<exists>s'. moveTimers cur ts s3 = Ret s' \<and> timers_inv (view pid [] s') \<and> fires s' = fires s3 \<and> heap_of s' pid = heap_of s3 pid
     \<and> (\<forall>t. t \<notin> set ts \<longrightarrow> ts_timer s' t = ts_timer s3 t) \<and> (\<forall>t\<in>set ts. rt_pp (ts_timer s' t) = (if status_of s3 t = TDeleted then 0 else cur))
     \<and> (\<forall>t. kept_fields (ts_timer s' t) = kept_fields (ts_timer s3 t))"
      and run: "moveTimers cur (t # ts) s = moveTimers cur ts s3" and i3: "inv_off (set ts) (view pid ts s3)" and t3: "ts_timer s3 = (ts_timer s)(t := y)" and y: "fires s3 t = fires s t" "kept_fields y = kept_fields (ts_timer s t)"
        "rt_pp y = (if status_of s t = TDeleted then 0 else cur)" and h3: "heap_of s3 pid = heap_of s pid" "length (heap_of s3 cur) \<le> Suc (length (heap_of s cur))" for s3 y
  proof -
    have "timer_ok s3 pid u" if "u \<in> set ts" for u
    proof -
      have "u \<noteq> t" using that d(1) by auto
      then show ?thesis using ok(2) that t3 by (simp add: timer_ok_def)
    qed
    moreover have "length (heap_of s3 cur) + length ts < 2 ^ 32" using h3(2) 2(10) by simp
    ultimately obtain s' where s': "moveTimers cur ts s3 = Ret s'" "timers_inv (view pid [] s')" "fires s' = fires s3" "heap_of s' pid = heap_of s3 pid"
      "\<forall>u. u \<notin> set ts \<longrightarrow> ts_timer s' u = ts_timer s3 u" "\<forall>u\<in>set ts. rt_pp (ts_timer s' u) = (if status_of s3 u = TDeleted then 0 else cur)"
      "\<forall>u. kept_fields (ts_timer s' u) = kept_fields (ts_timer s3 u)"
      using IH [OF i3 d(2) pid] by blast
    have f: "fires s3 = fires s" using fires_upd [OF t3] y(1) by (simp add: fun_upd_idem)
    have "rt_pp (ts_timer s' u) = (if status_of s u = TDeleted then 0 else cur)" if "u \<in> set (t # ts)" for u
    proof (cases "u = t")
      case True
      then show ?thesis using s'(5) d(1) t3 y(3) by simp
    next
      case False
      then have "u \<in> set ts" "status_of s3 u = status_of s u" using that t3 by (simp_all add: status_of_def)
      then show ?thesis using s'(6) by simp
    qed
    moreover have "kept_fields (ts_timer s' u) = kept_fields (ts_timer s u)" for u using s'(7) t3 y(2) by (cases "u = t") simp_all
    moreover have "ts_timer s' u = ts_timer s u" if "u \<notin> set (t # ts)" for u using s'(5) t3 that by simp
    ultimately show ?thesis unfolding run using s'(1-4) f h3(1) by (intro exI [of _ s']) simp
  qed
  note fld = timer_ok_fields [OF ok(1)]
  from ok(1) show ?case
  proof (cases rule: timer_ok_status)
    case 1
    let ?s = "upd_timer t (\<lambda>x. x\<lparr>rt_pp := 0\<rparr>) (set_status t TMoving s)"
    have tm: "ts_timer ?s = (ts_timer s)(t := (ts_timer s t)\<lparr>rt_pp := 0, rt_status := TMoving\<rparr>)" "ts_p ?s = ts_p s" by (simp_all add: set_status_def rt_order)
    obtain s2 where s2: "doaddtimer cur t ?s = Ret s2" "inv_off (set ts) (view pid ts (set_status t TWaiting s2))"
      "ts_timer (set_status t TWaiting s2) = (ts_timer s)(t := (ts_timer s t)\<lparr>rt_pp := 0, rt_status := TMoving\<rparr>\<lparr>rt_pp := cur, rt_status := TWaiting\<rparr>)"
      "heap_of s2 pid = heap_of s pid" "length (heap_of s2 cur) = Suc (length (heap_of s cur))"
      by (rule move_one [OF inv d(1) pid room tm]) (use fld in \<open>simp_all add: when_of_def\<close>)
    have "fires (set_status t TWaiting s2) t = fires s t" using s2(3) 1 by (simp add: fires_def status_of_def)
    moreover have "moveTimers cur (t # ts) s = moveTimers cur ts (set_status t TWaiting s2)" using s2(1) 1 by simp
    ultimately show ?thesis by (intro nxt [OF 2(1) [OF refl 1 s2(1)] _ s2(2,3)]) (use s2 1 in simp_all)
  next
    case 2
    let ?s = "upd_timer t (\<lambda>x. x\<lparr>rt_pp := 0\<rparr>) (set_status t TRemoved s)"
    have tm: "ts_timer ?s = (ts_timer s)(t := (ts_timer s t)\<lparr>rt_pp := 0, rt_status := TRemoved\<rparr>)" by (simp add: set_status_def rt_order)
    have vt: "ts_timer (view pid ts ?s) = (ts_timer (view pid (t # ts) s))(t := (ts_timer s t)\<lparr>rt_pp := 0, rt_status := TRemoved\<rparr>)"
      "ts_p (view pid ts ?s) = ts_p (view pid (t # ts) s)" using tm d(1) by (auto simp: fun_eq_iff set_status_def rt_order)
    have "inv_off (set (t # ts) - {t}) (view pid ts ?s)" using off_change(2) [OF inv _ vt] by simp
    then have i: "inv_off (set ts) (view pid ts ?s)" using d(1) by simp
    have "fires ?s t = fires s t" using tm 2 by (simp add: fires_def status_of_def)
    moreover have "moveTimers cur (t # ts) s = moveTimers cur ts ?s" using 2 by (simp add: Let_def)
    ultimately show ?thesis by (intro nxt [OF "2.IH"(2) [OF refl 2] _ i tm]) (use 2 in simp_all)
  next
    case 3
    let ?s = "upd_timer t (\<lambda>x. x\<lparr>rt_pp := 0\<rparr>) (take_nextwhen t (set_status t TMoving s))"
    have tm: "ts_timer ?s = (ts_timer s)(t := (ts_timer s t)\<lparr>rt_pp := 0, rt_when := rt_nextwhen (ts_timer s t), rt_status := TMoving\<rparr>)" "ts_p ?s = ts_p s"
      by (simp_all add: set_status_def take_nextwhen_def rt_order)
    note nx = timer_ok_next [OF ok(1) disjI1 [OF 3]]
    obtain s2 where s2: "doaddtimer cur t ?s = Ret s2" "inv_off (set ts) (view pid ts (set_status t TWaiting s2))"
      "ts_timer (set_status t TWaiting s2) = (ts_timer s)(t := (ts_timer s t)\<lparr>rt_pp := 0, rt_when := rt_nextwhen (ts_timer s t), rt_status := TMoving\<rparr>\<lparr>rt_pp := cur, rt_status := TWaiting\<rparr>)"
      "heap_of s2 pid = heap_of s pid" "length (heap_of s2 cur) = Suc (length (heap_of s cur))"
      by (rule move_one [OF inv d(1) pid room tm]) (use fld nx in \<open>simp_all add: when_of_def\<close>)
    have "fires (set_status t TWaiting s2) t = fires s t" using s2(3) nx(3) by (simp add: fires_def)
    moreover have "moveTimers cur (t # ts) s = moveTimers cur ts (set_status t TWaiting s2)" using s2(1) 3 by (simp add: Let_def)
    ultimately show ?thesis by (intro nxt [OF "2.IH"(3) [OF refl 3 s2(1)] _ s2(2,3)]) (use s2 3 in simp_all)
  next
    case 4
    let ?s = "upd_timer t (\<lambda>x. x\<lparr>rt_pp := 0\<rparr>) (take_nextwhen t (set_status t TMoving s))"
    have tm: "ts_timer ?s = (ts_timer s)(t := (ts_timer s t)\<lparr>rt_pp := 0, rt_when := rt_nextwhen (ts_timer s t), rt_status := TMoving\<rparr>)" "ts_p ?s = ts_p s"
      by (simp_all add: set_status_def take_nextwhen_def rt_order)
    note nx = timer_ok_next [OF ok(1) disjI2 [OF 4]]
    obtain s2 where s2: "doaddtimer cur t ?s = Ret s2" "inv_off (set ts) (view pid ts (set_status t TWaiting s2))"
      "ts_timer (set_status t TWaiting s2) = (ts_timer s)(t := (ts_timer s t)\<lparr>rt_pp := 0, rt_when := rt_nextwhen (ts_timer s t), rt_status := TMoving\<rparr>\<lparr>rt_pp := cur, rt_status := TWaiting\<rparr>)"
      "heap_of s2 pid = heap_of s pid" "length (heap_of s2 cur) = Suc (length (heap_of s cur))"
      by (rule move_one [OF inv d(1) pid room tm]) (use fld nx in \<open>simp_all add: when_of_def\<close>)
    have "fires (set_status t TWaiting s2) t = fires s t" using s2(3) nx(3) by (simp add: fires_def)
    moreover have "moveTimers cur (t # ts) s = moveTimers cur ts (set_status t TWaiting s2)" using s2(1) 4 by (simp add: Let_def)
    ultimately show ?thesis by (intro nxt [OF "2.IH"(4) [OF refl 4 s2(1)] _ s2(2,3)]) (use s2 4 in simp_all)
  qed
qed

lemma destroy_timers_ok:
  assumes inv: "timers_inv s" and pid: "pid \<noteq> 0" and cur: "plocal \<noteq> 0" "plocal \<noteq> pid"
    and room: "length (heap_of s plocal) + length (heap_of s pid) < 2 ^ 32"
  obtains s' where "destroy_timers plocal pid s = Ret s'" "timers_inv s'" "fires s' = fires s" "heap_of s' pid = []"
    "\<And>t. rt_pp (ts_timer s t) = pid \<Longrightarrow> fires s t \<noteq> None \<Longrightarrow> rt_pp (ts_timer s' t) = plocal"
    "\<And>t. kept_fields (ts_timer s' t) = kept_fields (ts_timer s t)"
proof (cases "heap_of s pid = []")
  case True
  have "fires s t = None" if "rt_pp (ts_timer s t) = pid" for t
    using fires_heap(2) [OF timers_invD(1) [OF inv], of t] that True by (cases "fires s t") simp_all
  then show thesis using that [of s] inv True by (simp add: destroy_timers_def)
next
  case False
  note c = timers_invD(1) [OF inv]
  have ok: "\<forall>t\<in>set (heap_of s pid). timer_ok s pid t" using coreD(2) [OF c pid] by blast
  obtain s1 where s1: "moveTimers plocal (heap_of s pid) s = Ret s1" "timers_inv (view pid [] s1)" "fires s1 = fires s"
    "\<forall>t\<in>set (heap_of s pid). rt_pp (ts_timer s1 t) = (if status_of s t = TDeleted then 0 else plocal)"
    "\<forall>t. kept_fields (ts_timer s1 t) = kept_fields (ts_timer s t)"
    using moveTimers_ok [OF view_start [OF inv pid] heap_distinct [OF c pid] cur(2,1) ok room] by blast
  have run: "destroy_timers plocal pid s = Ret (emptied pid s1)" using False s1(1) by (simp add: destroy_timers_def emptied_def)
  have e: "ts_timer (emptied pid s1) = ts_timer (view pid [] s1)" "ts_p (emptied pid s1) = ts_p (view pid [] s1)" by (simp_all add: fun_eq_iff)
  have "timers_inv (emptied pid s1)" using timers_inv_cong [OF e] s1(2) by simp
  moreover have "fires (emptied pid s1) = fires s" using s1(3) by (simp add: fires_def fun_eq_iff)
  moreover have "heap_of (emptied pid s1) pid = []" by (simp add: heap_of_def)
  moreover have "rt_pp (ts_timer (emptied pid s1) t) = plocal" if "rt_pp (ts_timer s t) = pid" "fires s t \<noteq> None" for t
  proof -
    have "t \<in> set (heap_of s pid)" using fires_heap(2) [OF c that(2)] that(1) by simp
    moreover have "status_of s t \<noteq> TDeleted" using that(2) by (auto simp: fires_def status_of_def Let_def)
    ultimately show ?thesis using s1(4) by simp
  qed
  ultimately show thesis using that [OF run] s1(5) by simp
qed

end
