(* ===== verification/TimersProps.thy ===== *)
theory TimersProps
  imports TimersMove Netpoll
begin

text \<open>
  The properties of the runtime's timers, and that they do what the model of the network poller assumes of its timers.
\<close>

section \<open>Timers as a service\<close>

text \<open>
  What a client of timers relies on: starting a timer and stopping it answer whether it was pending, change when that timer
  fires, and nothing else. \<open>room\<close> says that a timer can be added.
\<close>

locale timer_service =
  fixes good :: "'s \<Rightarrow> bool" and room :: "'s \<Rightarrow> bool"
    and pending :: "'s \<Rightarrow> 't \<Rightarrow> int option"
    and start :: "'t \<Rightarrow> int \<Rightarrow> 's \<Rightarrow> ('s \<times> bool) outcome"
    and stop :: "'t \<Rightarrow> 's \<Rightarrow> ('s \<times> bool) outcome"
  assumes start_law: "good s \<Longrightarrow> room s \<Longrightarrow> 0 < w \<Longrightarrow> w \<le> maxWhen \<Longrightarrow>
      \<exists>s'. start t w s = Ret (s', pending s t \<noteq> None) \<and> good s' \<and> pending s' = (pending s)(t := Some w)"
    and stop_law: "good s \<Longrightarrow> \<exists>s'. stop t s = Ret (s', pending s t \<noteq> None) \<and> good s' \<and> pending s' = (pending s)(t := None)"
begin

lemma start_stop:
  assumes "good s" "room s" "0 < w" "w \<le> maxWhen"
  shows "\<exists>s'. obind (start t w s) (\<lambda>(s1, _). stop t s1) = Ret (s', True) \<and> good s' \<and> pending s' = (pending s)(t := None)"
proof -
  obtain s1 where s1: "start t w s = Ret (s1, pending s t \<noteq> None)" "good s1" "pending s1 = (pending s)(t := Some w)"
    using start_law [OF assms] by blast
  obtain s2 where "stop t s1 = Ret (s2, pending s1 t \<noteq> None)" "good s2" "pending s2 = (pending s1)(t := None)"
    using stop_law [OF s1(2)] by blast
  then show ?thesis using s1 by simp
qed

lemma stop_twice: "good s \<Longrightarrow> \<exists>s'. obind (stop t s) (\<lambda>(s1, _). stop t s1) = Ret (s', False) \<and> pending s' = (pending s)(t := None)"
  using stop_law [of s t] stop_law [of _ t] by fastforce

lemma start_twice:
  assumes "good s" "room s" "0 < v" "v \<le> maxWhen" "0 < w" "w \<le> maxWhen"
    and "\<And>s1. start t v s = Ret (s1, pending s t \<noteq> None) \<Longrightarrow> room s1"
  shows "\<exists>s'. obind (start t v s) (\<lambda>(s1, _). start t w s1) = Ret (s', True) \<and> pending s' = (pending s)(t := Some w)"
proof -
  obtain s1 where s1: "start t v s = Ret (s1, pending s t \<noteq> None)" "good s1" "pending s1 = (pending s)(t := Some v)"
    using start_law [OF assms(1-4)] by blast
  obtain s2 where "start t w s1 = Ret (s2, pending s1 t \<noteq> None)" "pending s2 = (pending s1)(t := Some w)"
    using start_law [OF s1(2) assms(7) [OF s1(1)] assms(5,6)] by blast
  then show ?thesis using s1 by simp
qed

end

text \<open>The runtime's timers provide it, and so do the timers that the poller's model assumes.\<close>

definition heap_room :: "nat \<Rightarrow> tsys \<Rightarrow> bool" where
  "heap_room cur s \<longleftrightarrow> cur \<noteq> 0 \<and> length (heap_of s cur) + 1 < 2 ^ 32"

lemma maxWhen_nonneg: "0 \<le> maxWhen"
  by (simp add: maxWhen_def)

interpretation rts: timer_service timers_inv "heap_room cur" fires "\<lambda>t w. Timers.modtimer cur t w 0 f arg seq" Timers.deltimer
proof unfold_locales
  show "\<exists>s'. Timers.modtimer cur t w 0 f arg seq s = Ret (s', fires s t \<noteq> None) \<and> timers_inv s' \<and> fires s' = (fires s)(t := Some w)"
    if "timers_inv s" "heap_room cur s" "0 < w" "w \<le> maxWhen" for s t w
    using modtimer_ok [of s cur w 0] that by (metis heap_room_def maxWhen_nonneg order_refl)
  show "\<exists>s'. Timers.deltimer t s = Ret (s', fires s t \<noteq> None) \<and> timers_inv s' \<and> fires s' = (fires s)(t := None)" if "timers_inv s" for s t
    using deltimer_ok [OF that] by metis
qed

definition tm_pending :: "timer \<Rightarrow> unit \<Rightarrow> int option" where
  "tm_pending tm u = (if tm_active tm then Some (tm_when tm) else None)"

interpretation nps: timer_service "\<lambda>_. True" "\<lambda>_. True" tm_pending
  "\<lambda>_ w tm. Ret (Netpoll.modtimer w f arg seq tm, tm_active tm)" "\<lambda>_ tm. Ret (Netpoll.deltimer tm, tm_active tm)"
  by unfold_locales (auto simp: tm_pending_def Netpoll.modtimer_def Netpoll.deltimer_def)

section \<open>The start, and the debugging check\<close>

text \<open>No P has timers yet.\<close>

definition timers0 :: "(nat \<Rightarrow> rtimer) \<Rightarrow> tsys" where
  "timers0 ts = \<lparr>ts_timer = ts,
     ts_p = (\<lambda>_. \<lparr>pt_timers = [], pt_timer0When = 0, pt_numTimers = 0, pt_deletedTimers = 0, pt_modifiedEarliest = 0\<rparr>),
     ts_preemptStop = False, ts_netpollInited = False, ts_lastpoll = 1, ts_pollUntil = 0, ts_log = []\<rparr>"

lemma timers0_heap [simp]: "heap_of (timers0 ts) q = []" "ts_log (timers0 ts) = []" "ts_timer (timers0 ts) = ts"
  by (simp_all add: timers0_def heap_of_def)

lemma timers0_inv:
  assumes "\<And>t. rt_pp (ts t) = 0 \<and> rt_status (ts t) = TNoStatus"
  shows "timers_inv (timers0 ts)"
proof -
  have "core {} (timers0 ts)" using assms unfolding core_def heap_inv_def heap_def by (simp add: timers0_def heap_of_def status_of_def)
  then show ?thesis by (simp add: inv_off_def deleted_ok_def deleted_count_def earliest_ok_def) (simp add: timers0_def)
qed

text \<open>Timers for the examples: each has been set to 20, with the period \<open>p\<close>.\<close>

definition new_timers :: "int \<Rightarrow> tsys" where
  "new_timers p = timers0 (\<lambda>t. \<lparr>rt_pp = 0, rt_when = 20, rt_period = p, rt_f = 2, rt_arg = t, rt_seq = 0, rt_nextwhen = 0, rt_status = TNoStatus\<rparr>)"

lemma new_timers_simps [simp]:
  "timers_inv (new_timers p)" "heap_of (new_timers p) q = []" "fires (new_timers p) t = None" "status_of (new_timers p) t = TNoStatus"
  "when_of (new_timers p) t = 20" "rt_period (ts_timer (new_timers p) t) = p" "ts_log (new_timers p) = []" "rt_pp (ts_timer (new_timers p) t) = 0"
  by (simp_all add: new_timers_def timers0_inv) (simp_all add: fires_def status_of_def when_of_def)

lemma verify_ok:
  assumes inv: "timers_inv s" and pid: "pid \<noteq> 0"
  shows "verifyTimerHeap pid s = Ret ()"
proof -
  have hi: "heap_inv s pid" using coreD(1) [OF timers_invD(1) [OF inv] pid] .
  then have "when_of s (heap_of s pid ! ((i - 1) div 4)) \<le> when_of s (heap_of s pid ! i)" if "0 < i" "i < length (heap_of s pid)" for i
    using that by (simp add: heap_inv_def heap_def parent_def)
  then have "\<not> (\<exists>i<length (heap_of s pid). 0 < i \<and> when_of s (heap_of s pid ! i) < when_of s (heap_of s pid ! ((i - 1) div 4)))"
    by (meson not_le)
  moreover have "int (length (heap_of s pid)) = uint (pt_numTimers (ts_p s pid))"
    using hi by (simp add: heap_inv_def unsigned_of_nat take_bit_nat_eq_self)
  ultimately show ?thesis by (simp add: verifyTimerHeap_def Let_def)
qed

section \<open>Properties\<close>

text \<open>
  C16. Adding, modifying and deleting a timer, each on any branch, are updates of the function that tells when each timer will
  fire, and keep the invariant of the heaps: a timer that starts or is modified fires at the new time, a
  deleted one does not, every other timer fires when it did (\<open>addtimer\<close> may move some of them to their places in the heap), and the answer
  is whether the timer was pending.
\<close>

theorem timers_refine:
  assumes "timers_inv s"
  shows "(cur \<noteq> 0 \<longrightarrow> length (heap_of s cur) + 1 < 2 ^ 32 \<longrightarrow> 0 < w \<longrightarrow> w \<le> maxWhen \<longrightarrow> 0 \<le> period \<longrightarrow> period \<le> maxWhen \<longrightarrow>
      (\<exists>s'. Timers.modtimer cur t w period f arg seq s = Ret (s', fires s t \<noteq> None) \<and> timers_inv s' \<and> fires s' = (fires s)(t := Some w)
        \<and> rt_period (ts_timer s' t) = period \<and> rt_f (ts_timer s' t) = f \<and> rt_arg (ts_timer s' t) = arg \<and> rt_seq (ts_timer s' t) = seq
        \<and> (\<forall>u. u \<noteq> t \<longrightarrow> ts_timer s' u = ts_timer s u)))
    \<and> (\<exists>s'. Timers.deltimer t s = Ret (s', fires s t \<noteq> None) \<and> timers_inv s' \<and> fires s' = (fires s)(t := None)
      \<and> heap_of s' = heap_of s \<and> (\<forall>u. u \<noteq> t \<longrightarrow> ts_timer s' u = ts_timer s u))
    \<and> (cur \<noteq> 0 \<longrightarrow> length (heap_of s cur) + 1 < 2 ^ 32 \<longrightarrow> status_of s t = TNoStatus \<longrightarrow> 0 < when_of s t \<longrightarrow> when_of s t \<le> maxWhen
      \<longrightarrow> 0 \<le> rt_period (ts_timer s t) \<longrightarrow> rt_period (ts_timer s t) \<le> maxWhen
      \<longrightarrow> (\<exists>s'. addtimer cur t s = Ret s' \<and> timers_inv s' \<and> fires s' = (fires s)(t := Some (when_of s t)) \<and> rt_pp (ts_timer s' t) = cur))"
proof (intro conjI impI)
  show "\<exists>s'. Timers.modtimer cur t w period f arg seq s = Ret (s', fires s t \<noteq> None) \<and> timers_inv s' \<and> fires s' = (fires s)(t := Some w)
      \<and> rt_period (ts_timer s' t) = period \<and> rt_f (ts_timer s' t) = f \<and> rt_arg (ts_timer s' t) = arg \<and> rt_seq (ts_timer s' t) = seq
      \<and> (\<forall>u. u \<noteq> t \<longrightarrow> ts_timer s' u = ts_timer s u)"
    if "cur \<noteq> 0" "length (heap_of s cur) + 1 < 2 ^ 32" "0 < w" "w \<le> maxWhen" "0 \<le> period" "period \<le> maxWhen"
    by (rule modtimer_ok [OF assms that(1,3-6,2), of t f arg seq]) blast
  show "\<exists>s'. Timers.deltimer t s = Ret (s', fires s t \<noteq> None) \<and> timers_inv s' \<and> fires s' = (fires s)(t := None)
      \<and> heap_of s' = heap_of s \<and> (\<forall>u. u \<noteq> t \<longrightarrow> ts_timer s' u = ts_timer s u)"
    by (rule deltimer_ok [OF assms, of t]) blast
  assume u: "cur \<noteq> 0" "length (heap_of s cur) + 1 < 2 ^ 32" "status_of s t = TNoStatus" "0 < when_of s t" "when_of s t \<le> maxWhen"
    "0 \<le> rt_period (ts_timer s t)" "rt_period (ts_timer s t) \<le> maxWhen"
  have "rt_pp (ts_timer s t) = 0"
    by (rule timer_cases [OF assms, of t]) (use u(3) fires_status [OF assms, of t] in auto)
  then show "\<exists>s'. addtimer cur t s = Ret s' \<and> timers_inv s' \<and> fires s' = (fires s)(t := Some (when_of s t)) \<and> rt_pp (ts_timer s' t) = cur"
    by (rule addtimer_ok [OF assms u(1,3) _ u(4-7,2)]) blast
qed

theorem timers_refine_witness:
  "\<exists>s s' s''. addtimer 1 7 (new_timers 0) = Ret s \<and> fires s 7 = Some 20 \<and> Timers.deltimer 7 s = Ret (s', True) \<and> fires s' 7 = None
     \<and> Timers.modtimer 1 7 50 0 2 3 4 (new_timers 0) = Ret (s'', False) \<and> fires s'' 7 = Some 50 \<and> fires s'' 8 = None"
proof -
  have m: "0 < (20 :: int)" "20 \<le> maxWhen" "0 < (50 :: int)" "50 \<le> maxWhen" by (simp_all add: maxWhen_def)
  obtain s where s: "addtimer 1 7 (new_timers 0) = Ret s" "timers_inv s" "fires s = (fires (new_timers 0))(7 := Some 20)"
    using timers_refine [THEN conjunct2, THEN conjunct2, rule_format, of "new_timers 0" 1 7] m by auto
  obtain s' where s': "Timers.deltimer 7 s = Ret (s', fires s 7 \<noteq> None)" "fires s' = (fires s)(7 := None)"
    using timers_refine [THEN conjunct2, THEN conjunct1, OF s(2), of 7] by auto
  obtain s'' where "Timers.modtimer 1 7 50 0 2 3 4 (new_timers 0) = Ret (s'', fires (new_timers 0) 7 \<noteq> None)" "fires s'' = (fires (new_timers 0))(7 := Some 50)"
    using timers_refine [THEN conjunct1, rule_format, of "new_timers 0" 1 50 0 7 2 3 4] m maxWhen_nonneg by auto
  then show ?thesis using s s' by auto
qed

text \<open>
  C18. What the runtime does to a heap on its own never changes when a timer fires: cleaning its head, moving modified timers to
  their places, clearing the deleted ones, and giving all timers of a P that goes away to another P keep the
  invariant. Moving touches nothing while no timer was modified to an earlier time that
  has come, and otherwise puts every timer of the heap in the place of its present time; so no timer that was modified to an earlier
  time is due and still out of place (one modified to a later time may wait in its old place, which is too early for it). Clearing leaves waiting timers only, a P that goes away keeps none, and
  the debugging check passes before and after.
\<close>

theorem timers_upkeep:
  assumes "timers_inv s" and "pid \<noteq> 0"
  shows "(\<exists>s'. cleantimers pid s = Ret s' \<and> timers_inv s' \<and> fires s' = fires s)
    \<and> (\<exists>s'. adjusttimers pid now s = Ret s' \<and> timers_inv s' \<and> fires s' = fires s
      \<and> (if pt_modifiedEarliest (ts_p s pid) = 0 \<or> pt_modifiedEarliest (ts_p s pid) > now then s' = s
          else \<forall>t\<in>set (heap_of s' pid). status_of s' t = TWaiting)
      \<and> (\<forall>t\<in>set (heap_of s' pid). status_of s' t = TModifiedEarlier \<longrightarrow> now < rt_nextwhen (ts_timer s' t)))
    \<and> (\<exists>s'. clearDeletedTimers pid s = Ret s' \<and> timers_inv s' \<and> fires s' = fires s
      \<and> (\<forall>t\<in>set (heap_of s' pid). status_of s' t = TWaiting) \<and> pt_deletedTimers (ts_p s' pid) = 0 \<and> verifyTimerHeap pid s' = Ret ())
    \<and> (plocal \<noteq> 0 \<longrightarrow> plocal \<noteq> pid \<longrightarrow> length (heap_of s plocal) + length (heap_of s pid) < 2 ^ 32 \<longrightarrow>
      (\<exists>s'. destroy_timers plocal pid s = Ret s' \<and> timers_inv s' \<and> fires s' = fires s \<and> heap_of s' pid = []
        \<and> (\<forall>t. rt_pp (ts_timer s t) = pid \<longrightarrow> fires s t \<noteq> None \<longrightarrow> rt_pp (ts_timer s' t) = plocal)))
    \<and> (verifyTimerHeap pid s = Ret ())"
proof (intro conjI impI)
  show "\<exists>s'. destroy_timers plocal pid s = Ret s' \<and> timers_inv s' \<and> fires s' = fires s \<and> heap_of s' pid = []
        \<and> (\<forall>t. rt_pp (ts_timer s t) = pid \<longrightarrow> fires s t \<noteq> None \<longrightarrow> rt_pp (ts_timer s' t) = plocal)"
    if "plocal \<noteq> 0" "plocal \<noteq> pid" "length (heap_of s plocal) + length (heap_of s pid) < 2 ^ 32"
    by (rule destroy_timers_ok [OF assms that]) blast
  show "\<exists>s'. cleantimers pid s = Ret s' \<and> timers_inv s' \<and> fires s' = fires s" using cleantimers_ok [OF assms] upkeepD(1,2) by blast
  show "\<exists>s'. adjusttimers pid now s = Ret s' \<and> timers_inv s' \<and> fires s' = fires s
      \<and> (if pt_modifiedEarliest (ts_p s pid) = 0 \<or> pt_modifiedEarliest (ts_p s pid) > now then s' = s
          else \<forall>t\<in>set (heap_of s' pid). status_of s' t = TWaiting)
      \<and> (\<forall>t\<in>set (heap_of s' pid). status_of s' t = TModifiedEarlier \<longrightarrow> now < rt_nextwhen (ts_timer s' t))"
    using adjusttimers_places [OF assms, of now] upkeepD(1,2) unfolding moved_up_def by blast
  show "\<exists>s'. clearDeletedTimers pid s = Ret s' \<and> timers_inv s' \<and> fires s' = fires s
      \<and> (\<forall>t\<in>set (heap_of s' pid). status_of s' t = TWaiting) \<and> pt_deletedTimers (ts_p s' pid) = 0 \<and> verifyTimerHeap pid s' = Ret ()"
    by (rule clearDeletedTimers_ok [OF assms]) (use upkeepD(1,2) verify_ok [OF _ assms(2)] in blast)
  show "verifyTimerHeap pid s = Ret ()" using verify_ok [OF assms] .
qed

theorem timers_upkeep_witness:
  "\<exists>s s' s'' s3. addtimer 1 7 (new_timers 0) = Ret s \<and> destroy_timers 2 1 s = Ret s3 \<and> fires s3 7 = Some 20 \<and> rt_pp (ts_timer s3 7) = 2
     \<and> Timers.deltimer 7 s = Ret (s', True) \<and> clearDeletedTimers 1 s' = Ret s'' \<and> fires s'' 7 = None \<and> verifyTimerHeap 1 s'' = Ret ()"
proof -
  have m: "0 < (20 :: int)" "20 \<le> maxWhen" by (simp_all add: maxWhen_def)
  obtain s where s: "addtimer 1 7 (new_timers 0) = Ret s" "timers_inv s" "fires s = (fires (new_timers 0))(7 := Some 20)" "rt_pp (ts_timer s 7) = 1"
      and p: "ts_p s 2 = ts_p (new_timers 0) 2"
    by (rule addtimer_ok [of "new_timers 0" 1 7]) (use m in auto)
  have h: "heap_of s 2 = []" using p new_timers_simps(2) [of 0 2] by (simp add: heap_of_def)
  have l: "length (heap_of s 2) + length (heap_of s 1) < 2 ^ 32" using coreD(1) [OF timers_invD(1) [OF s(2)], of 1] h by (simp add: heap_inv_def)
  obtain s3 where s3: "destroy_timers 2 1 s = Ret s3" "fires s3 = fires s"
      "\<forall>t. rt_pp (ts_timer s t) = 1 \<longrightarrow> fires s t \<noteq> None \<longrightarrow> rt_pp (ts_timer s3 t) = 2"
    using timers_upkeep [THEN conjunct2, THEN conjunct2, THEN conjunct2, THEN conjunct1, rule_format, OF s(2) one_neq_zero, of 2] l by auto
  obtain s' where s': "Timers.deltimer 7 s = Ret (s', fires s 7 \<noteq> None)" "timers_inv s'" "fires s' = (fires s)(7 := None)"
    by (rule deltimer_ok [OF s(2), of 7])
  obtain s'' where "clearDeletedTimers 1 s' = Ret s''" "fires s'' = fires s'" "verifyTimerHeap 1 s'' = Ret ()"
    using timers_upkeep [THEN conjunct2, THEN conjunct2, THEN conjunct1, OF s'(2) one_neq_zero] by auto
  moreover have "rt_pp (ts_timer s3 7) = 2" using s3(3) s(3,4) by simp
  ultimately show ?thesis using s(1,3) s' s3(1,2) by auto
qed

text \<open>
  C17. \<open>checkTimers\<close> always returns, when the functions of the timers leave the timers alone: all timers of the P whose time has come
  have run, each of them once and in the order of their times, and none of them is due any more; a
  periodic one is set to its next time, the others do not fire again, and no other timer is affected.
\<close>

theorem check_timers_returns:
  assumes "timers_inv s" and "pid \<noteq> 0" and "quiet call" and "n = (if now = 0 then nanotime else now)" "0 < n" "n < maxWhen"
  shows "\<exists>ts s' w. checkTimers call nanotime cur pid now s = Some (Ret (s', (if nobarrierWakeTime pid s = 0 then now else n), w, ts \<noteq> []))
      \<and> timers_inv s' \<and> distinct ts \<and> set ts = due_now pid n s \<and> sorted (map (\<lambda>t. the (fires s t)) ts)
      \<and> ts_log s' = ts_log s @ map (timer_event s) ts \<and> fires s' = (\<lambda>t. if t \<in> set ts then again n s t else fires s t) \<and> due_now pid n s' = {}"
  using checkTimers_ok [OF assms, of cur] unfolding ran_due_def by blast

lemma distinct_singleton_list: "distinct xs \<Longrightarrow> set xs = {x} \<Longrightarrow> xs = [x]"
  by (cases xs) (auto simp: subset_singleton_iff)

theorem check_timers_returns_witness:
  "\<exists>s s' w. addtimer 1 7 (new_timers 5) = Ret s \<and> checkTimers (\<lambda>_ _ _ s. s) 32 1 1 0 s = Some (Ret (s', 32, w, True))
     \<and> ts_log s' = ts_log s @ [TimerFunc 2 7 0] \<and> fires s' 7 = Some 35"
proof -
  have m: "0 < (20 :: int)" "20 \<le> maxWhen" "5 \<le> maxWhen" by (simp_all add: maxWhen_def)
  obtain s where s: "addtimer 1 7 (new_timers 5) = Ret s" "timers_inv s" "fires s = (fires (new_timers 5))(7 := Some 20)" "rt_pp (ts_timer s 7) = 1"
      and k: "kept_fields (ts_timer s 7) = kept_fields (ts_timer (new_timers 5) 7)"
    by (rule addtimer_ok [of "new_timers 5" 1 7]) (use m in auto)
  have due: "due_now 1 32 s = {7}" using s(3,4) by (auto simp: due_now_def split: if_splits)
  have q: "quiet (\<lambda>_ _ _ s. s)" by (simp add: quiet_def)
  have wake: "nobarrierWakeTime 1 s \<noteq> 0" using wake_time(1) [OF s(2) one_neq_zero s(4)] s(3) by simp
  obtain ts s' w where r: "checkTimers (\<lambda>_ _ _ s. s) 32 1 1 0 s = Some (Ret (s', (if nobarrierWakeTime 1 s = 0 then 0 else 32), w, ts \<noteq> []))"
      "distinct ts" "set ts = due_now 1 32 s" "ts_log s' = ts_log s @ map (timer_event s) ts" "fires s' = (\<lambda>t. if t \<in> set ts then again 32 s t else fires s t)"
    using check_timers_returns [OF s(2) one_neq_zero q, of 32 0 32 1] by (auto simp: maxWhen_def)
  have ts: "ts = [7]" using r(2,3) due by (metis distinct_singleton_list)
  have p: "rt_period (ts_timer s 7) = 5" "timer_event s 7 = TimerFunc 2 7 0"
    using kept_fieldsD [OF k] by (simp_all add: timer_event_def Let_def) (simp_all add: new_timers_def)
  have "next_period 32 5 20 = 35" by code_simp
  then have "fires s' 7 = Some 35" using r(5) ts p(1) s(3) by (simp add: again_def)
  then show ?thesis using s(1) r(1,4) wake ts p(2) by simp
qed

text \<open>
  C19. No timer is missed: the time at which a P says it must be woken, the minimum over the Ps that are looked at, and the time up
  to which \<open>sysmon\<close> may sleep are all at or before the time of each pending timer, also of one that another P modified
  and that is not in its place in the heap yet.
\<close>

theorem timers_wake_in_time:
  assumes "timers_inv s" and "rt_pp (ts_timer s t) = pid" and "fires s t = Some x"
  shows "(nobarrierWakeTime pid s \<noteq> 0 \<and> nobarrierWakeTime pid s \<le> x)
    \<and> ((pid, True) \<in> set allp \<longrightarrow> checkTimersNoP allp pollUntil s \<noteq> 0 \<and> checkTimersNoP allp pollUntil s \<le> x)
    \<and> (pid \<in> set ps \<longrightarrow> timeSleepUntil ps s \<le> x)"
proof -
  have pid: "pid \<noteq> 0" using fires_heap(1) [OF timers_invD(1) [OF assms(1)], of t] assms(2,3) by auto
  note w = wake_time [OF assms(1) pid assms(2,3)]
  have "checkTimersNoP allp pollUntil s \<noteq> 0 \<and> checkTimersNoP allp pollUntil s \<le> x" if "(pid, True) \<in> set allp"
    using checkTimersNoP_le [of allp pollUntil s] that w(1,2) order_trans by blast
  moreover have "timeSleepUntil ps s \<le> x" if "pid \<in> set ps"
    using w(3) timeSleepUntil_ge [OF that] order_trans by blast
  ultimately show ?thesis using w(1,2) by blast
qed

theorem timers_wake_in_time_witness:
  "\<exists>s s'. addtimer 1 7 (new_timers 0) = Ret s \<and> Timers.modtimer 2 7 5 0 2 3 4 s = Ret (s', True) \<and> nobarrierWakeTime 1 s' \<le> 5
     \<and> checkTimersNoP [(2, True), (1, True)] 15 s' \<le> 5 \<and> timeSleepUntil [1, 2] s' \<le> 5"
proof -
  have m: "0 < (20 :: int)" "20 \<le> maxWhen" "0 < (5 :: int)" "5 \<le> maxWhen" by (simp_all add: maxWhen_def)
  obtain s where s: "addtimer 1 7 (new_timers 0) = Ret s" "timers_inv s" "fires s = (fires (new_timers 0))(7 := Some 20)" "rt_pp (ts_timer s 7) = 1"
      and p: "ts_p s 2 = ts_p (new_timers 0) 2"
    by (rule addtimer_ok [of "new_timers 0" 1 7]) (use m in auto)
  have h: "heap_of s 2 = []" using p new_timers_simps(2) [of 0 2] by (simp add: heap_of_def)
  obtain s' where s': "Timers.modtimer 2 7 5 0 2 3 4 s = Ret (s', fires s 7 \<noteq> None)" "timers_inv s'" "fires s' = (fires s)(7 := Some 5)"
      "rt_pp (ts_timer s' 7) = (if rt_pp (ts_timer s 7) = 0 then 2 else rt_pp (ts_timer s 7))"
    by (rule modtimer_ok [OF s(2), of 2 5 0 7 2 3 4]) (use m h maxWhen_nonneg in auto)
  have f: "rt_pp (ts_timer s' 7) = 1" "fires s' 7 = Some 5" using s'(3,4) s(4) by simp_all
  note w = timers_wake_in_time [OF s'(2) f]
  have "nobarrierWakeTime 1 s' \<le> 5" "checkTimersNoP [(2, True), (1, True)] 15 s' \<le> 5" "timeSleepUntil [1, 2] s' \<le> 5"
    using w [of "[(2, True), (1, True)]" 15 "[1, 2]"] by simp_all
  then show ?thesis using s(1,3) s'(1) by auto
qed

text \<open>
  C21. A periodic timer that runs is set to the first of its times after now, however many it has missed; the arithmetic wraps
  at 64 bits nowhere but where the result is then replaced by the greatest time.
\<close>

theorem periodic_next_time:
  assumes "0 < t" "t \<le> now" "now < maxWhen" and "0 < period" "period \<le> maxWhen"
  shows "(next_period now period t = min maxWhen (t + period * (1 + (now - t) div period)))
    \<and> (now < next_period now period t)
    \<and> (next_period now period t \<le> now + period)
    \<and> (0 < k \<longrightarrow> now < t + k * period \<longrightarrow> next_period now period t \<le> t + k * period)"
proof (intro conjI impI)
  show e: "next_period now period t = min maxWhen (t + period * (1 + (now - t) div period))"
    using next_period_eq [of t now period] assms by simp
  show "now < next_period now period t" "next_period now period t \<le> now + period" using next_period_bounds [OF assms] by blast+
  assume "0 < k" "now < t + k * period"
  have "(now - t) div period < k"
  proof (rule ccontr)
    assume "\<not> (now - t) div period < k"
    then have "period * k \<le> period * ((now - t) div period)" using assms(4) by (simp add: mult_left_mono)
    also have "\<dots> \<le> now - t" using mult_div_le_int [OF assms(4)] .
    finally show False using \<open>now < t + k * period\<close> by (simp add: mult.commute)
  qed
  then have "period * (1 + (now - t) div period) \<le> period * k" using assms(4) by (intro mult_left_mono) simp_all
  then have "period * (1 + (now - t) div period) \<le> k * period" by (simp add: mult.commute)
  then show "next_period now period t \<le> t + k * period" using e by simp
qed

theorem periodic_next_time_witness:
  "next_period 32 5 20 = 35 \<and> next_period (maxWhen - 1) (maxWhen - 1) 20 = maxWhen"
proof
  have m: "0 < (20 :: int)" "20 \<le> maxWhen - 1" "maxWhen - 1 < maxWhen" "0 < maxWhen - 1" "maxWhen - 1 \<le> maxWhen" by (simp_all add: maxWhen_def)
  show "next_period 32 5 20 = 35" using periodic_next_time [THEN conjunct1, of 20 32 5] by (simp add: maxWhen_def)
  show "next_period (maxWhen - 1) (maxWhen - 1) 20 = maxWhen"
    using periodic_next_time [THEN conjunct1, OF m] by (simp add: maxWhen_def div_pos_pos_trivial)
qed

section \<open>The timers of the poller\<close>

text \<open>What a timer is called with does not matter to the heaps.\<close>

lemma timers_inv_fields:
  assumes e: "\<And>u. rt_pp (ts_timer s' u) = rt_pp (ts_timer s u)" "\<And>u. rt_when (ts_timer s' u) = rt_when (ts_timer s u)"
      "\<And>u. rt_period (ts_timer s' u) = rt_period (ts_timer s u)" "\<And>u. rt_nextwhen (ts_timer s' u) = rt_nextwhen (ts_timer s u)"
      "\<And>u. rt_status (ts_timer s' u) = rt_status (ts_timer s u)" and p: "ts_p s' = ts_p s"
  shows "timers_inv s' = timers_inv s" "fires s' = fires s"
proof -
  have w: "when_of s' = when_of s" "status_of s' = status_of s" "heap_of s' = heap_of s"
    using e p by (simp_all add: when_of_def status_of_def heap_of_def fun_eq_iff)
  show "timers_inv s' = timers_inv s"
    unfolding inv_off_def core_def heap_inv_def timer_ok_def deleted_ok_def earliest_ok_def deleted_count_def Let_def e p w by (rule refl)
  show "fires s' = fires s" by (rule ext) (simp only: fires_def e Let_def)
qed

text \<open>
  The timer at the address \<open>t\<close> is the timer \<open>tm\<close> of the poller's model: it is pending for the same time, and runs the same
  function with the same arguments. The functions have the addresses 1 to 3.
\<close>

definition func_addr :: "timer_func option \<Rightarrow> nat" where
  "func_addr f = (case f of None \<Rightarrow> 0 | Some NetpollDeadline \<Rightarrow> 1 | Some NetpollReadDeadline \<Rightarrow> 2 | Some NetpollWriteDeadline \<Rightarrow> 3)"

definition is_timer :: "tsys \<Rightarrow> nat \<Rightarrow> timer \<Rightarrow> bool" where
  "is_timer s t tm \<longleftrightarrow> fires s t = tm_pending tm () \<and> rt_f (ts_timer s t) = func_addr (tm_f tm) \<and> rt_arg (ts_timer s t) = unat (tm_arg tm)
     \<and> rt_seq (ts_timer s t) = tm_seq tm \<and> rt_period (ts_timer s t) = 0"

lemma is_timer_cong: "ts_timer s' u = ts_timer s u \<Longrightarrow> is_timer s' u tm = is_timer s u tm"
  by (simp add: is_timer_def fires_def)

lemma is_timer_pending: "is_timer s t tm \<Longrightarrow> fires s t \<noteq> None \<longleftrightarrow> tm_active tm"
  by (simp add: is_timer_def tm_pending_def)

lemma poll_modtimer:
  assumes "timers_inv s" and "is_timer s t tm" and "heap_room cur s" and "0 < w" "w \<le> maxWhen"
  obtains s' where "Timers.modtimer cur t w 0 (func_addr f) (unat arg) seq s = Ret (s', tm_active tm)" "timers_inv s'"
    "is_timer s' t (tm\<lparr>tm_when := w, tm_f := f, tm_arg := arg, tm_seq := seq, tm_active := True\<rparr>)"
    "\<And>u tm'. u \<noteq> t \<Longrightarrow> is_timer s' u tm' = is_timer s u tm'"
proof -
  have r: "cur \<noteq> 0" "length (heap_of s cur) + 1 < 2 ^ 32" using assms(3) by (simp_all add: heap_room_def)
  obtain s' where s': "Timers.modtimer cur t w 0 (func_addr f) (unat arg) seq s = Ret (s', fires s t \<noteq> None)" "timers_inv s'" "fires s' = (fires s)(t := Some w)"
    "rt_period (ts_timer s' t) = 0 \<and> rt_f (ts_timer s' t) = func_addr f \<and> rt_arg (ts_timer s' t) = unat arg \<and> rt_seq (ts_timer s' t) = seq"
    "\<forall>u. u \<noteq> t \<longrightarrow> ts_timer s' u = ts_timer s u"
    using modtimer_ok [OF assms(1) r(1) assms(4,5) order_refl maxWhen_nonneg r(2), of t "func_addr f" "unat arg" seq] by metis
  have "is_timer s' t (tm\<lparr>tm_when := w, tm_f := f, tm_arg := arg, tm_seq := seq, tm_active := True\<rparr>)"
    using s'(3,4) by (simp add: is_timer_def tm_pending_def)
  moreover have "is_timer s' u tm' = is_timer s u tm'" if "u \<noteq> t" for u tm' using s'(5) that is_timer_cong by blast
  ultimately show thesis using that s'(1,2) is_timer_pending [OF assms(2)] by simp
qed

text \<open>
  C20. The runtime's timers do what the model of the network poller assumes of its two timers: each of the three calls
  that the poller makes answers and acts on the timer in the heap as on the abstract one, also when the poller has set
  its function and arguments before; the heaps stay in order and every other timer is what it was, as far as the
  poller can see (when it fires, its function and its arguments).
\<close>

theorem poll_timers_implemented:
  assumes "timers_inv s" and "is_timer s t tm"
  shows "(heap_room cur s \<longrightarrow> 0 < w \<longrightarrow> w \<le> maxWhen \<longrightarrow>
      (\<exists>s'. Timers.modtimer cur t w 0 (func_addr (Some f)) (unat arg) seq s = Ret (s', tm_active tm) \<and> timers_inv s'
        \<and> is_timer s' t (Netpoll.modtimer w f arg seq tm) \<and> (\<forall>u tm'. u \<noteq> t \<longrightarrow> is_timer s' u tm' = is_timer s u tm')))
    \<and> (heap_room cur s \<longrightarrow> 0 < w \<longrightarrow> w \<le> maxWhen \<longrightarrow>
      (\<exists>s'. Timers.resettimer cur t w s = Ret (s', tm_active tm) \<and> timers_inv s'
        \<and> is_timer s' t (Netpoll.resettimer w tm) \<and> (\<forall>u tm'. u \<noteq> t \<longrightarrow> is_timer s' u tm' = is_timer s u tm')))
    \<and> (\<exists>s'. Timers.deltimer t s = Ret (s', tm_active tm) \<and> timers_inv s'
        \<and> is_timer s' t (Netpoll.deltimer tm) \<and> (\<forall>u tm'. u \<noteq> t \<longrightarrow> is_timer s' u tm' = is_timer s u tm'))
    \<and> (\<exists>s'. s' = upd_timer t (\<lambda>x. x\<lparr>rt_f := func_addr g, rt_arg := unat a, rt_seq := q\<rparr>) s \<and> timers_inv s'
        \<and> is_timer s' t (tm\<lparr>tm_f := g, tm_arg := a, tm_seq := q\<rparr>) \<and> (\<forall>u tm'. u \<noteq> t \<longrightarrow> is_timer s' u tm' = is_timer s u tm'))"
proof (intro conjI impI)
  show "\<exists>s'. Timers.modtimer cur t w 0 (func_addr (Some f)) (unat arg) seq s = Ret (s', tm_active tm) \<and> timers_inv s'
        \<and> is_timer s' t (Netpoll.modtimer w f arg seq tm) \<and> (\<forall>u tm'. u \<noteq> t \<longrightarrow> is_timer s' u tm' = is_timer s u tm')"
    if "heap_room cur s" "0 < w" "w \<le> maxWhen"
    by (rule poll_modtimer [OF assms that, of "Some f" arg seq]) (auto simp: Netpoll.modtimer_def)
  have x: "Timers.resettimer cur t w s = Timers.modtimer cur t w 0 (func_addr (tm_f tm)) (unat (tm_arg tm)) (tm_seq tm) s"
    using assms(2) by (simp add: Timers.resettimer_def is_timer_def Let_def)
  show "\<exists>s'. Timers.resettimer cur t w s = Ret (s', tm_active tm) \<and> timers_inv s'
        \<and> is_timer s' t (Netpoll.resettimer w tm) \<and> (\<forall>u tm'. u \<noteq> t \<longrightarrow> is_timer s' u tm' = is_timer s u tm')"
    if "heap_room cur s" "0 < w" "w \<le> maxWhen"
    unfolding x by (rule poll_modtimer [OF assms that, of "tm_f tm" "tm_arg tm" "tm_seq tm"]) (auto simp: Netpoll.resettimer_def)
  obtain s1 where s1: "Timers.deltimer t s = Ret (s1, fires s t \<noteq> None)" "timers_inv s1" "fires s1 = (fires s)(t := None)"
    "\<forall>u. u \<noteq> t \<longrightarrow> ts_timer s1 u = ts_timer s u" "kept_fields (ts_timer s1 t) = kept_fields (ts_timer s t)"
    using deltimer_ok [OF assms(1), of t] by metis
  have "is_timer s1 t (Netpoll.deltimer tm)"
    using s1(3) assms(2) kept_fieldsD [OF s1(5)] by (simp add: is_timer_def tm_pending_def Netpoll.deltimer_def)
  then show "\<exists>s'. Timers.deltimer t s = Ret (s', tm_active tm) \<and> timers_inv s'
        \<and> is_timer s' t (Netpoll.deltimer tm) \<and> (\<forall>u tm'. u \<noteq> t \<longrightarrow> is_timer s' u tm' = is_timer s u tm')"
    using s1(1,2,4) is_timer_pending [OF assms(2)] is_timer_cong [of s1 _ s] by (intro exI [of _ s1]) simp
  let ?s = "upd_timer t (\<lambda>x. x\<lparr>rt_f := func_addr g, rt_arg := unat a, rt_seq := q\<rparr>) s"
  have "timers_inv ?s" "fires ?s = fires s" using timers_inv_fields [of ?s s] assms(1) by simp_all
  then have "timers_inv ?s \<and> is_timer ?s t (tm\<lparr>tm_f := g, tm_arg := a, tm_seq := q\<rparr>) \<and> (\<forall>u tm'. u \<noteq> t \<longrightarrow> is_timer ?s u tm' = is_timer s u tm')"
    using assms(2) by (auto simp: is_timer_def tm_pending_def)
  then show "\<exists>s'. s' = ?s \<and> timers_inv s'
        \<and> is_timer s' t (tm\<lparr>tm_f := g, tm_arg := a, tm_seq := q\<rparr>) \<and> (\<forall>u tm'. u \<noteq> t \<longrightarrow> is_timer s' u tm' = is_timer s u tm')"
    by blast
qed

theorem poll_timers_implemented_witness:
  "\<exists>s s'. Timers.modtimer 1 7 50 0 (func_addr (Some NetpollReadDeadline)) 9 3 (upd_timer 7 (\<lambda>x. x\<lparr>rt_f := 0, rt_arg := 0\<rparr>) (new_timers 0)) = Ret (s, False)
     \<and> Timers.deltimer 7 s = Ret (s', True)
     \<and> is_timer s' 7 \<lparr>tm_f = Some NetpollReadDeadline, tm_arg = 9, tm_seq = 3, tm_when = 50, tm_active = False\<rparr>"
proof -
  let ?s = "upd_timer 7 (\<lambda>x. x\<lparr>rt_f := 0, rt_arg := 0\<rparr>) (new_timers 0)"
  let ?tm = "\<lparr>tm_f = None, tm_arg = 0, tm_seq = 0, tm_when = 0, tm_active = False\<rparr>"
  have i: "timers_inv ?s" "fires ?s = fires (new_timers 0)" using timers_inv_fields [of ?s "new_timers 0"] by simp_all
  then have t: "is_timer ?s 7 ?tm" by (simp add: is_timer_def tm_pending_def func_addr_def) (simp add: new_timers_def)
  have m: "heap_room 1 ?s" "0 < (50 :: int)" "50 \<le> maxWhen" by (simp_all add: heap_room_def maxWhen_def)
  obtain s where s: "Timers.modtimer 1 7 50 0 (func_addr (Some NetpollReadDeadline)) (unat (9 :: uintptr)) 3 ?s = Ret (s, False)" "timers_inv s"
      "is_timer s 7 (Netpoll.modtimer 50 NetpollReadDeadline 9 3 ?tm)"
    using poll_timers_implemented [THEN conjunct1, rule_format, OF i(1) t m, of NetpollReadDeadline 9 3] by auto
  obtain s' where "Timers.deltimer 7 s = Ret (s', tm_active (Netpoll.modtimer 50 NetpollReadDeadline 9 3 ?tm))"
      "is_timer s' 7 (Netpoll.deltimer (Netpoll.modtimer 50 NetpollReadDeadline 9 3 ?tm))"
    using poll_timers_implemented [THEN conjunct2, THEN conjunct2, THEN conjunct1, OF s(2,3)] by blast
  then show ?thesis using s(1) by (auto simp: Netpoll.modtimer_def Netpoll.deltimer_def)
qed

section \<open>Sleeping\<close>

lemma off_fields:
  assumes inv: "timers_inv s" and pp: "rt_pp (ts_timer s t) = 0" and tm: "ts_timer s1 = (ts_timer s)(t := x)" and p: "ts_p s1 = ts_p s"
    and x: "rt_pp x = 0" "rt_status x = rt_status (ts_timer s t)"
  shows "timers_inv s1" "fires s1 = fires s"
proof -
  have i: "inv_off {t} s1" using off_prepare [OF inv pp tm p x(1)] .
  have st: "status_of s t = TNoStatus \<or> status_of s t = TRemoved" using coreD(5) [OF timers_invD(1) [OF inv] pp] by blast
  then have "status_of s1 t = TNoStatus \<or> status_of s1 t = TRemoved" using tm x(2) by (simp add: status_of_def)
  then have "core {} s1" using timers_invD(1) [OF i] unfolding core_def by blast
  then show "timers_inv s1" using i by (simp add: inv_off_def)
  have "fires s1 t = None" "fires s t = None" using st tm x(2) by (auto simp: fires_def status_of_def Let_def)
  then show "fires s1 = fires s" using fires_upd [OF tm] by (simp add: fun_upd_idem)
qed

text \<open>
  \<open>time.Sleep\<close> starts the timer of the goroutine for the time of the call plus the duration, or for the greatest time if the
  sum overflows; the timer will run \<open>goroutineReady\<close> on this goroutine, and no other timer is affected. For a
  duration that is not positive it does nothing.
\<close>

theorem sleep_starts_timer:
  assumes "timers_inv s" and "heap_room cur s" and "rt_pp (ts_timer s t) = 0" "rt_period (ts_timer s t) = 0"
    and "0 \<le> nanotime" "nanotime \<le> maxWhen" and "ns \<le> maxWhen"
  shows "if ns \<le> 0 then timeSleep goroutineReady cur gp nanotime ns t s = Ret s
    else \<exists>s'. timeSleep goroutineReady cur gp nanotime ns t s = Ret s' \<and> timers_inv s' \<and> fires s' = (fires s)(t := Some (min maxWhen (nanotime + ns)))
      \<and> timer_event s' t = TimerFunc goroutineReady gp (rt_seq (ts_timer s t))"
proof (cases "ns \<le> 0")
  case False
  let ?w = "min maxWhen (nanotime + ns)"
  have m: "maxWhen = 2 ^ 63 - 1" by (simp add: maxWhen_def)
  have w: "(if wrap64 (nanotime + ns) < 0 then maxWhen else wrap64 (nanotime + ns)) = ?w"
  proof (cases "nanotime + ns < 2 ^ 63")
    case True
    then show ?thesis using wrap64_id [of "nanotime + ns"] False assms(5) m by simp
  next
    case over: False
    then show ?thesis using wrap64_over [of "nanotime + ns"] assms(6,7) m by simp
  qed
  define s1 where "s1 = timeSleep_prepare goroutineReady gp nanotime ns t s"
  have tm: "ts_timer s1 = (ts_timer s)(t := (ts_timer s t)\<lparr>rt_f := goroutineReady, rt_arg := gp, rt_nextwhen := ?w\<rparr>)" "ts_p s1 = ts_p s"
    unfolding s1_def timeSleep_prepare_def Let_def w by simp_all
  have i: "timers_inv s1" "fires s1 = fires s" using off_fields [OF assms(1,3) tm] assms(3) by simp_all
  have r: "cur \<noteq> 0" "length (heap_of s1 cur) + 1 < 2 ^ 32" using assms(2) tm(2) by (simp_all add: heap_room_def heap_of_def)
  have wr: "0 < ?w" "?w \<le> maxWhen" using False assms(5) m by simp_all
  obtain s' where s': "Timers.modtimer cur t ?w 0 goroutineReady gp (rt_seq (ts_timer s t)) s1 = Ret (s', fires s1 t \<noteq> None)" "timers_inv s'" "fires s' = (fires s1)(t := Some ?w)"
    "rt_period (ts_timer s' t) = 0 \<and> rt_f (ts_timer s' t) = goroutineReady \<and> rt_arg (ts_timer s' t) = gp \<and> rt_seq (ts_timer s' t) = rt_seq (ts_timer s t)"
    by (rule modtimer_ok [OF i(1) r(1) wr order_refl maxWhen_nonneg r(2), of t goroutineReady gp "rt_seq (ts_timer s t)"])
  have "timeSleep goroutineReady cur gp nanotime ns t s = Ret s'"
    using False s'(1) tm(1) assms(4) by (simp add: timeSleep_def s1_def [symmetric] resetForSleep_def Timers.resettimer_def Let_def)
  then show ?thesis using False s' i(2) by (simp add: timer_event_def Let_def)
qed (simp add: timeSleep_def)

theorem sleep_starts_timer_witness:
  "\<exists>s. timeSleep 5 1 3 100 (maxWhen - 1) 7 (new_timers 0) = Ret s \<and> fires s 7 = Some maxWhen \<and> timer_event s 7 = TimerFunc 5 3 0"
proof -
  have m: "0 \<le> (100 :: int)" "100 \<le> maxWhen" "maxWhen - 1 \<le> maxWhen" "\<not> maxWhen - 1 \<le> 0" "min maxWhen (100 + (maxWhen - 1)) = maxWhen" by (simp_all add: maxWhen_def)
  have "heap_room 1 (new_timers 0)" "rt_seq (ts_timer (new_timers 0) 7) = 0" by (simp add: heap_room_def) (simp add: new_timers_def)
  then show ?thesis
    using sleep_starts_timer [of "new_timers 0" 1 7 100 "maxWhen - 1" 5 3] m by auto
qed

section \<open>The time that checkTimers returns\<close>

text \<open>
  The time of the first timer of the heap, which \<open>checkTimers\<close> returns, is not always the time of the next timer, as its comment
  says: timer 7 was modified to fire at 50 and has not been moved yet when the answer is 90, the time of timer 8. (The caller
  asks \<open>checkTimersNoP\<close> again before it sleeps.)
\<close>

definition late_timers :: tsys where
  "late_timers = (new_timers 0)
     \<lparr>ts_timer := (\<lambda>t. \<lparr>rt_pp = (if t \<in> {7, 8, 9} then 1 else 0), rt_when = (if t = 9 then 5 else if t = 8 then 90 else 100), rt_period = 0, rt_f = 2, rt_arg = t,
        rt_seq = 0, rt_nextwhen = 50, rt_status = (if t = 7 then TModifiedEarlier else if t \<in> {8, 9} then TWaiting else TNoStatus)\<rparr>),
      ts_p := (\<lambda>p. \<lparr>pt_timers = (if p = 1 then [9, 8, 7] else []), pt_timer0When = (if p = 1 then 5 else 0), pt_numTimers = (if p = 1 then 3 else 0),
        pt_deletedTimers = 0, pt_modifiedEarliest = (if p = 1 then 50 else 0)\<rparr>)\<rparr>"

lemma late_simps:
  "when_of late_timers t = (if t = 9 then 5 else if t = 8 then 90 else 100)" "heap_of late_timers p = (if p = 1 then [9, 8, 7] else [])"
  "status_of late_timers t = (if t = 7 then TModifiedEarlier else if t \<in> {8, 9} then TWaiting else TNoStatus)"
  "rt_pp (ts_timer late_timers t) = (if t \<in> {7, 8, 9} then 1 else 0)"
  by (simp_all add: late_timers_def when_of_def heap_of_def status_of_def)

lemma late_inv: "timers_inv late_timers"
proof -
  have h: "heap (when_of late_timers) [9, 8, 7]"
    by (auto simp: heap_def parent_def late_simps nth_Cons split: nat.splits)
  have i: "heap_inv late_timers p" for p
    using h by (cases "p = 1") (simp_all add: heap_inv_def late_simps heap_def, simp_all add: late_timers_def)
  have ok: "timer_ok late_timers 1 7" "timer_ok late_timers 1 8" "timer_ok late_timers 1 9"
    by (simp_all add: timer_ok_def late_timers_def maxWhen_def)
  have "core {} late_timers" using i ok unfolding core_def by (auto simp: late_simps)
  then show ?thesis by (simp add: inv_off_def deleted_ok_def deleted_count_def earliest_ok_def late_simps) (simp add: late_timers_def)
qed

declare run_loop.simps [code]

lemma poll_until_late:
  "(case checkTimers (\<lambda>_ _ _ s. s) 10 2 1 10 late_timers of Some (Ret (s, now, w, b)) \<Rightarrow> (w, fires s 7, nobarrierWakeTime 1 s)) = (90, Some 50, 50)"
  by code_simp

end
