(* ===== verification/Spec2Isabelle.thy ===== *)
theory Spec2Isabelle
  imports FdMutexMachine NetpollMachine NetpollEpoll RunQueue FdTransferProps NetPrefixText TimersProps
begin

text \<open>
  The network stack under Go's net package, as vendored in \<^verbatim>\<open>src/02_go_sdk/go/src\<close> (Go 1.22.5), on Linux.
  File names below are relative to that directory.

  \<^bold>\<open>The program.\<close> A connection is an \<open>FD\<close> (\<^verbatim>\<open>internal/poll/fd_unix.go\<close>). Each of its methods takes a
  reference or a lock of its \<open>fdMutex\<close> (\<^verbatim>\<open>internal/poll/fd_mutex.go\<close>), makes the system call, and when the
  kernel answers \<open>EAGAIN\<close> waits in the network poller (\<^verbatim>\<open>runtime/netpoll.go\<close>), which parks the
  goroutine in one of two semaphores of the descriptor's \<open>pollDesc\<close>. The epoll backend
  (\<^verbatim>\<open>runtime/netpoll_epoll.go\<close>) turns kernel events into goroutines that are ready; it finds the
  \<open>pollDesc\<close> by a tagged pointer (\<^verbatim>\<open>runtime/tagptr_64bit.go\<close>, \<^verbatim>\<open>runtime/tagptr_32bit.go\<close>), whose tag tells events of an earlier use of
  the same memory. Goroutines that are ready go to the run queues of the scheduler
  (\<^verbatim>\<open>runtime/proc.go\<close>, \<^verbatim>\<open>runtime/runtime2.go\<close>). Deadlines are timers (\<^verbatim>\<open>runtime/time.go\<close>): each P has a heap
  of them, which the scheduler runs with \<open>checkTimers\<close> and whose first time bounds its wait in the poller. Addresses are values of \<^verbatim>\<open>net/netip\<close>, and
  their text uses the integer formatting and parsing of \<^verbatim>\<open>strconv\<close> and \<^verbatim>\<open>internal/itoa\<close>.

  \<^bold>\<open>The theories\<close>, in the order of the imports.

  \<^item> \<open>GoPrelude\<close>: outcomes of Go code (a value, a panic, a wait that does not end), bit fields of words, sums
    over functions, and the locales that two components share: \<open>codec\<close> (a decoder that reads back what an encoder
    writes) and \<open>comparison\<close> (a three-way comparison). Each is interpreted on the definitions of the
    model: \<open>codec\<close> on the text and binary forms of addresses, ports and prefixes, \<open>comparison\<close> on their order.
  \<^item> \<open>FdMutex\<close>, \<open>FdMutexMachine\<close>: the 64-bit word of the \<open>fdMutex\<close>, each pass of its loops (\<open>incref_try\<close>,
    \<open>rwlock_try\<close> and the others), the loops run alone, and the step relation \<open>mstep\<close> in which any number
    of goroutines run the loops with a load, a compare-and-swap, and waits on two semaphores.
  \<^item> \<open>Netpoll\<close>, \<open>NetpollMachine\<close>: the \<open>pollDesc\<close> and all operations on it, deadlines and their timers included; the
    step relation \<open>wstep\<close> interleaves a reader and a writer with closing, deadlines, timers and events, one atomic access at a time:
    the swap of a semaphore, each adjustment of \<open>netpollWaiters\<close> and each readying are steps of their own.
  \<^item> \<open>TaggedPtr\<close>, \<open>NetpollEpoll\<close>: tagged pointers on all 64-bit and 32-bit platforms; registration, the decoding of events, waiting and
    breaking the wait. The answers of the kernel are arguments.
  \<^item> \<open>GQueue\<close>, \<open>RunQueue\<close>: the queue of goroutines linked through \<open>schedlink\<close>, and the ring of 256
    slots with \<open>runnext\<close> of a P, with the global queue.
  \<^item> \<open>TimerHeap\<close>, \<open>Timers\<close>: the 4-ary heap with its sifting, and all operations on timers, from \<open>addtimer\<close> to \<open>checkTimers\<close> and
    \<open>timeSleep\<close>. \<open>TimersInv\<close>, \<open>TimersRun\<close>, \<open>TimersClear\<close>, \<open>TimersOps\<close>, \<open>TimersMove\<close>: the invariant \<open>timers_inv\<close> (heap order, counters,
    which status a timer may have where) and the function \<open>fires\<close>, which says when each timer will run; what every operation
    does to the two. \<open>TimersProps\<close>: the properties, with the locale \<open>timer_service\<close> of what a client relies on, interpreted on the
    heaps of the runtime and on the two timers that \<open>Netpoll\<close> gives a descriptor.
  \<^item> \<open>PollFD\<close>, \<open>FdOps\<close>, \<open>FdProps\<close>, \<open>FdIO\<close>: the \<open>FD\<close> and its methods as state transformers of a \<open>world\<close>, which holds the
    descriptor, the poller and what the environment will do: the answers to the system calls to come and the events at each
    wait. The log of system calls with their answers is part of the state, so that properties can say what reached the kernel.
  \<^item> \<open>FdTransfer\<close>, \<open>FdTransferProps\<close>: socket options, and the copies inside the kernel: \<open>SendFile\<close> on one FD, \<open>Splice\<close> and
    \<open>CopyFileRange\<close> on two of them (\<open>transfer\<close>: the world of the destination, the source, and the pool of pipes).
  \<^item> \<open>NetUint128\<close>, \<open>NetAddr\<close>, \<open>NetAddrProps\<close>, \<open>NetText\<close>, \<open>NetFields\<close>, \<open>NetTextProps\<close>: 128-bit values, \<open>Addr\<close>, its binary
    form and order, parsing and printing.
  \<^item> \<open>Strconv\<close>, \<open>StrconvProps\<close>, \<open>StrconvFormat\<close>: numbers and their text, for hosts with 32 and 64 bits.
  \<^item> \<open>NetPrefix\<close>, \<open>NetPrefixProps\<close>, \<open>NetPrefixText\<close>: \<open>AddrPort\<close> and \<open>Prefix\<close>.

  \<^bold>\<open>What is shown.\<close> Of the \<open>fdMutex\<close>: mutual exclusion, one report of the last reference, and no lost wake-up under
  every interleaving, and that the word refines three flags and three counters. Of the poller: that no goroutine stays
  parked on a descriptor that is closing or past its deadline, that deadlines are armed and fire, that waiters are
  counted exactly up to the adjustments that are still on their way, which pointers survive a tagged pointer, and that events of an old registration are dropped. Of the run queues: refinement of a sequence, and that
  stealing loses no goroutine, with the exact condition under which it throws. Of the timers: that starting, modifying and stopping one are updates of \<open>fires\<close>, that
  all upkeep of the heaps leaves \<open>fires\<close> alone, that \<open>checkTimers\<close> returns and has run every timer that was due, once and in
  order, that no P is told to wake later than its next timer, when periodic timers run again, and that the heaps do what the
  poller's model assumes of its timers. Of the \<open>FD\<close>: what a closed descriptor answers to every method that takes a lock or a reference, that locks are given back on
  every path, that a read makes its calls and waits in the order the code has them and returns the answer of the last, that writes
  deliver what the kernel took, when the descriptor is closed, and that copies inside the kernel
  count what was moved and leave no data of a connection in a pipe that is used again. Of \<open>netip\<close>
  and \<open>strconv\<close>: that values are well formed, round trips of all text and binary forms, the orders, membership and overlap of
  prefixes as statements about 128-bit values, and that the arithmetic on 64 bits in parsing never goes wrong.

  \<^bold>\<open>Integers\<close> keep their width: words of 8 to 64 bits where the code does arithmetic or bit operations on them, and \<open>int\<close>
  with the wrap-around written out where the code adds deadlines (\<open>add64\<close>, \<open>wrap64\<close>) or converts between sizes. Strings are lists of bytes.

  \<^bold>\<open>Loops.\<close> The loops of the \<open>fdMutex\<close> retry only when another goroutine changed the word, which the step relation makes
  explicit. The loops of the \<open>FD\<close> end because each pass uses up an answer of the environment (\<open>todo\<close>); an
  environment with nothing left to say makes the method wait for ever (\<open>Blocked\<close>). The digit loops of \<open>formatBits\<close> have 64
  passes, which is enough since each takes a bit at least (\<open>formatBits_digits\<close> shows that nothing is left);
  \<open>print6_loop\<close> has 8, one for each field of an address. The loop of \<open>checkTimers\<close> (\<open>run_loop\<close>) may go on for ever
  when the functions of the timers keep adding timers that are due, so it is a \<open>partial_function\<close>; it is shown to return when they leave the
  timers alone. The other loops over a heap end because each pass takes a timer off it or leaves one timer fewer to move
  (\<open>unsettled\<close>). All other loops are structural or have a measure.

  \<^bold>\<open>Not modelled.\<close> The kernel and the assembly under the system calls; the other pollers; the
  rest of the scheduler (\<open>findRunnable\<close>, threads, preemption, the channels of package \<open>time\<close>); the garbage collector, the compiler and the rest of the standard
  library; the C programs of the notebook. The run queues are modelled for a P that is alone on them: the atomic accesses of a
  concurrent thief are not interleaved. Likewise the operations on timers run with the locks they take held; where the code waits
  for a status that another goroutine has set for a short time, the operation is \<open>Blocked\<close>.
\<close>

end
